(* ===== verification/Prelude.thy ===== *)
theory Prelude
  imports Main "HOL-Library.Word" "HOL-Library.List_Lexorder"
begin

text \<open>
  Shared vocabulary of the development: the machine types of the C++ sources (a
  \<open>std::string\<close>, a \<open>Slice\<close> or a buffer is a list of bytes, \<open>uint32_t\<close> and
  \<open>uint64_t\<close> are words of their width, \<open>size_t\<close> counts are natural numbers), the
  collections of simplification rules the component theories extend, and the generic
  facts on lists and words that more than one component uses.
\<close>

unbundle bit_operations_syntax

type_synonym byte = "8 word"
type_synonym bytes = "8 word list"
type_synonym u32 = "32 word"
type_synonym u64 = "64 word"

named_theorems status_simps \<open>evaluation of the status predicates\<close>
named_theorems codec_simps \<open>encoder and decoder equations\<close>

section \<open>Lists\<close>

lemma takeWhile_dropWhile_split:
  "xs = takeWhile P xs @ dropWhile P xs"
  by simp

lemma drop_append_length [simp]: "drop (length xs) (xs @ ys) = ys"
  by simp

lemma take_append_length [simp]: "take (length xs) (xs @ ys) = xs"
  by simp

lemma filter_rev_hd_last:
  "filter P xs \<noteq> [] \<Longrightarrow> hd (rev (filter P xs)) = last (filter P xs)"
  by (simp add: hd_rev)

section \<open>Words\<close>

lemma mask8_64: "(0xFF :: 64 word) = mask 8"
  by (simp add: mask_eq_exp_minus_1)

lemma mask8_32: "(0xFF :: 32 word) = mask 8"
  by (simp add: mask_eq_exp_minus_1)

lemma ucast8_mask64: "(ucast (x AND 0xFF :: 64 word) :: 8 word) = ucast x"
  by (rule bit_word_eqI) (auto simp: mask8_64 bit_simps)

lemma ucast8_mask32: "(ucast (x AND 0xFF :: 32 word) :: 8 word) = ucast x"
  by (rule bit_word_eqI) (auto simp: mask8_32 bit_simps)

end
