(* ===== verification/Statuses.thy ===== *)
theory Statuses
  imports Prelude
begin

text \<open>
  The status values every operation of LRDB returns (include/lrdb/core/status.h): a code
  and an optional message. A moved-from or defaulted \<open>Status\<close> is OK.
\<close>

datatype StatusCode =
    kOk | kNotFound | kCorruption | kNotSupported | kInvalidArgument | kIOError
  | kMergeInProgress | kIncomplete | kShutdownInProgress | kTimedOut | kAborted | kBusy
  | kExpired | kTryAgain | kCompactionTooLarge | kColumnFamilyDropped | kDeleted | kMaxCode

record status =
  st_code :: StatusCode
  st_message :: "string option"

text \<open>The three-way constructor drops an empty message.\<close>

definition mk_status :: "StatusCode \<Rightarrow> string \<Rightarrow> status" where
  "mk_status c msg = \<lparr>st_code = c, st_message = (if msg \<noteq> [] then Some msg else None)\<rparr>"

definition OK :: status where "OK = \<lparr>st_code = kOk, st_message = None\<rparr>"
definition NotFound :: "string \<Rightarrow> status" where "NotFound m = mk_status kNotFound m"
definition Corruption :: "string \<Rightarrow> status" where "Corruption m = mk_status kCorruption m"
definition NotSupported :: "string \<Rightarrow> status" where "NotSupported m = mk_status kNotSupported m"
definition InvalidArgument :: "string \<Rightarrow> status" where
  "InvalidArgument m = mk_status kInvalidArgument m"
definition IOError :: "string \<Rightarrow> status" where "IOError m = mk_status kIOError m"
definition IOError2 :: "string \<Rightarrow> string \<Rightarrow> status" where
  "IOError2 m d = mk_status kIOError (m @ '': '' @ d)"
definition MergerInProgress :: "string \<Rightarrow> status" where
  "MergerInProgress m = mk_status kMergeInProgress m"
definition Incomplete :: "string \<Rightarrow> status" where "Incomplete m = mk_status kIncomplete m"
definition DeadLock :: "string \<Rightarrow> status" where "DeadLock m = mk_status kAborted m"
definition ShutdownInProgress :: "string \<Rightarrow> status" where
  "ShutdownInProgress m = mk_status kShutdownInProgress m"
definition Expired :: "string \<Rightarrow> status" where "Expired m = mk_status kExpired m"
definition TimedOut :: "string \<Rightarrow> status" where "TimedOut m = mk_status kTimedOut m"
definition Aborted :: "string \<Rightarrow> status" where "Aborted m = mk_status kAborted m"
definition Busy :: "string \<Rightarrow> status" where "Busy m = mk_status kBusy m"
definition TryAgain :: "string \<Rightarrow> status" where "TryAgain m = mk_status kTryAgain m"
definition Deleted :: "string \<Rightarrow> status" where "Deleted m = mk_status kDeleted m"

definition ok :: "status \<Rightarrow> bool" where "ok s \<longleftrightarrow> st_code s = kOk"
definition IsNotFound :: "status \<Rightarrow> bool" where "IsNotFound s \<longleftrightarrow> st_code s = kNotFound"
definition IsMergeInProgress :: "status \<Rightarrow> bool" where
  "IsMergeInProgress s \<longleftrightarrow> st_code s = kMergeInProgress"
definition IsDeleted :: "status \<Rightarrow> bool" where "IsDeleted s \<longleftrightarrow> st_code s = kDeleted"
definition IsAborted :: "status \<Rightarrow> bool" where "IsAborted s \<longleftrightarrow> st_code s = kAborted"
definition IsTimedOut :: "status \<Rightarrow> bool" where "IsTimedOut s \<longleftrightarrow> st_code s = kTimedOut"
definition IsCorruption :: "status \<Rightarrow> bool" where "IsCorruption s \<longleftrightarrow> st_code s = kCorruption"
definition IsNotSupported :: "status \<Rightarrow> bool" where
  "IsNotSupported s \<longleftrightarrow> st_code s = kNotSupported"
definition IsInvalidArgument :: "status \<Rightarrow> bool" where
  "IsInvalidArgument s \<longleftrightarrow> st_code s = kInvalidArgument"
definition IsIOError :: "status \<Rightarrow> bool" where "IsIOError s \<longleftrightarrow> st_code s = kIOError"
definition IsIncomplete :: "status \<Rightarrow> bool" where "IsIncomplete s \<longleftrightarrow> st_code s = kIncomplete"
definition IsShutdownInProgress :: "status \<Rightarrow> bool" where
  "IsShutdownInProgress s \<longleftrightarrow> st_code s = kShutdownInProgress"
definition IsBusy :: "status \<Rightarrow> bool" where "IsBusy s \<longleftrightarrow> st_code s = kBusy"
definition IsExpired :: "status \<Rightarrow> bool" where "IsExpired s \<longleftrightarrow> st_code s = kExpired"
definition IsTryAgain :: "status \<Rightarrow> bool" where "IsTryAgain s \<longleftrightarrow> st_code s = kTryAgain"

text \<open>\<open>operator==\<close> compares the codes only.\<close>

definition status_eq :: "status \<Rightarrow> status \<Rightarrow> bool" where
  "status_eq s t \<longleftrightarrow> st_code s = st_code t"

text \<open>
  \<open>GetDefaultMessage\<close> has no case for \<open>kMergeInProgress\<close>, \<open>kCompactionTooLarge\<close> and
  \<open>kColumnFamilyDropped\<close>: they print as \<open>Unknown\<close>.
\<close>

fun GetDefaultMessage :: "StatusCode \<Rightarrow> string" where
  "GetDefaultMessage kOk = ''OK''"
| "GetDefaultMessage kNotFound = ''NotFound''"
| "GetDefaultMessage kCorruption = ''Corruption''"
| "GetDefaultMessage kNotSupported = ''NotSupported''"
| "GetDefaultMessage kInvalidArgument = ''InvalidArgument''"
| "GetDefaultMessage kIOError = ''IOError''"
| "GetDefaultMessage kIncomplete = ''Incomplete''"
| "GetDefaultMessage kShutdownInProgress = ''ShutdownInProgress''"
| "GetDefaultMessage kTimedOut = ''TimedOut''"
| "GetDefaultMessage kAborted = ''Aborted''"
| "GetDefaultMessage kBusy = ''Busy''"
| "GetDefaultMessage kExpired = ''Expired''"
| "GetDefaultMessage kTryAgain = ''TryAgain''"
| "GetDefaultMessage kDeleted = ''Deleted''"
| "GetDefaultMessage _ = ''Unknown''"

definition ToString :: "status \<Rightarrow> string" where
  "ToString s = (case st_message s of Some m \<Rightarrow> m | None \<Rightarrow> GetDefaultMessage (st_code s))"

lemma code_mk_status [simp]: "st_code (mk_status c m) = c"
  by (simp add: mk_status_def)

lemmas status_makers [status_simps] =
  OK_def NotFound_def Corruption_def NotSupported_def InvalidArgument_def IOError_def
  IOError2_def MergerInProgress_def TimedOut_def Aborted_def Busy_def TryAgain_def Deleted_def
  Incomplete_def DeadLock_def ShutdownInProgress_def Expired_def

lemmas status_tests [status_simps] =
  ok_def IsNotFound_def IsMergeInProgress_def IsDeleted_def IsAborted_def IsTimedOut_def
  IsCorruption_def IsNotSupported_def IsInvalidArgument_def IsIOError_def IsIncomplete_def
  IsShutdownInProgress_def IsBusy_def IsExpired_def IsTryAgain_def

lemma ok_OK [simp]: "ok OK"
  by (simp add: status_simps)

lemma not_ok_errors [simp]:
  "\<not> ok (NotFound m)" "\<not> ok (Corruption m)" "\<not> ok (NotSupported m)" "\<not> ok (InvalidArgument m)"
  "\<not> ok (IOError m)" "\<not> ok (MergerInProgress m)" "\<not> ok (TimedOut m)" "\<not> ok (Aborted m)"
  "\<not> ok (Busy m)" "\<not> ok (TryAgain m)" "\<not> ok (Deleted m)" "\<not> ok (Incomplete m)"
  by (simp_all add: status_simps)

lemma errors_not_OK [simp]:
  "NotFound m \<noteq> OK" "Corruption m \<noteq> OK" "NotSupported m \<noteq> OK" "InvalidArgument m \<noteq> OK"
  "IOError m \<noteq> OK" "MergerInProgress m \<noteq> OK" "TimedOut m \<noteq> OK" "Aborted m \<noteq> OK"
  "Busy m \<noteq> OK" "TryAgain m \<noteq> OK" "Deleted m \<noteq> OK" "Incomplete m \<noteq> OK"
  using not_ok_errors ok_OK by metis+

lemma IsDeleted_simps [simp]:
  "IsDeleted (Deleted m)" "\<not> IsDeleted OK" "\<not> IsDeleted (NotFound m)"
  "\<not> IsDeleted (MergerInProgress m)" "\<not> IsDeleted (InvalidArgument m)"
  "\<not> IsDeleted (IOError m)" "\<not> IsDeleted (Corruption m)"
  by (simp_all add: status_simps)

lemma IsNotFound_simps [simp]:
  "IsNotFound (NotFound m)" "\<not> IsNotFound OK" "\<not> IsNotFound (Deleted m)"
  "\<not> IsNotFound (MergerInProgress m)" "\<not> IsNotFound (InvalidArgument m)"
  by (simp_all add: status_simps)

lemma IsMergeInProgress_simps [simp]:
  "IsMergeInProgress (MergerInProgress m)" "\<not> IsMergeInProgress OK"
  "\<not> IsMergeInProgress (Deleted m)" "\<not> IsMergeInProgress (NotFound m)"
  by (simp_all add: status_simps)

lemma IsIncomplete_simps [simp]:
  "IsIncomplete (Incomplete m)" "\<not> IsIncomplete OK" "\<not> IsIncomplete (Corruption m)"
  "\<not> IsIncomplete (InvalidArgument m)" "\<not> IsIncomplete (IOError m)"
  by (simp_all add: status_simps)

lemma IsCorruption_simps [simp]:
  "IsCorruption (Corruption m)" "\<not> IsCorruption OK" "\<not> IsCorruption (Incomplete m)"
  "\<not> IsCorruption (InvalidArgument m)" "\<not> IsCorruption (IOError m)"
  by (simp_all add: status_simps)

end
