(* ===== verification/Slices.thy ===== *)
theory Slices
  imports Prelude
begin

text \<open>
  The byte fragment class of include/lrdb/core/slice.h. A \<open>Slice\<close> is a pointer and a
  length; no operation here writes through it, so it is modelled by the bytes it shows.
  A failed \<open>assert\<close> is the value \<open>None\<close>; \<open>std::string::npos\<close> is \<open>None\<close> too, in the
  operations that search.
\<close>

section \<open>The operations\<close>

text \<open>
  \<open>memcmp\<close> of the C library on its first \<open>n\<close> bytes, read as unsigned; of its result only
  the sign is specified. Every call below stays within both buffers.
\<close>

fun memcmp :: "bytes \<Rightarrow> bytes \<Rightarrow> nat \<Rightarrow> int" where
  "memcmp (x # xs) (y # ys) (Suc n) =
     (if x < y then -1 else if y < x then 1 else memcmp xs ys n)"
| "memcmp _ _ _ = 0"

definition slice_index :: "bytes \<Rightarrow> nat \<Rightarrow> byte option" where
  "slice_index s n = (if n < length s then Some (s ! n) else None)"

definition remove_prefix :: "bytes \<Rightarrow> nat \<Rightarrow> bytes option" where
  "remove_prefix s n = (if n \<le> length s then Some (drop n s) else None)"

definition remove_suffix :: "bytes \<Rightarrow> nat \<Rightarrow> bytes option" where
  "remove_suffix s n = (if n \<le> length s then Some (take (length s - n) s) else None)"

definition slice_compare :: "bytes \<Rightarrow> bytes \<Rightarrow> int" where
  "slice_compare a b =
     (let min_len = (if length a < length b then length a else length b);
          r = memcmp a b min_len
      in if r = 0 then (if length a < length b then -1 else if length b < length a then 1 else r)
         else r)"

definition starts_with :: "bytes \<Rightarrow> bytes \<Rightarrow> bool" where
  "starts_with s p \<longleftrightarrow> length p \<le> length s \<and> memcmp s p (length p) = 0"

definition ends_with :: "bytes \<Rightarrow> bytes \<Rightarrow> bool" where
  "ends_with s p \<longleftrightarrow>
     length p \<le> length s \<and> memcmp (drop (length s - length p) s) p (length p) = 0"

text \<open>The second argument is the optional length, \<open>None\<close> standing for \<open>npos\<close>.\<close>

definition substr :: "bytes \<Rightarrow> nat \<Rightarrow> nat option \<Rightarrow> bytes option" where
  "substr s start len =
     (if start \<le> length s
      then Some (take (case len of None \<Rightarrow> length s - start
                       | Some l \<Rightarrow> min l (length s - start)) (drop start s))
      else None)"

fun memchr :: "bytes \<Rightarrow> byte \<Rightarrow> nat option" where
  "memchr [] c = None"
| "memchr (x # xs) c = (if x = c then Some 0 else map_option Suc (memchr xs c))"

definition find_char :: "bytes \<Rightarrow> byte \<Rightarrow> nat \<Rightarrow> nat option" where
  "find_char s c start =
     (if length s \<le> start then None
      else map_option (\<lambda>k. start + k) (memchr (drop start s) c))"

text \<open>The loop \<open>for (i = start; i <= size_ - needle.size_; ++i)\<close>.\<close>

function find_from :: "bytes \<Rightarrow> bytes \<Rightarrow> nat \<Rightarrow> nat option" where
  "find_from s needle i =
     (if i \<le> length s - length needle
      then (if memcmp (drop i s) needle (length needle) = 0 then Some i
            else find_from s needle (Suc i))
      else None)"
  by pat_completeness auto
termination
  by (relation "measure (\<lambda>(s, needle, i). Suc (length s) - i)") auto

declare find_from.simps [simp del]

definition find_slice :: "bytes \<Rightarrow> bytes \<Rightarrow> nat \<Rightarrow> nat option" where
  "find_slice s needle start =
     (if length s < start then None
      else if needle = [] then Some start
      else if length s - start < length needle then None
      else find_from s needle start)"

definition slice_eq :: "bytes \<Rightarrow> bytes \<Rightarrow> bool" where
  "slice_eq a b \<longleftrightarrow> length a = length b \<and> memcmp a b (length a) = 0"

definition slice_less :: "bytes \<Rightarrow> bytes \<Rightarrow> bool" where
  "slice_less a b \<longleftrightarrow> slice_compare a b < 0"

definition ConcatenateSlices :: "bytes list \<Rightarrow> bytes" where
  "ConcatenateSlices slices = foldl (\<lambda>result s. result @ s) [] slices"

text \<open>\<open>SliceHasher\<close>: \<open>char\<close> is signed on the platforms built for, so a byte is sign-extended.\<close>

definition SliceHasher :: "bytes \<Rightarrow> u64" where
  "SliceHasher s = foldl (\<lambda>h c. h * 31 + scast c) 0 s"

section \<open>Byte order\<close>

lemma memcmp_range: "memcmp a b n \<in> {-1, 0, 1}"
  by (induction a b n rule: memcmp.induct) auto

lemma memcmp_eq_0:
  "n \<le> length a \<Longrightarrow> n \<le> length b \<Longrightarrow> memcmp a b n = 0 \<longleftrightarrow> take n a = take n b"
  by (induction a b n rule: memcmp.induct) auto

lemma slice_compare_Cons:
  "slice_compare (x # xs) (y # ys) =
     (if x < y then -1 else if y < x then 1 else slice_compare xs ys)"
  by (auto simp: slice_compare_def Let_def)

lemma slice_compare_Nil [simp]:
  "slice_compare [] [] = 0"
  "slice_compare (x # xs) [] = 1"
  "slice_compare [] (y # ys) = -1"
  by (simp_all add: slice_compare_def)

lemma slice_compare_lex:
  "slice_compare a b = (if a < b then -1 else if a = b then 0 else 1)"
proof (induction a arbitrary: b)
  case Nil
  then show ?case by (cases b) auto
next
  case (Cons x xs)
  then show ?case by (cases b) (auto simp: slice_compare_Cons)
qed

lemma slice_less_lex: "slice_less a b \<longleftrightarrow> a < b"
  by (simp add: slice_less_def slice_compare_lex)

lemma slice_eq_iff: "slice_eq a b \<longleftrightarrow> a = b"
  by (auto simp: slice_eq_def memcmp_eq_0)

lemma starts_with_iff: "starts_with s p \<longleftrightarrow> (\<exists>t. s = p @ t)"
proof
  assume "starts_with s p"
  then have "take (length p) s = p"
    by (auto simp: starts_with_def memcmp_eq_0)
  then show "\<exists>t. s = p @ t" by (metis append_take_drop_id)
qed (auto simp: starts_with_def memcmp_eq_0)

lemma ends_with_iff: "ends_with s p \<longleftrightarrow> (\<exists>t. s = t @ p)"
proof
  assume "ends_with s p"
  then have "drop (length s - length p) s = p"
    by (auto simp: ends_with_def memcmp_eq_0)
  then show "\<exists>t. s = t @ p" by (metis append_take_drop_id)
qed (auto simp: ends_with_def memcmp_eq_0)

lemma ConcatenateSlices_concat: "ConcatenateSlices slices = concat slices"
proof -
  have "foldl (\<lambda>r s. r @ s) acc slices = acc @ concat slices" for acc
    by (induction slices arbitrary: acc) auto
  then show ?thesis by (simp add: ConcatenateSlices_def)
qed

section \<open>Searching\<close>

lemma memcmp_here:
  "i \<le> length s - length needle \<Longrightarrow> length needle \<le> length s \<Longrightarrow>
   memcmp (drop i s) needle (length needle) = 0 \<longleftrightarrow> take (length needle) (drop i s) = needle"
  by (subst memcmp_eq_0) auto

lemma find_from_Some:
  assumes "find_from s needle i = Some k" "length needle \<le> length s"
  shows "i \<le> k \<and> k + length needle \<le> length s \<and> take (length needle) (drop k s) = needle
         \<and> (\<forall>j. i \<le> j \<and> j < k \<longrightarrow> take (length needle) (drop j s) \<noteq> needle)"
  using assms
proof (induction s needle i rule: find_from.induct)
  case (1 s needle i)
  show ?case
  proof (cases "i \<le> length s - length needle \<and> memcmp (drop i s) needle (length needle) \<noteq> 0")
    case True
    then have "find_from s needle (Suc i) = Some k"
      using "1.prems" by (simp add: find_from.simps [of s needle i])
    then have IH: "Suc i \<le> k \<and> k + length needle \<le> length s \<and> take (length needle) (drop k s) = needle
         \<and> (\<forall>j. Suc i \<le> j \<and> j < k \<longrightarrow> take (length needle) (drop j s) \<noteq> needle)"
      using "1.IH" True "1.prems" by blast
    have "take (length needle) (drop i s) \<noteq> needle"
      using True "1.prems" memcmp_here [of i s needle] by blast
    then show ?thesis using IH by (metis Suc_leD Suc_leI le_neq_implies_less)
  next
    case False
    then show ?thesis using "1.prems"
      by (auto simp: find_from.simps [of s needle i] memcmp_here split: if_splits)
  qed
qed

lemma find_from_None:
  assumes "find_from s needle i = None" "length needle \<le> length s"
    "i \<le> j" "j + length needle \<le> length s"
  shows "take (length needle) (drop j s) \<noteq> needle"
  using assms
proof (induction s needle i rule: find_from.induct)
  case (1 s needle i)
  then have i: "i \<le> length s - length needle" by simp
  with "1.prems" have ne: "memcmp (drop i s) needle (length needle) \<noteq> 0"
    and nxt: "find_from s needle (Suc i) = None"
    by (auto simp: find_from.simps [of s needle i] split: if_splits)
  show ?case
  proof (cases "i = j")
    case True
    then show ?thesis using ne i "1.prems" memcmp_here [of i s needle] by blast
  next
    case False
    then show ?thesis using "1.IH" [OF i ne nxt] "1.prems" by simp
  qed
qed

end
