(* ===== verification/Coding.thy ===== *)
theory Coding
  imports Slices
begin

text \<open>
  The byte encodings of src/core/coding.cc: little-endian fixed integers, varints,
  length-prefixed strings, the internal key (user key, then eight bytes holding
  \<open>sequence << 8 | type\<close>) and the masked CRC. An encoder takes the string it appends to
  and returns it extended; a decoder that may fail returns an option, and leaves its
  input where it was when it fails, as the code does.
\<close>

section \<open>Fixed-width integers\<close>

definition PutFixed32 :: "bytes \<Rightarrow> u32 \<Rightarrow> bytes" where
  "PutFixed32 dst value = dst @
     [ucast (value AND 0xff), ucast (drop_bit 8 value AND 0xff),
      ucast (drop_bit 16 value AND 0xff), ucast (drop_bit 24 value AND 0xff)]"

definition PutFixed64 :: "bytes \<Rightarrow> u64 \<Rightarrow> bytes" where
  "PutFixed64 dst value = dst @
     [ucast (value AND 0xff), ucast (drop_bit 8 value AND 0xff),
      ucast (drop_bit 16 value AND 0xff), ucast (drop_bit 24 value AND 0xff),
      ucast (drop_bit 32 value AND 0xff), ucast (drop_bit 40 value AND 0xff),
      ucast (drop_bit 48 value AND 0xff), ucast (drop_bit 56 value AND 0xff)]"

text \<open>
  The decoders read four (eight) bytes at the pointer; a caller that has not checked the
  length reads beyond the buffer, which is \<open>None\<close> here.
\<close>

definition DecodeFixed32 :: "bytes \<Rightarrow> u32 option" where
  "DecodeFixed32 ptr =
     (if 4 \<le> length ptr
      then Some (ucast (ptr ! 0) OR push_bit 8 (ucast (ptr ! 1)) OR push_bit 16 (ucast (ptr ! 2))
                 OR push_bit 24 (ucast (ptr ! 3)))
      else None)"

definition DecodeFixed64 :: "bytes \<Rightarrow> u64 option" where
  "DecodeFixed64 ptr =
     (if 8 \<le> length ptr
      then Some (ucast (ptr ! 0) OR push_bit 8 (ucast (ptr ! 1)) OR push_bit 16 (ucast (ptr ! 2))
                 OR push_bit 24 (ucast (ptr ! 3)) OR push_bit 32 (ucast (ptr ! 4))
                 OR push_bit 40 (ucast (ptr ! 5)) OR push_bit 48 (ucast (ptr ! 6))
                 OR push_bit 56 (ucast (ptr ! 7)))
      else None)"

section \<open>Varints\<close>

definition EncodeVarint32 :: "u32 \<Rightarrow> bytes" where
  "EncodeVarint32 value =
     (let B = 128 in
      if value < push_bit 7 1 then [ucast value]
      else if value < push_bit 14 1 then [ucast (value OR B), ucast (drop_bit 7 value)]
      else if value < push_bit 21 1 then
        [ucast (value OR B), ucast (drop_bit 7 value OR B), ucast (drop_bit 14 value)]
      else if value < push_bit 28 1 then
        [ucast (value OR B), ucast (drop_bit 7 value OR B), ucast (drop_bit 14 value OR B),
         ucast (drop_bit 21 value)]
      else
        [ucast (value OR B), ucast (drop_bit 7 value OR B), ucast (drop_bit 14 value OR B),
         ucast (drop_bit 21 value OR B), ucast (drop_bit 28 value)])"

lemma drop_bit7_decreases: "128 \<le> v \<Longrightarrow> unat (drop_bit 7 v :: u64) < unat v"
proof -
  assume "128 \<le> v"
  then have "0 < unat v" by (simp add: word_le_nat_alt)
  then show ?thesis by (simp add: unat_drop_bit_eq drop_bit_nat_def)
qed

function EncodeVarint64 :: "u64 \<Rightarrow> bytes" where
  "EncodeVarint64 value =
     (if 128 \<le> value then ucast (value OR 128) # EncodeVarint64 (drop_bit 7 value)
      else [ucast value])"
  by pat_completeness auto
termination
  by (relation "measure unat") (auto simp: drop_bit7_decreases)

declare EncodeVarint64.simps [simp del]

definition PutVarint32 :: "bytes \<Rightarrow> u32 \<Rightarrow> bytes" where
  "PutVarint32 dst value = dst @ EncodeVarint32 value"

definition PutVarint64 :: "bytes \<Rightarrow> u64 \<Rightarrow> bytes" where
  "PutVarint64 dst value = dst @ EncodeVarint64 value"

text \<open>
  The decoding loops, one byte per round, \<open>shift\<close> growing by seven. \<open>GetVarint32\<close>
  widens the signed \<open>char\<close> directly, so the byte is sign-extended; \<open>GetVarint64\<close> goes
  through \<open>uint8_t\<close>. The result is the rest of the input and the value.
\<close>

fun GetVarint32_loop :: "nat \<Rightarrow> bytes \<Rightarrow> u64 \<Rightarrow> (bytes \<times> u32) option" where
  "GetVarint32_loop shift [] result = None"
| "GetVarint32_loop shift (c # q) result =
     (if 28 < shift then None
      else let byte = scast c
           in if byte AND 0x80 \<noteq> 0
              then GetVarint32_loop (shift + 7) q (result OR push_bit shift (byte AND 0x7f))
              else Some (q, ucast (result OR push_bit shift byte)))"

definition GetVarint32 :: "bytes \<Rightarrow> (bytes \<times> u32) option" where
  "GetVarint32 input = GetVarint32_loop 0 input 0"

fun GetVarint64_loop :: "nat \<Rightarrow> bytes \<Rightarrow> u64 \<Rightarrow> (bytes \<times> u64) option" where
  "GetVarint64_loop shift [] result = None"
| "GetVarint64_loop shift (c # q) result =
     (if 63 < shift then None
      else let byte = ucast c
           in if byte AND 0x80 \<noteq> 0
              then (if 63 \<le> shift then None
                    else GetVarint64_loop (shift + 7) q (result OR push_bit shift (byte AND 0x7f)))
              else Some (q, result OR push_bit shift byte))"

definition GetVarint64 :: "bytes \<Rightarrow> (bytes \<times> u64) option" where
  "GetVarint64 input = GetVarint64_loop 0 input 0"

function VarintLength_loop :: "u64 \<Rightarrow> nat \<Rightarrow> nat" where
  "VarintLength_loop v len =
     (if 0x80 \<le> v then VarintLength_loop (drop_bit 7 v) (Suc len) else len)"
  by pat_completeness auto
termination
  by (relation "measure (\<lambda>(v, len). unat v)") (auto simp: drop_bit7_decreases)

declare VarintLength_loop.simps [simp del]

definition VarintLength :: "u64 \<Rightarrow> nat" where
  "VarintLength v = VarintLength_loop v 1"

section \<open>Length-prefixed strings, internal keys, masked checksums\<close>

definition PutLengthPrefixedSlice :: "bytes \<Rightarrow> bytes \<Rightarrow> bytes" where
  "PutLengthPrefixedSlice dst value = PutVarint32 dst (of_nat (length value)) @ value"

text \<open>
  On failure after a readable length the input has already moved past it; the callers
  give up then, and the model returns \<open>None\<close>.
\<close>

definition GetLengthPrefixedSlice :: "bytes \<Rightarrow> (bytes \<times> bytes) option" where
  "GetLengthPrefixedSlice input =
     (case GetVarint32 input of
        None \<Rightarrow> None
      | Some (rest, len) \<Rightarrow>
          (if unat len \<le> length rest then Some (drop (unat len) rest, take (unat len) rest)
           else None))"

definition PutInternalKey :: "bytes \<Rightarrow> bytes \<Rightarrow> u64 \<Rightarrow> byte \<Rightarrow> bytes" where
  "PutInternalKey dst user_key sequence type =
     PutFixed64 (dst @ user_key) (push_bit 8 sequence OR ucast type)"

definition ParseInternalKey :: "bytes \<Rightarrow> (bytes \<times> u64 \<times> byte) option" where
  "ParseInternalKey internal_key =
     (if length internal_key < 8 then None
      else case DecodeFixed64 (drop (length internal_key - 8) internal_key) of
             None \<Rightarrow> None
           | Some tag \<Rightarrow> Some (take (length internal_key - 8) internal_key,
                             drop_bit 8 tag, ucast (tag AND 0xff)))"

definition Mask :: "u32 \<Rightarrow> u32" where
  "Mask crc = (drop_bit 15 crc OR push_bit 17 crc) + 0xa282ead8"

definition Unmask :: "u32 \<Rightarrow> u32" where
  "Unmask masked_crc =
     (let rot = masked_crc - 0xa282ead8 in drop_bit 17 rot OR push_bit 15 rot)"

section \<open>Fixed-width round trips\<close>

text \<open>Reference: a little-endian reading and writing of any number of bytes.\<close>

fun le_val :: "bytes \<Rightarrow> 'a::len word" where
  "le_val [] = 0"
| "le_val (x # xs) = ucast x OR push_bit 8 (le_val xs)"

fun le_bytes :: "nat \<Rightarrow> 'a::len word \<Rightarrow> bytes" where
  "le_bytes 0 v = []"
| "le_bytes (Suc n) v = ucast v # le_bytes n (drop_bit 8 v)"

lemma length_le_bytes [simp]: "length (le_bytes n v) = n"
  by (induction n arbitrary: v) auto

lemma le_val_step:
  "ucast (ucast v :: byte) OR push_bit 8 (take_bit (8 * n) (drop_bit 8 v)) = take_bit (8 + 8 * n) (v :: 'a::len word)"
  by (rule bit_word_eqI) (auto simp: bit_simps)

lemma le_val_bytes: "le_val (le_bytes n v) = take_bit (8 * n) v"
  by (induction n arbitrary: v) (simp_all add: le_val_step)

lemma bit_le_val: "bit (le_val xs :: 'a::len word) i \<Longrightarrow> i < 8 * length xs"
proof (induction xs arbitrary: i)
  case (Cons x xs)
  then have "bit x i \<or> 8 \<le> i \<and> bit (le_val xs :: 'a word) (i - 8)"
    by (auto simp: bit_simps)
  then show ?case using Cons.IH [of "i - 8"] bit_imp_le_length [of x i]
    by auto
qed simp

lemma le_bytes_step1: "8 \<le> LENGTH('a) \<Longrightarrow> (ucast (ucast (x::byte) OR push_bit 8 (y :: 'a::len word)) :: byte) = x"
  by (rule bit_word_eqI) (auto simp: bit_simps)

lemma le_bytes_step2:
  assumes "8 + 8 * length xs \<le> LENGTH('a)"
  shows "drop_bit 8 (ucast (x::byte) OR push_bit 8 (le_val xs :: 'a::len word)) = le_val xs"
proof (rule bit_word_eqI)
  fix n assume "n < LENGTH('a)"
  show "bit (drop_bit 8 (ucast x OR push_bit 8 (le_val xs :: 'a word))) n = bit (le_val xs :: 'a word) n"
    using assms bit_le_val [of xs n, where 'a = 'a] bit_imp_le_length [of x "8 + n"]
    by (auto simp: bit_simps)
qed

lemma le_bytes_val: "8 * length xs \<le> LENGTH('a) \<Longrightarrow> le_bytes (length xs) (le_val xs :: 'a::len word) = xs"
proof (induction xs)
  case (Cons x xs)
  have "le_bytes (length xs) (le_val xs :: 'a word) = xs"
    using Cons by simp
  moreover have "drop_bit 8 (ucast x OR push_bit 8 (le_val xs :: 'a word)) = le_val xs"
    using Cons.prems by (intro le_bytes_step2) simp
  moreover have "8 \<le> LENGTH('a)" using Cons.prems by simp
  ultimately show ?case by (simp add: le_bytes_step1)
qed simp

lemma PutFixed32_le: "PutFixed32 dst v = dst @ le_bytes 4 v"
  by (simp add: PutFixed32_def ucast8_mask32 numeral_eq_Suc)

lemma PutFixed64_le: "PutFixed64 dst v = dst @ le_bytes 8 v"
  by (simp add: PutFixed64_def ucast8_mask64 numeral_eq_Suc)

lemma take4: "4 \<le> length p \<Longrightarrow> take 4 p = [p ! 0, p ! 1, p ! 2, p ! 3]"
  by (simp add: list_eq_iff_nth_eq less_Suc_eq numeral_eq_Suc)

lemma take8: "8 \<le> length p \<Longrightarrow> take 8 p = [p!0, p!1, p!2, p!3, p!4, p!5, p!6, p!7]"
  by (simp add: list_eq_iff_nth_eq less_Suc_eq numeral_eq_Suc)

lemma DecodeFixed32_le:
  "DecodeFixed32 p = (if 4 \<le> length p then Some (le_val (take 4 p)) else None)"
  by (simp add: DecodeFixed32_def take4 push_bit_or)

lemma DecodeFixed64_le:
  "DecodeFixed64 p = (if 8 \<le> length p then Some (le_val (take 8 p)) else None)"
  by (simp add: DecodeFixed64_def take8 push_bit_or)

lemma take_bit_full: "take_bit 32 (v :: u32) = v" "take_bit 64 (w :: u64) = w"
  by (rule bit_word_eqI, simp add: bit_simps)+

lemma DecodeFixed32_Put [simp]: "DecodeFixed32 (PutFixed32 [] v @ rest) = Some v"
  by (simp add: DecodeFixed32_le PutFixed32_le le_val_bytes take_bit_full)

lemma DecodeFixed64_Put [simp]: "DecodeFixed64 (PutFixed64 [] v @ rest) = Some v"
  by (simp add: DecodeFixed64_le PutFixed64_le le_val_bytes take_bit_full)

lemma Put_DecodeFixed64:
  "length p = 8 \<Longrightarrow> DecodeFixed64 p = Some v \<Longrightarrow> PutFixed64 [] v = p"
  using le_bytes_val [of p, where 'a = 64] by (auto simp: DecodeFixed64_le PutFixed64_le)

lemma Put_DecodeFixed32:
  "length p = 4 \<Longrightarrow> DecodeFixed32 p = Some v \<Longrightarrow> PutFixed32 [] v = p"
  using le_bytes_val [of p, where 'a = 32] by (auto simp: DecodeFixed32_le PutFixed32_le)

lemma PutFixed32_append: "PutFixed32 dst v = dst @ PutFixed32 [] v"
  by (simp add: PutFixed32_def)

lemma PutFixed64_append: "PutFixed64 dst v = dst @ PutFixed64 [] v"
  by (simp add: PutFixed64_def)

lemma length_PutFixed32 [simp]: "length (PutFixed32 dst v) = length dst + 4"
  by (simp add: PutFixed32_def)

lemma length_PutFixed64 [simp]: "length (PutFixed64 dst v) = length dst + 8"
  by (simp add: PutFixed64_def)

section \<open>Varint round trips\<close>

lemma bit_128: "bit (128 :: 'a::len word) n \<longleftrightarrow> n = 7 \<and> 7 < LENGTH('a)"
proof -
  have "(128 :: 'a word) = 2 ^ 7" by simp
  then show ?thesis by (metis bit_exp_iff possible_bit_word)
qed

lemma bit_128_int: "bit (128 :: int) n \<longleftrightarrow> n = 7"
proof -
  have "(128 :: int) = 2 ^ 7" by simp
  then show ?thesis by (metis bit_exp_iff possible_bit_int)
qed

lemma b127: "(127 :: 'a::len word) = mask 7"
  by (simp add: mask_eq_exp_minus_1)

lemma and_128: "(w AND 128 = (0 :: 'a::len word)) \<longleftrightarrow> \<not> bit w 7 \<or> LENGTH('a) \<le> 7"
  by (auto simp: bit_eq_iff [of "w AND 128"] bit_and_iff bit_128 bit_128_int
      dest: bit_imp_le_length)

lemma cont_byte:
  fixes v :: u64
  shows "(ucast (ucast (v OR 128) :: byte) :: u64) AND 128 \<noteq> 0"
    "(ucast (ucast (v OR 128) :: byte) :: u64) AND 127 = take_bit 7 v"
    "(scast (ucast (v OR 128) :: byte) :: u64) AND 128 \<noteq> 0"
    "(scast (ucast (v OR 128) :: byte) :: u64) AND 127 = take_bit 7 v"
proof -
  show "(ucast (ucast (v OR 128) :: byte) :: u64) AND 128 \<noteq> 0"
    by (simp add: and_128 bit_unsigned_iff bit_or_iff bit_128)
  show "(scast (ucast (v OR 128) :: byte) :: u64) AND 128 \<noteq> 0"
    by (simp add: and_128 bit_signed_iff bit_unsigned_iff bit_or_iff bit_128)
  show "(ucast (ucast (v OR 128) :: byte) :: u64) AND 127 = take_bit 7 v"
    by (rule bit_word_eqI)
      (auto simp: bit_unsigned_iff bit_or_iff bit_and_iff bit_take_bit_iff b127 bit_mask_iff bit_128 bit_128_int)
  show "(scast (ucast (v OR 128) :: byte) :: u64) AND 127 = take_bit 7 v"
    by (rule bit_word_eqI)
      (auto simp: bit_signed_iff bit_unsigned_iff bit_or_iff bit_and_iff bit_take_bit_iff b127
        bit_mask_iff bit_128 bit_128_int min_def)
qed

lemma last_byte:
  fixes v :: u64
  assumes "v < 128"
  shows "(ucast (ucast v :: byte) :: u64) AND 128 = 0" "(ucast (ucast v :: byte) :: u64) = v"
    "(scast (ucast v :: byte) :: u64) AND 128 = 0" "(scast (ucast v :: byte) :: u64) = v"
proof -
  have "take_bit 7 v = v"
    using assms by (simp add: word_less_nat_alt unsigned_take_bit_eq take_bit_nat_eq_self word_unat_eq_iff)
  then have small: "\<And>n. bit v n \<Longrightarrow> n < 7"
    by (metis bit_take_bit_iff)
  show "(ucast (ucast v :: byte) :: u64) AND 128 = 0" "(scast (ucast v :: byte) :: u64) AND 128 = 0"
    using small by (auto simp: and_128 bit_signed_iff bit_unsigned_iff)
  show "(ucast (ucast v :: byte) :: u64) = v"
    by (rule bit_word_eqI) (auto simp: bit_unsigned_iff dest: small)
  show "(scast (ucast v :: byte) :: u64) = v"
    by (rule bit_word_eqI) (auto simp: bit_signed_iff bit_unsigned_iff min_def dest: small)
qed

lemma split7: "push_bit s (take_bit 7 v) OR push_bit (s + 7) (drop_bit 7 v) = push_bit s (v :: u64)"
proof (rule bit_word_eqI)
  fix n assume "n < LENGTH(64)"
  have "s + 7 \<le> n \<Longrightarrow> 7 + (n - (s + 7)) = n - s" by simp
  then show "bit (push_bit s (take_bit 7 v) OR push_bit (s + 7) (drop_bit 7 v)) n = bit (push_bit s v) n"
    using \<open>n < LENGTH(64)\<close> by (cases "s + 7 \<le> n") (auto simp: bit_simps)
qed


lemma unat_drop7: "unat (drop_bit 7 v :: u64) = unat v div 128"
  by (simp add: unat_drop_bit_eq drop_bit_nat_def)

lemma varint_room:
  assumes "128 \<le> (v :: u64)" "unat v < 2 ^ (64 - shift)" "shift \<le> 63"
  shows "shift + 7 \<le> 63" "unat (drop_bit 7 v) < 2 ^ (64 - (shift + 7))"
proof -
  have "2 ^ 7 \<le> unat v"
    using assms(1) by (simp add: word_le_nat_alt)
  then have "(2 :: nat) ^ 7 < 2 ^ (64 - shift)"
    using assms(2) by (rule le_less_trans)
  then have "7 < 64 - shift"
    by (rule power_less_imp_less_exp [rotated]) simp
  then show s: "shift + 7 \<le> 63" by simp
  have e: "64 - shift = (64 - (shift + 7)) + 7" using s by simp
  have "unat v < 2 ^ ((64 - (shift + 7)) + 7)" using assms(2) unfolding e .
  then have "unat v < 2 ^ (64 - (shift + 7)) * 128" unfolding power_add by simp
  then show "unat (drop_bit 7 v) < 2 ^ (64 - (shift + 7))"
    unfolding unat_drop7 by (rule less_mult_imp_div_less)
qed

lemma GetVarint64_loop_cont:
  "shift \<le> 62 \<Longrightarrow> GetVarint64_loop shift (ucast (v OR 128 :: u64) # q) r =
     GetVarint64_loop (shift + 7) q (r OR push_bit shift (take_bit 7 v))"
  using cont_byte(1) [of v] by (simp only: GetVarint64_loop.simps Let_def cont_byte(2)) simp

lemma GetVarint64_loop_last:
  "shift \<le> 63 \<Longrightarrow> v < 128 \<Longrightarrow>
   GetVarint64_loop shift (ucast (v :: u64) # q) r = Some (q, r OR push_bit shift v)"
proof -
  assume "shift \<le> 63" "v < 128"
  moreover from this have "v AND 128 = 0" using last_byte(1,2) [of v] by simp
  ultimately show ?thesis
    by (simp only: GetVarint64_loop.simps Let_def last_byte) simp
qed

lemma GetVarint64_loop_Encode:
  assumes "shift \<le> 63" "unat v < 2 ^ (64 - shift)"
  shows "GetVarint64_loop shift (EncodeVarint64 v @ rest) r = Some (rest, r OR push_bit shift v)"
  using assms
proof (induction v arbitrary: shift r rule: EncodeVarint64.induct)
  case (1 v)
  show ?case
  proof (cases "128 \<le> v")
    case True
    note room = varint_room [OF True "1.prems"(2) "1.prems"(1)]
    have "GetVarint64_loop shift (EncodeVarint64 v @ rest) r =
        GetVarint64_loop (shift + 7) (EncodeVarint64 (drop_bit 7 v) @ rest)
          (r OR push_bit shift (take_bit 7 v))"
      using True room(1) GetVarint64_loop_cont by (simp add: EncodeVarint64.simps [of v])
    also have "\<dots> = Some (rest, r OR push_bit shift v)"
      using "1.IH" [OF True room] by (simp only: or.assoc split7)
    finally show ?thesis .
  next
    case False
    then have "v < 128" by simp
    from GetVarint64_loop_last [OF "1.prems"(1) this] False show ?thesis
      by (simp del: GetVarint64_loop.simps add: EncodeVarint64.simps [of v])
  qed
qed

lemma GetVarint64_EncodeVarint64: "GetVarint64 (EncodeVarint64 v @ rest) = Some (rest, v)"
  using unsigned_less [of v, where 'a = nat]
  by (simp add: GetVarint64_def GetVarint64_loop_Encode)

lemma VarintLength_loop_Encode: "VarintLength_loop v n + 1 = n + length (EncodeVarint64 v)"
  by (induction v n rule: VarintLength_loop.induct)
    (simp add: VarintLength_loop.simps EncodeVarint64.simps)

section \<open>The 32-bit varint encoder is the 64-bit one on a widened value\<close>

lemma ucast_drop: "(ucast (drop_bit n (v :: u32)) :: u64) = drop_bit n (ucast v)"
  by (rule bit_word_eqI) (auto simp: bit_simps dest: bit_imp_le_length)

lemma ucast_or128: "(ucast (v OR 128 :: u32) :: u64) = ucast v OR 128"
  by (rule bit_word_eqI) (auto simp: bit_unsigned_iff bit_or_iff bit_128 bit_128_int)

lemma ucast_byte: "(ucast (v :: u32) :: byte) = ucast (ucast v :: u64)"
  by (rule bit_word_eqI) (auto simp: bit_unsigned_iff)

lemma unat_ucast_u32: "unat (ucast (v :: u32) :: u64) = unat v"
  by (simp add: unsigned_ucast_eq take_bit_nat_eq_self order.strict_trans [OF unsigned_less])

lemma le64: "(128 \<le> drop_bit k (ucast (v :: u32) :: u64)) \<longleftrightarrow> 2 ^ (k + 7) \<le> unat v"
proof -
  have "(128 \<le> drop_bit k (ucast v :: u64)) \<longleftrightarrow> 128 \<le> unat v div 2 ^ k"
    by (simp add: word_le_nat_alt unat_drop_bit_eq drop_bit_nat_def unat_ucast_u32)
  also have "\<dots> \<longleftrightarrow> 128 * 2 ^ k \<le> unat v"
    by (rule less_eq_div_iff_mult_less_eq) simp
  finally show ?thesis by (simp add: power_add mult.commute)
qed

lemma EncodeVarint32_eq_64: "EncodeVarint32 v = EncodeVarint64 (ucast v)"
proof -
  have b35: "unat v < 2 ^ 35" using unsigned_less [of v, where 'a = nat] by simp
  note S = EncodeVarint64.simps
  have l0: "128 \<le> (ucast v :: u64) \<longleftrightarrow> 2 ^ 7 \<le> unat v"
    using le64 [of 0 v] by simp
  have lt: "v < push_bit 7 1 \<longleftrightarrow> unat v < 2 ^ 7" "v < push_bit 14 1 \<longleftrightarrow> unat v < 2 ^ 14"
      "v < push_bit 21 1 \<longleftrightarrow> unat v < 2 ^ 21" "v < push_bit 28 1 \<longleftrightarrow> unat v < 2 ^ 28"
    by (simp_all add: word_less_nat_alt)
  let ?w = "ucast v :: u64"
  have e0: "unat v < 2 ^ 7 \<Longrightarrow> EncodeVarint64 ?w = [ucast ?w]"
    using l0 by (subst S) simp
  have e1: "2 ^ (k + 7) \<le> unat v \<Longrightarrow> EncodeVarint64 (drop_bit k ?w)
      = ucast (drop_bit k ?w OR 128) # EncodeVarint64 (drop_bit (k + 7) ?w)" for k
    by (subst S) (simp add: le64 add.commute)
  have e2: "unat v < 2 ^ (k + 7) \<Longrightarrow> EncodeVarint64 (drop_bit k ?w) = [ucast (drop_bit k ?w)]" for k
    by (subst S) (simp add: le64)
  show ?thesis
    using e1 [of 0] e1 [of 7] e1 [of 14] e1 [of 21] e2 [of 0] e2 [of 7] e2 [of 14] e2 [of 21] e2 [of 28] b35
    unfolding EncodeVarint32_def Let_def lt
    by (simp add: ucast_or128 ucast_byte ucast_drop)
qed

section \<open>Masked checksums\<close>

lemma Mask_Unmask: "Unmask (Mask c) = c"
proof -
  have "drop_bit 17 (drop_bit 15 c OR push_bit 17 c) OR push_bit 15 (drop_bit 15 c OR push_bit 17 c) = c"
  proof (rule bit_word_eqI)
    fix n assume "n < LENGTH(32)"
    then show "bit (drop_bit 17 (drop_bit 15 c OR push_bit 17 c) OR push_bit 15 (drop_bit 15 c OR push_bit 17 c)) n
      = bit c n"
      by (cases "15 \<le> n") (auto simp: bit_simps dest: bit_imp_le_length)
  qed
  then show ?thesis by (simp add: Mask_def Unmask_def)
qed

lemma Unmask_Mask: "Mask (Unmask c) = c"
proof -
  have "drop_bit 15 (drop_bit 17 d OR push_bit 15 d) OR push_bit 17 (drop_bit 17 d OR push_bit 15 d) = d" for d :: u32
  proof (rule bit_word_eqI)
    fix n assume "n < LENGTH(32)"
    then show "bit (drop_bit 15 (drop_bit 17 d OR push_bit 15 d) OR push_bit 17 (drop_bit 17 d OR push_bit 15 d)) n
      = bit d n"
      by (cases "17 \<le> n") (auto simp: bit_simps dest: bit_imp_le_length)
  qed
  then show ?thesis by (simp add: Mask_def Unmask_def Let_def)
qed

section \<open>The 32-bit varint decoder\<close>

lemma GetVarint32_loop_cont:
  "shift \<le> 28 \<Longrightarrow> GetVarint32_loop shift (ucast (v OR 128 :: u64) # q) r =
     GetVarint32_loop (shift + 7) q (r OR push_bit shift (take_bit 7 v))"
  using cont_byte(3) [of v] by (simp only: GetVarint32_loop.simps Let_def cont_byte(4)) simp

lemma GetVarint32_loop_last:
  "shift \<le> 28 \<Longrightarrow> v < 128 \<Longrightarrow>
   GetVarint32_loop shift (ucast (v :: u64) # q) r = Some (q, ucast (r OR push_bit shift v))"
proof -
  assume "shift \<le> 28" "v < 128"
  moreover from this have "v AND 128 = 0" using last_byte(3,4) [of v] by simp
  ultimately show ?thesis
    by (simp only: GetVarint32_loop.simps Let_def last_byte) simp
qed

lemma varint_room32:
  assumes "128 \<le> (v :: u64)" "unat v < 2 ^ (35 - shift)" "shift \<le> 28" "7 dvd shift"
  shows "shift + 7 \<le> 28" "unat (drop_bit 7 v) < 2 ^ (35 - (shift + 7))"
proof -
  have "2 ^ 7 \<le> unat v"
    using assms(1) by (simp add: word_le_nat_alt)
  then have "(2 :: nat) ^ 7 < 2 ^ (35 - shift)"
    using assms(2) by (rule le_less_trans)
  then have "7 < 35 - shift"
    by (rule power_less_imp_less_exp [rotated]) simp
  then have "shift < 28" by simp
  then show s: "shift + 7 \<le> 28" using assms(4) by presburger
  have e: "35 - shift = (35 - (shift + 7)) + 7" using s by simp
  have "unat v < 2 ^ ((35 - (shift + 7)) + 7)" using assms(2) unfolding e .
  then have "unat v < 2 ^ (35 - (shift + 7)) * 128" unfolding power_add by simp
  then show "unat (drop_bit 7 v) < 2 ^ (35 - (shift + 7))"
    unfolding unat_drop7 by (rule less_mult_imp_div_less)
qed

lemma GetVarint32_loop_Encode:
  assumes "shift \<le> 28" "7 dvd shift" "unat v < 2 ^ (35 - shift)"
  shows "GetVarint32_loop shift (EncodeVarint64 v @ rest) r =
    Some (rest, ucast (r OR push_bit shift v))"
  using assms
proof (induction v arbitrary: shift r rule: EncodeVarint64.induct)
  case (1 v)
  show ?case
  proof (cases "128 \<le> v")
    case True
    note room = varint_room32 [OF True "1.prems"(3,1,2)]
    have d: "7 dvd shift + 7" using "1.prems"(2) by simp
    have "GetVarint32_loop shift (EncodeVarint64 v @ rest) r =
        GetVarint32_loop (shift + 7) (EncodeVarint64 (drop_bit 7 v) @ rest)
          (r OR push_bit shift (take_bit 7 v))"
      using True "1.prems"(1) GetVarint32_loop_cont by (simp add: EncodeVarint64.simps [of v])
    also have "\<dots> = Some (rest, ucast (r OR push_bit shift v))"
      using "1.IH" [OF True room(1) d room(2)] by (simp only: or.assoc split7)
    finally show ?thesis .
  next
    case False
    then have "v < 128" by simp
    from GetVarint32_loop_last [OF "1.prems"(1) this] False show ?thesis
      by (simp del: GetVarint32_loop.simps add: EncodeVarint64.simps [of v])
  qed
qed

lemma ucast_u32_u64 [simp]: "(ucast (ucast (v :: u32) :: u64) :: u32) = v"
  by (rule bit_word_eqI) (simp add: bit_unsigned_iff)

lemma GetVarint32_EncodeVarint32: "GetVarint32 (EncodeVarint32 v @ rest) = Some (rest, v)"
proof -
  have "unat (ucast v :: u64) < 2 ^ (35 - 0)"
    using unsigned_less [of v, where 'a = nat] by (simp add: unat_ucast_u32)
  from GetVarint32_loop_Encode [OF _ _ this, of rest 0] show ?thesis
    by (simp add: GetVarint32_def EncodeVarint32_eq_64)
qed

lemma GetLengthPrefixedSlice_Put:
  assumes "length v < 2 ^ 32"
  shows "GetLengthPrefixedSlice (PutLengthPrefixedSlice [] v @ rest) = Some (rest, v)"
proof -
  have "unat (of_nat (length v) :: u32) = length v"
    using assms by (simp add: unat_of_nat take_bit_nat_eq_self)
  then show ?thesis
    by (simp add: GetLengthPrefixedSlice_def PutLengthPrefixedSlice_def PutVarint32_def
        GetVarint32_EncodeVarint32)
qed

section \<open>Internal keys\<close>

lemma tag_seq: "drop_bit 8 (push_bit 8 s OR ucast (t :: byte) :: u64) = take_bit 56 s"
  by (rule bit_word_eqI) (auto simp: bit_simps dest: bit_imp_le_length)

lemma tag_type: "(ucast (push_bit 8 s OR ucast (t :: byte) :: u64) :: byte) = t"
  by (rule bit_word_eqI) (auto simp: bit_simps)

lemma ParseInternalKey_Put [simp]:
  "ParseInternalKey (PutInternalKey [] uk s t) = Some (uk, take_bit 56 s, t)"
  using DecodeFixed64_Put [of "push_bit 8 s OR ucast t" "[]"] tag_seq [of s t] tag_type [of s t]
  by (simp add: ParseInternalKey_def PutInternalKey_def PutFixed64_append [of uk] ucast8_mask64)

lemma tag_join: "push_bit 8 (drop_bit 8 w) OR ucast (ucast w :: byte) = (w :: u64)"
proof (rule bit_word_eqI)
  fix n assume "n < LENGTH(64)"
  then show "bit (push_bit 8 (drop_bit 8 w) OR ucast (ucast w :: byte)) n = bit w n"
    by (cases "8 \<le> n") (auto simp: bit_simps)
qed

lemma Put_ParseInternalKey:
  assumes "ParseInternalKey ik = Some (uk, s, t)"
  shows "PutInternalKey [] uk s t = ik"
proof -
  let ?n = "length ik - 8"
  from assms obtain tag where len: "8 \<le> length ik" and tag: "DecodeFixed64 (drop ?n ik) = Some tag"
    and r: "uk = take ?n ik" "s = drop_bit 8 tag" "t = ucast tag"
    by (auto simp: ParseInternalKey_def ucast8_mask64 split: if_splits option.splits)
  have "PutFixed64 [] tag = drop ?n ik"
    using len tag by (intro Put_DecodeFixed64) simp_all
  then show ?thesis
    by (simp add: PutInternalKey_def r tag_join PutFixed64_append [of "take ?n ik"])
qed

lemma ParseInternalKey_None: "ParseInternalKey ik = None \<longleftrightarrow> length ik < 8"
  by (auto simp: ParseInternalKey_def DecodeFixed64_le)

section \<open>Theorems\<close>

text \<open>every number and every string survives the variable-length encoding. Decoding the
  encoding of a 32-bit or 64-bit number, followed by any other bytes, returns the number and leaves
  exactly those bytes; so does decoding a length-prefixed string; and \<open>VarintLength\<close> is the
  length of the encoding.\<close>

theorem varint_roundtrip:
  "GetVarint64 (PutVarint64 [] v @ rest) = Some (rest, v) \<and>
   GetVarint32 (PutVarint32 [] u @ rest) = Some (rest, u) \<and>
   VarintLength v = length (PutVarint64 [] v)"
  using GetVarint64_EncodeVarint64 [of v rest] GetVarint32_EncodeVarint32 [of u rest]
    VarintLength_loop_Encode [of v 1]
  by (simp add: PutVarint64_def PutVarint32_def VarintLength_def)

text \<open>internal keys parse back. What \<open>PutInternalKey\<close> encodes, \<open>ParseInternalKey\<close> returns:
  the user key, the type, and the sequence number up to its 56 bits; every parsable string is the
  encoding of what it parses to; and exactly the strings of eight bytes or more are parsable.\<close>

theorem internal_key_roundtrip:
  "ParseInternalKey (PutInternalKey [] uk s t) = Some (uk, take_bit 56 s, t) \<and>
   (case ParseInternalKey ik of
      Some (uk', s', t') \<Rightarrow> PutInternalKey [] uk' s' t' = ik \<and> 8 \<le> length ik
    | None \<Rightarrow> length ik < 8)"
  using Put_ParseInternalKey [of ik] ParseInternalKey_None [of ik]
  by (simp split: option.splits prod.splits add: not_less [symmetric]) auto

text \<open>masking a checksum is a bijection, undone by \<open>Unmask\<close>.\<close>

theorem mask_roundtrip: "Unmask (Mask c) = c \<and> Mask (Unmask c) = c"
  by (simp add: Mask_Unmask Unmask_Mask)

end
