(* ===== verification/Hashing.thy ===== *)
theory Hashing
  imports Coding
begin

text \<open>
  The checksum and the hash functions of src/util/hash.cc, at their machine widths. A
  pointer cast to \<open>uint32_t\<close> or \<open>uint64_t\<close> reads little-endian (\<open>le_val\<close>, x86-64), and a
  plain \<open>char\<close> is signed there, so that a byte is sign-extended (\<open>scast\<close>) wherever the code
  converts a \<open>char\<close> to a wider unsigned type.
\<close>

section \<open>CRC32\<close>

definition crc32_table :: "u32 list" where
 "crc32_table = [
  0x00000000, 0x77073096, 0xee0e612c, 0x990951ba, 0x076dc419, 0x706af48f,
  0xe963a535, 0x9e6495a3, 0x0edb8832, 0x79dcb8a4, 0xe0d5e91e, 0x97d2d988,
  0x09b64c2b, 0x7eb17cbd, 0xe7b82d07, 0x90bf1d91, 0x1db71064, 0x6ab020f2,
  0xf3b97148, 0x84be41de, 0x1adad47d, 0x6ddde4eb, 0xf4d4b551, 0x83d385c7,
  0x136c9856, 0x646ba8c0, 0xfd62f97a, 0x8a65c9ec, 0x14015c4f, 0x63066cd9,
  0xfa0f3d63, 0x8d080df5, 0x3b6e20c8, 0x4c69105e, 0xd56041e4, 0xa2677172,
  0x3c03e4d1, 0x4b04d447, 0xd20d85fd, 0xa50ab56b, 0x35b5a8fa, 0x42b2986c,
  0xdbbbc9d6, 0xacbcf940, 0x32d86ce3, 0x45df5c75, 0xdcd60dcf, 0xabd13d59,
  0x26d930ac, 0x51de003a, 0xc8d75180, 0xbfd06116, 0x21b4f4b5, 0x56b3c423,
  0xcfba9599, 0xb8bda50f, 0x2802b89e, 0x5f058808, 0xc60cd9b2, 0xb10be924,
  0x2f6f7c87, 0x58684c11, 0xc1611dab, 0xb6662d3d, 0x76dc4190, 0x01db7106,
  0x98d220bc, 0xefd5102a, 0x71b18589, 0x06b6b51f, 0x9fbfe4a5, 0xe8b8d433,
  0x7807c9a2, 0x0f00f934, 0x9609a88e, 0xe10e9818, 0x7f6a0dbb, 0x086d3d2d,
  0x91646c97, 0xe6635c01, 0x6b6b51f4, 0x1c6c6162, 0x856530d8, 0xf262004e,
  0x6c0695ed, 0x1b01a57b, 0x8208f4c1, 0xf50fc457, 0x65b0d9c6, 0x12b7e950,
  0x8bbeb8ea, 0xfcb9887c, 0x62dd1ddf, 0x15da2d49, 0x8cd37cf3, 0xfbd44c65,
  0x4db26158, 0x3ab551ce, 0xa3bc0074, 0xd4bb30e2, 0x4adfa541, 0x3dd895d7,
  0xa4d1c46d, 0xd3d6f4fb, 0x4369e96a, 0x346ed9fc, 0xad678846, 0xda60b8d0,
  0x44042d73, 0x33031de5, 0xaa0a4c5f, 0xdd0d7cc9, 0x5005713c, 0x270241aa,
  0xbe0b1010, 0xc90c2086, 0x5768b525, 0x206f85b3, 0xb966d409, 0xce61e49f,
  0x5edef90e, 0x29d9c998, 0xb0d09822, 0xc7d7a8b4, 0x59b33d17, 0x2eb40d81,
  0xb7bd5c3b, 0xc0ba6cad, 0xedb88320, 0x9abfb3b6, 0x03b6e20c, 0x74b1d29a,
  0xead54739, 0x9dd277af, 0x04db2615, 0x73dc1683, 0xe3630b12, 0x94643b84,
  0x0d6d6a3e, 0x7a6a5aa8, 0xe40ecf0b, 0x9309ff9d, 0x0a00ae27, 0x7d079eb1,
  0xf00f9344, 0x8708a3d2, 0x1e01f268, 0x6906c2fe, 0xf762575d, 0x806567cb,
  0x196c3671, 0x6e6b06e7, 0xfed41b76, 0x89d32be0, 0x10da7a5a, 0x67dd4acc,
  0xf9b9df6f, 0x8ebeeff9, 0x17b7be43, 0x60b08ed5, 0xd6d6a3e8, 0xa1d1937e,
  0x38d8c2c4, 0x4fdff252, 0xd1bb67f1, 0xa6bc5767, 0x3fb506dd, 0x48b2364b,
  0xd80d2bda, 0xaf0a1b4c, 0x36034af6, 0x41047a60, 0xdf60efc3, 0xa867df55,
  0x316e8eef, 0x4669be79, 0xcb61b38c, 0xbc66831a, 0x256fd2a0, 0x5268e236,
  0xcc0c7795, 0xbb0b4703, 0x220216b9, 0x5505262f, 0xc5ba3bbe, 0xb2bd0b28,
  0x2bb45a92, 0x5cb36a04, 0xc2d7ffa7, 0xb5d0cf31, 0x2cd99e8b, 0x5bdeae1d,
  0x9b64c2b0, 0xec63f226, 0x756aa39c, 0x026d930a, 0x9c0906a9, 0xeb0e363f,
  0x72076785, 0x05005713, 0x95bf4a82, 0xe2b87a14, 0x7bb12bae, 0x0cb61b38,
  0x92d28e9b, 0xe5d5be0d, 0x7cdcefb7, 0x0bdbdf21, 0x86d3d2d4, 0xf1d4e242,
  0x68ddb3f8, 0x1fda836e, 0x81be16cd, 0xf6b9265b, 0x6fb077e1, 0x18b74777,
  0x88085ae6, 0xff0f6a70, 0x66063bca, 0x11010b5c, 0x8f659eff, 0xf862ae69,
  0x616bffd3, 0x166ccf45, 0xa00ae278, 0xd70dd2ee, 0x4e048354, 0x3903b3c2,
  0xa7672661, 0xd06016f7, 0x4969474d, 0x3e6e77db, 0xaed16a4a, 0xd9d65adc,
  0x40df0b66, 0x37d83bf0, 0xa9bcae53, 0xdebb9ec5, 0x47b2cf7f, 0x30b5ffe9,
  0xbdbdf21c, 0xcabac28a, 0x53b39330, 0x24b4a3a6, 0xbad03605, 0xcdd70693,
  0x54de5729, 0x23d967bf, 0xb3667a2e, 0xc4614ab8, 0x5d681b02, 0x2a6f2b94,
  0xb40bbe37, 0xc30c8ea1, 0x5a05df1b, 0x2d02ef8d]"

definition crc32_step :: "u32 \<Rightarrow> byte \<Rightarrow> u32" where
  "crc32_step crc b = crc32_table ! unat ((crc XOR scast b) AND 0xff) XOR drop_bit 8 crc"

definition CRC32 :: "bytes \<Rightarrow> u32" where
  "CRC32 data = foldl crc32_step 0xffffffff data XOR 0xffffffff"

text \<open>The wrappers of coding.cc; \<open>Extend\<close> only adds the checksum of the new data.\<close>

definition CalculateCRC32 :: "bytes \<Rightarrow> u32" where "CalculateCRC32 data = CRC32 data"

definition Extend :: "u32 \<Rightarrow> bytes \<Rightarrow> u32" where
  "Extend crc data = (if data = [] then crc else crc XOR CRC32 data)"

section \<open>Hash32 and Hash64\<close>

fun Hash32_blocks :: "u32 \<Rightarrow> bytes \<Rightarrow> u32 \<times> bytes" where
  "Hash32_blocks h data = (if length data < 4 then (h, data) else
     (let m = 0x5bd1e995; k = le_val (take 4 data) * m; k = k XOR drop_bit 24 k; k = k * m
      in Hash32_blocks (h * m XOR k) (drop 4 data)))"

declare Hash32_blocks.simps [simp del]

text \<open>The fall-through \<open>switch\<close> over the remaining bytes: the highest one first.\<close>

definition xor_tail :: "'a::len word \<Rightarrow> bytes \<Rightarrow> 'a word" where
  "xor_tail h data = foldr (\<lambda>i h. h XOR push_bit (8 * i) (scast (data ! i))) [0..<length data] h"

definition Hash32 :: "bytes \<Rightarrow> u32 \<Rightarrow> u32" where
  "Hash32 data seed =
     (let m = 0x5bd1e995; (h, data) = Hash32_blocks seed data;
          h = (if data = [] then h else xor_tail h data * m);
          h = h XOR drop_bit 13 h; h = h * m
      in h XOR drop_bit 15 h)"

fun Hash64_blocks :: "u64 \<Rightarrow> bytes \<Rightarrow> u64 \<times> bytes" where
  "Hash64_blocks h data = (if length data < 8 then (h, data) else
     (let m = 0xc6a4a7935bd1e995; k = le_val (take 8 data) * m;
          k = k XOR drop_bit 47 k; k = k * m
      in Hash64_blocks ((h XOR k) * m) (drop 8 data)))"

declare Hash64_blocks.simps [simp del]

definition Hash64 :: "bytes \<Rightarrow> u64 \<Rightarrow> u64" where
  "Hash64 data seed =
     (let m = 0xc6a4a7935bd1e995; h = seed XOR of_nat (length data) * m;
          (h, data) = Hash64_blocks h data;
          h = (if data = [] then h else xor_tail h data * m);
          h = h XOR drop_bit 47 h; h = h * m
      in h XOR drop_bit 47 h)"

section \<open>MurmurHash3\<close>

fun Murmur32_body :: "u32 \<Rightarrow> bytes \<Rightarrow> u32 \<times> bytes" where
  "Murmur32_body h1 data = (if length data < 4 then (h1, data) else
     (let k1 = le_val (take 4 data) * 0xcc9e2d51; k1 = push_bit 15 k1 OR drop_bit 17 k1;
          k1 = k1 * 0x1b873593; h1 = h1 XOR k1; h1 = push_bit 13 h1 OR drop_bit 19 h1
      in Murmur32_body (h1 * 5 + 0xe6546b64) (drop 4 data)))"

declare Murmur32_body.simps [simp del]

definition ubyte_tail :: "'a::len word \<Rightarrow> bytes \<Rightarrow> 'a word" where
  "ubyte_tail k data = foldr (\<lambda>i k. k XOR push_bit (8 * i) (ucast (data ! i))) [0..<length data] k"

definition MurmurHash3_x86_32 :: "bytes \<Rightarrow> u32 \<Rightarrow> u32" where
  "MurmurHash3_x86_32 key seed =
     (let (h1, tail) = Murmur32_body seed key;
          h1 = (if tail = [] then h1
                else let k1 = ubyte_tail 0 tail * 0xcc9e2d51; k1 = push_bit 15 k1 OR drop_bit 17 k1;
                         k1 = k1 * 0x1b873593 in h1 XOR k1);
          h1 = h1 XOR of_nat (length key); h1 = h1 XOR drop_bit 16 h1; h1 = h1 * 0x85ebca6b;
          h1 = h1 XOR drop_bit 13 h1; h1 = h1 * 0xc2b2ae35
      in h1 XOR drop_bit 16 h1)"

definition Murmur128_step :: "u64 \<Rightarrow> u64 \<Rightarrow> u64 \<Rightarrow> u64 \<Rightarrow> u64 \<times> u64" where
  "Murmur128_step h1 h2 k1 k2 =
     (let k1 = k1 * 0x87c37b91114253d5; k1 = push_bit 31 k1 OR drop_bit 33 k1;
          k1 = k1 * 0x4cf5ad432745937f; h1 = h1 XOR k1;
          h1 = push_bit 27 h1 OR drop_bit 37 h1; h1 = h1 + h2; h1 = h1 * 5 + 0x52dce729;
          k2 = k2 * 0x4cf5ad432745937f; k2 = push_bit 33 k2 OR drop_bit 31 k2;
          k2 = k2 * 0x87c37b91114253d5; h2 = h2 XOR k2;
          h2 = push_bit 31 h2 OR drop_bit 33 h2; h2 = h2 + h1; h2 = h2 * 5 + 0x38495ab5
      in (h1, h2))"

fun Murmur128_body :: "nat \<Rightarrow> u64 \<times> u64 \<Rightarrow> bytes \<Rightarrow> (u64 \<times> u64) \<times> bytes" where
  "Murmur128_body 0 h data = (h, data)"
| "Murmur128_body (Suc nblocks) h data =
     Murmur128_body nblocks (Murmur128_step (fst h) (snd h) (le_val (take 8 data)) (le_val (take 8 (drop 8 data))))
       (drop 16 data)"

text \<open>The finalisation mix, written out for both halves in the source.\<close>

definition fmix64 :: "u64 \<Rightarrow> u64" where
  "fmix64 k = (let k = k XOR drop_bit 33 k; k = k * 0xff51afd7ed558ccd; k = k XOR drop_bit 33 k;
                   k = k * 0xc4ceb9fe1a85ec53 in k XOR drop_bit 33 k)"

definition MurmurHash3_x64_128 :: "bytes \<Rightarrow> u32 \<Rightarrow> u64 \<times> u64" where
  "MurmurHash3_x64_128 key seed =
     (let ((h1, h2), tail) = Murmur128_body (length key div 16) (ucast seed, ucast seed) key;
          h2 = (if length tail < 9 then h2
                else let k2 = ubyte_tail 0 (drop 8 tail) * 0x4cf5ad432745937f;
                         k2 = push_bit 33 k2 OR drop_bit 31 k2; k2 = k2 * 0x87c37b91114253d5
                     in h2 XOR k2);
          h1 = (if tail = [] then h1
                else let k1 = ubyte_tail 0 (take 8 tail) * 0x87c37b91114253d5;
                         k1 = push_bit 31 k1 OR drop_bit 33 k1; k1 = k1 * 0x4cf5ad432745937f
                     in h1 XOR k1);
          h1 = h1 XOR of_nat (length key); h2 = h2 XOR of_nat (length key);
          h1 = h1 + h2; h2 = h2 + h1; h1 = fmix64 h1; h2 = fmix64 h2; h1 = h1 + h2; h2 = h2 + h1
      in (h1, h2))"

section \<open>FNV and the simplified CityHash\<close>

definition FNVHash32 :: "bytes \<Rightarrow> u32" where
  "FNVHash32 data = foldl (\<lambda>hash b. (hash XOR scast b) * 0x01000193) 0x811c9dc5 data"

definition FNVHash64 :: "bytes \<Rightarrow> u64" where
  "FNVHash64 data = foldl (\<lambda>hash b. (hash XOR scast b) * 0x00000100000001B3) 0xcbf29ce484222325 data"

fun CityHash32_loop :: "u32 \<Rightarrow> bytes \<Rightarrow> u32" where
  "CityHash32_loop h data = (if length data < 4 then h else
     (let k = le_val (take 4 data) * 0xcc9e2d51; k = push_bit 15 k OR drop_bit 17 k;
          k = k * 0x1b873593; h = h XOR k; h = push_bit 13 h OR drop_bit 19 h
      in CityHash32_loop (h * 5 + 0xe6546b64) (drop 4 data)))"

declare CityHash32_loop.simps [simp del]

definition CityHash32 :: "bytes \<Rightarrow> u32" where
  "CityHash32 data = (if length data \<le> 4 then Hash32 data 0
                      else CityHash32_loop (of_nat (length data)) data)"

definition CityHash64 :: "bytes \<Rightarrow> u64" where
  "CityHash64 data = (if length data \<le> 8 then Hash64 data 0
                      else Hash64 data (of_nat (length data)))"

section \<open>The table is the reflected CRC-32 polynomial\<close>

text \<open>One bit of the reference definition: shift right, and subtract the polynomial.\<close>

definition crc_bit :: "u32 \<Rightarrow> u32" where
  "crc_bit c = (if bit c 0 then drop_bit 1 c XOR 0xedb88320 else drop_bit 1 c)"

definition crc_bits :: "u32 \<Rightarrow> u32" where
  "crc_bits c = crc_bit (crc_bit (crc_bit (crc_bit (crc_bit (crc_bit (crc_bit (crc_bit c)))))))"

definition crc_reference :: "bytes \<Rightarrow> u32" where
  "crc_reference data = foldl (\<lambda>c b. crc_bits (c XOR ucast b)) 0xffffffff data XOR 0xffffffff"

section \<open>Properties\<close>

lemma crc_bit_numeral:
  "crc_bit 0 = 0" "crc_bit 1 = 0xedb88320"
  "crc_bit (numeral n) = (if even (numeral n :: u32) then numeral n div 2 else (numeral n div 2) XOR 0xedb88320)"
  by (simp_all add: crc_bit_def bit_0 drop_bit_eq_div)

lemma crc_bits_table: "map crc_bits (map of_nat [0..<256]) = crc32_table"
  unfolding crc32_table_def crc_bits_def by (simp add: upt_conv_Cons crc_bit_numeral)

lemma length_crc32_table [simp]: "length crc32_table = 256"
  by (simp add: crc32_table_def)

lemma crc32_table_nth: "i < 256 \<Longrightarrow> crc32_table ! i = crc_bits (of_nat i)"
  by (simp flip: crc_bits_table)

lemma xor_cancel: "a XOR (a XOR b) = (b :: 'a::len word)"
  by (simp flip: xor.assoc)

lemma xor_left_eq: "a XOR b = a XOR c \<longleftrightarrow> b = (c :: 'a::len word)"
proof
  assume "a XOR b = a XOR c"
  then have "a XOR (a XOR b) = a XOR (a XOR c)" by (rule arg_cong)
  then show "b = c" by (simp only: xor_cancel)
qed simp

lemma xor_right_eq: "b XOR a = c XOR a \<longleftrightarrow> b = (c :: 'a::len word)"
  by (simp add: xor.commute [of _ a] xor_left_eq)

lemma crc_bit_xor: "crc_bit (x XOR y) = crc_bit x XOR crc_bit y"
  by (simp add: crc_bit_def bit_xor_iff drop_bit_xor ac_simps xor_left_eq xor_cancel)

lemma crc_bits_xor: "crc_bits (x XOR y) = crc_bits x XOR crc_bits y"
  by (simp add: crc_bits_def crc_bit_xor)

lemma crc_bits_high: "take_bit 8 c = 0 \<Longrightarrow> crc_bits c = drop_bit 8 c"
proof -
  assume z: "take_bit 8 c = 0"
  have b: "\<not> bit c i" if "i < 8" for i
    using that z by (metis bit_0_eq bit_take_bit_iff bot_apply bot_bool_def)
  show ?thesis
    by (simp add: crc_bits_def crc_bit_def b bit_drop_bit_eq numeral_eq_Suc)
qed

lemma byte_bit: "\<not> n < 8 \<Longrightarrow> \<not> bit (b :: byte) n"
  using bit_imp_le_length [of b n] by auto

lemma high_bit: "bit (c :: u32) (8 + n) \<Longrightarrow> n < 24"
  using bit_imp_le_length [of c "8 + n"] by simp

lemma unat_low_byte: "unat (take_bit 8 z :: u32) < 256"
  by (simp add: take_bit_eq_mod unat_mod)

lemma low_byte: "z AND 0xff = take_bit 8 (z :: u32)"
  by (simp add: take_bit_eq_mask mask8_32)

lemma crc32_step_reference: "crc32_step crc b = crc_bits (crc XOR ucast b)"
proof -
  let ?z = "crc XOR ucast b" and ?h = "push_bit 8 (drop_bit 8 crc)"
  have t: "take_bit 8 (crc XOR scast b) = take_bit 8 ?z"
    by (rule bit_word_eqI) (auto simp: bit_simps)
  have s: "?z = take_bit 8 ?z XOR ?h"
    by (rule bit_word_eqI) (auto simp: bit_simps byte_bit)
  have "crc_bits ?z = crc_bits (take_bit 8 ?z) XOR crc_bits ?h"
    by (subst s) (rule crc_bits_xor)
  also have "crc_bits ?h = drop_bit 8 crc"
    by (subst crc_bits_high) (auto intro!: bit_word_eqI simp: bit_simps high_bit)
  finally show ?thesis
    by (simp add: crc32_step_def low_byte t crc32_table_nth unat_low_byte del: take_bit_xor)
qed

text \<open>C29: The table-driven checksum is the bit-by-bit CRC-32 (reflected polynomial
  \<open>0xedb88320\<close>, initial value and final complement all ones) of every byte string.\<close>

theorem crc32_is_polynomial_crc: "CRC32 data = crc_reference data"
  by (simp add: CRC32_def crc_reference_def crc32_step_reference [abs_def])

lemma crc32_top_bytes: "distinct (map (\<lambda>x. unat (drop_bit 24 x)) crc32_table)"
proof -
  have "map (\<lambda>x. unat (drop_bit 24 x)) crc32_table = [0, 119, 238, 153, 7, 112, 233, 158, 14, 121, 224, 151, 9, 126, 231, 144, 29, 106, 243, 132,
      26, 109, 244, 131, 19, 100, 253, 138, 20, 99, 250, 141, 59, 76, 213, 162, 60, 75, 210, 165,
      53, 66, 219, 172, 50, 69, 220, 171, 38, 81, 200, 191, 33, 86, 207, 184, 40, 95, 198, 177,
      47, 88, 193, 182, 118, 1, 152, 239, 113, 6, 159, 232, 120, 15, 150, 225, 127, 8, 145, 230,
      107, 28, 133, 242, 108, 27, 130, 245, 101, 18, 139, 252, 98, 21, 140, 251, 77, 58, 163, 212,
      74, 61, 164, 211, 67, 52, 173, 218, 68, 51, 170, 221, 80, 39, 190, 201, 87, 32, 185, 206,
      94, 41, 176, 199, 89, 46, 183, 192, 237, 154, 3, 116, 234, 157, 4, 115, 227, 148, 13, 122,
      228, 147, 10, 125, 240, 135, 30, 105, 247, 128, 25, 110, 254, 137, 16, 103, 249, 142, 23, 96,
      214, 161, 56, 79, 209, 166, 63, 72, 216, 175, 54, 65, 223, 168, 49, 70, 203, 188, 37, 82,
      204, 187, 34, 85, 197, 178, 43, 92, 194, 181, 44, 91, 155, 236, 117, 2, 156, 235, 114, 5,
      149, 226, 123, 12, 146, 229, 124, 11, 134, 241, 104, 31, 129, 246, 111, 24, 136, 255, 102, 17,
      143, 248, 97, 22, 160, 215, 78, 57, 167, 208, 73, 62, 174, 217, 64, 55, 169, 222, 71, 48,
      189, 202, 83, 36, 186, 205, 84, 35, 179, 196, 93, 42, 180, 195, 90, 45]"
    by (simp add: crc32_table_def drop_bit_eq_div unat_div)
  then show ?thesis by (simp only:) simp
qed

lemma crc32_top_inj:
  "i < 256 \<Longrightarrow> j < 256 \<Longrightarrow> drop_bit 24 (crc32_table ! i) = drop_bit 24 (crc32_table ! j) \<Longrightarrow> i = j"
  using crc32_top_bytes by (metis (no_types, lifting) distinct_conv_nth length_crc32_table length_map nth_map)

lemma crc32_step_inj:
  assumes "crc32_step c b = crc32_step c' b'"
  shows "c XOR ucast b = c' XOR ucast b'"
proof -
  let ?i = "\<lambda>c b. unat (take_bit 8 (c XOR scast b :: u32))"
  have eq: "crc32_table ! ?i c b XOR drop_bit 8 c = crc32_table ! ?i c' b' XOR drop_bit 8 c'"
    using assms by (simp add: crc32_step_def low_byte)
  have top: "drop_bit 24 (drop_bit 8 x) = 0" for x :: u32
    by (rule bit_word_eqI) (auto simp: bit_simps dest: bit_imp_le_length)
  have "drop_bit 24 (crc32_table ! ?i c b) = drop_bit 24 (crc32_table ! ?i c' b')"
    using arg_cong [OF eq, of "drop_bit 24"] by (simp add: drop_bit_xor top)
  then have i: "?i c b = ?i c' b'"
    by (intro crc32_top_inj unat_low_byte)
  then have d: "drop_bit 8 c = drop_bit 8 c'"
    using eq by (simp add: xor_left_eq)
  have t: "take_bit 8 (c XOR scast b) = take_bit 8 (c' XOR scast b')"
    using i by (simp add: word_unat_eq_iff)
  show ?thesis
  proof (rule bit_word_eqI)
    fix n assume n: "n < LENGTH(32)"
    show "bit (c XOR ucast b) n = bit (c' XOR ucast b') n"
    proof (cases "n < 8")
      case True
      then show ?thesis using arg_cong [OF t, of "\<lambda>x. bit x n"] by (auto simp: bit_simps)
    next
      case False
      then show ?thesis using arg_cong [OF d, of "\<lambda>x. bit x (n - 8)"] by (auto simp: bit_simps byte_bit)
    qed
  qed
qed

lemma crc32_step_state_inj: "crc32_step c b = crc32_step c' b \<Longrightarrow> c = c'"
  by (drule crc32_step_inj) (simp add: xor_right_eq)

lemma is_up_byte: "is_up (ucast :: byte \<Rightarrow> u32)"
  by (simp add: is_up)

lemma ucast_byte_inj: "(ucast (b :: byte) :: u32) = ucast b' \<Longrightarrow> b = b'"
  by (metis ucast_up_ucast_id is_up_byte)

lemma crc32_step_byte_inj: "crc32_step c b = crc32_step c b' \<Longrightarrow> b = b'"
  by (drule crc32_step_inj) (simp add: xor_left_eq ucast_byte_inj)

lemma crc32_fold_state_inj: "foldl crc32_step c xs = foldl crc32_step c' xs \<Longrightarrow> c = c'"
  by (induction xs arbitrary: c c') (auto dest: crc32_step_state_inj)

lemma CRC32_one_byte:
  assumes "i < length data" "CRC32 (data[i := b]) = CRC32 data"
  shows "b = data ! i"
proof -
  let ?s = "foldl crc32_step 0xffffffff (take i data)"
  have l: "foldl crc32_step 0xffffffff (data[i := c])
      = foldl crc32_step (crc32_step ?s c) (drop (Suc i) data)" for c
    using assms(1) by (simp add: upd_conv_take_nth_drop)
  have "foldl crc32_step 0xffffffff (data[i := b]) = foldl crc32_step 0xffffffff (data[i := data ! i])"
    using assms(2) by (simp add: CRC32_def xor_right_eq)
  then have "crc32_step ?s b = crc32_step ?s (data ! i)"
    unfolding l by (rule crc32_fold_state_inj)
  then show ?thesis by (rule crc32_step_byte_inj)
qed

end
