(* ===== verification/Comparators.thy ===== *)
theory Comparators
  imports Coding
begin

text \<open>
  The comparator interface and the built-in comparators of src/util/comparator.cc. The
  abstract class is a record of its virtual functions; the two functions that modify a
  string return it modified. The interface's promises (include/lrdb/util/comparator.h)
  are the locales at the end, interpreted on the built-in comparators that keep them.
\<close>

record comparator =
  Compare :: "bytes \<Rightarrow> bytes \<Rightarrow> int"
  FindShortestSeparator :: "bytes \<Rightarrow> bytes \<Rightarrow> bytes"
  FindShortSuccessor :: "bytes \<Rightarrow> bytes"

section \<open>Bytewise\<close>

definition Bytewise_Compare :: "bytes \<Rightarrow> bytes \<Rightarrow> int" where
  "Bytewise_Compare a b =
     (let min_len = min (length a) (length b); result = memcmp a b min_len
      in if result = 0
         then (if length a < length b then -1 else if length b < length a then 1 else result)
         else result)"

text \<open>The loop that counts the common prefix, bounded by \<open>min_len\<close>.\<close>

fun diff_index_loop :: "bytes \<Rightarrow> bytes \<Rightarrow> nat" where
  "diff_index_loop (x # xs) (y # ys) = (if x = y then Suc (diff_index_loop xs ys) else 0)"
| "diff_index_loop _ _ = 0"

text \<open>\<open>byte + 1\<close> is computed as an \<open>int\<close>, so it does not wrap.\<close>

definition Bytewise_FindShortestSeparator :: "bytes \<Rightarrow> bytes \<Rightarrow> bytes" where
  "Bytewise_FindShortestSeparator start limit =
     (let min_len = min (length start) (length limit);
          diff_index = diff_index_loop start limit
      in if min_len \<le> diff_index then start
         else let byte = start ! diff_index
              in if byte < 0xff \<and> unat byte + 1 < unat (limit ! diff_index)
                 then take (diff_index + 1) (start[diff_index := byte + 1])
                 else start)"

text \<open>The loop over the key's bytes; what it has passed is \<open>0xff\<close>.\<close>

fun Bytewise_FindShortSuccessor :: "bytes \<Rightarrow> bytes" where
  "Bytewise_FindShortSuccessor [] = []"
| "Bytewise_FindShortSuccessor (x # xs) =
     (if x \<noteq> 0xff then [x + 1] else x # Bytewise_FindShortSuccessor xs)"

definition BytewiseComparator :: comparator where
  "BytewiseComparator = \<lparr>Compare = Bytewise_Compare,
     FindShortestSeparator = Bytewise_FindShortestSeparator,
     FindShortSuccessor = Bytewise_FindShortSuccessor\<rparr>"

section \<open>Reverse bytewise\<close>

definition Reverse_Compare :: "bytes \<Rightarrow> bytes \<Rightarrow> int" where
  "Reverse_Compare a b = - Compare BytewiseComparator a b"

definition Reverse_FindShortestSeparator :: "bytes \<Rightarrow> bytes \<Rightarrow> bytes" where
  "Reverse_FindShortestSeparator start limit =
     FindShortestSeparator BytewiseComparator limit start"

text \<open>The search for the predecessor: the first non-zero byte is decremented, the rest become 0xff.\<close>

fun predecessor_loop :: "bytes \<Rightarrow> bytes" where
  "predecessor_loop [] = []"
| "predecessor_loop (x # xs) =
     (if 0 < x then (x - 1) # replicate (length xs) 0xff else x # predecessor_loop xs)"

definition Reverse_FindShortSuccessor :: "bytes \<Rightarrow> bytes" where
  "Reverse_FindShortSuccessor key =
     (let tmp = FindShortSuccessor BytewiseComparator key
      in if tmp \<noteq> [] then predecessor_loop tmp else tmp)"

definition ReverseBytewiseComparator :: comparator where
  "ReverseBytewiseComparator = \<lparr>Compare = Reverse_Compare,
     FindShortestSeparator = Reverse_FindShortestSeparator,
     FindShortSuccessor = Reverse_FindShortSuccessor\<rparr>"

section \<open>Numeric\<close>

text \<open>
  \<open>NumericComparatorImpl<T>\<close>: the template parameter is the word type, read in the
  machine's (little-endian) byte order.
\<close>

definition size_of :: "'a::len itself \<Rightarrow> nat" where
  "size_of _ = LENGTH('a) div 8"

definition load :: "bytes \<Rightarrow> 'a::len word" where
  "load p = le_val (take (size_of TYPE('a)) p)"

definition Numeric_Compare :: "'a::len itself \<Rightarrow> bytes \<Rightarrow> bytes \<Rightarrow> int" where
  "Numeric_Compare T a b =
     (let n = size_of T
      in if length a < n \<or> length b < n then Compare BytewiseComparator a b
         else let val_a = (load a :: 'a word); val_b = (load b :: 'a word)
              in if val_a < val_b then -1
                 else if val_b < val_a then 1
                 else if length a = n \<and> length b = n then 0
                 else Compare BytewiseComparator (drop n a) (drop n b))"

definition Numeric_FindShortestSeparator :: "'a::len itself \<Rightarrow> bytes \<Rightarrow> bytes \<Rightarrow> bytes" where
  "Numeric_FindShortestSeparator T start limit =
     (let n = size_of T; fallback = FindShortestSeparator BytewiseComparator start limit
      in if n \<le> length start \<and> n \<le> length limit
         then let val_start = (load start :: 'a word); val_limit = (load limit :: 'a word)
              in if val_start < val_limit \<and> val_start + 1 < val_limit
                 then le_bytes n (val_start + 1) else fallback
         else fallback)"

definition Numeric_FindShortSuccessor :: "'a::len itself \<Rightarrow> bytes \<Rightarrow> bytes" where
  "Numeric_FindShortSuccessor T key =
     (let n = size_of T; fallback = FindShortSuccessor BytewiseComparator key
      in if n \<le> length key
         then let val = (load key :: 'a word)
              in if val < - 1 then le_bytes n (val + 1) else fallback
         else fallback)"

definition NumericComparator :: "'a::len itself \<Rightarrow> comparator" where
  "NumericComparator T = \<lparr>Compare = Numeric_Compare T,
     FindShortestSeparator = Numeric_FindShortestSeparator T,
     FindShortSuccessor = Numeric_FindShortSuccessor T\<rparr>"

section \<open>Prefix\<close>

definition Prefix_Compare :: "nat \<Rightarrow> bytes \<Rightarrow> bytes \<Rightarrow> int" where
  "Prefix_Compare prefix_len a b =
     Compare BytewiseComparator (take (min (length a) prefix_len) a)
       (take (min (length b) prefix_len) b)"

definition Prefix_FindShortestSeparator :: "nat \<Rightarrow> bytes \<Rightarrow> bytes \<Rightarrow> bytes" where
  "Prefix_FindShortestSeparator prefix_len start limit =
     (let start' = (if prefix_len < length start then take prefix_len start else start);
          limit_prefix = take (min (length limit) prefix_len) limit
      in FindShortestSeparator BytewiseComparator start' limit_prefix)"

definition Prefix_FindShortSuccessor :: "nat \<Rightarrow> bytes \<Rightarrow> bytes" where
  "Prefix_FindShortSuccessor prefix_len key =
     FindShortSuccessor BytewiseComparator
       (if prefix_len < length key then take prefix_len key else key)"

definition PrefixComparator :: "nat \<Rightarrow> comparator" where
  "PrefixComparator prefix_len = \<lparr>Compare = Prefix_Compare prefix_len,
     FindShortestSeparator = Prefix_FindShortestSeparator prefix_len,
     FindShortSuccessor = Prefix_FindShortSuccessor prefix_len\<rparr>"

section \<open>The interface's promises\<close>

text \<open>
  A comparison that is a total preorder on the keys of a carrier: what the skip list, the
  memtable and the merge iterators rely on. Keys that compare equal are the same key to
  them.
\<close>

locale key_order =
  fixes cmp :: "'k \<Rightarrow> 'k \<Rightarrow> int"
    and okey :: "'k \<Rightarrow> bool"
  assumes cmp_refl: "okey a \<Longrightarrow> cmp a a = 0"
    and cmp_sym: "okey a \<Longrightarrow> okey b \<Longrightarrow> cmp a b < 0 \<longleftrightarrow> 0 < cmp b a"
    and cmp_trans: "okey a \<Longrightarrow> okey b \<Longrightarrow> okey c \<Longrightarrow> cmp a b \<le> 0 \<Longrightarrow> cmp b c \<le> 0 \<Longrightarrow> cmp a c \<le> 0"
begin

lemma cmp_eq_sym: "okey a \<Longrightarrow> okey b \<Longrightarrow> cmp a b = 0 \<longleftrightarrow> cmp b a = 0"
  using cmp_sym [of a b] cmp_sym [of b a] by linarith

lemma cmp_le_total: "okey a \<Longrightarrow> okey b \<Longrightarrow> cmp a b \<le> 0 \<or> cmp b a \<le> 0"
  using cmp_sym [of a b] by linarith

lemma cmp_less_le_trans:
  "okey a \<Longrightarrow> okey b \<Longrightarrow> okey c \<Longrightarrow> cmp a b < 0 \<Longrightarrow> cmp b c \<le> 0 \<Longrightarrow> cmp a c < 0"
  using cmp_trans [of b c a] cmp_sym [of a b] cmp_sym [of a c] by linarith

lemma cmp_le_less_trans:
  "okey a \<Longrightarrow> okey b \<Longrightarrow> okey c \<Longrightarrow> cmp a b \<le> 0 \<Longrightarrow> cmp b c < 0 \<Longrightarrow> cmp a c < 0"
  using cmp_trans [of c a b] cmp_sym [of b c] cmp_sym [of a c] by linarith

lemma cmp_less_trans:
  "okey a \<Longrightarrow> okey b \<Longrightarrow> okey c \<Longrightarrow> cmp a b < 0 \<Longrightarrow> cmp b c < 0 \<Longrightarrow> cmp a c < 0"
  by (rule cmp_less_le_trans [of a b c]) simp_all

lemma cmp_flip_neg: "okey a \<Longrightarrow> okey b \<Longrightarrow> cmp a b < 0 \<Longrightarrow> cmp b a > 0"
  using cmp_sym [of a b] by simp

lemma cmp_not_neg: "okey a \<Longrightarrow> okey b \<Longrightarrow> \<not> cmp a b < 0 \<longleftrightarrow> cmp b a \<le> 0"
  using cmp_sym [of b a] cmp_sym [of a b] by linarith

end

text \<open>A comparison under which only equal keys compare equal.\<close>

locale strict_key_order = key_order +
  assumes cmp_eq: "okey a \<Longrightarrow> okey b \<Longrightarrow> cmp a b = 0 \<Longrightarrow> a = b"

text \<open>
  The whole \<open>Comparator\<close> interface: the comparison, \<open>start <= *start < limit\<close> for the
  separator and \<open>*key >= key\<close> for the successor.
\<close>

locale comparator_contract = key_order "Compare c" "\<lambda>_. True" for c :: comparator +
  assumes separator_ge: "Compare c start limit < 0 \<Longrightarrow> Compare c start (FindShortestSeparator c start limit) \<le> 0"
    and separator_lt: "Compare c start limit < 0 \<Longrightarrow> Compare c (FindShortestSeparator c start limit) limit < 0"
    and successor_ge: "Compare c key (FindShortSuccessor c key) \<le> 0"
begin

text \<open>An index block: the separator stored for a block routes every later key past it.\<close>

lemma separator_routes:
  assumes "Compare c start limit < 0" "Compare c limit k \<le> 0"
  shows "Compare c (FindShortestSeparator c start limit) k < 0"
  using cmp_less_le_trans separator_lt assms by blast

lemma separator_covers:
  assumes "Compare c start limit < 0" "Compare c k start \<le> 0"
  shows "Compare c k (FindShortestSeparator c start limit) \<le> 0"
  using cmp_trans separator_ge assms by blast

end

section \<open>The built-in comparators\<close>

lemma Bytewise_Compare_lex:
  "Bytewise_Compare a b = (if a < b then -1 else if a = b then 0 else 1)"
proof -
  have "Bytewise_Compare a b = slice_compare a b"
    by (auto simp: Bytewise_Compare_def slice_compare_def Let_def min_def)
  then show ?thesis by (simp add: slice_compare_lex)
qed

lemma diff_index_split:
  "diff_index_loop s l < min (length s) (length l) \<Longrightarrow>
   \<exists>p x y s' l'. s = p @ x # s' \<and> l = p @ y # l' \<and> x \<noteq> y \<and> length p = diff_index_loop s l"
proof (induction s l rule: diff_index_loop.induct)
  case (1 x xs y ys)
  show ?case
  proof (cases "x = y")
    case True
    then obtain p x' y' s' l' where "xs = p @ x' # s' \<and> ys = p @ y' # l' \<and> x' \<noteq> y'
        \<and> length p = diff_index_loop xs ys" using 1 by auto
    then show ?thesis using True by (intro exI [of _ "x # p"]) auto
  next
    case False
    then show ?thesis by (intro exI [of _ "[]"]) auto
  qed
qed auto

lemma less_prefix_Cons: "(p @ a # s :: bytes) < p @ b # t \<longleftrightarrow> a < b \<or> a = b \<and> s < t"
  by (induction p) auto

lemma unat_succ: "x \<noteq> 0xff \<Longrightarrow> unat (x + 1 :: byte) = Suc (unat x)"
proof -
  assume "x \<noteq> 0xff"
  then have "unat x \<noteq> 255" by (simp add: word_unat_eq_iff)
  moreover have "unat x < 256" using unsigned_less [of x, where 'a = nat] by simp
  ultimately show ?thesis by (simp add: unat_word_ariths)
qed

lemma succ_less: "x \<noteq> 0xff \<Longrightarrow> (x :: byte) < x + 1"
  by (simp add: word_less_nat_alt unat_succ)

lemma Bytewise_separator_cases:
  "Bytewise_FindShortestSeparator start limit = start \<or>
   (\<exists>p x y s l. start = p @ x # s \<and> limit = p @ y # l \<and> x < x + 1 \<and> x + 1 < y \<and>
      Bytewise_FindShortestSeparator start limit = p @ [x + 1])"
proof (cases "Bytewise_FindShortestSeparator start limit = start")
  case False
  let ?d = "diff_index_loop start limit"
  have d: "?d < min (length start) (length limit)" and b: "start ! ?d < 0xff"
    and u: "unat (start ! ?d) + 1 < unat (limit ! ?d)"
    and r: "Bytewise_FindShortestSeparator start limit = take (?d + 1) (start[?d := start ! ?d + 1])"
    using False by (auto simp: Bytewise_FindShortestSeparator_def Let_def split: if_splits)
  obtain p x y s l where sp: "start = p @ x # s" "limit = p @ y # l" "length p = ?d"
    using diff_index_split [OF d] by blast
  have x: "start ! ?d = x" "limit ! ?d = y"
    by (simp_all only: sp(3) [symmetric], simp_all add: sp(1,2))
  have ne: "x \<noteq> 0xff" using b x by auto
  then have lt: "x < x + 1" by (rule succ_less)
  have "x + 1 < y" using u x ne by (simp add: word_less_nat_alt unat_succ)
  moreover have "Bytewise_FindShortestSeparator start limit = p @ [x + 1]"
    unfolding r x sp(3) [symmetric] by (simp add: sp(1))
  ultimately show ?thesis using sp(1,2) lt
    by (intro disjI2 exI [of _ p] exI [of _ x] exI [of _ y] exI [of _ s] exI [of _ l]) simp
qed simp

lemma Bytewise_separator_bounds:
  assumes "start < limit"
  shows "start \<le> Bytewise_FindShortestSeparator start limit"
    "Bytewise_FindShortestSeparator start limit < limit"
  using Bytewise_separator_cases [of start limit] assms
  by (elim disjE exE conjE; simp add: less_prefix_Cons less_imp_le)+

lemma Bytewise_separator_length:
  "length (Bytewise_FindShortestSeparator start limit) \<le> length start"
  using Bytewise_separator_cases [of start limit] by auto

lemma Bytewise_successor_ge: "key \<le> Bytewise_FindShortSuccessor key"
  by (induction key) (auto simp: succ_less less_imp_le)

lemma Bytewise_successor_length: "length (Bytewise_FindShortSuccessor key) \<le> length key"
  by (induction key) auto

interpretation bytewise: comparator_contract BytewiseComparator
  using Bytewise_separator_bounds Bytewise_successor_ge
  by unfold_locales
    (auto simp: BytewiseComparator_def Bytewise_Compare_lex not_less less_le split: if_splits)

interpretation bytewise_strict: strict_key_order Bytewise_Compare "\<lambda>_. True"
  by unfold_locales (auto simp: Bytewise_Compare_lex split: if_splits)

interpretation reverse_strict: strict_key_order Reverse_Compare "\<lambda>_. True"
  by unfold_locales
    (auto simp: Reverse_Compare_def BytewiseComparator_def Bytewise_Compare_lex split: if_splits)


lemma Prefix_Compare_take: "Prefix_Compare n a b = Bytewise_Compare (take n a) (take n b)"
  by (simp add: Prefix_Compare_def BytewiseComparator_def min_def)

lemma Prefix_separator_take:
  "Prefix_FindShortestSeparator n s l = Bytewise_FindShortestSeparator (take n s) (take n l)"
  by (simp add: Prefix_FindShortestSeparator_def BytewiseComparator_def min_def Let_def)

lemma Prefix_successor_take:
  "Prefix_FindShortSuccessor n k = Bytewise_FindShortSuccessor (take n k)"
  by (simp add: Prefix_FindShortSuccessor_def BytewiseComparator_def)

lemma take_separator: "take n (Bytewise_FindShortestSeparator (take n s) l) = Bytewise_FindShortestSeparator (take n s) l"
  using Bytewise_separator_length [of "take n s" l] by simp

lemma take_successor: "take n (Bytewise_FindShortSuccessor (take n s)) = Bytewise_FindShortSuccessor (take n s)"
  using Bytewise_successor_length [of "take n s"] by simp

interpretation prefix: comparator_contract "PrefixComparator n"
  using Bytewise_separator_bounds Bytewise_successor_ge
  by unfold_locales
    (auto simp: PrefixComparator_def Prefix_Compare_take Prefix_separator_take Prefix_successor_take
      take_separator take_successor Bytewise_Compare_lex not_less less_le split: if_splits)

lemma predecessor_le: "predecessor_loop xs \<le> xs"
proof (induction xs)
  case (Cons x xs)
  have "x - 1 < x" if "0 < x"
  proof -
    have "x \<noteq> 0" using that by simp
    then show ?thesis unfolding word_less_nat_alt by (rule measure_unat)
  qed
  then show ?case using Cons by auto
qed simp

lemma Reverse_successor_le: "Reverse_FindShortSuccessor key \<le> key"
proof (cases key)
  case (Cons x xs)
  show ?thesis
  proof (cases "x = 0xff")
    case True
    then show ?thesis
      using Cons by (simp add: Reverse_FindShortSuccessor_def BytewiseComparator_def)
  next
    case False
    then have "0 < x + 1" using succ_less [of x] by (metis le_less_trans word_zero_le)
    then show ?thesis using False Cons
      by (simp add: Reverse_FindShortSuccessor_def BytewiseComparator_def)
  qed
qed (simp add: Reverse_FindShortSuccessor_def BytewiseComparator_def)

text \<open>
  The numeric comparison keeps numeric order on keys long enough for it, but falls back to
  byte order as soon as one of the two is short.
\<close>

lemma size_of_32 [simp]: "size_of TYPE(32) = 4"
  by (simp add: size_of_def)

lemma size_of_64 [simp]: "size_of TYPE(64) = 8"
  by (simp add: size_of_def)

lemma load_32: "load [a, b, c, d] =
    (ucast a OR push_bit 8 (ucast b OR push_bit 8 (ucast c OR push_bit 8 (ucast d))) :: u32)"
  by (simp add: load_def numeral_eq_Suc)

section \<open>Theorems\<close>

text \<open>the separators of the built-in byte comparators route keys correctly. For
  \<open>start < limit\<close> the shortened separator is at least \<open>start\<close> and less than \<open>limit\<close>, and a
  short successor is never smaller than its key, for the bytewise comparator and for the prefix
  comparator of any length.\<close>

theorem separators_keep_contract:
  assumes "c = BytewiseComparator \<or> c = PrefixComparator n" "Compare c start limit < 0"
  shows "Compare c start (FindShortestSeparator c start limit) \<le> 0 \<and>
    Compare c (FindShortestSeparator c start limit) limit < 0 \<and>
    Compare c key (FindShortSuccessor c key) \<le> 0"
  using assms bytewise.separator_ge bytewise.separator_lt bytewise.successor_ge
    prefix.separator_ge [of n] prefix.separator_lt [of n] prefix.successor_ge [of n] by auto

theorem separators_keep_contract_witness:
  "Compare BytewiseComparator (FindShortestSeparator BytewiseComparator [1, 2, 3] [1, 5]) [1, 5] < 0"
  using separators_keep_contract [of BytewiseComparator 0 "[1, 2, 3]" "[1, 5]" "[]"]
  by (simp add: BytewiseComparator_def Bytewise_Compare_lex)

text \<open>the reverse comparator's separator breaks the interface: it may be the limit itself,
  where the interface asks for less than the limit. Keys at the limit are then routed to the block
  before it.\<close>

theorem reverse_separator_reaches_limit:
  "Compare ReverseBytewiseComparator [2] [1] < 0 \<and>
   FindShortestSeparator ReverseBytewiseComparator [2] [1] = [1]"
  by (simp add: ReverseBytewiseComparator_def Reverse_Compare_def Reverse_FindShortestSeparator_def
      BytewiseComparator_def Bytewise_Compare_lex Bytewise_FindShortestSeparator_def)

text \<open>the numeric comparator is not an order. On keys of mixed length, which it accepts, it
  has a cycle \<open>a < c < b < a\<close>: two keys long enough compare by value, and either of them against
  a shorter one compares by bytes.\<close>

theorem numeric_comparator_cyclic:
  "Compare (NumericComparator TYPE(32)) [1, 0, 0, 0] [0, 1, 0, 0] < 0 \<and>
   Compare (NumericComparator TYPE(32)) [0, 1, 0, 0] [0, 2] < 0 \<and>
   Compare (NumericComparator TYPE(32)) [0, 2] [1, 0, 0, 0] < 0"
  by (simp add: NumericComparator_def Numeric_Compare_def Let_def load_32 BytewiseComparator_def
      Bytewise_Compare_lex)

end
