(* ===== verification/SkipLists.thy ===== *)
theory SkipLists
  imports Comparators
begin

text \<open>
  The skip list of include/lrdb/util/skiplist.h as the pointer structure it is: a heap of
  nodes, each with a key, a value and one next pointer per level of its tower, a sentinel
  head of height 12 and the current maximum height. A null pointer is \<open>None\<close>. Reading
  the next pointer of a node that is not allocated, or at a level above its tower, is
  undefined behaviour in C++ and has no value here; a search that would run forever has no
  value either, so "the operation returns" is a theorem and not an assumption. The
  generator's outputs are a parameter of the list, consumed in order. The theorems relate
  the heap to the ordered list of its entries.
\<close>

section \<open>State\<close>

record ('k, 'v) node =
  nkey :: 'k
  nval :: 'v
  nnext :: "nat option list"

type_synonym ('k, 'v) heap = "nat \<Rightarrow> ('k, 'v) node option"

record ('k, 'v) skiplist =
  sl_heap :: "('k, 'v) heap"
  sl_head :: nat
  max_height :: nat
  count :: nat
  sl_rnd :: "nat \<Rightarrow> nat"
  sl_rnd_pos :: nat
  sl_fresh :: nat

definition kMaxHeight :: nat where "kMaxHeight = 12"
definition kBranching :: nat where "kBranching = 4"

text \<open>\<open>Node::Next\<close> and \<open>Node::SetNext\<close>.\<close>

definition node_Next :: "('k, 'v) heap \<Rightarrow> nat \<Rightarrow> nat \<Rightarrow> nat option option" where
  "node_Next h x level =
     (case h x of None \<Rightarrow> None
      | Some n \<Rightarrow> if level < length (nnext n) then Some (nnext n ! level) else None)"

definition node_SetNext :: "('k, 'v) heap \<Rightarrow> nat \<Rightarrow> nat \<Rightarrow> nat option \<Rightarrow> ('k, 'v) heap option" where
  "node_SetNext h x level p =
     (case h x of None \<Rightarrow> None
      | Some n \<Rightarrow> if level < length (nnext n)
                 then Some (h(x \<mapsto> n\<lparr>nnext := (nnext n)[level := p]\<rparr>)) else None)"

definition AllocateNode :: "'k \<Rightarrow> 'v \<Rightarrow> nat \<Rightarrow> ('k, 'v) node" where
  "AllocateNode k v height = \<lparr>nkey = k, nval = v, nnext = replicate height None\<rparr>"

definition new_skiplist :: "'k \<Rightarrow> 'v \<Rightarrow> (nat \<Rightarrow> nat) \<Rightarrow> ('k, 'v) skiplist" where
  "new_skiplist k0 v0 rnd =
     \<lparr>sl_heap = (\<lambda>_. None)(0 \<mapsto> AllocateNode k0 v0 kMaxHeight), sl_head = 0, max_height = 1,
      count = 0, sl_rnd = rnd, sl_rnd_pos = 0, sl_fresh = 1\<rparr>"

section \<open>Operations\<close>

text \<open>The height loop, \<open>fuel\<close> counting down from \<open>kMaxHeight - 1\<close> possible rounds.\<close>

fun GetRandomHeight_loop :: "nat \<Rightarrow> (nat \<Rightarrow> nat) \<Rightarrow> nat \<Rightarrow> nat \<Rightarrow> nat \<times> nat" where
  "GetRandomHeight_loop 0 rnd pos height = (height, pos)"
| "GetRandomHeight_loop (Suc n) rnd pos height =
     (if rnd pos mod kBranching = 0 then GetRandomHeight_loop n rnd (Suc pos) (Suc height)
      else (height, Suc pos))"

definition GetRandomHeight :: "('k, 'v) skiplist \<Rightarrow> nat \<times> ('k, 'v) skiplist" where
  "GetRandomHeight sl =
     (let (height, pos) = GetRandomHeight_loop (kMaxHeight - 1) (sl_rnd sl) (sl_rnd_pos sl) 1
      in (height, sl\<lparr>sl_rnd_pos := pos\<rparr>))"

text \<open>
  The search loop, from node \<open>x\<close> at \<open>level\<close>. The array \<open>prev\<close> is a function; a caller
  that passes a null array ignores it.
\<close>

partial_function (option) find_ge_loop ::
    "('k \<Rightarrow> 'k \<Rightarrow> int) \<Rightarrow> ('k, 'v) heap \<Rightarrow> 'k \<Rightarrow> nat \<Rightarrow> nat \<Rightarrow> (nat \<Rightarrow> nat)
     \<Rightarrow> (nat option \<times> (nat \<Rightarrow> nat)) option" where
  "find_ge_loop cmp h key x level prev =
     (case node_Next h x level of
        None \<Rightarrow> None
      | Some nx \<Rightarrow>
          (case (case nx of None \<Rightarrow> Some False
                 | Some a \<Rightarrow> map_option (\<lambda>n. cmp (nkey n) key < 0) (h a)) of
             None \<Rightarrow> None
           | Some before \<Rightarrow>
               (if before then find_ge_loop cmp h key (the nx) level prev
                else if level = 0 then Some (nx, prev(level := x))
                else find_ge_loop cmp h key x (level - 1) (prev(level := x)))))"

definition SkipList_FindGreaterOrEqual ::
    "('k \<Rightarrow> 'k \<Rightarrow> int) \<Rightarrow> ('k, 'v) skiplist \<Rightarrow> 'k \<Rightarrow> (nat \<Rightarrow> nat) \<Rightarrow> (nat option \<times> (nat \<Rightarrow> nat)) option" where
  "SkipList_FindGreaterOrEqual cmp sl key prev =
     find_ge_loop cmp (sl_heap sl) key (sl_head sl) (max_height sl - 1) prev"

partial_function (option) find_lt_loop ::
    "('k \<Rightarrow> 'k \<Rightarrow> int) \<Rightarrow> ('k, 'v) heap \<Rightarrow> 'k \<Rightarrow> nat \<Rightarrow> nat \<Rightarrow> nat option" where
  "find_lt_loop cmp h key x level =
     (case node_Next h x level of
        None \<Rightarrow> None
      | Some nx \<Rightarrow>
          (case (case nx of None \<Rightarrow> Some False
                 | Some a \<Rightarrow> map_option (\<lambda>n. cmp (nkey n) key < 0) (h a)) of
             None \<Rightarrow> None
           | Some before \<Rightarrow>
               (if before then find_lt_loop cmp h key (the nx) level
                else if level = 0 then Some x else find_lt_loop cmp h key x (level - 1))))"

definition SkipList_FindLessThan :: "('k \<Rightarrow> 'k \<Rightarrow> int) \<Rightarrow> ('k, 'v) skiplist \<Rightarrow> 'k \<Rightarrow> nat option" where
  "SkipList_FindLessThan cmp sl key = find_lt_loop cmp (sl_heap sl) key (sl_head sl) (max_height sl - 1)"

partial_function (option) find_last_loop :: "('k, 'v) heap \<Rightarrow> nat \<Rightarrow> nat \<Rightarrow> nat option" where
  "find_last_loop h x level =
     (case node_Next h x level of
        None \<Rightarrow> None
      | Some nx \<Rightarrow>
          (case nx of
             None \<Rightarrow> (if level = 0 then Some x else find_last_loop h x (level - 1))
           | Some a \<Rightarrow> find_last_loop h a level))"

definition SkipList_FindLast :: "('k, 'v) skiplist \<Rightarrow> nat option" where
  "SkipList_FindLast sl = find_last_loop (sl_heap sl) (sl_head sl) (max_height sl - 1)"

text \<open>The linking loop \<open>for (i = 0; i < height; i++)\<close>, from level \<open>i\<close> for \<open>n\<close> rounds.\<close>

fun link_loop :: "('k, 'v) heap \<Rightarrow> (nat \<Rightarrow> nat) \<Rightarrow> nat \<Rightarrow> nat \<Rightarrow> nat \<Rightarrow> ('k, 'v) heap option" where
  "link_loop h prev x i 0 = Some h"
| "link_loop h prev x i (Suc n) =
     Option.bind (node_Next h (prev i) i) (\<lambda>nx.
     Option.bind (node_SetNext h x i nx) (\<lambda>h1.
     Option.bind (node_SetNext h1 (prev i) i (Some x)) (\<lambda>h2.
     link_loop h2 prev x (Suc i) n)))"

definition insert_node ::
    "('k, 'v) skiplist \<Rightarrow> (nat \<Rightarrow> nat) \<Rightarrow> 'k \<Rightarrow> 'v \<Rightarrow> ('k, 'v) skiplist option" where
  "insert_node sl0 prev0 key value =
     (let (height, sl) = GetRandomHeight sl0;
          prev = (\<lambda>i. if max_height sl \<le> i \<and> i < height then sl_head sl else prev0 i);
          mh = (if max_height sl < height then height else max_height sl);
          x = sl_fresh sl
      in map_option (\<lambda>h. sl\<lparr>sl_heap := h, max_height := mh, count := count sl + 1, sl_fresh := Suc x\<rparr>)
           (link_loop ((sl_heap sl)(x \<mapsto> AllocateNode key value height)) prev x 0 height))"

definition set_value :: "('k, 'v) skiplist \<Rightarrow> nat \<Rightarrow> 'v \<Rightarrow> ('k, 'v) skiplist option" where
  "set_value sl a v = map_option (\<lambda>n. sl\<lparr>sl_heap := (sl_heap sl)(a \<mapsto> n\<lparr>nval := v\<rparr>)\<rparr>) (sl_heap sl a)"

definition key_exists :: "('k \<Rightarrow> 'k \<Rightarrow> int) \<Rightarrow> ('k, 'v) heap \<Rightarrow> nat option \<Rightarrow> 'k \<Rightarrow> bool option" where
  "key_exists cmp h x key =
     (case x of None \<Rightarrow> Some False | Some a \<Rightarrow> map_option (\<lambda>n. cmp (nkey n) key = 0) (h a))"

definition SkipList_Insert ::
    "('k \<Rightarrow> 'k \<Rightarrow> int) \<Rightarrow> ('k, 'v) skiplist \<Rightarrow> 'k \<Rightarrow> 'v \<Rightarrow> ('k, 'v) skiplist option" where
  "SkipList_Insert cmp sl key value =
     Option.bind (SkipList_FindGreaterOrEqual cmp sl key (\<lambda>_. sl_head sl)) (\<lambda>(x, prev).
     Option.bind (key_exists cmp (sl_heap sl) x key) (\<lambda>ex.
     if ex then set_value sl (the x) value else insert_node sl prev key value))"

text \<open>\<open>Merge\<close> overwrites the value of an existing key: both arms of the \<open>if constexpr\<close> assign it.\<close>

definition SkipList_Merge ::
    "('k \<Rightarrow> 'k \<Rightarrow> int) \<Rightarrow> ('k, 'v) skiplist \<Rightarrow> 'k \<Rightarrow> 'v \<Rightarrow> ('k, 'v) skiplist option" where
  "SkipList_Merge cmp sl key value =
     Option.bind (SkipList_FindGreaterOrEqual cmp sl key (\<lambda>_. sl_head sl)) (\<lambda>(x, prev).
     Option.bind (key_exists cmp (sl_heap sl) x key) (\<lambda>ex.
     if ex then set_value sl (the x) value else insert_node sl prev key value))"

definition SkipList_Contains :: "('k \<Rightarrow> 'k \<Rightarrow> int) \<Rightarrow> ('k, 'v) skiplist \<Rightarrow> 'k \<Rightarrow> bool option" where
  "SkipList_Contains cmp sl key =
     Option.bind (SkipList_FindGreaterOrEqual cmp sl key (\<lambda>_. sl_head sl)) (\<lambda>(x, _).
     key_exists cmp (sl_heap sl) x key)"

text \<open>\<open>Get\<close>: the outer option is "returns", the inner one is "found".\<close>

definition SkipList_Get :: "('k \<Rightarrow> 'k \<Rightarrow> int) \<Rightarrow> ('k, 'v) skiplist \<Rightarrow> 'k \<Rightarrow> 'v option option" where
  "SkipList_Get cmp sl key =
     Option.bind (SkipList_FindGreaterOrEqual cmp sl key (\<lambda>_. sl_head sl)) (\<lambda>(x, _).
     Option.bind (key_exists cmp (sl_heap sl) x key) (\<lambda>ex.
     if ex then Some (map_option nval (sl_heap sl (the x))) else Some None))"

text \<open>The unlinking loop of \<open>Delete\<close> over all twelve levels.\<close>

fun unlink_loop :: "('k, 'v) heap \<Rightarrow> (nat \<Rightarrow> nat) \<Rightarrow> nat \<Rightarrow> nat \<Rightarrow> nat \<Rightarrow> ('k, 'v) heap option" where
  "unlink_loop h prev x i 0 = Some h"
| "unlink_loop h prev x i (Suc n) =
     Option.bind (node_Next h (prev i) i) (\<lambda>nx.
     if nx = Some x
     then Option.bind (node_Next h x i) (\<lambda>nn.
          Option.bind (node_SetNext h (prev i) i nn) (\<lambda>h1.
          unlink_loop h1 prev x (Suc i) n))
     else unlink_loop h prev x (Suc i) n)"

fun shrink_height :: "('k, 'v) heap \<Rightarrow> nat \<Rightarrow> nat \<Rightarrow> nat" where
  "shrink_height h hnode 0 = 0"
| "shrink_height h hnode (Suc n) =
     (if 0 < n \<and> node_Next h hnode n = Some None then shrink_height h hnode n else Suc n)"

definition SkipList_Delete ::
    "('k \<Rightarrow> 'k \<Rightarrow> int) \<Rightarrow> ('k, 'v) skiplist \<Rightarrow> 'k \<Rightarrow> (bool \<times> ('k, 'v) skiplist) option" where
  "SkipList_Delete cmp sl key =
     Option.bind (SkipList_FindGreaterOrEqual cmp sl key (\<lambda>_. sl_head sl)) (\<lambda>(x, prev).
     Option.bind (key_exists cmp (sl_heap sl) x key) (\<lambda>ex.
     if \<not> ex then Some (False, sl)
     else Option.bind (unlink_loop (sl_heap sl) prev (the x) 0 kMaxHeight) (\<lambda>h.
          let h' = h(the x := None)
          in Some (True, sl\<lparr>sl_heap := h', count := count sl - 1,
                            max_height := shrink_height h' (sl_head sl) (max_height sl)\<rparr>))))"

definition SkipList_GetFirst :: "('k, 'v) skiplist \<Rightarrow> nat option option" where
  "SkipList_GetFirst sl = node_Next (sl_heap sl) (sl_head sl) 0"

definition SkipList_GetLast :: "('k, 'v) skiplist \<Rightarrow> nat option option" where
  "SkipList_GetLast sl = map_option (\<lambda>x. if x = sl_head sl then None else Some x) (SkipList_FindLast sl)"

text \<open>\<open>Clear\<close> frees the nodes along level 0 and resets the head.\<close>

partial_function (option) clear_loop :: "('k, 'v) heap \<Rightarrow> nat option \<Rightarrow> ('k, 'v) heap option" where
  "clear_loop h node =
     (case node of
        None \<Rightarrow> Some h
      | Some x \<Rightarrow> (case node_Next h x 0 of
                     None \<Rightarrow> None
                   | Some nx \<Rightarrow> clear_loop (h(x := None)) nx))"

definition SkipList_Clear :: "('k, 'v) skiplist \<Rightarrow> ('k, 'v) skiplist option" where
  "SkipList_Clear sl =
     Option.bind (node_Next (sl_heap sl) (sl_head sl) 0) (\<lambda>first.
     Option.bind (clear_loop (sl_heap sl) first) (\<lambda>h.
     map_option (\<lambda>n. sl\<lparr>sl_heap := h(sl_head sl \<mapsto> n\<lparr>nnext := replicate kMaxHeight None\<rparr>),
                       max_height := 1, count := 0\<rparr>) (h (sl_head sl))))"

text \<open>\<open>RangeQuery\<close>: the callback's calls, in order.\<close>

partial_function (option) range_loop ::
    "('k \<Rightarrow> 'k \<Rightarrow> int) \<Rightarrow> ('k, 'v) heap \<Rightarrow> 'k \<Rightarrow> nat option \<Rightarrow> ('k \<times> 'v) list \<Rightarrow> ('k \<times> 'v) list option" where
  "range_loop cmp h stop current calls =
     (case current of
        None \<Rightarrow> Some calls
      | Some x \<Rightarrow>
          (case h x of
             None \<Rightarrow> None
           | Some n \<Rightarrow>
               (if cmp (nkey n) stop \<le> 0
                then (case node_Next h x 0 of
                        None \<Rightarrow> None
                      | Some nx \<Rightarrow> range_loop cmp h stop nx (calls @ [(nkey n, nval n)]))
                else Some calls)))"

definition SkipList_RangeQuery ::
    "('k \<Rightarrow> 'k \<Rightarrow> int) \<Rightarrow> ('k, 'v) skiplist \<Rightarrow> 'k \<Rightarrow> 'k \<Rightarrow> ('k \<times> 'v) list option" where
  "SkipList_RangeQuery cmp sl start stop =
     Option.bind (SkipList_FindGreaterOrEqual cmp sl start (\<lambda>_. sl_head sl)) (\<lambda>(x, _).
     range_loop cmp (sl_heap sl) stop x [])"

section \<open>The iterator: a node pointer\<close>

definition iter_Seek :: "('k \<Rightarrow> 'k \<Rightarrow> int) \<Rightarrow> ('k, 'v) skiplist \<Rightarrow> 'k \<Rightarrow> nat option option" where
  "iter_Seek cmp sl target = map_option fst (SkipList_FindGreaterOrEqual cmp sl target (\<lambda>_. sl_head sl))"

definition iter_SeekToFirst :: "('k, 'v) skiplist \<Rightarrow> nat option option" where
  "iter_SeekToFirst sl = node_Next (sl_heap sl) (sl_head sl) 0"

definition iter_SeekToLast :: "('k, 'v) skiplist \<Rightarrow> nat option option" where
  "iter_SeekToLast sl = map_option (\<lambda>x. if x = sl_head sl then None else Some x) (SkipList_FindLast sl)"

definition iter_Next :: "('k, 'v) skiplist \<Rightarrow> nat \<Rightarrow> nat option option" where
  "iter_Next sl x = node_Next (sl_heap sl) x 0"

definition iter_Prev :: "('k \<Rightarrow> 'k \<Rightarrow> int) \<Rightarrow> ('k, 'v) skiplist \<Rightarrow> nat \<Rightarrow> nat option option" where
  "iter_Prev cmp sl x =
     Option.bind (sl_heap sl x) (\<lambda>n.
     map_option (\<lambda>y. if y = sl_head sl then None else Some y) (SkipList_FindLessThan cmp sl (nkey n)))"

section \<open>Abstraction: the towers of a well-formed list\<close>

record ('k, 'v) tower =
  taddr :: nat
  tkey :: 'k
  tval :: 'v
  theight :: nat

fun chain :: "('k, 'v) heap \<Rightarrow> nat \<Rightarrow> nat \<Rightarrow> nat list \<Rightarrow> bool" where
  "chain h l x [] \<longleftrightarrow> node_Next h x l = Some None"
| "chain h l x (a # as) \<longleftrightarrow> node_Next h x l = Some (Some a) \<and> chain h l a as"

definition at_level :: "nat \<Rightarrow> ('k, 'v) tower list \<Rightarrow> nat list" where
  "at_level l ts = map taddr (filter (\<lambda>t. l < theight t) ts)"

text \<open>What the linking operations never change: key, value and tower height of each node.\<close>

definition node_info :: "('k, 'v) heap \<Rightarrow> nat \<Rightarrow> ('k \<times> 'v \<times> nat) option" where
  "node_info h a = map_option (\<lambda>n. (nkey n, nval n, length (nnext n))) (h a)"

definition tower_ok :: "('k, 'v) heap \<Rightarrow> ('k, 'v) tower \<Rightarrow> bool" where
  "tower_ok h t \<longleftrightarrow> node_info h (taddr t) = Some (tkey t, tval t, theight t) \<and>
     0 < theight t \<and> theight t \<le> kMaxHeight"

definition sl_rel :: "('k, 'v) skiplist \<Rightarrow> ('k, 'v) tower list \<Rightarrow> bool" where
  "sl_rel sl ts \<longleftrightarrow>
     distinct (sl_head sl # map taddr ts) \<and>
     (\<forall>t \<in> set ts. tower_ok (sl_heap sl) t \<and> theight t \<le> max_height sl) \<and>
     (\<exists>k v. node_info (sl_heap sl) (sl_head sl) = Some (k, v, kMaxHeight)) \<and>
     (\<forall>l < kMaxHeight. chain (sl_heap sl) l (sl_head sl) (at_level l ts)) \<and>
     1 \<le> max_height sl \<and> max_height sl \<le> kMaxHeight \<and>
     count sl = length ts \<and>
     (\<forall>a. sl_heap sl a \<noteq> None \<longrightarrow> a < sl_fresh sl)"

lemma chain_append:
  "chain h l x (as @ bs) \<Longrightarrow> chain h l (last (x # as)) bs"
  by (induction as arbitrary: x) auto

lemma chain_next:
  "chain h l x (as @ bs) \<Longrightarrow>
   node_Next h (last (x # as)) l = Some (case bs of [] \<Rightarrow> None | b # _ \<Rightarrow> Some b)"
  using chain_append [of h l x as bs] by (cases bs) auto

lemma at_level_append [simp]: "at_level l (xs @ ys) = at_level l xs @ at_level l ys"
  by (simp add: at_level_def)

lemma at_level_Cons: "at_level l (t # ts) = (if l < theight t then [taddr t] else []) @ at_level l ts"
  by (simp add: at_level_def)

lemma at_level_0: "(\<forall>t \<in> set ts. 0 < theight t) \<Longrightarrow> at_level 0 ts = map taddr ts"
  by (simp add: at_level_def)

text \<open>A walk at one level: the nodes before the key are passed, the first other one stops it.\<close>

definition node_before :: "('k \<Rightarrow> 'k \<Rightarrow> int) \<Rightarrow> ('k, 'v) heap \<Rightarrow> 'k \<Rightarrow> nat \<Rightarrow> bool" where
  "node_before cmp h key a \<longleftrightarrow> (\<exists>n. h a = Some n \<and> cmp (nkey n) key < 0)"

definition node_after :: "('k \<Rightarrow> 'k \<Rightarrow> int) \<Rightarrow> ('k, 'v) heap \<Rightarrow> 'k \<Rightarrow> nat \<Rightarrow> bool" where
  "node_after cmp h key a \<longleftrightarrow> (\<exists>n. h a = Some n \<and> \<not> cmp (nkey n) key < 0)"

lemma find_ge_walk:
  assumes "chain h l x (as @ bs)" "\<forall>a \<in> set as. node_before cmp h key a"
  shows "find_ge_loop cmp h key x l prev = find_ge_loop cmp h key (last (x # as)) l prev"
  using assms
proof (induction as arbitrary: x)
  case (Cons a as)
  then have "find_ge_loop cmp h key x l prev = find_ge_loop cmp h key a l prev"
    by (subst find_ge_loop.simps) (auto simp: node_before_def)
  then show ?case using Cons by simp
qed simp

lemma find_ge_stop:
  assumes "node_Next h x l = Some (case bs of [] \<Rightarrow> None | b # _ \<Rightarrow> Some b)"
    "\<forall>b \<in> set bs. node_after cmp h key b"
  shows "find_ge_loop cmp h key x l prev =
    (if l = 0 then Some (case bs of [] \<Rightarrow> None | b # _ \<Rightarrow> Some b, prev(l := x))
     else find_ge_loop cmp h key x (l - 1) (prev(l := x)))"
  using assms by (subst find_ge_loop.simps) (auto simp: node_after_def split: list.splits)

lemma find_ge_level:
  assumes "chain h l x (as @ bs)" "\<forall>a \<in> set as. node_before cmp h key a"
    "\<forall>b \<in> set bs. node_after cmp h key b"
  shows "find_ge_loop cmp h key x l prev =
    (if l = 0 then Some (case bs of [] \<Rightarrow> None | b # _ \<Rightarrow> Some b, prev(l := last (x # as)))
     else find_ge_loop cmp h key (last (x # as)) (l - 1) (prev(l := last (x # as))))"
  using find_ge_walk [OF assms(1,2)] find_ge_stop [OF chain_next [OF assms(1)] assms(3)] by simp

text \<open>
  Going down one level: the node reached is either where this level's walk starts or one
  of the nodes it passes.
\<close>

lemma at_level_mono:
  "l \<le> m \<Longrightarrow> set (at_level m ts) \<subseteq> set (at_level l ts)"
  by (auto simp: at_level_def)

lemma last_split:
  "at_level m A = [] \<or> (\<exists>P Q. at_level l A = P @ last (at_level m A) # Q)" if "l \<le> m"
proof (cases "at_level m A = []")
  case False
  then have "last (at_level m A) \<in> set (at_level l A)"
    using at_level_mono [OF that] last_in_set by blast
  then show ?thesis by (auto dest: split_list)
qed simp

lemma descend:
  assumes "chain h l hd0 (at_level l A @ bs)" "l \<le> M"
  obtains as where "chain h l (last (hd0 # at_level M A)) (as @ bs)"
    "set as \<subseteq> set (at_level l A)" "last (last (hd0 # at_level M A) # as) = last (hd0 # at_level l A)"
proof (cases "at_level M A = []")
  case True
  then show ?thesis using that [of "at_level l A"] assms(1) by simp
next
  case False
  then obtain P Q where PQ: "at_level l A = P @ last (at_level M A) # Q"
    using last_split [OF assms(2), of A] by blast
  then have "chain h l hd0 ((P @ [last (at_level M A)]) @ (Q @ bs))"
    using assms(1) by simp
  from chain_append [OF this] show ?thesis
    using that [of Q] False PQ by auto
qed

lemma find_ge_loop_spec:
  assumes ch: "\<forall>l < kMaxHeight. chain h l hd0 (at_level l A @ at_level l B)"
    and A: "\<forall>t \<in> set A. node_before cmp h key (taddr t)"
    and B: "\<forall>t \<in> set B. node_after cmp h key (taddr t)"
    and "m < kMaxHeight" "m \<le> M"
  shows "\<exists>prev'. find_ge_loop cmp h key (last (hd0 # at_level M A)) m prev =
       Some (case at_level 0 B of [] \<Rightarrow> None | b # _ \<Rightarrow> Some b, prev') \<and>
     (\<forall>l \<le> m. prev' l = last (hd0 # at_level l A)) \<and> (\<forall>l > m. prev' l = prev l)"
  using assms(4,5)
proof (induction m arbitrary: M prev)
  case 0
  then obtain as where as: "chain h 0 (last (hd0 # at_level M A)) (as @ at_level 0 B)"
      "set as \<subseteq> set (at_level 0 A)" "last (last (hd0 # at_level M A) # as) = last (hd0 # at_level 0 A)"
    using descend ch by blast
  have "\<forall>a \<in> set as. node_before cmp h key a" "\<forall>b \<in> set (at_level 0 B). node_after cmp h key b"
    using A B as(2) by (auto simp: at_level_def)
  from find_ge_level [OF as(1) this, of prev] show ?case using as(3) by auto
next
  case (Suc m)
  let ?l = "last (hd0 # at_level (Suc m) A)"
  obtain as where as: "chain h (Suc m) (last (hd0 # at_level M A)) (as @ at_level (Suc m) B)"
      "set as \<subseteq> set (at_level (Suc m) A)" "last (last (hd0 # at_level M A) # as) = ?l"
    using descend ch Suc.prems by blast
  have "\<forall>a \<in> set as. node_before cmp h key a" "\<forall>b \<in> set (at_level (Suc m) B). node_after cmp h key b"
    using A B as(2) by (auto simp: at_level_def)
  from find_ge_level [OF as(1) this, of prev]
  have "find_ge_loop cmp h key (last (hd0 # at_level M A)) (Suc m) prev =
      find_ge_loop cmp h key ?l m (prev(Suc m := ?l))"
    using as(3) by simp
  moreover have "m < kMaxHeight" "m \<le> Suc m" using Suc.prems by simp_all
  then obtain prev' where "find_ge_loop cmp h key ?l m (prev(Suc m := ?l)) =
       Some (case at_level 0 B of [] \<Rightarrow> None | b # _ \<Rightarrow> Some b, prev')"
     "\<forall>l \<le> m. prev' l = last (hd0 # at_level l A)" "\<forall>l > m. prev' l = (prev(Suc m := ?l)) l"
    using Suc.IH [of "Suc m" "prev(Suc m := ?l)"] by blast
  ultimately show ?case by (auto simp: le_Suc_eq)
qed

text \<open>The towers before and after a key, in a list sorted by it.\<close>

definition towers_sorted :: "('k \<Rightarrow> 'k \<Rightarrow> int) \<Rightarrow> ('k, 'v) tower list \<Rightarrow> bool" where
  "towers_sorted cmp ts \<longleftrightarrow> sorted_wrt (\<lambda>s t. cmp (tkey s) (tkey t) < 0) ts"

definition before :: "('k \<Rightarrow> 'k \<Rightarrow> int) \<Rightarrow> 'k \<Rightarrow> ('k, 'v) tower list \<Rightarrow> ('k, 'v) tower list" where
  "before cmp key ts = takeWhile (\<lambda>t. cmp (tkey t) key < 0) ts"

definition onwards :: "('k \<Rightarrow> 'k \<Rightarrow> int) \<Rightarrow> 'k \<Rightarrow> ('k, 'v) tower list \<Rightarrow> ('k, 'v) tower list" where
  "onwards cmp key ts = dropWhile (\<lambda>t. cmp (tkey t) key < 0) ts"

lemma before_onwards [simp]: "before cmp key ts @ onwards cmp key ts = ts"
  by (simp add: before_def onwards_def)

lemma set_before: "t \<in> set (before cmp key ts) \<Longrightarrow> t \<in> set ts \<and> cmp (tkey t) key < 0"
  by (auto simp: before_def dest: set_takeWhileD)

lemma set_onwards: "t \<in> set (onwards cmp key ts) \<Longrightarrow> t \<in> set ts"
  by (auto simp: onwards_def dest: set_dropWhileD)

context key_order
begin

lemma onwards_not_before:
  assumes "towers_sorted cmp ts" "\<forall>t \<in> set ts. okey (tkey t)" "okey key" "t \<in> set (onwards cmp key ts)"
  shows "\<not> cmp (tkey t) key < 0"
proof -
  obtain b bs where b: "onwards cmp key ts = b # bs" using assms(4) by (cases "onwards cmp key ts") auto
  then have nb: "\<not> cmp (tkey b) key < 0"
    by (metis onwards_def hd_dropWhile list.discI list.sel(1))
  have "towers_sorted cmp (b # bs)" "\<forall>t \<in> set (b # bs). okey (tkey t)"
    using assms(1,2) before_onwards [of cmp key ts] set_onwards [of _ cmp key ts] unfolding b towers_sorted_def
    by (metis sorted_wrt_append, metis)
  then have "t = b \<or> cmp (tkey b) (tkey t) < 0" "okey (tkey b)" "okey (tkey t)"
    using assms(4) b by (auto simp: towers_sorted_def)
  then show ?thesis using nb cmp_less_trans [of "tkey b" "tkey t" key] assms(3) by blast
qed

end


lemma tower_before:
  "tower_ok h t \<Longrightarrow> cmp (tkey t) key < 0 \<Longrightarrow> node_before cmp h key (taddr t)"
  "tower_ok h t \<Longrightarrow> \<not> cmp (tkey t) key < 0 \<Longrightarrow> node_after cmp h key (taddr t)"
  by (auto simp: tower_ok_def node_info_def node_before_def node_after_def)

lemma at_level_high:
  "\<forall>t \<in> set ts. theight t \<le> l \<Longrightarrow> at_level l ts = []"
  by (auto simp: at_level_def filter_empty_conv)

lemma sl_relD:
  assumes "sl_rel sl ts"
  shows "distinct (sl_head sl # map taddr ts)" "\<And>t. t \<in> set ts \<Longrightarrow> tower_ok (sl_heap sl) t"
    "\<And>t. t \<in> set ts \<Longrightarrow> theight t \<le> max_height sl"
    "\<And>l. l < kMaxHeight \<Longrightarrow> chain (sl_heap sl) l (sl_head sl) (at_level l ts)"
    "1 \<le> max_height sl" "max_height sl \<le> kMaxHeight"
  using assms by (auto simp: sl_rel_def)

lemma at_level_0_rel: "sl_rel sl ts \<Longrightarrow> set us \<subseteq> set ts \<Longrightarrow> at_level 0 us = map taddr us"
  by (rule at_level_0) (auto simp: sl_rel_def tower_ok_def)

context key_order
begin

theorem FindGreaterOrEqual_spec:
  assumes rel: "sl_rel sl ts" and srt: "towers_sorted cmp ts"
    and ok: "\<forall>t \<in> set ts. okey (tkey t)" "okey key"
  obtains prev where "SkipList_FindGreaterOrEqual cmp sl key (\<lambda>_. sl_head sl) =
      Some (case onwards cmp key ts of [] \<Rightarrow> None | t # _ \<Rightarrow> Some (taddr t), prev)"
    "\<And>l. prev l = last (sl_head sl # at_level l (before cmp key ts))"
proof -
  let ?A = "before cmp key ts" and ?B = "onwards cmp key ts" and ?m = "max_height sl - 1"
  let ?h = "sl_heap sl" and ?hd = "sl_head sl"
  note D = sl_relD [OF rel]
  have ch: "\<forall>l < kMaxHeight. chain ?h l ?hd (at_level l ?A @ at_level l ?B)"
    using D(4) at_level_append [of _ ?A ?B] by simp
  have A: "\<forall>t \<in> set ?A. node_before cmp ?h key (taddr t)"
    using D(2) set_before tower_before(1) by metis
  have B: "\<forall>t \<in> set ?B. node_after cmp ?h key (taddr t)"
    using D(2) set_onwards tower_before(2) onwards_not_before [OF srt ok] by metis
  have hi: "at_level l ?A = []" if "max_height sl \<le> l" for l
    using D(3) that by (intro at_level_high) (meson le_trans set_before)
  have "?m < kMaxHeight" "?m \<le> kMaxHeight" using D(5,6) by auto
  note spec = find_ge_loop_spec [OF ch A B this, where prev = "\<lambda>_. ?hd"]
  have "at_level kMaxHeight ?A = []" using hi D(6) by simp
  with spec obtain prev where p: "find_ge_loop cmp ?h key ?hd ?m (\<lambda>_. ?hd) =
      Some (case at_level 0 ?B of [] \<Rightarrow> None | b # _ \<Rightarrow> Some b, prev)"
    "\<forall>l \<le> ?m. prev l = last (?hd # at_level l ?A)" "\<forall>l > ?m. prev l = ?hd"
    by auto
  have "at_level 0 ?B = map taddr ?B"
    using at_level_0_rel [OF rel] set_onwards by (metis subsetI)
  then have "(case at_level 0 ?B of [] \<Rightarrow> None | b # _ \<Rightarrow> Some b) =
      (case ?B of [] \<Rightarrow> None | t # _ \<Rightarrow> Some (taddr t))"
    by (cases ?B) auto
  moreover have "prev l = last (?hd # at_level l ?A)" for l
    using p(2,3) hi [of l] D(5) by (cases "l \<le> ?m") auto
  ultimately show thesis
    using that [of prev] p(1) by (simp add: SkipList_FindGreaterOrEqual_def)
qed

end

section \<open>Linking\<close>

lemma SetNext_Some:
  "node_info h x = Some (k, v, n) \<Longrightarrow> l < n \<Longrightarrow> \<exists>h'. node_SetNext h x l p = Some h'"
  by (auto simp: node_info_def node_SetNext_def)

lemma SetNext_info: "node_SetNext h x l p = Some h' \<Longrightarrow> node_info h' a = node_info h a"
  by (auto simp: node_info_def node_SetNext_def split: option.splits if_splits)

lemma SetNext_Next:
  "node_SetNext h x l p = Some h' \<Longrightarrow>
   node_Next h' y m = (if y = x \<and> m = l then Some p else node_Next h y m)"
  by (auto simp: node_Next_def node_SetNext_def nth_list_update split: option.splits if_splits)

lemma SetNext_dom: "node_SetNext h x l p = Some h' \<Longrightarrow> h' a = None \<longleftrightarrow> h a = None"
  by (auto simp: node_SetNext_def split: option.splits if_splits)

lemma chain_cong:
  "\<forall>y \<in> set (x # as). node_Next h' y l = node_Next h y l \<Longrightarrow> chain h' l x as = chain h l x as"
  by (induction as arbitrary: x) auto

lemma chain_insert:
  assumes "chain h l x (as @ bs)" "distinct (x # as @ bs)" "new \<notin> set (x # as @ bs)"
    and nn: "\<And>y. node_Next h' y l = (if y = last (x # as) then Some (Some new)
           else if y = new then node_Next h (last (x # as)) l else node_Next h y l)"
  shows "chain h' l x (as @ new # bs)"
  using assms
proof (induction as arbitrary: x)
  case Nil
  have "chain h' l b bs' = chain h l b bs'" if "bs = b # bs'" for b bs'
    using Nil that by (intro chain_cong) auto
  then show ?case using Nil by (cases bs) auto
next
  case (Cons a as)
  have "chain h' l a (as @ new # bs)"
    using Cons.prems by (intro Cons.IH) auto
  then show ?case using Cons.prems by auto
qed

lemma at_level_sub:
  "set (at_level l ts) \<subseteq> set (map taddr ts)"
  "distinct (map taddr ts) \<Longrightarrow> distinct (at_level l ts)"
  by (auto simp: at_level_def intro: distinct_map_filter)

lemma link_loop_spec:
  assumes "\<forall>l < H. chain h l hnode (at_level l A @ (if l < i then [x] else []) @ at_level l B)"
    and "\<forall>l < kMaxHeight. H \<le> l \<longrightarrow> chain h l hnode (at_level l A @ at_level l B)"
    and "H = i + n" "H \<le> kMaxHeight"
    and "distinct (hnode # map taddr A @ map taddr B)" "x \<notin> set (hnode # map taddr A @ map taddr B)"
    and "node_info h x = Some (k, v, H)"
    and "\<And>l. l < H \<Longrightarrow> \<exists>k v m. node_info h (prev l) = Some (k, v, m) \<and> l < m"
    and pv: "\<And>l. prev l = last (hnode # at_level l A)"
  shows "\<exists>h'. link_loop h prev x i n = Some h' \<and>
     (\<forall>l < H. chain h' l hnode (at_level l A @ x # at_level l B)) \<and>
     (\<forall>l < kMaxHeight. H \<le> l \<longrightarrow> chain h' l hnode (at_level l A @ at_level l B)) \<and>
     (\<forall>a. node_info h' a = node_info h a)"
  using assms(1-8)
proof (induction n arbitrary: i h)
  case 0
  then show ?case by auto
next
  case (Suc n)
  let ?p = "last (hnode # at_level i A)"
  have i: "i < H" "i < kMaxHeight" using Suc.prems by auto
  have ci: "chain h i hnode (at_level i A @ at_level i B)" using Suc.prems(1) i by fastforce
  have dst: "distinct (hnode # at_level i A @ at_level i B)"
    and xn: "x \<notin> set (hnode # at_level l A @ at_level l B)" for l
    using Suc.prems(5,6) at_level_sub(1) [of i A] at_level_sub(2) [of A i] at_level_sub(1) [of i B]
      at_level_sub(2) [of B i] at_level_sub(1) [of l A]
      at_level_sub(1) [of l B] by auto
  have xp: "x \<noteq> ?p" using xn [of i] by auto
  let ?nx = "case at_level i B of [] \<Rightarrow> None | b # _ \<Rightarrow> Some b"
  have n1: "node_Next h (prev i) i = Some ?nx" using chain_next [OF ci] pv by simp
  obtain h1 where h1: "node_SetNext h x i ?nx = Some h1"
    using SetNext_Some [OF Suc.prems(7) i(1)] by blast
  obtain k' v' m where "node_info h (prev i) = Some (k', v', m)" "i < m"
    using Suc.prems(8) [OF i(1)] by blast
  then have "node_info h1 (prev i) = Some (k', v', m)" "i < m"
    by (simp_all add: SetNext_info [OF h1])
  from SetNext_Some [OF this] obtain h2 where h2: "node_SetNext h1 (prev i) i (Some x) = Some h2"
    by blast
  have info: "node_info h2 a = node_info h a" for a
    by (simp add: SetNext_info [OF h1] SetNext_info [OF h2])
  have nx2: "node_Next h2 y i = (if y = ?p then Some (Some x)
      else if y = x then node_Next h ?p i else node_Next h y i)" for y
    unfolding SetNext_Next [OF h2] SetNext_Next [OF h1] using xp n1 pv [of i] by auto
  have other: "chain h2 l y as = chain h l y as" if "l \<noteq> i" for l y as
    by (rule chain_cong) (simp add: SetNext_Next [OF h2] SetNext_Next [OF h1] that)
  have "chain h2 i hnode (at_level i A @ x # at_level i B)"
    by (rule chain_insert [OF ci dst xn nx2])
  then have c1: "\<forall>l < H. chain h2 l hnode (at_level l A @ (if l < Suc i then [x] else []) @ at_level l B)"
    using Suc.prems(1) other by (auto simp: less_Suc_eq)
  have c2: "\<forall>l < kMaxHeight. H \<le> l \<longrightarrow> chain h2 l hnode (at_level l A @ at_level l B)"
    using Suc.prems(2) other i by auto
  have "\<exists>h'. link_loop h2 prev x (Suc i) n = Some h' \<and>
     (\<forall>l < H. chain h' l hnode (at_level l A @ x # at_level l B)) \<and>
     (\<forall>l < kMaxHeight. H \<le> l \<longrightarrow> chain h' l hnode (at_level l A @ at_level l B)) \<and>
     (\<forall>a. node_info h' a = node_info h2 a)"
    using Suc.prems(3-8) info by (intro Suc.IH [OF c1 c2]) auto
  then show ?case using n1 h1 h2 info by auto
qed

section \<open>The functional specification: an association list in comparator order\<close>

fun ordered_insert :: "('k \<Rightarrow> 'k \<Rightarrow> int) \<Rightarrow> 'k \<Rightarrow> 'v \<Rightarrow> ('k \<times> 'v) list \<Rightarrow> ('k \<times> 'v) list" where
  "ordered_insert cmp k v [] = [(k, v)]"
| "ordered_insert cmp k v ((k', v') # xs) =
     (if cmp k' k < 0 then (k', v') # ordered_insert cmp k v xs
      else if cmp k' k = 0 then (k', v) # xs
      else (k, v) # (k', v') # xs)"

definition ordered_seek :: "('k \<Rightarrow> 'k \<Rightarrow> int) \<Rightarrow> 'k \<Rightarrow> ('k \<times> 'v) list \<Rightarrow> ('k \<times> 'v) list" where
  "ordered_seek cmp k xs = dropWhile (\<lambda>p. cmp (fst p) k < 0) xs"

definition ordered_lookup :: "('k \<Rightarrow> 'k \<Rightarrow> int) \<Rightarrow> 'k \<Rightarrow> ('k \<times> 'v) list \<Rightarrow> 'v option" where
  "ordered_lookup cmp k xs =
     (case ordered_seek cmp k xs of [] \<Rightarrow> None | p # _ \<Rightarrow> if cmp (fst p) k = 0 then Some (snd p) else None)"

definition ordered_by :: "('k \<Rightarrow> 'k \<Rightarrow> int) \<Rightarrow> ('k \<Rightarrow> bool) \<Rightarrow> ('k \<times> 'v) list \<Rightarrow> bool" where
  "ordered_by cmp okey xs \<longleftrightarrow>
     sorted_wrt (\<lambda>p q. cmp (fst p) (fst q) < 0) xs \<and> (\<forall>p \<in> set xs. okey (fst p))"

definition entries :: "('k, 'v) tower list \<Rightarrow> ('k \<times> 'v) list" where
  "entries ts = map (\<lambda>t. (tkey t, tval t)) ts"

definition sl_ok :: "('k \<Rightarrow> 'k \<Rightarrow> int) \<Rightarrow> ('k \<Rightarrow> bool) \<Rightarrow> ('k, 'v) skiplist \<Rightarrow> ('k, 'v) tower list \<Rightarrow> bool" where
  "sl_ok cmp okey sl ts \<longleftrightarrow> sl_rel sl ts \<and> ordered_by cmp okey (entries ts)"

lemma entries_simps [simp]:
  "entries [] = []" "entries (t # ts) = (tkey t, tval t) # entries ts"
  "entries (ts @ us) = entries ts @ entries us"
  by (simp_all add: entries_def)

lemma sl_ok_iff:
  "sl_ok cmp okey sl ts \<longleftrightarrow> sl_rel sl ts \<and> towers_sorted cmp ts \<and> (\<forall>t \<in> set ts. okey (tkey t))"
  by (auto simp: sl_ok_def ordered_by_def towers_sorted_def entries_def sorted_wrt_map)

lemma seek_entries: "ordered_seek cmp k (entries ts) = entries (onwards cmp k ts)"
  by (simp add: ordered_seek_def onwards_def entries_def dropWhile_map comp_def)

lemma insert_before:
  "\<forall>p \<in> set xs. cmp (fst p) k < 0 \<Longrightarrow> ordered_insert cmp k v (xs @ ys) = xs @ ordered_insert cmp k v ys"
  by (induction xs) auto

context key_order
begin

lemma set_ordered_insert:
  "q \<in> set (ordered_insert cmp k v xs) \<Longrightarrow> fst q = k \<or> (\<exists>r \<in> set xs. fst q = fst r)"
  by (induction xs) (auto split: if_splits)

lemma ordered_insert_ordered:
  assumes "ordered_by cmp okey xs" "okey k"
  shows "ordered_by cmp okey (ordered_insert cmp k v xs)"
  using assms(1)
proof (induction xs)
  case Nil
  then show ?case using assms(2) by (simp add: ordered_by_def)
next
  case (Cons p xs)
  obtain k' v' where p: "p = (k', v')" by force
  have tl: "ordered_by cmp okey xs" "okey k'" "\<forall>q \<in> set xs. cmp k' (fst q) < 0 \<and> okey (fst q)"
    using Cons.prems by (auto simp: ordered_by_def p)
  consider "cmp k' k < 0" | "cmp k' k = 0" | "cmp k k' < 0" "\<not> cmp k' k \<le> 0"
    using cmp_sym [OF assms(2) tl(2)] by linarith
  then show ?case
  proof cases
    case 1
    have "\<forall>q \<in> set (ordered_insert cmp k v xs). cmp k' (fst q) < 0"
      using set_ordered_insert [of _ k v xs] 1 tl(3) by metis
    then show ?thesis using 1 Cons.IH [OF tl(1)] tl(2) by (simp add: ordered_by_def p)
  next
    case 2
    then show ?thesis using Cons.prems by (simp add: ordered_by_def p)
  next
    case 3
    have "\<forall>q \<in> set xs. cmp k (fst q) < 0"
      using cmp_less_trans [OF assms(2) tl(2) _ 3(1)] tl(3) by auto
    then show ?thesis using 3 Cons.prems assms(2) by (simp add: ordered_by_def p)
  qed
qed

lemma ordered_seek_not_before:
  assumes "ordered_by cmp okey xs" "okey k" "p \<in> set (ordered_seek cmp k xs)"
  shows "\<not> cmp (fst p) k < 0"
  using assms(1,3)
proof (induction xs)
  case (Cons q xs)
  then have q: "ordered_by cmp okey xs" "okey (fst q)" "\<forall>r \<in> set xs. cmp (fst q) (fst r) < 0 \<and> okey (fst r)"
    by (auto simp: ordered_by_def)
  show ?case
  proof (cases "cmp (fst q) k < 0")
    case True
    then show ?thesis using Cons q by (simp add: ordered_seek_def)
  next
    case False
    then have "p = q \<or> p \<in> set xs" using Cons.prems by (simp add: ordered_seek_def)
    then show ?thesis using False q cmp_less_trans [OF q(2) _ assms(2), of "fst p"] by blast
  qed
qed (simp add: ordered_seek_def)

lemma lookup_insert_same:
  assumes "ordered_by cmp okey xs" "okey k"
  shows "ordered_lookup cmp k (ordered_insert cmp k v xs) = Some v"
  using assms(1)
proof (induction xs)
  case Nil
  then show ?case using assms(2) by (simp add: ordered_lookup_def ordered_seek_def cmp_refl)
next
  case (Cons p xs)
  then have "ordered_by cmp okey xs" by (simp add: ordered_by_def)
  then show ?case using Cons assms(2)
    by (cases p) (auto simp: ordered_lookup_def ordered_seek_def cmp_refl)
qed

lemma lookup_insert_other:
  assumes "ordered_by cmp okey xs" "okey k" "okey k2" "cmp k k2 \<noteq> 0"
  shows "ordered_lookup cmp k2 (ordered_insert cmp k v xs) = ordered_lookup cmp k2 xs"
  using assms(1)
proof (induction xs)
  case Nil
  then show ?case using assms by (simp add: ordered_lookup_def ordered_seek_def)
next
  case (Cons p xs)
  obtain k' v' where p: "p = (k', v')" by force
  have tl: "ordered_by cmp okey xs" "okey k'" using Cons.prems by (auto simp: ordered_by_def p)
  have eq: "cmp k' k = 0 \<Longrightarrow> cmp k' k2 \<noteq> 0"
    using assms(2-4) tl(2) cmp_trans [of k k' k2] cmp_trans [of k2 k' k] cmp_eq_sym [of k k'] cmp_eq_sym [of k2 k']
      cmp_sym [of k k2] cmp_sym [of k2 k] by linarith
  have lt: "cmp k2 k < 0 \<Longrightarrow> \<not> cmp k' k < 0 \<Longrightarrow> \<not> cmp k' k2 < 0"
    using cmp_less_trans [OF tl(2) assms(3,2)] by blast
  have gt: "cmp k k2 < 0 \<or> cmp k2 k < 0"
    using assms(2-4) cmp_sym [of k2 k] by linarith
  have far: "cmp k2 k < 0 \<Longrightarrow> \<not> cmp k' k < 0 \<Longrightarrow> cmp k' k \<noteq> 0 \<Longrightarrow> cmp k' k2 \<noteq> 0"
    using cmp_less_trans [OF assms(3,2) tl(2)] cmp_sym [OF assms(2) tl(2)] cmp_sym [OF assms(3) tl(2)]
    by linarith
  show ?case using Cons.IH [OF tl(1)] eq lt gt far assms(4)
    by (auto simp: ordered_lookup_def ordered_seek_def p)
qed

end

section \<open>The operations implement the functional specification\<close>

lemma random_height_range:
  "h0 \<le> fst (GetRandomHeight_loop n rnd pos h0) \<and> fst (GetRandomHeight_loop n rnd pos h0) \<le> h0 + n"
proof (induction n arbitrary: pos h0)
  case (Suc n)
  show ?case using Suc.IH [of "Suc h0" "Suc pos"] by auto
qed simp

lemma GetRandomHeight_range:
  assumes "GetRandomHeight sl = (height, sl')"
  shows "1 \<le> height" "height \<le> kMaxHeight"
    "sl' = sl\<lparr>sl_rnd_pos := sl_rnd_pos sl'\<rparr>"
  using assms random_height_range [of 1 "kMaxHeight - 1" "sl_rnd sl" "sl_rnd_pos sl"]
  by (auto simp: GetRandomHeight_def kMaxHeight_def split: prod.splits)

lemma insert_case:
  assumes "\<forall>p \<in> set (entries A). cmp (fst p) k < 0" "case B of [] \<Rightarrow> True | t # _ \<Rightarrow> \<not> cmp (tkey t) k \<le> 0"
  shows "ordered_insert cmp k v (entries (A @ B)) = entries A @ (k, v) # entries B"
  using insert_before [of "entries A" cmp k v "entries B"] assms by (cases B) auto

lemma node_info_upd: "x \<noteq> a \<Longrightarrow> node_info (h(x \<mapsto> n)) a = node_info h a"
  by (simp add: node_info_def)

lemma node_Next_upd: "x \<noteq> a \<Longrightarrow> node_Next (h(x \<mapsto> n)) a l = node_Next h a l"
  by (simp add: node_Next_def)

lemma chain_upd: "x \<notin> set (a # as) \<Longrightarrow> chain (h(x \<mapsto> n)) l a as = chain h l a as"
  by (intro chain_cong ballI node_Next_upd) auto

lemma insert_node_spec:
  assumes rel: "sl_rel sl (A @ B)" and pv: "\<And>l. prev l = last (sl_head sl # at_level l A)"
  shows "\<exists>sl' H. insert_node sl prev k v = Some sl' \<and>
    sl_rel sl' (A @ \<lparr>taddr = sl_fresh sl, tkey = k, tval = v, theight = H\<rparr> # B)"
proof -
  obtain H sl1 where R: "GetRandomHeight sl = (H, sl1)" by force
  note R' = GetRandomHeight_range [OF R]
  let ?x = "sl_fresh sl" and ?hd = "sl_head sl"
  let ?h0 = "(sl_heap sl)(?x \<mapsto> AllocateNode k v H)"
  have same: "sl_heap sl1 = sl_heap sl" "sl_head sl1 = ?hd" "max_height sl1 = max_height sl"
    "sl_fresh sl1 = ?x" "count sl1 = count sl" by (subst R'(3), simp)+
  note D = sl_relD [OF rel]
  have alloc: "t \<in> set (A @ B) \<Longrightarrow> taddr t < ?x" for t
    using D(2) rel unfolding sl_rel_def tower_ok_def node_info_def by fastforce
  have hdx: "?hd < ?x" and hinfo: "\<exists>k v. node_info (sl_heap sl) ?hd = Some (k, v, kMaxHeight)"
    using rel unfolding sl_rel_def node_info_def by fastforce+
  have xnot: "?x \<notin> set (?hd # map taddr A @ map taddr B)"
    using alloc hdx by fastforce
  have lvl: "?x \<notin> set (?hd # at_level l A @ at_level l B)" for l
    using xnot at_level_sub(1) [of l A] at_level_sub(1) [of l B] by auto
  have hi: "at_level l A = []" if "max_height sl \<le> l" for l
    using D(3) that by (intro at_level_high) (metis Un_iff le_trans set_append)
  have pv': "(if max_height sl \<le> l \<and> l < H then ?hd else prev l) = last (?hd # at_level l A)" for l
    using pv [of l] hi [of l] by simp
  have c0: "chain ?h0 l ?hd (at_level l A @ at_level l B)" if "l < kMaxHeight" for l
    using D(4) [OF that] chain_upd [OF lvl [of l], of "sl_heap sl" "AllocateNode k v H" l] by simp
  have info: "node_info ?h0 (last (?hd # at_level l A)) = node_info (sl_heap sl) (last (?hd # at_level l A))" for l
    using lvl [of l] by (intro node_info_upd) auto
  have deep: "\<exists>k v m. node_info ?h0 (last (?hd # at_level l A)) = Some (k, v, m) \<and> l < m" if "l < H" for l
  proof (cases "at_level l A = []")
    case True
    then show ?thesis using hinfo that R'(2) hdx by (auto simp: node_info_upd)
  next
    case False
    then obtain t where "t \<in> set A" "l < theight t" "last (?hd # at_level l A) = taddr t"
      using last_in_set [OF False] by (auto simp: at_level_def)
    then show ?thesis using D(2) [of t] info [of l] by (auto simp: tower_ok_def)
  qed
  let ?pv = "\<lambda>l. if max_height sl \<le> l \<and> l < H then ?hd else prev l"
  have "\<exists>h'. link_loop ?h0 ?pv ?x 0 H = Some h' \<and>
     (\<forall>l < H. chain h' l ?hd (at_level l A @ ?x # at_level l B)) \<and>
     (\<forall>l < kMaxHeight. H \<le> l \<longrightarrow> chain h' l ?hd (at_level l A @ at_level l B)) \<and>
     (\<forall>a. node_info h' a = node_info ?h0 a)"
  proof (rule link_loop_spec)
    show "\<And>l. ?pv l = last (?hd # at_level l A)" by (rule pv')
    show "\<exists>k v m. node_info ?h0 (?pv l) = Some (k, v, m) \<and> l < m" if "l < H" for l
      unfolding pv' by (rule deep [OF that])
    show "node_info ?h0 ?x = Some (k, v, H)" by (simp add: node_info_def AllocateNode_def)
    show "distinct (?hd # map taddr A @ map taddr B)" using D(1) by simp
    show "\<forall>l<H. chain ?h0 l ?hd (at_level l A @ (if l < 0 then [?x] else []) @ at_level l B)"
      using c0 R'(2) by simp
  qed (use c0 R'(2) xnot in auto)
  then obtain h' where h': "link_loop ?h0 ?pv ?x 0 H = Some h'"
    "\<forall>l < H. chain h' l ?hd (at_level l A @ ?x # at_level l B)"
    "\<forall>l < kMaxHeight. H \<le> l \<longrightarrow> chain h' l ?hd (at_level l A @ at_level l B)"
    "\<forall>a. node_info h' a = node_info ?h0 a" by blast
  let ?sl' = "sl1\<lparr>sl_heap := h', max_height := if max_height sl < H then H else max_height sl,
      count := count sl + 1, sl_fresh := Suc ?x\<rparr>"
  let ?t = "\<lparr>taddr = ?x, tkey = k, tval = v, theight = H\<rparr>"
  have "insert_node sl prev k v = Some ?sl'"
    by (simp add: insert_node_def R same h'(1) Let_def cong: if_cong)
  moreover have "sl_rel ?sl' (A @ ?t # B)"
    unfolding sl_rel_def
  proof (intro conjI ballI allI impI)
    show "distinct (sl_head ?sl' # map taddr (A @ ?t # B))" using D(1) xnot same by auto
    show "tower_ok (sl_heap ?sl') t" if "t \<in> set (A @ ?t # B)" for t
    proof (cases "t = ?t")
      case True
      moreover have "node_info ?h0 ?x = Some (k, v, H)" by (simp add: node_info_def AllocateNode_def)
      ultimately show ?thesis using R'(1,2) by (simp add: tower_ok_def h'(4))
    next
      case False
      then have "t \<in> set (A @ B)" using that by auto
      then show ?thesis using D(2) alloc by (force simp: tower_ok_def h'(4) node_info_upd)
    qed
    show "theight t \<le> max_height ?sl'" if "t \<in> set (A @ ?t # B)" for t
    proof (cases "t = ?t")
      case False
      then have "t \<in> set (A @ B)" using that by auto
      then show ?thesis using D(3) [of t] by simp
    qed simp
    show "\<exists>k v. node_info (sl_heap ?sl') (sl_head ?sl') = Some (k, v, kMaxHeight)"
      using hinfo hdx same by (simp add: h'(4) node_info_upd)
    show "chain (sl_heap ?sl') l (sl_head ?sl') (at_level l (A @ ?t # B))" if "l < kMaxHeight" for l
      using h'(2,3) that same by (auto simp: at_level_Cons)
    show "a < sl_fresh ?sl'" if "sl_heap ?sl' a \<noteq> None" for a
    proof -
      have "node_info h' a \<noteq> None" using that by (simp add: node_info_def)
      then have "node_info ?h0 a \<noteq> None" by (simp add: h'(4))
      then have "a = ?x \<or> sl_heap sl a \<noteq> None" by (auto simp: node_info_def split: if_splits)
      then show ?thesis using rel by (auto simp: sl_rel_def less_Suc_eq)
    qed
  qed (use rel R'(1,2) in \<open>auto simp: sl_rel_def\<close>)
  ultimately show ?thesis by blast
qed


text \<open>Overwriting the value of an existing node.\<close>

lemma set_value_spec:
  assumes rel: "sl_rel sl (A @ t # B)"
  shows "\<exists>sl'. set_value sl (taddr t) v = Some sl' \<and> sl_rel sl' (A @ t\<lparr>tval := v\<rparr> # B)"
proof -
  note D = sl_relD [OF rel]
  obtain n where n: "sl_heap sl (taddr t) = Some n" "nkey n = tkey t" "length (nnext n) = theight t"
    using D(2) [of t] by (auto simp: tower_ok_def node_info_def)
  let ?h = "(sl_heap sl)(taddr t \<mapsto> n\<lparr>nval := v\<rparr>)" and ?sl' = "sl\<lparr>sl_heap := (sl_heap sl)(taddr t \<mapsto> n\<lparr>nval := v\<rparr>)\<rparr>"
  have nx: "node_Next ?h a l = node_Next (sl_heap sl) a l" for a l
    using n by (auto simp: node_Next_def)
  have info: "node_info ?h a = (if a = taddr t then Some (tkey t, v, theight t) else node_info (sl_heap sl) a)" for a
    using n by (auto simp: node_info_def)
  have lv: "at_level l (A @ t\<lparr>tval := v\<rparr> # B) = at_level l (A @ t # B)" for l
    by (simp add: at_level_Cons)
  have "sl_rel ?sl' (A @ t\<lparr>tval := v\<rparr> # B)"
    unfolding sl_rel_def
  proof (intro conjI ballI allI impI)
    show "tower_ok (sl_heap ?sl') u" if "u \<in> set (A @ t\<lparr>tval := v\<rparr> # B)" for u
    proof (cases "u = t\<lparr>tval := v\<rparr>")
      case True
      then show ?thesis using D(2) [of t] by (simp add: tower_ok_def info)
    next
      case False
      then have "u \<in> set (A @ B)" using that by auto
      moreover from this have "taddr u \<noteq> taddr t" using D(1) by (auto simp: image_iff)
      ultimately show ?thesis using D(2) [of u] by (simp add: tower_ok_def info)
    qed
    show "theight u \<le> max_height ?sl'" if "u \<in> set (A @ t\<lparr>tval := v\<rparr> # B)" for u
      using that D(3) [of t] D(3) [of u] by auto
    show "chain (sl_heap ?sl') l (sl_head ?sl') (at_level l (A @ t\<lparr>tval := v\<rparr> # B))" if "l < kMaxHeight" for l
      unfolding lv using D(4) [OF that] chain_cong [where x = "sl_head sl" and as = "at_level l (A @ t # B)" and h' = ?h and l = l and h = "sl_heap sl"] nx
      by simp
    show "\<exists>k v. node_info (sl_heap ?sl') (sl_head ?sl') = Some (k, v, kMaxHeight)"
      using rel by (auto simp: sl_rel_def info)
    show "a < sl_fresh ?sl'" if "sl_heap ?sl' a \<noteq> None" for a
      using that n rel by (auto simp: sl_rel_def split: if_splits)
  qed (use rel in \<open>auto simp: sl_rel_def\<close>)
  then show ?thesis using n by (simp add: set_value_def)
qed

context key_order
begin

lemma sl_ok_seek:
  assumes "sl_ok cmp okey sl ts" "okey k"
  obtains prev where "SkipList_FindGreaterOrEqual cmp sl k (\<lambda>_. sl_head sl) =
      Some (case onwards cmp k ts of [] \<Rightarrow> None | t # _ \<Rightarrow> Some (taddr t), prev)"
    "\<And>l. prev l = last (sl_head sl # at_level l (before cmp k ts))"
  using FindGreaterOrEqual_spec [of sl ts k] assms by (auto simp: sl_ok_iff)

lemma sl_ok_exists:
  assumes "sl_ok cmp okey sl ts"
  shows "key_exists cmp (sl_heap sl) (case onwards cmp k ts of [] \<Rightarrow> None | t # _ \<Rightarrow> Some (taddr t)) k =
    Some (case onwards cmp k ts of [] \<Rightarrow> False | t # _ \<Rightarrow> cmp (tkey t) k = 0)"
proof (cases "onwards cmp k ts")
  case (Cons t B)
  then have "t \<in> set ts" using set_onwards by (metis list.set_intros(1))
  then show ?thesis using Cons assms by (auto simp: key_exists_def sl_ok_iff sl_rel_def tower_ok_def node_info_def)
qed (simp add: key_exists_def)

text \<open>\<open>Insert\<close> returns, keeps the structure well formed and inserts into the ordered list.\<close>

lemma Insert_refines:
  assumes ok: "sl_ok cmp okey sl ts" "okey k"
  shows "\<exists>sl' ts'. SkipList_Insert cmp sl k v = Some sl' \<and> sl_ok cmp okey sl' ts' \<and>
    entries ts' = ordered_insert cmp k v (entries ts)"
proof -
  obtain prev where F: "SkipList_FindGreaterOrEqual cmp sl k (\<lambda>_. sl_head sl) =
      Some (case onwards cmp k ts of [] \<Rightarrow> None | t # _ \<Rightarrow> Some (taddr t), prev)"
    "\<And>l. prev l = last (sl_head sl # at_level l (before cmp k ts))"
    using sl_ok_seek [OF ok] by blast
  let ?A = "before cmp k ts" and ?B = "onwards cmp k ts"
  have rel: "sl_rel sl (?A @ ?B)" and ord: "ordered_by cmp okey (entries ts)"
    using ok by (auto simp: sl_ok_def)
  have bef: "\<forall>p \<in> set (entries ?A). cmp (fst p) k < 0"
    using set_before by (fastforce simp: entries_def)
  have split: "entries ts = entries ?A @ entries ?B"
    by (metis before_onwards entries_simps(3))
  have "\<exists>sl' ts'. SkipList_Insert cmp sl k v = Some sl' \<and> sl_rel sl' ts' \<and>
    entries ts' = ordered_insert cmp k v (entries ts)"
  proof (cases "\<exists>t B. ?B = t # B \<and> cmp (tkey t) k = 0")
    case True
    then obtain t B where t: "?B = t # B" "cmp (tkey t) k = 0" by blast
    then obtain sl' where sl': "set_value sl (taddr t) v = Some sl'" "sl_rel sl' (?A @ t\<lparr>tval := v\<rparr> # B)"
      using set_value_spec [of sl ?A t B v] rel by auto
    have "SkipList_Insert cmp sl k v = Some sl'"
      using F(1) sl_ok_exists [OF ok(1), of k] t sl'(1) by (simp add: SkipList_Insert_def)
    moreover have "entries (?A @ t\<lparr>tval := v\<rparr> # B) = ordered_insert cmp k v (entries ts)"
      using insert_before [of "entries ?A" cmp k v "entries ?B"] bef t split by simp
    ultimately show ?thesis using sl'(2) by blast
  next
    case False
    obtain sl' H where sl': "insert_node sl prev k v = Some sl'"
      "sl_rel sl' (?A @ \<lparr>taddr = sl_fresh sl, tkey = k, tval = v, theight = H\<rparr> # ?B)"
      using insert_node_spec [OF rel F(2)] by blast
    have "SkipList_Insert cmp sl k v = Some sl'"
      using F(1) sl_ok_exists [OF ok(1), of k] False sl'(1)
      by (auto simp: SkipList_Insert_def split: list.splits)
    moreover have "case ?B of [] \<Rightarrow> True | t # _ \<Rightarrow> \<not> cmp (tkey t) k \<le> 0"
    proof (cases ?B)
      case (Cons t B)
      then have "\<not> cmp (tkey t) k < 0"
        using onwards_not_before [of ts k t] ok by (auto simp: sl_ok_iff)
      then show ?thesis using Cons False by simp
    qed simp
    then have "entries (?A @ \<lparr>taddr = sl_fresh sl, tkey = k, tval = v, theight = H\<rparr> # ?B) =
        ordered_insert cmp k v (entries ts)"
      using insert_case [of ?A cmp k ?B v] bef by simp
    ultimately show ?thesis using sl'(2) by blast
  qed
  then show ?thesis using ordered_insert_ordered [OF ord ok(2), of v] by (metis sl_ok_def)
qed

lemma Get_refines:
  assumes ok: "sl_ok cmp okey sl ts" "okey k"
  shows "SkipList_Get cmp sl k = Some (ordered_lookup cmp k (entries ts))"
proof -
  obtain prev where F: "SkipList_FindGreaterOrEqual cmp sl k (\<lambda>_. sl_head sl) =
      Some (case onwards cmp k ts of [] \<Rightarrow> None | t # _ \<Rightarrow> Some (taddr t), prev)"
    using sl_ok_seek [OF ok] by blast
  show ?thesis
  proof (cases "onwards cmp k ts")
    case Nil
    then show ?thesis using F sl_ok_exists [OF ok(1), of k]
      by (simp add: SkipList_Get_def ordered_lookup_def seek_entries)
  next
    case (Cons t B)
    then have "t \<in> set ts" using set_onwards by (metis list.set_intros(1))
    then have "map_option nval (sl_heap sl (taddr t)) = Some (tval t)"
      using ok(1) by (auto simp: sl_ok_iff sl_rel_def tower_ok_def node_info_def)
    then show ?thesis using F sl_ok_exists [OF ok(1), of k] Cons
      by (simp add: SkipList_Get_def ordered_lookup_def seek_entries)
  qed
qed

lemma Contains_refines:
  assumes ok: "sl_ok cmp okey sl ts" "okey k"
  shows "SkipList_Contains cmp sl k = Some (ordered_lookup cmp k (entries ts) \<noteq> None)"
proof -
  obtain prev where F: "SkipList_FindGreaterOrEqual cmp sl k (\<lambda>_. sl_head sl) =
      Some (case onwards cmp k ts of [] \<Rightarrow> None | t # _ \<Rightarrow> Some (taddr t), prev)"
    using sl_ok_seek [OF ok] by blast
  then show ?thesis using sl_ok_exists [OF ok(1), of k]
    by (auto simp: SkipList_Contains_def ordered_lookup_def seek_entries split: list.splits)
qed

end

text \<open>A fresh list is well formed and empty.\<close>

lemma new_skiplist_ok: "sl_ok cmp okey (new_skiplist k0 v0 rnd) []"
  by (auto simp: sl_ok_def sl_rel_def new_skiplist_def ordered_by_def node_info_def AllocateNode_def
      at_level_def node_Next_def kMaxHeight_def split: if_splits)

text \<open>Walking level 0 with the iterator from \<open>SeekToFirst\<close> visits the entries in order.\<close>

lemma walk_level0:
  assumes "sl_ok cmp okey sl (us @ ts)"
  shows "node_Next (sl_heap sl) (last (sl_head sl # map taddr us)) 0 =
    Some (case ts of [] \<Rightarrow> None | t # _ \<Rightarrow> Some (taddr t))"
proof -
  have rel: "sl_rel sl (us @ ts)" using assms by (simp add: sl_ok_def)
  have "chain (sl_heap sl) 0 (sl_head sl) (map taddr us @ map taddr ts)"
    using sl_relD(4) [OF rel, of 0] at_level_0_rel [OF rel, of "us @ ts"] by (simp add: kMaxHeight_def)
  from chain_next [OF this] show ?thesis by (cases ts) auto
qed

text \<open>A range query returns the entries between its bounds, in order.\<close>

lemma range_loop_spec:
  assumes "sl_ok cmp okey sl (us @ ts)"
  shows "range_loop cmp (sl_heap sl) stop (case ts of [] \<Rightarrow> None | t # _ \<Rightarrow> Some (taddr t)) calls =
    Some (calls @ takeWhile (\<lambda>p. cmp (fst p) stop \<le> 0) (entries ts))"
  using assms
proof (induction ts arbitrary: us calls)
  case Nil
  then show ?case by (simp add: range_loop.simps)
next
  case (Cons t ts)
  have h: "\<exists>n. sl_heap sl (taddr t) = Some n \<and> nkey n = tkey t \<and> nval n = tval t"
    using Cons.prems by (auto simp: sl_ok_def sl_rel_def tower_ok_def node_info_def)
  have nx: "node_Next (sl_heap sl) (taddr t) 0 = Some (case ts of [] \<Rightarrow> None | t # _ \<Rightarrow> Some (taddr t))"
    using walk_level0 [of cmp okey sl "us @ [t]" ts] Cons.prems by simp
  show ?case
    using Cons.IH [of "us @ [t]"] Cons.prems h nx by (subst range_loop.simps) auto
qed

context key_order
begin

lemma RangeQuery_refines:
  assumes ok: "sl_ok cmp okey sl ts" "okey start"
  shows "SkipList_RangeQuery cmp sl start stop =
    Some (takeWhile (\<lambda>p. cmp (fst p) stop \<le> 0) (ordered_seek cmp start (entries ts)))"
proof -
  obtain prev where F: "SkipList_FindGreaterOrEqual cmp sl start (\<lambda>_. sl_head sl) =
      Some (case onwards cmp start ts of [] \<Rightarrow> None | t # _ \<Rightarrow> Some (taddr t), prev)"
    using sl_ok_seek [OF ok] by blast
  show ?thesis
    using F range_loop_spec [of cmp okey sl "before cmp start ts" "onwards cmp start ts" stop "[]"] ok
    by (simp add: SkipList_RangeQuery_def seek_entries)
qed

text \<open>\<open>Merge\<close> is \<open>Insert\<close>: both overwrite an existing key.\<close>

lemma Merge_Insert: "SkipList_Merge cmp sl k v = SkipList_Insert cmp sl k v"
  by (simp add: SkipList_Merge_def SkipList_Insert_def)

end

section \<open>Removal\<close>

lemma chain_remove:
  assumes "chain h l x (as @ a # bs)" "distinct (x # as @ a # bs)"
    and nn: "\<And>y. y \<noteq> a \<Longrightarrow> node_Next h' y l = (if y = last (x # as) then node_Next h a l else node_Next h y l)"
  shows "chain h' l x (as @ bs)"
  using assms
proof (induction as arbitrary: x)
  case Nil
  have "chain h' l b bs' = chain h l b bs'" if b: "bs = b # bs'" for b bs'
  proof (intro chain_cong ballI)
    fix y assume "y \<in> set (b # bs')"
    then have "y \<noteq> a" "y \<noteq> x" using Nil.prems(2) b by auto
    then show "node_Next h' y l = node_Next h y l" using Nil.prems(3) [of y] by simp
  qed
  then show ?case using Nil by (cases bs) auto
next
  case (Cons c as)
  have "chain h' l c (as @ bs)"
    using Cons.prems by (intro Cons.IH) auto
  then show ?case using Cons.prems by auto
qed

text \<open>The unlinking loop bypasses the node at each level of its tower and leaves the others.\<close>

lemma unlink_loop_spec:
  assumes "\<forall>l < kMaxHeight. chain h l hnode (at_level l A @ (if i \<le> l \<and> l < H then [x] else []) @ at_level l B)"
    and "kMaxHeight = i + n" "H \<le> kMaxHeight"
    and "distinct (hnode # map taddr A @ x # map taddr B)"
    and "node_info h x = Some (k, v, H)"
    and "\<And>l. l < kMaxHeight \<Longrightarrow> \<exists>k v m. node_info h (prev l) = Some (k, v, m) \<and> l < m"
    and pv: "\<And>l. prev l = last (hnode # at_level l A)"
  shows "\<exists>h'. unlink_loop h prev x i n = Some h' \<and>
     (\<forall>l < kMaxHeight. chain h' l hnode (at_level l A @ at_level l B)) \<and>
     (\<forall>a. node_info h' a = node_info h a)"
  using assms(1-6)
proof (induction n arbitrary: i h)
  case 0
  then have "\<forall>l < kMaxHeight. chain h l hnode (at_level l A @ at_level l B)" by simp
  then show ?case by auto
next
  case (Suc n)
  let ?p = "last (hnode # at_level i A)"
  have i: "i < kMaxHeight" using Suc.prems(2) by simp
  have ci: "chain h i hnode (at_level i A @ (if i < H then [x] else []) @ at_level i B)"
    using Suc.prems(1) i by fastforce
  have dst: "distinct (hnode # at_level i A @ x # at_level i B)"
    using Suc.prems(4) at_level_sub(1) [of i A] at_level_sub(2) [of A i] at_level_sub(1) [of i B]
      at_level_sub(2) [of B i] by auto
  have xB: "x \<notin> set (at_level i B)" using dst by auto
  have n1: "node_Next h (prev i) i = Some (case (if i < H then [x] else []) @ at_level i B of
      [] \<Rightarrow> None | b # _ \<Rightarrow> Some b)"
    using chain_next [OF ci] pv by simp
  show ?case
  proof (cases "i < H")
    case True
    have cx: "chain h i hnode ((at_level i A @ [x]) @ at_level i B)" using ci True by simp
    let ?nn = "case at_level i B of [] \<Rightarrow> None | b # _ \<Rightarrow> Some b"
    have n2: "node_Next h x i = Some ?nn" using chain_next [OF cx] by simp
    obtain k' v' m where "node_info h (prev i) = Some (k', v', m)" "i < m"
      using Suc.prems(6) [OF i] by blast
    from SetNext_Some [OF this] obtain h1 where h1: "node_SetNext h (prev i) i ?nn = Some h1" by blast
    have info: "node_info h1 a = node_info h a" for a by (rule SetNext_info [OF h1])
    have other: "chain h1 l y as = chain h l y as" if "l \<noteq> i" for l y as
      by (rule chain_cong) (simp add: SetNext_Next [OF h1] that)
    have "chain h1 i hnode (at_level i A @ at_level i B)"
      by (rule chain_remove [of h i hnode "at_level i A" x "at_level i B" h1])
        (use ci True dst n2 in \<open>simp_all add: SetNext_Next [OF h1] pv\<close>)
    then have c1: "\<forall>l < kMaxHeight. chain h1 l hnode
        (at_level l A @ (if Suc i \<le> l \<and> l < H then [x] else []) @ at_level l B)"
    proof (intro allI impI)
      fix l assume l: "l < kMaxHeight"
      show "chain h1 l hnode (at_level l A @ (if Suc i \<le> l \<and> l < H then [x] else []) @ at_level l B)"
      proof (cases "l = i")
        case False
        then have e: "(i \<le> l \<and> l < H) = (Suc i \<le> l \<and> l < H)" by auto
        show ?thesis unfolding other [OF False] e [symmetric] using Suc.prems(1) l by blast
      qed (use \<open>chain h1 i hnode (at_level i A @ at_level i B)\<close> in simp)
    qed
    have "\<exists>h'. unlink_loop h1 prev x (Suc i) n = Some h' \<and>
       (\<forall>l < kMaxHeight. chain h' l hnode (at_level l A @ at_level l B)) \<and>
       (\<forall>a. node_info h' a = node_info h1 a)"
      using Suc.prems(2-6) info by (intro Suc.IH [OF c1]) auto
    then show ?thesis using n1 n2 h1 info True by simp
  next
    case False
    have ne: "(case at_level i B of [] \<Rightarrow> None | b # _ \<Rightarrow> Some b) \<noteq> Some x"
      using xB by (auto split: list.splits)
    have c1: "\<forall>l < kMaxHeight. chain h l hnode
        (at_level l A @ (if Suc i \<le> l \<and> l < H then [x] else []) @ at_level l B)"
    proof (intro allI impI)
      fix l assume l: "l < kMaxHeight"
      have e: "(i \<le> l \<and> l < H) = (Suc i \<le> l \<and> l < H)" using False by auto
      show "chain h l hnode
        (at_level l A @ (if Suc i \<le> l \<and> l < H then [x] else []) @ at_level l B)"
        unfolding e [symmetric] using Suc.prems(1) l by blast
    qed
    have "\<exists>h'. unlink_loop h prev x (Suc i) n = Some h' \<and>
       (\<forall>l < kMaxHeight. chain h' l hnode (at_level l A @ at_level l B)) \<and>
       (\<forall>a. node_info h' a = node_info h a)"
      using Suc.prems(2-6) by (intro Suc.IH [OF c1]) auto
    then show ?thesis using n1 ne False by simp
  qed
qed


lemma shrink_height_range:
  "1 \<le> n \<Longrightarrow> 1 \<le> shrink_height h hnode n \<and> shrink_height h hnode n \<le> n"
  by (induction n) auto

lemma shrink_height_empty:
  "shrink_height h hnode n \<le> l \<Longrightarrow> l < n \<Longrightarrow> 1 \<le> n \<Longrightarrow> node_Next h hnode l = Some None"
  by (induction n) (auto simp: less_Suc_eq split: if_splits)

lemma delete_node_rel:
  assumes rel: "sl_rel sl (A @ t # B)" and pv: "\<And>l. prev l = last (sl_head sl # at_level l A)"
  shows "\<exists>h. unlink_loop (sl_heap sl) prev (taddr t) 0 kMaxHeight = Some h \<and>
    (let h' = h(taddr t := None) in
     sl_rel (sl\<lparr>sl_heap := h', count := count sl - 1,
       max_height := shrink_height h' (sl_head sl) (max_height sl)\<rparr>) (A @ B))"
proof -
  note D = sl_relD [OF rel]
  let ?hd = "sl_head sl"
  have t: "node_info (sl_heap sl) (taddr t) = Some (tkey t, tval t, theight t)" "theight t \<le> kMaxHeight"
    using D(2) [of t] by (auto simp: tower_ok_def)
  have dst: "distinct (?hd # map taddr A @ taddr t # map taddr B)" using D(1) by simp
  have deep: "\<exists>k v m. node_info (sl_heap sl) (prev l) = Some (k, v, m) \<and> l < m" if "l < kMaxHeight" for l
  proof (cases "at_level l A = []")
    case True
    then show ?thesis using rel that pv by (auto simp: sl_rel_def)
  next
    case False
    then obtain u where "u \<in> set A" "l < theight u" "last (?hd # at_level l A) = taddr u"
      using last_in_set [OF False] by (auto simp: at_level_def)
    then show ?thesis using D(2) [of u] pv [of l] by (auto simp: tower_ok_def)
  qed
  have "\<exists>h'. unlink_loop (sl_heap sl) prev (taddr t) 0 kMaxHeight = Some h' \<and>
     (\<forall>l < kMaxHeight. chain h' l ?hd (at_level l A @ at_level l B)) \<and>
     (\<forall>a. node_info h' a = node_info (sl_heap sl) a)"
    by (rule unlink_loop_spec [OF _ _ t(2) dst t(1) deep pv])
      (use D(4) in \<open>auto simp: at_level_Cons\<close>)
  then obtain h where h: "unlink_loop (sl_heap sl) prev (taddr t) 0 kMaxHeight = Some h"
     "\<And>l. l < kMaxHeight \<Longrightarrow> chain h l ?hd (at_level l A @ at_level l B)"
     "\<And>a. node_info h a = node_info (sl_heap sl) a" by blast
  let ?h' = "h(taddr t := None)" and ?m = "shrink_height (h(taddr t := None)) ?hd (max_height sl)"
  let ?sl' = "sl\<lparr>sl_heap := ?h', count := count sl - 1, max_height := ?m\<rparr>"
  have info: "node_info ?h' a = node_info (sl_heap sl) a" if "a \<noteq> taddr t" for a
    using h(3) [of a] that by (simp add: node_info_def)
  have ch: "chain ?h' l ?hd (at_level l A @ at_level l B)" if "l < kMaxHeight" for l
  proof -
    have "taddr t \<notin> set (?hd # at_level l A @ at_level l B)"
      using dst at_level_sub(1) [of l A] at_level_sub(1) [of l B] by auto
    then have "chain ?h' l ?hd (at_level l A @ at_level l B) = chain h l ?hd (at_level l A @ at_level l B)"
      by (intro chain_cong ballI) (auto simp: node_Next_def)
    then show ?thesis using h(2) [OF that] by simp
  qed
  have "sl_rel ?sl' (A @ B)"
    unfolding sl_rel_def
  proof (intro conjI ballI allI impI)
    show "tower_ok (sl_heap ?sl') u" if "u \<in> set (A @ B)" for u
    proof -
      have "taddr u \<noteq> taddr t" using that dst by (auto simp: image_iff)
      then show ?thesis using D(2) [of u] that info by (auto simp: tower_ok_def)
    qed
    show "theight u \<le> max_height ?sl'" if u: "u \<in> set (A @ B)" for u
    proof (rule ccontr)
      assume "\<not> theight u \<le> max_height ?sl'"
      then have m: "?m < theight u" by simp
      let ?l = "theight u - 1"
      have th: "theight u \<le> max_height sl" "theight u \<le> kMaxHeight" "0 < theight u"
        using u D(2) [of u] D(3) [of u] by (auto simp: tower_ok_def)
      then have "node_Next ?h' ?hd ?l = Some None"
        using m by (intro shrink_height_empty [where n = "max_height sl"]) auto
      moreover have "chain ?h' ?l ?hd (at_level ?l A @ at_level ?l B)" using th by (intro ch) simp
      moreover have "taddr u \<in> set (at_level ?l A @ at_level ?l B)"
        using u th(3) by (auto simp: at_level_def)
      ultimately show False by (cases "at_level ?l A @ at_level ?l B") auto
    qed
    show "\<exists>k v. node_info (sl_heap ?sl') (sl_head ?sl') = Some (k, v, kMaxHeight)"
      using rel dst info [of ?hd] by (auto simp: sl_rel_def)
    show "chain (sl_heap ?sl') l (sl_head ?sl') (at_level l (A @ B))" if "l < kMaxHeight" for l
      using ch [OF that] by simp
    show "1 \<le> max_height ?sl'" "max_height ?sl' \<le> kMaxHeight"
      using shrink_height_range [OF D(5), of ?h' ?hd] D(6) by auto
    show "a < sl_fresh ?sl'" if "sl_heap ?sl' a \<noteq> None" for a
    proof -
      have "node_info h a \<noteq> None" using that by (auto simp: node_info_def split: if_splits)
      then have "node_info (sl_heap sl) a \<noteq> None" by (simp add: h(3))
      then show ?thesis using rel by (auto simp: sl_rel_def node_info_def)
    qed
  qed (use rel in \<open>auto simp: sl_rel_def\<close>)
  then show ?thesis using h(1) by (simp add: Let_def)
qed

definition ordered_delete :: "('k \<Rightarrow> 'k \<Rightarrow> int) \<Rightarrow> 'k \<Rightarrow> ('k \<times> 'v) list \<Rightarrow> ('k \<times> 'v) list" where
  "ordered_delete cmp k xs = filter (\<lambda>p. cmp (fst p) k \<noteq> 0) xs"

context key_order
begin

lemma ordered_delete_at:
  assumes "ordered_by cmp okey (xs @ p # ys)" "okey k" "cmp (fst p) k = 0"
  shows "ordered_delete cmp k (xs @ p # ys) = xs @ ys"
proof -
  have ok: "okey (fst p)" "\<And>q. q \<in> set (xs @ ys) \<Longrightarrow> okey (fst q)"
    using assms(1) by (auto simp: ordered_by_def)
  have "cmp (fst q) k \<noteq> 0" if "q \<in> set xs" for q
  proof -
    have "cmp (fst q) (fst p) < 0" using assms(1) that by (auto simp: ordered_by_def sorted_wrt_append)
    then show ?thesis using cmp_less_le_trans [of "fst q" "fst p" k] ok that assms(2,3) by auto
  qed
  moreover have "cmp (fst q) k \<noteq> 0" if "q \<in> set ys" for q
  proof
    assume "cmp (fst q) k = 0"
    moreover have "cmp (fst p) (fst q) < 0" using assms(1) that by (auto simp: ordered_by_def sorted_wrt_append)
    ultimately show False using cmp_less_le_trans [of "fst p" "fst q" k] ok that assms(2,3) by auto
  qed
  ultimately show ?thesis using assms(3) by (simp add: ordered_delete_def filter_id_conv)
qed

lemma ordered_delete_absent:
  assumes "ordered_by cmp okey xs" "okey k" "ordered_lookup cmp k xs = None"
  shows "ordered_delete cmp k xs = xs"
proof -
  have "cmp (fst p) k \<noteq> 0" if p: "p \<in> set xs" for p
  proof
    assume e: "cmp (fst p) k = 0"
    have "p \<in> set (ordered_seek cmp k xs)"
      using p e unfolding ordered_seek_def
      by (induction xs) auto
    then obtain q ys where q: "ordered_seek cmp k xs = q # ys" by (cases "ordered_seek cmp k xs") auto
    have "ordered_by cmp okey (q # ys)"
      using assms(1) q dropWhile_append2 [of xs] takeWhile_dropWhile_id [of "\<lambda>p. cmp (fst p) k < 0" xs]
      unfolding ordered_seek_def ordered_by_def
      by (metis set_append sorted_wrt_append UnCI)
    then have "q = p \<or> cmp (fst q) (fst p) < 0" "okey (fst q)" "okey (fst p)"
      using \<open>p \<in> set (ordered_seek cmp k xs)\<close> q by (auto simp: ordered_by_def)
    moreover have "\<not> cmp (fst q) k < 0"
      using ordered_seek_not_before [OF assms(1,2), of q] q by simp
    moreover have "cmp (fst q) k \<noteq> 0" using assms(3) q by (auto simp: ordered_lookup_def)
    ultimately show False using e cmp_less_le_trans [of "fst q" "fst p" k] assms(2) by auto
  qed
  then show ?thesis by (simp add: ordered_delete_def filter_id_conv)
qed

lemma ordered_delete_ordered: "ordered_by cmp okey xs \<Longrightarrow> ordered_by cmp okey (ordered_delete cmp k xs)"
  by (auto simp: ordered_by_def ordered_delete_def sorted_wrt_filter)

lemma Delete_refines:
  assumes ok: "sl_ok cmp okey sl ts" "okey k"
  shows "\<exists>sl' ts'. SkipList_Delete cmp sl k = Some (ordered_lookup cmp k (entries ts) \<noteq> None, sl') \<and>
    sl_ok cmp okey sl' ts' \<and> entries ts' = ordered_delete cmp k (entries ts)"
proof -
  obtain prev where F: "SkipList_FindGreaterOrEqual cmp sl k (\<lambda>_. sl_head sl) =
      Some (case onwards cmp k ts of [] \<Rightarrow> None | t # _ \<Rightarrow> Some (taddr t), prev)"
    "\<And>l. prev l = last (sl_head sl # at_level l (before cmp k ts))"
    using sl_ok_seek [OF ok] by blast
  let ?A = "before cmp k ts"
  have ord: "ordered_by cmp okey (entries ts)" using ok by (simp add: sl_ok_def)
  show ?thesis
  proof (cases "\<exists>t B. onwards cmp k ts = t # B \<and> cmp (tkey t) k = 0")
    case True
    then obtain t B where t: "onwards cmp k ts = t # B" "cmp (tkey t) k = 0" by blast
    have ts: "ts = ?A @ t # B" using before_onwards [of cmp k ts] t(1) by simp
    then have rel: "sl_rel sl (?A @ t # B)" using ok by (simp add: sl_ok_def)
    have ent: "entries ts = entries ?A @ (tkey t, tval t) # entries B"
      by (subst ts) simp
    have "ordered_delete cmp k (entries ts) = entries (?A @ B)"
      using ordered_delete_at [of "entries ?A" "(tkey t, tval t)" "entries B" k] ord ok(2) t(2) ent by simp
    then have ent': "entries (?A @ B) = ordered_delete cmp k (entries ts)" by simp
    obtain h where h: "unlink_loop (sl_heap sl) prev (taddr t) 0 kMaxHeight = Some h"
      and r: "sl_rel (sl\<lparr>sl_heap := h(taddr t := None), count := count sl - 1,
        max_height := shrink_height (h(taddr t := None)) (sl_head sl) (max_height sl)\<rparr>) (?A @ B)"
      using delete_node_rel [OF rel F(2)] by (auto simp: Let_def)
    have "sl_ok cmp okey (sl\<lparr>sl_heap := h(taddr t := None), count := count sl - 1,
        max_height := shrink_height (h(taddr t := None)) (sl_head sl) (max_height sl)\<rparr>) (?A @ B)"
      unfolding sl_ok_def ent' using r ordered_delete_ordered [OF ord] by blast
    moreover have "SkipList_Delete cmp sl k = Some (True, sl\<lparr>sl_heap := h(taddr t := None), count := count sl - 1,
        max_height := shrink_height (h(taddr t := None)) (sl_head sl) (max_height sl)\<rparr>)"
      using F(1) sl_ok_exists [OF ok(1), of k] t h by (simp add: SkipList_Delete_def Let_def)
    moreover have "ordered_lookup cmp k (entries ts) \<noteq> None"
      using t by (simp add: ordered_lookup_def seek_entries)
    ultimately show ?thesis using ent' by auto
  next
    case False
    then have none: "ordered_lookup cmp k (entries ts) = None"
      by (cases "onwards cmp k ts") (auto simp: ordered_lookup_def seek_entries)
    then show ?thesis
      using F(1) sl_ok_exists [OF ok(1), of k] False ordered_delete_absent [OF ord ok(2) none] ok(1)
      by (auto simp: SkipList_Delete_def split: list.splits)
  qed
qed

end

end
