(* ===== verification/MemTables.thy ===== *)
theory MemTables
  imports SkipLists Statuses
begin

text \<open>
  Memtables (include/lrdb/storage/memtable.h, src/storage/memtable.cc). Internal keys and
  their comparator, the table with its three write operations, the versioned lookup, the
  iterator and what is built on it (flush, range, validation, statistics), and the manager
  of one mutable and several immutable tables. The skip list is represented by the ordered
  list that SkipLists.thy proves its heap to hold; the theorems about the heap are composed
  with the ones here at the end of the theory. \<open>size_t\<close> counters are naturals, and
  \<open>sizeof\<close> values are fields of the table. Memory exhaustion, logging and the error-recovery
  callbacks (which only log) are not modelled.
\<close>

section \<open>Internal keys\<close>

definition kValue :: byte where "kValue = 1"
definition kDeletion :: byte where "kDeletion = 2"
definition kMerge :: byte where "kMerge = 3"

lemmas value_types = kValue_def kDeletion_def kMerge_def

definition InternalKey :: "bytes \<Rightarrow> u64 \<Rightarrow> byte \<Rightarrow> bytes" where
  "InternalKey user_key sequence type = PutInternalKey [] user_key sequence type"

definition InternalKey_user_key :: "bytes \<Rightarrow> bytes" where
  "InternalKey_user_key d = (case ParseInternalKey d of Some (uk, s, t) \<Rightarrow> uk | None \<Rightarrow> [])"

definition InternalKey_sequence :: "bytes \<Rightarrow> u64" where
  "InternalKey_sequence d = (case ParseInternalKey d of Some (uk, s, t) \<Rightarrow> s | None \<Rightarrow> 0)"

definition InternalKey_type :: "bytes \<Rightarrow> byte" where
  "InternalKey_type d = (case ParseInternalKey d of Some (uk, s, t) \<Rightarrow> t | None \<Rightarrow> kValue)"

text \<open>\<open>Decode\<close>: the new contents of \<open>data_\<close> when the format is right.\<close>

definition InternalKey_Decode :: "bytes \<Rightarrow> bytes \<Rightarrow> bool \<times> bytes" where
  "InternalKey_Decode d internal_key =
     (case ParseInternalKey internal_key of Some _ \<Rightarrow> (True, internal_key) | None \<Rightarrow> (False, d))"

definition InternalKey_Compare :: "(bytes \<Rightarrow> bytes \<Rightarrow> int) \<Rightarrow> bytes \<Rightarrow> bytes \<Rightarrow> int" where
  "InternalKey_Compare cmp d other =
     (let user_cmp = cmp (InternalKey_user_key d) (InternalKey_user_key other) in
      if user_cmp \<noteq> 0 then user_cmp
      else let seq1 = InternalKey_sequence d; seq2 = InternalKey_sequence other in
        if seq2 < seq1 then -1
        else if seq1 < seq2 then 1
        else int (unat (InternalKey_type d)) - int (unat (InternalKey_type other)))"

definition InternalKeyComparator_Compare :: "(bytes \<Rightarrow> bytes \<Rightarrow> int) \<Rightarrow> bytes \<Rightarrow> bytes \<Rightarrow> int" where
  "InternalKeyComparator_Compare cmp a b =
     (case (ParseInternalKey a, ParseInternalKey b) of
        (Some (user_key_a, seq_a, type_a), Some (user_key_b, seq_b, type_b)) \<Rightarrow>
          (let user_cmp = cmp user_key_a user_key_b in
           if user_cmp \<noteq> 0 then user_cmp
           else if seq_b < seq_a then -1
           else if seq_a < seq_b then 1
           else int (unat type_a) - int (unat type_b))
      | _ \<Rightarrow> slice_compare a b)"

definition InternalKeyComparator :: "comparator \<Rightarrow> comparator" where
  "InternalKeyComparator c =
     \<lparr>Compare = InternalKeyComparator_Compare (Compare c),
      FindShortestSeparator = FindShortestSeparator c,
      FindShortSuccessor = FindShortSuccessor c\<rparr>"

section \<open>The table\<close>

record entry =
  e_key :: bytes
  e_value :: bytes

record memtable_options =
  write_buffer_size :: nat
  max_write_buffer_number :: nat

text \<open>\<open>mt_id\<close> is the table's address, \<open>sizeof_entry\<close> is \<open>sizeof(MemTableEntry)\<close>.\<close>

record memtable =
  mt_id :: nat
  table :: "(bytes \<times> entry) list"
  mt_options :: memtable_options
  mt_refs :: int
  immutable :: bool
  memory_usage :: nat
  num_entries :: nat
  sizeof_entry :: nat

definition MemTable_new :: "nat \<Rightarrow> nat \<Rightarrow> nat \<Rightarrow> memtable_options \<Rightarrow> memtable" where
  "MemTable_new addr sizeof_table sizeof_ent options =
     \<lparr>mt_id = addr, table = [], mt_options = options, mt_refs = 1, immutable = False,
      memory_usage = sizeof_table, num_entries = 0, sizeof_entry = sizeof_ent\<rparr>"

definition MemTable_CreateEntry :: "memtable \<Rightarrow> bytes \<Rightarrow> bytes \<Rightarrow> entry \<times> memtable" where
  "MemTable_CreateEntry mt key value =
     (\<lparr>e_key = key, e_value = value\<rparr>,
      mt\<lparr>memory_usage := memory_usage mt + (sizeof_entry mt + length key + length value)\<rparr>)"

definition table_insert :: "(bytes \<Rightarrow> bytes \<Rightarrow> int) \<Rightarrow> bytes \<Rightarrow> entry \<Rightarrow> memtable \<Rightarrow> memtable" where
  "table_insert cmp k e mt =
     mt\<lparr>table := ordered_insert (InternalKeyComparator_Compare cmp) k e (table mt),
        num_entries := num_entries mt + 1\<rparr>"

definition MemTable_Put ::
    "(bytes \<Rightarrow> bytes \<Rightarrow> int) \<Rightarrow> memtable \<Rightarrow> bytes \<Rightarrow> bytes \<Rightarrow> u64 \<Rightarrow> status \<times> memtable" where
  "MemTable_Put cmp mt key value sequence =
     (if immutable mt then (InvalidArgument ''Cannot write to immutable MemTable'', mt)
      else let internal_key = InternalKey key sequence kValue;
               (e, mt1) = MemTable_CreateEntry mt internal_key value
           in (OK, table_insert cmp internal_key e mt1))"

definition MemTable_Delete ::
    "(bytes \<Rightarrow> bytes \<Rightarrow> int) \<Rightarrow> memtable \<Rightarrow> bytes \<Rightarrow> u64 \<Rightarrow> status \<times> memtable" where
  "MemTable_Delete cmp mt key sequence =
     (if immutable mt then (InvalidArgument ''Cannot write to immutable MemTable'', mt)
      else let internal_key = InternalKey key sequence kDeletion;
               (e, mt1) = MemTable_CreateEntry mt internal_key []
           in (OK, table_insert cmp internal_key e mt1))"

text \<open>\<open>SkipList::Merge\<close> overwrites as \<open>Insert\<close> does (\<open>Merge_Insert\<close> in SkipLists.thy).\<close>

definition MemTable_Merge ::
    "(bytes \<Rightarrow> bytes \<Rightarrow> int) \<Rightarrow> memtable \<Rightarrow> bytes \<Rightarrow> bytes \<Rightarrow> u64 \<Rightarrow> status \<times> memtable" where
  "MemTable_Merge cmp mt key value sequence =
     (if immutable mt then (InvalidArgument ''Cannot write to immutable MemTable'', mt)
      else let internal_key = InternalKey key sequence kMerge;
               (e, mt1) = MemTable_CreateEntry mt internal_key value
           in (OK, table_insert cmp internal_key e mt1))"

text \<open>
  \<open>Get\<close>. The pointers \<open>value\<close> and \<open>status\<close> may be null (\<open>None\<close>). The loop runs
  over what the skip-list iterator still has ahead of it.
\<close>

definition get_store :: "bool \<Rightarrow> bytes \<Rightarrow> bytes option \<Rightarrow> bytes option" where
  "get_store merge v value = map_option (\<lambda>old. if merge then old @ v else v) value"

fun MemTable_Get_loop ::
    "(bytes \<Rightarrow> bytes \<Rightarrow> int) \<Rightarrow> (bytes \<times> entry) list \<Rightarrow> bytes \<Rightarrow> bool \<Rightarrow> u64 \<Rightarrow> (bytes \<times> entry) list
     \<Rightarrow> bytes option \<Rightarrow> status option \<Rightarrow> bool \<times> bytes option \<times> status option" where
  "MemTable_Get_loop cmp tbl key merge snapshot [] value st =
     (False, value, map_option (\<lambda>_. NotFound ''Key not found'') st)"
| "MemTable_Get_loop cmp tbl key merge snapshot (p # rest) value st =
     (case ordered_lookup (InternalKeyComparator_Compare cmp) (fst p) tbl of
        None \<Rightarrow> MemTable_Get_loop cmp tbl key merge snapshot rest value st
      | Some e \<Rightarrow>
          if slice_compare (InternalKey_user_key (e_key e)) key \<noteq> 0
          then (False, value, map_option (\<lambda>_. NotFound ''Key not found'') st)
          else if 0 < snapshot \<and> snapshot < InternalKey_sequence (e_key e)
          then MemTable_Get_loop cmp tbl key merge snapshot rest value st
          else if InternalKey_type (e_key e) = kValue
          then (True, get_store merge (e_value e) value, map_option (\<lambda>_. OK) st)
          else if InternalKey_type (e_key e) = kDeletion
          then (if st \<noteq> None \<and> merge then (True, value, Some OK)
                else (False, value, map_option (\<lambda>_. Deleted ''Key was deleted'') st))
          else if InternalKey_type (e_key e) = kMerge
          then (True, get_store merge (e_value e) value, map_option (\<lambda>_. MergerInProgress '''') st)
          else MemTable_Get_loop cmp tbl key merge snapshot rest value st)"

definition MemTable_Get ::
    "(bytes \<Rightarrow> bytes \<Rightarrow> int) \<Rightarrow> memtable \<Rightarrow> bytes \<Rightarrow> bytes option \<Rightarrow> status option \<Rightarrow> u64
     \<Rightarrow> bool \<times> bytes option \<times> status option" where
  "MemTable_Get cmp mt key value st snapshot =
     (let merge = (case st of Some s \<Rightarrow> IsMergeInProgress s | None \<Rightarrow> False)
      in MemTable_Get_loop cmp (table mt) key merge snapshot
           (ordered_seek (InternalKeyComparator_Compare cmp) (InternalKey key (-1) kValue) (table mt))
           value st)"

definition MemTable_Empty :: "memtable \<Rightarrow> bool" where
  "MemTable_Empty mt \<longleftrightarrow> num_entries mt = 0"

definition MemTable_ShouldFlush :: "memtable \<Rightarrow> bool" where
  "MemTable_ShouldFlush mt \<longleftrightarrow> write_buffer_size (mt_options mt) \<le> memory_usage mt"

definition MemTable_Ref :: "memtable \<Rightarrow> memtable" where
  "MemTable_Ref mt = mt\<lparr>mt_refs := mt_refs mt + 1\<rparr>"

text \<open>\<open>Unref\<close>: \<open>None\<close> when the object deletes itself.\<close>

definition MemTable_Unref :: "memtable \<Rightarrow> memtable option" where
  "MemTable_Unref mt = (if mt_refs mt = 1 then None else Some (mt\<lparr>mt_refs := mt_refs mt - 1\<rparr>))"

definition MemTable_SetImmutable :: "memtable \<Rightarrow> memtable" where
  "MemTable_SetImmutable mt = mt\<lparr>immutable := True\<rparr>"


section \<open>The iterator\<close>

text \<open>
  \<open>MemTableIterator\<close>: the skip-list position (an index, \<open>None\<close> for a null node), the flag
  \<open>valid_\<close> and the cached current entry. Moving an iterator that is not valid is a failed
  assertion in the code and leaves it unchanged here.
\<close>

record mem_iter =
  it_pos :: "nat option"
  it_valid :: bool
  cur_key :: bytes
  cur_value :: bytes
  cur_type :: byte
  cur_seq :: u64
  it_status :: status

definition MemIter_new :: mem_iter where
  "MemIter_new = \<lparr>it_pos = None, it_valid = False, cur_key = [], cur_value = [],
     cur_type = kValue, cur_seq = 0, it_status = OK\<rparr>"

definition MemIter_Valid :: "mem_iter \<Rightarrow> bool" where
  "MemIter_Valid it \<longleftrightarrow> it_valid it \<and> it_pos it \<noteq> None"

definition MemIter_UpdateCurrentEntry ::
    "(bytes \<Rightarrow> bytes \<Rightarrow> int) \<Rightarrow> (bytes \<times> entry) list \<Rightarrow> mem_iter \<Rightarrow> mem_iter" where
  "MemIter_UpdateCurrentEntry cmp tbl it =
     (case it_pos it of
        None \<Rightarrow> it\<lparr>it_valid := False, cur_key := [], cur_value := [], cur_type := kValue, cur_seq := 0\<rparr>
      | Some i \<Rightarrow>
          (case ordered_lookup (InternalKeyComparator_Compare cmp) (fst (tbl ! i)) tbl of
             None \<Rightarrow> it\<lparr>it_status := Corruption ''Invalid MemTable entry'', it_valid := False\<rparr>
           | Some e \<Rightarrow>
               it\<lparr>it_valid := True,
                  cur_key := InternalKey_user_key (e_key e), cur_value := e_value e,
                  cur_type := InternalKey_type (e_key e), cur_seq := InternalKey_sequence (e_key e),
                  it_status := OK\<rparr>))"

definition list_pos :: "'a list \<Rightarrow> nat \<Rightarrow> nat option" where
  "list_pos xs i = (if i < length xs then Some i else None)"

definition MemIter_SeekToFirst ::
    "(bytes \<Rightarrow> bytes \<Rightarrow> int) \<Rightarrow> (bytes \<times> entry) list \<Rightarrow> mem_iter \<Rightarrow> mem_iter" where
  "MemIter_SeekToFirst cmp tbl it = MemIter_UpdateCurrentEntry cmp tbl (it\<lparr>it_pos := list_pos tbl 0\<rparr>)"

definition MemIter_SeekToLast ::
    "(bytes \<Rightarrow> bytes \<Rightarrow> int) \<Rightarrow> (bytes \<times> entry) list \<Rightarrow> mem_iter \<Rightarrow> mem_iter" where
  "MemIter_SeekToLast cmp tbl it =
     MemIter_UpdateCurrentEntry cmp tbl
       (it\<lparr>it_pos := (if tbl = [] then None else Some (length tbl - 1))\<rparr>)"

definition MemIter_Seek ::
    "(bytes \<Rightarrow> bytes \<Rightarrow> int) \<Rightarrow> (bytes \<times> entry) list \<Rightarrow> bytes \<Rightarrow> mem_iter \<Rightarrow> mem_iter" where
  "MemIter_Seek cmp tbl target it =
     (let encoded_key = InternalKey target (-1) kValue
      in MemIter_UpdateCurrentEntry cmp tbl
           (it\<lparr>it_pos := list_pos tbl (length tbl -
              length (ordered_seek (InternalKeyComparator_Compare cmp) encoded_key tbl))\<rparr>))"

definition MemIter_Next ::
    "(bytes \<Rightarrow> bytes \<Rightarrow> int) \<Rightarrow> (bytes \<times> entry) list \<Rightarrow> mem_iter \<Rightarrow> mem_iter" where
  "MemIter_Next cmp tbl it =
     (case it_pos it of
        None \<Rightarrow> it
      | Some i \<Rightarrow> MemIter_UpdateCurrentEntry cmp tbl (it\<lparr>it_pos := list_pos tbl (Suc i)\<rparr>))"

definition MemIter_Prev ::
    "(bytes \<Rightarrow> bytes \<Rightarrow> int) \<Rightarrow> (bytes \<times> entry) list \<Rightarrow> mem_iter \<Rightarrow> mem_iter" where
  "MemIter_Prev cmp tbl it =
     (case it_pos it of
        None \<Rightarrow> it
      | Some i \<Rightarrow>
          MemIter_UpdateCurrentEntry cmp tbl (it\<lparr>it_pos := (if i = 0 then None else Some (i - 1))\<rparr>))"

section \<open>Operations over the iterator\<close>

text \<open>
  Loops \<open>while (iter->Valid())\<close> have fuel: one round per entry, so the length of the table
  is enough; \<open>None\<close> is fuel exhausted. The SSTable writer is a parameter: its \<open>Add\<close>
  takes the writer's state, an internal key and a value.
\<close>

fun MemTable_Flush_loop ::
    "(bytes \<Rightarrow> bytes \<Rightarrow> int) \<Rightarrow> (bytes \<times> entry) list \<Rightarrow> ('w \<Rightarrow> bytes \<Rightarrow> bytes \<Rightarrow> status \<times> 'w)
     \<Rightarrow> nat \<Rightarrow> mem_iter \<Rightarrow> 'w \<Rightarrow> (status \<times> 'w) option" where
  "MemTable_Flush_loop cmp tbl Add fuel it w =
     (if \<not> MemIter_Valid it then Some (OK, w)
      else case fuel of
        0 \<Rightarrow> None
      | Suc n \<Rightarrow>
          (let (s, w') = Add w (InternalKey (cur_key it) (cur_seq it) (cur_type it)) (cur_value it) in
           if \<not> ok s then Some (s, w')
           else let it' = MemIter_Next cmp tbl it in
             if \<not> ok (it_status it') then Some (it_status it', w')
             else MemTable_Flush_loop cmp tbl Add n it' w'))"

definition MemTable_FlushToSSTable ::
    "(bytes \<Rightarrow> bytes \<Rightarrow> int) \<Rightarrow> memtable \<Rightarrow> ('w \<Rightarrow> bytes \<Rightarrow> bytes \<Rightarrow> status \<times> 'w) \<Rightarrow> 'w option
     \<Rightarrow> (status \<times> 'w option) option" where
  "MemTable_FlushToSSTable cmp mt Add writer =
     (case writer of
        None \<Rightarrow> Some (InvalidArgument ''SSTableWriter is null'', None)
      | Some w \<Rightarrow>
          map_option (\<lambda>(s, w'). (s, Some w'))
            (MemTable_Flush_loop cmp (table mt) Add (length (table mt))
               (MemIter_SeekToFirst cmp (table mt) MemIter_new) w))"

text \<open>\<open>GetRange\<close>: whether it succeeds, with the smallest and the largest key.\<close>

definition MemTable_GetRange ::
    "(bytes \<Rightarrow> bytes \<Rightarrow> int) \<Rightarrow> memtable \<Rightarrow> (bytes \<times> bytes) option" where
  "MemTable_GetRange cmp mt =
     (if MemTable_Empty mt then None
      else let it = MemIter_SeekToFirst cmp (table mt) MemIter_new in
        if \<not> MemIter_Valid it then None
        else let it2 = MemIter_SeekToLast cmp (table mt) it in
          if \<not> MemIter_Valid it2 then None else Some (cur_key it, cur_key it2))"

fun MemTable_Validate_loop ::
    "(bytes \<Rightarrow> bytes \<Rightarrow> int) \<Rightarrow> (bytes \<times> entry) list \<Rightarrow> nat \<Rightarrow> mem_iter \<Rightarrow> bytes option \<Rightarrow> nat
     \<Rightarrow> nat option option" where
  "MemTable_Validate_loop cmp tbl fuel it last_key seen =
     (if \<not> MemIter_Valid it then Some (Some seen)
      else case fuel of
        0 \<Rightarrow> None
      | Suc n \<Rightarrow>
          (if \<not> ok (it_status it) then Some None
           else if (case last_key of None \<Rightarrow> False | Some l \<Rightarrow> cur_key it < l) then Some None
           else MemTable_Validate_loop cmp tbl n (MemIter_Next cmp tbl it) (Some (cur_key it)) (seen + 1)))"

definition MemTable_ValidateStructure :: "(bytes \<Rightarrow> bytes \<Rightarrow> int) \<Rightarrow> memtable \<Rightarrow> bool option" where
  "MemTable_ValidateStructure cmp mt =
     map_option (\<lambda>r. r = Some (num_entries mt))
       (MemTable_Validate_loop cmp (table mt) (length (table mt))
          (MemIter_SeekToFirst cmp (table mt) MemIter_new) None 0)"

definition ValidateMemTable :: "(bytes \<Rightarrow> bytes \<Rightarrow> int) \<Rightarrow> memtable option \<Rightarrow> status option" where
  "ValidateMemTable cmp m =
     (case m of
        None \<Rightarrow> Some (InvalidArgument ''MemTable is null'')
      | Some mt \<Rightarrow>
          map_option (\<lambda>v. if v then OK else Corruption ''MemTable structure validation failed'')
            (MemTable_ValidateStructure cmp mt))"

definition EstimateSSTableSize :: "memtable option \<Rightarrow> nat" where
  "EstimateSSTableSize m =
     (case m of None \<Rightarrow> 0 | Some mt \<Rightarrow> memory_usage mt + num_entries mt * 20 + 1024)"

record memtable_stats =
  total_keys :: nat
  unique_keys :: nat
  deletions :: nat
  merges :: nat
  smallest_key :: bytes
  largest_key :: bytes

fun AnalyzeMemTable_loop ::
    "(bytes \<Rightarrow> bytes \<Rightarrow> int) \<Rightarrow> (bytes \<times> entry) list \<Rightarrow> nat \<Rightarrow> mem_iter \<Rightarrow> bytes option
     \<Rightarrow> memtable_stats \<Rightarrow> memtable_stats option" where
  "AnalyzeMemTable_loop cmp tbl fuel it last_user_key stats =
     (if \<not> MemIter_Valid it then Some stats
      else case fuel of
        0 \<Rightarrow> None
      | Suc n \<Rightarrow>
          (let k = cur_key it;
               s1 = stats\<lparr>total_keys := total_keys stats + 1\<rparr>;
               s2 = (if last_user_key \<noteq> Some k
                     then s1\<lparr>unique_keys := unique_keys s1 + 1,
                             smallest_key := (if last_user_key = None then k else smallest_key s1),
                             largest_key := k\<rparr>
                     else s1);
               s3 = (if cur_type it = kDeletion then s2\<lparr>deletions := deletions s2 + 1\<rparr>
                     else if cur_type it = kMerge then s2\<lparr>merges := merges s2 + 1\<rparr> else s2)
           in AnalyzeMemTable_loop cmp tbl n (MemIter_Next cmp tbl it) (Some k) s3))"

definition AnalyzeMemTable :: "(bytes \<Rightarrow> bytes \<Rightarrow> int) \<Rightarrow> memtable option \<Rightarrow> memtable_stats option" where
  "AnalyzeMemTable cmp m =
     (let stats = \<lparr>total_keys = 0, unique_keys = 0, deletions = 0, merges = 0,
                   smallest_key = [], largest_key = []\<rparr>
      in case m of
           None \<Rightarrow> Some stats
         | Some mt \<Rightarrow>
             if MemTable_Empty mt then Some stats
             else AnalyzeMemTable_loop cmp (table mt) (length (table mt))
                    (MemIter_SeekToFirst cmp (table mt) MemIter_new) None stats)"

section \<open>The manager\<close>

text \<open>
  Immutable tables are listed oldest first, as the vector holds them. \<open>mm_next\<close> hands out
  addresses; a new table gets a reference on top of its own.
\<close>

record memtable_manager =
  mm_options :: memtable_options
  mutable_memtable :: "memtable option"
  immutable_memtables :: "memtable list"
  mm_next :: nat
  mm_sizeof_table :: nat
  mm_sizeof_entry :: nat

definition CreateNewMemTable :: "memtable_manager \<Rightarrow> memtable_manager" where
  "CreateNewMemTable mm =
     mm\<lparr>mutable_memtable :=
          Some (MemTable_Ref (MemTable_new (mm_next mm) (mm_sizeof_table mm) (mm_sizeof_entry mm) (mm_options mm))),
        mm_next := mm_next mm + 1\<rparr>"

definition MemTableManager_new :: "memtable_options \<Rightarrow> nat \<Rightarrow> nat \<Rightarrow> memtable_manager" where
  "MemTableManager_new options st se =
     CreateNewMemTable \<lparr>mm_options = options, mutable_memtable = None, immutable_memtables = [],
       mm_next = 0, mm_sizeof_table = st, mm_sizeof_entry = se\<rparr>"

definition MemTableManager_Put ::
    "(bytes \<Rightarrow> bytes \<Rightarrow> int) \<Rightarrow> memtable_manager \<Rightarrow> bytes \<Rightarrow> bytes \<Rightarrow> u64 \<Rightarrow> status \<times> memtable_manager" where
  "MemTableManager_Put cmp mm key value sequence =
     (case mutable_memtable mm of
        None \<Rightarrow> (InvalidArgument ''No mutable MemTable available'', mm)
      | Some mt \<Rightarrow> (let (s, mt') = MemTable_Put cmp mt key value sequence
                    in (s, mm\<lparr>mutable_memtable := Some mt'\<rparr>)))"

definition MemTableManager_Delete ::
    "(bytes \<Rightarrow> bytes \<Rightarrow> int) \<Rightarrow> memtable_manager \<Rightarrow> bytes \<Rightarrow> u64 \<Rightarrow> status \<times> memtable_manager" where
  "MemTableManager_Delete cmp mm key sequence =
     (case mutable_memtable mm of
        None \<Rightarrow> (InvalidArgument ''No mutable MemTable available'', mm)
      | Some mt \<Rightarrow> (let (s, mt') = MemTable_Delete cmp mt key sequence
                    in (s, mm\<lparr>mutable_memtable := Some mt'\<rparr>)))"

definition MemTableManager_Merge ::
    "(bytes \<Rightarrow> bytes \<Rightarrow> int) \<Rightarrow> memtable_manager \<Rightarrow> bytes \<Rightarrow> bytes \<Rightarrow> u64 \<Rightarrow> status \<times> memtable_manager" where
  "MemTableManager_Merge cmp mm key value sequence =
     (case mutable_memtable mm of
        None \<Rightarrow> (InvalidArgument ''No mutable MemTable available'', mm)
      | Some mt \<Rightarrow> (let (s, mt') = MemTable_Merge cmp mt key value sequence
                    in (s, mm\<lparr>mutable_memtable := Some mt'\<rparr>)))"

text \<open>
  \<open>Get\<close>, for callers that pass both pointers (the code dereferences \<open>status\<close>
  unconditionally after a hit in the mutable table).
\<close>

fun immutable_Get_loop ::
    "(bytes \<Rightarrow> bytes \<Rightarrow> int) \<Rightarrow> memtable list \<Rightarrow> bytes \<Rightarrow> bytes option \<Rightarrow> status option \<Rightarrow> u64
     \<Rightarrow> bool \<times> bytes option \<times> status option" where
  "immutable_Get_loop cmp [] key value st snapshot =
     (False, value, map_option (\<lambda>_. NotFound ''Key not found'') st)"
| "immutable_Get_loop cmp (mt # mts) key value st snapshot =
     (let (found, value', st') = MemTable_Get cmp mt key value st snapshot
      in if found then (True, value', st') else immutable_Get_loop cmp mts key value' st' snapshot)"

definition MemTableManager_Get ::
    "(bytes \<Rightarrow> bytes \<Rightarrow> int) \<Rightarrow> memtable_manager \<Rightarrow> bytes \<Rightarrow> bytes option \<Rightarrow> status option \<Rightarrow> u64
     \<Rightarrow> bool \<times> bytes option \<times> status option" where
  "MemTableManager_Get cmp mm key value st snapshot =
     (case mutable_memtable mm of
        None \<Rightarrow> immutable_Get_loop cmp (rev (immutable_memtables mm)) key value st snapshot
      | Some mt \<Rightarrow>
          (let (found, value', st') = MemTable_Get cmp mt key value st snapshot
           in if found \<and> (case st' of Some s \<Rightarrow> \<not> IsMergeInProgress s | None \<Rightarrow> False)
              then (True, value', st')
              else immutable_Get_loop cmp (rev (immutable_memtables mm)) key value' st' snapshot))"

definition MemTableManager_SwitchMemTable :: "memtable_manager \<Rightarrow> status \<times> memtable_manager" where
  "MemTableManager_SwitchMemTable mm =
     (case mutable_memtable mm of
        None \<Rightarrow> (InvalidArgument ''No mutable MemTable to switch'', mm)
      | Some mt \<Rightarrow>
          if int (length (immutable_memtables mm))
               \<ge> (int (max_write_buffer_number (mm_options mm)) - 1) mod 2 ^ 64
          then (TryAgain ''Too many immutable MemTables'', mm)
          else (OK, CreateNewMemTable (mm\<lparr>immutable_memtables :=
                  immutable_memtables mm @ [MemTable_SetImmutable mt], mutable_memtable := None\<rparr>)))"

definition MemTableManager_TotalMemoryUsage :: "memtable_manager \<Rightarrow> nat" where
  "MemTableManager_TotalMemoryUsage mm =
     (case mutable_memtable mm of None \<Rightarrow> 0 | Some mt \<Rightarrow> memory_usage mt)
     + sum_list (map memory_usage (immutable_memtables mm))"

definition MemTableManager_ShouldSwitchMemTable :: "memtable_manager \<Rightarrow> bool" where
  "MemTableManager_ShouldSwitchMemTable mm =
     (case mutable_memtable mm of None \<Rightarrow> False | Some mt \<Rightarrow> MemTable_ShouldFlush mt)"

definition GetMemTableForFlush :: "memtable_manager \<Rightarrow> memtable option" where
  "GetMemTableForFlush mm =
     (case immutable_memtables mm of [] \<Rightarrow> None | mt # _ \<Rightarrow> Some mt)"

fun erase_memtable :: "nat \<Rightarrow> memtable list \<Rightarrow> memtable list option" where
  "erase_memtable addr [] = None"
| "erase_memtable addr (mt # mts) =
     (if mt_id mt = addr then Some mts else map_option (\<lambda>ms. mt # ms) (erase_memtable addr mts))"

definition CompleteFlushedMemTable :: "memtable_manager \<Rightarrow> nat \<Rightarrow> status \<times> memtable_manager" where
  "CompleteFlushedMemTable mm addr =
     (case erase_memtable addr (immutable_memtables mm) of
        Some mts \<Rightarrow> (OK, mm\<lparr>immutable_memtables := mts\<rparr>)
      | None \<Rightarrow> (NotFound ''MemTable not found in immutable list'', mm))"

definition MemTableManager_UpdateOptions :: "memtable_options \<Rightarrow> memtable_manager \<Rightarrow> memtable_manager" where
  "MemTableManager_UpdateOptions new_options mm = mm\<lparr>mm_options := new_options\<rparr>"

section \<open>The order of internal keys\<close>

lemma parsed:
  assumes "8 \<le> length k"
  obtains uk s t where "ParseInternalKey k = Some (uk, s, t)" "k = InternalKey uk s t" "take_bit 56 s = s"
proof -
  have "ParseInternalKey k \<noteq> None" using assms by (simp add: ParseInternalKey_None)
  then obtain uk s t where p: "ParseInternalKey k = Some (uk, s, t)" by auto
  then have k: "PutInternalKey [] uk s t = k" by (rule Put_ParseInternalKey)
  then have "take_bit 56 s = s" using p ParseInternalKey_Put [of uk s t] by simp
  then show thesis using that [OF p] k by (simp add: InternalKey_def)
qed

lemma InternalKey_parts [simp]:
  "InternalKey_user_key (InternalKey uk s t) = uk"
  "InternalKey_sequence (InternalKey uk s t) = take_bit 56 s"
  "InternalKey_type (InternalKey uk s t) = t"
  by (simp_all add: InternalKey_user_key_def InternalKey_sequence_def InternalKey_type_def InternalKey_def)

lemma Parse_InternalKey [simp]: "ParseInternalKey (InternalKey uk s t) = Some (uk, take_bit 56 s, t)"
  by (simp add: InternalKey_def)

lemma length_InternalKey [simp]: "length (InternalKey uk s t) = length uk + 8"
  by (simp add: InternalKey_def PutInternalKey_def PutFixed64_append [of uk] length_PutFixed64)

lemma InternalKey_take: "InternalKey uk (take_bit 56 s) t = InternalKey uk s t"
  using Put_ParseInternalKey [OF ParseInternalKey_Put [of uk s t]] by (simp add: InternalKey_def)

lemma InternalKey_inject:
  "InternalKey uk s t = InternalKey uk' s' t' \<longleftrightarrow> uk = uk' \<and> take_bit 56 s = take_bit 56 s' \<and> t = t'"
  by (metis InternalKey_parts InternalKey_take)

definition seq_type_cmp :: "u64 \<Rightarrow> byte \<Rightarrow> u64 \<Rightarrow> byte \<Rightarrow> int" where
  "seq_type_cmp s t s' t' =
     (if s' < s then -1 else if s < s' then 1 else int (unat t) - int (unat t'))"

lemma Compare_InternalKey:
  "InternalKeyComparator_Compare cmp (InternalKey uk s t) (InternalKey uk' s' t') =
     (if cmp uk uk' \<noteq> 0 then cmp uk uk'
      else seq_type_cmp (take_bit 56 s) t (take_bit 56 s') t')"
  by (simp add: InternalKeyComparator_Compare_def seq_type_cmp_def Let_def)

lemma InternalKey_Compare_eq:
  assumes "8 \<le> length a" "8 \<le> length b"
  shows "InternalKey_Compare cmp a b = InternalKeyComparator_Compare cmp a b"
  using assms
  by (elim parsed) (simp add: InternalKey_Compare_def Compare_InternalKey seq_type_cmp_def Let_def)

locale user_order = strict_key_order cmp "\<lambda>_. True" for cmp :: "bytes \<Rightarrow> bytes \<Rightarrow> int"
begin

abbreviation icmp :: "bytes \<Rightarrow> bytes \<Rightarrow> int" where
  "icmp \<equiv> InternalKeyComparator_Compare cmp"

abbreviation ikey :: "bytes \<Rightarrow> bool" where "ikey k \<equiv> 8 \<le> length k"

lemma ucmp_eq_0: "cmp a b = 0 \<longleftrightarrow> a = b"
  using cmp_refl cmp_eq by auto

lemma seq_type_cmp_facts:
  "seq_type_cmp s t s t = 0"
  "seq_type_cmp s t s' t' < 0 \<longleftrightarrow> 0 < seq_type_cmp s' t' s t"
  "seq_type_cmp s t s' t' = 0 \<longleftrightarrow> s = s' \<and> t = t'"
  "seq_type_cmp s t s' t' \<le> 0 \<Longrightarrow> seq_type_cmp s' t' s'' t'' \<le> 0 \<Longrightarrow> seq_type_cmp s t s'' t'' \<le> 0"
  unfolding seq_type_cmp_def word_less_def word_uint_eq_iff of_nat_unat
  by (auto split: if_splits)

end

sublocale user_order \<subseteq> internal: strict_key_order "InternalKeyComparator_Compare cmp" "\<lambda>k. 8 \<le> length k"
proof unfold_locales
  fix a b c :: bytes
  assume a: "8 \<le> length a"
  show "icmp a a = 0"
    using a by (elim parsed) (simp add: Compare_InternalKey seq_type_cmp_facts cmp_refl)
  assume b: "8 \<le> length b"
  show "icmp a b < 0 \<longleftrightarrow> 0 < icmp b a"
    using a b by (elim parsed)
      (auto simp: Compare_InternalKey seq_type_cmp_facts ucmp_eq_0 cmp_sym)
  show "icmp a b = 0 \<Longrightarrow> a = b"
    using a b by (elim parsed)
      (auto simp: Compare_InternalKey seq_type_cmp_facts ucmp_eq_0 split: if_splits)
  assume c: "8 \<le> length c"
  show "icmp a b \<le> 0 \<Longrightarrow> icmp b c \<le> 0 \<Longrightarrow> icmp a c \<le> 0"
  proof -
    assume le: "icmp a b \<le> 0" "icmp b c \<le> 0"
    obtain ua sa ta where A: "a = InternalKey ua sa ta" using a by (elim parsed)
    obtain ub sb tb where B: "b = InternalKey ub sb tb" using b by (elim parsed)
    obtain uc sc tc where C: "c = InternalKey uc sc tc" using c by (elim parsed)
    have t: "cmp ua ub \<le> 0" "cmp ub uc \<le> 0"
      using le by (auto simp: A B C Compare_InternalKey split: if_splits)
    then have tr: "cmp ua uc \<le> 0" using cmp_trans by blast
    show ?thesis
    proof (cases "ua = uc")
      case False
      then show ?thesis using tr by (simp add: A C Compare_InternalKey ucmp_eq_0)
    next
      case True
      then have "cmp ua ub = 0" using t cmp_sym [of ua ub] by auto
      then have "ua = ub" by (simp add: ucmp_eq_0)
      then show ?thesis using le True
        by (auto simp: A B C Compare_InternalKey cmp_refl intro: seq_type_cmp_facts(4))
    qed
  qed
qed

interpretation bytewise_user: user_order Bytewise_Compare
  by unfold_locales

interpretation reverse_user: user_order Reverse_Compare
  by unfold_locales

section \<open>A lookup answers with the newest visible version\<close>

context strict_key_order
begin

lemma map_of_ordered_insert:
  assumes "\<forall>p \<in> set xs. okey (fst p)" "okey k"
  shows "map_of (ordered_insert cmp k v xs) = (map_of xs)(k \<mapsto> v)"
  using assms(1)
proof (induction xs)
  case (Cons p xs)
  obtain k' v' where p: "p = (k', v')" by force
  have k': "okey k'" using Cons.prems p by simp
  show ?case
  proof (cases "k' = k")
    case True
    then show ?thesis using p assms(2) by (simp add: cmp_refl fun_eq_iff)
  next
    case False
    then have "cmp k' k \<noteq> 0" using cmp_eq [OF k' assms(2)] by blast
    then show ?thesis using Cons False p by (auto simp: fun_upd_twist)
  qed
qed simp

lemma set_ordered_insert_strict:
  "\<forall>p \<in> set xs. okey (fst p) \<Longrightarrow> okey k \<Longrightarrow> q \<in> set (ordered_insert cmp k v xs) \<Longrightarrow>
   q = (k, v) \<or> q \<in> set xs"
  by (induction xs) (auto split: if_splits dest: cmp_eq)

lemma ordered_lookup_map_of:
  assumes "ordered_by cmp okey xs" "okey k"
  shows "ordered_lookup cmp k xs = map_of xs k"
  using assms(1)
proof (induction xs)
  case (Cons p xs)
  obtain k' v' where p: "p = (k', v')" by force
  have k': "okey k'" and xs: "ordered_by cmp okey xs" using Cons.prems p by (auto simp: ordered_by_def)
  have IH: "ordered_lookup cmp k xs = map_of xs k" using Cons.IH [OF xs] .
  consider "cmp k' k < 0" | "cmp k' k = 0" | "0 < cmp k' k" by linarith
  then show ?case
  proof cases
    case 1
    then have "k' \<noteq> k" using cmp_refl assms(2) by auto
    then show ?thesis using 1 IH p by (simp add: ordered_lookup_def ordered_seek_def)
  next
    case 2
    then have "k' = k" using cmp_eq [OF k' assms(2)] by blast
    then show ?thesis using 2 p by (simp add: ordered_lookup_def ordered_seek_def)
  next
    case 3
    have "cmp k k' < 0" using 3 cmp_sym [OF assms(2) k'] by simp
    have "k \<noteq> fst q" if "q \<in> set xs" for q
    proof -
      have "cmp k' (fst q) < 0" "okey (fst q)" using Cons.prems p that by (auto simp: ordered_by_def)
      then have "cmp k (fst q) < 0" using cmp_less_trans [of k k' "fst q"] \<open>cmp k k' < 0\<close> k' assms(2) by blast
      then show ?thesis using cmp_refl [OF assms(2)] by auto
    qed
    then have "map_of xs k = None" by (auto simp: map_of_eq_None_iff)
    moreover have "k' \<noteq> k" using 3 cmp_refl [OF assms(2)] by auto
    ultimately show ?thesis using 3 p by (simp add: ordered_lookup_def ordered_seek_def)
  qed
qed (simp add: ordered_lookup_def ordered_seek_def)

end

text \<open>
  The invariant of a memtable and its abstraction: the map from user key, sequence number
  and type to the value written under them.
\<close>

definition mt_ok :: "(bytes \<Rightarrow> bytes \<Rightarrow> int) \<Rightarrow> memtable \<Rightarrow> bool" where
  "mt_ok cmp mt \<longleftrightarrow>
     ordered_by (InternalKeyComparator_Compare cmp) (\<lambda>k. 8 \<le> length k) (table mt) \<and>
     (\<forall>p \<in> set (table mt). e_key (snd p) = fst p \<and> InternalKey_type (fst p) \<in> {kValue, kDeletion, kMerge})"

definition versions :: "memtable \<Rightarrow> bytes \<Rightarrow> u64 \<Rightarrow> byte \<Rightarrow> bytes option" where
  "versions mt uk s t = map_option e_value (map_of (table mt) (InternalKey uk s t))"

definition visible_at :: "u64 \<Rightarrow> u64 \<Rightarrow> bool" where
  "visible_at snapshot s \<longleftrightarrow> snapshot = 0 \<or> s \<le> snapshot"

text \<open>What a lookup answers when \<open>(type, value)\<close> is the version it should see.\<close>

definition answer :: "bool \<Rightarrow> (byte \<times> bytes) option \<Rightarrow> bytes option \<Rightarrow> status option
    \<Rightarrow> bool \<times> bytes option \<times> status option" where
  "answer merge r value st =
     (case r of
        None \<Rightarrow> (False, value, map_option (\<lambda>_. NotFound ''Key not found'') st)
      | Some (t, v) \<Rightarrow>
          if t = kValue then (True, get_store merge v value, map_option (\<lambda>_. OK) st)
          else if t = kDeletion
          then (if st \<noteq> None \<and> merge then (True, value, Some OK)
                else (False, value, map_option (\<lambda>_. Deleted ''Key was deleted'') st))
          else (True, get_store merge v value, map_option (\<lambda>_. MergerInProgress '''') st))"

definition version_of :: "bytes \<times> entry \<Rightarrow> byte \<times> bytes" where
  "version_of p = (InternalKey_type (fst p), e_value (snd p))"

definition wanted :: "bytes \<Rightarrow> u64 \<Rightarrow> bytes \<times> entry \<Rightarrow> bool" where
  "wanted key snapshot p \<longleftrightarrow>
     InternalKey_user_key (fst p) = key \<and> visible_at snapshot (InternalKey_sequence (fst p))"

lemma MemTable_new_ok: "mt_ok cmp (MemTable_new a st se o')"
  by (simp add: mt_ok_def MemTable_new_def ordered_by_def)

lemma versions_new [simp]: "versions (MemTable_new a st se o') = (\<lambda>_ _ _. None)"
  by (simp add: versions_def MemTable_new_def fun_eq_iff)

lemma table_CreateEntry [simp]:
  "table (snd (MemTable_CreateEntry mt k v)) = table mt"
  "fst (MemTable_CreateEntry mt k v) = \<lparr>e_key = k, e_value = v\<rparr>"
  by (simp_all add: MemTable_CreateEntry_def)

lemma table_insert_fields [simp]:
  "table (table_insert cmp k e mt) = ordered_insert (InternalKeyComparator_Compare cmp) k e (table mt)"
  "num_entries (table_insert cmp k e mt) = num_entries mt + 1"
  "immutable (table_insert cmp k e mt) = immutable mt"
  by (simp_all add: table_insert_def)

context user_order
begin

lemma ordered_table: "mt_ok cmp mt \<Longrightarrow> ordered_by icmp ikey (table mt)"
  by (simp add: mt_ok_def)

lemma table_keys: "mt_ok cmp mt \<Longrightarrow> p \<in> set (table mt) \<Longrightarrow> ikey (fst p)"
  by (simp add: mt_ok_def ordered_by_def)

lemma insert_ok:
  assumes "mt_ok cmp mt" "table mt' = ordered_insert icmp (InternalKey key s t) \<lparr>e_key = InternalKey key s t, e_value = v\<rparr> (table mt)"
    "t \<in> {kValue, kDeletion, kMerge}"
  shows "mt_ok cmp mt'"
    "take_bit 56 s = s \<Longrightarrow> take_bit 56 s' = s' \<Longrightarrow>
     versions mt' uk s' t' = (if uk = key \<and> s' = s \<and> t' = t then Some v else versions mt uk s' t')"
proof -
  have len: "ikey (InternalKey key s t)" by simp
  have "\<forall>p \<in> set (table mt). ikey (fst p)" using assms(1) table_keys by blast
  note set' = internal.set_ordered_insert_strict [OF this len]
  show "mt_ok cmp mt'"
    unfolding mt_ok_def
  proof (intro conjI ballI)
    show "ordered_by icmp ikey (table mt')"
      unfolding assms(2) by (intro internal.ordered_insert_ordered ordered_table [OF assms(1)] len)
    fix p assume "p \<in> set (table mt')"
    then have "p = (InternalKey key s t, \<lparr>e_key = InternalKey key s t, e_value = v\<rparr>) \<or> p \<in> set (table mt)"
      unfolding assms(2) by (rule set')
    then show "e_key (snd p) = fst p" "InternalKey_type (fst p) \<in> {kValue, kDeletion, kMerge}"
      using assms(1,3) by (auto simp: mt_ok_def)
  qed
  have "map_of (table mt') = (map_of (table mt))(InternalKey key s t \<mapsto> \<lparr>e_key = InternalKey key s t, e_value = v\<rparr>)"
    unfolding assms(2)
    using assms(1) by (intro internal.map_of_ordered_insert) (simp_all add: mt_ok_def ordered_by_def)
  then show "take_bit 56 s = s \<Longrightarrow> take_bit 56 s' = s' \<Longrightarrow>
     versions mt' uk s' t' = (if uk = key \<and> s' = s \<and> t' = t then Some v else versions mt uk s' t')"
    by (auto simp: versions_def InternalKey_inject)
qed


lemma write_ok:
  assumes "mt_ok cmp mt"
  shows "mt_ok cmp (snd (MemTable_Put cmp mt key v s))"
    "mt_ok cmp (snd (MemTable_Delete cmp mt key s))"
    "mt_ok cmp (snd (MemTable_Merge cmp mt key v s))"
  using assms insert_ok(1) [OF assms]
  by (auto simp: MemTable_Put_def MemTable_Delete_def MemTable_Merge_def MemTable_CreateEntry_def Let_def)

lemma write_versions:
  assumes "mt_ok cmp mt" "\<not> immutable mt" "take_bit 56 s = s" "take_bit 56 s' = s'"
  shows "versions (snd (MemTable_Put cmp mt key v s)) uk s' t' =
      (if uk = key \<and> s' = s \<and> t' = kValue then Some v else versions mt uk s' t')"
    "versions (snd (MemTable_Delete cmp mt key s)) uk s' t' =
      (if uk = key \<and> s' = s \<and> t' = kDeletion then Some [] else versions mt uk s' t')"
    "versions (snd (MemTable_Merge cmp mt key v s)) uk s' t' =
      (if uk = key \<and> s' = s \<and> t' = kMerge then Some v else versions mt uk s' t')"
  using assms(2) insert_ok(2) [OF assms(1) _ _ assms(3,4)]
  by (auto simp: MemTable_Put_def MemTable_Delete_def MemTable_Merge_def MemTable_CreateEntry_def Let_def)

lemma lookup_table:
  assumes "mt_ok cmp mt" "p \<in> set (table mt)"
  shows "ordered_lookup icmp (fst p) (table mt) = Some (snd p)"
proof -
  have "distinct (map fst (table mt))"
  proof -
    have "sorted_wrt (\<lambda>p q. icmp (fst p) (fst q) < 0) xs \<Longrightarrow> \<forall>p \<in> set xs. ikey (fst p) \<Longrightarrow> distinct (map fst xs)"
      for xs :: "(bytes \<times> entry) list"
    proof (induction xs)
      case (Cons a xs)
      then show ?case using internal.cmp_refl [of "fst a"] by fastforce
    qed simp
    then show ?thesis using assms(1) by (simp add: mt_ok_def ordered_by_def)
  qed
  then have "map_of (table mt) (fst p) = Some (snd p)" using assms(2) by (simp add: map_of_eq_Some_iff)
  then show ?thesis
    using internal.ordered_lookup_map_of [OF ordered_table [OF assms(1)] table_keys [OF assms]] by simp
qed

lemma Get_loop_find:
  assumes "mt_ok cmp mt" "set xs \<subseteq> set (table mt)" "sorted_wrt (\<lambda>p q. icmp (fst p) (fst q) < 0) xs"
    "\<forall>p \<in> set xs. cmp key (InternalKey_user_key (fst p)) \<le> 0"
  shows "MemTable_Get_loop cmp (table mt) key merge snapshot xs value st =
    answer merge (map_option version_of (find (wanted key snapshot) xs)) value st"
  using assms(2-4)
proof (induction xs)
  case (Cons p xs)
  have p: "p \<in> set (table mt)" using Cons.prems by simp
  then have e: "e_key (snd p) = fst p" "InternalKey_type (fst p) \<in> {kValue, kDeletion, kMerge}"
    using assms(1) by (auto simp: mt_ok_def)
  note l = lookup_table [OF assms(1) p]
  have IH: "MemTable_Get_loop cmp (table mt) key merge snapshot xs value st =
    answer merge (map_option version_of (find (wanted key snapshot) xs)) value st"
    using Cons by simp
  show ?case
  proof (cases "InternalKey_user_key (fst p) = key")
    case True
    then have c: "slice_compare (InternalKey_user_key (fst p)) key = 0" by (simp add: slice_compare_lex)
    show ?thesis
    proof (cases "visible_at snapshot (InternalKey_sequence (fst p))")
      case vis: True
      then have "\<not> (0 < snapshot \<and> snapshot < InternalKey_sequence (fst p))"
        by (auto simp: visible_at_def)
      then show ?thesis using e(2) vis True c
        by (auto simp: l e(1) wanted_def answer_def version_of_def value_types)
    next
      case False
      then have "0 < snapshot \<and> snapshot < InternalKey_sequence (fst p)"
        by (auto simp: visible_at_def word_neq_0_conv)
      moreover have "\<not> wanted key snapshot p" using False by (simp add: wanted_def)
      ultimately show ?thesis using IH by (simp add: l e(1) c)
    qed
  next
    case False
    have later: "InternalKey_user_key (fst q) \<noteq> key" if q: "q \<in> set xs" for q
    proof
      assume k: "InternalKey_user_key (fst q) = key"
      have lt: "icmp (fst p) (fst q) < 0" using Cons.prems(2) q by simp
      obtain up sp tp where P: "fst p = InternalKey up sp tp"
        using table_keys [OF assms(1) p] by (elim parsed)
      have "q \<in> set (table mt)" using Cons.prems(1) q by auto
      then have "ikey (fst q)" using table_keys [OF assms(1)] by blast
      then obtain uq sq tq where Q: "fst q = InternalKey uq sq tq" by (elim parsed)
      have "cmp up key \<le> 0" using lt k by (auto simp: P Q Compare_InternalKey split: if_splits)
      moreover have "cmp key up \<le> 0" using Cons.prems(3) by (simp add: P)
      ultimately have "cmp up key = 0" using cmp_sym [of up key] by auto
      then show False using False by (simp add: P ucmp_eq_0)
    qed
    then have "\<forall>q \<in> set (p # xs). \<not> wanted key snapshot q"
      using False by (simp add: wanted_def)
    then have "find (wanted key snapshot) (p # xs) = None" by (metis find_None_iff)
    then show ?thesis using False by (auto simp: l e(1) slice_compare_lex answer_def)
  qed
qed (simp add: answer_def)


lemma seek_keys:
  assumes "mt_ok cmp mt" "p \<in> set (ordered_seek icmp (InternalKey key (-1) kValue) (table mt))"
  shows "cmp key (InternalKey_user_key (fst p)) \<le> 0"
proof -
  have len: "ikey (InternalKey key (-1) kValue)" by simp
  have p: "p \<in> set (table mt)" using assms(2) set_dropWhileD by (fastforce simp: ordered_seek_def)
  have nb: "\<not> icmp (fst p) (InternalKey key (-1) kValue) < 0"
    by (rule internal.ordered_seek_not_before [OF ordered_table [OF assms(1)] len assms(2)])
  obtain up sp tp where P: "fst p = InternalKey up sp tp"
    using table_keys [OF assms(1) p] by (elim parsed)
  have "\<not> cmp up key < 0" using nb by (auto simp: P Compare_InternalKey split: if_splits)
  then show ?thesis using cmp_sym [of up key] cmp_sym [of key up] by (simp add: P)
qed

lemma before_seek:
  assumes "mt_ok cmp mt" "p \<in> set (table mt)" "icmp (fst p) (InternalKey key (-1) kValue) < 0"
  shows "InternalKey_user_key (fst p) \<noteq> key"
proof
  assume k: "InternalKey_user_key (fst p) = key"
  obtain up sp tp where P: "fst p = InternalKey up sp tp" "take_bit 56 sp = sp"
    using table_keys [OF assms(1,2)] by (elim parsed)
  have t: "tp \<in> {kValue, kDeletion, kMerge}" using assms(1,2) P(1) by (fastforce simp: mt_ok_def)
  have "take_bit 56 (-1) = (mask 56 :: u64)" by simp
  moreover have "sp AND mask 56 \<le> mask 56" by (rule word_and_le1)
  then have "sp \<le> mask 56" using P(2) by (simp add: take_bit_eq_mask)
  ultimately have "\<not> take_bit 56 (-1) < sp" by simp
  then show False using assms(3) k t
    by (auto simp: P Compare_InternalKey seq_type_cmp_def cmp_refl value_types split: if_splits)
qed

lemma Get_finds:
  assumes "mt_ok cmp mt"
  shows "MemTable_Get cmp mt key value st snapshot =
    answer (case st of Some s \<Rightarrow> IsMergeInProgress s | None \<Rightarrow> False)
      (map_option version_of (find (wanted key snapshot) (table mt))) value st"
proof -
  let ?k = "InternalKey key (-1) kValue"
  let ?s = "ordered_seek icmp ?k (table mt)"
  have "table mt = takeWhile (\<lambda>p. icmp (fst p) ?k < 0) (table mt) @ ?s"
    by (simp add: ordered_seek_def)
  moreover have "find (wanted key snapshot) (takeWhile (\<lambda>p. icmp (fst p) ?k < 0) (table mt)) = None"
    using before_seek [OF assms] set_takeWhileD by (fastforce simp: find_None_iff wanted_def)
  moreover have "find P (xs @ ys) = (case find P xs of None \<Rightarrow> find P ys | Some x \<Rightarrow> Some x)"
    for P and xs ys :: "(bytes \<times> entry) list" by (induction xs) auto
  ultimately have f: "find (wanted key snapshot) (table mt) = find (wanted key snapshot) ?s"
    by (metis option.simps(4))
  have "sorted_wrt (\<lambda>p q. icmp (fst p) (fst q) < 0) (table mt)"
    using assms by (simp add: mt_ok_def ordered_by_def)
  then have srt: "sorted_wrt (\<lambda>p q. icmp (fst p) (fst q) < 0) ?s"
    unfolding ordered_seek_def by (subst (asm) takeWhile_dropWhile_split
      [of _ "\<lambda>p. icmp (fst p) ?k < 0"]) (simp only: sorted_wrt_append)
  have sub: "set ?s \<subseteq> set (table mt)" unfolding ordered_seek_def using set_dropWhileD by fast
  show ?thesis unfolding MemTable_Get_def Let_def f
    by (rule Get_loop_find [OF assms sub srt]) (use seek_keys [OF assms] in blast)
qed

lemma versions_entry:
  assumes "mt_ok cmp mt" "take_bit 56 s = s"
  shows "versions mt uk s t = Some v \<longleftrightarrow>
    (\<exists>p \<in> set (table mt). fst p = InternalKey uk s t \<and> e_value (snd p) = v)"
proof -
  have "map_of (table mt) k = Some e \<longleftrightarrow> (k, e) \<in> set (table mt)" for k e
  proof
    assume "(k, e) \<in> set (table mt)"
    then have l: "ordered_lookup icmp k (table mt) = Some e" "ikey k"
      using lookup_table [OF assms(1), of "(k, e)"] table_keys [OF assms(1), of "(k, e)"] by auto
    show "map_of (table mt) k = Some e"
      using internal.ordered_lookup_map_of [OF ordered_table [OF assms(1)] l(2)] l(1) by simp
  qed (rule map_of_SomeD)
  then show ?thesis by (force simp: versions_def)
qed

text \<open>The lookup answers with the newest visible version.\<close>

lemma Get_newest:
  assumes ok: "mt_ok cmp mt" and s: "take_bit 56 s = s"
    and v: "versions mt key s t = Some v" and vis: "visible_at snapshot s"
    and newest: "\<And>s' t' v'. take_bit 56 s' = s' \<Longrightarrow> versions mt key s' t' = Some v' \<Longrightarrow> visible_at snapshot s' \<Longrightarrow>
      s' < s \<or> s' = s \<and> t \<le> t'"
  shows "MemTable_Get cmp mt key value st snapshot =
    answer (case st of Some c \<Rightarrow> IsMergeInProgress c | None \<Rightarrow> False) (Some (t, v)) value st"
proof -
  obtain p where p: "p \<in> set (table mt)" "fst p = InternalKey key s t" "e_value (snd p) = v"
    using v unfolding versions_entry [OF ok s] by blast
  have w: "wanted key snapshot p" using vis s by (simp add: wanted_def p(2))
  then have "find (wanted key snapshot) (table mt) \<noteq> None"
    using p(1) by (metis find_None_iff)
  then obtain q where q: "find (wanted key snapshot) (table mt) = Some q" by blast
  then obtain i where i: "i < length (table mt)" "wanted key snapshot (table mt ! i)" "q = table mt ! i"
    "\<And>j. j < i \<Longrightarrow> \<not> wanted key snapshot (table mt ! j)"
    by (auto simp: find_Some_iff)
  have qin: "q \<in> set (table mt)" using i by simp
  obtain uq sq tq where Q: "fst q = InternalKey uq sq tq" "take_bit 56 sq = sq"
    using table_keys [OF ok qin] by (elim parsed)
  have uq: "uq = key" and qvis: "visible_at snapshot sq"
    using i(2,3) Q by (auto simp: wanted_def)
  obtain j where j: "j < length (table mt)" "table mt ! j = p" using p(1) by (metis in_set_conv_nth)
  have "i \<le> j" using i(4) [of j] w j(2) by force
  have "p = q"
  proof (rule ccontr)
    assume "p \<noteq> q"
    then have "i < j" using \<open>i \<le> j\<close> i(3) j(2) by (metis le_neq_implies_less)
    then have "icmp (fst q) (fst p) < 0"
      using ok i(3) j by (auto simp: mt_ok_def ordered_by_def sorted_wrt_iff_nth_less)
    then have "s < sq \<or> s = sq \<and> tq < t"
      using s Q(2) by (auto simp: p(2) Q uq Compare_InternalKey seq_type_cmp_def cmp_refl word_less_def word_uint_eq_iff
          split: if_splits)
    moreover have "versions mt key sq tq = Some (e_value (snd q))"
      using qin Q(1) uq unfolding versions_entry [OF ok Q(2)] by blast
    ultimately show False using newest [OF Q(2) _ qvis] by fastforce
  qed
  then have "version_of q = (t, v)" using p(2,3) by (simp add: version_of_def)
  then show ?thesis using q unfolding Get_finds [OF ok] by simp
qed

lemma Get_absent:
  assumes ok: "mt_ok cmp mt"
    and none: "\<And>s t. take_bit 56 s = s \<Longrightarrow> visible_at snapshot s \<Longrightarrow> versions mt key s t = None"
  shows "MemTable_Get cmp mt key value st snapshot =
    (False, value, map_option (\<lambda>_. NotFound ''Key not found'') st)"
proof -
  have "\<not> wanted key snapshot p" if p: "p \<in> set (table mt)" for p
  proof
    assume w: "wanted key snapshot p"
    obtain up sp tp where P: "fst p = InternalKey up sp tp" "take_bit 56 sp = sp"
      using table_keys [OF ok p] by (elim parsed)
    have "versions mt key sp tp = Some (e_value (snd p))"
      using p P w unfolding versions_entry [OF ok P(2)] by (auto simp: wanted_def)
    then show False using none [OF P(2), of tp] w by (simp add: wanted_def P)
  qed
  then have "find (wanted key snapshot) (table mt) = None" by (simp add: find_None_iff)
  then show ?thesis unfolding Get_finds [OF ok] by (simp add: answer_def)
qed

end

section \<open>The iterator, the flush and the validation\<close>

declare MemTable_Flush_loop.simps [simp del] MemTable_Validate_loop.simps [simp del] AnalyzeMemTable_loop.simps [simp del]

text \<open>What a flush must do: hand every entry to the writer, in order, up to the first error.\<close>

fun add_all :: "('w \<Rightarrow> bytes \<Rightarrow> bytes \<Rightarrow> status \<times> 'w) \<Rightarrow> (bytes \<times> entry) list \<Rightarrow> 'w \<Rightarrow> status \<times> 'w" where
  "add_all Add [] w = (OK, w)"
| "add_all Add (p # ps) w =
     (let (s, w') = Add w (fst p) (e_value (snd p))
      in if ok s then add_all Add ps w' else (s, w'))"

text \<open>The iterator positioned at index \<open>i\<close> of a table (past the end, not valid).\<close>

definition mem_at :: "(bytes \<times> entry) list \<Rightarrow> nat \<Rightarrow> mem_iter \<Rightarrow> bool" where
  "mem_at tbl i it \<longleftrightarrow>
     ok (it_status it) \<and>
     (if i < length tbl
      then it_pos it = Some i \<and> it_valid it \<and>
           InternalKey (cur_key it) (cur_seq it) (cur_type it) = fst (tbl ! i) \<and>
           cur_key it = InternalKey_user_key (fst (tbl ! i)) \<and>
           cur_type it = InternalKey_type (fst (tbl ! i)) \<and>
           cur_value it = e_value (snd (tbl ! i))
      else it_pos it = None \<and> \<not> it_valid it)"

lemma mem_at_Valid: "mem_at tbl i it \<Longrightarrow> MemIter_Valid it \<longleftrightarrow> i < length tbl"
  by (auto simp: mem_at_def MemIter_Valid_def split: if_splits)

lemma mem_at_status: "mem_at tbl i it \<Longrightarrow> ok (it_status it)"
  by (simp add: mem_at_def)

lemma mem_at_pos: "mem_at tbl i it \<Longrightarrow> i < length tbl \<Longrightarrow> it_pos it = Some i"
  by (simp add: mem_at_def)

context user_order
begin

lemma mem_at_update:
  assumes "mt_ok cmp mt" "ok (it_status it)" "it_pos it = list_pos (table mt) i"
  shows "mem_at (table mt) i (MemIter_UpdateCurrentEntry cmp (table mt) it)"
proof (cases "i < length (table mt)")
  case True
  let ?p = "table mt ! i"
  have p: "?p \<in> set (table mt)" using True by simp
  obtain u s t where P: "fst ?p = InternalKey u s t"
    using table_keys [OF assms(1) p] by (elim parsed)
  have "e_key (snd ?p) = fst ?p" using assms(1) p by (auto simp: mt_ok_def)
  then show ?thesis
    using True assms(3) lookup_table [OF assms(1) p]
    by (simp add: mem_at_def MemIter_UpdateCurrentEntry_def list_pos_def P InternalKey_take)
next
  case False
  then show ?thesis using assms(2,3)
    by (simp add: mem_at_def MemIter_UpdateCurrentEntry_def list_pos_def)
qed

lemma mem_at_first: "mt_ok cmp mt \<Longrightarrow> ok (it_status it) \<Longrightarrow> mem_at (table mt) 0 (MemIter_SeekToFirst cmp (table mt) it)"
  unfolding MemIter_SeekToFirst_def by (rule mem_at_update) simp_all

lemma mem_at_next: "mt_ok cmp mt \<Longrightarrow> mem_at (table mt) i it \<Longrightarrow> i < length (table mt) \<Longrightarrow>
    mem_at (table mt) (Suc i) (MemIter_Next cmp (table mt) it)"
  using mem_at_update [of mt "it\<lparr>it_pos := list_pos (table mt) (Suc i)\<rparr>" "Suc i"] mem_at_status [of "table mt" i it]
    mem_at_pos [of "table mt" i it] by (simp add: MemIter_Next_def)

lemma mem_at_prev: "mt_ok cmp mt \<Longrightarrow> mem_at (table mt) (Suc i) it \<Longrightarrow> Suc i < length (table mt) \<Longrightarrow>
    mem_at (table mt) i (MemIter_Prev cmp (table mt) it)"
  using mem_at_update [of mt "it\<lparr>it_pos := Some i\<rparr>" i] mem_at_status [of "table mt" "Suc i" it]
    mem_at_pos [of "table mt" "Suc i" it] by (simp add: MemIter_Prev_def list_pos_def)

lemma mem_at_last: "mt_ok cmp mt \<Longrightarrow> ok (it_status it) \<Longrightarrow> table mt \<noteq> [] \<Longrightarrow>
    mem_at (table mt) (length (table mt) - 1) (MemIter_SeekToLast cmp (table mt) it)"
  unfolding MemIter_SeekToLast_def by (rule mem_at_update) (simp_all add: list_pos_def)

lemma mem_at_seek:
  assumes "mt_ok cmp mt" "ok (it_status it)"
  shows "mem_at (table mt) (length (takeWhile (\<lambda>p. cmp (InternalKey_user_key (fst p)) target < 0) (table mt)))
    (MemIter_Seek cmp (table mt) target it)"
proof -
  let ?k = "InternalKey target (-1) kValue"
  have less: "icmp (fst p) ?k < 0 \<longleftrightarrow> cmp (InternalKey_user_key (fst p)) target < 0"
    if p: "p \<in> set (table mt)" for p
  proof -
    obtain u s t where P: "fst p = InternalKey u s t" using table_keys [OF assms(1) p] by (elim parsed)
    then show ?thesis using before_seek [OF assms(1) p, of target]
      by (auto simp: P Compare_InternalKey ucmp_eq_0 cmp_refl)
  qed
  have len: "length (table mt) - length (ordered_seek icmp ?k (table mt)) =
      length (takeWhile (\<lambda>p. icmp (fst p) ?k < 0) (table mt))"
    using takeWhile_dropWhile_split [of "table mt" "\<lambda>p. icmp (fst p) ?k < 0"]
    unfolding ordered_seek_def by (metis diff_add_inverse2 length_append)
  have "takeWhile (\<lambda>p. icmp (fst p) ?k < 0) (table mt) =
      takeWhile (\<lambda>p. cmp (InternalKey_user_key (fst p)) target < 0) (table mt)"
    by (rule takeWhile_cong) (simp_all add: less)
  then show ?thesis unfolding MemIter_Seek_def Let_def len
    by (intro mem_at_update assms) (simp_all add: assms)
qed

lemma Flush_loop:
  "mt_ok cmp mt \<Longrightarrow> mem_at (table mt) i it \<Longrightarrow> i + n = length (table mt) \<Longrightarrow>
   MemTable_Flush_loop cmp (table mt) Add n it w = Some (add_all Add (drop i (table mt)) w)"
proof (induction n arbitrary: i it w)
  case 0
  then show ?case by (simp add: mem_at_Valid MemTable_Flush_loop.simps MemTable_Validate_loop.simps)
next
  case (Suc n)
  then have i: "i < length (table mt)" by simp
  note next' = mem_at_next [OF Suc.prems(1,2) i]
  have d: "drop i (table mt) = table mt ! i # drop (Suc i) (table mt)" by (rule Cons_nth_drop_Suc [OF i, symmetric])
  have c: "InternalKey (cur_key it) (cur_seq it) (cur_type it) = fst (table mt ! i)"
    "cur_value it = e_value (snd (table mt ! i))"
    using Suc.prems(2) i by (auto simp only: mem_at_def if_True)
  have IH: "MemTable_Flush_loop cmp (table mt) Add n (MemIter_Next cmp (table mt) it) w' =
      Some (add_all Add (drop (Suc i) (table mt)) w')" for w'
    using Suc.prems next' by (intro Suc.IH) simp_all
  show ?case using mem_at_Valid [OF Suc.prems(2)] i mem_at_status [OF next']
    by (subst MemTable_Flush_loop.simps) (simp add: d c IH split: prod.splits)
qed

lemma Flush_writes_all:
  assumes "mt_ok cmp mt"
  shows "MemTable_FlushToSSTable cmp mt Add (Some w) =
    Some (let (s, w') = add_all Add (table mt) w in (s, Some w'))"
  using Flush_loop [OF assms mem_at_first [OF assms], of MemIter_new "length (table mt)" Add w]
  by (simp add: MemTable_FlushToSSTable_def MemIter_new_def split: prod.splits)

end

lemma user_key_le:
  assumes "InternalKeyComparator_Compare Bytewise_Compare a b < 0" "8 \<le> length a" "8 \<le> length b"
  shows "InternalKey_user_key a \<le> InternalKey_user_key b"
  using assms(2,3,1) by (elim parsed) (auto simp: Compare_InternalKey Bytewise_Compare_lex split: if_splits)

lemma Validate_loop:
  "mt_ok Bytewise_Compare mt \<Longrightarrow> mem_at (table mt) i it \<Longrightarrow> i + n = length (table mt) \<Longrightarrow>
   (case lst of None \<Rightarrow> i = 0 | Some l \<Rightarrow> 0 < i \<and> l = InternalKey_user_key (fst (table mt ! (i - 1)))) \<Longrightarrow>
   MemTable_Validate_loop Bytewise_Compare (table mt) n it lst c = Some (Some (c + n))"
proof (induction n arbitrary: i it lst c)
  case 0
  then show ?case by (simp add: mem_at_Valid MemTable_Flush_loop.simps MemTable_Validate_loop.simps)
next
  case (Suc n)
  then have i: "i < length (table mt)" by simp
  note next' = bytewise_user.mem_at_next [OF Suc.prems(1,2) i]
  have k: "cur_key it = InternalKey_user_key (fst (table mt ! i))"
    using Suc.prems(2) i by (simp add: mem_at_def)
  have len: "8 \<le> length (fst (table mt ! j))" if "j < length (table mt)" for j
    using bytewise_user.table_keys [OF Suc.prems(1) nth_mem [OF that]] .
  have srt: "InternalKey_user_key (fst (table mt ! (i - 1))) \<le> InternalKey_user_key (fst (table mt ! i))" if "0 < i"
  proof (rule user_key_le)
    show "InternalKeyComparator_Compare Bytewise_Compare (fst (table mt ! (i - 1))) (fst (table mt ! i)) < 0"
      using Suc.prems(1) that i by (auto simp: mt_ok_def ordered_by_def sorted_wrt_iff_nth_less)
  qed (simp_all add: len i less_imp_diff_less)
  have nd: "\<not> (case lst of None \<Rightarrow> False | Some l \<Rightarrow> cur_key it < l)"
    using Suc.prems(4) srt k by (auto split: option.splits)
  have "MemTable_Validate_loop Bytewise_Compare (table mt) n
      (MemIter_Next Bytewise_Compare (table mt) it) (Some (cur_key it)) (c + 1) = Some (Some (c + 1 + n))"
    using Suc.prems(1,3) next' k by (intro Suc.IH [of "Suc i"]) simp_all
  then show ?case using mem_at_Valid [OF Suc.prems(2)] i nd mem_at_status [OF Suc.prems(2)]
    by (subst MemTable_Validate_loop.simps) simp
qed

lemma ValidateStructure_iff:
  assumes "mt_ok Bytewise_Compare mt"
  shows "MemTable_ValidateStructure Bytewise_Compare mt = Some (num_entries mt = length (table mt))"
  using Validate_loop [OF assms bytewise_user.mem_at_first [OF assms], of MemIter_new "length (table mt)" None 0]
  by (simp add: MemTable_ValidateStructure_def MemIter_new_def) auto


section \<open>Histories of writes\<close>

text \<open>A write request, and a memtable after a list of them.\<close>

datatype mem_op = WPut bytes bytes u64 | WDelete bytes u64 | WMerge bytes bytes u64

fun op_key :: "mem_op \<Rightarrow> bytes" where
  "op_key (WPut k v s) = k"
| "op_key (WDelete k s) = k"
| "op_key (WMerge k v s) = k"

fun op_seq :: "mem_op \<Rightarrow> u64" where
  "op_seq (WPut k v s) = s"
| "op_seq (WDelete k s) = s"
| "op_seq (WMerge k v s) = s"

fun op_version :: "mem_op \<Rightarrow> byte \<times> bytes" where
  "op_version (WPut k v s) = (kValue, v)"
| "op_version (WDelete k s) = (kDeletion, [])"
| "op_version (WMerge k v s) = (kMerge, v)"

fun mem_apply :: "(bytes \<Rightarrow> bytes \<Rightarrow> int) \<Rightarrow> mem_op \<Rightarrow> memtable \<Rightarrow> memtable" where
  "mem_apply cmp (WPut k v s) mt = snd (MemTable_Put cmp mt k v s)"
| "mem_apply cmp (WDelete k s) mt = snd (MemTable_Delete cmp mt k s)"
| "mem_apply cmp (WMerge k v s) mt = snd (MemTable_Merge cmp mt k v s)"

definition mem_run :: "(bytes \<Rightarrow> bytes \<Rightarrow> int) \<Rightarrow> mem_op list \<Rightarrow> memtable \<Rightarrow> memtable" where
  "mem_run cmp ops mt = fold (mem_apply cmp) ops mt"

lemma immutable_apply [simp]: "immutable (mem_apply cmp oper mt) = immutable mt"
  by (cases oper) (simp_all add: MemTable_Put_def MemTable_Delete_def MemTable_Merge_def
      MemTable_CreateEntry_def Let_def)

lemma mem_run_immutable [simp]: "immutable (fold (mem_apply cmp) ops mt) = immutable mt"
  by (induction ops arbitrary: mt) simp_all

context user_order
begin

lemma apply_ok: "mt_ok cmp mt \<Longrightarrow> mt_ok cmp (mem_apply cmp oper mt)"
  by (cases oper) (simp_all add: write_ok)

lemma apply_versions:
  assumes "mt_ok cmp mt" "\<not> immutable mt" "take_bit 56 (op_seq oper) = op_seq oper" "take_bit 56 s = s"
  shows "versions (mem_apply cmp oper mt) uk s t =
    (if uk = op_key oper \<and> s = op_seq oper \<and> t = fst (op_version oper) then Some (snd (op_version oper))
     else versions mt uk s t)"
  using assms by (cases oper) (simp_all add: write_versions)

lemma run_ok: "mt_ok cmp mt \<Longrightarrow> mt_ok cmp (mem_run cmp ops mt)"
  unfolding mem_run_def by (induction ops arbitrary: mt) (simp_all add: apply_ok)

lemma run_versions:
  "mt_ok cmp mt \<Longrightarrow> \<not> immutable mt \<Longrightarrow> \<forall>oper \<in> set ops. take_bit 56 (op_seq oper) = op_seq oper \<Longrightarrow>
   take_bit 56 s = s \<Longrightarrow>
   versions (mem_run cmp ops mt) uk s t =
     (case find (\<lambda>oper. uk = op_key oper \<and> s = op_seq oper \<and> t = fst (op_version oper)) (rev ops) of
        Some oper \<Rightarrow> Some (snd (op_version oper)) | None \<Rightarrow> versions mt uk s t)"
proof (induction ops rule: rev_induct)
  case (snoc oper ops)
  then show ?case
    by (simp add: mem_run_def apply_versions run_ok [unfolded mem_run_def] mem_run_immutable)
qed (simp add: mem_run_def)

end

section \<open>Reads of a whole history\<close>

lemma find_rev: "find P (rev xs) = Some x \<Longrightarrow> x \<in> set xs \<and> P x"
  unfolding find_Some_iff by (metis nth_mem set_rev)

context user_order
begin

lemma history_Get:
  assumes ops: "ops = xs @ oper # ys" and seqs: "\<forall>p \<in> set ops. take_bit 56 (op_seq p) = op_seq p"
    and vis: "visible_at snapshot (op_seq oper)"
    and newest: "\<forall>p \<in> set (xs @ ys). op_key p = op_key oper \<and> visible_at snapshot (op_seq p) \<longrightarrow> op_seq p < op_seq oper"
  shows "MemTable_Get cmp (mem_run cmp ops (MemTable_new a st se opts)) (op_key oper) value (Some OK) snapshot =
    answer False (Some (op_version oper)) value (Some OK)"
proof -
  let ?mt = "MemTable_new a st se opts"
  have new: "mt_ok cmp ?mt" "\<not> immutable ?mt" using MemTable_new_ok by (simp_all add: MemTable_new_def)
  note rv = run_versions [OF new seqs]
  have opin: "oper \<in> set ops" and t56: "take_bit 56 (op_seq oper) = op_seq oper" using ops seqs by auto
  have mem: "p = oper \<or> p \<in> set (xs @ ys)" if "p \<in> set ops" for p using that ops by auto
  let ?P = "\<lambda>uk s t p. uk = op_key p \<and> s = op_seq p \<and> t = fst (op_version p)"
  have uniq: "p = oper" if "p \<in> set ops" "op_key p = op_key oper" "op_seq p = op_seq oper" for p
    using mem [OF that(1)] newest that(2,3) vis by fastforce
  have "find (?P (op_key oper) (op_seq oper) (fst (op_version oper))) (rev ops) \<noteq> None"
    using opin unfolding find_None_iff by auto
  then obtain p where p: "find (?P (op_key oper) (op_seq oper) (fst (op_version oper))) (rev ops) = Some p" by blast
  then have "p \<in> set ops \<and> ?P (op_key oper) (op_seq oper) (fst (op_version oper)) p"
    by (rule find_rev)
  then have "p = oper" using uniq by metis
  then have v: "versions (mem_run cmp ops ?mt) (op_key oper) (op_seq oper) (fst (op_version oper)) =
      Some (snd (op_version oper))"
    using rv [OF t56] p by simp
  have "MemTable_Get cmp (mem_run cmp ops ?mt) (op_key oper) value (Some OK) snapshot =
    answer (case Some OK of Some c \<Rightarrow> IsMergeInProgress c | None \<Rightarrow> False)
      (Some (fst (op_version oper), snd (op_version oper))) value (Some OK)"
  proof (rule Get_newest [OF run_ok [OF new(1)] t56 v vis])
    fix s' t' v'
    assume s': "take_bit 56 s' = s'" "visible_at snapshot s'"
      and "versions (mem_run cmp ops ?mt) (op_key oper) s' t' = Some v'"
    then obtain q where "find (?P (op_key oper) s' t') (rev ops) = Some q"
      using rv [OF s'(1), of "op_key oper" t'] by (auto split: option.splits)
    then have "q \<in> set ops \<and> ?P (op_key oper) s' t' q" by (rule find_rev)
    then show "s' < op_seq oper \<or> s' = op_seq oper \<and> fst (op_version oper) \<le> t'"
      using mem newest s'(2) by fastforce
  qed
  then show ?thesis by simp
qed

lemma history_Get_none:
  assumes seqs: "\<forall>p \<in> set ops. take_bit 56 (op_seq p) = op_seq p"
    and none: "\<forall>p \<in> set ops. op_key p = key \<longrightarrow> \<not> visible_at snapshot (op_seq p)"
  shows "MemTable_Get cmp (mem_run cmp ops (MemTable_new a st se opts)) key value (Some OK) snapshot =
    (False, value, Some (NotFound ''Key not found''))"
proof -
  let ?mt = "MemTable_new a st se opts"
  have new: "mt_ok cmp ?mt" "\<not> immutable ?mt" using MemTable_new_ok by (simp_all add: MemTable_new_def)
  have "MemTable_Get cmp (mem_run cmp ops ?mt) key value (Some OK) snapshot =
    (False, value, map_option (\<lambda>_. NotFound ''Key not found'') (Some OK))"
  proof (rule Get_absent [OF run_ok [OF new(1)]])
    fix s t assume s: "take_bit 56 s = s" "visible_at snapshot s"
    have "find (\<lambda>p. key = op_key p \<and> s = op_seq p \<and> t = fst (op_version p)) (rev ops) = None"
      using none s(2) by (auto simp: find_None_iff)
    then show "versions (mem_run cmp ops ?mt) key s t = None"
      using run_versions [OF new seqs s(1)] by simp
  qed
  then show ?thesis by simp
qed

end

lemma answer_shape: "\<exists>f v st. answer m r value (Some s) = (f, v, Some st)"
  by (cases r) (auto simp: answer_def)

section \<open>Theorems\<close>

text \<open>C30: a memtable answers a read with the newest write its snapshot may see. Whatever
  puts, deletes and merges a fresh table received, in any order, if one of them is the newest
  for its key among those with a sequence number up to the snapshot (0 reads everything), then
  \<open>Get\<close> returns its value, reports its deletion, or returns its merge operand with
  \<open>MergeInProgress\<close>.\<close>

theorem memtable_reads_newest:
  assumes "ops = xs @ oper # ys" "\<forall>p \<in> set ops. take_bit 56 (op_seq p) = op_seq p"
    and "visible_at snapshot (op_seq oper)"
    and "\<forall>p \<in> set (xs @ ys). op_key p = op_key oper \<and> visible_at snapshot (op_seq p) \<longrightarrow> op_seq p < op_seq oper"
  shows "MemTable_Get Bytewise_Compare (mem_run Bytewise_Compare ops (MemTable_new a st se opts))
      (op_key oper) (Some old) (Some OK) snapshot =
    (case oper of
       WPut _ v _ \<Rightarrow> (True, Some v, Some OK)
     | WDelete _ _ \<Rightarrow> (False, Some old, Some (Deleted ''Key was deleted''))
     | WMerge _ v _ \<Rightarrow> (True, Some v, Some (MergerInProgress '''')))"
  using bytewise_user.history_Get [OF assms]
  by (cases oper) (simp_all add: answer_def get_store_def value_types)

theorem memtable_reads_newest_witness:
  "MemTable_Get Bytewise_Compare
     (mem_run Bytewise_Compare [WPut [1] [10] 5, WDelete [1] 9, WPut [1] [20] 7, WPut [2] [30] 8]
        (MemTable_new 0 100 50 \<lparr>write_buffer_size = 1, max_write_buffer_number = 2\<rparr>))
     [1] (Some []) (Some OK) 8 = (True, Some [20], Some OK)"
  using memtable_reads_newest [of _ "[WPut [1] [10] 5, WDelete [1] 9]" "WPut [1] [20] 7" "[WPut [2] [30] 8]" 8,
      OF refl, of 0 100 50 "\<lparr>write_buffer_size = 1, max_write_buffer_number = 2\<rparr>" "[]"]
  by (simp add: visible_at_def take_bit_eq_mod)

text \<open>a memtable invents nothing. If no write for the key is visible at the snapshot, the
  read answers \<open>NotFound\<close> (never \<open>Deleted\<close>) and leaves the caller's buffer alone, so the
  search may go on in older tables.\<close>

theorem memtable_reads_nothing_else:
  assumes "\<forall>p \<in> set ops. take_bit 56 (op_seq p) = op_seq p"
    and "\<forall>p \<in> set ops. op_key p = key \<longrightarrow> \<not> visible_at snapshot (op_seq p)"
  shows "MemTable_Get Bytewise_Compare (mem_run Bytewise_Compare ops (MemTable_new a st se opts))
      key (Some old) (Some OK) snapshot = (False, Some old, Some (NotFound ''Key not found''))"
  by (rule bytewise_user.history_Get_none [OF assms])

theorem memtable_reads_nothing_else_witness:
  "MemTable_Get Bytewise_Compare
     (mem_run Bytewise_Compare [WPut [1] [10] 5, WDelete [2] 3]
        (MemTable_new 0 100 50 \<lparr>write_buffer_size = 1, max_write_buffer_number = 2\<rparr>))
     [1] (Some [7]) (Some OK) 4 = (False, Some [7], Some (NotFound ''Key not found''))"
  by (rule memtable_reads_nothing_else) (simp_all add: visible_at_def take_bit_eq_mod)

text \<open>a flush hands the writer every entry of the table exactly once, in key order and
  newest version first, and stops at the writer's first error; it always returns.\<close>

theorem flush_writes_every_entry:
  assumes "mt_ok Bytewise_Compare mt"
  shows "MemTable_FlushToSSTable Bytewise_Compare mt Add (Some w) =
    Some (let (s, w') = add_all Add (table mt) w in (s, Some w'))"
  by (rule bytewise_user.Flush_writes_all [OF assms])

theorem flush_writes_every_entry_witness:
  "MemTable_FlushToSSTable Bytewise_Compare
     (mem_run Bytewise_Compare [WPut [2] [20] 1, WPut [1] [10] 2]
        (MemTable_new 0 0 0 \<lparr>write_buffer_size = 1, max_write_buffer_number = 2\<rparr>))
     (\<lambda>w k v. (OK, w @ [(InternalKey_user_key k, v)])) (Some []) =
   Some (OK, Some [([1], [10]), ([2], [20])])"
proof -
  let ?o = "\<lparr>write_buffer_size = 1, max_write_buffer_number = 2\<rparr> :: memtable_options"
  have ok: "mt_ok Bytewise_Compare (mem_run Bytewise_Compare [WPut [2] [20] 1, WPut [1] [10] 2] (MemTable_new 0 0 0 ?o))"
    by (rule bytewise_user.run_ok [OF MemTable_new_ok])
  show ?thesis unfolding flush_writes_every_entry [OF ok]
    by (simp add: mem_run_def MemTable_new_def MemTable_Put_def MemTable_CreateEntry_def Let_def
        Compare_InternalKey Bytewise_Compare_lex)
qed

text \<open>\<open>ValidateStructure\<close> returns, and accepts a well-formed table exactly when its write
  counter equals the number of its entries: the order of the keys never makes it fail.\<close>

theorem validate_counts_entries:
  assumes "mt_ok Bytewise_Compare mt"
  shows "MemTable_ValidateStructure Bytewise_Compare mt = Some (num_entries mt = length (table mt))"
  by (rule ValidateStructure_iff [OF assms])

text \<open>The counter counts writes, not entries: writing the same key at the same sequence
  number twice replaces the entry, and a table that is in order is reported corrupt.\<close>

theorem validate_counts_entries_witness:
  "MemTable_ValidateStructure Bytewise_Compare
     (mem_run Bytewise_Compare [WPut [1] [10] 5, WPut [1] [11] 5]
        (MemTable_new 0 0 0 \<lparr>write_buffer_size = 1, max_write_buffer_number = 2\<rparr>)) = Some False"
proof -
  let ?o = "\<lparr>write_buffer_size = 1, max_write_buffer_number = 2\<rparr> :: memtable_options"
  have ok: "mt_ok Bytewise_Compare (mem_run Bytewise_Compare [WPut [1] [10] 5, WPut [1] [11] 5] (MemTable_new 0 0 0 ?o))"
    by (rule bytewise_user.run_ok [OF MemTable_new_ok])
  show ?thesis unfolding validate_counts_entries [OF ok]
    by (simp add: mem_run_def MemTable_new_def MemTable_Put_def MemTable_CreateEntry_def Let_def
        Compare_InternalKey Bytewise_Compare_lex seq_type_cmp_def)
qed

text \<open>freezing the mutable table is invisible to readers. After a successful
  \<open>SwitchMemTable\<close> every read that did not end in a merge operand of the mutable table gets
  the same answer as before.\<close>

theorem switch_keeps_reads:
  assumes "MemTableManager_SwitchMemTable mm = (OK, mm')"
    and "mutable_memtable mm = Some mt"
    and "\<not> (\<exists>v. MemTable_Get Bytewise_Compare mt key value (Some OK) snapshot = (True, v, Some (MergerInProgress '''')))"
    and "mt_ok Bytewise_Compare mt"
  shows "MemTableManager_Get Bytewise_Compare mm' key value (Some OK) snapshot =
    MemTableManager_Get Bytewise_Compare mm key value (Some OK) snapshot"
proof -
  let ?new = "MemTable_Ref (MemTable_new (mm_next mm) (mm_sizeof_table mm) (mm_sizeof_entry mm) (mm_options mm))"
  have mm': "mutable_memtable mm' = Some ?new"
    "immutable_memtables mm' = immutable_memtables mm @ [MemTable_SetImmutable mt]"
    using assms(1,2) by (auto simp: MemTableManager_SwitchMemTable_def CreateNewMemTable_def status_simps mk_status_def
        split: if_splits)
  have new: "MemTable_Get Bytewise_Compare ?new key value (Some OK) snapshot =
      (False, value, Some (NotFound ''Key not found''))"
    by (simp add: MemTable_Get_def MemTable_Ref_def MemTable_new_def ordered_seek_def)
  have same: "MemTable_Get Bytewise_Compare (MemTable_SetImmutable mt) key value st snapshot =
      MemTable_Get Bytewise_Compare mt key value st snapshot" for st
    by (simp add: MemTable_Get_def MemTable_SetImmutable_def)
  have nf: "MemTable_Get Bytewise_Compare mt key value (Some (NotFound m)) snapshot =
      MemTable_Get Bytewise_Compare mt key value (Some OK) snapshot" for m
    unfolding bytewise_user.Get_finds [OF assms(4)] by (auto simp: answer_def split: option.splits prod.splits)
  obtain f v st where g: "MemTable_Get Bytewise_Compare mt key value (Some OK) snapshot = (f, v, Some st)"
    unfolding bytewise_user.Get_finds [OF assms(4)] using answer_shape by blast
  have m: "f \<Longrightarrow> \<not> IsMergeInProgress st"
    using assms(3) g unfolding bytewise_user.Get_finds [OF assms(4)]
    by (auto simp: answer_def split: option.splits if_splits prod.splits)
  show ?thesis
    unfolding MemTableManager_Get_def mm' assms(2)
    by (simp add: new same nf g m)
qed

theorem switch_keeps_reads_witness:
  "MemTableManager_Get Bytewise_Compare
     (snd (MemTableManager_SwitchMemTable (MemTableManager_new \<lparr>write_buffer_size = 1, max_write_buffer_number = 2\<rparr> 0 0)))
     [1] (Some []) (Some OK) 0 =
   MemTableManager_Get Bytewise_Compare (MemTableManager_new \<lparr>write_buffer_size = 1, max_write_buffer_number = 2\<rparr> 0 0)
     [1] (Some []) (Some OK) 0"
proof (rule switch_keeps_reads)
  let ?o = "\<lparr>write_buffer_size = 1, max_write_buffer_number = 2\<rparr> :: memtable_options"
  show "MemTableManager_SwitchMemTable (MemTableManager_new ?o 0 0) =
      (OK, snd (MemTableManager_SwitchMemTable (MemTableManager_new ?o 0 0)))"
    by (simp add: MemTableManager_SwitchMemTable_def MemTableManager_new_def CreateNewMemTable_def)
  show "mutable_memtable (MemTableManager_new ?o 0 0) = Some (MemTable_Ref (MemTable_new 0 0 0 ?o))"
    by (simp add: MemTableManager_new_def CreateNewMemTable_def)
  show "mt_ok Bytewise_Compare (MemTable_Ref (MemTable_new 0 0 0 ?o))"
    using MemTable_new_ok [of Bytewise_Compare 0 0 0 ?o] by (simp add: mt_ok_def MemTable_Ref_def)
  show "\<not> (\<exists>v. MemTable_Get Bytewise_Compare (MemTable_Ref (MemTable_new 0 0 0 ?o)) [1] (Some []) (Some OK) 0 =
      (True, v, Some (MergerInProgress '''')))"
    by (simp add: MemTable_Get_def MemTable_Ref_def MemTable_new_def ordered_seek_def)
qed

text \<open>\<open>MemTableManager::Get\<close> loses deletions. A key put at sequence number 1, frozen, and
  deleted at sequence number 2 in the new mutable table is read back with its old value: the
  \<open>Deleted\<close> answer of the mutable table is dropped and the search goes on in the older one.\<close>

theorem manager_get_resurrects_deleted_key:
  "let mm0 = MemTableManager_new \<lparr>write_buffer_size = 1, max_write_buffer_number = 2\<rparr> 0 0;
       mm1 = snd (MemTableManager_Put Bytewise_Compare mm0 [1] [10] 1);
       mm2 = snd (MemTableManager_SwitchMemTable mm1);
       mm3 = snd (MemTableManager_Delete Bytewise_Compare mm2 [1] 2)
   in MemTable_Get Bytewise_Compare (the (mutable_memtable mm3)) [1] (Some []) (Some OK) 0
        = (False, Some [], Some (Deleted ''Key was deleted'')) \<and>
      MemTableManager_Get Bytewise_Compare mm3 [1] (Some []) (Some OK) 0 = (True, Some [10], Some OK)"
  by (simp add: Let_def MemTableManager_new_def CreateNewMemTable_def MemTableManager_Put_def MemTable_Put_def
      MemTableManager_SwitchMemTable_def MemTableManager_Delete_def MemTable_Delete_def MemTable_new_def
      MemTable_Ref_def MemTable_CreateEntry_def MemTable_SetImmutable_def table_insert_def
      MemTableManager_Get_def MemTable_Get_def ordered_seek_def ordered_lookup_def Compare_InternalKey
      Bytewise_Compare_lex seq_type_cmp_def slice_compare_lex value_types get_store_def take_bit_eq_mod mask_eq_exp_minus_1)

text \<open>a finished flush removes exactly the flushed table: the others stay, in their order,
  and asking again for the same table answers \<open>NotFound\<close>.\<close>

theorem complete_flush_removes_one:
  assumes "distinct (map mt_id (immutable_memtables mm))" "mt \<in> set (immutable_memtables mm)"
  shows "\<exists>mm'. CompleteFlushedMemTable mm (mt_id mt) = (OK, mm') \<and>
    immutable_memtables mm' = filter (\<lambda>m. mt_id m \<noteq> mt_id mt) (immutable_memtables mm) \<and>
    mutable_memtable mm' = mutable_memtable mm \<and>
    fst (CompleteFlushedMemTable mm' (mt_id mt)) = NotFound ''MemTable not found in immutable list''"
proof -
  have e: "\<exists>ys. erase_memtable a ms = Some ys \<and> ys = filter (\<lambda>m. mt_id m \<noteq> a) ms"
    if "distinct (map mt_id ms)" "a \<in> mt_id ` set ms" for a ms
    using that
  proof (induction ms)
    case (Cons m ms)
    show ?case
    proof (cases "mt_id m = a")
      case True
      then have "filter (\<lambda>m. mt_id m \<noteq> a) ms = ms" using Cons.prems(1) by (auto simp: filter_id_conv simp flip: image_iff) (metis imageI)
      then show ?thesis using True by simp
    qed (use Cons in auto)
  qed simp
  have n: "erase_memtable a (filter (\<lambda>m. mt_id m \<noteq> a) ms) = None" for a ms
    by (induction ms) auto
  show ?thesis
    using e [OF assms(1), of "mt_id mt"] assms(2) n [of "mt_id mt" "immutable_memtables mm"]
    by (auto simp: CompleteFlushedMemTable_def)
qed

theorem complete_flush_removes_one_witness:
  "\<exists>mm'. CompleteFlushedMemTable
      (snd (MemTableManager_SwitchMemTable (MemTableManager_new \<lparr>write_buffer_size = 1, max_write_buffer_number = 2\<rparr> 0 0))) 0
      = (OK, mm') \<and> immutable_memtables mm' = []"
  using complete_flush_removes_one [of
      "snd (MemTableManager_SwitchMemTable (MemTableManager_new \<lparr>write_buffer_size = 1, max_write_buffer_number = 2\<rparr> 0 0))"
      "MemTable_SetImmutable (MemTable_Ref (MemTable_new 0 0 0 \<lparr>write_buffer_size = 1, max_write_buffer_number = 2\<rparr>))"]
  by (auto simp: MemTableManager_SwitchMemTable_def MemTableManager_new_def CreateNewMemTable_def
      MemTable_SetImmutable_def MemTable_Ref_def MemTable_new_def)

text \<open>C37: the skip list implements its specification. On a well-formed pointer structure
  holding any ordered list of internal keys, \<open>Insert\<close> returns, leaves a well-formed structure
  whatever heights the generator draws, and that structure holds the list with the pair
  inserted at its place (or its value replaced).\<close>

theorem skiplist_insert_refines:
  assumes "sl_ok (InternalKeyComparator_Compare Bytewise_Compare) (\<lambda>k. 8 \<le> length k) sl ts" "8 \<le> length k"
  shows "\<exists>sl' ts'. SkipList_Insert (InternalKeyComparator_Compare Bytewise_Compare) sl k v = Some sl' \<and>
    sl_ok (InternalKeyComparator_Compare Bytewise_Compare) (\<lambda>k. 8 \<le> length k) sl' ts' \<and>
    entries ts' = ordered_insert (InternalKeyComparator_Compare Bytewise_Compare) k v (entries ts)"
  by (rule bytewise_user.internal.Insert_refines [OF assms])

theorem skiplist_insert_refines_witness:
  "\<exists>sl' ts'. SkipList_Insert (InternalKeyComparator_Compare Bytewise_Compare)
       (new_skiplist [] (0::nat) (\<lambda>_. 0)) (InternalKey [1] 7 kValue) 5 = Some sl' \<and>
     sl_ok (InternalKeyComparator_Compare Bytewise_Compare) (\<lambda>k. 8 \<le> length k) sl' ts' \<and>
     entries ts' = [(InternalKey [1] 7 kValue, 5)]"
  using skiplist_insert_refines [OF new_skiplist_ok, of "InternalKey [1] 7 kValue" "[]" "0::nat" "\<lambda>_. 0" 5]
  by (simp add: entries_def)

text \<open>a skip-list lookup returns, and finds the value exactly when the ordered list of the
  structure holds the key.\<close>

theorem skiplist_get_refines:
  assumes "sl_ok (InternalKeyComparator_Compare Bytewise_Compare) (\<lambda>k. 8 \<le> length k) sl ts" "8 \<le> length k"
  shows "SkipList_Get (InternalKeyComparator_Compare Bytewise_Compare) sl k = Some (map_of (entries ts) k) \<and>
    SkipList_Contains (InternalKeyComparator_Compare Bytewise_Compare) sl k = Some (k \<in> fst ` set (entries ts))"
  using bytewise_user.internal.Get_refines [OF assms] bytewise_user.internal.Contains_refines [OF assms]
    bytewise_user.internal.ordered_lookup_map_of [of "entries ts" k] assms
  by (simp add: sl_ok_def dom_map_of_conv_image_fst [symmetric] dom_def)

theorem skiplist_get_refines_witness:
  "SkipList_Get (InternalKeyComparator_Compare Bytewise_Compare)
     (new_skiplist [] (0::nat) (\<lambda>_. 0)) (InternalKey [1] 7 kValue) = Some None"
  using skiplist_get_refines [OF new_skiplist_ok, of "InternalKey [1] 7 kValue" "[]" "0::nat" "\<lambda>_. 0"]
  by (simp add: entries_def)

text \<open>\<open>Delete\<close> unlinks exactly the node of the key on every level: it returns, reports
  whether the key was there, and the structure stays well-formed with the key's entry gone.\<close>

theorem skiplist_delete_refines:
  assumes "sl_ok (InternalKeyComparator_Compare Bytewise_Compare) (\<lambda>k. 8 \<le> length k) sl ts" "8 \<le> length k"
  shows "\<exists>sl' ts'. SkipList_Delete (InternalKeyComparator_Compare Bytewise_Compare) sl k =
      Some (k \<in> fst ` set (entries ts), sl') \<and>
    sl_ok (InternalKeyComparator_Compare Bytewise_Compare) (\<lambda>k. 8 \<le> length k) sl' ts' \<and>
    entries ts' = filter (\<lambda>p. fst p \<noteq> k) (entries ts)"
proof -
  have f: "ordered_delete (InternalKeyComparator_Compare Bytewise_Compare) k (entries ts) =
      filter (\<lambda>p. fst p \<noteq> k) (entries ts)"
    unfolding ordered_delete_def
  proof (rule filter_cong [OF refl])
    fix p assume "p \<in> set (entries ts)"
    then have "8 \<le> length (fst p)" using assms(1) by (simp add: sl_ok_def ordered_by_def)
    then show "(InternalKeyComparator_Compare Bytewise_Compare (fst p) k \<noteq> 0) = (fst p \<noteq> k)"
      using bytewise_user.internal.cmp_eq [of "fst p" k] bytewise_user.internal.cmp_refl [of k] assms(2) by auto
  qed
  show ?thesis
    using bytewise_user.internal.Delete_refines [OF assms]
      bytewise_user.internal.ordered_lookup_map_of [of "entries ts" k] assms
    by (simp add: f sl_ok_def dom_map_of_conv_image_fst [symmetric] dom_def)
qed

theorem skiplist_delete_refines_witness:
  "\<exists>sl'. SkipList_Delete (InternalKeyComparator_Compare Bytewise_Compare)
     (new_skiplist [] (0::nat) (\<lambda>_. 0)) (InternalKey [1] 7 kValue) = Some (False, sl')"
  using skiplist_delete_refines [OF new_skiplist_ok, of "InternalKey [1] 7 kValue" "[]" "0::nat" "\<lambda>_. 0"]
  by (auto simp: entries_def)

end
