(* ===== verification/Versions.thy ===== *)
theory Versions
  imports Statuses
begin

text \<open>
  Multi-version visibility (include/lrdb/concurrency/snapshot.h, sequence_manager.h and
  src/concurrency/version_chain_manager.cc): read views, the two number generators, and the
  manager of the chains of versions, one chain per key, newest appended last. The
  \<open>unordered_map\<close> of chains is an association list: its order stands for the unspecified
  iteration order, and no theorem depends on it. The shared mutex makes each operation
  atomic, so an execution is a sequence of operations.
\<close>

type_synonym txn_id = u64
type_synonym snap_seq = u64

section \<open>Read views and generators\<close>

datatype ReadViewPolicy = kReadCommittedView | kRepeatableReadView

record read_view =
  rv_policy :: ReadViewPolicy
  rv_my_txn :: txn_id
  rv_up_limit :: txn_id
  rv_active :: "txn_id list"

text \<open>The constructor sorts the active set and removes duplicates, as \<open>binary_search\<close> needs.\<close>

definition ReadView_new :: "ReadViewPolicy \<Rightarrow> txn_id \<Rightarrow> txn_id \<Rightarrow> txn_id list \<Rightarrow> read_view" where
  "ReadView_new policy my up active =
     \<lparr>rv_policy = policy, rv_my_txn = my, rv_up_limit = up, rv_active = remdups_adj (sort active)\<rparr>"

definition IsTxnActiveAtSnapshot :: "read_view \<Rightarrow> txn_id \<Rightarrow> bool" where
  "IsTxnActiveAtSnapshot view t \<longleftrightarrow> t \<in> set (rv_active view)"

definition IsVisible :: "read_view \<Rightarrow> txn_id \<Rightarrow> bool \<Rightarrow> bool \<Rightarrow> bool" where
  "IsVisible view creator is_committed is_aborted =
     (if creator = rv_my_txn view then \<not> is_aborted
      else if is_aborted then False
      else if rv_policy view = kReadCommittedView then is_committed
      else if \<not> is_committed then False
      else if rv_up_limit view \<le> creator then False
      else \<not> IsTxnActiveAtSnapshot view creator)"

text \<open>
  Both generators hold the next number; \<open>Next\<close> returns it and steps (modulo \<open>2^64\<close>),
  \<open>Current\<close> is the last one given out.
\<close>

definition Gen_Next :: "u64 \<Rightarrow> u64 \<times> u64" where
  "Gen_Next nxt = (nxt, nxt + 1)"

definition Gen_Current :: "u64 \<Rightarrow> u64" where
  "Gen_Current nxt = (if 0 < nxt then nxt - 1 else 0)"

section \<open>Version chains\<close>

datatype VersionState = kActive | kCommitted | kAborted

record version_record =
  vr_value :: bytes
  is_delete :: bool
  vr_txn :: txn_id
  vr_state :: VersionState
  commit_snapshot :: snap_seq
  flushed :: bool

type_synonym chains = "(bytes \<times> version_record list) list"

definition VersionRecord :: "bytes \<Rightarrow> bool \<Rightarrow> txn_id \<Rightarrow> version_record" where
  "VersionRecord v del t =
     \<lparr>vr_value = v, is_delete = del, vr_txn = t, vr_state = kActive, commit_snapshot = 0, flushed = False\<rparr>"

text \<open>\<open>Chain(key).emplace_back\<close>: a missing chain is created empty first.\<close>

fun chain_append :: "chains \<Rightarrow> bytes \<Rightarrow> version_record \<Rightarrow> chains" where
  "chain_append [] key r = [(key, [r])]"
| "chain_append ((k, c) # cs) key r =
     (if k = key then (k, c @ [r]) # cs else (k, c) # chain_append cs key r)"

definition VCM_PutActive :: "chains \<Rightarrow> bytes \<Rightarrow> bytes \<Rightarrow> txn_id \<Rightarrow> status \<times> chains" where
  "VCM_PutActive cs key value txn = (OK, chain_append cs key (VersionRecord value False txn))"

definition VCM_DeleteActive :: "chains \<Rightarrow> bytes \<Rightarrow> txn_id \<Rightarrow> status \<times> chains" where
  "VCM_DeleteActive cs key txn = (OK, chain_append cs key (VersionRecord [] True txn))"

definition commit_record :: "txn_id \<Rightarrow> snap_seq \<Rightarrow> version_record \<Rightarrow> version_record" where
  "commit_record txn seq r =
     (if vr_txn r = txn \<and> vr_state r = kActive
      then r\<lparr>vr_state := kCommitted, commit_snapshot := seq\<rparr> else r)"

definition MarkTransactionCommitted :: "chains \<Rightarrow> txn_id \<Rightarrow> snap_seq \<Rightarrow> status \<times> chains" where
  "MarkTransactionCommitted cs txn seq =
     (OK, map (\<lambda>(k, c). (k, map (commit_record txn seq) c)) cs)"

definition abort_record :: "txn_id \<Rightarrow> version_record \<Rightarrow> version_record" where
  "abort_record txn r =
     (if vr_txn r = txn \<and> vr_state r = kActive then r\<lparr>vr_state := kAborted\<rparr> else r)"

definition MarkTransactionAborted :: "chains \<Rightarrow> txn_id \<Rightarrow> status \<times> chains" where
  "MarkTransactionAborted cs txn =
     (OK, map (\<lambda>(k, c). (k, map (abort_record txn) c)) cs)"

definition record_visible :: "read_view \<Rightarrow> version_record \<Rightarrow> bool" where
  "record_visible view r = IsVisible view (vr_txn r) (vr_state r = kCommitted) (vr_state r = kAborted)"

text \<open>
  \<open>GetVisible\<close>, with the status and the value when \<open>*found\<close> is set. The scan runs over
  the reversed chain. A null output pointer answers \<open>InvalidArgument\<close> in the code; callers
  here have none.
\<close>

fun GetVisible_loop :: "read_view \<Rightarrow> version_record list \<Rightarrow> status \<times> bytes option" where
  "GetVisible_loop view [] = (OK, None)"
| "GetVisible_loop view (r # rs) =
     (if \<not> record_visible view r then GetVisible_loop view rs
      else if is_delete r then (Deleted ''Key deleted at visible version'', None)
      else (OK, Some (vr_value r)))"

definition GetVisible :: "chains \<Rightarrow> bytes \<Rightarrow> read_view \<Rightarrow> status \<times> bytes option" where
  "GetVisible cs key view =
     (case map_of cs key of None \<Rightarrow> (OK, None) | Some c \<Rightarrow> GetVisible_loop view (rev c))"

fun GetVisibleBySnapshot_loop :: "snap_seq \<Rightarrow> version_record list \<Rightarrow> status \<times> bytes option" where
  "GetVisibleBySnapshot_loop seq [] = (OK, None)"
| "GetVisibleBySnapshot_loop seq (r # rs) =
     (if vr_state r \<noteq> kCommitted then GetVisibleBySnapshot_loop seq rs
      else if seq < commit_snapshot r then GetVisibleBySnapshot_loop seq rs
      else if is_delete r then (NotFound ''Key deleted at snapshot'', None)
      else (OK, Some (vr_value r)))"

definition GetVisibleBySnapshot :: "chains \<Rightarrow> bytes \<Rightarrow> snap_seq \<Rightarrow> status \<times> bytes option" where
  "GetVisibleBySnapshot cs key seq =
     (case map_of cs key of None \<Rightarrow> (OK, None) | Some c \<Rightarrow> GetVisibleBySnapshot_loop seq (rev c))"

text \<open>The bound \<open>max_items\<close> is tested after each chain.\<close>

fun PickCommittedNotFlushed_loop ::
    "nat \<Rightarrow> chains \<Rightarrow> (bytes \<times> version_record) list \<Rightarrow> (bytes \<times> version_record) list" where
  "PickCommittedNotFlushed_loop max_items [] out = out"
| "PickCommittedNotFlushed_loop max_items ((k, c) # cs) out =
     (let out' = out @ map (\<lambda>r. (k, r)) (filter (\<lambda>r. vr_state r = kCommitted \<and> \<not> flushed r) (rev c))
      in if max_items \<le> length out' then out' else PickCommittedNotFlushed_loop max_items cs out')"

definition PickCommittedNotFlushed :: "chains \<Rightarrow> nat \<Rightarrow> (bytes \<times> version_record) list" where
  "PickCommittedNotFlushed cs max_items = PickCommittedNotFlushed_loop max_items cs []"

definition flush_record :: "snap_seq \<Rightarrow> version_record \<Rightarrow> version_record" where
  "flush_record seq r =
     (if vr_state r = kCommitted \<and> commit_snapshot r = seq then r\<lparr>flushed := True\<rparr> else r)"

fun MarkFlushed :: "chains \<Rightarrow> (bytes \<times> snap_seq) list \<Rightarrow> chains" where
  "MarkFlushed cs [] = cs"
| "MarkFlushed cs ((key, seq) # keys) =
     MarkFlushed (map (\<lambda>(k, c). if k = key then (k, map (flush_record seq) c) else (k, c)) cs) keys"

text \<open>The collector's backward loop: what it keeps, newest first.\<close>

fun GC_loop :: "bool \<Rightarrow> version_record list \<Rightarrow> version_record list" where
  "GC_loop kept_latest [] = []"
| "GC_loop kept_latest (r # rs) =
     (if vr_state r = kActive then r # GC_loop kept_latest rs
      else if vr_state r = kCommitted
      then (if \<not> kept_latest \<or> \<not> flushed r then r # GC_loop True rs else GC_loop kept_latest rs)
      else GC_loop kept_latest rs)"

definition GC_chain :: "version_record list \<Rightarrow> version_record list" where
  "GC_chain c = rev (GC_loop False (rev (filter (\<lambda>r. vr_state r \<noteq> kAborted) c)))"

definition GarbageCollect :: "chains \<Rightarrow> chains" where
  "GarbageCollect cs = map (\<lambda>(k, c). (k, GC_chain c)) cs"

definition CollectVisible :: "chains \<Rightarrow> read_view \<Rightarrow> (bytes \<times> version_record) list" where
  "CollectVisible cs view =
     concat (map (\<lambda>(k, c). case find (record_visible view) (rev c) of None \<Rightarrow> [] | Some r \<Rightarrow> [(k, r)]) cs)"

definition GetLatestActiveForTxn :: "chains \<Rightarrow> bytes \<Rightarrow> txn_id \<Rightarrow> version_record option" where
  "GetLatestActiveForTxn cs key txn =
     (case map_of cs key of
        None \<Rightarrow> None
      | Some c \<Rightarrow> find (\<lambda>r. vr_txn r = txn \<and> vr_state r = kActive) (rev c))"

section \<open>Lookups through the chain map\<close>

definition chain_of :: "chains \<Rightarrow> bytes \<Rightarrow> version_record list" where
  "chain_of cs key = (case map_of cs key of None \<Rightarrow> [] | Some c \<Rightarrow> c)"

lemma GetVisible_chain: "GetVisible cs key view = GetVisible_loop view (rev (chain_of cs key))"
  by (simp add: GetVisible_def chain_of_def split: option.splits)

lemma GetVisibleBySnapshot_chain:
  "GetVisibleBySnapshot cs key seq = GetVisibleBySnapshot_loop seq (rev (chain_of cs key))"
  by (simp add: GetVisibleBySnapshot_def chain_of_def split: option.splits)

lemma GetLatest_chain:
  "GetLatestActiveForTxn cs key t = find (\<lambda>r. vr_txn r = t \<and> vr_state r = kActive) (rev (chain_of cs key))"
  by (simp add: GetLatestActiveForTxn_def chain_of_def split: option.splits)

lemma chain_of_append [simp]:
  "chain_of (chain_append cs key r) k = (if k = key then chain_of cs k @ [r] else chain_of cs k)"
  by (induction cs key r rule: chain_append.induct) (auto simp: chain_of_def)

lemma map_of_map_snd: "map_of (map (\<lambda>(k, c). (k, f c)) cs) k = map_option f (map_of cs k)"
  by (induction cs) auto

lemma map_of_map_at: "map_of (map (\<lambda>(k, c). if k = key then (k, f c) else (k, c)) cs) k =
    (if k = key then map_option f (map_of cs k) else map_of cs k)"
  by (induction cs) auto

lemma chain_of_committed [simp]:
  "chain_of (snd (MarkTransactionCommitted cs t seq)) k = map (commit_record t seq) (chain_of cs k)"
  by (simp add: MarkTransactionCommitted_def chain_of_def map_of_map_snd split: option.splits)

lemma chain_of_aborted [simp]:
  "chain_of (snd (MarkTransactionAborted cs t)) k = map (abort_record t) (chain_of cs k)"
  by (simp add: MarkTransactionAborted_def chain_of_def map_of_map_snd split: option.splits)

lemma chain_of_Put [simp]:
  "chain_of (snd (VCM_PutActive cs key v t)) k =
    (if k = key then chain_of cs k @ [VersionRecord v False t] else chain_of cs k)"
  by (simp add: VCM_PutActive_def)

lemma chain_of_Delete [simp]:
  "chain_of (snd (VCM_DeleteActive cs key t)) k =
    (if k = key then chain_of cs k @ [VersionRecord [] True t] else chain_of cs k)"
  by (simp add: VCM_DeleteActive_def)

lemma chain_of_GC [simp]: "chain_of (GarbageCollect cs) k = GC_chain (chain_of cs k)"
  by (simp add: GarbageCollect_def chain_of_def map_of_map_snd GC_chain_def split: option.splits)

lemma GetVisible_loop_filter:
  "GetVisible_loop view rs =
    (case filter (record_visible view) rs of
       [] \<Rightarrow> (OK, None)
     | r # _ \<Rightarrow> if is_delete r then (Deleted ''Key deleted at visible version'', None) else (OK, Some (vr_value r)))"
  by (induction rs) auto

section \<open>What the chains promise\<close>

datatype mvcc_op = OpPut bytes bytes txn_id | OpDelete bytes txn_id | OpCommit txn_id snap_seq | OpAbort txn_id

fun op_txn :: "mvcc_op \<Rightarrow> txn_id" where
  "op_txn (OpPut k v t) = t"
| "op_txn (OpDelete k t) = t"
| "op_txn (OpCommit t s) = t"
| "op_txn (OpAbort t) = t"

fun mvcc_apply :: "mvcc_op \<Rightarrow> chains \<Rightarrow> chains" where
  "mvcc_apply (OpPut k v t) cs = snd (VCM_PutActive cs k v t)"
| "mvcc_apply (OpDelete k t) cs = snd (VCM_DeleteActive cs k t)"
| "mvcc_apply (OpCommit t s) cs = snd (MarkTransactionCommitted cs t s)"
| "mvcc_apply (OpAbort t) cs = snd (MarkTransactionAborted cs t)"

text \<open>Transactions a frozen view must not see: those active when it was built and all later ones.\<close>

definition outside_view :: "read_view \<Rightarrow> txn_id \<Rightarrow> bool" where
  "outside_view view t \<longleftrightarrow> t \<noteq> rv_my_txn view \<and> (rv_up_limit view \<le> t \<or> t \<in> set (rv_active view))"

lemma outside_invisible:
  "rv_policy view = kRepeatableReadView \<Longrightarrow> outside_view view (vr_txn r) \<Longrightarrow> \<not> record_visible view r"
  by (auto simp: outside_view_def record_visible_def IsVisible_def IsTxnActiveAtSnapshot_def)

lemma filter_visible_map:
  assumes "\<And>r. r \<in> set c \<Longrightarrow> f r = r \<or> \<not> record_visible view r \<and> \<not> record_visible view (f r)"
  shows "filter (record_visible view) (map f c) = filter (record_visible view) c"
  using assms by (induction c) (auto, metis+)

lemma outside_step:
  assumes "rv_policy view = kRepeatableReadView" "outside_view view (op_txn oper)"
  shows "filter (record_visible view) (chain_of (mvcc_apply oper cs) key) =
    filter (record_visible view) (chain_of cs key)"
proof (cases oper)
  case (OpCommit t s)
  have "filter (record_visible view) (map (commit_record t s) c) = filter (record_visible view) c" for c
    by (rule filter_visible_map)
      (use assms outside_invisible [OF assms(1)] OpCommit in \<open>auto simp: commit_record_def\<close>)
  then show ?thesis using OpCommit by simp
next
  case (OpAbort t)
  have "filter (record_visible view) (map (abort_record t) c) = filter (record_visible view) c" for c
    by (rule filter_visible_map)
      (use assms outside_invisible [OF assms(1)] OpAbort in \<open>auto simp: abort_record_def\<close>)
  then show ?thesis using OpAbort by simp
qed (use assms outside_invisible [OF assms(1)] in \<open>auto simp: VersionRecord_def\<close>)

lemma filter_rev: "filter P (rev xs) = rev (filter P xs)"
  by (simp add: rev_filter)

lemma GetVisible_filter:
  "filter (record_visible view) (chain_of cs key) = filter (record_visible view) (chain_of cs' key) \<Longrightarrow>
   GetVisible cs key view = GetVisible cs' key view"
  by (simp add: GetVisible_chain GetVisible_loop_filter filter_rev)

lemma GC_loop_keeps: "filter (\<lambda>r. vr_state r = kActive \<or> vr_state r = kCommitted \<and> \<not> flushed r) (GC_loop b rs) =
    filter (\<lambda>r. vr_state r = kActive \<or> vr_state r = kCommitted \<and> \<not> flushed r) rs"
  by (induction b rs rule: GC_loop.induct) auto

text \<open>Under a read-committed view every committed record is visible, so what the collector drops
  is always shadowed.\<close>

lemma GC_loop_visible:
  assumes "rv_policy view = kReadCommittedView" "\<not> (\<exists>r \<in> set rs. vr_state r = kAborted)"
  shows "GetVisible_loop view (GC_loop False rs) = GetVisible_loop view rs"
  using assms(2)
proof (induction rs)
  case (Cons r rs)
  show ?case
  proof (cases "vr_state r")
    case kCommitted
    then have "record_visible view r" using assms(1) by (simp add: record_visible_def IsVisible_def)
    then show ?thesis using kCommitted by simp
  qed (use Cons in auto)
qed simp

lemma GetVisible_loop_unaborted:
  "GetVisible_loop view (filter (\<lambda>r. vr_state r \<noteq> kAborted) rs) = GetVisible_loop view rs"
  by (induction rs) (auto simp: record_visible_def IsVisible_def)

text \<open>For any view: the answer survives when its record is not a flushed, shadowed one.\<close>

lemma GC_loop_answer:
  assumes "find (record_visible view) rs = Some r" "vr_state r = kCommitted \<longrightarrow> \<not> flushed r"
    "\<not> (\<exists>r \<in> set rs. vr_state r = kAborted)"
  shows "find (record_visible view) (GC_loop b rs) = Some r"
  using assms
proof (induction rs arbitrary: b)
  case (Cons q rs)
  then show ?case by (cases "vr_state q") (auto split: if_splits)
qed simp

lemma GetVisible_loop_find:
  "GetVisible_loop view rs =
    (case find (record_visible view) rs of
       None \<Rightarrow> (OK, None)
     | Some r \<Rightarrow> if is_delete r then (Deleted ''Key deleted at visible version'', None) else (OK, Some (vr_value r)))"
  by (induction rs) auto

lemma find_unaborted:
  "find (record_visible view) (filter (\<lambda>r. vr_state r \<noteq> kAborted) rs) = find (record_visible view) rs"
  by (induction rs) (auto simp: record_visible_def IsVisible_def)

lemma CollectVisible_map_of:
  "map_of (CollectVisible cs view) k =
    (if distinct (map fst cs) then find (record_visible view) (rev (chain_of cs k)) else map_of (CollectVisible cs view) k)"
proof -
  have "map_of (CollectVisible cs view) k = find (record_visible view) (rev (chain_of cs k))"
    if "distinct (map fst cs)"
    using that
  proof (induction cs)
    case (Cons p cs)
    obtain k' c where p: "p = (k', c)" by force
    have dom: "fst ` set (CollectVisible cs view) \<subseteq> fst ` set cs"
      by (force simp: CollectVisible_def split: option.splits)
    have "map_of (CollectVisible cs view) k' = None"
      using Cons.prems p dom unfolding map_of_eq_None_iff by auto
    then show ?case using Cons p
      by (auto simp: CollectVisible_def chain_of_def split: option.splits)
  qed (simp add: CollectVisible_def chain_of_def)
  then show ?thesis by simp
qed

lemma find_split: "find P xs = Some x \<Longrightarrow> \<exists>ys zs. xs = ys @ x # zs \<and> (\<forall>y \<in> set ys. \<not> P y) \<and> P x"
proof (induction xs)
  case (Cons a xs)
  show ?case
  proof (cases "P a")
    case True
    then show ?thesis using Cons.prems by (intro exI [of _ "[]"] exI [of _ xs]) auto
  next
    case False
    then obtain ys zs where "xs = ys @ x # zs \<and> (\<forall>y \<in> set ys. \<not> P y) \<and> P x" using Cons by auto
    then show ?thesis using False by (intro exI [of _ "a # ys"] exI [of _ zs]) simp
  qed
qed simp

section \<open>Theorems\<close>

text \<open>C35: repeatable reads. Whatever sequence of writes, deletes, commits and aborts is done by
  transactions that were active when a frozen view was built or that began later, a read of any
  key through the view answers the same.\<close>

theorem repeatable_read_stable:
  assumes "rv_policy view = kRepeatableReadView" "\<forall>oper \<in> set ops. outside_view view (op_txn oper)"
  shows "GetVisible (fold mvcc_apply ops cs) key view = GetVisible cs key view"
  using assms(2)
proof (induction ops arbitrary: cs)
  case (Cons oper ops)
  have "GetVisible (mvcc_apply oper cs) key view = GetVisible cs key view"
    by (rule GetVisible_filter) (use outside_step [OF assms(1), of oper] Cons.prems in simp)
  then show ?case using Cons by simp
qed simp

theorem repeatable_read_stable_witness:
  "GetVisible (fold mvcc_apply [OpPut [1] [20] 3, OpCommit 3 9, OpDelete [1] 2, OpCommit 2 10]
      [([1], [VersionRecord [10] False 1\<lparr>vr_state := kCommitted, commit_snapshot := 4\<rparr>])])
     [1] (ReadView_new kRepeatableReadView 2 3 [])
   = (Deleted ''Key deleted at visible version'', None) \<and>
   GetVisible (fold mvcc_apply [OpPut [1] [20] 3, OpCommit 3 9, OpDelete [1] 5, OpCommit 5 10]
      [([1], [VersionRecord [10] False 1\<lparr>vr_state := kCommitted, commit_snapshot := 4\<rparr>])])
     [1] (ReadView_new kRepeatableReadView 2 3 [2]) = (OK, Some [10])"
proof
  show "GetVisible (fold mvcc_apply [OpPut [1] [20] 3, OpCommit 3 9, OpDelete [1] 5, OpCommit 5 10]
      [([1], [VersionRecord [10] False 1\<lparr>vr_state := kCommitted, commit_snapshot := 4\<rparr>])])
     [1] (ReadView_new kRepeatableReadView 2 3 [2]) = (OK, Some [10])"
    using repeatable_read_stable [of "ReadView_new kRepeatableReadView 2 3 [2]"
        "[OpPut [1] [20] 3, OpCommit 3 9, OpDelete [1] 5, OpCommit 5 10]"
        "[([1], [VersionRecord [10] False 1\<lparr>vr_state := kCommitted, commit_snapshot := 4\<rparr>])]" "[1]"]
    by (simp add: ReadView_new_def outside_view_def GetVisible_def record_visible_def IsVisible_def
        IsTxnActiveAtSnapshot_def VersionRecord_def word_le_nat_alt)
qed (simp add: ReadView_new_def GetVisible_def record_visible_def IsVisible_def IsTxnActiveAtSnapshot_def
    VersionRecord_def VCM_PutActive_def VCM_DeleteActive_def MarkTransactionCommitted_def commit_record_def)

text \<open>C34: no dirty reads. Every value a read returns is in the chain of its key, not a deletion,
  not rolled back, and either committed or the reader's own; all newer records of the chain are
  invisible to the reader.\<close>

theorem read_returns_newest_visible:
  assumes "GetVisible cs key view = (OK, Some v)"
  shows "\<exists>older r newer. chain_of cs key = older @ r # newer \<and> vr_value r = v \<and> \<not> is_delete r \<and>
    vr_state r \<noteq> kAborted \<and> (vr_state r = kCommitted \<or> vr_txn r = rv_my_txn view) \<and>
    (\<forall>q \<in> set newer. \<not> record_visible view q)"
proof -
  obtain r where r: "find (record_visible view) (rev (chain_of cs key)) = Some r" "vr_value r = v" "\<not> is_delete r"
    using assms unfolding GetVisible_chain GetVisible_loop_find
    by (auto split: option.splits if_splits simp: status_simps mk_status_def)
  from find_split [OF r(1)] obtain newer older where s: "rev (chain_of cs key) = newer @ r # older"
    "\<forall>q \<in> set newer. \<not> record_visible view q" "record_visible view r"
    by blast
  have "chain_of cs key = rev (newer @ r # older)" unfolding s(1) [symmetric] by simp
  then have "chain_of cs key = rev older @ r # rev newer" by simp
  moreover have "vr_state r \<noteq> kAborted \<and> (vr_state r = kCommitted \<or> vr_txn r = rv_my_txn view)"
    using s(3) by (auto simp: record_visible_def IsVisible_def split: if_splits)
  ultimately show ?thesis using r(2,3) s(2)
    by (intro exI [of _ "rev older"] exI [of _ r] exI [of _ "rev newer"]) simp
qed

theorem read_returns_newest_visible_witness:
  "\<exists>older r newer.
     chain_of [([1], [VersionRecord [10] False 1\<lparr>vr_state := kCommitted\<rparr>, VersionRecord [20] False 3])] [1]
       = older @ r # newer \<and> vr_value r = [10] \<and> vr_state r = kCommitted"
proof -
  let ?cs = "[([1], [VersionRecord [10] False 1\<lparr>vr_state := kCommitted\<rparr>, VersionRecord [20] False 3])] :: chains"
  have "GetVisible ?cs [1] (ReadView_new kReadCommittedView 2 4 []) = (OK, Some [10])"
    by (simp add: GetVisible_def record_visible_def IsVisible_def ReadView_new_def VersionRecord_def)
  from read_returns_newest_visible [OF this] show ?thesis
    by (fastforce simp: chain_of_def VersionRecord_def ReadView_new_def Cons_eq_append_conv)
qed

text \<open>a transaction reads its own writes. Right after a put (or a delete) of its own, before
  any commit, a read of that key through any view of the transaction returns the value (or reports the
  deletion), whatever the other versions are.\<close>

theorem read_own_writes:
  "GetVisible (snd (VCM_PutActive cs key v (rv_my_txn view))) key view = (OK, Some v) \<and>
   GetVisible (snd (VCM_DeleteActive cs key (rv_my_txn view))) key view =
     (Deleted ''Key deleted at visible version'', None)"
  by (simp add: GetVisible_chain record_visible_def IsVisible_def VersionRecord_def)

text \<open>garbage collection is invisible to read-committed readers: whatever versions are
  aborted, active, committed or flushed, every read-committed view reads every key as before.\<close>

theorem gc_keeps_read_committed:
  assumes "rv_policy view = kReadCommittedView"
  shows "GetVisible (GarbageCollect cs) key view = GetVisible cs key view"
proof -
  have "GetVisible_loop view (GC_loop False (filter (\<lambda>r. vr_state r \<noteq> kAborted) (rev (chain_of cs key)))) =
      GetVisible_loop view (filter (\<lambda>r. vr_state r \<noteq> kAborted) (rev (chain_of cs key)))"
    by (rule GC_loop_visible [OF assms]) simp
  then show ?thesis
    by (simp add: GetVisible_chain GC_chain_def rev_filter GetVisible_loop_unaborted)
qed

theorem gc_keeps_read_committed_witness:
  "GetVisible (GarbageCollect [([1], [VersionRecord [10] False 1\<lparr>vr_state := kCommitted, flushed := True\<rparr>,
      VersionRecord [20] False 3\<lparr>vr_state := kCommitted, flushed := True\<rparr>])]) [1]
    (ReadView_new kReadCommittedView 2 4 []) = (OK, Some [20])"
  using gc_keeps_read_committed [of "ReadView_new kReadCommittedView 2 4 []"
      "[([1], [VersionRecord [10] False 1\<lparr>vr_state := kCommitted, flushed := True\<rparr>,
      VersionRecord [20] False 3\<lparr>vr_state := kCommitted, flushed := True\<rparr>])]" "[1]"]
  by (simp add: ReadView_new_def GetVisible_def record_visible_def IsVisible_def VersionRecord_def)

text \<open>garbage collection never loses the only copy. Every active and every committed,
  not yet flushed version of every key is still in its chain after a collection, in the same
  order; and a read through any view whose answer is such a version is unchanged.\<close>

theorem gc_keeps_unflushed:
  "filter (\<lambda>r. vr_state r = kActive \<or> vr_state r = kCommitted \<and> \<not> flushed r) (chain_of (GarbageCollect cs) key) =
     filter (\<lambda>r. vr_state r = kActive \<or> vr_state r = kCommitted \<and> \<not> flushed r) (chain_of cs key)"
proof -
  let ?P = "\<lambda>r. vr_state r = kActive \<or> vr_state r = kCommitted \<and> \<not> flushed r"
  have "filter ?P (chain_of (GarbageCollect cs) key) =
      rev (filter ?P (GC_loop False (rev (filter (\<lambda>r. vr_state r \<noteq> kAborted) (chain_of cs key)))))"
    by (simp add: GC_chain_def rev_filter)
  also have "\<dots> = filter ?P (filter (\<lambda>r. vr_state r \<noteq> kAborted) (chain_of cs key))"
    unfolding GC_loop_keeps by (simp add: rev_filter)
  also have "\<dots> = filter ?P (chain_of cs key)"
    by (simp add: filter_filter) (rule filter_cong, auto)
  finally show ?thesis .
qed

text \<open>a snapshot read is not stable while a commit is in flight. A commit takes its sequence
  number first and marks its versions later; a snapshot created in between already has that
  number, so the same snapshot reads the old value before the marking and the new one after.\<close>

theorem snapshot_read_unstable:
  "let cs0 = [([1], [VersionRecord [10] False 1\<lparr>vr_state := kCommitted, commit_snapshot := 4\<rparr>])];
       cs1 = snd (VCM_PutActive cs0 [1] [20] 2);
       (commit_seq, nxt) = Gen_Next 5;
       snapshot = Gen_Current nxt;
       cs2 = snd (MarkTransactionCommitted cs1 2 commit_seq)
   in snapshot = commit_seq \<and>
      GetVisibleBySnapshot cs1 [1] snapshot = (OK, Some [10]) \<and>
      GetVisibleBySnapshot cs2 [1] snapshot = (OK, Some [20])"
  by (simp add: Let_def Gen_Next_def Gen_Current_def GetVisibleBySnapshot_def VCM_PutActive_def
      VersionRecord_def MarkTransactionCommitted_def commit_record_def word_le_nat_alt)

end
