(* ===== verification/Locks.thy ===== *)
theory Locks
  imports Versions
begin

text \<open>
  The lock manager (include/lrdb/concurrency/lock_manager.h, src/concurrency/lock_manager.cc):
  point locks with a queue per key, the wait-for graph and its depth-first search, range locks
  and deadlock resolution. The entry's mutex makes each part of \<open>Acquire\<close> up to its wait
  atomic, so \<open>Acquire\<close> is a start step and, while it waits, wake-up steps, which any other
  operation may precede. Hash sets and maps are lists, whose order stands for the unspecified
  iteration order. A thread that locks a \<open>std::mutex\<close> it holds never proceeds: that is the
  result \<open>SelfDeadlock\<close>.
\<close>

section \<open>The wait-for graph\<close>

type_synonym wait_graph = "(txn_id \<times> txn_id list) list"

definition successors :: "wait_graph \<Rightarrow> txn_id \<Rightarrow> txn_id list" where
  "successors g t = (case map_of g t of None \<Rightarrow> [] | Some hs \<Rightarrow> hs)"

fun AddEdge :: "wait_graph \<Rightarrow> txn_id \<Rightarrow> txn_id \<Rightarrow> wait_graph" where
  "AddEdge [] waiter holder = [(waiter, [holder])]"
| "AddEdge ((t, hs) # g) waiter holder =
     (if t = waiter then (t, List.insert holder hs) # g else (t, hs) # AddEdge g waiter holder)"

definition RemoveEdgesFor :: "wait_graph \<Rightarrow> txn_id \<Rightarrow> wait_graph" where
  "RemoveEdgesFor g txn =
     map (\<lambda>(t, hs). (t, filter (\<lambda>h. h \<noteq> txn) hs)) (filter (\<lambda>(t, _). t \<noteq> txn) g)"

text \<open>
  \<open>Dfs\<close>. The fuel bounds the depth of the recursion, \<open>None\<close> is fuel exhausted; the depth
  never exceeds the number of nodes. A result carries whether a cycle was met, the nodes visited
  and, when one was met, the stack that the code copies to \<open>cycle_out\<close>. Popping \<open>cur\<close>
  restores the caller's stack, which here was never changed.
\<close>

fun Dfs :: "wait_graph \<Rightarrow> nat \<Rightarrow> txn_id \<Rightarrow> txn_id list \<Rightarrow> txn_id list \<Rightarrow> (bool \<times> txn_id list \<times> txn_id list) option"
and Dfs_all :: "wait_graph \<Rightarrow> nat \<Rightarrow> txn_id list \<Rightarrow> txn_id list \<Rightarrow> txn_id list \<Rightarrow> (bool \<times> txn_id list \<times> txn_id list) option"
where
  "Dfs g fuel cur visited stack =
     (if cur \<in> set stack then Some (True, visited, stack)
      else if cur \<in> set visited then Some (False, visited, [])
      else case fuel of
        0 \<Rightarrow> None
      | Suc n \<Rightarrow> Dfs_all g n (successors g cur) (cur # visited) (cur # stack))"
| "Dfs_all g n [] visited stack = Some (False, visited, [])"
| "Dfs_all g n (x # xs) visited stack =
     (case Dfs g n x visited stack of
        None \<Rightarrow> None
      | Some (found, visited', cyc) \<Rightarrow>
          if found then Some (True, visited', cyc) else Dfs_all g n xs visited' stack)"

definition graph_nodes :: "wait_graph \<Rightarrow> txn_id list" where
  "graph_nodes g = remdups (concat (map (\<lambda>(t, hs). t # hs) g))"

text \<open>The depth bound: every node of the graph, and the start node.\<close>

definition dfs_fuel :: "wait_graph \<Rightarrow> nat" where
  "dfs_fuel g = Suc (length (graph_nodes g))"

text \<open>The code builds a copy of the graph with the new edge, and then searches the original.\<close>

definition WouldCreateCycle :: "wait_graph \<Rightarrow> txn_id \<Rightarrow> txn_id \<Rightarrow> bool" where
  "WouldCreateCycle g waiter holder =
     (case Dfs g (dfs_fuel g) waiter [] [] of Some (found, _, _) \<Rightarrow> found | None \<Rightarrow> False)"

fun DetectCycle_loop :: "wait_graph \<Rightarrow> txn_id list \<Rightarrow> txn_id option" where
  "DetectCycle_loop g [] = None"
| "DetectCycle_loop g (t # ts) =
     (case Dfs g (dfs_fuel g) t [] [] of
        Some (True, _, cyc) \<Rightarrow> Some (fold max cyc 0)
      | _ \<Rightarrow> DetectCycle_loop g ts)"

text \<open>\<open>DetectCycle\<close>: the victim, if there is a cycle.\<close>

definition DetectCycle :: "wait_graph \<Rightarrow> txn_id option" where
  "DetectCycle g = DetectCycle_loop g (graph_nodes g)"

section \<open>Locks\<close>

datatype LockType = kSharedLock | kExclusiveLock

record lock_request =
  lr_txn :: txn_id
  lr_type :: LockType

record lock_entry =
  holders :: "lock_request list"
  waiters :: "lock_request list"

record range_lock =
  rl_txn :: txn_id
  rl_start :: bytes
  rl_end :: bytes
  rl_exclusive :: bool

record lock_manager =
  lm_table :: "(bytes \<times> lock_entry) list"
  lm_graph :: wait_graph
  lm_ranges :: "range_lock list"
  lm_aborted :: "txn_id list"

datatype acquire_result = Done status | Waiting | SelfDeadlock

definition LockManager_new :: lock_manager where
  "LockManager_new = \<lparr>lm_table = [], lm_graph = [], lm_ranges = [], lm_aborted = []\<rparr>"

definition IsX :: "LockType \<Rightarrow> bool" where
  "IsX t \<longleftrightarrow> t = kExclusiveLock"

definition Compatible :: "LockType \<Rightarrow> LockType \<Rightarrow> bool" where
  "Compatible held requested = (if IsX held \<or> IsX requested then False else True)"

fun holders_allow :: "lock_request list \<Rightarrow> txn_id \<Rightarrow> LockType \<Rightarrow> bool" where
  "holders_allow [] requester req = True"
| "holders_allow (h # hs) requester req =
     (if lr_txn h = requester then holders_allow hs requester req
      else if \<not> Compatible (lr_type h) req then False
      else holders_allow hs requester req)"

definition CanGrant :: "lock_entry \<Rightarrow> txn_id \<Rightarrow> LockType \<Rightarrow> bool" where
  "CanGrant entry requester req \<longleftrightarrow>
     holders_allow (holders entry) requester req \<and>
     (case waiters entry of
        [] \<Rightarrow> True
      | w # _ \<Rightarrow> lr_txn w = requester \<and> lr_type w = req)"

definition entry_of :: "lock_manager \<Rightarrow> bytes \<Rightarrow> lock_entry" where
  "entry_of lm key = (case map_of (lm_table lm) key of Some e \<Rightarrow> e | None \<Rightarrow> \<lparr>holders = [], waiters = []\<rparr>)"

fun put_entry :: "(bytes \<times> lock_entry) list \<Rightarrow> bytes \<Rightarrow> lock_entry \<Rightarrow> (bytes \<times> lock_entry) list" where
  "put_entry [] key e = [(key, e)]"
| "put_entry ((k, x) # t) key e = (if k = key then (k, e) # t else (k, x) # put_entry t key e)"

definition set_entry :: "bytes \<Rightarrow> lock_entry \<Rightarrow> lock_manager \<Rightarrow> lock_manager" where
  "set_entry key e lm = lm\<lparr>lm_table := put_entry (lm_table lm) key e\<rparr>"

fun RemoveWaiter :: "lock_request list \<Rightarrow> txn_id \<Rightarrow> lock_request list" where
  "RemoveWaiter [] txn = []"
| "RemoveWaiter (w # ws) txn = (if lr_txn w = txn then ws else w # RemoveWaiter ws txn)"

text \<open>
  \<open>Overlap\<close>, with the empty string as unbounded. \<open>RangeConflicts\<close> passes \<open>key + "\0"\<close>
  as the end of the point's range: a C string literal that is empty, so the sum is \<open>key\<close>.
\<close>

definition Overlap :: "bytes \<Rightarrow> bytes \<Rightarrow> bytes \<Rightarrow> bytes \<Rightarrow> bool" where
  "Overlap s1 e1 s2 e2 =
     ((s1 = [] \<or> e2 = [] \<or> s1 < e2) \<and> (s2 = [] \<or> e1 = [] \<or> s2 < e1))"

fun range_conflict :: "range_lock list \<Rightarrow> bytes \<Rightarrow> bytes \<Rightarrow> bool \<Rightarrow> txn_id \<Rightarrow> bool" where
  "range_conflict [] start stop exclusive requester = False"
| "range_conflict (r # rs) start stop exclusive requester =
     (if rl_txn r = requester then range_conflict rs start stop exclusive requester
      else if \<not> Overlap start stop (rl_start r) (rl_end r)
      then range_conflict rs start stop exclusive requester
      else if rl_exclusive r \<or> exclusive then True
      else range_conflict rs start stop exclusive requester)"

text \<open>
  Both checks begin with a \<open>lock_guard\<close> on \<open>range_mu_\<close>, which is not recursive. Their first
  argument says whether the calling thread already holds it; then the call never returns
  (\<open>None\<close>).
\<close>

definition lock_mutex :: "bool \<Rightarrow> 'a \<Rightarrow> 'a option" where
  "lock_mutex held x = (if held then None else Some x)"

definition RangeConflicts :: "bool \<Rightarrow> range_lock list \<Rightarrow> bytes \<Rightarrow> LockType \<Rightarrow> txn_id \<Rightarrow> bool option" where
  "RangeConflicts held rs key req requester =
     lock_mutex held (range_conflict rs key (key @ []) (IsX req) requester)"

definition RangeConflictsWithRange ::
    "bool \<Rightarrow> range_lock list \<Rightarrow> bytes \<Rightarrow> bytes \<Rightarrow> bool \<Rightarrow> txn_id \<Rightarrow> bool option" where
  "RangeConflictsWithRange held rs start stop exclusive requester =
     lock_mutex held (range_conflict rs start stop exclusive requester)"

section \<open>Acquiring and releasing\<close>

definition add_edges :: "wait_graph \<Rightarrow> txn_id \<Rightarrow> lock_request list \<Rightarrow> wait_graph" where
  "add_edges g txn hs = fold (\<lambda>h g. AddEdge g txn (lr_txn h)) hs g"

text \<open>
  The wait for range locks in \<open>Acquire\<close>: \<open>None\<close> passes it. A conflict makes the code lock
  \<open>range_mu_\<close> and evaluate the condition of its waiting loop with it held.
\<close>

definition range_gate :: "range_lock list \<Rightarrow> bytes \<Rightarrow> LockType \<Rightarrow> txn_id \<Rightarrow> nat \<Rightarrow> acquire_result option" where
  "range_gate rs key ty txn timeout =
     (case RangeConflicts False rs key ty txn of
        None \<Rightarrow> Some SelfDeadlock
      | Some False \<Rightarrow> None
      | Some True \<Rightarrow>
          (case RangeConflicts True rs key ty txn of
             None \<Rightarrow> Some SelfDeadlock
           | Some False \<Rightarrow> None
           | Some True \<Rightarrow> Some (if timeout = 0 then Done (TimedOut ''Range lock busy'') else Waiting)))"

text \<open>
  \<open>Acquire\<close> up to its wait, either on the entry's queue or, on a range conflict, on the
  range condition. The latter wait first evaluates \<open>RangeConflicts\<close> with \<open>range_mu_\<close> held.
\<close>

definition Acquire_start ::
    "lock_manager \<Rightarrow> bytes \<Rightarrow> txn_id \<Rightarrow> LockType \<Rightarrow> nat \<Rightarrow> acquire_result \<times> lock_manager" where
  "Acquire_start lm0 key txn ty timeout =
     (let entry = entry_of lm0 key; lm = set_entry key entry lm0 in
      if txn \<in> set (lm_aborted lm)
      then (Done (Aborted ''Deadlock victim''), lm\<lparr>lm_aborted := removeAll txn (lm_aborted lm)\<rparr>)
      else if range_gate (lm_ranges lm) key ty txn timeout \<noteq> None
      then (the (range_gate (lm_ranges lm) key ty txn timeout), lm)
      else if CanGrant entry txn ty
      then (Done OK, set_entry key (entry\<lparr>holders := holders entry @ [\<lparr>lr_txn = txn, lr_type = ty\<rparr>]\<rparr>) lm)
      else
        let entry1 = entry\<lparr>waiters := waiters entry @ [\<lparr>lr_txn = txn, lr_type = ty\<rparr>]\<rparr>;
            g = add_edges (lm_graph lm) txn (holders entry)
        in if list_ex (\<lambda>h. WouldCreateCycle g txn (lr_txn h)) (holders entry)
           then (Done (Aborted ''Deadlock detected''),
                 set_entry key (entry1\<lparr>waiters := RemoveWaiter (waiters entry1) txn\<rparr>)
                   (lm\<lparr>lm_graph := RemoveEdgesFor g txn\<rparr>))
           else (Waiting, set_entry key entry1 (lm\<lparr>lm_graph := g\<rparr>)))"

text \<open>
  A waiting \<open>Acquire\<close> that looks again, because it was notified or because its time is up
  (\<open>expired\<close>): \<open>Waiting\<close> when it goes on waiting.
\<close>

definition Acquire_wake ::
    "lock_manager \<Rightarrow> bytes \<Rightarrow> txn_id \<Rightarrow> LockType \<Rightarrow> bool \<Rightarrow> acquire_result \<times> lock_manager" where
  "Acquire_wake lm key txn ty expired =
     (let entry = entry_of lm key;
          leave = set_entry key (entry\<lparr>waiters := RemoveWaiter (waiters entry) txn\<rparr>)
                    (lm\<lparr>lm_graph := RemoveEdgesFor (lm_graph lm) txn\<rparr>)
      in if txn \<in> set (lm_aborted lm) then (Done (Aborted ''Deadlock victim''), leave)
         else if CanGrant entry txn ty
         then (Done OK,
               set_entry key
                 (entry\<lparr>waiters := (case waiters entry of
                                      [] \<Rightarrow> []
                                    | w # ws \<Rightarrow> if lr_txn w = txn then ws else w # ws),
                        holders := holders entry @ [\<lparr>lr_txn = txn, lr_type = ty\<rparr>]\<rparr>)
                 (lm\<lparr>lm_graph := RemoveEdgesFor (lm_graph lm) txn\<rparr>))
         else if expired then (Done (TimedOut ''Lock wait timeout''), leave)
         else (Waiting, lm))"

definition TryAcquire :: "lock_manager \<Rightarrow> bytes \<Rightarrow> txn_id \<Rightarrow> LockType \<Rightarrow> status \<times> lock_manager" where
  "TryAcquire lm0 key txn ty =
     (let entry = entry_of lm0 key; lm = set_entry key entry lm0 in
      if txn \<in> set (lm_aborted lm)
      then (Aborted ''Deadlock victim'', lm\<lparr>lm_aborted := removeAll txn (lm_aborted lm)\<rparr>)
      else if RangeConflicts False (lm_ranges lm) key ty txn = Some True then (TimedOut ''Range lock busy'', lm)
      else if \<not> CanGrant entry txn ty then (TimedOut ''Lock busy'', lm)
      else (OK, set_entry key (entry\<lparr>holders := holders entry @ [\<lparr>lr_txn = txn, lr_type = ty\<rparr>]\<rparr>) lm))"

definition drop_holder :: "txn_id \<Rightarrow> lock_entry \<Rightarrow> lock_entry" where
  "drop_holder txn e = e\<lparr>holders := filter (\<lambda>r. lr_txn r \<noteq> txn) (holders e)\<rparr>"

definition Release :: "lock_manager \<Rightarrow> bytes \<Rightarrow> txn_id \<Rightarrow> lock_manager" where
  "Release lm key txn = set_entry key (drop_holder txn (entry_of lm key)) lm"

definition ReleaseAll :: "lock_manager \<Rightarrow> txn_id \<Rightarrow> lock_manager" where
  "ReleaseAll lm txn =
     lm\<lparr>lm_table := map (\<lambda>(k, e). (k, drop_holder txn e)) (lm_table lm),
        lm_graph := RemoveEdgesFor (lm_graph lm) txn,
        lm_ranges := filter (\<lambda>r. rl_txn r \<noteq> txn) (lm_ranges lm)\<rparr>"

text \<open>
  \<open>AcquireRange\<close> locks \<open>range_mu_\<close> (\<open>unique_lock lk\<close>) and evaluates the loop condition
  with it held. \<open>Waiting\<close> is a wait on the range condition.
\<close>

definition AcquireRange ::
    "lock_manager \<Rightarrow> bytes \<Rightarrow> bytes \<Rightarrow> txn_id \<Rightarrow> bool \<Rightarrow> nat \<Rightarrow> acquire_result \<times> lock_manager" where
  "AcquireRange lm start stop txn exclusive timeout =
     (let range_mu_held = True in
      case RangeConflictsWithRange range_mu_held (lm_ranges lm) start stop exclusive txn of
        None \<Rightarrow> (SelfDeadlock, lm)
      | Some True \<Rightarrow> (if timeout = 0 then (Done (TimedOut ''Range lock busy''), lm) else (Waiting, lm))
      | Some False \<Rightarrow>
          (Done OK, lm\<lparr>lm_ranges := lm_ranges lm @
             [\<lparr>rl_txn = txn, rl_start = start, rl_end = stop, rl_exclusive = exclusive\<rparr>]\<rparr>))"

definition DetectAndResolveDeadlocks :: "lock_manager \<Rightarrow> lock_manager" where
  "DetectAndResolveDeadlocks lm =
     (case DetectCycle (lm_graph lm) of
        None \<Rightarrow> lm
      | Some victim \<Rightarrow>
          if victim = 0 then lm
          else let lm1 = ReleaseAll (lm\<lparr>lm_aborted := List.insert victim (lm_aborted lm)\<rparr>) victim
               in lm1\<lparr>lm_table := map (\<lambda>(k, e). (k, e\<lparr>waiters := filter (\<lambda>w. lr_txn w \<noteq> victim) (waiters e)\<rparr>))
                                     (lm_table lm1)\<rparr>)"

section \<open>Cycle detection is exact\<close>

definition edges :: "wait_graph \<Rightarrow> (txn_id \<times> txn_id) set" where
  "edges g = {(x, y). y \<in> set (successors g x)}"

text \<open>A stack of the search is a path, newest node first.\<close>

fun is_path :: "wait_graph \<Rightarrow> txn_id list \<Rightarrow> bool" where
  "is_path g [] \<longleftrightarrow> True"
| "is_path g [x] \<longleftrightarrow> True"
| "is_path g (x # y # zs) \<longleftrightarrow> (y, x) \<in> edges g \<and> is_path g (y # zs)"

lemma path_reach: "is_path g (x # zs) \<Longrightarrow> z \<in> set zs \<Longrightarrow> (z, x) \<in> (edges g)\<^sup>+"
proof (induction zs arbitrary: x)
  case (Cons y zs)
  then have e: "(y, x) \<in> edges g" and p: "is_path g (y # zs)" by auto
  show ?case
  proof (cases "z = y")
    case False
    then have "(z, y) \<in> (edges g)\<^sup>+" using Cons.IH [OF p] Cons.prems(2) by simp
    then show ?thesis using e by (rule trancl.trancl_into_trancl)
  qed (use e in blast)
qed simp

definition can_push :: "wait_graph \<Rightarrow> txn_id \<Rightarrow> txn_id list \<Rightarrow> bool" where
  "can_push g x stack \<longleftrightarrow> (case stack of [] \<Rightarrow> True | y # _ \<Rightarrow> (y, x) \<in> edges g)"

lemma push_path: "is_path g stack \<Longrightarrow> can_push g x stack \<Longrightarrow> is_path g (x # stack)"
  by (cases stack) (auto simp: can_push_def)

lemma push_reach:
  assumes "is_path g stack" "can_push g x stack" "x \<in> set stack"
  shows "(x, x) \<in> (edges g)\<^sup>+"
  using path_reach [OF push_path [OF assms(1,2)] assms(3)] .

lemma Dfs_sound:
  "Dfs g n cur visited stack = Some (True, v', cyc) \<Longrightarrow> is_path g stack \<Longrightarrow> can_push g cur stack \<Longrightarrow>
   \<exists>x \<in> set cyc. (x, x) \<in> (edges g)\<^sup>+"
  "Dfs_all g n xs visited stack = Some (True, v', cyc) \<Longrightarrow> is_path g stack \<Longrightarrow> \<forall>x \<in> set xs. can_push g x stack \<Longrightarrow>
   \<exists>x \<in> set cyc. (x, x) \<in> (edges g)\<^sup>+"
proof (induction g n cur visited stack and g n xs visited stack arbitrary: v' cyc and v' cyc rule: Dfs_Dfs_all.induct)
  case (1 g fuel cur visited stack)
  show ?case
  proof (cases "cur \<in> set stack")
    case True
    then show ?thesis using 1(2-4) push_reach [of g stack cur] by auto
  next
    case False
    then obtain n where n: "fuel = Suc n" "cur \<notin> set visited"
      "Dfs_all g n (successors g cur) (cur # visited) (cur # stack) = Some (True, v', cyc)"
      using 1(2) by (auto split: if_splits nat.splits)
    have "\<forall>x \<in> set (successors g cur). can_push g x (cur # stack)"
      by (simp add: can_push_def edges_def)
    then show ?thesis using 1(1) [OF False n(2,1) n(3) push_path [OF 1(3,4)]] by blast
  qed
next
  case (3 g n x xs visited stack)
  obtain f v1 c1 where d: "Dfs g n x visited stack = Some (f, v1, c1)"
    using 3(3) by (auto split: option.splits)
  show ?case
  proof (cases f)
    case True
    then show ?thesis using 3(1) [of v1 c1] 3(3-5) d by auto
  next
    case False
    then show ?thesis using 3(2) [OF d refl refl _ _ 3(4)] 3(3,5) d by auto
  qed
qed auto

text \<open>
  The finished nodes (visited and off the stack) are closed under edges and on no cycle; the
  search keeps this as long as it answers "no".
\<close>

definition finished_ok :: "wait_graph \<Rightarrow> txn_id set \<Rightarrow> bool" where
  "finished_ok g F \<longleftrightarrow> edges g `` F \<subseteq> F \<and> (\<forall>x \<in> F. (x, x) \<notin> (edges g)\<^sup>+)"

lemma closed_trancl: "(x, y) \<in> E\<^sup>+ \<Longrightarrow> E `` F \<subseteq> F \<Longrightarrow> x \<in> F \<Longrightarrow> y \<in> F"
  by (induction rule: trancl_induct) auto

lemma finished_insert:
  assumes "finished_ok g F" "set (successors g u) \<subseteq> F" "u \<notin> F"
  shows "finished_ok g (insert u F)"
proof -
  have cl: "edges g `` F \<subseteq> F" using assms(1) by (simp add: finished_ok_def)
  have "(u, u) \<notin> (edges g)\<^sup>+"
  proof
    assume "(u, u) \<in> (edges g)\<^sup>+"
    then obtain y where y: "(u, y) \<in> edges g" "(y, u) \<in> (edges g)\<^sup>*" by (meson tranclD)
    then have "y \<in> F" using assms(2) by (auto simp: edges_def)
    moreover have "(y, u) \<in> (edges g)\<^sup>+ \<or> y = u" using y(2) by (metis rtranclD)
    ultimately show False using closed_trancl [of y u "edges g" F] cl assms(3) by blast
  qed
  moreover have "edges g `` insert u F \<subseteq> insert u F" using cl assms(2) by (auto simp: edges_def)
  ultimately show ?thesis using assms(1) by (simp add: finished_ok_def)
qed

lemma Dfs_complete:
  "Dfs g n cur visited stack = Some (False, v', cyc) \<Longrightarrow> set stack \<subseteq> set visited \<Longrightarrow>
   finished_ok g (set visited - set stack) \<Longrightarrow>
   set visited \<subseteq> set v' \<and> cur \<in> set v' - set stack \<and> finished_ok g (set v' - set stack)"
  "Dfs_all g n xs visited stack = Some (False, v', cyc) \<Longrightarrow> set stack \<subseteq> set visited \<Longrightarrow>
   finished_ok g (set visited - set stack) \<Longrightarrow>
   set visited \<subseteq> set v' \<and> set xs \<subseteq> set v' - set stack \<and> finished_ok g (set v' - set stack)"
proof (induction g n cur visited stack and g n xs visited stack arbitrary: v' cyc and v' cyc rule: Dfs_Dfs_all.induct)
  case (1 g fuel cur visited stack)
  have ns: "cur \<notin> set stack" using 1(2) by (auto split: if_splits)
  show ?case
  proof (cases "cur \<in> set visited")
    case True
    then show ?thesis using 1(2-4) ns by (auto split: if_splits)
  next
    case False
    then obtain n where n: "fuel = Suc n"
      "Dfs_all g n (successors g cur) (cur # visited) (cur # stack) = Some (False, v', cyc)"
      using 1(2) ns by (auto split: if_splits nat.splits)
    have "set (cur # visited) - set (cur # stack) = set visited - set stack" using False 1(3) by auto
    then have r: "set (cur # visited) \<subseteq> set v'" "set (successors g cur) \<subseteq> set v' - set (cur # stack)"
      "finished_ok g (set v' - set (cur # stack))"
      using 1(1) [OF ns False n(1) n(2)] 1(3,4) by auto
    have "set v' - set stack = insert cur (set v' - set (cur # stack))" using r(1) ns by auto
    then show ?thesis using finished_insert [OF r(3) r(2)] r(1) ns by auto
  qed
next
  case (3 g n x xs visited stack)
  obtain v1 c1 where d: "Dfs g n x visited stack = Some (False, v1, c1)"
    "Dfs_all g n xs v1 stack = Some (False, v', cyc)"
    using 3(3) by (auto split: option.splits if_splits)
  have a: "set visited \<subseteq> set v1" "x \<in> set v1 - set stack" "finished_ok g (set v1 - set stack)"
    using 3(1) [OF d(1) 3(4,5)] by auto
  have "set stack \<subseteq> set v1" using a(1) 3(4) by blast
  then show ?case using 3(2) [OF d(1) refl refl _ d(2)] a by auto
qed auto

lemma Dfs_mono:
  "Dfs g n cur visited stack = Some (f, v', cyc) \<Longrightarrow> set visited \<subseteq> set v'"
  "Dfs_all g n xs visited stack = Some (f, v', cyc) \<Longrightarrow> set visited \<subseteq> set v'"
proof (induction g n cur visited stack and g n xs visited stack arbitrary: f v' cyc and f v' cyc rule: Dfs_Dfs_all.induct)
  case (1 g fuel cur visited stack)
  then show ?case by (cases fuel) (force split: if_splits)+
next
  case (3 g n x xs visited stack)
  obtain f1 v1 c1 where d: "Dfs g n x visited stack = Some (f1, v1, c1)"
    using 3(3) by (auto split: option.splits)
  then show ?case using 3(1) [OF d] 3(2) [OF d refl refl] 3(3) by (cases f1) auto
qed auto

lemma nodes_successors: "y \<in> set (successors g x) \<Longrightarrow> y \<in> set (graph_nodes g)"
proof (cases "map_of g x")
  case (Some hs)
  then have "(x, hs) \<in> set g" by (rule map_of_SomeD)
  moreover assume "y \<in> set (successors g x)"
  ultimately show ?thesis using Some by (force simp: successors_def graph_nodes_def)
qed (simp add: successors_def)

lemma Dfs_fuel:
  "finite N \<Longrightarrow> set (graph_nodes g) \<subseteq> N \<Longrightarrow> cur \<in> N \<Longrightarrow> card (N - set visited) \<le> n \<Longrightarrow>
   Dfs g n cur visited stack \<noteq> None"
  "finite N \<Longrightarrow> set (graph_nodes g) \<subseteq> N \<Longrightarrow> set xs \<subseteq> N \<Longrightarrow> card (N - set visited) \<le> n \<Longrightarrow>
   Dfs_all g n xs visited stack \<noteq> None"
proof (induction g n cur visited stack and g n xs visited stack rule: Dfs_Dfs_all.induct)
  case (1 g fuel cur visited stack)
  show ?case
  proof (cases "cur \<in> set stack \<or> cur \<in> set visited")
    case False
    then have lt: "card (N - set (cur # visited)) < card (N - set visited)"
      using 1(2,4) by (intro psubset_card_mono) auto
    then obtain n where n: "fuel = Suc n" using 1(5) by (cases fuel) auto
    have "set (successors g cur) \<subseteq> N" using nodes_successors 1(3) by blast
    then have "Dfs_all g n (successors g cur) (cur # visited) (cur # stack) \<noteq> None"
      using 1(1) [OF _ _ n] False 1(2,3,5) lt n by auto
    then show ?thesis using False n by simp
  qed auto
next
  case (3 g n x xs visited stack)
  then have "Dfs g n x visited stack \<noteq> None" by simp
  then obtain f v1 c1 where d: "Dfs g n x visited stack = Some (f, v1, c1)" by auto
  have "card (N - set v1) \<le> card (N - set visited)"
    using Dfs_mono(1) [OF d] 3(3) by (intro card_mono) auto
  then show ?case using 3(2) [OF d refl refl] 3(3-6) d by (cases f) auto
qed auto

lemma Dfs_returns: "Dfs g (dfs_fuel g) t [] [] \<noteq> None"
proof (rule Dfs_fuel(1))
  have "card (insert t (set (graph_nodes g))) \<le> Suc (card (set (graph_nodes g)))" by (simp add: card_insert_if)
  also have "\<dots> \<le> dfs_fuel g" by (simp add: dfs_fuel_def card_length)
  finally show "card (insert t (set (graph_nodes g)) - set []) \<le> dfs_fuel g" by simp
qed auto

lemma Dfs_found_iff:
  assumes "Dfs g (dfs_fuel g) t [] [] = Some (f, v, cyc)"
  shows "f \<Longrightarrow> \<exists>x \<in> set cyc. (x, x) \<in> (edges g)\<^sup>+" "\<not> f \<Longrightarrow> (t, t) \<notin> (edges g)\<^sup>+"
proof -
  show "f \<Longrightarrow> \<exists>x \<in> set cyc. (x, x) \<in> (edges g)\<^sup>+"
    using Dfs_sound(1) [of g "dfs_fuel g" t "[]" "[]" v cyc] assms by (simp add: can_push_def)
  show "\<not> f \<Longrightarrow> (t, t) \<notin> (edges g)\<^sup>+"
    using Dfs_complete(1) [of g "dfs_fuel g" t "[]" "[]" v cyc] assms by (auto simp: finished_ok_def)
qed

lemma cycle_node: "(x, x) \<in> (edges g)\<^sup>+ \<Longrightarrow> x \<in> set (graph_nodes g)"
  by (metis tranclE edges_def case_prodD mem_Collect_eq nodes_successors)

lemma DetectCycle_loop_iff:
  "(DetectCycle_loop g ts \<noteq> None \<longrightarrow> \<not> acyclic (edges g)) \<and>
   (DetectCycle_loop g ts = None \<longrightarrow> (\<forall>t \<in> set ts. (t, t) \<notin> (edges g)\<^sup>+))"
proof (induction ts)
  case (Cons t ts)
  obtain f v c where d: "Dfs g (dfs_fuel g) t [] [] = Some (f, v, c)"
    using Dfs_returns [of g t] by auto
  show ?case using Cons Dfs_found_iff [OF d] d by (cases f) (auto simp: acyclic_def)
qed simp

lemma DetectCycle_iff: "DetectCycle g \<noteq> None \<longleftrightarrow> \<not> acyclic (edges g)"
  using DetectCycle_loop_iff [of g "graph_nodes g"] cycle_node unfolding DetectCycle_def acyclic_def by blast

lemma set_AddEdge: "edges (AddEdge g a b) = insert (a, b) (edges g)"
proof (induction g a b rule: AddEdge.induct)
  case (1 waiter holder)
  then show ?case by (auto simp: edges_def successors_def split: if_splits)
next
  case (2 t hs g waiter holder)
  have e: "edges ((t, hs) # g) = {(t, y) | y. y \<in> set hs} \<union> {(x, y). x \<noteq> t \<and> (x, y) \<in> edges g}" for t hs g
    by (auto simp: edges_def successors_def split: if_splits)
  show ?case using 2 by (auto simp: e)
qed

lemma edges_Remove: "edges (RemoveEdgesFor g t) = {(x, y). (x, y) \<in> edges g \<and> x \<noteq> t \<and> y \<noteq> t}"
proof -
  have "map_of (RemoveEdgesFor g t) x = (if x = t then None else map_option (filter (\<lambda>h. h \<noteq> t)) (map_of g x))" for x
    by (induction g) (auto simp: RemoveEdgesFor_def)
  then have "successors (RemoveEdgesFor g t) x = (if x = t then [] else filter (\<lambda>h. h \<noteq> t) (successors g x))" for x
    by (cases "map_of g x") (simp_all add: successors_def)
  then show ?thesis by (auto simp: edges_def split: if_splits)
qed

section \<open>Executions of the lock manager\<close>

text \<open>Any interleaving of the operations, each call and each wake-up by any transaction.\<close>

inductive lock_step :: "lock_manager \<Rightarrow> lock_manager \<Rightarrow> bool" where
  step_acquire: "lock_step lm (snd (Acquire_start lm key t ty timeout))"
| step_wake: "lock_step lm (snd (Acquire_wake lm key t ty expired))"
| step_try: "lock_step lm (snd (TryAcquire lm key t ty))"
| step_release: "lock_step lm (Release lm key t)"
| step_release_all: "lock_step lm (ReleaseAll lm t)"
| step_range: "lock_step lm (snd (AcquireRange lm start stop t excl timeout))"
| step_detect: "lock_step lm (DetectAndResolveDeadlocks lm)"

inductive lock_reachable :: "lock_manager \<Rightarrow> bool" where
  init: "lock_reachable LockManager_new"
| step: "lock_reachable lm \<Longrightarrow> lock_step lm lm' \<Longrightarrow> lock_reachable lm'"

text \<open>Two transactions hold one key only when both locks are shared.\<close>

definition entry_ok :: "lock_entry \<Rightarrow> bool" where
  "entry_ok e \<longleftrightarrow> (\<forall>h \<in> set (holders e). \<forall>h' \<in> set (holders e).
     lr_txn h \<noteq> lr_txn h' \<longrightarrow> lr_type h = kSharedLock \<and> lr_type h' = kSharedLock)"

definition table_ok :: "lock_manager \<Rightarrow> bool" where
  "table_ok lm \<longleftrightarrow> (\<forall>p \<in> set (lm_table lm). entry_ok (snd p))"

lemma set_put_entry: "p \<in> set (put_entry t key e) \<Longrightarrow> p = (key, e) \<or> p \<in> set t"
  by (induction t key e rule: put_entry.induct) (auto split: if_splits)

lemma map_of_put_entry: "map_of (put_entry t key e) = (map_of t)(key \<mapsto> e)"
  by (induction t key e rule: put_entry.induct) (auto simp: fun_eq_iff)

lemma entry_of_set [simp]: "entry_of (set_entry key e lm) k = (if k = key then e else entry_of lm k)"
  by (simp add: entry_of_def set_entry_def map_of_put_entry)

lemma entry_of_graph [simp]:
  "entry_of (lm\<lparr>lm_graph := g\<rparr>) k = entry_of lm k" "entry_of (lm\<lparr>lm_aborted := a\<rparr>) k = entry_of lm k"
  by (simp_all add: entry_of_def)

lemma set_entry_fields [simp]:
  "lm_graph (set_entry key e lm) = lm_graph lm" "lm_ranges (set_entry key e lm) = lm_ranges lm"
  "lm_aborted (set_entry key e lm) = lm_aborted lm"
  by (simp_all add: set_entry_def)

lemma table_ok_set [intro]: "table_ok lm \<Longrightarrow> entry_ok e \<Longrightarrow> table_ok (set_entry key e lm)"
  by (auto simp: table_ok_def set_entry_def dest: set_put_entry)

lemma table_ok_fields [simp]:
  "table_ok (lm\<lparr>lm_graph := g\<rparr>) = table_ok lm" "table_ok (lm\<lparr>lm_aborted := a\<rparr>) = table_ok lm"
  "table_ok (lm\<lparr>lm_ranges := r\<rparr>) = table_ok lm"
  by (simp_all add: table_ok_def)

lemma entry_of_ok: "table_ok lm \<Longrightarrow> entry_ok (entry_of lm key)"
  by (auto simp: table_ok_def entry_of_def entry_ok_def dest: map_of_SomeD split: option.splits)

lemma entry_ok_waiters [simp]: "entry_ok (e\<lparr>waiters := w\<rparr>) = entry_ok e"
  by (simp add: entry_ok_def)

lemma entry_ok_drop: "entry_ok e \<Longrightarrow> entry_ok (drop_holder t e)"
  by (auto simp: entry_ok_def drop_holder_def)

lemma holders_allow_iff:
  "holders_allow hs t ty \<longleftrightarrow> (\<forall>h \<in> set hs. lr_txn h = t \<or> lr_type h = kSharedLock \<and> ty = kSharedLock)"
proof (induction hs)
  case (Cons h hs)
  then show ?case by (cases "lr_type h"; cases ty) (auto simp: Compatible_def IsX_def)
qed simp

lemma entry_ok_grant:
  assumes "entry_ok e" "CanGrant e t ty"
  shows "entry_ok (e\<lparr>holders := holders e @ [\<lparr>lr_txn = t, lr_type = ty\<rparr>]\<rparr>)"
  using assms by (auto simp: entry_ok_def CanGrant_def holders_allow_iff)

lemma lock_step_ok:
  assumes "lock_step lm lm'" "table_ok lm"
  shows "table_ok lm'"
  using assms
proof (induction rule: lock_step.induct)
  case (step_acquire lm key t ty timeout)
  show ?case unfolding Acquire_start_def Let_def
    using step_acquire entry_of_ok [OF step_acquire, of key] entry_ok_grant [of "entry_of lm key" t ty]
    by (auto intro!: table_ok_set)
next
  case (step_wake lm key t ty expired)
  have "entry_ok (entry_of lm key\<lparr>waiters := w, holders := holders (entry_of lm key) @ [\<lparr>lr_txn = t, lr_type = ty\<rparr>]\<rparr>)"
    if "CanGrant (entry_of lm key) t ty" for w
    using entry_ok_grant [OF entry_of_ok [OF step_wake] that] by (simp add: entry_ok_def)
  then show ?case unfolding Acquire_wake_def Let_def
    using step_wake entry_of_ok [OF step_wake, of key] by (auto intro!: table_ok_set)
next
  case (step_try lm key t ty)
  show ?case unfolding TryAcquire_def Let_def
    using step_try entry_of_ok [OF step_try, of key] entry_ok_grant [of "entry_of lm key" t ty]
    by (auto intro!: table_ok_set)
next
  case (step_release lm key t)
  then show ?case unfolding Release_def
    using step_release entry_ok_drop [OF entry_of_ok [OF step_release]] by auto
next
  case (step_release_all lm t)
  then show ?case using step_release_all by (auto simp: ReleaseAll_def table_ok_def entry_ok_drop)
next
  case (step_range lm)
  then show ?case using step_range
    by (auto simp: AcquireRange_def RangeConflictsWithRange_def lock_mutex_def)
next
  case (step_detect lm)
  then show ?case using step_detect
    by (auto simp: DetectAndResolveDeadlocks_def ReleaseAll_def table_ok_def entry_ok_drop Let_def split: option.splits)
qed

lemma reachable_table_ok: "lock_reachable lm \<Longrightarrow> table_ok lm"
  by (induction rule: lock_reachable.induct) (simp_all add: LockManager_new_def table_ok_def [of LockManager_new, unfolded LockManager_new_def] lock_step_ok)

lemma edges_add: "edges (add_edges g t hs) = edges g \<union> {(t, lr_txn h) | h. h \<in> set hs}"
  unfolding add_edges_def by (induction hs arbitrary: g) (auto simp: set_AddEdge)

text \<open>A cycle that new edges out of \<open>t\<close> close goes through \<open>t\<close>.\<close>

lemma acyclic_add_edges:
  assumes "acyclic E" "(t, t) \<notin> (E \<union> {t} \<times> H)\<^sup>+"
  shows "acyclic (E \<union> {t} \<times> H)"
proof (rule acyclicI, rule allI, rule notI)
  let ?E = "E \<union> {t} \<times> H"
  fix x assume x: "(x, x) \<in> ?E\<^sup>+"
  have split': "(a, b) \<in> ?E\<^sup>+ \<Longrightarrow> (a, b) \<in> E\<^sup>+ \<or> (a, t) \<in> ?E\<^sup>* \<and> (t, b) \<in> ?E\<^sup>+" for a b
  proof (induction rule: trancl_induct)
    case (base y)
    then show ?case by auto
  next
    case (step y z)
    show ?case
    proof (cases "(y, z) \<in> E")
      case True
      then show ?thesis using step by (meson UnI1 trancl.trancl_into_trancl)
    next
      case False
      then have "y = t" using step(2) by auto
      then show ?thesis using step(1,2) by (metis r_into_trancl trancl_into_rtrancl)
    qed
  qed
  from split' [OF x] show False
  proof
    assume "(x, x) \<in> E\<^sup>+" then show False using assms(1) by (simp add: acyclic_def)
  next
    assume "(x, t) \<in> ?E\<^sup>* \<and> (t, x) \<in> ?E\<^sup>+"
    then have "(t, t) \<in> ?E\<^sup>+" by (meson trancl_rtrancl_trancl)
    then show False using assms(2) by simp
  qed
qed

lemma not_WouldCreateCycle: "\<not> WouldCreateCycle g t h \<Longrightarrow> (t, t) \<notin> (edges g)\<^sup>+"
proof -
  assume n: "\<not> WouldCreateCycle g t h"
  obtain f v c where d: "Dfs g (dfs_fuel g) t [] [] = Some (f, v, c)" using Dfs_returns [of g t] by auto
  then have "\<not> f" using n by (simp add: WouldCreateCycle_def)
  then show ?thesis using Dfs_found_iff(2) [OF d] by simp
qed

lemma acyclic_Remove: "acyclic (edges g) \<Longrightarrow> acyclic (edges (RemoveEdgesFor g t))"
  by (rule acyclic_subset) (auto simp: edges_Remove)

lemma acyclic_waiting:
  assumes "acyclic (edges g)" "\<not> list_ex (\<lambda>h. WouldCreateCycle (add_edges g t hs) t (lr_txn h)) hs"
  shows "acyclic (edges (add_edges g t hs))"
proof (cases hs)
  case Nil
  then show ?thesis using assms(1) by (simp add: add_edges_def)
next
  case (Cons h hs')
  then have "(t, t) \<notin> (edges (add_edges g t hs))\<^sup>+"
    using assms(2) by (intro not_WouldCreateCycle [where h = "lr_txn h"]) simp
  moreover have "edges (add_edges g t hs) = edges g \<union> {t} \<times> (lr_txn ` set hs)"
    by (auto simp: edges_add)
  ultimately show ?thesis using acyclic_add_edges [OF assms(1)] by simp
qed

lemma edges_add_Remove: "edges (RemoveEdgesFor (add_edges g t hs) t) = edges (RemoveEdgesFor g t)"
  by (auto simp: edges_Remove edges_add)

lemma lock_step_acyclic:
  assumes "lock_step lm lm'" "acyclic (edges (lm_graph lm))"
  shows "acyclic (edges (lm_graph lm'))"
  using assms
proof (induction rule: lock_step.induct)
  case (step_acquire lm key t ty timeout)
  show ?case unfolding Acquire_start_def Let_def
    using step_acquire acyclic_Remove [OF step_acquire, of t] acyclic_waiting [OF step_acquire, of t "holders (entry_of lm key)"]
    by (simp add: edges_add_Remove)
next
  case (step_wake lm key t ty expired)
  show ?case unfolding Acquire_wake_def Let_def
    using step_wake acyclic_Remove [OF step_wake, of t] by simp
next
  case (step_detect lm)
  then show ?case using step_detect acyclic_Remove
    by (simp add: DetectAndResolveDeadlocks_def ReleaseAll_def Let_def split: option.splits)
qed (auto simp: TryAcquire_def Release_def ReleaseAll_def AcquireRange_def Let_def acyclic_Remove
    RangeConflictsWithRange_def lock_mutex_def)

lemma edges_Nil: "acyclic (edges [])"
  by (simp add: edges_def successors_def acyclic_def)

lemma reachable_acyclic: "lock_reachable lm \<Longrightarrow> acyclic (edges (lm_graph lm))"
  by (induction rule: lock_reachable.induct)
    (simp_all add: LockManager_new_def edges_Nil lock_step_acyclic)

section \<open>Theorems\<close>

text \<open>C33: mutual exclusion. In every state that any interleaving of lock-manager calls and
  wake-ups can reach, if two different transactions hold a lock on one key, both locks are
  shared.\<close>

theorem locks_mutual_exclusion:
  assumes "lock_reachable lm" "h \<in> set (holders (entry_of lm key))" "h' \<in> set (holders (entry_of lm key))"
    and "lr_txn h \<noteq> lr_txn h'"
  shows "lr_type h = kSharedLock \<and> lr_type h' = kSharedLock"
  using entry_of_ok [OF reachable_table_ok [OF assms(1)], of key] assms(2-4) by (auto simp: entry_ok_def)

theorem locks_mutual_exclusion_witness:
  "\<exists>lm. lock_reachable lm \<and>
     holders (entry_of lm [1]) = [\<lparr>lr_txn = 1, lr_type = kSharedLock\<rparr>, \<lparr>lr_txn = 2, lr_type = kSharedLock\<rparr>] \<and>
     lr_type (hd (holders (entry_of lm [1]))) = kSharedLock"
proof -
  let ?l1 = "snd (TryAcquire LockManager_new [1] 1 kSharedLock)"
  let ?l2 = "snd (TryAcquire ?l1 [1] 2 kSharedLock)"
  have r: "lock_reachable ?l2" by (intro lock_reachable.step [OF lock_reachable.step [OF init step_try] step_try])
  have h: "holders (entry_of ?l2 [1]) = [\<lparr>lr_txn = 1, lr_type = kSharedLock\<rparr>, \<lparr>lr_txn = 2, lr_type = kSharedLock\<rparr>]"
    by (simp add: TryAcquire_def LockManager_new_def entry_of_def set_entry_def RangeConflicts_def lock_mutex_def
        CanGrant_def Compatible_def IsX_def Let_def)
  have "lr_type (hd (holders (entry_of ?l2 [1]))) = kSharedLock"
    using locks_mutual_exclusion [OF r, of "hd (holders (entry_of ?l2 [1]))" "[1]" "\<lparr>lr_txn = 2, lr_type = kSharedLock\<rparr>"]
    unfolding h by simp
  then show ?thesis using r h by blast
qed


text \<open>C39: the check made before every wait keeps the wait-for graph without cycles in every
  reachable state, so the background resolver never finds anything to do.\<close>

theorem wait_graph_acyclic:
  assumes "lock_reachable lm"
  shows "acyclic (edges (lm_graph lm)) \<and> DetectAndResolveDeadlocks lm = lm"
proof -
  have a: "acyclic (edges (lm_graph lm))" by (rule reachable_acyclic [OF assms])
  then have "DetectCycle (lm_graph lm) = None" using DetectCycle_iff [of "lm_graph lm"] by blast
  then show ?thesis using a by (simp add: DetectAndResolveDeadlocks_def)
qed

text \<open>Two transactions wait for each other: transaction 3 waits for key 1, which transaction 2
  was granted after transaction 3 had queued, and transaction 2 waits for key 2, held by
  transaction 3. No edge was ever added from 3 to 2, so the graph shows no cycle and the resolver
  leaves both waiting.\<close>

definition deadlock_trace :: "lock_manager list" where
  "deadlock_trace =
     (let s1 = snd (Acquire_start LockManager_new [2] 3 kExclusiveLock 10);
          s2 = snd (Acquire_start s1 [1] 1 kExclusiveLock 10);
          s3 = snd (Acquire_start s2 [1] 2 kExclusiveLock 10);
          s4 = snd (Acquire_start s3 [1] 3 kExclusiveLock 10);
          s5 = ReleaseAll s4 1;
          s6 = snd (Acquire_wake s5 [1] 2 kExclusiveLock False);
          s7 = snd (Acquire_start s6 [2] 2 kExclusiveLock 10)
      in [s1, s2, s3, s4, s5, s6, s7])"

lemma deadlock_state:
  "last deadlock_trace =
    \<lparr>lm_table = [([2], \<lparr>holders = [\<lparr>lr_txn = 3, lr_type = kExclusiveLock\<rparr>], waiters = [\<lparr>lr_txn = 2, lr_type = kExclusiveLock\<rparr>]\<rparr>),
                 ([1], \<lparr>holders = [\<lparr>lr_txn = 2, lr_type = kExclusiveLock\<rparr>], waiters = [\<lparr>lr_txn = 3, lr_type = kExclusiveLock\<rparr>]\<rparr>)],
     lm_graph = [(3, []), (2, [3])], lm_ranges = [], lm_aborted = []\<rparr>"
  by code_simp

lemma deadlock_trace_reachable: "lock_reachable (last deadlock_trace)"
proof -
  let ?s1 = "snd (Acquire_start LockManager_new [2] 3 kExclusiveLock 10)"
  let ?s2 = "snd (Acquire_start ?s1 [1] 1 kExclusiveLock 10)"
  let ?s3 = "snd (Acquire_start ?s2 [1] 2 kExclusiveLock 10)"
  let ?s4 = "snd (Acquire_start ?s3 [1] 3 kExclusiveLock 10)"
  let ?s5 = "ReleaseAll ?s4 1"
  let ?s6 = "snd (Acquire_wake ?s5 [1] 2 kExclusiveLock False)"
  let ?s7 = "snd (Acquire_start ?s6 [2] 2 kExclusiveLock 10)"
  have "lock_reachable ?s3" by (intro step [OF step [OF step [OF init step_acquire] step_acquire] step_acquire])
  then have "lock_reachable ?s5" by (intro step [OF step [OF _ step_acquire] step_release_all])
  then have "lock_reachable ?s7" by (intro step [OF step [OF _ step_wake] step_acquire])
  then show ?thesis by (simp only: deadlock_trace_def Let_def last.simps list.distinct if_False if_True refl simp_thms)
qed

theorem wait_graph_acyclic_witness:
  "acyclic (edges (lm_graph (last deadlock_trace))) \<and>
   DetectAndResolveDeadlocks (last deadlock_trace) = last deadlock_trace"
  by (rule wait_graph_acyclic [OF deadlock_trace_reachable])

text \<open>a real deadlock goes undetected. In this reachable state transaction 2 holds key 1 and
  waits for key 2, transaction 3 holds key 2 and waits for key 1; neither can be granted, and the
  resolver does nothing: the edges of a waiter are not updated when the lock it waits for passes to
  another waiter.\<close>

theorem deadlock_undetected:
  "let lm = last deadlock_trace in
     lock_reachable lm \<and>
     holders (entry_of lm [1]) = [\<lparr>lr_txn = 2, lr_type = kExclusiveLock\<rparr>] \<and>
     waiters (entry_of lm [1]) = [\<lparr>lr_txn = 3, lr_type = kExclusiveLock\<rparr>] \<and>
     holders (entry_of lm [2]) = [\<lparr>lr_txn = 3, lr_type = kExclusiveLock\<rparr>] \<and>
     waiters (entry_of lm [2]) = [\<lparr>lr_txn = 2, lr_type = kExclusiveLock\<rparr>] \<and>
     fst (Acquire_wake lm [1] 3 kExclusiveLock False) = Waiting \<and>
     fst (Acquire_wake lm [2] 2 kExclusiveLock False) = Waiting \<and>
     DetectCycle (lm_graph lm) = None"
proof -
  have "DetectCycle (lm_graph (last deadlock_trace)) = None"
    using DetectCycle_iff reachable_acyclic [OF deadlock_trace_reachable] by blast
  then show ?thesis using deadlock_trace_reachable unfolding Let_def deadlock_state
    by (simp add: entry_of_def Acquire_wake_def CanGrant_def Compatible_def IsX_def Let_def)
qed

text \<open>the victim may be innocent. The victim is the largest identifier on the search's stack,
  which also holds the nodes that merely lead to the cycle: here transaction 9 waits for 1, which
  is in a cycle with 2, and 9 is chosen although it is on no cycle.\<close>

theorem victim_off_cycle:
  "let g = [(9, [1]), (1, [2]), (2, [1])]
   in DetectCycle g = Some 9 \<and> (9, 9) \<notin> (edges g)\<^sup>+"
proof -
  let ?g = "[(9, [1]), (1, [2]), (2, [1])] :: wait_graph"
  have "edges ?g = {(9, 1), (1, 2), (2, 1)}"
    by (auto simp: edges_def successors_def split: if_splits)
  moreover have "(9, 9) \<notin> {(9, 1), (1, 2), (2, 1 :: u64)}\<^sup>+"
  proof
    assume "(9, 9) \<in> {(9, 1), (1, 2), (2, 1 :: u64)}\<^sup>+"
    then show False by (rule tranclE) auto
  qed
  moreover have "DetectCycle ?g = Some 9" by code_simp
  ultimately show ?thesis by simp
qed

text \<open>a transaction that locks a key again while another one is queued for it is aborted as a
  deadlock, although it holds the lock already: it waits behind the queue, and the edges it adds
  include one to itself.\<close>

theorem reentrant_lock_aborts:
  assumes "h \<in> set (holders (entry_of lm key))" "lr_txn h = t"
    and "waiters (entry_of lm key) = w # ws" "lr_txn w \<noteq> t"
    and "t \<notin> set (lm_aborted lm)" "lm_ranges lm = []"
  shows "fst (Acquire_start lm key t ty timeout) = Done (Aborted ''Deadlock detected'')"
proof -
  let ?g = "add_edges (lm_graph lm) t (holders (entry_of lm key))"
  have "(t, t) \<in> (edges ?g)\<^sup>+" using assms(1,2) by (auto simp: edges_add)
  then have "WouldCreateCycle ?g t (lr_txn h)" using not_WouldCreateCycle by blast
  then have "list_ex (\<lambda>h. WouldCreateCycle ?g t (lr_txn h)) (holders (entry_of lm key))"
    using assms(1) by (auto simp: list_ex_iff)
  then show ?thesis using assms(3-6)
    by (simp add: Acquire_start_def Let_def range_gate_def RangeConflicts_def lock_mutex_def CanGrant_def)
qed

theorem reentrant_lock_aborts_witness:
  "fst (Acquire_start
     (snd (Acquire_start (snd (Acquire_start LockManager_new [1] 5 kExclusiveLock 10)) [1] 6 kExclusiveLock 10))
     [1] 5 kExclusiveLock 10) = Done (Aborted ''Deadlock detected'')"
proof -
  let ?lm = "snd (Acquire_start (snd (Acquire_start LockManager_new [1] 5 kExclusiveLock 10)) [1] 6 kExclusiveLock 10)"
  have lm: "?lm = \<lparr>lm_table = [([1], \<lparr>holders = [\<lparr>lr_txn = 5, lr_type = kExclusiveLock\<rparr>],
      waiters = [\<lparr>lr_txn = 6, lr_type = kExclusiveLock\<rparr>]\<rparr>)],
     lm_graph = [(6, [5])], lm_ranges = [], lm_aborted = []\<rparr>" by code_simp
  show ?thesis
    by (rule reentrant_lock_aborts [of "\<lparr>lr_txn = 5, lr_type = kExclusiveLock\<rparr>" _ _ _ "\<lparr>lr_txn = 6, lr_type = kExclusiveLock\<rparr>" "[]"])
      (unfold lm, simp_all add: entry_of_def)
qed


text \<open>the range check of a point lock protects \<open>(start, end)\<close> and not \<open>[start, end)\<close> as the
  interface says: for a nonempty key it reports a conflict with another transaction's exclusive range
  exactly when the key lies strictly between the bounds (an empty bound is open). The start key
  itself is not protected.\<close>

theorem range_check_excludes_start:
  assumes "key \<noteq> []" "t \<noteq> t'"
  shows "RangeConflicts False [\<lparr>rl_txn = t', rl_start = s, rl_end = e, rl_exclusive = True\<rparr>] key ty t =
    Some ((e = [] \<or> key < e) \<and> (s = [] \<or> s < key))"
  using assms by (auto simp: RangeConflicts_def lock_mutex_def Overlap_def)

theorem range_check_excludes_start_witness:
  "RangeConflicts False [\<lparr>rl_txn = 1, rl_start = [5], rl_end = [9], rl_exclusive = True\<rparr>] [5] kExclusiveLock 2 = Some False"
  by (subst range_check_excludes_start) simp_all

text \<open>\<open>ReleaseAll\<close> releases everything: afterwards the transaction holds no point or range
  lock and has no edge in the wait-for graph, and every other holder keeps its locks.\<close>

theorem release_all_complete:
  "holders (entry_of (ReleaseAll lm t) key) = filter (\<lambda>r. lr_txn r \<noteq> t) (holders (entry_of lm key)) \<and>
   waiters (entry_of (ReleaseAll lm t) key) = waiters (entry_of lm key) \<and>
   edges (lm_graph (ReleaseAll lm t)) = {(x, y). (x, y) \<in> edges (lm_graph lm) \<and> x \<noteq> t \<and> y \<noteq> t} \<and>
   lm_ranges (ReleaseAll lm t) = filter (\<lambda>r. rl_txn r \<noteq> t) (lm_ranges lm)"
  by (cases "map_of (lm_table lm) key")
    (simp_all add: ReleaseAll_def entry_of_def map_of_map_snd drop_holder_def edges_Remove)

end
