(* ===== verification/Transactions.thy ===== *)
theory Transactions
  imports Locks Comparators
begin

text \<open>
  Transactions (src/concurrency/transaction.cc, tx_manager.cc and their headers): the manager
  with its two generators, active set, locks and version chains; a transaction object with its
  view, touched keys and read set; commit, rollback and the paths in between; the merged
  iterator. The write-ahead log and the LSM tree are used through the operations a transaction
  calls, collected in two records that stand for these objects; \<open>None\<close> is a null pointer. A
  call that blocks in the lock manager ends in \<open>Waiting\<close>, and its continuation runs when the
  lock manager wakes it.
\<close>

section \<open>State\<close>

datatype IsolationLevel = kReadUncommitted | kReadCommitted | kRepeatableRead | kSerializable

record txn_options =
  isolation :: IsolationLevel
  lock_timeout :: nat
  new_snapshot_on_commit :: bool
  enable_rr_validation :: bool

definition default_txn_options :: txn_options where
  "default_txn_options =
     \<lparr>isolation = kReadCommitted, lock_timeout = 10000, new_snapshot_on_commit = False, enable_rr_validation = False\<rparr>"

record 'w wal_ops =
  WritePut :: "'w \<Rightarrow> u32 \<Rightarrow> bytes \<Rightarrow> bytes \<Rightarrow> snap_seq \<Rightarrow> status \<times> 'w"
  WriteDelete :: "'w \<Rightarrow> u32 \<Rightarrow> bytes \<Rightarrow> snap_seq \<Rightarrow> status \<times> 'w"
  WalSync :: "'w \<Rightarrow> status \<times> 'w"

record 'l lsm_ops =
  LsmGet :: "'l \<Rightarrow> bytes \<Rightarrow> snap_seq \<Rightarrow> status \<times> bytes"
  LsmPut :: "'l \<Rightarrow> bytes \<Rightarrow> bytes \<Rightarrow> snap_seq \<Rightarrow> status \<times> 'l"
  LsmDelete :: "'l \<Rightarrow> bytes \<Rightarrow> snap_seq \<Rightarrow> status \<times> 'l"

record ('w, 'l) tx_manager =
  txn_gen :: u64
  snap_gen :: u64
  tm_locks :: lock_manager
  tm_chains :: chains
  tm_wal :: "'w option"
  tm_lsm :: "'l option"
  active_txns :: "txn_id list"
  cf_id :: u32

record txn =
  tx_id :: txn_id
  tx_opts :: txn_options
  tx_view :: read_view
  tx_lsm_seq :: snap_seq
  touched_keys :: "bytes list"
  read_set :: "(bytes \<times> bytes option) list"
  tx_finished :: bool

section \<open>The manager's part\<close>

definition BuildReadView :: "('w, 'l) tx_manager \<Rightarrow> txn_id \<Rightarrow> txn_options \<Rightarrow> read_view" where
  "BuildReadView tm my opts =
     (if isolation opts = kReadCommitted
      then ReadView_new kReadCommittedView my (Gen_Current (txn_gen tm) + 1) []
      else ReadView_new kRepeatableReadView my (Gen_Current (txn_gen tm) + 1) (active_txns tm))"

definition TransactionImpl :: "txn_id \<Rightarrow> txn_options \<Rightarrow> read_view \<Rightarrow> snap_seq \<Rightarrow> txn" where
  "TransactionImpl t opts view seq =
     \<lparr>tx_id = t, tx_opts = opts, tx_view = view, tx_lsm_seq = seq, touched_keys = [], read_set = [],
      tx_finished = False\<rparr>"

definition TxManager_Begin :: "('w, 'l) tx_manager \<Rightarrow> txn_options \<Rightarrow> txn \<times> ('w, 'l) tx_manager" where
  "TxManager_Begin tm opts =
     (let (t, gen) = Gen_Next (txn_gen tm);
          tm1 = tm\<lparr>txn_gen := gen, active_txns := List.insert t (active_txns tm)\<rparr>
      in (TransactionImpl t opts (BuildReadView tm1 t opts) (Gen_Current (snap_gen tm1)), tm1))"

definition BeginReadOnlyWithLSMSnapshot :: "('w, 'l) tx_manager \<Rightarrow> txn_options \<Rightarrow> snap_seq \<Rightarrow> txn" where
  "BeginReadOnlyWithLSMSnapshot tm opts seq = TransactionImpl 0 opts (BuildReadView tm 0 opts) seq"

text \<open>\<open>PrepareCommit\<close> ignores both its arguments.\<close>

definition PrepareCommit ::
    "('w, 'l) tx_manager \<Rightarrow> txn_id \<Rightarrow> bool \<Rightarrow> snap_seq \<times> ('w, 'l) tx_manager" where
  "PrepareCommit tm t allocate_new_snapshot =
     (let (seq, gen) = Gen_Next (snap_gen tm) in (seq, tm\<lparr>snap_gen := gen\<rparr>))"

definition OnCommitted :: "txn_id \<Rightarrow> ('w, 'l) tx_manager \<Rightarrow> ('w, 'l) tx_manager" where
  "OnCommitted t tm = tm\<lparr>active_txns := removeAll t (active_txns tm)\<rparr>"

definition OnAborted :: "txn_id \<Rightarrow> ('w, 'l) tx_manager \<Rightarrow> ('w, 'l) tx_manager" where
  "OnAborted t tm = tm\<lparr>active_txns := removeAll t (active_txns tm)\<rparr>"

definition RecoverSetSnapshot :: "snap_seq \<Rightarrow> ('w, 'l) tx_manager \<Rightarrow> ('w, 'l) tx_manager" where
  "RecoverSetSnapshot recovered tm =
     (if recovered = 0 then tm else tm\<lparr>snap_gen := recovered + 1\<rparr>)"

definition CreateSnapshot :: "('w, 'l) tx_manager \<Rightarrow> snap_seq" where
  "CreateSnapshot tm = Gen_Current (snap_gen tm)"

section \<open>Operations of a transaction\<close>

definition LsmReadSeq :: "('w, 'l) tx_manager \<Rightarrow> txn \<Rightarrow> snap_seq" where
  "LsmReadSeq tm tx =
     (if rv_policy (tx_view tx) = kReadCommittedView then Gen_Current (snap_gen tm) else tx_lsm_seq tx)"

text \<open>\<open>Put\<close> and \<open>Delete\<close>: what follows once \<open>Acquire\<close> has returned \<open>s\<close>, and the whole call.\<close>

definition Txn_Put_locked ::
    "('w, 'l) tx_manager \<Rightarrow> txn \<Rightarrow> bytes \<Rightarrow> bytes \<Rightarrow> status \<Rightarrow> status \<times> txn \<times> ('w, 'l) tx_manager" where
  "Txn_Put_locked tm tx key value s =
     (if \<not> ok s then (s, tx, tm)
      else let (r, cs) = VCM_PutActive (tm_chains tm) key value (tx_id tx)
           in (r, tx\<lparr>touched_keys := List.insert key (touched_keys tx)\<rparr>, tm\<lparr>tm_chains := cs\<rparr>))"

definition Txn_Delete_locked ::
    "('w, 'l) tx_manager \<Rightarrow> txn \<Rightarrow> bytes \<Rightarrow> status \<Rightarrow> status \<times> txn \<times> ('w, 'l) tx_manager" where
  "Txn_Delete_locked tm tx key s =
     (if \<not> ok s then (s, tx, tm)
      else let (r, cs) = VCM_DeleteActive (tm_chains tm) key (tx_id tx)
           in (r, tx\<lparr>touched_keys := List.insert key (touched_keys tx)\<rparr>, tm\<lparr>tm_chains := cs\<rparr>))"

definition Txn_Put ::
    "('w, 'l) tx_manager \<Rightarrow> txn \<Rightarrow> bytes \<Rightarrow> bytes \<Rightarrow> acquire_result \<times> txn \<times> ('w, 'l) tx_manager" where
  "Txn_Put tm tx key value =
     (let (r, lm) = Acquire_start (tm_locks tm) key (tx_id tx) kExclusiveLock (lock_timeout (tx_opts tx));
          tm1 = tm\<lparr>tm_locks := lm\<rparr>
      in case r of
           Done s \<Rightarrow> (let (s', tx', tm') = Txn_Put_locked tm1 tx key value s in (Done s', tx', tm'))
         | _ \<Rightarrow> (r, tx, tm1))"

definition Txn_Delete ::
    "('w, 'l) tx_manager \<Rightarrow> txn \<Rightarrow> bytes \<Rightarrow> acquire_result \<times> txn \<times> ('w, 'l) tx_manager" where
  "Txn_Delete tm tx key =
     (let (r, lm) = Acquire_start (tm_locks tm) key (tx_id tx) kExclusiveLock (lock_timeout (tx_opts tx));
          tm1 = tm\<lparr>tm_locks := lm\<rparr>
      in case r of
           Done s \<Rightarrow> (let (s', tx', tm') = Txn_Delete_locked tm1 tx key s in (Done s', tx', tm'))
         | _ \<Rightarrow> (r, tx, tm1))"

definition record_read :: "txn \<Rightarrow> bytes \<Rightarrow> bytes option \<Rightarrow> txn" where
  "record_read tx key r =
     (if enable_rr_validation (tx_opts tx)
      then tx\<lparr>read_set := (key, r) # filter (\<lambda>p. fst p \<noteq> key) (read_set tx)\<rparr> else tx)"

text \<open>\<open>Get\<close>: the status, the value when the status is OK, and the transaction.\<close>

definition Txn_Get ::
    "'l lsm_ops \<Rightarrow> ('w, 'l) tx_manager \<Rightarrow> txn \<Rightarrow> bytes \<Rightarrow> status \<times> bytes option \<times> txn" where
  "Txn_Get L tm tx key =
     (let (s, found) = GetVisible (tm_chains tm) key (tx_view tx) in
      if IsDeleted s then (NotFound ''Key was deleted'', None, record_read tx key None)
      else if \<not> ok s then (s, None, tx)
      else case found of
        Some v \<Rightarrow> (OK, Some v, record_read tx key (Some v))
      | None \<Rightarrow>
          (case tm_lsm tm of
             None \<Rightarrow> (NotFound ''not found'', None, tx)
           | Some l \<Rightarrow>
               (let (ls, v) = LsmGet L l key (LsmReadSeq tm tx)
                in if ok ls then (ls, Some v, record_read tx key (Some v)) else (ls, None, tx))))"

definition Txn_GetForUpdate ::
    "'l lsm_ops \<Rightarrow> ('w, 'l) tx_manager \<Rightarrow> txn \<Rightarrow> bytes
     \<Rightarrow> acquire_result \<times> bytes option \<times> txn \<times> ('w, 'l) tx_manager" where
  "Txn_GetForUpdate L tm tx key =
     (let (r, lm) = Acquire_start (tm_locks tm) key (tx_id tx) kExclusiveLock (lock_timeout (tx_opts tx));
          tm1 = tm\<lparr>tm_locks := lm\<rparr>
      in case r of
           Done s \<Rightarrow> (if \<not> ok s then (Done s, None, tx, tm1)
                      else let (gs, v, tx') = Txn_Get L tm1 tx key in (Done gs, v, tx', tm1))
         | _ \<Rightarrow> (r, None, tx, tm1))"

text \<open>\<open>Rollback\<close> and the internal \<open>Abort\<close> do the same to the state.\<close>

definition Txn_Abort :: "('w, 'l) tx_manager \<Rightarrow> txn \<Rightarrow> txn \<times> ('w, 'l) tx_manager" where
  "Txn_Abort tm tx =
     (let (_, cs) = MarkTransactionAborted (tm_chains tm) (tx_id tx);
          tm1 = OnAborted (tx_id tx) (tm\<lparr>tm_chains := cs\<rparr>)
      in (tx\<lparr>touched_keys := [], tx_finished := True\<rparr>,
          tm1\<lparr>tm_locks := ReleaseAll (tm_locks tm1) (tx_id tx)\<rparr>))"

definition Txn_Rollback :: "('w, 'l) tx_manager \<Rightarrow> txn \<Rightarrow> status \<times> txn \<times> ('w, 'l) tx_manager" where
  "Txn_Rollback tm tx =
     (let (_, cs) = MarkTransactionAborted (tm_chains tm) (tx_id tx);
          tm1 = OnAborted (tx_id tx) (tm\<lparr>tm_chains := cs\<rparr>)
      in (OK, tx\<lparr>touched_keys := [], tx_finished := True\<rparr>,
          tm1\<lparr>tm_locks := ReleaseAll (tm_locks tm1) (tx_id tx)\<rparr>))"

text \<open>The destructor: an unfinished transaction is aborted, and its locks are released in any case.\<close>

definition Txn_destroy :: "('w, 'l) tx_manager \<Rightarrow> txn \<Rightarrow> ('w, 'l) tx_manager" where
  "Txn_destroy tm tx =
     (let tm1 = (if \<not> tx_finished tx \<and> tx_id tx \<noteq> 0
                 then OnAborted (tx_id tx) (tm\<lparr>tm_chains := snd (MarkTransactionAborted (tm_chains tm) (tx_id tx))\<rparr>)
                 else tm)
      in tm1\<lparr>tm_locks := ReleaseAll (tm_locks tm1) (tx_id tx)\<rparr>)"

text \<open>The validation loop of \<open>Commit\<close>: \<open>None\<close> when every read is confirmed.\<close>

fun rr_validate :: "chains \<Rightarrow> read_view \<Rightarrow> (bytes \<times> bytes option) list \<Rightarrow> status option" where
  "rr_validate cs view [] = None"
| "rr_validate cs view ((k, re) # rs) =
     (let (s, cur) = GetVisible cs k view;
          cur' = (if IsDeleted s then None else cur)
      in if \<not> IsDeleted s \<and> \<not> ok s then Some s
         else if (re \<noteq> None) \<noteq> (cur' \<noteq> None) then Some (Aborted ''RR validation failed'')
         else if re \<noteq> None \<and> cur' \<noteq> re then Some (Aborted ''RR validation failed'')
         else rr_validate cs view rs)"

text \<open>The WAL loop of \<open>Commit\<close>, over the touched keys.\<close>

fun commit_wal_loop ::
    "'w wal_ops \<Rightarrow> u32 \<Rightarrow> chains \<Rightarrow> txn_id \<Rightarrow> snap_seq \<Rightarrow> bytes list \<Rightarrow> 'w \<Rightarrow> status \<times> 'w" where
  "commit_wal_loop W cf cs t seq [] w = (OK, w)"
| "commit_wal_loop W cf cs t seq (k # ks) w =
     (case GetLatestActiveForTxn cs k t of
        None \<Rightarrow> commit_wal_loop W cf cs t seq ks w
      | Some r \<Rightarrow>
          (let (s, w') = (if is_delete r then WriteDelete W w cf k seq else WritePut W w cf k (vr_value r) seq)
           in if \<not> ok s then (s, w') else commit_wal_loop W cf cs t seq ks w'))"

definition Txn_Commit ::
    "'w wal_ops \<Rightarrow> ('w, 'l) tx_manager \<Rightarrow> txn \<Rightarrow> bool \<Rightarrow> status \<times> txn \<times> ('w, 'l) tx_manager" where
  "Txn_Commit W tm tx allocate_new_snapshot =
     (case (if enable_rr_validation (tx_opts tx) then rr_validate (tm_chains tm) (tx_view tx) (read_set tx) else None) of
        Some s \<Rightarrow> (s, tx, tm)
      | None \<Rightarrow>
          (case tm_wal tm of
             None \<Rightarrow> (InvalidArgument ''TX components missing'', tx, tm)
           | Some w \<Rightarrow>
               (let use_new = allocate_new_snapshot \<or> new_snapshot_on_commit (tx_opts tx);
                    (seq, tm1) = PrepareCommit tm (tx_id tx) use_new;
                    (s, w1) = commit_wal_loop W (cf_id tm1) (tm_chains tm1) (tx_id tx) seq (touched_keys tx) w;
                    tm2 = tm1\<lparr>tm_wal := Some w1\<rparr>
                in if \<not> ok s then (let (tx', tm') = Txn_Abort tm2 tx in (s, tx', tm'))
                   else let (ss, w2) = WalSync W w1; tm3 = tm2\<lparr>tm_wal := Some w2\<rparr>
                     in if \<not> ok ss then (let (tx', tm') = Txn_Abort tm3 tx in (ss, tx', tm'))
                        else let (_, cs) = MarkTransactionCommitted (tm_chains tm3) (tx_id tx) seq;
                                 tm4 = OnCommitted (tx_id tx) (tm3\<lparr>tm_chains := cs\<rparr>)
                          in (OK, tx\<lparr>touched_keys := [], tx_finished := True\<rparr>,
                              tm4\<lparr>tm_locks := ReleaseAll (tm_locks tm4) (tx_id tx)\<rparr>))))"

section \<open>Operations of the manager on one key, flush and collection\<close>

text \<open>
  \<open>TxManager::Put\<close> and \<open>Delete\<close>: a read-committed transaction around one operation. When it
  does not block, the transaction is rolled back or committed and then destroyed.
\<close>

definition TxManager_finish ::
    "'w wal_ops \<Rightarrow> acquire_result \<times> txn \<times> ('w, 'l) tx_manager \<Rightarrow> acquire_result \<times> ('w, 'l) tx_manager" where
  "TxManager_finish W r =
     (case r of
        (Done s, tx, tm) \<Rightarrow>
          if \<not> ok s
          then (let (_, tx', tm') = Txn_Rollback tm tx in (Done s, Txn_destroy tm' tx'))
          else (let (s', tx', tm') = Txn_Commit W tm tx False in (Done s', Txn_destroy tm' tx'))
      | (b, tx, tm) \<Rightarrow> (b, tm))"

definition TxManager_Put ::
    "'w wal_ops \<Rightarrow> ('w, 'l) tx_manager \<Rightarrow> bytes \<Rightarrow> bytes \<Rightarrow> acquire_result \<times> ('w, 'l) tx_manager" where
  "TxManager_Put W tm key value =
     (let (tx, tm1) = TxManager_Begin tm default_txn_options
      in TxManager_finish W (Txn_Put tm1 tx key value))"

definition TxManager_Delete ::
    "'w wal_ops \<Rightarrow> ('w, 'l) tx_manager \<Rightarrow> bytes \<Rightarrow> acquire_result \<times> ('w, 'l) tx_manager" where
  "TxManager_Delete W tm key =
     (let (tx, tm1) = TxManager_Begin tm default_txn_options
      in TxManager_finish W (Txn_Delete tm1 tx key))"

definition TxManager_Get :: "'l lsm_ops \<Rightarrow> ('w, 'l) tx_manager \<Rightarrow> bytes \<Rightarrow> status \<times> bytes option" where
  "TxManager_Get L tm key =
     (let view = BuildReadView tm 0 default_txn_options;
          (s, found) = GetVisible (tm_chains tm) key view
      in if \<not> ok s then (s, None)
         else case found of
           Some v \<Rightarrow> (OK, Some v)
         | None \<Rightarrow> (case tm_lsm tm of
                      None \<Rightarrow> (NotFound ''not found'', None)
                    | Some l \<Rightarrow> (let (ls, v) = LsmGet L l key (Gen_Current (snap_gen tm))
                                in (ls, if ok ls then Some v else None))))"

fun flush_items_loop ::
    "'l lsm_ops \<Rightarrow> (bytes \<times> version_record) list \<Rightarrow> 'l \<Rightarrow> status \<times> 'l" where
  "flush_items_loop L [] l = (OK, l)"
| "flush_items_loop L ((k, r) # rs) l =
     (let (s, l') = (if is_delete r then LsmDelete L l k (commit_snapshot r)
                     else LsmPut L l k (vr_value r) (commit_snapshot r))
      in if \<not> ok s then (s, l') else flush_items_loop L rs l')"

definition FlushCommittedToLSM ::
    "'l lsm_ops \<Rightarrow> ('w, 'l) tx_manager \<Rightarrow> nat \<Rightarrow> status \<times> ('w, 'l) tx_manager" where
  "FlushCommittedToLSM L tm max_items =
     (case (tm_lsm tm, tm_wal tm) of
        (Some l, Some _) \<Rightarrow>
          (let items = PickCommittedNotFlushed (tm_chains tm) max_items in
           if items = [] then (OK, tm)
           else let (s, l') = flush_items_loop L items l; tm1 = tm\<lparr>tm_lsm := Some l'\<rparr>
             in if \<not> ok s then (s, tm1)
                else (OK, tm1\<lparr>tm_chains := MarkFlushed (tm_chains tm1) (map (\<lambda>(k, r). (k, commit_snapshot r)) items)\<rparr>))
      | _ \<Rightarrow> (InvalidArgument ''components missing'', tm))"

definition RunGC :: "('w, 'l) tx_manager \<Rightarrow> ('w, 'l) tx_manager" where
  "RunGC tm = tm\<lparr>tm_chains := GarbageCollect (tm_chains tm)\<rparr>"

section \<open>The merged iterator\<close>

text \<open>
  \<open>TxnIterator\<close>: the visible versions by key, their keys in comparator order with an index, and
  the LSM iterator as the list of entries it still has ahead. The current entry is \<open>None\<close>
  when the iterator is not valid.
\<close>

record txn_iter =
  ti_map :: "(bytes \<times> version_record) list"
  ti_keys :: "bytes list"
  ti_lsm :: "(bytes \<times> bytes) list"
  ti_cur :: "(bytes \<times> bytes) option"

text \<open>\<open>Advance\<close>, with the keys from \<open>mvcc_idx_\<close> on as the first list.\<close>

function Advance ::
    "(bytes \<Rightarrow> bytes \<Rightarrow> int) \<Rightarrow> (bytes \<times> version_record) list \<Rightarrow> bytes list \<Rightarrow> (bytes \<times> bytes) list
     \<Rightarrow> (bytes \<times> bytes) option \<times> bytes list \<times> (bytes \<times> bytes) list" where
  "Advance cmp m [] [] = (None, [], [])"
| "Advance cmp m (k # ks) [] =
     (case map_of m k of
        Some r \<Rightarrow> if is_delete r then Advance cmp m ks [] else (Some (k, vr_value r), ks, [])
      | None \<Rightarrow> (Some (k, []), ks, []))"
| "Advance cmp m [] ((lk, lv) # ls) =
     (case map_of m lk of
        Some r \<Rightarrow> if is_delete r then Advance cmp m [] ls else (Some (lk, vr_value r), [], ls)
      | None \<Rightarrow> (Some (lk, lv), [], ls))"
| "Advance cmp m (k # ks) ((lk, lv) # ls) =
     (if cmp k lk \<le> 0
      then let ls' = (if cmp k lk = 0 then ls else (lk, lv) # ls)
           in case map_of m k of
                Some r \<Rightarrow> if is_delete r then Advance cmp m ks ls' else (Some (k, vr_value r), ks, ls')
              | None \<Rightarrow> (Some (k, []), ks, ls')
      else case map_of m lk of
             Some r \<Rightarrow> if is_delete r then Advance cmp m (k # ks) ls else (Some (lk, vr_value r), k # ks, ls)
           | None \<Rightarrow> (Some (lk, lv), k # ks, ls))"
  by pat_completeness auto
termination by (relation "measure (\<lambda>(cmp, m, ks, ls). length ks + length ls)") auto

definition TxnIter_step :: "(bytes \<Rightarrow> bytes \<Rightarrow> int) \<Rightarrow> txn_iter \<Rightarrow> bytes list \<Rightarrow> (bytes \<times> bytes) list \<Rightarrow> txn_iter" where
  "TxnIter_step cmp it keys lsm =
     (let (cur, keys', lsm') = Advance cmp (ti_map it) keys lsm
      in it\<lparr>ti_cur := cur, ti_keys := keys', ti_lsm := lsm'\<rparr>)"

text \<open>
  The constructor, given the snapshot of the LSM tree; \<open>sort_key\<close> by the comparator is
  insertion by comparison.
\<close>

fun cmp_insort :: "(bytes \<Rightarrow> bytes \<Rightarrow> int) \<Rightarrow> bytes \<Rightarrow> bytes list \<Rightarrow> bytes list" where
  "cmp_insort cmp k [] = [k]"
| "cmp_insort cmp k (x # xs) = (if cmp k x < 0 then k # x # xs else x # cmp_insort cmp k xs)"

definition mvcc_sorted_keys :: "(bytes \<Rightarrow> bytes \<Rightarrow> int) \<Rightarrow> (bytes \<times> version_record) list \<Rightarrow> bytes list" where
  "mvcc_sorted_keys cmp m = remdups_adj (foldr (cmp_insort cmp) (map fst m) [])"

definition TxnIter_SeekToFirst ::
    "(bytes \<Rightarrow> bytes \<Rightarrow> int) \<Rightarrow> chains \<Rightarrow> read_view \<Rightarrow> (bytes \<times> bytes) list \<Rightarrow> txn_iter" where
  "TxnIter_SeekToFirst cmp cs view lsm =
     (let m = CollectVisible cs view
      in TxnIter_step cmp \<lparr>ti_map = m, ti_keys = [], ti_lsm = [], ti_cur = None\<rparr> (mvcc_sorted_keys cmp m) lsm)"

text \<open>\<open>LowerBoundMVCC\<close>, a binary search.\<close>

function LowerBound_loop :: "(bytes \<Rightarrow> bool) \<Rightarrow> bytes list \<Rightarrow> nat \<Rightarrow> nat \<Rightarrow> nat" where
  "LowerBound_loop lt keys l r =
     (if l < r
      then let m = (l + r) div 2
           in if lt (keys ! m) then LowerBound_loop lt keys (m + 1) r else LowerBound_loop lt keys l m
      else l)"
  by pat_completeness auto
termination by (relation "measure (\<lambda>(lt, keys, l, r). r - l)") auto

definition LowerBoundMVCC :: "(bytes \<Rightarrow> bytes \<Rightarrow> int) \<Rightarrow> bytes list \<Rightarrow> bytes \<Rightarrow> nat" where
  "LowerBoundMVCC cmp keys target = LowerBound_loop (\<lambda>k. cmp k target < 0) keys 0 (length keys)"

text \<open>\<open>Seek\<close>; the LSM iterator's own \<open>Seek\<close> leaves it at the first entry not before the target.\<close>

declare LowerBound_loop.simps [simp del]

definition TxnIter_Seek ::
    "(bytes \<Rightarrow> bytes \<Rightarrow> int) \<Rightarrow> chains \<Rightarrow> read_view \<Rightarrow> (bytes \<times> bytes) list \<Rightarrow> bytes \<Rightarrow> txn_iter" where
  "TxnIter_Seek cmp cs view lsm target =
     (let m = CollectVisible cs view
      in TxnIter_step cmp \<lparr>ti_map = m, ti_keys = [], ti_lsm = [], ti_cur = None\<rparr>
           (let keys = mvcc_sorted_keys cmp m in drop (LowerBoundMVCC cmp keys target) keys)
           (dropWhile (\<lambda>p. cmp (fst p) target < 0) lsm))"

definition TxnIter_Next :: "(bytes \<Rightarrow> bytes \<Rightarrow> int) \<Rightarrow> txn_iter \<Rightarrow> txn_iter" where
  "TxnIter_Next cmp it = (if ti_cur it = None then it else TxnIter_step cmp it (ti_keys it) (ti_lsm it))"

section \<open>The merged iterator yields the transaction's view\<close>

fun TxnIter_scan :: "(bytes \<Rightarrow> bytes \<Rightarrow> int) \<Rightarrow> nat \<Rightarrow> txn_iter \<Rightarrow> (bytes \<times> bytes) list" where
  "TxnIter_scan cmp 0 it = []"
| "TxnIter_scan cmp (Suc n) it =
     (case ti_cur it of None \<Rightarrow> [] | Some e \<Rightarrow> e # TxnIter_scan cmp n (TxnIter_Next cmp it))"

definition iter_spec :: "(bytes \<times> version_record) list \<Rightarrow> bytes list \<Rightarrow> (bytes \<times> bytes) list \<Rightarrow> bytes \<Rightarrow> bytes option" where
  "iter_spec m ks ls x =
     (if x \<in> set ks
      then (case map_of m x of Some r \<Rightarrow> if is_delete r then None else Some (vr_value r) | None \<Rightarrow> Some [])
      else map_of ls x)"

definition iter_inv :: "(bytes \<times> version_record) list \<Rightarrow> bytes list \<Rightarrow> (bytes \<times> bytes) list \<Rightarrow> bool" where
  "iter_inv m ks ls \<longleftrightarrow> sorted_wrt (<) ks \<and> sorted_wrt (<) (map fst ls) \<and>
     fst ` set m \<inter> fst ` set ls \<subseteq> set ks"

lemma map_of_above: "\<forall>p \<in> set ls. x < fst p \<Longrightarrow> map_of ls (x :: bytes) = None"
  by (auto simp: map_of_eq_None_iff)

definition iter_advanced where
  "iter_advanced m ks ls r \<longleftrightarrow>
     (case r of
        (None, ks', ls') \<Rightarrow> \<forall>x. iter_spec m ks ls x = None
      | (Some (k, v), ks', ls') \<Rightarrow>
          iter_inv m ks' ls' \<and> iter_spec m ks ls k = Some v \<and>
          (\<forall>x. x < k \<longrightarrow> iter_spec m ks ls x = None) \<and>
          (\<forall>x. k < x \<longrightarrow> iter_spec m ks' ls' x = iter_spec m ks ls x) \<and>
          (\<forall>x \<in> set ks'. k < x) \<and> (\<forall>p \<in> set ls'. k < fst p) \<and>
          length ks' + length ls' < length ks + length ls)"

lemma iter_advanced_skip:
  assumes "iter_advanced m ks' ls' r" "\<And>x. iter_spec m ks' ls' x = iter_spec m ks ls x"
    "length ks' + length ls' \<le> length ks + length ls"
  shows "iter_advanced m ks ls r"
  using assms by (auto simp: iter_advanced_def split: option.splits)

lemma inv_tl:
  "iter_inv m (k # ks) ls \<Longrightarrow> k \<notin> fst ` set ls \<Longrightarrow> iter_inv m ks ls"
  "iter_inv m ks (p # ls) \<Longrightarrow> iter_inv m ks ls"
  unfolding iter_inv_def by (simp, blast)+

lemma above_notin: "\<forall>p \<in> set ls. x < fst p \<Longrightarrow> (x :: bytes) \<notin> fst ` set ls"
  by auto

lemma emit_mvcc:
  assumes "iter_inv m ks ls'" "\<forall>x \<in> set ks. k < x" "\<forall>p \<in> set ls'. k < fst p"
    and "\<And>x. k < x \<Longrightarrow> map_of ls x = map_of ls' x" "\<And>x. x < k \<Longrightarrow> map_of ls x = None"
    and "length ls' \<le> length ls" "\<not> (\<exists>r. map_of m k = Some r \<and> is_delete r)"
  shows "iter_advanced m (k # ks) ls
    (Some (k, case map_of m k of Some r \<Rightarrow> vr_value r | None \<Rightarrow> []), ks, ls')"
proof -
  have 1: "iter_spec m (k # ks) ls k = Some (case map_of m k of Some r \<Rightarrow> vr_value r | None \<Rightarrow> [])"
    using assms(7) by (cases "map_of m k") (auto simp: iter_spec_def)
  have 2: "iter_spec m (k # ks) ls x = None" if "x < k" for x
    using that assms(2,5) by (auto simp: iter_spec_def)
  have 3: "iter_spec m ks ls' x = iter_spec m (k # ks) ls x" if "k < x" for x
    using that assms(4) by (auto simp: iter_spec_def)
  show ?thesis using assms(1-3,6) 1 2 3 by (simp add: iter_advanced_def)
qed

lemma Advance_emit:
  "\<not> (\<exists>r. map_of m k = Some r \<and> is_delete r) \<Longrightarrow>
   Advance cmp m (k # ks) [] = (Some (k, case map_of m k of Some r \<Rightarrow> vr_value r | None \<Rightarrow> []), ks, [])"
  "\<not> (\<exists>r. map_of m k = Some r \<and> is_delete r) \<Longrightarrow> cmp k lk \<le> 0 \<Longrightarrow>
   Advance cmp m (k # ks) ((lk, lv) # ls) =
     (Some (k, case map_of m k of Some r \<Rightarrow> vr_value r | None \<Rightarrow> []), ks,
      if cmp k lk = 0 then ls else (lk, lv) # ls)"
  by (auto split: option.splits)

lemma Advance_spec:
  "iter_inv m ks ls \<Longrightarrow> iter_advanced m ks ls (Advance Bytewise_Compare m ks ls)"
proof (induction "Bytewise_Compare" m ks ls rule: Advance.induct)
  case (1 m)
  then show ?case by (simp add: iter_advanced_def iter_spec_def)
next
  case (2 m k ks)
  have nk: "k \<notin> set ks" "\<forall>x \<in> set ks. k < x" using 2(2) by (auto simp: iter_inv_def)
  have i: "iter_inv m ks []" using inv_tl(1) [OF 2(2)] by simp
  show ?case
  proof (cases "\<exists>r. map_of m k = Some r \<and> is_delete r")
    case True
    then obtain r where r: "map_of m k = Some r" "is_delete r" by blast
    show ?thesis using r nk
      by (simp, intro iter_advanced_skip [OF 2(1) [OF r i]]) (auto simp: iter_spec_def)
  next
    case False
    show ?thesis unfolding Advance_emit(1) [OF False]
      by (rule emit_mvcc [OF i nk(2) _ _ _ _ False]) simp_all
  qed
next
  case (3 m lk lv ls)
  have i: "iter_inv m [] ls" using inv_tl(2) [OF 3(2)] .
  have "map_of m lk = None" using 3(2) by (force simp: iter_inv_def map_of_eq_None_iff)
  moreover have "\<forall>p \<in> set ls. lk < fst p" using 3(2) by (simp add: iter_inv_def)
  ultimately show ?case using i
    by (auto simp: iter_advanced_def iter_spec_def intro!: map_of_above)
next
  case (4 m k ks lk lv ls)
  have nk: "\<forall>x \<in> set ks. k < x" and nl: "\<forall>p \<in> set ls. lk < fst p" using 4(3) by (auto simp: iter_inv_def)
  consider "k < lk" | "k = lk" | "lk < k" by (rule linorder_cases)
  then show ?case
  proof cases
    case 1
    have above: "\<forall>p \<in> set ((lk, lv) # ls). k < fst p" using 1 nl by auto
    then have i: "iter_inv m ks ((lk, lv) # ls)" by (rule inv_tl(1) [OF 4(3) above_notin])
    have cmp: "Bytewise_Compare k lk = -1" using 1 by (simp add: Bytewise_Compare_lex)
    show ?thesis
    proof (cases "\<exists>r. map_of m k = Some r \<and> is_delete r")
      case True
      then obtain r where r: "map_of m k = Some r" "is_delete r" by blast
      have "iter_advanced m ks ((lk, lv) # ls) (Advance Bytewise_Compare m ks ((lk, lv) # ls))"
        using 4(1) [of "(lk, lv) # ls" r] cmp r i by simp
      then have "iter_advanced m (k # ks) ((lk, lv) # ls) (Advance Bytewise_Compare m ks ((lk, lv) # ls))"
        by (rule iter_advanced_skip) (use r nk above map_of_above [OF above] in \<open>auto simp: iter_spec_def\<close>)
      then show ?thesis using cmp r by simp
    next
      case False
      have below: "\<And>x. x < k \<Longrightarrow> map_of ((lk, lv) # ls) x = None"
        using above by (intro map_of_above) (meson less_trans)
      have "Bytewise_Compare k lk \<le> 0" "Bytewise_Compare k lk \<noteq> 0" using cmp by simp_all
      then show ?thesis unfolding Advance_emit(2) [where cmp = Bytewise_Compare, OF False \<open>Bytewise_Compare k lk \<le> 0\<close>]
        using emit_mvcc [OF i nk above _ below _ False] by simp
    qed
  next
    case 2
    have "iter_inv m (k # ks) ls" using inv_tl(2) [OF 4(3)] .
    then have i: "iter_inv m ks ls" by (rule inv_tl(1)) (use nl 2 above_notin in simp)
    have cmp: "Bytewise_Compare k lk = 0" using 2 by (simp add: Bytewise_Compare_lex)
    show ?thesis
    proof (cases "\<exists>r. map_of m k = Some r \<and> is_delete r")
      case True
      then obtain r where r: "map_of m k = Some r" "is_delete r" by blast
      have "iter_advanced m ks ls (Advance Bytewise_Compare m ks ls)"
        using 4(1) [of ls r] cmp r i by simp
      then have "iter_advanced m (k # ks) ((lk, lv) # ls) (Advance Bytewise_Compare m ks ls)"
        by (rule iter_advanced_skip) (use r nk nl 2 map_of_above [OF nl] in \<open>auto simp: iter_spec_def\<close>)
      then show ?thesis using cmp r by simp
    next
      case False
      have nl': "\<forall>p \<in> set ls. k < fst p" using nl 2 by simp
      have "\<forall>p \<in> set ((lk, lv) # ls). x < fst p" if "x < k" for x using nl' 2 that by (auto intro: less_trans)
      then have below: "\<And>x. x < k \<Longrightarrow> map_of ((lk, lv) # ls) x = None" using map_of_above by blast
      have le: "Bytewise_Compare k lk \<le> 0" using cmp by simp
      have "iter_advanced m (k # ks) ((lk, lv) # ls)
          (Some (k, case map_of m k of Some r \<Rightarrow> vr_value r | None \<Rightarrow> []), ks, ls)"
        by (rule emit_mvcc [OF i nk nl' _ below _ False]) (use 2 in auto)
      then show ?thesis unfolding Advance_emit(2) [where cmp = Bytewise_Compare, OF False le] by (simp only: cmp if_True refl)
    qed
  next
    case 3
    have i: "iter_inv m (k # ks) ls" using inv_tl(2) [OF 4(3)] .
    have cmp: "Bytewise_Compare k lk = 1" using 3 by (auto simp: Bytewise_Compare_lex)
    have lnk: "lk \<notin> set (k # ks)" using 3 nk by auto
    then have m: "map_of m lk = None" using 4(3) by (force simp: iter_inv_def map_of_eq_None_iff)
    have "\<forall>x \<in> set (k # ks). lk < x" using 3 nk by auto
    then show ?thesis using i nl cmp m lnk
      by (auto simp: iter_advanced_def iter_spec_def intro!: map_of_above)
  qed
qed

lemma scan_spec:
  "iter_inv (ti_map it) ks ls \<Longrightarrow> length ks + length ls \<le> n \<Longrightarrow>
   sorted_wrt (<) (map fst (TxnIter_scan Bytewise_Compare n (TxnIter_step Bytewise_Compare it ks ls))) \<and>
   (\<forall>x. map_of (TxnIter_scan Bytewise_Compare n (TxnIter_step Bytewise_Compare it ks ls)) x =
     iter_spec (ti_map it) ks ls x)"
proof (induction n arbitrary: it ks ls)
  case 0
  then show ?case by (simp add: iter_spec_def)
next
  case (Suc n)
  let ?m = "ti_map it"
  obtain cur ks' ls' where a: "Advance Bytewise_Compare ?m ks ls = (cur, ks', ls')" by (metis prod_cases3)
  note adv = Advance_spec [OF Suc.prems(1), unfolded a]
  show ?case
  proof (cases cur)
    case None
    then show ?thesis using adv a by (simp add: TxnIter_step_def iter_advanced_def)
  next
    case (Some e)
    obtain k v where e: "e = (k, v)" by force
    have A: "iter_inv ?m ks' ls'" "iter_spec ?m ks ls k = Some v"
      "\<And>x. x < k \<Longrightarrow> iter_spec ?m ks ls x = None"
      "\<And>x. k < x \<Longrightarrow> iter_spec ?m ks' ls' x = iter_spec ?m ks ls x"
      "\<forall>x \<in> set ks'. k < x" "\<forall>p \<in> set ls'. k < fst p" "length ks' + length ls' < length ks + length ls"
      using adv Some e by (simp_all add: iter_advanced_def)
    let ?it = "it\<lparr>ti_cur := cur, ti_keys := ks', ti_lsm := ls'\<rparr>"
    let ?rest = "TxnIter_scan Bytewise_Compare n (TxnIter_step Bytewise_Compare ?it ks' ls')"
    have IH: "sorted_wrt (<) (map fst ?rest)" "\<And>x. map_of ?rest x = iter_spec ?m ks' ls' x"
      using Suc.IH [of ?it ks' ls'] A(1,7) Suc.prems(2) by simp_all
    have out: "TxnIter_scan Bytewise_Compare (Suc n) (TxnIter_step Bytewise_Compare it ks ls) = (k, v) # ?rest"
      using a Some e by (simp add: TxnIter_step_def TxnIter_Next_def)
    have above: "k < x" if "x \<in> fst ` set ?rest" for x
    proof -
      have "map_of ?rest x \<noteq> None" using that by (simp add: map_of_eq_None_iff)
      then have "iter_spec ?m ks' ls' x \<noteq> None" using IH(2) by simp
      then have "x \<in> set ks' \<or> x \<in> fst ` set ls'"
        by (auto simp: iter_spec_def split: if_splits dest: map_of_SomeD) (metis domI dom_map_of_conv_image_fst)
      then show ?thesis using A(5,6) by auto
    qed
    have "map_of ((k, v) # ?rest) x = iter_spec ?m ks ls x" for x
    proof -
      consider "x = k" | "k < x" | "x < k" by (metis linorder_cases)
      then show ?thesis
      proof cases
        case 3
        then have "x \<notin> fst ` set ?rest" using above by (metis less_asym)
        then show ?thesis using 3 A(3) by (simp add: map_of_eq_None_iff [symmetric])
      qed (use A(2,4) IH(2) in auto)
    qed
    then show ?thesis using IH(1) above unfolding out by auto
  qed
qed

lemma insort_set: "set (cmp_insort cmp k xs) = insert k (set xs)"
  by (induction xs) auto

lemma insort_sorted: "sorted_wrt (\<le>) xs \<Longrightarrow> sorted_wrt (\<le>) (cmp_insort Bytewise_Compare k xs)"
proof (induction xs)
  case (Cons x xs)
  then show ?case
    by (auto simp: Bytewise_Compare_lex insort_set split: if_splits)
qed simp

lemma remdups_adj_strict: "sorted_wrt (\<le>) xs \<Longrightarrow> sorted_wrt (<) (remdups_adj (xs :: bytes list))"
  by (induction xs rule: remdups_adj.induct) (auto simp: order.strict_iff_order)

lemma mvcc_keys:
  "sorted_wrt (<) (mvcc_sorted_keys Bytewise_Compare m)" "set (mvcc_sorted_keys Bytewise_Compare m) = fst ` set m"
proof -
  have "sorted_wrt (\<le>) (foldr (cmp_insort Bytewise_Compare) ks [])" for ks
    by (induction ks) (simp_all add: insort_sorted)
  then show "sorted_wrt (<) (mvcc_sorted_keys Bytewise_Compare m)"
    unfolding mvcc_sorted_keys_def by (rule remdups_adj_strict)
  have "set (foldr (cmp_insort Bytewise_Compare) ks []) = set ks" for ks
    by (induction ks) (simp_all add: insort_set)
  then show "set (mvcc_sorted_keys Bytewise_Compare m) = fst ` set m"
    by (simp add: mvcc_sorted_keys_def)
qed

text \<open>The binary search finds the boundary of the keys before the target.\<close>

lemma LowerBound_loop_spec:
  assumes mono: "\<And>i j. i \<le> j \<Longrightarrow> j < length keys \<Longrightarrow> lt (keys ! j) \<Longrightarrow> lt (keys ! i)"
  shows "r \<le> length keys \<Longrightarrow> l \<le> r \<Longrightarrow> \<forall>i < l. lt (keys ! i) \<Longrightarrow> \<forall>i. r \<le> i \<and> i < length keys \<longrightarrow> \<not> lt (keys ! i) \<Longrightarrow>
   LowerBound_loop lt keys l r \<le> length keys \<and>
   (\<forall>i < LowerBound_loop lt keys l r. lt (keys ! i)) \<and>
   (\<forall>i. LowerBound_loop lt keys l r \<le> i \<and> i < length keys \<longrightarrow> \<not> lt (keys ! i))"
proof (induction "r - l" arbitrary: l r rule: less_induct)
  case less
  let ?m = "(l + r) div 2"
  consider "l = r" | "l < r" "lt (keys ! ?m)" | "l < r" "\<not> lt (keys ! ?m)" using less.prems(2) by linarith
  then show ?case
  proof cases
    case 1
    then have "LowerBound_loop lt keys l r = r" by (subst LowerBound_loop.simps) simp
    then show ?thesis using less.prems 1 by simp
  next
    case 2
    then have e: "LowerBound_loop lt keys l r = LowerBound_loop lt keys (?m + 1) r"
      by (subst LowerBound_loop.simps) (simp add: Let_def)
    have "?m < length keys" using 2(1) less.prems(1) by linarith
    then have "\<forall>i < ?m + 1. lt (keys ! i)" using mono [OF _ _ 2(2)] by simp
    then show ?thesis unfolding e using less.prems 2(1) by (intro less.hyps) auto
  next
    case 3
    then have e: "LowerBound_loop lt keys l r = LowerBound_loop lt keys l ?m"
      by (subst LowerBound_loop.simps) (simp add: Let_def)
    have "\<forall>i. ?m \<le> i \<and> i < length keys \<longrightarrow> \<not> lt (keys ! i)" using mono 3(2) by blast
    then show ?thesis unfolding e using less.prems 3(1) by (intro less.hyps) auto
  qed
qed

lemma LowerBound_dropWhile:
  assumes "sorted_wrt (<) keys"
  shows "drop (LowerBoundMVCC Bytewise_Compare keys target) keys = dropWhile (\<lambda>k. Bytewise_Compare k target < 0) keys"
proof -
  let ?lt = "\<lambda>k. Bytewise_Compare k target < 0"
  let ?n = "LowerBoundMVCC Bytewise_Compare keys target"
  have lt: "?lt k \<longleftrightarrow> k < target" for k by (simp add: Bytewise_Compare_lex)
  have mono: "?lt (keys ! i)" if "i \<le> j" "j < length keys" "?lt (keys ! j)" for i j
    using that assms sorted_wrt_nth_less [OF assms, of i j] unfolding lt by (cases "i = j") auto
  have s: "?n \<le> length keys" "\<forall>i < ?n. ?lt (keys ! i)" "\<forall>i. ?n \<le> i \<and> i < length keys \<longrightarrow> \<not> ?lt (keys ! i)"
    using LowerBound_loop_spec [of keys ?lt "length keys" 0, OF mono] unfolding LowerBoundMVCC_def by simp_all
  have "dropWhile ?lt (take ?n keys @ drop ?n keys) = drop ?n keys"
  proof (subst dropWhile_append2)
    show "\<And>x. x \<in> set (take ?n keys) \<Longrightarrow> ?lt x" using s(1,2) by (auto simp: in_set_conv_nth)
    show "dropWhile ?lt (drop ?n keys) = drop ?n keys"
    proof (cases "drop ?n keys")
      case (Cons x xs)
      then have n: "?n < length keys" by (metis drop_all linorder_not_less list.distinct(1))
      then have "x = keys ! ?n" using Cons by (metis hd_drop_conv_nth list.sel(1))
      with n show ?thesis using s(3) Cons by auto
    qed simp
  qed
  then show ?thesis by simp
qed

lemma length_keys: "length (mvcc_sorted_keys cmp m) \<le> length m"
proof -
  have i: "length (cmp_insort cmp k xs) = Suc (length xs)" for k xs by (induction xs) auto
  have "length (foldr (cmp_insort cmp) ks []) = length ks" for ks by (induction ks) (simp_all add: i)
  then show ?thesis unfolding mvcc_sorted_keys_def using remdups_adj_length by (metis length_map)
qed

lemma length_CollectVisible: "length (CollectVisible cs view) \<le> length cs"
  by (induction cs) (auto simp: CollectVisible_def split: option.splits)

lemma SeekToFirst_scan:
  assumes "sorted_wrt (<) (map fst lsm)" "length cs + length lsm \<le> n"
  shows "sorted_wrt (<) (map fst (TxnIter_scan Bytewise_Compare n (TxnIter_SeekToFirst Bytewise_Compare cs view lsm)))"
    "map_of (TxnIter_scan Bytewise_Compare n (TxnIter_SeekToFirst Bytewise_Compare cs view lsm)) k =
      iter_spec (CollectVisible cs view) (mvcc_sorted_keys Bytewise_Compare (CollectVisible cs view)) lsm k"
proof -
  let ?m = "CollectVisible cs view"
  let ?ks = "mvcc_sorted_keys Bytewise_Compare ?m"
  have inv: "iter_inv ?m ?ks lsm" using assms(1) mvcc_keys [of ?m] by (simp add: iter_inv_def)
  have n: "length ?ks + length lsm \<le> n"
    using assms(2) length_keys [of Bytewise_Compare ?m] length_CollectVisible [of cs view] by linarith
  show "sorted_wrt (<) (map fst (TxnIter_scan Bytewise_Compare n (TxnIter_SeekToFirst Bytewise_Compare cs view lsm)))"
    "map_of (TxnIter_scan Bytewise_Compare n (TxnIter_SeekToFirst Bytewise_Compare cs view lsm)) k = iter_spec ?m ?ks lsm k"
    using scan_spec [of "\<lparr>ti_map = ?m, ti_keys = [], ti_lsm = [], ti_cur = None\<rparr>" ?ks lsm n] inv n
    by (simp_all add: TxnIter_SeekToFirst_def Let_def)
qed

lemma iter_spec_view:
  assumes "distinct (map fst cs)" "set ks = fst ` set (CollectVisible cs view)"
  shows "iter_spec (CollectVisible cs view) ks lsm k =
    (case find (record_visible view) (rev (chain_of cs k)) of
       Some r \<Rightarrow> if is_delete r then None else Some (vr_value r)
     | None \<Rightarrow> map_of lsm k)"
proof -
  have "map_of (CollectVisible cs view) k = find (record_visible view) (rev (chain_of cs k))"
    using CollectVisible_map_of [of cs view k] assms(1) by simp
  moreover have "k \<in> set ks \<longleftrightarrow> map_of (CollectVisible cs view) k \<noteq> None"
    unfolding assms(2) by (simp add: map_of_eq_None_iff)
  ultimately show ?thesis by (auto simp: iter_spec_def split: option.splits)
qed

section \<open>Theorems\<close>

text \<open>C36: iterating over a transaction shows exactly its view of the database. Over an LSM
  snapshot in key order, walking from \<open>SeekToFirst\<close> to the end yields every key once, in key
  order: the version the transaction sees where there is one (nothing if that is a deletion), and
  the LSM entry for every other key.\<close>

theorem txn_iterator_shows_view:
  assumes "distinct (map fst cs)" "sorted_wrt (<) (map fst lsm)" "length cs + length lsm \<le> n"
  shows "sorted_wrt (<) (map fst (TxnIter_scan Bytewise_Compare n (TxnIter_SeekToFirst Bytewise_Compare cs view lsm))) \<and>
    (\<forall>k. map_of (TxnIter_scan Bytewise_Compare n (TxnIter_SeekToFirst Bytewise_Compare cs view lsm)) k =
      (case find (record_visible view) (rev (chain_of cs k)) of
         Some r \<Rightarrow> if is_delete r then None else Some (vr_value r)
       | None \<Rightarrow> map_of lsm k))"
  using SeekToFirst_scan [OF assms(2,3), of view] iter_spec_view [OF assms(1) mvcc_keys(2), of view lsm] by simp

theorem txn_iterator_shows_view_witness:
  "map_of (TxnIter_scan Bytewise_Compare 4 (TxnIter_SeekToFirst Bytewise_Compare
      [([3], [VersionRecord [30] False 7]), ([1], [VersionRecord [] True 7])]
      (ReadView_new kReadCommittedView 7 8 []) [([1], [10]), ([2], [20])])) [2] = Some [20]"
proof -
  let ?cs = "[([3], [VersionRecord [30] False 7]), ([1], [VersionRecord [] True 7])] :: chains"
  let ?lsm = "[([1], [10]), ([2], [20])] :: (bytes \<times> bytes) list"
  have "distinct (map fst ?cs)" "sorted_wrt (<) (map fst ?lsm)" "length ?cs + length ?lsm \<le> 4"
    by (simp_all add: word_less_nat_alt)
  from txn_iterator_shows_view [OF this, of "ReadView_new kReadCommittedView 7 8 []"]
  show ?thesis by (simp add: chain_of_def)
qed

lemma abort_invisible:
  assumes "rv_my_txn view \<noteq> t"
  shows "GetVisible (snd (MarkTransactionAborted cs t)) key view = GetVisible cs key view"
proof (rule GetVisible_filter)
  have "filter (record_visible view) (map (abort_record t) c) = filter (record_visible view) c" for c
    by (rule filter_visible_map) (use assms in \<open>auto simp: abort_record_def record_visible_def IsVisible_def\<close>)
  then show "filter (record_visible view) (chain_of (snd (MarkTransactionAborted cs t)) key) =
      filter (record_visible view) (chain_of cs key)" by simp
qed

text \<open>What a commit does to the manager, by its outcome.\<close>

lemma Commit_outcome:
  assumes "Txn_Commit W tm tx alloc = (s, tx', tm')"
  shows "\<not> ok s \<Longrightarrow> tm_chains tm' = tm_chains tm \<or> tm_chains tm' = snd (MarkTransactionAborted (tm_chains tm) (tx_id tx))"
    and "ok s \<Longrightarrow> tm_chains tm' = snd (MarkTransactionCommitted (tm_chains tm) (tx_id tx) (snap_gen tm)) \<and>
      snap_gen tm' = snap_gen tm + 1 \<and> active_txns tm' = removeAll (tx_id tx) (active_txns tm) \<and>
      tm_locks tm' = ReleaseAll (tm_locks tm) (tx_id tx) \<and>
      (\<exists>w w1. tm_wal tm = Some w \<and>
        commit_wal_loop W (cf_id tm) (tm_chains tm) (tx_id tx) (snap_gen tm) (touched_keys tx) w = (OK, w1) \<and>
        ok (fst (WalSync W w1)) \<and> tm_wal tm' = Some (snd (WalSync W w1)))"
proof -
  have okloop: "ok (fst (commit_wal_loop W cf cs t sq ks w)) \<Longrightarrow> fst (commit_wal_loop W cf cs t sq ks w) = OK"
    for cf cs t sq ks w
    by (induction W cf cs t sq ks w rule: commit_wal_loop.induct) (auto split: option.splits if_splits prod.splits)
  let ?v = "if enable_rr_validation (tx_opts tx) then rr_validate (tm_chains tm) (tx_view tx) (read_set tx) else None"
  have val: "\<not> ok st" if "rr_validate cs view rs = Some st" for cs view rs st
    using that by (induction cs view rs rule: rr_validate.induct) (auto simp: Let_def split: if_splits prod.splits)
  show "\<not> ok s \<Longrightarrow> tm_chains tm' = tm_chains tm \<or> tm_chains tm' = snd (MarkTransactionAborted (tm_chains tm) (tx_id tx))"
    using assms
    by (auto simp: Txn_Commit_def PrepareCommit_def Gen_Next_def Txn_Abort_def OnAborted_def Let_def
        split: option.splits prod.splits if_splits)
  show "ok s \<Longrightarrow> tm_chains tm' = snd (MarkTransactionCommitted (tm_chains tm) (tx_id tx) (snap_gen tm)) \<and>
      snap_gen tm' = snap_gen tm + 1 \<and> active_txns tm' = removeAll (tx_id tx) (active_txns tm) \<and>
      tm_locks tm' = ReleaseAll (tm_locks tm) (tx_id tx) \<and>
      (\<exists>w w1. tm_wal tm = Some w \<and>
        commit_wal_loop W (cf_id tm) (tm_chains tm) (tx_id tx) (snap_gen tm) (touched_keys tx) w = (OK, w1) \<and>
        ok (fst (WalSync W w1)) \<and> tm_wal tm' = Some (snd (WalSync W w1)))"
    using assms val okloop [of "cf_id tm" "tm_chains tm" "tx_id tx" "snap_gen tm" "touched_keys tx" "the (tm_wal tm)"]
    by (auto simp: Txn_Commit_def PrepareCommit_def Gen_Next_def Txn_Abort_def OnCommitted_def Let_def
        split: option.splits prod.splits if_splits)
qed



text \<open>A log that is the list of its records, for the examples.\<close>

definition list_wal :: "(bool \<times> bytes \<times> bytes \<times> snap_seq) list wal_ops" where
  "list_wal = \<lparr>WritePut = (\<lambda>w cf k v s. (OK, w @ [(True, k, v, s)])),
     WriteDelete = (\<lambda>w cf k s. (OK, w @ [(False, k, [], s)])), WalSync = (\<lambda>w. (OK, w))\<rparr>"

definition broken_wal :: "(bool \<times> bytes \<times> bytes \<times> snap_seq) list wal_ops" where
  "broken_wal = list_wal\<lparr>WalSync := (\<lambda>w. (IOError ''sync'', w))\<rparr>"

definition tm_example :: "((bool \<times> bytes \<times> bytes \<times> snap_seq) list, unit) tx_manager" where
  "tm_example = \<lparr>txn_gen = 3, snap_gen = 5, tm_locks = LockManager_new,
     tm_chains = [([1], [VersionRecord [10] False 1\<lparr>vr_state := kCommitted, commit_snapshot := 4\<rparr>,
                        VersionRecord [20] False 2])],
     tm_wal = Some [], tm_lsm = Some (), active_txns = [2], cf_id = 0\<rparr>"

definition tx_example :: txn where
  "tx_example = (TransactionImpl 2 default_txn_options (ReadView_new kReadCommittedView 2 3 []) 4)\<lparr>touched_keys := [[1]]\<rparr>"



text \<open>a frozen view excludes every concurrent transaction. After \<open>Begin\<close> under any level but
  read committed, the transactions already active and all those that begin later are outside the
  new transaction's view, which with the stability of such views makes its reads repeatable.\<close>

theorem begin_freezes_view:
  assumes "isolation opts \<noteq> kReadCommitted" "TxManager_Begin tm opts = (tx, tm')"
    and "t \<noteq> tx_id tx" "t \<in> set (active_txns tm) \<or> txn_gen tm' \<le> t" "txn_gen tm' \<noteq> 0"
  shows "rv_policy (tx_view tx) = kRepeatableReadView \<and> rv_my_txn (tx_view tx) = tx_id tx \<and> outside_view (tx_view tx) t"
  using assms
  by (auto simp: TxManager_Begin_def Gen_Next_def Gen_Current_def BuildReadView_def ReadView_new_def
      TransactionImpl_def outside_view_def Let_def word_neq_0_conv)

theorem begin_freezes_view_witness:
  "outside_view (tx_view (fst (TxManager_Begin tm_example (default_txn_options\<lparr>isolation := kRepeatableRead\<rparr>)))) 2 \<and>
   txn_gen tm_example = 3"
proof -
  obtain tx tm' where b: "TxManager_Begin tm_example (default_txn_options\<lparr>isolation := kRepeatableRead\<rparr>) = (tx, tm')"
    by force
  have "tx_id tx = 3" "txn_gen tm' = 4" "2 \<in> set (active_txns tm_example)"
    using b by (auto simp: TxManager_Begin_def Gen_Next_def TransactionImpl_def tm_example_def Let_def)
  then have "outside_view (tx_view tx) 2"
    using begin_freezes_view [OF _ b, of 2] by (simp add: default_txn_options_def)
  then show ?thesis using b by (simp add: tm_example_def)
qed

text \<open>read validation rejects reads that were served by the LSM tree. Validation looks only at
  the version chains; a key whose value came from the tree has no visible version there, so the
  commit of any transaction that read one is aborted, even with no other transaction around.\<close>

theorem validation_rejects_lsm_reads:
  assumes "enable_rr_validation (tx_opts tx)"
    and "GetVisible (tm_chains tm) key (tx_view tx) = (OK, None)"
    and "Txn_Get L tm tx key = (s, Some v, tx1)"
  shows "fst (Txn_Commit W tm tx1 alloc) = Aborted ''RR validation failed''"
proof -
  have "tx1 = record_read tx key (Some v)"
    using assms(2,3) by (auto simp: Txn_Get_def Let_def split: option.splits prod.splits if_splits)
  then have "tx_view tx1 = tx_view tx" "tx_opts tx1 = tx_opts tx"
    "\<exists>rs. read_set tx1 = (key, Some v) # rs"
    using assms(1) by (simp_all add: record_read_def)
  then show ?thesis using assms(1,2) by (auto simp: Txn_Commit_def)
qed

theorem validation_rejects_lsm_reads_witness:
  "fst (Txn_Commit list_wal tm_example
     (snd (snd (Txn_Get \<lparr>LsmGet = (\<lambda>_ _ _. (OK, [7])), LsmPut = (\<lambda>l _ _ _. (OK, l)), LsmDelete = (\<lambda>l _ _. (OK, l))\<rparr>
       tm_example (tx_example\<lparr>tx_opts := default_txn_options\<lparr>enable_rr_validation := True\<rparr>\<rparr>) [5]))) False)
   = Aborted ''RR validation failed''"
proof -
  let ?tx = "tx_example\<lparr>tx_opts := default_txn_options\<lparr>enable_rr_validation := True\<rparr>\<rparr>"
  let ?L = "\<lparr>LsmGet = (\<lambda>_ _ _. (OK, [7])), LsmPut = (\<lambda>l _ _ _. (OK, l)), LsmDelete = (\<lambda>l _ _. (OK, l))\<rparr> :: unit lsm_ops"
  have g: "GetVisible (tm_chains tm_example) [5] (tx_view ?tx) = (OK, None)"
    by (simp add: tm_example_def GetVisible_def)
  obtain s v tx1 where t: "Txn_Get ?L tm_example ?tx [5] = (s, v, tx1)" by (metis prod_cases3)
  then have "v = Some [7]" using g by (auto simp: Txn_Get_def tm_example_def Let_def)
  then show ?thesis
    using validation_rejects_lsm_reads [OF _ g, of ?L s "[7]" tx1 list_wal False] t
    by (simp add: default_txn_options_def)
qed

text \<open>read validation rejects read-modify-write. A transaction that reads a key and then writes
  another value to it is aborted at commit: the validation reads the key again and meets the
  transaction's own write.\<close>

theorem validation_rejects_own_writes:
  assumes "enable_rr_validation (tx_opts tx)" "rv_my_txn (tx_view tx) = tx_id tx"
    and "Txn_Get L tm tx key = (s, Some v, tx1)" "v' \<noteq> v"
    and "Txn_Put_locked tm tx1 key v' OK = (s', tx2, tm2)"
  shows "fst (Txn_Commit W tm2 tx2 alloc) = Aborted ''RR validation failed''"
proof -
  have t1: "tx1 = record_read tx key (Some v)"
    using assms(3) by (auto simp: Txn_Get_def Let_def split: option.splits prod.splits if_splits)
  have "tm_chains tm2 = snd (VCM_PutActive (tm_chains tm) key v' (rv_my_txn (tx_view tx)))"
    "tx_view tx2 = tx_view tx" "tx_opts tx2 = tx_opts tx" "read_set tx2 = read_set tx1"
    using assms(2,5) t1 by (auto simp: Txn_Put_locked_def VCM_PutActive_def record_read_def Let_def)
  moreover have "GetVisible (snd (VCM_PutActive (tm_chains tm) key v' (rv_my_txn (tx_view tx)))) key (tx_view tx) = (OK, Some v')"
    by (simp add: GetVisible_chain record_visible_def IsVisible_def VersionRecord_def)
  moreover have "\<exists>rs. read_set tx1 = (key, Some v) # rs" using assms(1) t1 by (simp add: record_read_def)
  ultimately show ?thesis using assms(1,4) by (auto simp: Txn_Commit_def)
qed

theorem validation_rejects_own_writes_witness:
  "let tx = tx_example\<lparr>tx_opts := default_txn_options\<lparr>enable_rr_validation := True\<rparr>\<rparr>;
       L = \<lparr>LsmGet = (\<lambda>_ _ _. (OK, [7])), LsmPut = (\<lambda>l _ _ _. (OK, l)), LsmDelete = (\<lambda>l _ _. (OK, l))\<rparr> :: unit lsm_ops;
       tx1 = snd (snd (Txn_Get L tm_example tx [1]));
       (_, tx2, tm2) = Txn_Put_locked tm_example tx1 [1] [8] OK
   in fst (Txn_Commit list_wal tm2 tx2 False) = Aborted ''RR validation failed''"
proof -
  let ?tx = "tx_example\<lparr>tx_opts := default_txn_options\<lparr>enable_rr_validation := True\<rparr>\<rparr>"
  let ?L = "\<lparr>LsmGet = (\<lambda>_ _ _. (OK, [7])), LsmPut = (\<lambda>l _ _ _. (OK, l)), LsmDelete = (\<lambda>l _ _. (OK, l))\<rparr> :: unit lsm_ops"
  obtain s v tx1 where t: "Txn_Get ?L tm_example ?tx [1] = (s, v, tx1)" by (metis prod_cases3)
  have "GetVisible (tm_chains tm_example) [1] (tx_view ?tx) = (OK, Some [20])" by code_simp
  then have v: "v = Some [20]" using t by (auto simp: Txn_Get_def Let_def)
  obtain s' tx2 tm2 where p: "Txn_Put_locked tm_example tx1 [1] [8] OK = (s', tx2, tm2)" by (metis prod_cases3)
  have "fst (Txn_Commit list_wal tm2 tx2 False) = Aborted ''RR validation failed''"
    by (rule validation_rejects_own_writes [OF _ _ t [unfolded v] _ p])
      (simp_all add: default_txn_options_def tx_example_def TransactionImpl_def ReadView_new_def)
  then show ?thesis using t p by (simp add: Let_def)
qed

text \<open>a read-only transaction on an explicit snapshot does not read at it under the default
  level: whatever sequence number it was given, it reads the LSM tree at the current one.\<close>

theorem snapshot_transaction_ignores_snapshot:
  "LsmReadSeq tm (BeginReadOnlyWithLSMSnapshot tm default_txn_options seq) = Gen_Current (snap_gen tm)"
  by (simp add: LsmReadSeq_def BeginReadOnlyWithLSMSnapshot_def BuildReadView_def ReadView_new_def
      default_txn_options_def TransactionImpl_def)

end
