(* ===== verification/WalRecords.thy ===== *)
theory WalRecords
  imports Hashing Statuses "HOL-Library.Char_ord"
begin

text \<open>
  The records of the write-ahead log (\<open>WALRecord\<close> of include/lrdb/wal/wal.h and
  src/wal/wal.cc): their byte format with its checksum, the file names they are stored
  under, and the run-length compression of log files. A record type is the byte of the
  \<open>enum class WALRecordType : uint8_t\<close>: decoding stores any byte in it.
\<close>

type_synonym WALRecordType = byte

abbreviation (input) WAL_kPut :: byte where "WAL_kPut \<equiv> 1"
abbreviation (input) WAL_kDelete :: byte where "WAL_kDelete \<equiv> 2"
abbreviation (input) WAL_kMerge :: byte where "WAL_kMerge \<equiv> 3"
abbreviation (input) WAL_kBeginTransaction :: byte where "WAL_kBeginTransaction \<equiv> 4"
abbreviation (input) WAL_kCommitTransaction :: byte where "WAL_kCommitTransaction \<equiv> 5"
abbreviation (input) WAL_kAbortTransaction :: byte where "WAL_kAbortTransaction \<equiv> 6"
abbreviation (input) WAL_kCheckpoint :: byte where "WAL_kCheckpoint \<equiv> 7"
abbreviation (input) WAL_kFlushMemTable :: byte where "WAL_kFlushMemTable \<equiv> 8"
abbreviation (input) WAL_kCreateColumnFamily :: byte where "WAL_kCreateColumnFamily \<equiv> 9"
abbreviation (input) WAL_kDropColumnFamily :: byte where "WAL_kDropColumnFamily \<equiv> 10"
abbreviation (input) WAL_kUpdateColumnFamilyOptions :: byte where "WAL_kUpdateColumnFamilyOptions \<equiv> 11"

record wal_record =
  wr_type :: WALRecordType
  wr_seq :: u64
  wr_cf :: u32
  wr_key :: bytes
  wr_value :: bytes
  wr_txn :: u64
  wr_crc :: u32

definition WALRecord_new :: wal_record where
  "WALRecord_new = \<lparr>wr_type = WAL_kPut, wr_seq = 0, wr_cf = 0, wr_key = [], wr_value = [],
     wr_txn = 0, wr_crc = 0\<rparr>"

section \<open>Encoding\<close>

definition CalculateCRC :: "wal_record \<Rightarrow> u32" where
  "CalculateCRC r =
     (let d = [wr_type r]; d = PutFixed64 d (wr_seq r); d = PutFixed32 d (wr_cf r);
          d = PutFixed64 d (wr_txn r); d = d @ wr_key r; d = d @ wr_value r
      in CalculateCRC32 d)"

definition ValidateCRC :: "wal_record \<Rightarrow> bool" where
  "ValidateCRC r \<longleftrightarrow> wr_crc r = CalculateCRC r"

definition WAL_Encode :: "wal_record \<Rightarrow> bytes" where
  "WAL_Encode r =
     (let s = [wr_type r]; s = PutFixed64 s (wr_seq r); s = PutFixed32 s (wr_cf r);
          s = PutFixed64 s (wr_txn r); s = PutFixed32 s (of_nat (length (wr_key r)));
          s = PutFixed32 s (of_nat (length (wr_value r)));
          s = s @ wr_key r; s = s @ wr_value r
      in PutFixed32 s (CalculateCRC r))"

text \<open>
  Decoding fills the record as it goes, so an error leaves the fields read so far. The
  length sums are computed in \<open>size_t\<close>, which 33-bit sums cannot overflow.
\<close>

definition WAL_Decode :: "bytes \<Rightarrow> wal_record \<Rightarrow> status \<times> wal_record" where
  "WAL_Decode data r0 =
     (if length data < 33 then (Corruption ''WAL record too short'', r0) else
      let r = r0\<lparr>wr_type := data ! 0, wr_seq := the (DecodeFixed64 (drop 1 data)),
                 wr_cf := the (DecodeFixed32 (drop 9 data)),
                 wr_txn := the (DecodeFixed64 (drop 13 data))\<rparr>;
          key_len = unat (the (DecodeFixed32 (drop 21 data)));
          value_len = unat (the (DecodeFixed32 (drop 25 data)));
          header_len = 1 + 8 + 4 + 8 + 4 + 4
      in if length data \<noteq> header_len + key_len + value_len + 4
         then (Corruption ''WAL record length mismatch'', r)
         else if key_len > length data \<or> value_len > length data - key_len
         then (Corruption ''WAL record data truncated'', r)
         else let r = r\<lparr>wr_key := take key_len (drop 29 data),
                        wr_value := take value_len (drop (29 + key_len) data),
                        wr_crc := the (DecodeFixed32 (drop (29 + key_len + value_len) data))\<rparr>
              in if \<not> ValidateCRC r then (Corruption ''WAL record CRC mismatch'', r) else (OK, r))"

definition ValidateWALRecord :: "wal_record \<Rightarrow> status" where
  "ValidateWALRecord r =
     (if \<not> ValidateCRC r then Corruption ''WAL record CRC mismatch''
      else let type_value = unat (wr_type r)
           in if type_value < 1 \<or> type_value > 11 then Corruption ''Invalid WAL record type'' else OK)"

section \<open>File names\<close>

text \<open>Decimal output of an unsigned integer and \<open>std::setw(6)\<close> with fill character 0.\<close>

fun to_string :: "nat \<Rightarrow> string" where
  "to_string n = (if n < 10 then [char_of (48 + n)] else to_string (n div 10) @ [char_of (48 + n mod 10)])"

declare to_string.simps [simp del]

definition setw0 :: "nat \<Rightarrow> string \<Rightarrow> string" where
  "setw0 w s = replicate (w - length s) CHR ''0'' @ s"

definition FormatWALFilename :: "u64 \<Rightarrow> string" where
  "FormatWALFilename file_number = setw0 6 (to_string (unat file_number)) @ ''.wal''"

text \<open>
  \<open>std::stoull\<close>: white space, an optional sign, then the longest run of digits; no digit is
  \<open>invalid_argument\<close>, a value that does not fit 64 bits is \<open>out_of_range\<close>, a minus sign
  negates modulo \<open>2^64\<close>, and whatever follows the digits is ignored.
\<close>

definition is_digit :: "char \<Rightarrow> bool" where
  "is_digit c \<longleftrightarrow> 48 \<le> (of_char c :: nat) \<and> (of_char c :: nat) \<le> 57"

definition is_space :: "char \<Rightarrow> bool" where
  "is_space c \<longleftrightarrow> (of_char c :: nat) = 32 \<or> (9 \<le> (of_char c :: nat) \<and> (of_char c :: nat) \<le> 13)"

definition digits_value :: "string \<Rightarrow> nat" where
  "digits_value ds = foldl (\<lambda>n d. 10 * n + (of_char d - 48)) 0 ds"

definition stoull :: "string \<Rightarrow> u64 option" where
  "stoull s =
     (let s = dropWhile is_space s;
          (neg, s) = (case s of c # t \<Rightarrow> if c = CHR ''-'' then (True, t)
                        else if c = CHR ''+'' then (False, t) else (False, s) | [] \<Rightarrow> (False, s));
          ds = takeWhile is_digit s; n = digits_value ds
      in if ds = [] then None else if 2 ^ 64 \<le> n then None
         else Some (if neg then - of_nat n else of_nat n))"

definition ParseWALFilename :: "string \<Rightarrow> status \<times> u64 option" where
  "ParseWALFilename filename =
     (if length filename \<le> 4 \<or> drop (length filename - 4) filename \<noteq> ''.wal''
      then (InvalidArgument ''Invalid WAL filename'', None)
      else case stoull (take (length filename - 4) filename) of
             Some n \<Rightarrow> (OK, Some n)
           | None \<Rightarrow> (InvalidArgument ''Cannot parse file number: stoull'', None))"

section \<open>Run-length compression\<close>

text \<open>The inner loop that measures a run, from a run of \<open>r\<close> equal bytes \<open>b\<close>.\<close>

fun RLE_run :: "byte \<Rightarrow> bytes \<Rightarrow> nat \<Rightarrow> nat" where
  "RLE_run b [] r = r"
| "RLE_run b (x # xs) r = (if x = b \<and> r < 130 then RLE_run b xs (r + 1) else r)"

text \<open>The literal segment from the current position: it stops before a run of three.\<close>

fun RLE_literal :: "bytes \<Rightarrow> nat \<Rightarrow> nat" where
  "RLE_literal [] l = l"
| "RLE_literal (x # xs) l =
     (if RLE_run x xs 1 \<ge> 3 then l else if l + 1 = 128 then l + 1 else RLE_literal xs (l + 1))"

lemma RLE_run_ge: "r \<le> RLE_run b xs r"
  by (induction b xs r rule: RLE_run.induct) auto

function RLECompress :: "bytes \<Rightarrow> bytes" where
  "RLECompress [] = []"
| "RLECompress (x # xs) =
     (let run = RLE_run x xs 1
      in if run \<ge> 3
         then [of_nat (run - 3) OR 0x80, x] @ RLECompress (drop run (x # xs))
         else let l = RLE_literal (x # xs) 0; l = (if l = 0 then 1 else l)
              in [of_nat (l - 1)] @ take l (x # xs) @ RLECompress (drop l (x # xs)))"
  by pat_completeness auto
termination
  by (relation "measure length") (auto intro: diff_less simp: Let_def split: if_splits)

fun RLEDecompress :: "bytes \<Rightarrow> bytes option" where
  "RLEDecompress [] = Some []"
| "RLEDecompress (ctrl # rest) =
     (if ctrl \<le> 127
      then let len = unat ctrl + 1
           in if length rest < len then None
              else map_option (\<lambda>out. take len rest @ out) (RLEDecompress (drop len rest))
      else case rest of
             [] \<Rightarrow> None
           | b # rest' \<Rightarrow> map_option (\<lambda>out. replicate (unat ctrl - 125) b @ out) (RLEDecompress rest'))"

section \<open>The byte format\<close>

lemma WAL_Encode_layout:
  "WAL_Encode r = (wr_type r # PutFixed64 [] (wr_seq r) @ PutFixed32 [] (wr_cf r) @ PutFixed64 [] (wr_txn r)) @
     (PutFixed32 [] (of_nat (length (wr_key r))) @ PutFixed32 [] (of_nat (length (wr_value r)))) @
     (wr_key r @ wr_value r) @ PutFixed32 [] (CalculateCRC r)"
  by (simp add: WAL_Encode_def Let_def PutFixed32_append [of "_ # _"] PutFixed64_append [of "_ # _"]
      PutFixed32_append [of "_ @ _"] PutFixed64_append [of "_ @ _"])

text \<open>The fixed header, the two length fields, and the bytes the checksum covers.\<close>

definition wr_header :: "wal_record \<Rightarrow> bytes" where
  "wr_header r = wr_type r # PutFixed64 [] (wr_seq r) @ PutFixed32 [] (wr_cf r) @ PutFixed64 [] (wr_txn r)"

definition wr_lengths :: "wal_record \<Rightarrow> bytes" where
  "wr_lengths r = PutFixed32 [] (of_nat (length (wr_key r))) @ PutFixed32 [] (of_nat (length (wr_value r)))"

lemma length_wr_header [simp]: "length (wr_header r) = 21"
  by (simp add: wr_header_def)

lemma length_wr_lengths [simp]: "length (wr_lengths r) = 8"
  by (simp add: wr_lengths_def)

lemma WAL_Encode_parts:
  "WAL_Encode r = wr_header r @ wr_lengths r @ (wr_key r @ wr_value r) @ PutFixed32 [] (CalculateCRC r)"
  by (simp add: WAL_Encode_layout wr_header_def wr_lengths_def)

lemma CalculateCRC_payload: "CalculateCRC r = CRC32 (wr_header r @ wr_key r @ wr_value r)"
  by (simp add: CalculateCRC_def CalculateCRC32_def wr_header_def Let_def
      PutFixed32_append [of "_ # _"] PutFixed64_append [of "_ # _"] PutFixed32_append [of "_ @ _"] PutFixed64_append [of "_ @ _"])

lemma length_WAL_Encode [simp]: "length (WAL_Encode r) = 33 + length (wr_key r) + length (wr_value r)"
  by (simp add: WAL_Encode_parts)

lemma drop_Cons_pos: "0 < n \<Longrightarrow> drop n (x # xs) = drop (n - 1) xs"
  by (cases n) auto

text \<open>The record a decoder that succeeds returns: every field it writes comes from the bytes.\<close>

definition wr_fits :: "wal_record \<Rightarrow> bool" where
  "wr_fits r \<longleftrightarrow> length (wr_key r) < 2 ^ 32 \<and> length (wr_value r) < 2 ^ 32"

lemma WAL_Decode_Encode:
  assumes "wr_fits r"
  shows "WAL_Decode (WAL_Encode r) r0 = (OK, r\<lparr>wr_crc := CalculateCRC r\<rparr>)"
proof -
  have k: "unat (of_nat (length (wr_key r)) :: u32) = length (wr_key r)"
    and v: "unat (of_nat (length (wr_value r)) :: u32) = length (wr_value r)"
    using assms by (simp_all add: wr_fits_def unat_of_nat)
  have d: "DecodeFixed64 (drop 1 (WAL_Encode r)) = Some (wr_seq r)"
    "DecodeFixed32 (drop 9 (WAL_Encode r)) = Some (wr_cf r)"
    "DecodeFixed64 (drop 13 (WAL_Encode r)) = Some (wr_txn r)"
    "DecodeFixed32 (drop 21 (WAL_Encode r)) = Some (of_nat (length (wr_key r)))"
    "DecodeFixed32 (drop 25 (WAL_Encode r)) = Some (of_nat (length (wr_value r)))"
    "WAL_Encode r ! 0 = wr_type r"
    by (simp_all add: WAL_Encode_layout drop_Cons_pos)
  have t: "drop 29 (WAL_Encode r) = wr_key r @ wr_value r @ PutFixed32 [] (CalculateCRC r)"
    by (simp add: WAL_Encode_parts)
  have u: "drop (29 + length (wr_key r)) (WAL_Encode r) = wr_value r @ PutFixed32 [] (CalculateCRC r)"
    "drop (29 + length (wr_key r) + length (wr_value r)) (WAL_Encode r) = PutFixed32 [] (CalculateCRC r)"
    using t by (simp_all add: drop_drop [symmetric] add.commute del: drop_drop)
  have c: "DecodeFixed32 (PutFixed32 [] (CalculateCRC r)) = Some (CalculateCRC r)"
    using DecodeFixed32_Put [of _ "[]"] by simp
  have s: "r0\<lparr>wr_type := wr_type r, wr_seq := wr_seq r, wr_cf := wr_cf r, wr_txn := wr_txn r,
      wr_key := wr_key r, wr_value := wr_value r, wr_crc := CalculateCRC r\<rparr> = r\<lparr>wr_crc := CalculateCRC r\<rparr>"
    by simp
  have vc: "ValidateCRC (r0\<lparr>wr_type := wr_type r, wr_seq := wr_seq r, wr_cf := wr_cf r, wr_txn := wr_txn r,
      wr_key := wr_key r, wr_value := wr_value r, wr_crc := CalculateCRC r\<rparr>)"
    by (simp add: ValidateCRC_def CalculateCRC_def)
  show ?thesis
    unfolding WAL_Decode_def Let_def d t u option.sel k v
    using s vc by (simp add: c t u)
qed

text \<open>Conversely, only encodings decode: a successful decoder was given the encoding of its result.\<close>

lemma WAL_Decode_exact:
  assumes "WAL_Decode data r0 = (OK, r)"
  shows "data = WAL_Encode r" "wr_crc r = CalculateCRC r" "wr_fits r"
proof -
  let ?k = "the (DecodeFixed32 (drop 21 data))" and ?v = "the (DecodeFixed32 (drop 25 data))"
  note d = assms [unfolded WAL_Decode_def Let_def]
  have l33: "33 \<le> length data"
    using d by (cases "length data < 33") simp_all
  have l: "length data = 1 + 8 + 4 + 8 + 4 + 4 + unat ?k + unat ?v + 4"
    using d l33 by (simp only: not_less [symmetric] if_False prod.inject errors_not_OK split: if_split_asm) simp_all
  let ?r = "r0\<lparr>wr_type := data ! 0, wr_seq := the (DecodeFixed64 (drop 1 data)),
      wr_cf := the (DecodeFixed32 (drop 9 data)), wr_txn := the (DecodeFixed64 (drop 13 data)),
      wr_key := take (unat ?k) (drop 29 data), wr_value := take (unat ?v) (drop (29 + unat ?k) data),
      wr_crc := the (DecodeFixed32 (drop (29 + unat ?k + unat ?v) data))\<rparr>"
  have rv: "r = ?r \<and> ValidateCRC ?r"
  proof -
    have c1: "\<not> length data < 33" using l33 by simp
    have c2: "\<not> length data \<noteq> 1 + 8 + 4 + 8 + 4 + 4 + unat ?k + unat ?v + 4" using l by blast
    have c3: "\<not> (unat ?k > length data \<or> unat ?v > length data - unat ?k)" using l by linarith
    show ?thesis
      using d unfolding if_not_P [OF c1] if_not_P [OF c2] if_not_P [OF c3]
      by (simp only: prod.inject errors_not_OK split: if_split_asm) simp_all
  qed
  then have r: "r = ?r" and v: "ValidateCRC r" by simp_all
  define k where "k = unat ?k"
  define w where "w = unat ?v"
  have len: "length data = 33 + k + w" using l unfolding k_def [symmetric] w_def [symmetric] by linarith
  have key: "wr_key r = take k (drop 29 data)" and val: "wr_value r = take w (drop (29 + k) data)"
    and crcf: "wr_crc r = the (DecodeFixed32 (drop (29 + k + w) data))"
    and hd: "wr_type r = data ! 0" "wr_seq r = the (DecodeFixed64 (drop 1 data))"
      "wr_cf r = the (DecodeFixed32 (drop 9 data))" "wr_txn r = the (DecodeFixed64 (drop 13 data))"
    unfolding r k_def w_def by simp_all
  have kv: "length (wr_key r) = k" "length (wr_value r) = w"
    unfolding key val using len by simp_all
  have lt: "k < 2 ^ 32" "w < 2 ^ 32" unfolding k_def w_def by (rule order_less_le_trans [OF unsigned_less], simp)+
  show crc: "wr_crc r = CalculateCRC r" using v by (simp add: ValidateCRC_def)
  show "wr_fits r" using lt by (simp add: wr_fits_def kv)
  have p32: "PutFixed32 [] (the (DecodeFixed32 (drop n data))) = take 4 (drop n data)" if "n + 4 \<le> length data" for n
  proof -
    have "4 \<le> length (drop n data)" "length (take 4 (drop n data)) = 4" using that by simp_all
    then show ?thesis
      using le_bytes_val [of "take 4 (drop n data)", where 'a = 32] by (simp only: DecodeFixed32_le PutFixed32_le if_True option.sel) simp
  qed
  have p64: "PutFixed64 [] (the (DecodeFixed64 (drop n data))) = take 8 (drop n data)" if "n + 8 \<le> length data" for n
  proof -
    have "8 \<le> length (drop n data)" "length (take 8 (drop n data)) = 8" using that by simp_all
    then show ?thesis
      using le_bytes_val [of "take 8 (drop n data)", where 'a = 64] by (simp only: DecodeFixed64_le PutFixed64_le if_True option.sel) simp
  qed
  have split: "drop n data = take m (drop n data) @ drop (n + m) data" for n m
    by (metis add.commute append_take_drop_id drop_drop)
  have kk: "?k = of_nat k" "?v = of_nat w" by (simp_all add: k_def w_def)
  have "data = [data ! 0] @ drop 1 data"
    using len by (cases data) auto
  also have "drop 1 data = PutFixed64 [] (wr_seq r) @ drop 9 data"
    using split [of 1 8] p64 [of 1] len by (simp add: hd)
  also have "drop 9 data = PutFixed32 [] (wr_cf r) @ drop 13 data"
    using split [of 9 4] p32 [of 9] len by (simp add: hd)
  also have "drop 13 data = PutFixed64 [] (wr_txn r) @ drop 21 data"
    using split [of 13 8] p64 [of 13] len by (simp add: hd)
  also have "drop 21 data = PutFixed32 [] (of_nat k) @ drop 25 data"
    using split [of 21 4] p32 [of 21] len unfolding kk by simp
  also have "drop 25 data = PutFixed32 [] (of_nat w) @ drop 29 data"
    using split [of 25 4] p32 [of 25] len unfolding kk by simp
  also have "drop 29 data = wr_key r @ wr_value r @ drop (29 + k + w) data"
    using split [of 29 k] split [of "29 + k" w] by (simp add: key val)
  also have "drop (29 + k + w) data = PutFixed32 [] (CalculateCRC r)"
    using len p32 [of "29 + k + w"] unfolding crcf [symmetric] crc by simp
  finally show "data = WAL_Encode r"
    by (simp add: WAL_Encode_layout kv hd)
qed

lemma nth_list_update_same: "i < length xs \<Longrightarrow> xs[i := b] = xs \<Longrightarrow> b = xs ! i"
  by (metis nth_list_update_eq)

text \<open>Two encodings that differ in at most one byte are equal.\<close>

lemma of_nat_u32_inj: "(of_nat m :: u32) = of_nat n \<Longrightarrow> m < 2 ^ 32 \<Longrightarrow> n < 2 ^ 32 \<Longrightarrow> m = n"
proof -
  assume e: "(of_nat m :: u32) = of_nat n" and l: "m < 2 ^ 32" "n < 2 ^ 32"
  have m: "unat (of_nat m :: u32) = m" and n: "unat (of_nat n :: u32) = n"
    using l by (simp_all add: unat_of_nat)
  show "m = n" using m n unfolding e by (rule trans [OF sym])
qed

lemma PutFixed32_inj: "PutFixed32 [] a = PutFixed32 [] b \<longleftrightarrow> a = b"
  by (metis DecodeFixed32_Put append_Nil2 option.inject)

lemma wr_lengths_one_byte:
  assumes "wr_lengths r' = (wr_lengths r)[i := b]" "wr_fits r" "wr_fits r'"
    and "length (wr_key r') + length (wr_value r') = length (wr_key r) + length (wr_value r)"
  shows "wr_lengths r' = wr_lengths r"
proof (cases "i < 4")
  case True
  then have "PutFixed32 [] (of_nat (length (wr_value r'))) = PutFixed32 [] (of_nat (length (wr_value r)))"
    using assms(1) by (simp add: wr_lengths_def list_update_append)
  then have "(of_nat (length (wr_value r')) :: u32) = of_nat (length (wr_value r))"
    by (metis DecodeFixed32_Put append_Nil2 option.inject)
  then have "length (wr_value r') = length (wr_value r)"
    using assms(2,3) by (intro of_nat_u32_inj) (simp_all add: wr_fits_def)
  then show ?thesis using assms(4) by (simp add: wr_lengths_def)
next
  case False
  then have "PutFixed32 [] (of_nat (length (wr_key r'))) = PutFixed32 [] (of_nat (length (wr_key r)))"
    using assms(1) by (simp add: wr_lengths_def list_update_append)
  then have "(of_nat (length (wr_key r')) :: u32) = of_nat (length (wr_key r))"
    by (metis DecodeFixed32_Put append_Nil2 option.inject)
  then have "length (wr_key r') = length (wr_key r)"
    using assms(2,3) by (intro of_nat_u32_inj) (simp_all add: wr_fits_def)
  then show ?thesis using assms(4) by (simp add: wr_lengths_def)
qed

definition wr_body :: "wal_record \<Rightarrow> bytes" where "wr_body r = wr_key r @ wr_value r"

lemma WAL_Encode_body:
  "WAL_Encode r = wr_header r @ wr_lengths r @ wr_body r @ PutFixed32 [] (CalculateCRC r)"
  by (simp add: WAL_Encode_parts wr_body_def)

lemma CalculateCRC_body: "CalculateCRC r = CRC32 (wr_header r @ wr_body r)"
  by (simp add: CalculateCRC_payload wr_body_def)

lemma append4_eq:
  "length a = length a' \<Longrightarrow> length b = length b' \<Longrightarrow> length c = length c' \<Longrightarrow>
    a @ b @ c @ d = a' @ b' @ c' @ d' \<longleftrightarrow> a = a' \<and> b = b' \<and> c = c' \<and> d = d'"
  by simp

lemma list_update_append4:
  "(a @ b @ c @ d)[i := x] =
     (if i < length a then a[i := x] @ b @ c @ d
      else if i < length a + length b then a @ b[i - length a := x] @ c @ d
      else if i < length a + length b + length c then a @ b @ c[i - length a - length b := x] @ d
      else a @ b @ c @ d[i - length a - length b - length c := x])"
  by (auto simp: list_update_append not_less less_diff_conv2)

lemma WAL_Encode_one_byte:
  assumes e: "WAL_Encode r' = (WAL_Encode r)[i := b]" and i: "i < length (WAL_Encode r)"
    and f: "wr_fits r" "wr_fits r'"
  shows "b = WAL_Encode r ! i"
proof -
  let ?c = "\<lambda>r. PutFixed32 [] (CalculateCRC r)"
  have "length (WAL_Encode r') = length (WAL_Encode r)" by (simp only: e length_list_update)
  then have n: "length (wr_key r') + length (wr_value r') = length (wr_key r) + length (wr_value r)"
    unfolding length_WAL_Encode by linarith
  then have nb: "length (wr_body r') = length (wr_body r)" by (simp add: wr_body_def)
  note ls = wr_lengths_one_byte [OF _ f n]
  note e4 = e [unfolded WAL_Encode_body list_update_append4 length_wr_header length_wr_lengths]
  have crc: "wr_body r' = wr_body r \<Longrightarrow> wr_header r' = wr_header r \<Longrightarrow> wr_lengths r' = wr_lengths r \<Longrightarrow>
      WAL_Encode r' = WAL_Encode r"
    by (simp only: WAL_Encode_body CalculateCRC_body)
  consider "i < 21" | "21 \<le> i" "i < 29" | "29 \<le> i" "i < 29 + length (wr_body r)" | "29 + length (wr_body r) \<le> i"
    by linarith
  then have "WAL_Encode r' = WAL_Encode r"
  proof cases
    case 1
    with e4 nb have *: "wr_header r' = (wr_header r)[i := b]" "wr_lengths r' = wr_lengths r"
      "wr_body r' = wr_body r" "?c r' = ?c r"
      by (simp_all add: append4_eq)
    then have "CRC32 ((wr_header r @ wr_body r)[i := b]) = CRC32 (wr_header r @ wr_body r)"
      using 1 by (simp add: PutFixed32_inj CalculateCRC_body list_update_append)
    from CRC32_one_byte [OF _ this] 1 have "b = wr_header r ! i" by (simp add: nth_append)
    then show ?thesis using * by (intro crc) simp_all
  next
    case 2
    with e4 nb have *: "wr_header r' = wr_header r" "wr_lengths r' = (wr_lengths r)[i - 21 := b]"
      "wr_body r' = wr_body r"
      by (simp_all add: append4_eq)
    then show ?thesis using ls by (intro crc) simp_all
  next
    case 3
    have i8: "\<not> i - 8 < 21" "i - 8 - 21 = i - 29" using 3 by linarith+
    from 3 e4 nb have *: "wr_header r' = wr_header r" "wr_lengths r' = wr_lengths r"
      "wr_body r' = (wr_body r)[i - 29 := b]" "?c r' = ?c r"
      by (simp_all add: append4_eq)
    then have "CRC32 ((wr_header r @ wr_body r)[i - 8 := b]) = CRC32 (wr_header r @ wr_body r)"
      using 3 i8 by (simp add: PutFixed32_inj CalculateCRC_body list_update_append)
    from CRC32_one_byte [OF _ this] 3 i8 have "b = wr_body r ! (i - 29)" by (simp add: nth_append)
    then show ?thesis using * 3 by (intro crc) simp_all
  next
    case 4
    with e4 nb have "wr_header r' = wr_header r" "wr_lengths r' = wr_lengths r" "wr_body r' = wr_body r"
      by (simp_all add: append4_eq)
    then show ?thesis by (intro crc)
  qed
  then show ?thesis using e i by (metis nth_list_update_eq)
qed

text \<open>The decoder answers OK or a corruption, never anything else.\<close>

lemma WAL_Decode_cases: "fst (WAL_Decode data r0) = OK \<or> IsCorruption (fst (WAL_Decode data r0))"
  unfolding WAL_Decode_def Let_def
  by (simp only: fst_conv IsCorruption_simps simp_thms split: if_split)

section \<open>The run-length code\<close>

lemma RLE_run_prefix:
  "r \<le> 130 \<Longrightarrow> RLE_run b xs r \<le> 130 \<and> RLE_run b xs r - r \<le> length xs \<and>
    take (RLE_run b xs r - r) xs = replicate (RLE_run b xs r - r) b"
proof (induction b xs r rule: RLE_run.induct)
  case (2 b x xs r)
  show ?case
  proof (cases "x = b \<and> r < 130")
    case True
    then have "RLE_run b xs (r + 1) - r = Suc (RLE_run b xs (r + 1) - (r + 1))"
      using RLE_run_ge [of "r + 1" b xs] by simp
    then show ?thesis using 2 True by (simp add: take_Cons)
  next
    case False
    then have "RLE_run b (x # xs) r = r" by (simp only: RLE_run.simps if_False)
    then show ?thesis using 2 by (simp only: diff_self_eq_0) simp
  qed
qed simp

lemma RLE_run_take:
  "take (RLE_run x xs 1) (x # xs) = replicate (RLE_run x xs 1) x"
  "RLE_run x xs 1 \<le> 130" "RLE_run x xs 1 \<le> length (x # xs)"
proof -
  have "RLE_run x xs 1 = Suc (RLE_run x xs 1 - 1)" using RLE_run_ge [of 1 x xs] by simp
  then show "take (RLE_run x xs 1) (x # xs) = replicate (RLE_run x xs 1) x"
    "RLE_run x xs 1 \<le> 130" "RLE_run x xs 1 \<le> length (x # xs)"
    using RLE_run_prefix [of 1 x xs] by (metis One_nat_def Suc_leI length_Cons not_less_eq_eq one_le_numeral replicate_Suc take_Suc_Cons)+
qed

lemma RLE_literal_bounds:
  "l < 128 \<Longrightarrow> l \<le> RLE_literal xs l \<and> RLE_literal xs l \<le> 128 \<and> RLE_literal xs l \<le> l + length xs"
proof (induction xs l rule: RLE_literal.induct)
  case (2 x xs l)
  then show ?case by (cases "l + 1 = 128") (auto simp: Let_def)
qed simp

lemma RLE_ctrl_run: "3 \<le> n \<Longrightarrow> n \<le> 130 \<Longrightarrow>
  \<not> (of_nat (n - 3) OR 0x80 :: byte) \<le> 127 \<and> unat (of_nat (n - 3) OR 0x80 :: byte) = n + 125"
proof -
  assume n: "3 \<le> n" "n \<le> 130"
  have "\<forall>k \<in> set [0..<128]. unat (of_nat k OR 0x80 :: byte) = k + 128" by code_simp
  moreover have "n - 3 \<in> set [0..<128]" using n by simp
  ultimately have e: "unat (of_nat (n - 3) OR 0x80 :: byte) = (n - 3) + 128" by (rule bspec)
  define w :: byte where "w = of_nat (n - 3) OR 0x80"
  have "unat w = n + 125" using e n unfolding w_def [symmetric] by linarith
  moreover have "unat (127 :: byte) = 127" by simp
  ultimately have "\<not> w \<le> 127 \<and> unat w = n + 125" using n unfolding word_le_nat_alt by linarith
  then show ?thesis unfolding w_def .
qed

lemma byte_small: "m < 128 \<Longrightarrow> (of_nat m :: byte) \<le> 127 \<and> unat (of_nat m :: byte) = m"
  by (simp add: word_le_nat_alt unat_of_nat)

lemma RLE_roundtrip: "RLEDecompress (RLECompress data) = Some data"
proof (induction data rule: RLECompress.induct)
  case (2 x xs)
  let ?run = "RLE_run x xs 1" and ?l0 = "RLE_literal (x # xs) 0"
  define l where "l = (if ?l0 = 0 then 1 else ?l0)"
  show ?case
  proof (cases "?run \<ge> 3")
    case True
    have "RLEDecompress (RLECompress (x # xs)) =
        map_option (\<lambda>out. replicate ?run x @ out) (RLEDecompress (RLECompress (drop ?run (x # xs))))"
      using True RLE_ctrl_run [OF True RLE_run_take(2)] by (simp add: Let_def)
    also have "\<dots> = Some (take ?run (x # xs) @ drop ?run (x # xs))"
      unfolding RLE_run_take(1) [symmetric] using "2.IH"(1) [OF refl True] by simp
    finally show ?thesis by simp
  next
    case False
    have l: "1 \<le> l" "l \<le> 128" "l \<le> length (x # xs)"
      using RLE_literal_bounds [of 0 "x # xs"] by (auto simp: l_def)
    have c: "(of_nat (l - 1) :: byte) \<le> 127" "unat (of_nat (l - 1) :: byte) + 1 = l"
      using byte_small [of "l - 1"] l by linarith+
    have "RLECompress (x # xs) = of_nat (l - 1) # take l (x # xs) @ RLECompress (drop l (x # xs))"
      using False by (simp add: Let_def l_def)
    then have "RLEDecompress (RLECompress (x # xs)) =
        map_option (\<lambda>out. take l (x # xs) @ out) (RLEDecompress (RLECompress (drop l (x # xs))))"
      using c l by (simp del: RLECompress.simps of_nat_diff take_Cons drop_Cons)
    also have "\<dots> = Some (take l (x # xs) @ drop l (x # xs))"
      using "2.IH"(2) [OF refl False refl l_def] by simp
    finally show ?thesis by simp
  qed
qed simp

section \<open>Numbers in file names\<close>

lemma digits_value_snoc: "digits_value (ds @ [d]) = 10 * digits_value ds + (of_char d - 48)"
  by (simp add: digits_value_def)

lemma digits_value_to_string: "digits_value (to_string n) = n"
proof (induction n rule: to_string.induct)
  case (1 n)
  show ?case
    by (subst to_string.simps) (auto simp: digits_value_snoc 1, auto simp: digits_value_def)
qed

lemma to_string_digits: "(\<forall>c \<in> set (to_string n). is_digit c) \<and> to_string n \<noteq> []"
proof (induction n rule: to_string.induct)
  case (1 n)
  have "is_digit (char_of (48 + k))" if "k < 10" for k :: nat
    using that by (simp add: is_digit_def)
  then show ?case using 1 by (subst (1 2) to_string.simps) auto
qed

lemma is_digit_facts:
  "is_digit c \<Longrightarrow> \<not> is_space c \<and> c \<noteq> CHR ''-'' \<and> c \<noteq> CHR ''+'' \<and> c \<noteq> CHR ''.''"
  by (auto simp: is_digit_def is_space_def)

lemma replicate_zero_digits: "c \<in> set (setw0 w (to_string n)) \<Longrightarrow> is_digit c"
  using to_string_digits [of n] by (auto simp: setw0_def is_digit_def)

lemma digits_value_fold: "foldl (\<lambda>n d. 10 * n + (of_char d - 48)) a ds = a * 10 ^ length ds + digits_value ds"
  unfolding digits_value_def
proof (induction ds arbitrary: a)
  case (Cons d ds)
  have "foldl (\<lambda>n d. 10 * n + (of_char d - 48)) (10 * a + (of_char d - 48)) ds
      = (10 * a + (of_char d - 48)) * 10 ^ length ds + foldl (\<lambda>n d. 10 * n + (of_char d - 48)) 0 ds"
    by (rule Cons)
  moreover have "foldl (\<lambda>n d. 10 * n + (of_char d - 48 :: nat)) (10 * 0 + (of_char d - 48)) ds
      = (10 * 0 + (of_char d - 48)) * 10 ^ length ds + foldl (\<lambda>n d. 10 * n + (of_char d - 48)) 0 ds"
    by (rule Cons)
  ultimately show ?case by (simp add: algebra_simps)
qed simp

lemma digits_value_Cons: "digits_value (d # ds) = (of_char d - 48) * 10 ^ length ds + digits_value ds"
  using digits_value_fold [of "of_char d - 48" ds] by (simp add: digits_value_def)

lemma digits_value_setw0: "digits_value (setw0 w (to_string n)) = n"
proof -
  have "digits_value (replicate k CHR ''0'' @ ds) = digits_value ds" for k ds
    by (induction k) (simp_all add: digits_value_Cons)
  then show ?thesis by (simp add: setw0_def digits_value_to_string)
qed

lemma ParseWALFilename_Format: "ParseWALFilename (FormatWALFilename n) = (OK, Some n)"
proof -
  let ?d = "setw0 6 (to_string (unat n))"
  have ne: "?d \<noteq> []" using to_string_digits by (simp add: setw0_def)
  have dg: "\<forall>c \<in> set ?d. is_digit c" using replicate_zero_digits by blast
  have len: "4 < length (?d @ ''.wal'')" "take (length (?d @ ''.wal'') - 4) (?d @ ''.wal'') = ?d"
    "drop (length (?d @ ''.wal'') - 4) (?d @ ''.wal'') = ''.wal''"
    using ne by simp_all
  obtain c cs where d: "?d = c # cs" using ne by (cases ?d) auto
  have c: "is_digit c" using dg d by simp
  have ws: "dropWhile is_space ?d = ?d" using is_digit_facts [OF c] by (simp add: d)
  have tw: "takeWhile is_digit ?d = ?d" using dg by (simp add: takeWhile_eq_all_conv)
  have v: "digits_value ?d = unat n" by (rule digits_value_setw0)
  have "unat n < 2 ^ 64" by (rule order_less_le_trans [OF unsigned_less]) simp
  then have "stoull ?d = Some n"
    using ws tw v ne is_digit_facts [OF c] unfolding stoull_def Let_def ws
    by (simp add: d)
  then show ?thesis
    unfolding ParseWALFilename_def FormatWALFilename_def using len by simp
qed

lemma digits_value_less: "\<forall>c \<in> set ds. is_digit c \<Longrightarrow> digits_value ds < 10 ^ length ds"
proof (induction ds)
  case (Cons d ds)
  then have "of_char d - 48 \<le> (9 :: nat)" by (auto simp: is_digit_def)
  then have m: "(of_char d - 48) * 10 ^ length ds \<le> (9 :: nat) * 10 ^ length ds" by (rule mult_le_mono1)
  have "digits_value ds < 10 ^ length ds" using Cons by simp
  then have "(of_char d - 48) * 10 ^ length ds + digits_value ds < 9 * 10 ^ length ds + 10 ^ length ds"
    by (rule add_le_less_mono [OF m])
  then show ?case by (simp add: digits_value_Cons)
qed (simp add: digits_value_def)

lemma digits_less_iff:
  "length xs = length ys \<Longrightarrow> \<forall>c \<in> set xs. is_digit c \<Longrightarrow> \<forall>c \<in> set ys. is_digit c \<Longrightarrow>
    xs < ys \<longleftrightarrow> digits_value xs < digits_value ys"
proof (induction xs ys rule: list_induct2)
  case (Cons x xs y ys)
  let ?n = "10 ^ length xs :: nat"
  have b: "digits_value xs < ?n" "digits_value ys < ?n"
    using digits_value_less [of xs] digits_value_less [of ys] Cons by auto
  have IH: "xs < ys \<longleftrightarrow> digits_value xs < digits_value ys" using Cons by simp
  let ?x = "of_char x :: nat" and ?y = "of_char y :: nat"
  have g: "48 \<le> ?x" "48 \<le> ?y" using Cons by (auto simp: is_digit_def)
  have v: "digits_value (x # xs) = (?x - 48) * ?n + digits_value xs"
    "digits_value (y # ys) = (?y - 48) * ?n + digits_value ys"
    using Cons(1) by (simp_all add: digits_value_Cons)
  consider "?x < ?y" | "?x = ?y" | "?y < ?x" by linarith
  then show ?case
  proof cases
    case 1
    then have "(?x - 48) * ?n + ?n \<le> (?y - 48) * ?n"
      using g 1 mult_le_mono1 [of "Suc (?x - 48)" "?y - 48" ?n] by (simp add: add.commute)
    then show ?thesis using 1 b v by (simp add: less_char_def)
  next
    case 2
    then have "x = y" by (metis char_of_char)
    then show ?thesis using IH v by simp
  next
    case 3
    then have "(?y - 48) * ?n + ?n \<le> (?x - 48) * ?n"
      using g 3 mult_le_mono1 [of "Suc (?y - 48)" "?x - 48" ?n] by (simp add: add.commute)
    then show ?thesis using 3 b v by (auto simp: less_char_def)
  qed
qed simp

lemma length_to_string: "n < 10 ^ Suc k \<Longrightarrow> length (to_string n) \<le> Suc k"
proof (induction k arbitrary: n)
  case 0 then show ?case by (subst to_string.simps) simp
next
  case (Suc k)
  then have "length (to_string (n div 10)) \<le> Suc k" by (intro Suc.IH) auto
  then show ?case by (subst to_string.simps) simp
qed

lemma less_append_same:
  "length xs = length ys \<Longrightarrow> (xs @ zs :: string) < ys @ zs \<longleftrightarrow> xs < ys"
  by (induction xs ys rule: list_induct2) auto

lemma FormatWALFilename_less:
  assumes "unat m < 10 ^ 6" "unat n < 10 ^ 6"
  shows "FormatWALFilename m < FormatWALFilename n \<longleftrightarrow> m < n"
proof -
  have l: "length (setw0 6 (to_string k)) = 6" if "k < 10 ^ 6" for k
    using length_to_string [of k 5] that by (simp add: setw0_def)
  have "FormatWALFilename m < FormatWALFilename n \<longleftrightarrow> setw0 6 (to_string (unat m)) < setw0 6 (to_string (unat n))"
    using l assms unfolding FormatWALFilename_def by (intro less_append_same) simp
  also have "\<dots> \<longleftrightarrow> unat m < unat n"
    using l [OF assms(1)] l [OF assms(2)] replicate_zero_digits
    by (subst digits_less_iff) (auto simp: digits_value_setw0)
  finally show ?thesis by (simp add: word_less_nat_alt)
qed

section \<open>Properties\<close>

text \<open>C24: WAL records survive the log. What Encode writes, Decode returns, for keys and values
  that fit their 32-bit length fields; and nothing but an encoding decodes: whenever Decode
  answers OK, its input is exactly the encoding of the record it returns.\<close>

theorem wal_record_roundtrip:
  assumes "length (wr_key r) < 2 ^ 32" "length (wr_value r) < 2 ^ 32"
  shows "WAL_Decode (WAL_Encode r) r0 = (OK, r\<lparr>wr_crc := CalculateCRC r\<rparr>) \<and>
    (\<forall>data r'. WAL_Decode data r0 = (OK, r') \<longrightarrow> data = WAL_Encode r' \<and> wr_crc r' = CalculateCRC r')"
  using WAL_Decode_Encode [of r] WAL_Decode_exact assms by (auto simp: wr_fits_def)

definition wr_example :: wal_record where
  "wr_example = WALRecord_new\<lparr>wr_seq := 7, wr_key := [1, 2], wr_value := [3]\<rparr>"

theorem wal_record_roundtrip_witness:
  "WAL_Decode (WAL_Encode wr_example) WALRecord_new =
     (OK, wr_example\<lparr>wr_crc := CalculateCRC wr_example\<rparr>)"
  using wal_record_roundtrip [of wr_example WALRecord_new] by (simp add: wr_example_def)

text \<open>C23: No single damaged byte goes unnoticed. Whichever byte of an encoded record is changed,
  in the header, the length fields, the key, the value or the checksum itself, Decode
  answers Corruption.\<close>

theorem wal_corruption_detected:
  assumes "length (wr_key r) < 2 ^ 32" "length (wr_value r) < 2 ^ 32"
    and "i < length (WAL_Encode r)" "b \<noteq> WAL_Encode r ! i"
  shows "IsCorruption (fst (WAL_Decode ((WAL_Encode r)[i := b]) r0))"
proof (rule ccontr)
  assume "\<not> ?thesis"
  then obtain r' where d: "WAL_Decode ((WAL_Encode r)[i := b]) r0 = (OK, r')"
    using WAL_Decode_cases [of "(WAL_Encode r)[i := b]" r0] by (metis prod.collapse)
  have "b = WAL_Encode r ! i"
    using WAL_Encode_one_byte [OF WAL_Decode_exact(1) [OF d, symmetric] assms(3)] assms(1,2)
      WAL_Decode_exact(3) [OF d] by (simp add: wr_fits_def)
  then show False using assms(4) by simp
qed

theorem wal_corruption_detected_witness:
  "IsCorruption (fst (WAL_Decode ((WAL_Encode wr_example)[29 := 9]) WALRecord_new))"
proof -
  have "WAL_Encode wr_example ! 29 = 1"
    by (simp add: WAL_Encode_body nth_append wr_body_def wr_example_def)
  then show ?thesis
    using wal_corruption_detected [of wr_example 29 9 WALRecord_new] by (simp add: wr_example_def)
qed

text \<open>The checksum does not cover the length fields: moving the last byte of the key to the
  front of the value and adjusting the two lengths, with the old checksum left in place,
  decodes as a valid record with another key.\<close>

theorem wal_checksum_misses_lengths:
  assumes "length k < 2 ^ 32" "length (x # v) < 2 ^ 32" "wr_key r = k @ [x]" "wr_value r = v"
  shows "WAL_Decode (take 21 (WAL_Encode r) @ PutFixed32 [] (of_nat (length k)) @
      PutFixed32 [] (of_nat (length (x # v))) @ drop 29 (WAL_Encode r)) r0
    = (OK, r\<lparr>wr_key := k, wr_value := x # v, wr_crc := CalculateCRC r\<rparr>)"
proof -
  let ?r = "r\<lparr>wr_key := k, wr_value := x # v\<rparr>"
  have c: "CalculateCRC ?r = CalculateCRC r"
    using assms by (simp add: CalculateCRC_payload wr_header_def)
  have "take 21 (WAL_Encode r) @ PutFixed32 [] (of_nat (length k)) @
      PutFixed32 [] (of_nat (length (x # v))) @ drop 29 (WAL_Encode r) = WAL_Encode ?r"
    using assms(3,4) c by (simp add: WAL_Encode_parts wr_header_def wr_lengths_def)
  then show ?thesis
    using WAL_Decode_Encode [of ?r r0] assms(1,2) c by (simp add: wr_fits_def)
qed

theorem wal_checksum_misses_lengths_witness:
  "\<exists>data. data \<noteq> WAL_Encode wr_example \<and>
    WAL_Decode data WALRecord_new =
      (OK, wr_example\<lparr>wr_key := [1], wr_value := [2, 3], wr_crc := CalculateCRC wr_example\<rparr>)"
proof -
  let ?d = "take 21 (WAL_Encode wr_example) @ PutFixed32 [] (of_nat (length [1 :: byte])) @
      PutFixed32 [] (of_nat (length [2 :: byte, 3])) @ drop 29 (WAL_Encode wr_example)"
  have d: "WAL_Decode ?d WALRecord_new =
      (OK, wr_example\<lparr>wr_key := [1], wr_value := [2, 3], wr_crc := CalculateCRC wr_example\<rparr>)"
    using wal_checksum_misses_lengths [of "[1]" 2 "[3]" wr_example WALRecord_new]
    by (simp add: wr_example_def)
  moreover have "WAL_Decode (WAL_Encode wr_example) WALRecord_new =
      (OK, wr_example\<lparr>wr_crc := CalculateCRC wr_example\<rparr>)"
    using WAL_Decode_Encode [of wr_example] by (simp add: wr_example_def wr_fits_def)
  ultimately have "?d \<noteq> WAL_Encode wr_example"
    by (auto dest: arg_cong [where f = "\<lambda>p. wr_key (snd p)"] simp: wr_example_def WALRecord_new_def)
  then show ?thesis using d by blast
qed

text \<open>Compressing a log file loses nothing: decompressing the run-length code of any byte
  string gives it back.\<close>

theorem rle_roundtrip: "RLEDecompress (RLECompress data) = Some data"
  by (rule RLE_roundtrip)

lemma char_digits:
  "char_of (48 :: nat) = CHR ''0''" "char_of (49 :: nat) = CHR ''1''" "char_of (57 :: nat) = CHR ''9''"
  by code_simp+

text \<open>File names parse back to their number, and sort by number: up to 999999 the
  lexicographic order recovery uses is the order of the numbers. From a million on it is
  not.\<close>

theorem wal_filename_order:
  "ParseWALFilename (FormatWALFilename n) = (OK, Some n) \<and>
   (unat m < 10 ^ 6 \<and> unat n < 10 ^ 6 \<longrightarrow> (FormatWALFilename m < FormatWALFilename n \<longleftrightarrow> m < n)) \<and>
   FormatWALFilename 1000000 < FormatWALFilename 999999"
proof -
  have "FormatWALFilename 1000000 = ''1000000.wal''" "FormatWALFilename 999999 = ''999999.wal''"
    unfolding FormatWALFilename_def setw0_def
    by (simp_all add: to_string.simps [of "numeral _"] to_string.simps [of "Suc 0"] char_digits)
  then have "FormatWALFilename 1000000 < FormatWALFilename 999999" by (simp add: less_char_def)
  then show ?thesis using ParseWALFilename_Format FormatWALFilename_less by blast
qed

theorem wal_filename_order_witness: "FormatWALFilename 9 < FormatWALFilename 10"
  using wal_filename_order [of 10 9] by (simp add: word_less_nat_alt)

end
