(* ===== verification/Files.thy ===== *)
theory Files
  imports Prelude Statuses
begin

text \<open>
  The file system and the operations of the POSIX environment on it (src/util/env.cc). A file
  system holds the regular files by path, in directory order, with the contents programs see
  (\<open>fs_files\<close>) and the contents that survive a power failure (\<open>fs_disk\<close>, advanced by
  \<open>fsync\<close>). What the operating system answers is a parameter in it: whether a path can be
  opened, read, written, synced, whether files can be closed, removed and renamed, how many
  bytes of a failing write land, what \<open>strerror\<close> says, and how many entries a directory
  scan sees before the one-second limit of the log manager ends it. A file handle is the path
  it was opened with; directories, links, memory maps, file locks, threads and the clock are
  not modelled.
\<close>

section \<open>File system\<close>

record fs =
  fs_files :: "(string \<times> bytes) list"
  fs_disk :: "(string \<times> bytes) list"
  fs_can_open :: "string \<Rightarrow> bool"
  fs_can_write :: "string \<Rightarrow> bool"
  fs_can_sync :: "string \<Rightarrow> bool"
  fs_can_rename :: bool
  fs_partial :: nat
  fs_scan :: nat
  fs_can_read :: "string \<Rightarrow> bool"
  fs_can_close :: bool
  fs_can_remove :: bool
  fs_strerror :: string

fun al_put :: "'k \<Rightarrow> 'v \<Rightarrow> ('k \<times> 'v) list \<Rightarrow> ('k \<times> 'v) list" where
  "al_put k v [] = [(k, v)]"
| "al_put k v ((k', v') # al) = (if k' = k then (k, v) # al else (k', v') # al_put k v al)"

definition fs_data :: "fs \<Rightarrow> string \<Rightarrow> bytes" where
  "fs_data fs f = (case map_of (fs_files fs) f of Some d \<Rightarrow> d | None \<Rightarrow> [])"

definition fs_write :: "fs \<Rightarrow> string \<Rightarrow> bytes \<Rightarrow> fs" where
  "fs_write fs f d = fs\<lparr>fs_files := al_put f d (fs_files fs)\<rparr>"

definition fs_fsync :: "fs \<Rightarrow> string \<Rightarrow> fs" where
  "fs_fsync fs f = fs\<lparr>fs_disk := al_put f (fs_data fs f) (fs_disk fs)\<rparr>"

definition fs_remove :: "fs \<Rightarrow> string \<Rightarrow> fs" where
  "fs_remove fs f = fs\<lparr>fs_files := filter (\<lambda>p. fst p \<noteq> f) (fs_files fs),
                    fs_disk := filter (\<lambda>p. fst p \<noteq> f) (fs_disk fs)\<rparr>"

text \<open>\<open>rename\<close> replaces a file that has the new name.\<close>

definition al_rename :: "'k \<Rightarrow> 'k \<Rightarrow> ('k \<times> 'v) list \<Rightarrow> ('k \<times> 'v) list" where
  "al_rename f g al = (case map_of al f of None \<Rightarrow> al
     | Some d \<Rightarrow> al_put g d (filter (\<lambda>p. fst p \<noteq> f) al))"

definition fs_rename :: "fs \<Rightarrow> string \<Rightarrow> string \<Rightarrow> fs" where
  "fs_rename fs f g = fs\<lparr>fs_files := al_rename f g (fs_files fs), fs_disk := al_rename f g (fs_disk fs)\<rparr>"

section \<open>PosixEnv\<close>

definition Env_NewWritableFile :: "fs \<Rightarrow> string \<Rightarrow> status \<times> fs" where
  "Env_NewWritableFile fs f =
     (if fs_can_open fs f then (OK, fs_write fs f [])
      else (IOError2 ''Cannot create file'' (fs_strerror fs), fs))"

definition Env_FileExists :: "fs \<Rightarrow> string \<Rightarrow> bool" where
  "Env_FileExists fs f \<longleftrightarrow> map_of (fs_files fs) f \<noteq> None"

definition Env_NewRandomAccessFile :: "fs \<Rightarrow> string \<Rightarrow> status" where
  "Env_NewRandomAccessFile fs f =
     (if fs_can_open fs f \<and> Env_FileExists fs f then OK
      else IOError2 ''Cannot open file'' (fs_strerror fs))"

definition Env_GetFileSize :: "fs \<Rightarrow> string \<Rightarrow> status \<times> nat" where
  "Env_GetFileSize fs f =
     (case map_of (fs_files fs) f of
        None \<Rightarrow> (IOError2 ''Cannot stat file'' (fs_strerror fs), 0)
      | Some d \<Rightarrow> (OK, length d))"

definition Env_DeleteFile :: "fs \<Rightarrow> string \<Rightarrow> status \<times> fs" where
  "Env_DeleteFile fs f =
     (if Env_FileExists fs f \<and> fs_can_remove fs then (OK, fs_remove fs f)
      else (IOError2 ''Cannot delete file'' (fs_strerror fs), fs))"

definition Env_RenameFile :: "fs \<Rightarrow> string \<Rightarrow> string \<Rightarrow> status \<times> fs" where
  "Env_RenameFile fs src target =
     (if Env_FileExists fs src \<and> fs_can_rename fs then (OK, fs_rename fs src target)
      else (IOError2 ''Cannot rename file'' (fs_strerror fs), fs))"

definition Env_ReadFileToString :: "fs \<Rightarrow> string \<Rightarrow> status \<times> bytes" where
  "Env_ReadFileToString fs f =
     (case map_of (fs_files fs) f of
        None \<Rightarrow> (IOError ''Cannot open file for reading'', [])
      | Some d \<Rightarrow> if \<not> fs_can_open fs f then (IOError ''Cannot open file for reading'', [])
                  else if \<not> fs_can_read fs f then (IOError ''Failed to read file'', replicate (length d) 0)
                  else (OK, d))"

definition Env_WriteStringToFile :: "fs \<Rightarrow> bytes \<Rightarrow> string \<Rightarrow> status \<times> fs" where
  "Env_WriteStringToFile fs data f =
     (if \<not> fs_can_open fs f then (IOError ''Cannot open file for writing'', fs)
      else if \<not> fs_can_write fs f then (IOError ''Failed to write file'', fs_write fs f (take (fs_partial fs) data))
      else (OK, fs_write fs f data))"

text \<open>\<open>now\<close> is the decimal time that names the temporary file.\<close>

definition Env_WriteFileAtomically :: "string \<Rightarrow> fs \<Rightarrow> string \<Rightarrow> bytes \<Rightarrow> status \<times> fs" where
  "Env_WriteFileAtomically now fs f data =
     (let tmp_filename = f @ ''.tmp.'' @ now; (s, fs) = Env_WriteStringToFile fs data tmp_filename in
      if \<not> ok s then (s, fs) else Env_RenameFile fs tmp_filename f)"

text \<open>
  \<open>PosixWritableFile\<close>: a write that fails has stored some of the data, not all of it.
  \<open>Flush\<close> does nothing.
\<close>

definition File_Append :: "string \<Rightarrow> bytes \<Rightarrow> fs \<Rightarrow> status \<times> fs" where
  "File_Append f data fs =
     (if data = [] then (OK, fs)
      else if fs_can_write fs f then (OK, fs_write fs f (fs_data fs f @ data))
      else (IOError2 ''Cannot write file'' (fs_strerror fs),
            fs_write fs f (fs_data fs f @ take (min (fs_partial fs) (length data - 1)) data)))"

definition File_Sync :: "string \<Rightarrow> fs \<Rightarrow> status \<times> fs" where
  "File_Sync f fs = (if fs_can_sync fs f then (OK, fs_fsync fs f)
                     else (IOError2 ''Cannot sync file'' (fs_strerror fs), fs))"

definition File_Close :: "fs \<Rightarrow> status" where
  "File_Close fs = (if fs_can_close fs then OK else IOError2 ''Cannot close file'' (fs_strerror fs))"

text \<open>
  \<open>PosixRandomAccessFile::Read\<close>: up to \<open>n\<close> bytes from the offset, fewer only at the end of
  the file. The offset becomes a signed \<open>off_t\<close>: from \<open>2^63\<close> on it is negative and the
  system refuses it, and a read of no bytes does not ask the system.
\<close>

definition File_Read :: "fs \<Rightarrow> string \<Rightarrow> u64 \<Rightarrow> nat \<Rightarrow> status \<times> bytes" where
  "File_Read fs f offset n =
     (if n = 0 then (OK, [])
      else if 2 ^ 63 \<le> unat offset \<or> \<not> fs_can_read fs f then (IOError2 ''Cannot read file'' (fs_strerror fs), [])
      else (OK, take n (drop (unat offset) (fs_data fs f))))"

section \<open>Lemmas\<close>

lemma map_of_al_put [simp]: "map_of (al_put k v al) = (map_of al)(k \<mapsto> v)"
  by (induction k v al rule: al_put.induct) auto

lemma fs_data_write [simp]: "fs_data (fs_write fs f d) g = (if g = f then d else fs_data fs g)"
  by (simp add: fs_data_def fs_write_def)

lemma fs_write_answers [simp]:
  "fs_can_open (fs_write fs f d) = fs_can_open fs" "fs_can_write (fs_write fs f d) = fs_can_write fs"
  "fs_can_sync (fs_write fs f d) = fs_can_sync fs" "fs_can_rename (fs_write fs f d) = fs_can_rename fs"
  "fs_scan (fs_write fs f d) = fs_scan fs" "fs_disk (fs_write fs f d) = fs_disk fs"
  "map_of (fs_files (fs_write fs f d)) = (map_of (fs_files fs))(f \<mapsto> d)"
  "fs_can_read (fs_write fs f d) = fs_can_read fs" "fs_can_close (fs_write fs f d) = fs_can_close fs"
  "fs_can_remove (fs_write fs f d) = fs_can_remove fs" "fs_strerror (fs_write fs f d) = fs_strerror fs"
  by (simp_all add: fs_write_def)

text \<open>What an operation on contents leaves alone.\<close>

definition same_os :: "fs \<Rightarrow> fs \<Rightarrow> bool" where
  "same_os fs fs' \<longleftrightarrow> fs_can_open fs' = fs_can_open fs \<and> fs_can_write fs' = fs_can_write fs \<and>
     fs_can_sync fs' = fs_can_sync fs \<and> fs_can_rename fs' = fs_can_rename fs \<and> fs_can_read fs' = fs_can_read fs \<and>
     fs_can_close fs' = fs_can_close fs \<and> fs_can_remove fs' = fs_can_remove fs"

lemma same_os_refl [simp]: "same_os fs fs"
  by (simp add: same_os_def)

lemma same_os_trans [trans]: "same_os a b \<Longrightarrow> same_os b c \<Longrightarrow> same_os a c"
  by (simp add: same_os_def)

lemma same_os_ops [simp]:
  "same_os fs (fs_write fs f d)" "same_os fs (fs_fsync fs f)" "same_os fs (fs_remove fs f)"
  by (simp_all add: same_os_def fs_write_def fs_fsync_def fs_remove_def)

lemma fs_fsync_files [simp]: "fs_files (fs_fsync fs f) = fs_files fs" "fs_data (fs_fsync fs f) = fs_data fs"
  by (auto simp: fs_fsync_def fs_data_def)

end
