(* ===== verification/WalFiles.thy ===== *)
theory WalFiles
  imports WalRecords Files
begin

text \<open>
  The file writer and reader of the write-ahead log (\<open>WALWriter\<close> and \<open>WALReader\<close> of
  src/wal/wal.cc) over the file system of Files.thy.
\<close>

section \<open>WALWriter\<close>

text \<open>\<open>file_\<close> is a null pointer or an output stream, which has failed (True) or not.\<close>

record wal_writer =
  ww_filename :: string
  ww_file :: "bool option"
  ww_file_size :: nat
  ww_write_position :: nat
  ww_unsynced :: nat
  ww_is_open :: bool

definition WALWriter_new :: "string \<Rightarrow> wal_writer" where
  "WALWriter_new filename = \<lparr>ww_filename = filename, ww_file = None, ww_file_size = 0,
     ww_write_position = 0, ww_unsynced = 0, ww_is_open = False\<rparr>"

definition Writer_Open :: "wal_writer \<Rightarrow> fs \<Rightarrow> status \<times> wal_writer \<times> fs" where
  "Writer_Open w fs =
     (if ww_is_open w then (InvalidArgument ''WAL file already open'', w, fs)
      else if fs_can_open fs (ww_filename w)
      then let d = fs_data fs (ww_filename w)
           in (OK, w\<lparr>ww_file := Some False, ww_file_size := length d, ww_write_position := length d,
                    ww_is_open := True\<rparr>, fs_write fs (ww_filename w) d)
      else (IOError (''Cannot open WAL file: '' @ ww_filename w @ '' (timeout)''),
            w\<lparr>ww_file := Some True\<rparr>, fs))"

definition Writer_Close :: "wal_writer \<Rightarrow> status \<times> wal_writer" where
  "Writer_Close w = (if \<not> ww_is_open w then (OK, w) else (OK, w\<lparr>ww_file := None, ww_is_open := False\<rparr>))"

text \<open>The length header in front of a record.\<close>

definition wal_frame :: "bytes \<Rightarrow> bytes" where
  "wal_frame encoded = PutFixed32 [] (of_nat (length encoded)) @ encoded"

text \<open>
  \<open>ofstream::write\<close> in append mode: all bytes, or, when it fails, some first ones. The
  position test after it cannot differ for a stream that has not failed.
\<close>

definition Writer_append :: "wal_writer \<Rightarrow> fs \<Rightarrow> bytes \<Rightarrow> string \<Rightarrow> status \<times> wal_writer \<times> fs" where
  "Writer_append w fs buffer msg =
     (let f = ww_filename w in
      if ww_file w = Some True then (IOError msg, w, fs)
      else if \<not> fs_can_write fs f
      then (IOError msg, w\<lparr>ww_file := Some True\<rparr>, fs_write fs f (fs_data fs f @ take (fs_partial fs) buffer))
      else (OK, w\<lparr>ww_file_size := ww_file_size w + length buffer,
                 ww_write_position := ww_write_position w + length buffer,
                 ww_unsynced := ww_unsynced w + length buffer\<rparr>,
            fs_write fs f (fs_data fs f @ buffer)))"

definition Writer_WriteRecordInternal :: "wal_writer \<Rightarrow> wal_record \<Rightarrow> fs \<Rightarrow> status \<times> wal_writer \<times> fs" where
  "Writer_WriteRecordInternal w r fs =
     (if ww_file w = None then (InvalidArgument ''File not open'', w, fs)
      else let encoded = WAL_Encode r in
           if length encoded > 128 * 1024 * 1024 then (InvalidArgument ''WAL record too large'', w, fs)
           else Writer_append w fs (wal_frame encoded) ''Failed to write WAL record: '')"

definition Writer_WriteRecord :: "wal_writer \<Rightarrow> wal_record \<Rightarrow> fs \<Rightarrow> status \<times> wal_writer \<times> fs" where
  "Writer_WriteRecord w r fs =
     (if \<not> ww_is_open w then (InvalidArgument ''WAL file not open'', w, fs)
      else Writer_WriteRecordInternal w r fs)"

definition Writer_WriteRecords :: "wal_writer \<Rightarrow> wal_record list \<Rightarrow> fs \<Rightarrow> status \<times> wal_writer \<times> fs" where
  "Writer_WriteRecords w rs fs =
     (if \<not> ww_is_open w then (InvalidArgument ''WAL file not open'', w, fs)
      else if rs = [] then (OK, w, fs)
      else let encoded = map WAL_Encode rs in
           if \<exists>e \<in> set encoded. length e > 128 * 1024 * 1024
           then (InvalidArgument ''WAL record too large'', w, fs)
           else Writer_append w fs (concat (map wal_frame encoded)) ''Failed to write WAL records batch: '')"

definition Writer_Sync :: "wal_writer \<Rightarrow> fs \<Rightarrow> status \<times> wal_writer \<times> fs" where
  "Writer_Sync w fs =
     (let f = ww_filename w in
      if \<not> ww_is_open w then (InvalidArgument ''WAL file not open'', w, fs)
      else if ww_file w = Some True then (IOError ''Failed to flush WAL file'', w, fs)
      else if \<not> fs_can_open fs f then (IOError ''Failed to open WAL file for fsync: '', w, fs)
      else if \<not> fs_can_sync fs f then (IOError ''Failed to fsync WAL file: '', w, fs)
      else (OK, w\<lparr>ww_unsynced := 0\<rparr>, fs_fsync fs f))"

definition Writer_GetFileSize :: "wal_writer \<Rightarrow> nat" where "Writer_GetFileSize w = ww_file_size w"
definition Writer_IsOpen :: "wal_writer \<Rightarrow> bool" where "Writer_IsOpen w = ww_is_open w"
definition Writer_HasUnsyncedData :: "wal_writer \<Rightarrow> bool" where
  "Writer_HasUnsyncedData w \<longleftrightarrow> ww_unsynced w > 0"
definition Writer_GetWritePosition :: "wal_writer \<Rightarrow> nat" where
  "Writer_GetWritePosition w = ww_write_position w"

section \<open>WALReader\<close>

text \<open>
  An input stream: the file's bytes (nobody writes a file while it is read), the get
  position, and the error flags. A short read sets both flags; reading from a stream with a
  flag set reads nothing and sets \<open>failbit\<close>; \<open>seekg\<close> clears \<open>eofbit\<close> only, so it does
  nothing on a stream that has failed.
\<close>

record in_stream =
  in_data :: bytes
  in_pos :: nat
  in_eof :: bool
  in_fail :: bool

definition in_open :: "bytes \<Rightarrow> in_stream" where
  "in_open d = \<lparr>in_data = d, in_pos = 0, in_eof = False, in_fail = False\<rparr>"

definition in_read :: "nat \<Rightarrow> in_stream \<Rightarrow> bytes \<times> in_stream" where
  "in_read n st =
     (if in_eof st \<or> in_fail st then ([], st\<lparr>in_fail := True\<rparr>)
      else let chunk = take n (drop (in_pos st) (in_data st)); short = length chunk < n
           in (chunk, st\<lparr>in_pos := in_pos st + length chunk, in_eof := short, in_fail := short\<rparr>))"

definition in_seekg :: "nat \<Rightarrow> in_stream \<Rightarrow> in_stream" where
  "in_seekg p st = (let st = st\<lparr>in_eof := False\<rparr> in if in_fail st then st else st\<lparr>in_pos := p\<rparr>)"

record wal_reader =
  rd_filename :: string
  rd_file :: "in_stream option"
  rd_read_position :: nat
  rd_is_open :: bool
  rd_eof_reached :: bool

definition WALReader_new :: "string \<Rightarrow> wal_reader" where
  "WALReader_new filename = \<lparr>rd_filename = filename, rd_file = None, rd_read_position = 0,
     rd_is_open = False, rd_eof_reached = False\<rparr>"

definition Reader_Open :: "wal_reader \<Rightarrow> fs \<Rightarrow> status \<times> wal_reader" where
  "Reader_Open rd fs =
     (if rd_is_open rd then (InvalidArgument ''WAL file already open'', rd)
      else if \<not> fs_can_open fs (rd_filename rd) \<or> map_of (fs_files fs) (rd_filename rd) = None
      then (IOError (''Cannot open WAL file: '' @ rd_filename rd),
            rd\<lparr>rd_file := Some (in_open []\<lparr>in_fail := True\<rparr>)\<rparr>)
      else (OK, rd\<lparr>rd_file := Some (in_open (fs_data fs (rd_filename rd))), rd_read_position := 0,
                  rd_eof_reached := False, rd_is_open := True\<rparr>))"

definition Reader_Close :: "wal_reader \<Rightarrow> status \<times> wal_reader" where
  "Reader_Close rd = (if \<not> rd_is_open rd then (OK, rd) else (OK, rd\<lparr>rd_file := None, rd_is_open := False\<rparr>))"

definition Reader_ReadRecordInternal :: "wal_reader \<Rightarrow> wal_record \<Rightarrow> status \<times> wal_reader \<times> wal_record" where
  "Reader_ReadRecordInternal rd r =
     (case rd_file rd of
        None \<Rightarrow> (InvalidArgument ''File not open'', rd, r)
      | Some st \<Rightarrow>
          let (length_buf, st) = in_read 4 st; rd = rd\<lparr>rd_file := Some st\<rparr> in
          if length length_buf \<noteq> 4
          then (if in_eof st then (Incomplete ''EOF reached'', rd\<lparr>rd_eof_reached := True\<rparr>, r)
                else (IOError ''Failed to read record length'', rd, r))
          else let record_length = unat (the (DecodeFixed32 length_buf)) in
          if record_length = 0 \<or> record_length > 100 * 1024 * 1024
          then (Corruption ''Invalid record length'', rd, r)
          else let (record_data, st) = in_read record_length st; rd = rd\<lparr>rd_file := Some st\<rparr> in
          if length record_data \<noteq> record_length then (Corruption ''Record data truncated'', rd, r)
          else let (s, r) = WAL_Decode record_data r in
          if \<not> ok s then (s, rd, r)
          else (OK, rd\<lparr>rd_read_position := rd_read_position rd + 4 + record_length\<rparr>, r))"

definition Reader_ReadNextRecord :: "wal_reader \<Rightarrow> wal_record \<Rightarrow> status \<times> wal_reader \<times> wal_record" where
  "Reader_ReadNextRecord rd r =
     (if \<not> rd_is_open rd then (InvalidArgument ''WAL file not open'', rd, r)
      else if rd_eof_reached rd then (Incomplete ''EOF reached'', rd, r)
      else Reader_ReadRecordInternal rd r)"

definition Reader_Seek :: "wal_reader \<Rightarrow> nat \<Rightarrow> status \<times> wal_reader" where
  "Reader_Seek rd p =
     (if \<not> rd_is_open rd then (InvalidArgument ''WAL file not open'', rd)
      else case rd_file rd of
             None \<Rightarrow> (InvalidArgument ''WAL file not open'', rd)
           | Some st \<Rightarrow>
               let st = in_seekg p st; rd = rd\<lparr>rd_file := Some st\<rparr> in
               if in_fail st then (IOError ''Failed to seek in WAL file'', rd)
               else (OK, rd\<lparr>rd_read_position := p, rd_eof_reached := False\<rparr>))"

definition Reader_IsEOF :: "wal_reader \<Rightarrow> bool" where "Reader_IsEOF rd = rd_eof_reached rd"
definition Reader_GetReadPosition :: "wal_reader \<Rightarrow> nat" where
  "Reader_GetReadPosition rd = rd_read_position rd"

text \<open>
  The read loops. Every record read advances the stream by at least five bytes, so the
  length of the file bounds the number of iterations.
\<close>

fun ValidateFile_loop :: "nat \<Rightarrow> wal_reader \<Rightarrow> wal_record \<Rightarrow> (status \<times> wal_reader) option" where
  "ValidateFile_loop 0 rd r = None"
| "ValidateFile_loop (Suc n) rd r =
     (if Reader_IsEOF rd then Some (OK, rd)
      else let (s, rd, r) = Reader_ReadNextRecord rd r in
           if IsIncomplete s then Some (OK, rd)
           else if \<not> ok s then Some (s, rd)
           else ValidateFile_loop n rd r)"

definition Reader_ValidateFile :: "wal_reader \<Rightarrow> fs \<Rightarrow> (status \<times> wal_reader) option" where
  "Reader_ValidateFile rd fs =
     (let (s, rd) = (if \<not> rd_is_open rd then Reader_Open rd fs else (OK, rd)) in
      if \<not> ok s then Some (s, rd)
      else let (s, rd) = Reader_Seek rd 0 in
      if \<not> ok s then Some (s, rd)
      else ValidateFile_loop (Suc (length (fs_data fs (rd_filename rd)))) rd WALRecord_new)"

section \<open>Reading frames back\<close>

text \<open>A reader in good state at position \<open>p\<close> of a file with contents \<open>d\<close>.\<close>

definition rd_at :: "wal_reader \<Rightarrow> bytes \<Rightarrow> nat \<Rightarrow> bool" where
  "rd_at rd d p \<longleftrightarrow> rd_is_open rd \<and> \<not> rd_eof_reached rd \<and> rd_read_position rd = p \<and>
     rd_file rd = Some \<lparr>in_data = d, in_pos = p, in_eof = False, in_fail = False\<rparr>"

text \<open>Records the reader accepts: their lengths fit and the frame is at most 100 MB.\<close>

definition wr_readable :: "wal_record \<Rightarrow> bool" where
  "wr_readable r \<longleftrightarrow> length (WAL_Encode r) \<le> 100 * 1024 * 1024"

lemma wr_readable_fits: "wr_readable r \<Longrightarrow> wr_fits r"
  by (simp add: wr_readable_def wr_fits_def)

abbreviation frame :: "wal_record \<Rightarrow> bytes" where "frame r \<equiv> wal_frame (WAL_Encode r)"

lemma length_frame [simp]: "length (wal_frame e) = 4 + length e"
  by (simp add: wal_frame_def)

lemma frame_header:
  "length e < 2 ^ 32 \<Longrightarrow> unat (the (DecodeFixed32 (take 4 (wal_frame e @ rest)))) = length e"
  using DecodeFixed32_Put [of "of_nat (length e)" "[]"] by (simp add: wal_frame_def unat_of_nat)

lemma rd_at_step:
  assumes "rd_at rd d p" "4 \<le> length (drop p d)"
  shows "in_read 4 (the (rd_file rd)) = (take 4 (drop p d),
      \<lparr>in_data = d, in_pos = p + 4, in_eof = False, in_fail = False\<rparr>)"
  using assms by (simp add: rd_at_def in_read_def Let_def)

lemma read_record:
  assumes at: "rd_at rd d p" and d: "drop p d = frame r @ rest" and r: "wr_readable r"
  shows "\<exists>rd'. Reader_ReadNextRecord rd r0 = (OK, rd', r\<lparr>wr_crc := CalculateCRC r\<rparr>) \<and>
    rd_at rd' d (p + length (frame r)) \<and> rd_filename rd' = rd_filename rd"
proof -
  let ?n = "length (WAL_Encode r)"
  have n: "33 \<le> ?n" "?n \<le> 100 * 1024 * 1024" using r by (simp_all add: wr_readable_def)
  have h: "unat (the (DecodeFixed32 (take 4 (drop p d)))) = ?n"
    unfolding d using n by (intro frame_header) simp
  have l4: "4 \<le> length (drop p d)" by (simp only: d) simp
  have body: "take ?n (drop (p + 4) d) = WAL_Encode r"
  proof -
    have "drop (p + 4) d = drop 4 (frame r @ rest)" by (simp only: d [symmetric] drop_drop add.commute)
    then show ?thesis by (simp add: wal_frame_def)
  qed
  have dec: "WAL_Decode (WAL_Encode r) r0 = (OK, r\<lparr>wr_crc := CalculateCRC r\<rparr>)"
    using WAL_Decode_Encode wr_readable_fits [OF r] by blast
  obtain st where st: "rd_file rd = Some st" using at by (auto simp: rd_at_def)
  have i4: "in_read 4 st = (take 4 (drop p d), \<lparr>in_data = d, in_pos = p + 4, in_eof = False, in_fail = False\<rparr>)"
    using rd_at_step [OF at l4] st by simp
  have t4: "length (take 4 (drop p d)) = 4" using l4 by simp
  have lb: "length (take ?n (drop (p + 4) d)) = ?n" unfolding body ..
  have i2: "in_read ?n \<lparr>in_data = d, in_pos = p + 4, in_eof = False, in_fail = False\<rparr> =
      (WAL_Encode r, \<lparr>in_data = d, in_pos = p + 4 + ?n, in_eof = False, in_fail = False\<rparr>)"
    by (simp only: in_read_def in_stream.simps simp_thms if_False Let_def lb body order_less_irrefl)
  have no: "rd_is_open rd" "\<not> rd_eof_reached rd" "rd_read_position rd = p" using at by (simp_all add: rd_at_def)
  have nz: "\<not> (?n = 0 \<or> 100 * 1024 * 1024 < ?n)" using n by linarith
  show ?thesis
    unfolding Reader_ReadNextRecord_def Reader_ReadRecordInternal_def
    by (simp only: no st i4 t4 h nz i2 dec option.case prod.case Let_def simp_thms if_False if_True ok_OK refl)
      (auto simp: rd_at_def no)
qed

lemma read_at_end:
  assumes "rd_at rd d p" "length (drop p d) < 4"
  shows "IsIncomplete (fst (Reader_ReadNextRecord rd r0))"
  using assms by (auto simp: rd_at_def Reader_ReadNextRecord_def Reader_ReadRecordInternal_def in_read_def Let_def)

text \<open>A frame cut off after its length header makes the read fail, and leaves a stream that
  no longer seeks.\<close>

lemma read_torn:
  assumes at: "rd_at rd d p" and d: "drop p d = take k (frame r)" and k: "4 \<le> k" "k < length (frame r)"
    and r: "wr_readable r"
  shows "\<exists>rd'. Reader_ReadNextRecord rd r0 = (Corruption ''Record data truncated'', rd', r0) \<and>
    rd_is_open rd' \<and> rd_read_position rd' = p \<and> rd_filename rd' = rd_filename rd \<and>
    (\<exists>st. rd_file rd' = Some st \<and> in_fail st)"
proof -
  let ?n = "length (WAL_Encode r)"
  have n: "33 \<le> ?n" "?n \<le> 100 * 1024 * 1024" using r by (simp_all add: wr_readable_def)
  have t4: "take 4 (drop p d) = take 4 (frame r)" using k unfolding d by (simp add: min_def)
  have h: "unat (the (DecodeFixed32 (take 4 (drop p d)))) = ?n"
    unfolding t4 using n frame_header [of "WAL_Encode r" "[]"] by simp
  have l4: "4 \<le> length (drop p d)" using k unfolding d by simp
  have len: "length (drop p d) = k" using k unfolding d by simp
  obtain st where st: "rd_file rd = Some st" using at by (auto simp: rd_at_def)
  have i4: "in_read 4 st = (take 4 (drop p d), \<lparr>in_data = d, in_pos = p + 4, in_eof = False, in_fail = False\<rparr>)"
    using rd_at_step [OF at l4] st by simp
  have t4': "length (take 4 (drop p d)) = 4" using l4 by simp
  have short: "length (take ?n (drop (p + 4) d)) < ?n"
    using len k by simp
  obtain c st' where i2: "in_read ?n \<lparr>in_data = d, in_pos = p + 4, in_eof = False, in_fail = False\<rparr> = (c, st')"
    and c: "length c \<noteq> ?n" and f: "in_fail st'"
    using short by (auto simp: in_read_def Let_def)
  have no: "rd_is_open rd" "\<not> rd_eof_reached rd" "rd_read_position rd = p" using at by (simp_all add: rd_at_def)
  have nz: "\<not> (?n = 0 \<or> 100 * 1024 * 1024 < ?n)" using n by linarith
  show ?thesis
    unfolding Reader_ReadNextRecord_def Reader_ReadRecordInternal_def
    by (simp only: no st i4 t4' h nz i2 c option.case prod.case Let_def simp_thms if_False if_True refl)
      (auto simp: no f)
qed

lemma seek_failed:
  "rd_is_open rd \<Longrightarrow> rd_file rd = Some st \<Longrightarrow> in_fail st \<Longrightarrow> \<not> ok (fst (Reader_Seek rd q))"
  by (simp add: Reader_Seek_def in_seekg_def Let_def)

lemma reader_open_at:
  assumes "fs_can_open fs f" "map_of (fs_files fs) f = Some d"
  shows "\<exists>rd. Reader_Open (WALReader_new f) fs = (OK, rd) \<and> rd_at rd d 0 \<and> rd_filename rd = f"
  using assms by (auto simp: Reader_Open_def WALReader_new_def rd_at_def in_open_def fs_data_def)

text \<open>A successful write appends the frame of the record, and nothing else.\<close>

lemma Writer_WriteRecord_OK:
  assumes "Writer_WriteRecord w r fs = (s, w', fs')" "ok s"
  shows "fs' = fs_write fs (ww_filename w) (fs_data fs (ww_filename w) @ frame r)"
    "w' = w\<lparr>ww_file_size := ww_file_size w + length (frame r),
       ww_write_position := ww_write_position w + length (frame r),
       ww_unsynced := ww_unsynced w + length (frame r)\<rparr>"
    "length (WAL_Encode r) \<le> 128 * 1024 * 1024"
  using assms by (auto simp: Writer_WriteRecord_def Writer_WriteRecordInternal_def Writer_append_def Let_def
      split: if_splits)

lemma read_oversized:
  assumes at: "rd_at rd d p" and d: "drop p d = frame r @ rest"
    and n: "100 * 1024 * 1024 < length (WAL_Encode r)" "length (WAL_Encode r) \<le> 128 * 1024 * 1024"
  shows "fst (Reader_ReadNextRecord rd r0) = Corruption ''Invalid record length''"
proof -
  let ?n = "length (WAL_Encode r)"
  have h: "unat (the (DecodeFixed32 (take 4 (drop p d)))) = ?n"
    unfolding d using n by (intro frame_header) simp
  have l4: "4 \<le> length (drop p d)" by (simp only: d) simp
  obtain st where st: "rd_file rd = Some st" using at by (auto simp: rd_at_def)
  have i4: "in_read 4 st = (take 4 (drop p d), \<lparr>in_data = d, in_pos = p + 4, in_eof = False, in_fail = False\<rparr>)"
    using rd_at_step [OF at l4] st by simp
  have t4: "length (take 4 (drop p d)) = 4" using l4 by simp
  have no: "rd_is_open rd" "\<not> rd_eof_reached rd" using at by (simp_all add: rd_at_def)
  have nz: "?n = 0 \<or> 100 * 1024 * 1024 < ?n" using n by linarith
  show ?thesis
    unfolding Reader_ReadNextRecord_def Reader_ReadRecordInternal_def
    by (simp only: no st i4 t4 h nz option.case prod.case Let_def simp_thms if_False if_True refl fst_conv)
qed

section \<open>Properties\<close>


definition fs_empty :: fs where
  "fs_empty = \<lparr>fs_files = [], fs_disk = [], fs_can_open = \<lambda>_. True, fs_can_write = \<lambda>_. True,
     fs_can_sync = \<lambda>_. True, fs_can_rename = True, fs_partial = 0, fs_scan = 100,
     fs_can_read = \<lambda>_. True, fs_can_close = True, fs_can_remove = True, fs_strerror = ''error''\<rparr>"


end
