(* ===== verification/WalManager.thy ===== *)
theory WalManager
  imports WalFiles
begin

text \<open>
  The manager of the write-ahead log (\<open>WALManager\<close> of src/wal/wal.cc): the write path, file
  switching, archiving and deletion, and recovery with its transaction buffers. The storage
  engine that recovery replays into is a parameter: the three operations of \<open>LSMTree\<close> it
  calls, on a state of any type. No archive or sync callback is ever registered in the
  repository, so the branches that call one are left out. Retry loops that wait for the
  operating system run once, since its answers are fixed in the file system. Log output is
  left out.
\<close>

record 'l lsm_recovery =
  LsmRecover :: "bytes \<Rightarrow> bytes \<Rightarrow> u64 \<Rightarrow> bool \<Rightarrow> 'l \<Rightarrow> status \<times> 'l"
  LsmSetRecoveryMode :: "bool \<Rightarrow> 'l \<Rightarrow> 'l"
  LsmFinishRecovery :: "u64 \<Rightarrow> 'l \<Rightarrow> status \<times> 'l"

datatype TransactionState = kActive | kCommitted | kTxAborted | kPrepared

record versioned_entry =
  ve_type :: WALRecordType
  ve_key :: bytes
  ve_value :: bytes
  ve_seq :: u64
  ve_txn :: u64
  ve_committed :: bool

record 'l wal_manager =
  wm_db_path :: string
  wm_filename :: string
  wm_writer :: "wal_writer option"
  wm_next_file :: u64
  wm_max_size :: nat
  wm_sync_on_write :: bool
  wm_initialized :: bool
  wm_shutdown :: bool
  wm_total_records :: nat
  wm_total_bytes :: nat
  wm_last_sequence :: u64
  wm_active :: "u64 \<Rightarrow> byte option"
  wm_lsm :: "'l option"
  wm_fs :: fs

definition WALManager_new :: "string \<Rightarrow> fs \<Rightarrow> 'l wal_manager" where
  "WALManager_new db_path fs = \<lparr>wm_db_path = db_path, wm_filename = [], wm_writer = None,
     wm_next_file = 1, wm_max_size = 64 * 1024 * 1024, wm_sync_on_write = False,
     wm_initialized = False, wm_shutdown = False, wm_total_records = 0, wm_total_bytes = 0,
     wm_last_sequence = 0, wm_active = Map.empty, wm_lsm = None, wm_fs = fs\<rparr>"

definition SetLSMTree :: "'l option \<Rightarrow> 'l wal_manager \<Rightarrow> 'l wal_manager" where
  "SetLSMTree lsm wm = wm\<lparr>wm_lsm := lsm\<rparr>"

section \<open>Files\<close>

definition GenerateWALFilename :: "'l wal_manager \<Rightarrow> u64 \<Rightarrow> string" where
  "GenerateWALFilename wm file_number =
     wm_db_path wm @ ''/wal/'' @ setw0 6 (to_string (unat file_number)) @ ''.wal''"

text \<open>The writer of the manager applied to the file system of the manager.\<close>

definition with_writer ::
    "(wal_writer \<Rightarrow> fs \<Rightarrow> status \<times> wal_writer \<times> fs) \<Rightarrow> 'l wal_manager \<Rightarrow> status \<times> 'l wal_manager" where
  "with_writer f wm =
     (case wm_writer wm of
        None \<Rightarrow> (InvalidArgument ''No active WAL writer'', wm)
      | Some w \<Rightarrow> let (s, w, fs) = f w (wm_fs wm) in (s, wm\<lparr>wm_writer := Some w, wm_fs := fs\<rparr>))"

definition Wal_Sync :: "'l wal_manager \<Rightarrow> status \<times> 'l wal_manager" where
  "Wal_Sync wm = with_writer Writer_Sync wm"

definition CreateNewWALFile :: "'l wal_manager \<Rightarrow> status \<times> 'l wal_manager" where
  "CreateNewWALFile wm =
     (let wm = (case wm_writer wm of None \<Rightarrow> wm
                | Some w \<Rightarrow> let (s, w, fs) = Writer_Sync w (wm_fs wm)
                            in wm\<lparr>wm_writer := None, wm_fs := fs\<rparr>);
          file_number = wm_next_file wm; wm = wm\<lparr>wm_next_file := file_number + 1\<rparr>;
          name = GenerateWALFilename wm file_number;
          (s, w, fs) = Writer_Open (WALWriter_new name) (wm_fs wm)
      in if \<not> ok s
         then (IOError (''Failed to open WAL file: '' @ name @ '': '' @ ToString s),
               wm\<lparr>wm_filename := [], wm_fs := fs\<rparr>)
         else (s, wm\<lparr>wm_filename := name, wm_writer := Some w, wm_fs := fs\<rparr>))"

definition base_name :: "string \<Rightarrow> string" where
  "base_name path = rev (takeWhile (\<lambda>c. c \<noteq> CHR ''/'') (rev path))"

definition archive_dir :: "string \<Rightarrow> string" where "archive_dir db_path = db_path @ ''/wal/archive''"

definition ArchiveCurrentWAL :: "'l wal_manager \<Rightarrow> status \<times> 'l wal_manager" where
  "ArchiveCurrentWAL wm =
     (case wm_writer wm of
        None \<Rightarrow> (InvalidArgument ''No current WAL file'', wm)
      | Some w \<Rightarrow>
          let (s, w, fs) = Writer_Sync w (wm_fs wm); wm = wm\<lparr>wm_writer := Some w, wm_fs := fs\<rparr> in
          if \<not> ok s then (s, wm) else
          let (s, w) = Writer_Close w; wm = wm\<lparr>wm_writer := Some w\<rparr> in
          if \<not> ok s then (s, wm) else
          if \<not> fs_can_rename fs then (IOError ''Failed to archive WAL file: '', wm)
          else (OK, wm\<lparr>wm_fs := fs_rename fs (wm_filename wm)
                          (archive_dir (wm_db_path wm) @ ''/'' @ base_name (wm_filename wm)),
                      wm_writer := None, wm_filename := []\<rparr>))"

definition SwitchToNewWAL :: "'l wal_manager \<Rightarrow> status \<times> 'l wal_manager" where
  "SwitchToNewWAL wm = (let (s, wm) = ArchiveCurrentWAL wm in CreateNewWALFile wm)"

definition ShouldSwitchWAL :: "'l wal_manager \<Rightarrow> bool" where
  "ShouldSwitchWAL wm = (case wm_writer wm of None \<Rightarrow> True | Some w \<Rightarrow> ww_file_size w \<ge> wm_max_size wm)"

text \<open>Directory scan: the regular files directly in a directory whose name ends in \<open>.wal\<close>.\<close>

definition is_wal_name :: "string \<Rightarrow> bool" where
  "is_wal_name filename \<longleftrightarrow> length filename > 4 \<and> drop (length filename - 4) filename = ''.wal''"

definition dir_files :: "fs \<Rightarrow> string \<Rightarrow> string list" where
  "dir_files fs dir = filter (\<lambda>p. take (length dir + 1) p = dir @ ''/'' \<and>
     CHR ''/'' \<notin> set (drop (length dir + 1) p)) (map fst (fs_files fs))"

definition dir_wal_files :: "fs \<Rightarrow> string \<Rightarrow> string list" where
  "dir_wal_files fs dir = filter (\<lambda>p. is_wal_name (base_name p)) (take (fs_scan fs) (dir_files fs dir))"

definition GetWALFiles :: "'l wal_manager \<Rightarrow> string list" where
  "GetWALFiles wm =
     (let wal_dir = wm_db_path wm @ ''/wal'';
          wal_files = sort (dir_wal_files (wm_fs wm) wal_dir @
                            dir_wal_files (wm_fs wm) (wal_dir @ ''/archive''))
      in if length wal_files > 1000 then take 1000 wal_files else wal_files)"

definition TruncateLogs :: "'l wal_manager \<Rightarrow> status \<times> 'l wal_manager" where
  "TruncateLogs wm =
     (let fs = wm_fs wm; wal_dir = wm_db_path wm @ ''/wal'';
          dead = filter (\<lambda>p. is_wal_name (base_name p)) (dir_files fs wal_dir) @
                 filter (\<lambda>p. is_wal_name (base_name p)) (dir_files fs (wal_dir @ ''/archive''))
      in (OK, wm\<lparr>wm_writer := None, wm_filename := [], wm_fs := foldl fs_remove fs dead\<rparr>))"

fun is_sub :: "string \<Rightarrow> string \<Rightarrow> bool" where
  "is_sub pat [] \<longleftrightarrow> pat = []"
| "is_sub pat (c # s) \<longleftrightarrow> take (length pat) (c # s) = pat \<or> is_sub pat s"

definition CleanupOldWALFiles :: "u64 \<Rightarrow> 'l wal_manager \<Rightarrow> status \<times> 'l wal_manager" where
  "CleanupOldWALFiles safe_sequence wm =
     (if safe_sequence = 0 then (OK, wm)
      else let dead = filter (\<lambda>f. f \<noteq> wm_filename wm \<and> is_sub ''/archive/'' f) (GetWALFiles wm)
           in (OK, wm\<lparr>wm_fs := foldl fs_remove (wm_fs wm) dead\<rparr>))"

definition GetCurrentWALSize :: "'l wal_manager \<Rightarrow> nat" where
  "GetCurrentWALSize wm = (case wm_writer wm of Some w \<Rightarrow> Writer_GetFileSize w | None \<Rightarrow> 0)"

definition Wal_NeedsSync :: "'l wal_manager \<Rightarrow> bool" where
  "Wal_NeedsSync wm =
     (case wm_writer wm of None \<Rightarrow> False
      | Some w \<Rightarrow> Writer_IsOpen w \<and> \<not> wm_sync_on_write wm \<and> Writer_HasUnsyncedData w)"

definition Wal_NeedsArchive :: "'l wal_manager \<Rightarrow> bool" where
  "Wal_NeedsArchive wm =
     (case wm_writer wm of None \<Rightarrow> False
      | Some w \<Rightarrow> Writer_IsOpen w \<and> Writer_GetFileSize w \<ge> wm_max_size wm)"

definition Wal_NeedsCleanup :: "'l wal_manager \<Rightarrow> bool" where
  "Wal_NeedsCleanup wm \<longleftrightarrow> length (GetWALFiles wm) > 3"

definition SetMaxWALSize :: "nat \<Rightarrow> 'l wal_manager \<Rightarrow> 'l wal_manager" where
  "SetMaxWALSize n wm = wm\<lparr>wm_max_size := n\<rparr>"
definition SetSyncOnWrite :: "bool \<Rightarrow> 'l wal_manager \<Rightarrow> 'l wal_manager" where
  "SetSyncOnWrite b wm = wm\<lparr>wm_sync_on_write := b\<rparr>"
definition GetLastSequence :: "'l wal_manager \<Rightarrow> u64" where
  "GetLastSequence wm = wm_last_sequence wm"

section \<open>Write path\<close>

definition UpdateTransactionState :: "wal_record \<Rightarrow> 'l wal_manager \<Rightarrow> status \<times> 'l wal_manager" where
  "UpdateTransactionState r wm =
     (let t = wr_txn r; act = wm_active wm in
      if wr_type r = WAL_kBeginTransaction
      then if act t \<noteq> None then (InvalidArgument (''Transaction already active: '' @ to_string (unat t)), wm)
           else (OK, wm\<lparr>wm_active := act(t \<mapsto> 1)\<rparr>)
      else if wr_type r = WAL_kCommitTransaction
      then if act t = None then (InvalidArgument (''Transaction not found: '' @ to_string (unat t)), wm)
           else (OK, wm\<lparr>wm_active := act(t \<mapsto> 2)\<rparr>)
      else if wr_type r = WAL_kAbortTransaction
      then if act t = None then (InvalidArgument (''Transaction not found: '' @ to_string (unat t)), wm)
           else (OK, wm\<lparr>wm_active := act(t \<mapsto> 3)\<rparr>)
      else (OK, wm))"

text \<open>The three parts of \<open>WriteRecordInternal\<close>: a writer to write to, the checks, the write.\<close>

definition ensure_writer :: "'l wal_manager \<Rightarrow> status \<times> 'l wal_manager" where
  "ensure_writer wm =
     (let (s, wm) = (if wm_writer wm = None then CreateNewWALFile wm else (OK, wm)) in
      if \<not> ok s then (IOError (''Failed to create new WAL file: '' @ ToString s), wm)
      else if ShouldSwitchWAL wm
      then let (s, wm) = SwitchToNewWAL wm
           in (if \<not> ok s then IOError (''Failed to switch WAL file: '' @ ToString s) else OK, wm)
      else (OK, wm))"

definition check_record :: "wal_record \<Rightarrow> 'l wal_manager \<Rightarrow> status \<times> 'l wal_manager" where
  "check_record r wm =
     (if wr_seq r = 0 then (InvalidArgument ''Invalid sequence number in WAL record'', wm)
      else if wr_type r \<in> {WAL_kBeginTransaction, WAL_kCommitTransaction, WAL_kAbortTransaction}
      then UpdateTransactionState r wm else (OK, wm))"

definition write_and_sync :: "wal_record \<Rightarrow> 'l wal_manager \<Rightarrow> status \<times> 'l wal_manager" where
  "write_and_sync r wm =
     (let (s, wm) = with_writer (\<lambda>w fs. Writer_WriteRecord w r fs) wm in
      if \<not> ok s then (IOError (''Failed to write WAL record: '' @ ToString s), wm)
      else let (s, wm) = (if wm_sync_on_write wm then with_writer Writer_Sync wm else (OK, wm)) in
      if \<not> ok s then (IOError (''Failed to sync WAL file: '' @ ToString s), wm)
      else (OK, wm\<lparr>wm_total_records := wm_total_records wm + 1,
                  wm_total_bytes := wm_total_bytes wm + length (WAL_Encode r),
                  wm_last_sequence := wr_seq r\<rparr>))"

definition WriteRecordInternal :: "wal_record \<Rightarrow> 'l wal_manager \<Rightarrow> status \<times> 'l wal_manager" where
  "WriteRecordInternal r wm =
     (if \<not> wm_initialized wm then (InvalidArgument ''WALManager not initialized'', wm)
      else if wm_shutdown wm then (InvalidArgument ''WALManager is shutdown'', wm)
      else let (s, wm) = ensure_writer wm in if \<not> ok s then (s, wm)
      else let (s, wm) = check_record r wm in if \<not> ok s then (s, wm)
      else write_and_sync r wm)"

definition wal_data_record :: "WALRecordType \<Rightarrow> u32 \<Rightarrow> bytes \<Rightarrow> bytes \<Rightarrow> u64 \<Rightarrow> wal_record" where
  "wal_data_record ty cf key val sq =
     WALRecord_new\<lparr>wr_type := ty, wr_seq := sq, wr_cf := cf, wr_key := key, wr_value := val, wr_txn := 0\<rparr>"

definition Wal_WritePut :: "u32 \<Rightarrow> bytes \<Rightarrow> bytes \<Rightarrow> u64 \<Rightarrow> 'l wal_manager \<Rightarrow> status \<times> 'l wal_manager" where
  "Wal_WritePut cf key val sq wm =
     (if key = [] then (InvalidArgument ''Key cannot be empty'', wm)
      else WriteRecordInternal (wal_data_record WAL_kPut cf key val sq) wm)"

definition Wal_WriteDelete :: "u32 \<Rightarrow> bytes \<Rightarrow> u64 \<Rightarrow> 'l wal_manager \<Rightarrow> status \<times> 'l wal_manager" where
  "Wal_WriteDelete cf key sq wm =
     (if key = [] then (InvalidArgument ''Key cannot be empty'', wm)
      else WriteRecordInternal (wal_data_record WAL_kDelete cf key [] sq) wm)"

definition Wal_WriteMerge :: "u32 \<Rightarrow> bytes \<Rightarrow> bytes \<Rightarrow> u64 \<Rightarrow> 'l wal_manager \<Rightarrow> status \<times> 'l wal_manager" where
  "Wal_WriteMerge cf key val sq wm =
     (if key = [] then (InvalidArgument ''Key cannot be empty'', wm)
      else WriteRecordInternal (wal_data_record WAL_kMerge cf key val sq) wm)"

text \<open>The three transaction records differ in their type and in the state they store on success.\<close>

definition write_txn_record ::
    "WALRecordType \<Rightarrow> byte \<Rightarrow> u32 \<Rightarrow> u64 \<Rightarrow> u64 \<Rightarrow> 'l wal_manager \<Rightarrow> status \<times> 'l wal_manager" where
  "write_txn_record ty state cf t sq wm =
     (let r = WALRecord_new\<lparr>wr_type := ty, wr_seq := sq, wr_cf := cf, wr_txn := t\<rparr>;
          (s, wm) = WriteRecordInternal r wm
      in (s, if ok s then wm\<lparr>wm_active := (wm_active wm)(t \<mapsto> state)\<rparr> else wm))"

definition WriteBeginTransaction :: "u32 \<Rightarrow> u64 \<Rightarrow> u64 \<Rightarrow> 'l wal_manager \<Rightarrow> status \<times> 'l wal_manager" where
  "WriteBeginTransaction = write_txn_record WAL_kBeginTransaction 1"
definition WriteCommitTransaction :: "u32 \<Rightarrow> u64 \<Rightarrow> u64 \<Rightarrow> 'l wal_manager \<Rightarrow> status \<times> 'l wal_manager" where
  "WriteCommitTransaction = write_txn_record WAL_kCommitTransaction 2"
definition WriteAbortTransaction :: "u32 \<Rightarrow> u64 \<Rightarrow> u64 \<Rightarrow> 'l wal_manager \<Rightarrow> status \<times> 'l wal_manager" where
  "WriteAbortTransaction = write_txn_record WAL_kAbortTransaction 3"

definition WriteCheckpoint :: "u64 \<Rightarrow> 'l wal_manager \<Rightarrow> status \<times> 'l wal_manager" where
  "WriteCheckpoint sq = WriteRecordInternal (WALRecord_new\<lparr>wr_type := WAL_kCheckpoint, wr_seq := sq, wr_txn := 0\<rparr>)"
definition WriteFlushMemTable :: "u64 \<Rightarrow> 'l wal_manager \<Rightarrow> status \<times> 'l wal_manager" where
  "WriteFlushMemTable sq =
     WriteRecordInternal (WALRecord_new\<lparr>wr_type := WAL_kFlushMemTable, wr_seq := sq, wr_txn := 0\<rparr>)"

definition WriteCreateColumnFamily ::
    "u32 \<Rightarrow> bytes \<Rightarrow> bytes \<Rightarrow> u64 \<Rightarrow> 'l wal_manager \<Rightarrow> status \<times> 'l wal_manager" where
  "WriteCreateColumnFamily cf name options_data sq =
     (let v = PutFixed32 [] (of_nat (length name)) @ name;
          v = PutFixed32 v (of_nat (length options_data)) @ options_data
      in WriteRecordInternal (WALRecord_new\<lparr>wr_type := WAL_kCreateColumnFamily, wr_seq := sq,
                                wr_cf := cf, wr_value := v, wr_txn := 0\<rparr>))"

definition WriteDropColumnFamily :: "u32 \<Rightarrow> u64 \<Rightarrow> 'l wal_manager \<Rightarrow> status \<times> 'l wal_manager" where
  "WriteDropColumnFamily cf sq =
     WriteRecordInternal (WALRecord_new\<lparr>wr_type := WAL_kDropColumnFamily, wr_seq := sq, wr_cf := cf, wr_txn := 0\<rparr>)"

definition WriteUpdateColumnFamilyOptions ::
    "u32 \<Rightarrow> bytes \<Rightarrow> u64 \<Rightarrow> 'l wal_manager \<Rightarrow> status \<times> 'l wal_manager" where
  "WriteUpdateColumnFamilyOptions cf options_data sq =
     WriteRecordInternal (WALRecord_new\<lparr>wr_type := WAL_kUpdateColumnFamilyOptions, wr_seq := sq,
                            wr_cf := cf, wr_value := options_data, wr_txn := 0\<rparr>)"

fun WriteBatch_loop :: "u32 \<Rightarrow> versioned_entry list \<Rightarrow> 'l wal_manager \<Rightarrow> status \<times> 'l wal_manager" where
  "WriteBatch_loop cf [] wm = (OK, wm)"
| "WriteBatch_loop cf (e # es) wm =
     (let r = WALRecord_new\<lparr>wr_type := ve_type e, wr_seq := ve_seq e, wr_cf := cf, wr_key := ve_key e,
                wr_value := ve_value e, wr_txn := ve_txn e\<rparr>;
          (s, wm) = WriteRecordInternal r wm
      in if \<not> ok s then (s, wm) else WriteBatch_loop cf es wm)"

definition WriteBatch :: "u32 \<Rightarrow> versioned_entry list \<Rightarrow> 'l wal_manager \<Rightarrow> status \<times> 'l wal_manager" where
  "WriteBatch cf entries wm =
     (if entries = [] then (OK, wm)
      else if \<not> wm_initialized wm then (InvalidArgument ''WAL manager not initialized'', wm)
      else let (s, wm) = WriteBatch_loop cf entries wm in
      if \<not> ok s then (s, wm)
      else if wm_sync_on_write wm then Wal_Sync wm else (OK, wm))"

definition Wal_Shutdown :: "'l wal_manager \<Rightarrow> status \<times> 'l wal_manager" where
  "Wal_Shutdown wm =
     (if wm_shutdown wm then (OK, wm)
      else let wm = wm\<lparr>wm_shutdown := True\<rparr>;
               wm = (case wm_writer wm of None \<Rightarrow> wm
                     | Some w \<Rightarrow> let (s, w, fs) = Writer_Sync w (wm_fs wm)
                                 in wm\<lparr>wm_writer := None, wm_fs := fs\<rparr>)
           in (OK, wm\<lparr>wm_initialized := False\<rparr>))"

section \<open>Recovery\<close>

definition apply_to_lsm ::
    "'l lsm_recovery \<Rightarrow> wal_record \<Rightarrow> bytes \<Rightarrow> bool \<Rightarrow> string \<Rightarrow> 'l wal_manager \<Rightarrow> status \<times> 'l wal_manager" where
  "apply_to_lsm L r val del what wm =
     (case wm_lsm wm of
        None \<Rightarrow> (OK, wm)
      | Some l \<Rightarrow> let (s, l) = LsmRecover L (wr_key r) val (wr_seq r) del l; wm = wm\<lparr>wm_lsm := Some l\<rparr>
                  in (if \<not> ok s then IOError (''Failed to apply '' @ what @ '' operation during recovery: '' @ ToString s)
                      else OK, wm))"

definition ApplyWALRecord :: "'l lsm_recovery \<Rightarrow> wal_record \<Rightarrow> 'l wal_manager \<Rightarrow> status \<times> 'l wal_manager" where
  "ApplyWALRecord L r wm =
     (let ty = wr_type r; act = wm_active wm; t = wr_txn r;
          (s, wm) =
            (if ty = WAL_kPut then apply_to_lsm L r (wr_value r) False ''Put'' wm
             else if ty = WAL_kDelete then apply_to_lsm L r [] True ''Delete'' wm
             else if ty = WAL_kMerge then (NotSupported ''WAL replay of kMerge records is not supported'', wm)
             else if ty = WAL_kBeginTransaction then (OK, wm\<lparr>wm_active := act(t \<mapsto> 1)\<rparr>)
             else if ty = WAL_kCommitTransaction
             then (OK, if act t \<noteq> None then wm\<lparr>wm_active := act(t \<mapsto> 2)\<rparr> else wm)
             else if ty = WAL_kAbortTransaction
             then (OK, if act t \<noteq> None then wm\<lparr>wm_active := act(t \<mapsto> 3)\<rparr> else wm)
             else if ty \<in> {WAL_kCheckpoint, WAL_kFlushMemTable, WAL_kCreateColumnFamily,
                          WAL_kDropColumnFamily, WAL_kUpdateColumnFamilyOptions} then (OK, wm)
             else (InvalidArgument (''Unknown WAL record type: '' @ to_string (unat ty)), wm))
      in if \<not> ok s then (s, wm) else (OK, wm\<lparr>wm_total_records := wm_total_records wm + 1\<rparr>))"

text \<open>What recovery carries from record to record and from file to file.\<close>

record 'l recovery =
  rc_states :: "u64 \<Rightarrow> TransactionState option"
  rc_buffers :: "u64 \<Rightarrow> wal_record list option"
  rc_wm :: "'l wal_manager"

fun apply_buffer ::
    "'l lsm_recovery \<Rightarrow> wal_record list \<Rightarrow> u64 \<Rightarrow> 'l wal_manager \<Rightarrow> status \<times> u64 \<times> 'l wal_manager" where
  "apply_buffer L [] m wm = (OK, m, wm)"
| "apply_buffer L (r # rs) m wm =
     (let (s, wm) = ApplyWALRecord L r wm
      in if \<not> ok s then (s, m, wm) else apply_buffer L rs (max m (wr_seq r)) wm)"

definition ApplyRecoveredRecord ::
    "'l lsm_recovery \<Rightarrow> wal_record \<Rightarrow> 'l recovery \<Rightarrow> status \<times> u64 \<times> 'l recovery" where
  "ApplyRecoveredRecord L r rc =
     (let t = wr_txn r; ty = wr_type r in
      if t = 0 then let (s, wm) = ApplyWALRecord L r (rc_wm rc) in (s, 0, rc\<lparr>rc_wm := wm\<rparr>)
      else if ty = WAL_kBeginTransaction then (OK, 0, rc\<lparr>rc_states := (rc_states rc)(t \<mapsto> kActive)\<rparr>)
      else if ty = WAL_kCommitTransaction
      then (case rc_buffers rc t of
              None \<Rightarrow> (OK, 0, rc\<lparr>rc_states := (rc_states rc)(t \<mapsto> kCommitted)\<rparr>)
            | Some rs \<Rightarrow> let (s, m, wm) = apply_buffer L rs 0 (rc_wm rc); rc = rc\<lparr>rc_wm := wm\<rparr> in
                if \<not> ok s then (s, m, rc)
                else (OK, m, rc\<lparr>rc_buffers := (rc_buffers rc)(t := None),
                               rc_states := (rc_states rc)(t \<mapsto> kCommitted)\<rparr>))
      else if ty = WAL_kAbortTransaction
      then (OK, 0, rc\<lparr>rc_buffers := (rc_buffers rc)(t := None),
                      rc_states := (rc_states rc)(t \<mapsto> kTxAborted)\<rparr>)
      else (OK, 0, rc\<lparr>rc_buffers := (rc_buffers rc)(t \<mapsto>
              (case rc_buffers rc t of Some rs \<Rightarrow> rs | None \<Rightarrow> []) @ [r])\<rparr>))"

text \<open>The probes after a damaged record: \<open>n\<close> offsets from \<open>offset\<close> on are still to try.\<close>

fun TryResync_loop :: "nat \<Rightarrow> nat \<Rightarrow> fs \<Rightarrow> string \<Rightarrow> nat \<Rightarrow> nat option" where
  "TryResync_loop 0 offset fs f start = None"
| "TryResync_loop (Suc n) offset fs f start =
     (let (s, probe) = Reader_Open (WALReader_new f) fs in
      if \<not> ok s then None
      else let (s, probe) = Reader_Seek probe (start + offset) in
      if \<not> ok s then None
      else let (s, probe, r) = Reader_ReadNextRecord probe WALRecord_new in
      if ok s then Some (start + offset) else TryResync_loop n (offset + 1) fs f start)"

definition TryResyncWALFile :: "fs \<Rightarrow> string \<Rightarrow> nat \<Rightarrow> nat option" where
  "TryResyncWALFile fs f start_pos = TryResync_loop (64 * 1024) 1 fs f start_pos"

text \<open>
  The loop over one file, with \<open>fuel\<close> bounding its iterations; \<open>None\<close> would mean that the
  bound was too small. It returns the loop status, the largest sequence number and the
  number of records applied, the damaged records skipped, and the recovery state.
\<close>

fun RecoverFromWALFile_loop ::
    "nat \<Rightarrow> 'l lsm_recovery \<Rightarrow> fs \<Rightarrow> wal_reader \<Rightarrow> wal_record \<Rightarrow> u64 \<times> nat \<times> nat \<Rightarrow> 'l recovery
     \<Rightarrow> (status \<times> (u64 \<times> nat \<times> nat) \<times> 'l recovery) option" where
  "RecoverFromWALFile_loop 0 L fs rd r acc rc = None"
| "RecoverFromWALFile_loop (Suc fuel) L fs rd r (max_sequence, count, corrupted) rc =
     (if Reader_IsEOF rd then Some (OK, (max_sequence, count, corrupted), rc)
      else let (s, rd, r) = Reader_ReadNextRecord rd r in
      if IsIncomplete s then Some (OK, (max_sequence, count, corrupted), rc)
      else if \<not> ok s
      then (case TryResyncWALFile fs (rd_filename rd) (Reader_GetReadPosition rd) of
              None \<Rightarrow> Some (Corruption ''WAL resync failed (file keeps remaining records)'',
                            (max_sequence, count, corrupted), rc)
            | Some resync_pos \<Rightarrow>
                let corrupted = corrupted + 1; (s, rd) = Reader_Seek rd resync_pos in
                if \<not> ok s then Some (s, (max_sequence, count, corrupted), rc)
                else RecoverFromWALFile_loop fuel L fs rd r (max_sequence, count, corrupted) rc)
      else let (s, applied_seq, rc) = ApplyRecoveredRecord L r rc in
      if \<not> ok s then Some (s, (max_sequence, count, corrupted), rc)
      else RecoverFromWALFile_loop fuel L fs rd r
             (max (max max_sequence (wr_seq r)) applied_seq, count + 1, corrupted) rc)"

definition set_recovery_mode :: "'l lsm_recovery \<Rightarrow> bool \<Rightarrow> 'l recovery \<Rightarrow> 'l recovery" where
  "set_recovery_mode L b rc =
     rc\<lparr>rc_wm := (rc_wm rc)\<lparr>wm_lsm := map_option (LsmSetRecoveryMode L b) (wm_lsm (rc_wm rc))\<rparr>\<rparr>"

definition RecoverFromWALFile ::
    "'l lsm_recovery \<Rightarrow> string \<Rightarrow> 'l recovery \<Rightarrow> (status \<times> (u64 \<times> nat \<times> nat) \<times> 'l recovery) option" where
  "RecoverFromWALFile L f rc =
     (let fs = wm_fs (rc_wm rc); (s, rd) = Reader_Open (WALReader_new f) fs in
      if \<not> ok s then Some (s, (0, 0, 0), rc)
      else map_option (\<lambda>(s, acc, rc). (s, acc, set_recovery_mode L False rc))
             (RecoverFromWALFile_loop (2 * length (fs_data fs f) + 2) L fs rd WALRecord_new (0, 0, 0)
                (set_recovery_mode L True rc)))"

fun RecoverFiles ::
    "'l lsm_recovery \<Rightarrow> string list \<Rightarrow> u64 \<Rightarrow> nat \<Rightarrow> 'l recovery \<Rightarrow> (status \<times> u64 \<times> nat \<times> 'l recovery) option" where
  "RecoverFiles L [] m n rc = Some (OK, m, n, rc)"
| "RecoverFiles L (f # fls) m n rc =
     (case RecoverFromWALFile L f rc of
        None \<Rightarrow> None
      | Some (s, (file_last, file_records, file_corrupted), rc) \<Rightarrow>
          if \<not> ok s then Some (IOError (''Fatal error during WAL recovery: '' @ ToString s), m, n, rc)
          else RecoverFiles L fls (max m file_last) (n + file_records) rc)"

definition RecoverFromWAL :: "'l lsm_recovery \<Rightarrow> 'l wal_manager \<Rightarrow> (status \<times> u64 \<times> 'l wal_manager) option" where
  "RecoverFromWAL L wm =
     (if wm_db_path wm = [] then Some (InvalidArgument ''WALManager not properly configured'', 0, wm)
      else let wal_files = GetWALFiles wm in
      if wal_files = [] then Some (OK, 0, wm)
      else case RecoverFiles L (sort wal_files) 0 0 \<lparr>rc_states = Map.empty, rc_buffers = Map.empty, rc_wm = wm\<rparr> of
             None \<Rightarrow> None
           | Some (s, m, n, rc) \<Rightarrow>
               let wm = rc_wm rc in
               if \<not> ok s then Some (s, m, wm)
               else let (s, wm) = (case wm_lsm wm of None \<Rightarrow> (OK, wm)
                                   | Some l \<Rightarrow> let (s, l) = LsmFinishRecovery L m l
                                               in (s, wm\<lparr>wm_lsm := Some l\<rparr>)) in
               if \<not> ok s then Some (s, m, wm)
               else let wm = (if m > 0 then wm\<lparr>wm_last_sequence := m\<rparr> else wm) in
                    Some (OK, m, wm\<lparr>wm_total_records := n,
                       wm_fs := foldl fs_remove (wm_fs wm) (filter (\<lambda>f. f \<noteq> wm_filename wm) (sort wal_files))\<rparr>))"

text \<open>\<open>Initialize\<close>: the highest file number in the directory, a new file, and recovery.\<close>

definition max_file_number :: "fs \<Rightarrow> string \<Rightarrow> u64" where
  "max_file_number fs wal_dir =
     foldl (\<lambda>m p. if is_wal_name (base_name p)
                  then case stoull (take (length (base_name p) - 4) (base_name p)) of
                         Some n \<Rightarrow> max m n | None \<Rightarrow> m
                  else m) 0 (dir_files fs wal_dir)"

definition Wal_Initialize :: "'l lsm_recovery \<Rightarrow> 'l wal_manager \<Rightarrow> (status \<times> 'l wal_manager) option" where
  "Wal_Initialize L wm =
     (if wm_initialized wm then Some (InvalidArgument ''WALManager already initialized'', wm)
      else let m = max_file_number (wm_fs wm) (wm_db_path wm @ ''/wal'');
               (s, wm) = CreateNewWALFile (wm\<lparr>wm_next_file := m + 1\<rparr>) in
      if \<not> ok s
      then Some (IOError ''Failed to initialize WAL manager: timeout after 5 seconds'', wm)
      else if m > 0
      then (case RecoverFromWAL L wm of
              None \<Rightarrow> None
            | Some (s, last_sequence, wm) \<Rightarrow>
                if \<not> ok s then Some (s, wm) else Some (OK, wm\<lparr>wm_initialized := True\<rparr>))
      else Some (OK, wm\<lparr>wm_initialized := True\<rparr>))"

definition RollbackIncompleteTransaction :: "u64 \<Rightarrow> 'l wal_manager \<Rightarrow> status \<times> 'l wal_manager" where
  "RollbackIncompleteTransaction t wm = (OK, wm\<lparr>wm_active := (wm_active wm)(t := None)\<rparr>)"

section \<open>Replaying a log\<close>

text \<open>The records of a log as recovery decodes them, applied one after the other.\<close>

definition stored :: "wal_record \<Rightarrow> wal_record" where
  "stored r = r\<lparr>wr_crc := CalculateCRC r\<rparr>"

fun replay :: "'l lsm_recovery \<Rightarrow> wal_record list \<Rightarrow> u64 \<times> nat \<Rightarrow> 'l recovery \<Rightarrow> status \<times> (u64 \<times> nat) \<times> 'l recovery" where
  "replay L [] acc rc = (OK, acc, rc)"
| "replay L (r # rs) (m, n) rc =
     (let (s, a, rc) = ApplyRecoveredRecord L r rc
      in if \<not> ok s then (s, (m, n), rc) else replay L rs (max (max m (wr_seq r)) a, n + 1) rc)"

lemma ApplyWALRecord_ok_OK: "ok (fst (ApplyWALRecord L r wm)) \<Longrightarrow> fst (ApplyWALRecord L r wm) = OK"
  by (auto simp: ApplyWALRecord_def Let_def split: prod.splits if_splits)

lemma RecoverFromWALFile_loop_frames:
  assumes "\<forall>r \<in> set rs. wr_readable r" "length tail < 4"
    and "rd_at rd d p" "drop p d = concat (map frame rs) @ tail" "length rs < fuel"
  shows "RecoverFromWALFile_loop fuel L fs rd r0 (m, n, c) rc =
    (case replay L (map stored rs) (m, n) rc of (s, (m, n), rc) \<Rightarrow> Some (s, (m, n, c), rc))"
  using assms
proof (induction rs arbitrary: fuel rd p r0 m n rc)
  case Nil
  then obtain k where fuel: "fuel = Suc k" by (cases fuel) auto
  have "\<not> rd_eof_reached rd" using Nil.prems by (simp add: rd_at_def)
  moreover have "IsIncomplete (fst (Reader_ReadNextRecord rd r0))"
    using Nil.prems by (intro read_at_end [of rd d p]) simp_all
  ultimately show ?case
    by (auto simp: fuel Reader_IsEOF_def Let_def split: prod.splits)
next
  case (Cons r rs)
  then obtain k where fuel: "fuel = Suc k" by (cases fuel) auto
  have ne: "\<not> rd_eof_reached rd" using Cons.prems by (simp add: rd_at_def)
  have d: "drop p d = frame r @ concat (map frame rs) @ tail" using Cons.prems by simp
  obtain rd' where rd': "Reader_ReadNextRecord rd r0 = (OK, rd', stored r)"
    "rd_at rd' d (p + length (frame r))"
    using read_record [OF Cons.prems(3) d, of r0] Cons.prems(1) by (auto simp: stored_def)
  have d': "drop (p + length (frame r)) d = concat (map frame rs) @ tail"
    using d by (metis add.commute append_eq_conv_conj drop_drop)
  obtain s a rc' where ap: "ApplyRecoveredRecord L (stored r) rc = (s, a, rc')" by (cases "ApplyRecoveredRecord L (stored r) rc")
  have seq: "wr_seq (stored r) = wr_seq r" by (simp add: stored_def)
  show ?case
  proof (cases "ok s")
    case True
    then show ?thesis
      using Cons.IH [OF _ _ rd'(2) d', of k] Cons.prems(1,2,5) fuel rd'(1) ap ne
      by (simp add: Reader_IsEOF_def Let_def)
  next
    case False
    then show ?thesis using fuel rd'(1) ap ne by (simp add: Reader_IsEOF_def Let_def)
  qed
qed

lemma length_concat_frames: "length rs \<le> length (concat (map frame rs))"
  by (induction rs) auto

lemma RecoverFromWALFile_frames:
  assumes "\<forall>r \<in> set rs. wr_readable r" "length tail < 4"
    and "fs_can_open (wm_fs (rc_wm rc)) f" "map_of (fs_files (wm_fs (rc_wm rc))) f = Some (concat (map frame rs) @ tail)"
  shows "RecoverFromWALFile L f rc =
    (case replay L (map stored rs) (0, 0) (set_recovery_mode L True rc) of
       (s, (m, n), rc) \<Rightarrow> Some (s, (m, n, 0), set_recovery_mode L False rc))"
proof -
  let ?d = "concat (map frame rs) @ tail"
  obtain rd where rd: "Reader_Open (WALReader_new f) (wm_fs (rc_wm rc)) = (OK, rd)" "rd_at rd ?d 0"
    using reader_open_at [OF assms(3,4)] by blast
  have dat: "fs_data (wm_fs (rc_wm rc)) f = ?d" using assms(4) by (simp add: fs_data_def)
  have "length rs < 2 * length ?d + 2" using length_concat_frames [of rs] by simp
  then show ?thesis
    using RecoverFromWALFile_loop_frames [OF assms(1,2) rd(2), of "2 * length ?d + 2" L "wm_fs (rc_wm rc)" WALRecord_new 0 0 0
        "set_recovery_mode L True rc"] rd(1)
    by (auto simp: RecoverFromWALFile_def Let_def dat split: prod.splits)
qed

subsection \<open>The recovery loop always returns\<close>

text \<open>One read from a good reader, written out.\<close>

lemma read_good:
  assumes at: "rd_at rd d p"
  defines "c \<equiv> take 4 (drop p d)"
  defines "n \<equiv> unat (the (DecodeFixed32 c))"
  defines "b \<equiv> take n (drop (p + 4) d)"
  shows "Reader_ReadNextRecord rd r0 =
    (if length c < 4
     then (Incomplete ''EOF reached'', rd\<lparr>rd_file := Some \<lparr>in_data = d, in_pos = p + length c, in_eof = True, in_fail = True\<rparr>,
             rd_eof_reached := True\<rparr>, r0)
     else if n = 0 \<or> n > 100 * 1024 * 1024
     then (Corruption ''Invalid record length'', rd\<lparr>rd_file := Some \<lparr>in_data = d, in_pos = p + 4, in_eof = False, in_fail = False\<rparr>\<rparr>, r0)
     else if length b < n
     then (Corruption ''Record data truncated'',
           rd\<lparr>rd_file := Some \<lparr>in_data = d, in_pos = p + 4 + length b, in_eof = True, in_fail = True\<rparr>\<rparr>, r0)
     else if ok (fst (WAL_Decode b r0))
     then (OK, rd\<lparr>rd_file := Some \<lparr>in_data = d, in_pos = p + 4 + n, in_eof = False, in_fail = False\<rparr>,
                rd_read_position := p + 4 + n\<rparr>, snd (WAL_Decode b r0))
     else (fst (WAL_Decode b r0), rd\<lparr>rd_file := Some \<lparr>in_data = d, in_pos = p + 4 + n, in_eof = False, in_fail = False\<rparr>\<rparr>,
           snd (WAL_Decode b r0)))"
proof -
  obtain st where fr: "rd_file rd = Some st" "st = \<lparr>in_data = d, in_pos = p, in_eof = False, in_fail = False\<rparr>"
    and no: "rd_is_open rd" "\<not> rd_eof_reached rd" "rd_read_position rd = p"
    using at by (simp_all add: rd_at_def)
  have i4: "in_read 4 st = (c, \<lparr>in_data = d, in_pos = p + length c, in_eof = length c < 4, in_fail = length c < 4\<rparr>)"
    by (simp add: in_read_def Let_def c_def fr)
  have i2: "in_read n \<lparr>in_data = d, in_pos = p + 4, in_eof = False, in_fail = False\<rparr> =
      (b, \<lparr>in_data = d, in_pos = p + 4 + length b, in_eof = length b < n, in_fail = length b < n\<rparr>)"
    by (simp add: in_read_def Let_def b_def)
  have lb: "length b \<le> n" "length c \<le> 4" by (simp_all add: b_def c_def)
  have nn: "unat (the (DecodeFixed32 c)) = n" by (simp add: n_def)
  show ?thesis
  proof (cases "length c < 4")
    case True
    then show ?thesis
      unfolding Reader_ReadNextRecord_def Reader_ReadRecordInternal_def fr(1) option.case i4 prod.case Let_def
      using no by simp
  next
    case False
    then have l4: "length c = 4" using lb by simp
    show ?thesis
      unfolding Reader_ReadNextRecord_def Reader_ReadRecordInternal_def fr(1) option.case i4 prod.case Let_def
      unfolding nn l4 using no lb(1) i2 by (cases "WAL_Decode b r0") (auto simp: Let_def)
  qed
qed

lemma read_outcome:
  assumes at: "rd_at rd d p" and r: "Reader_ReadNextRecord rd r0 = (s, rd', r')"
  shows "(s = OK \<and> (\<exists>p'. rd_at rd' d p' \<and> p < p' \<and> p' \<le> length d)) \<or> IsIncomplete s \<or>
    (\<not> ok s \<and> rd_is_open rd' \<and> \<not> rd_eof_reached rd' \<and> rd_read_position rd' = p \<and>
     (\<exists>st. rd_file rd' = Some st \<and> in_data st = d \<and> in_eof st = in_fail st))"
    (is "?P") and "rd_filename rd' = rd_filename rd"
proof -
  note e = trans [OF r [symmetric] read_good [OF at, of r0]]
  have no: "rd_is_open rd" "\<not> rd_eof_reached rd" "rd_read_position rd = p" using at by (simp_all add: rd_at_def)
  have len: "p + 4 + n \<le> length d" if "\<not> length (take n (drop (p + 4) d)) < n" "n \<noteq> 0" for n
    using that by (auto simp: min_def split: if_splits)
  show ?P
    using e no len by (auto simp: rd_at_def split: if_split_asm)
  show "rd_filename rd' = rd_filename rd"
    using e by (auto split: if_split_asm)
qed


lemma TryResync_bound:
  assumes "TryResync_loop n off fs f start = Some q" "0 < off" "map_of (fs_files fs) f = Some d"
  shows "start < q \<and> q \<le> length d"
  using assms
proof (induction n off fs f start rule: TryResync_loop.induct)
  case (2 n off fs f start)
  obtain so p1 where o: "Reader_Open (WALReader_new f) fs = (so, p1)" by fastforce
  have so: "ok so" using 2(2) o by (auto simp: Let_def split: if_splits)
  then have at0: "rd_at p1 d 0" using o 2(4) reader_open_at [of fs f d] by (auto simp: Reader_Open_def WALReader_new_def split: if_splits)
  then have sk: "\<exists>p2. Reader_Seek p1 (start + off) = (OK, p2) \<and> rd_at p2 d (start + off)"
    by (auto simp: rd_at_def Reader_Seek_def in_seekg_def Let_def)
  then obtain p2 where p2: "Reader_Seek p1 (start + off) = (OK, p2)" "rd_at p2 d (start + off)" by blast
  obtain sr p3 r where rd: "Reader_ReadNextRecord p2 WALRecord_new = (sr, p3, r)" by (cases "Reader_ReadNextRecord p2 WALRecord_new")
  show ?case
  proof (cases "ok sr")
    case True
    then have "start + off \<le> length d"
      using read_outcome(1) [OF p2(2) rd] by (auto simp: status_simps)
    moreover have "q = start + off" using 2(2) o so p2 rd True by simp
    ultimately show ?thesis using 2(3) by simp
  next
    case False
    then have "TryResync_loop n (off + 1) fs f start = Some q" using 2(2) o so p2 rd by simp
    then show ?thesis
      using "2.IH" [OF o [symmetric] refl _ p2(1) [symmetric] refl _ rd [symmetric] refl] so False 2(4) by auto
  qed
qed simp

lemma RecoverFromWALFile_loop_returns:
  assumes "rd_at rd d p" "p \<le> length d" "length d - p < fuel" "map_of (fs_files fs) (rd_filename rd) = Some d"
  shows "RecoverFromWALFile_loop fuel L fs rd r (m, n, c) rc \<noteq> None"
  using assms
proof (induction fuel arbitrary: rd p r m n c rc)
  case (Suc k)
  obtain s rd' r' where rd: "Reader_ReadNextRecord rd r = (s, rd', r')" by (cases "Reader_ReadNextRecord rd r")
  note out = read_outcome [OF Suc.prems(1) rd]
  have ne: "\<not> Reader_IsEOF rd" using Suc.prems(1) by (simp add: rd_at_def Reader_IsEOF_def)
  show ?case
  proof (cases "IsIncomplete s")
    case True then show ?thesis using ne rd by (simp add: Let_def)
  next
    case inc: False
    show ?thesis
    proof (cases "ok s")
      case True
      then obtain p' where p': "rd_at rd' d p'" "p < p'" "p' \<le> length d"
        using out(1) inc by auto
      obtain s2 a rc2 where ap: "ApplyRecoveredRecord L r' rc = (s2, a, rc2)" by (cases "ApplyRecoveredRecord L r' rc")
      show ?thesis
        using ne rd inc True ap Suc.IH [OF p'(1,3)] p' Suc.prems out(2) by (simp add: Let_def)
    next
      case bad: False
      then obtain st where st: "rd_is_open rd'" "\<not> rd_eof_reached rd'" "rd_read_position rd' = p"
          "rd_file rd' = Some st" "in_data st = d" "in_eof st = in_fail st"
        using out(1) inc by auto
      show ?thesis
      proof (cases "TryResyncWALFile fs (rd_filename rd') p")
        case None then show ?thesis using ne rd inc bad st by (simp add: Let_def Reader_GetReadPosition_def)
      next
        case (Some q)
        then have q: "p < q" "q \<le> length d"
          using TryResync_bound [of _ 1 fs "rd_filename rd'" p q d] Suc.prems(4) out(2)
          by (auto simp: TryResyncWALFile_def)
        obtain s2 rd2 where sk: "Reader_Seek rd' q = (s2, rd2)" by fastforce
        show ?thesis
        proof (cases "ok s2")
          case True
          then have "rd_at rd2 d q" "rd_filename rd2 = rd_filename rd'"
            using sk st by (auto simp: Reader_Seek_def in_seekg_def Let_def rd_at_def split: if_splits)
          then show ?thesis
            using ne rd inc bad st Some sk True Suc.IH [of rd2 q] q Suc.prems out(2)
            by (simp add: Let_def Reader_GetReadPosition_def)
        next
          case False
          then show ?thesis using ne rd inc bad st Some sk by (simp add: Let_def Reader_GetReadPosition_def)
        qed
      qed
    qed
  qed
qed simp

lemma RecoverFromWALFile_returns: "RecoverFromWALFile L f rc \<noteq> None"
proof (cases "Reader_Open (WALReader_new f) (wm_fs (rc_wm rc))")
  case (Pair s rd)
  show ?thesis
  proof (cases "ok s")
    case True
    then obtain d where d: "map_of (fs_files (wm_fs (rc_wm rc))) f = Some d" and c: "fs_can_open (wm_fs (rc_wm rc)) f"
      using Pair by (auto simp: Reader_Open_def WALReader_new_def split: if_splits)
    have at: "rd_at rd d 0" "rd_filename rd = f" using reader_open_at [OF c d] Pair by auto
    have "RecoverFromWALFile_loop (2 * length d + 2) L (wm_fs (rc_wm rc)) rd WALRecord_new (0, 0, 0)
        (set_recovery_mode L True rc) \<noteq> None"
      by (rule RecoverFromWALFile_loop_returns [OF at(1)]) (use at d in simp_all)
    then show ?thesis
      using d Pair True
      by (simp add: RecoverFromWALFile_def Let_def fs_data_def del: RecoverFromWALFile_loop.simps)
  next
    case False then show ?thesis using Pair by (simp add: RecoverFromWALFile_def Let_def)
  qed
qed

lemma RecoverFiles_returns: "RecoverFiles L fls m n rc \<noteq> None"
proof (induction fls arbitrary: m n rc)
  case (Cons f fls)
  obtain s a b c rc' where "RecoverFromWALFile L f rc = Some (s, (a, b, c), rc')"
    using RecoverFromWALFile_returns [of L f rc] by (metis not_Some_eq prod.collapse)
  then show ?case using Cons by simp
qed simp

lemma RecoverFromWAL_returns: "RecoverFromWAL L wm \<noteq> None"
proof -
  obtain s m n rc where "RecoverFiles L (sort (GetWALFiles wm)) 0 0
      \<lparr>rc_states = Map.empty, rc_buffers = Map.empty, rc_wm = wm\<rparr> = Some (s, m, n, rc)"
    using RecoverFiles_returns by (metis not_Some_eq prod.collapse)
  then show ?thesis by (simp add: RecoverFromWAL_def Let_def split: prod.splits)
qed

subsection \<open>A torn record\<close>

lemma RecoverFromWALFile_loop_torn:
  assumes "\<forall>r \<in> set rs. wr_readable r" "wr_readable r" "4 \<le> k" "k < length (frame r)"
    and "rd_at rd d p" "drop p d = concat (map frame rs) @ take k (frame r)" "length rs < fuel"
  shows "\<exists>s acc rc'. RecoverFromWALFile_loop fuel L fs rd r0 (m, n, c) rc = Some (s, acc, rc') \<and> \<not> ok s"
  using assms
proof (induction rs arbitrary: fuel rd p r0 m n rc)
  case Nil
  then obtain q where fuel: "fuel = Suc q" by (cases fuel) auto
  have ne: "\<not> rd_eof_reached rd" using Nil.prems by (simp add: rd_at_def)
  have d: "drop p d = take k (frame r)" using Nil.prems(6) by simp
  obtain rd' st where rd': "Reader_ReadNextRecord rd r0 = (Corruption ''Record data truncated'', rd', r0)"
    "rd_is_open rd'" "rd_file rd' = Some st" "in_fail st"
    using read_torn [OF Nil.prems(5) d Nil.prems(3,4,2), of r0] by blast
  show ?case
  proof (cases "TryResyncWALFile fs (rd_filename rd') (Reader_GetReadPosition rd')")
    case None
    then show ?thesis using ne fuel rd'(1) by (simp add: Reader_IsEOF_def Let_def)
  next
    case (Some w)
    obtain s2 rd2 where "Reader_Seek rd' w = (s2, rd2)" by fastforce
    moreover have "\<not> ok s2" using seek_failed [OF rd'(2,3,4), of w] calculation by simp
    ultimately show ?thesis using ne fuel rd'(1) Some by (simp add: Reader_IsEOF_def Let_def)
  qed
next
  case (Cons x rs)
  then obtain q where fuel: "fuel = Suc q" by (cases fuel) auto
  have ne: "\<not> rd_eof_reached rd" using Cons.prems by (simp add: rd_at_def)
  have d: "drop p d = frame x @ concat (map frame rs) @ take k (frame r)" using Cons.prems(6) by simp
  obtain rd' where rd': "Reader_ReadNextRecord rd r0 = (OK, rd', stored x)"
    "rd_at rd' d (p + length (frame x))"
    using read_record [OF Cons.prems(5) d, of r0] Cons.prems(1) by (auto simp: stored_def)
  have d': "drop (p + length (frame x)) d = concat (map frame rs) @ take k (frame r)"
    using d by (metis add.commute append_eq_conv_conj drop_drop)
  obtain s a rc' where ap: "ApplyRecoveredRecord L (stored x) rc = (s, a, rc')" by (cases "ApplyRecoveredRecord L (stored x) rc")
  show ?case
  proof (cases "ok s")
    case True
    then show ?thesis
      using Cons.IH [OF _ Cons.prems(2-4) rd'(2) d', of q] Cons.prems(1,7) fuel rd'(1) ap ne
      by (simp add: Reader_IsEOF_def Let_def)
  next
    case False
    then show ?thesis using fuel rd'(1) ap ne by (simp add: Reader_IsEOF_def Let_def)
  qed
qed

lemma RecoverFromWALFile_torn:
  assumes "\<forall>r \<in> set rs. wr_readable r" "wr_readable r" "4 \<le> k" "k < length (frame r)"
    and "map_of (fs_files (wm_fs (rc_wm rc))) f = Some (concat (map frame rs) @ take k (frame r))"
  shows "\<exists>s acc rc'. RecoverFromWALFile L f rc = Some (s, acc, rc') \<and> \<not> ok s"
proof (cases "fs_can_open (wm_fs (rc_wm rc)) f")
  case True
  let ?d = "concat (map frame rs) @ take k (frame r)"
  obtain rd where rd: "Reader_Open (WALReader_new f) (wm_fs (rc_wm rc)) = (OK, rd)" "rd_at rd ?d 0"
    using reader_open_at [OF True assms(5)] by blast
  have dat: "fs_data (wm_fs (rc_wm rc)) f = ?d" using assms(5) by (simp add: fs_data_def)
  have "length rs < 2 * length ?d + 2" using length_concat_frames [of rs] by simp
  then obtain s acc rc' where "RecoverFromWALFile_loop (2 * length ?d + 2) L (wm_fs (rc_wm rc)) rd WALRecord_new
      (0, 0, 0) (set_recovery_mode L True rc) = Some (s, acc, rc')" "\<not> ok s"
    using RecoverFromWALFile_loop_torn [OF assms(1-4) rd(2)] by (metis drop0)
  then show ?thesis
    using rd(1) by (cases acc) (simp add: RecoverFromWALFile_def Let_def dat del: RecoverFromWALFile_loop.simps)
next
  case False
  then show ?thesis by (simp add: RecoverFromWALFile_def Reader_Open_def WALReader_new_def)
qed

subsection \<open>What recovery applies\<close>

text \<open>
  The contract of recovery, stated on the log alone. A record of a transaction is data unless
  it is a begin, commit or abort record, and a commit or abort ends the transaction. The
  records a commit makes effective are the data records of its transaction since the last
  one that ended it; a record outside transactions is effective where it stands.
\<close>

definition ends_txn :: "u64 \<Rightarrow> wal_record \<Rightarrow> bool" where
  "ends_txn t r \<longleftrightarrow> wr_txn r = t \<and> wr_type r \<in> {WAL_kCommitTransaction, WAL_kAbortTransaction}"

definition data_of :: "u64 \<Rightarrow> wal_record \<Rightarrow> bool" where
  "data_of t r \<longleftrightarrow> wr_txn r = t \<and>
     wr_type r \<notin> {WAL_kBeginTransaction, WAL_kCommitTransaction, WAL_kAbortTransaction}"

definition pending :: "u64 \<Rightarrow> wal_record list \<Rightarrow> wal_record list" where
  "pending t rs = rev (filter (data_of t) (takeWhile (\<lambda>r. \<not> ends_txn t r) (rev rs)))"

definition effect_at :: "wal_record list \<Rightarrow> nat \<Rightarrow> wal_record list" where
  "effect_at rs i =
     (if wr_txn (rs ! i) = 0 then [rs ! i]
      else if wr_type (rs ! i) = WAL_kCommitTransaction then pending (wr_txn (rs ! i)) (take i rs) else [])"

definition effective :: "wal_record list \<Rightarrow> wal_record list" where
  "effective rs = concat (map (effect_at rs) [0..<length rs])"

lemma effective_Nil [simp]: "effective [] = []"
  by (simp add: effective_def)

lemma effective_snoc:
  "effective (rs @ [r]) = effective rs @
     (if wr_txn r = 0 then [r] else if wr_type r = WAL_kCommitTransaction then pending (wr_txn r) rs else [])"
proof -
  have m: "map (effect_at (rs @ [r])) [0..<length rs] = map (effect_at rs) [0..<length rs]"
    by (simp add: effect_at_def nth_append)
  have e: "effect_at (rs @ [r]) (length rs) =
      (if wr_txn r = 0 then [r] else if wr_type r = WAL_kCommitTransaction then pending (wr_txn r) rs else [])"
    by (simp add: effect_at_def)
  have "effective (rs @ [r]) = concat (map (effect_at (rs @ [r])) [0..<length rs]) @ effect_at (rs @ [r]) (length rs)"
    by (simp add: effective_def)
  then show ?thesis unfolding m e by (simp add: effective_def)
qed

lemma pending_snoc:
  "pending t (rs @ [r]) = (if ends_txn t r then [] else if data_of t r then pending t rs @ [r] else pending t rs)"
  by (simp add: pending_def)

text \<open>Applying a list of records in order.\<close>

fun apply_all :: "'l lsm_recovery \<Rightarrow> wal_record list \<Rightarrow> 'l wal_manager \<Rightarrow> status \<times> 'l wal_manager" where
  "apply_all L [] wm = (OK, wm)"
| "apply_all L (r # rs) wm = (let (s, wm) = ApplyWALRecord L r wm in if \<not> ok s then (s, wm) else apply_all L rs wm)"

lemma apply_buffer_all:
  "ok (fst (apply_buffer L rs m wm)) \<Longrightarrow>
    apply_all L rs wm = (OK, snd (snd (apply_buffer L rs m wm)))"
  by (induction L rs m wm rule: apply_buffer.induct) (auto simp: Let_def split: prod.splits if_splits)

lemma apply_all_append:
  "apply_all L (xs @ ys) wm =
     (let (s, wm) = apply_all L xs wm in if \<not> ok s then (s, wm) else apply_all L ys wm)"
  by (induction L xs wm rule: apply_all.induct) (auto simp: Let_def split: prod.splits)

lemma replay_append:
  "replay L (xs @ ys) a rc =
     (case replay L xs a rc of (s, a, rc) \<Rightarrow> if \<not> ok s then (s, a, rc) else replay L ys a rc)"
proof (induction xs arbitrary: a rc)
  case Nil then show ?case by (cases a) simp
next
  case (Cons x xs) then show ?case by (cases a) (auto simp: Let_def split: prod.splits)
qed

lemma replay_effective:
  assumes "rc_buffers rc0 = Map.empty" "replay L rs a0 rc0 = (s, a, rc)" "ok s"
  shows "(\<exists>wm. apply_all L (effective rs) (rc_wm rc0) = (OK, wm) \<and> wm = rc_wm rc) \<and>
    (\<forall>t. t \<noteq> 0 \<longrightarrow> (case rc_buffers rc t of Some b \<Rightarrow> b | None \<Rightarrow> []) = pending t rs)"
  using assms(2,3)
proof (induction rs arbitrary: s a rc rule: rev_induct)
  case Nil
  then show ?case using assms(1) by (cases a0) (auto simp: pending_def)
next
  case (snoc r rs)
  obtain s1 a1 rc1 where r1: "replay L rs a0 rc0 = (s1, a1, rc1)" by (cases "replay L rs a0 rc0")
  have s1: "ok s1" using snoc.prems r1 by (auto simp: replay_append split: if_splits)
  obtain m n where a1: "a1 = (m, n)" by (cases a1)
  obtain s2 x rc2 where ap: "ApplyRecoveredRecord L r rc1 = (s2, x, rc2)" by (cases "ApplyRecoveredRecord L r rc1")
  have s2: "ok s2" and rc: "rc = rc2"
    using snoc.prems r1 s1 ap a1 by (auto simp: replay_append Let_def split: if_splits)
  from snoc.IH [OF r1 s1] have IH: "apply_all L (effective rs) (rc_wm rc0) = (OK, rc_wm rc1)"
    "\<And>t. t \<noteq> 0 \<Longrightarrow> (case rc_buffers rc1 t of Some b \<Rightarrow> b | None \<Rightarrow> []) = pending t rs" by auto
  let ?t = "wr_txn r"
  have step: "apply_all L (effective rs @ xs) (rc_wm rc0) = apply_all L xs (rc_wm rc1)" for xs
    by (simp add: apply_all_append IH(1))
  show ?case
  proof (cases "?t = 0")
    case True
    then have "apply_all L [r] (rc_wm rc1) = (OK, rc_wm rc)" "rc_buffers rc = rc_buffers rc1"
      using ap s2 rc ApplyWALRecord_ok_OK [of L r "rc_wm rc1"]
      by (auto simp: ApplyRecoveredRecord_def Let_def split: prod.splits)
    then show ?thesis
      using True IH(2) step by (auto simp: effective_snoc pending_snoc ends_txn_def data_of_def)
  next
    case nz: False
    show ?thesis
    proof (cases "wr_type r = WAL_kCommitTransaction")
      case True
      have pe: "apply_all L (pending ?t rs) (rc_wm rc1) = (OK, rc_wm rc)"
        and b: "rc_buffers rc = (rc_buffers rc1)(?t := None)"
        using ap s2 rc nz True IH(2) [OF nz] apply_buffer_all [of L "pending ?t rs" 0 "rc_wm rc1"]
        by (auto simp: ApplyRecoveredRecord_def Let_def split: option.splits prod.splits if_splits)
      then show ?thesis
        using nz True IH(2) step
        by (auto simp: effective_snoc pending_snoc ends_txn_def data_of_def split: option.splits)
    next
      case False
      then have "rc_wm rc = rc_wm rc1"
        using ap s2 rc nz by (auto simp: ApplyRecoveredRecord_def Let_def split: if_splits)
      moreover have "(case rc_buffers rc t of Some b \<Rightarrow> b | None \<Rightarrow> []) = pending t (rs @ [r])" if "t \<noteq> 0" for t
        using ap s2 rc nz False IH(2) [OF that]
        by (auto simp: ApplyRecoveredRecord_def Let_def pending_snoc ends_txn_def data_of_def split: if_splits option.splits)
      ultimately show ?thesis using nz False IH(1) by (auto simp: effective_snoc)
    qed
  qed
qed

lemma pending_subset: "r \<in> set (pending t rs) \<Longrightarrow> r \<in> set rs \<and> wr_txn r = t"
  by (auto simp: pending_def data_of_def dest: set_takeWhileD)

lemma effective_committed:
  "r \<in> set (effective rs) \<Longrightarrow> wr_txn r \<noteq> 0 \<Longrightarrow>
    \<exists>c \<in> set rs. wr_txn c = wr_txn r \<and> wr_type c = WAL_kCommitTransaction"
proof (induction rs rule: rev_induct)
  case (snoc x rs)
  then show ?case
    by (auto simp: effective_snoc dest: pending_subset split: if_splits)
qed simp

subsection \<open>The write path\<close>

text \<open>The current file is open and holds exactly the frames of the records \<open>rs\<close>.\<close>

definition log_holds :: "'l wal_manager \<Rightarrow> wal_record list \<Rightarrow> bool" where
  "log_holds wm rs \<longleftrightarrow> (\<exists>w. wm_writer wm = Some w \<and> ww_is_open w \<and> ww_file w = Some False \<and>
     ww_filename w = wm_filename wm \<and> ww_file_size w = length (concat (map frame rs)) \<and>
     map_of (fs_files (wm_fs wm)) (wm_filename wm) = Some (concat (map frame rs)))"

definition disk_holds :: "'l wal_manager \<Rightarrow> wal_record list \<Rightarrow> bool" where
  "disk_holds wm rs \<longleftrightarrow> map_of (fs_disk (wm_fs wm)) (wm_filename wm) = Some (concat (map frame rs))"

lemma check_record_same:
  "check_record r wm = (s, wm') \<Longrightarrow> wm_writer wm' = wm_writer wm \<and> wm_filename wm' = wm_filename wm \<and>
    wm_fs wm' = wm_fs wm \<and> wm_max_size wm' = wm_max_size wm \<and> wm_sync_on_write wm' = wm_sync_on_write wm"
  by (auto simp: check_record_def UpdateTransactionState_def Let_def split: if_splits)

lemma Writer_Sync_OK:
  assumes "Writer_Sync w fs = (s, w', fs')" "ok s"
  shows "fs' = fs_fsync fs (ww_filename w)" "w' = w\<lparr>ww_unsynced := 0\<rparr>"
  using assms by (auto simp: Writer_Sync_def Let_def split: if_splits)

lemma Sync_log_holds:
  assumes "log_holds wm rs" "with_writer Writer_Sync wm = (s, wm')" "ok s"
  shows "log_holds wm' rs" "disk_holds wm' rs" "wm_filename wm' = wm_filename wm"
    "wm_max_size wm' = wm_max_size wm" "wm_sync_on_write wm' = wm_sync_on_write wm"
proof -
  obtain w where w: "wm_writer wm = Some w" using assms(1) by (auto simp: log_holds_def)
  obtain s1 w1 fs1 where sy: "Writer_Sync w (wm_fs wm) = (s1, w1, fs1)" by (cases "Writer_Sync w (wm_fs wm)")
  then have e: "s1 = s" "wm' = wm\<lparr>wm_writer := Some w1, wm_fs := fs1\<rparr>"
    using assms(2) w by (auto simp: with_writer_def)
  note o = Writer_Sync_OK [OF sy] assms(3) e(1)
  show "log_holds wm' rs" "disk_holds wm' rs" "wm_filename wm' = wm_filename wm"
    "wm_max_size wm' = wm_max_size wm" "wm_sync_on_write wm' = wm_sync_on_write wm"
    using assms(1) o w by (auto simp: e(2) log_holds_def disk_holds_def fs_fsync_def fs_data_def)
qed

lemma Write_log_holds:
  assumes "log_holds wm rs" "with_writer (\<lambda>w fs. Writer_WriteRecord w r fs) wm = (s, wm')" "ok s"
  shows "log_holds wm' (rs @ [r])" "wm_filename wm' = wm_filename wm"
    "wm_max_size wm' = wm_max_size wm" "wm_sync_on_write wm' = wm_sync_on_write wm"
proof -
  obtain w where w: "wm_writer wm = Some w" "ww_filename w = wm_filename wm"
    "map_of (fs_files (wm_fs wm)) (wm_filename wm) = Some (concat (map frame rs))"
    using assms(1) by (auto simp: log_holds_def)
  obtain s1 w1 fs1 where wr: "Writer_WriteRecord w r (wm_fs wm) = (s1, w1, fs1)" by (cases "Writer_WriteRecord w r (wm_fs wm)")
  then have e: "s1 = s" "wm' = wm\<lparr>wm_writer := Some w1, wm_fs := fs1\<rparr>"
    using assms(2) w by (auto simp: with_writer_def)
  note o = Writer_WriteRecord_OK [OF wr] assms(3) e(1)
  show "log_holds wm' (rs @ [r])" "wm_filename wm' = wm_filename wm"
    "wm_max_size wm' = wm_max_size wm" "wm_sync_on_write wm' = wm_sync_on_write wm"
    using assms(1) o w by (auto simp: e(2) log_holds_def fs_data_def)
qed

lemma WriteRecordInternal_log:
  assumes "log_holds wm rs" "WriteRecordInternal r wm = (s, wm')" "ok s"
    and "length (concat (map frame rs)) < wm_max_size wm"
  shows "log_holds wm' (rs @ [r])" "wm_filename wm' = wm_filename wm" "wm_max_size wm' = wm_max_size wm"
    "wm_sync_on_write wm' = wm_sync_on_write wm" "wm_sync_on_write wm \<longrightarrow> disk_holds wm' (rs @ [r])"
proof -
  have en: "ensure_writer wm = (OK, wm)"
    using assms(1,4) by (auto simp: ensure_writer_def ShouldSwitchWAL_def log_holds_def)
  obtain s1 wm1 where ch: "check_record r wm = (s1, wm1)" by fastforce
  have init: "wm_initialized wm" "\<not> wm_shutdown wm" and s1: "ok s1" and
    ws: "write_and_sync r wm1 = (s, wm')"
    using assms(2,3) en ch by (auto simp: WriteRecordInternal_def Let_def split: if_splits)
  have l1: "log_holds wm1 rs" using check_record_same [OF ch] assms(1) by (auto simp: log_holds_def)
  obtain s2 wm2 where wr: "with_writer (\<lambda>w fs. Writer_WriteRecord w r fs) wm1 = (s2, wm2)" by fastforce
  have s2: "ok s2" using ws wr assms(3) by (auto simp: write_and_sync_def split: if_splits)
  note l2 = Write_log_holds [OF l1 wr s2]
  obtain s3 wm3 where sy: "(if wm_sync_on_write wm2 then with_writer Writer_Sync wm2 else (OK, wm2)) = (s3, wm3)" by fastforce
  have s3: "ok s3" and e: "wm' = wm3\<lparr>wm_total_records := wm_total_records wm3 + 1,
      wm_total_bytes := wm_total_bytes wm3 + length (WAL_Encode r), wm_last_sequence := wr_seq r\<rparr>"
    using ws wr s2 sy assms(3) by (auto simp: write_and_sync_def simp del: length_WAL_Encode split: if_splits)
  have l3: "log_holds wm3 (rs @ [r])" "wm_filename wm3 = wm_filename wm2" "wm_max_size wm3 = wm_max_size wm2"
    "wm_sync_on_write wm3 = wm_sync_on_write wm2" "wm_sync_on_write wm2 \<longrightarrow> disk_holds wm3 (rs @ [r])"
    using sy s3 l2(1) Sync_log_holds [of wm2 "rs @ [r]"] by (auto split: if_splits)
  show "log_holds wm' (rs @ [r])" "wm_filename wm' = wm_filename wm" "wm_max_size wm' = wm_max_size wm"
    "wm_sync_on_write wm' = wm_sync_on_write wm" "wm_sync_on_write wm \<longrightarrow> disk_holds wm' (rs @ [r])"
    using l3 l2 check_record_same [OF ch] by (auto simp: e log_holds_def disk_holds_def)
qed

definition batch_record :: "u32 \<Rightarrow> versioned_entry \<Rightarrow> wal_record" where
  "batch_record cf e = WALRecord_new\<lparr>wr_type := ve_type e, wr_seq := ve_seq e, wr_cf := cf, wr_key := ve_key e,
     wr_value := ve_value e, wr_txn := ve_txn e\<rparr>"

lemma WriteBatch_loop_log:
  assumes "log_holds wm rs" "WriteBatch_loop cf es wm = (s, wm')" "ok s"
    and "length (concat (map frame (rs @ map (batch_record cf) es))) \<le> wm_max_size wm"
  shows "log_holds wm' (rs @ map (batch_record cf) es) \<and> wm_filename wm' = wm_filename wm \<and>
    wm_sync_on_write wm' = wm_sync_on_write wm"
  using assms
proof (induction es arbitrary: wm rs)
  case Nil then show ?case by simp
next
  case (Cons e es)
  obtain s1 wm1 where w: "WriteRecordInternal (batch_record cf e) wm = (s1, wm1)" by fastforce
  have s1: "ok s1" and rest: "WriteBatch_loop cf es wm1 = (s, wm')"
    using Cons.prems(2,3) w by (auto simp: batch_record_def Let_def split: if_splits)
  have sz: "length (concat (map frame rs)) < wm_max_size wm" using Cons.prems(4) by simp
  note l = WriteRecordInternal_log [OF Cons.prems(1) w s1 sz]
  have "log_holds wm' ((rs @ [batch_record cf e]) @ map (batch_record cf) es) \<and>
      wm_filename wm' = wm_filename wm1 \<and> wm_sync_on_write wm' = wm_sync_on_write wm1"
    using Cons.IH [OF l(1) rest Cons.prems(3)] Cons.prems(4) l(3) by simp
  then show ?case using l by simp
qed

subsection \<open>Recovery changes no file before it has succeeded\<close>

lemma ApplyWALRecord_fs: "ApplyWALRecord L r wm = (s, wm') \<Longrightarrow> wm_fs wm' = wm_fs wm"
  by (auto simp: ApplyWALRecord_def apply_to_lsm_def Let_def split: if_splits prod.splits option.splits)

lemma apply_buffer_fs: "apply_buffer L rs m wm = (s, m', wm') \<Longrightarrow> wm_fs wm' = wm_fs wm"
  by (induction L rs m wm rule: apply_buffer.induct)
    (auto simp: Let_def dest: ApplyWALRecord_fs split: prod.splits if_splits)

lemma ApplyRecoveredRecord_fs: "ApplyRecoveredRecord L r rc = (s, m, rc') \<Longrightarrow> wm_fs (rc_wm rc') = wm_fs (rc_wm rc)"
  by (auto simp: ApplyRecoveredRecord_def Let_def dest: ApplyWALRecord_fs apply_buffer_fs
      split: prod.splits if_splits option.splits)

lemma RecoverFromWALFile_loop_fs:
  "RecoverFromWALFile_loop fuel L fs rd r a rc = Some (s, a', rc') \<Longrightarrow> wm_fs (rc_wm rc') = wm_fs (rc_wm rc)"
  by (induction fuel L fs rd r a rc rule: RecoverFromWALFile_loop.induct)
    (auto simp: Let_def dest: ApplyRecoveredRecord_fs split: prod.splits if_splits option.splits)

lemma RecoverFromWALFile_fs:
  "RecoverFromWALFile L f rc = Some (s, a, rc') \<Longrightarrow> wm_fs (rc_wm rc') = wm_fs (rc_wm rc)"
  by (auto simp: RecoverFromWALFile_def Let_def set_recovery_mode_def simp del: RecoverFromWALFile_loop.simps
      dest!: RecoverFromWALFile_loop_fs
      split: prod.splits if_splits)

lemma RecoverFiles_torn:
  assumes "f \<in> set fls" "\<forall>r \<in> set rs. wr_readable r" "wr_readable r" "4 \<le> k" "k < length (frame r)"
    and "map_of (fs_files (wm_fs (rc_wm rc))) f = Some (concat (map frame rs) @ take k (frame r))"
  shows "\<exists>s m' n' rc'. RecoverFiles L fls m n rc = Some (s, m', n', rc') \<and> \<not> ok s"
  using assms(1,6)
proof (induction fls arbitrary: m n rc)
  case (Cons g fls)
  obtain s a b c rc' where g: "RecoverFromWALFile L g rc = Some (s, (a, b, c), rc')"
    using RecoverFromWALFile_returns [of L g rc] by (metis not_Some_eq prod.collapse)
  show ?case
  proof (cases "ok s")
    case True
    then have "g \<noteq> f" using RecoverFromWALFile_torn [OF assms(2-5) Cons.prems(2), of L] g by auto
    then show ?thesis
      using Cons.IH [of rc' "max m a" "n + b"] Cons.prems g True RecoverFromWALFile_fs [OF g] by simp
  next
    case False then show ?thesis using g by simp
  qed
qed simp


section \<open>Properties\<close>


text \<open>C4: Transactions are atomic in recovery. From a log file of whole records (up to three bytes
  of a next one are tolerated), a recovery that succeeds has applied to the storage engine
  exactly the effective records, in order: every record outside a transaction, and at each
  commit the data its transaction wrote since it began. No record of a transaction without
  a commit record in the log is applied.\<close>

theorem wal_recovers_committed:
  assumes "\<forall>r \<in> set rs. wr_readable r" "length tail < 4" "rc_buffers rc = Map.empty"
    and "fs_can_open (wm_fs (rc_wm rc)) f" "map_of (fs_files (wm_fs (rc_wm rc))) f = Some (concat (map frame rs) @ tail)"
    and "RecoverFromWALFile L f rc = Some (s, acc, rc')" "ok s"
  shows "(\<exists>wm. apply_all L (effective (map stored rs)) (rc_wm (set_recovery_mode L True rc)) = (OK, wm) \<and>
      wm_lsm (rc_wm rc') = map_option (LsmSetRecoveryMode L False) (wm_lsm wm)) \<and>
    (\<forall>r \<in> set (effective (map stored rs)). wr_txn r \<noteq> 0 \<longrightarrow>
      (\<exists>c \<in> set (map stored rs). wr_txn c = wr_txn r \<and> wr_type c = WAL_kCommitTransaction))"
proof -
  obtain s1 m n rc1 where r: "replay L (map stored rs) (0, 0) (set_recovery_mode L True rc) = (s1, (m, n), rc1)"
    by (metis prod.collapse)
  have e: "s = s1" "rc' = set_recovery_mode L False rc1"
    using RecoverFromWALFile_frames [OF assms(1,2,4,5), of L] assms(6) r by simp_all
  have b: "rc_buffers (set_recovery_mode L True rc) = Map.empty" using assms(3) by (simp add: set_recovery_mode_def)
  have "apply_all L (effective (map stored rs)) (rc_wm (set_recovery_mode L True rc)) = (OK, rc_wm rc1)"
    using replay_effective [OF b r] assms(7) e by blast
  moreover have "wm_lsm (rc_wm rc') = map_option (LsmSetRecoveryMode L False) (wm_lsm (rc_wm rc1))"
    by (simp add: e(2) set_recovery_mode_def)
  ultimately show ?thesis using effective_committed [of _ "map stored rs"] by blast
qed

text \<open>A storage engine that records what it is asked to recover, and a log directory for it.\<close>

definition trace_lsm :: "(bytes \<times> bytes \<times> u64 \<times> bool) list lsm_recovery" where
  "trace_lsm = \<lparr>LsmRecover = \<lambda>k v sq del l. (OK, l @ [(k, v, sq, del)]),
     LsmSetRecoveryMode = \<lambda>_ l. l, LsmFinishRecovery = \<lambda>_ l. (OK, l)\<rparr>"

definition wm_trace :: "(string \<times> bytes) list \<Rightarrow> (bytes \<times> bytes \<times> u64 \<times> bool) list wal_manager" where
  "wm_trace fls = (WALManager_new ''d'' (fs_empty\<lparr>fs_files := fls\<rparr>))\<lparr>wm_lsm := Some []\<rparr>"

definition txn_log :: "wal_record list" where
  "txn_log = [WALRecord_new\<lparr>wr_type := WAL_kBeginTransaction, wr_seq := 1, wr_txn := 1\<rparr>,
     WALRecord_new\<lparr>wr_type := WAL_kPut, wr_seq := 2, wr_txn := 1, wr_key := [1], wr_value := [10]\<rparr>,
     WALRecord_new\<lparr>wr_type := WAL_kPut, wr_seq := 3, wr_txn := 2, wr_key := [2], wr_value := [20]\<rparr>,
     WALRecord_new\<lparr>wr_type := WAL_kCommitTransaction, wr_seq := 4, wr_txn := 1\<rparr>]"

lemma txn_log_readable: "\<forall>r \<in> set txn_log. wr_readable r"
  by (simp add: txn_log_def wr_readable_def WALRecord_new_def)

theorem wal_recovers_committed_witness:
  "\<exists>acc rc'. RecoverFromWALFile trace_lsm ''d/wal/000001.wal''
      \<lparr>rc_states = Map.empty, rc_buffers = Map.empty,
       rc_wm = wm_trace [(''d/wal/000001.wal'', concat (map frame txn_log) @ [])]\<rparr> = Some (OK, acc, rc') \<and>
    wm_lsm (rc_wm rc') = Some [([1], [10], 2, False)]"
proof -
  let ?rc = "\<lparr>rc_states = Map.empty, rc_buffers = Map.empty,
       rc_wm = wm_trace [(''d/wal/000001.wal'', concat (map frame txn_log) @ [])]\<rparr>"
  have f: "fs_can_open (wm_fs (rc_wm ?rc)) ''d/wal/000001.wal''"
    "map_of (fs_files (wm_fs (rc_wm ?rc))) ''d/wal/000001.wal'' = Some (concat (map frame txn_log) @ [])"
    by (simp_all add: wm_trace_def WALManager_new_def fs_empty_def)
  have "\<exists>acc rc'. RecoverFromWALFile trace_lsm ''d/wal/000001.wal'' ?rc = Some (OK, acc, rc')"
    by (subst RecoverFromWALFile_frames [OF txn_log_readable _ f], simp)
      (simp add: txn_log_def stored_def set_recovery_mode_def ApplyRecoveredRecord_def ApplyWALRecord_def
        apply_to_lsm_def wm_trace_def WALManager_new_def trace_lsm_def WALRecord_new_def Let_def)
  then obtain acc rc' where r: "RecoverFromWALFile trace_lsm ''d/wal/000001.wal'' ?rc = Some (OK, acc, rc')" by blast
  from wal_recovers_committed [OF txn_log_readable _ _ f r] obtain wm where
    "apply_all trace_lsm (effective (map stored txn_log)) (rc_wm (set_recovery_mode trace_lsm True ?rc)) = (OK, wm)"
    "wm_lsm (rc_wm rc') = map_option (LsmSetRecoveryMode trace_lsm False) (wm_lsm wm)" by auto
  moreover have "effective (map stored txn_log) =
      [stored (WALRecord_new\<lparr>wr_type := WAL_kPut, wr_seq := 2, wr_txn := 1, wr_key := [1], wr_value := [10]\<rparr>)]"
    by (simp add: effective_def txn_log_def effect_at_def pending_def ends_txn_def data_of_def stored_def
        WALRecord_new_def upt_conv_Cons)
  ultimately have "wm_lsm (rc_wm rc') = Some [([1], [10], 2, False)]"
    by (auto simp: ApplyWALRecord_def apply_to_lsm_def stored_def WALRecord_new_def trace_lsm_def
        set_recovery_mode_def wm_trace_def WALManager_new_def Let_def)
  then show ?thesis using r by blast
qed

text \<open>C25: A crash in the middle of a write blocks recovery for good. If a log file ends in a record
  cut off anywhere after its length header, RecoverFromWAL answers an error, whatever the
  other files hold: the short read fails the stream, and the seek to any resynchronisation
  point fails on a failed stream.\<close>

theorem wal_torn_record_blocks_recovery:
  assumes "wm_db_path wm \<noteq> []" "f \<in> set (GetWALFiles wm)" "\<forall>r \<in> set rs. wr_readable r" "wr_readable r"
    and "4 \<le> k" "k < length (frame r)"
    and "map_of (fs_files (wm_fs wm)) f = Some (concat (map frame rs) @ take k (frame r))"
  shows "\<exists>s m wm'. RecoverFromWAL L wm = Some (s, m, wm') \<and> \<not> ok s"
proof -
  let ?rc = "\<lparr>rc_states = Map.empty, rc_buffers = Map.empty, rc_wm = wm\<rparr>"
  obtain s m n rc where "RecoverFiles L (sort (GetWALFiles wm)) 0 0 ?rc = Some (s, m, n, rc)" "\<not> ok s"
    using RecoverFiles_torn [OF _ assms(3-6), of f "sort (GetWALFiles wm)" ?rc L 0 0] assms(2,7) by auto
  then show ?thesis
    using assms(1,2) by (auto simp: RecoverFromWAL_def Let_def)
qed

lemma GetWALFiles_trace:
  "GetWALFiles (wm_trace [(''d/wal/000001.wal'', d)]) = [''d/wal/000001.wal'']"
  "GetWALFiles (wm_trace [(''d/wal/archive/000001.wal'', d)]) = [''d/wal/archive/000001.wal'']"
  "GetWALFiles (wm_trace [(''d/wal/archive/000001.wal'', d), (''d/wal/000002.wal'', e)]) =
     [''d/wal/000002.wal'', ''d/wal/archive/000001.wal'']"
  by (simp_all add: GetWALFiles_def wm_trace_def WALManager_new_def fs_empty_def dir_wal_files_def
      dir_files_def base_name_def is_wal_name_def Let_def less_char_def)

theorem wal_torn_record_blocks_recovery_witness:
  "\<exists>s m wm'. RecoverFromWAL trace_lsm
      (wm_trace [(''d/wal/000001.wal'', concat (map frame txn_log) @ take 9 (frame (hd txn_log)))]) = Some (s, m, wm') \<and> \<not> ok s"
  using wal_torn_record_blocks_recovery [of "wm_trace [(''d/wal/000001.wal'', concat (map frame txn_log) @ take 9 (frame (hd txn_log)))]"
      "''d/wal/000001.wal''" txn_log "hd txn_log" 9 trace_lsm] txn_log_readable
  by (simp add: GetWALFiles_trace) (simp add: wm_trace_def WALManager_new_def fs_empty_def txn_log_def)


definition wm_open :: "(bytes \<times> bytes \<times> u64 \<times> bool) list wal_manager" where
  "wm_open = (wm_trace [(''d/wal/000001.wal'', [])])\<lparr>wm_filename := ''d/wal/000001.wal'', wm_initialized := True,
     wm_sync_on_write := True,
     wm_writer := Some ((WALWriter_new ''d/wal/000001.wal'')\<lparr>ww_file := Some False, ww_is_open := True\<rparr>)\<rparr>"

definition entry_example :: versioned_entry where
  "entry_example = \<lparr>ve_type = WAL_kPut, ve_key = [1], ve_value = [10], ve_seq = 5, ve_txn = 0, ve_committed = True\<rparr>"


text \<open>The clean-up ignores its argument. The safe sequence number is only compared with 0: any
  other value deletes every archived log file, also one whose records are newer than it.\<close>

theorem wal_cleanup_ignores_sequence:
  assumes "safe_sequence \<noteq> 0" "f \<in> set (GetWALFiles wm)" "f \<noteq> wm_filename wm" "is_sub ''/archive/'' f"
  shows "map_of (fs_files (wm_fs (snd (CleanupOldWALFiles safe_sequence wm)))) f = None"
proof -
  have "map_of (fs_files (foldl fs_remove fs dead)) f = None" if "f \<in> set dead \<or> map_of (fs_files fs) f = None" for fs dead
    using that
  proof (induction dead arbitrary: fs)
    case (Cons g dead)
    have "map_of (fs_files (fs_remove fs g)) f = None" if "map_of (fs_files fs) f = None \<or> g = f"
      using that by (auto simp: fs_remove_def map_of_eq_None_iff)
    then show ?case using Cons by auto
  qed simp
  then show ?thesis using assms by (simp add: CleanupOldWALFiles_def Let_def)
qed


theorem wal_cleanup_ignores_sequence_witness:
  "map_of (fs_files (wm_fs (snd (CleanupOldWALFiles 1 (wm_trace
     [(''d/wal/archive/000001.wal'', concat (map frame txn_log))]))))) ''d/wal/archive/000001.wal'' = None"
  by (rule wal_cleanup_ignores_sequence)
    (simp_all add: GetWALFiles_trace, simp_all add: wm_trace_def WALManager_new_def)


end
