(* ===== verification/BloomFilters.thy ===== *)
theory BloomFilters
  imports Hashing
begin

text \<open>
  Bloom filters (include/lrdb/util/bloom_filter.h, src/util/bloom_filter.cc): the standard
  filter with its serial form, the builder that an SSTable writer feeds with user keys, and
  the reader that an SSTable reader asks. Sizes are \<open>size_t\<close> words, with the rounding up to
  bytes at their width. A modulo by zero, which the reader does not exclude, is \<open>None\<close>.
  The numbers of bits and of hash functions that the builder derives from
  \<open>bits_per_key_\<close> in floating point are parameters (\<open>bloom_params\<close>); the estimates of
  false-positive rates and the benchmark are not modelled.
\<close>

section \<open>Hash positions\<close>

text \<open>The body of the loops of \<open>ComputeHashes\<close>, for the \<open>i\<close>-th hash function.\<close>

definition double_hash :: "u32 \<Rightarrow> u32 \<Rightarrow> nat \<Rightarrow> u32" where
  "double_hash h1 h2 i =
     (let hash = h1 + of_nat i * h2;
          hash = hash XOR drop_bit 16 hash;
          hash = hash * 0x9e3779b9
      in hash XOR drop_bit 13 hash)"

definition fallback_hash :: "bytes \<Rightarrow> u32 \<Rightarrow> u32" where
  "fallback_hash key h2 =
     (if h2 = 0 then (let h2 = CRC32 key in if h2 = 0 then 0x9e3779b9 else h2) else h2)"

text \<open>The hash count is an \<open>int\<close>: a negative one gives no hashes.\<close>

definition Bloom_ComputeHashes :: "int \<Rightarrow> bytes \<Rightarrow> u32 list" where
  "Bloom_ComputeHashes hash_function_count key =
     (let h1 = MurmurHash3_x86_32 key 0xbc9f1d34; h2 = fallback_hash key (FNVHash32 key)
      in map (double_hash h1 h2) [0..<nat hash_function_count])"

section \<open>StandardBloomFilter\<close>

record bloom_filter =
  bf_array :: bytes
  bf_size :: u64
  bf_hashes :: int
  bf_count :: u64

definition bloom_bytes :: "u64 \<Rightarrow> nat" where
  "bloom_bytes bit_array_size = unat ((bit_array_size + 7) div 8)"

definition StandardBloomFilter :: "u64 \<Rightarrow> int \<Rightarrow> bloom_filter" where
  "StandardBloomFilter bit_array_size hash_function_count =
     \<lparr>bf_array = replicate (bloom_bytes bit_array_size) 0, bf_size = bit_array_size,
      bf_hashes = hash_function_count, bf_count = 0\<rparr>"

definition SetBitOptimized :: "bytes \<Rightarrow> nat \<Rightarrow> bytes" where
  "SetBitOptimized bits index =
     (let byte_index = index div 8; bit_offset = index mod 8 in
      if byte_index < length bits
      then let old_byte = bits ! byte_index; new_byte = old_byte OR push_bit bit_offset 1
           in if old_byte \<noteq> new_byte then bits[byte_index := new_byte] else bits
      else bits)"

definition GetBitOptimized :: "bytes \<Rightarrow> nat \<Rightarrow> bool" where
  "GetBitOptimized bits index =
     (let byte_index = index div 8; bit_offset = index mod 8 in
      if byte_index < length bits then (bits ! byte_index) AND push_bit bit_offset 1 \<noteq> 0 else False)"

text \<open>\<open>hash % bit_array_size_\<close>, in \<open>size_t\<close>.\<close>

definition bit_index :: "u64 \<Rightarrow> u32 \<Rightarrow> nat" where
  "bit_index sz hash = unat (ucast hash mod sz)"

definition set_hashes :: "u64 \<Rightarrow> u32 list \<Rightarrow> bytes \<Rightarrow> bytes" where
  "set_hashes sz hashes bits = foldl (\<lambda>bits h. SetBitOptimized bits (bit_index sz h)) bits hashes"

definition Bloom_Add :: "bloom_filter \<Rightarrow> bytes \<Rightarrow> bloom_filter" where
  "Bloom_Add bf key =
     (if bf_size bf = 0 then bf
      else bf\<lparr>bf_array := set_hashes (bf_size bf) (Bloom_ComputeHashes (bf_hashes bf) key) (bf_array bf),
              bf_count := bf_count bf + 1\<rparr>)"

text \<open>The loop that stops at the first bit that is not set.\<close>

fun MayContain_loop :: "(nat \<Rightarrow> bool) \<Rightarrow> u64 \<Rightarrow> u32 list \<Rightarrow> bool" where
  "MayContain_loop get_bit sz [] = True"
| "MayContain_loop get_bit sz (h # hs) =
     (if \<not> get_bit (bit_index sz h) then False else MayContain_loop get_bit sz hs)"

definition Bloom_MayContain :: "bloom_filter \<Rightarrow> bytes \<Rightarrow> bool" where
  "Bloom_MayContain bf key =
     (if bf_size bf = 0 then True
      else MayContain_loop (GetBitOptimized (bf_array bf)) (bf_size bf)
             (Bloom_ComputeHashes (bf_hashes bf) key))"

definition Bloom_Reset :: "bloom_filter \<Rightarrow> bloom_filter" where
  "Bloom_Reset bf = bf\<lparr>bf_array := replicate (length (bf_array bf)) 0, bf_count := 0\<rparr>"

definition Bloom_Serialize :: "bloom_filter \<Rightarrow> bytes" where
  "Bloom_Serialize bf =
     (let result = PutFixed64 [] (bf_size bf);
          result = PutFixed32 result (of_int (bf_hashes bf));
          result = PutFixed64 result (bf_count bf)
      in result @ bf_array bf)"

text \<open>The header fields are assigned before the sz test, so a failure leaves them changed.\<close>

definition Bloom_Deserialize :: "bloom_filter \<Rightarrow> bytes \<Rightarrow> bool \<times> bloom_filter" where
  "Bloom_Deserialize bf data =
     (if length data < 20 then (False, bf)
      else let bf = bf\<lparr>bf_size := the (DecodeFixed64 data),
                       bf_hashes := sint (the (DecodeFixed32 (drop 8 data))),
                       bf_count := the (DecodeFixed64 (drop 12 data))\<rparr>;
               byte_size = bloom_bytes (bf_size bf)
           in if length data \<noteq> 20 + byte_size then (False, bf)
              else (True, bf\<lparr>bf_array := take byte_size (drop 20 data)\<rparr>))"

text \<open>The batch operations take the modulo without the zero test (\<open>None\<close>).\<close>

definition Bloom_AddBatch :: "bloom_filter \<Rightarrow> bytes list \<Rightarrow> bloom_filter option" where
  "Bloom_AddBatch bf keys =
     (if keys = [] then Some bf
      else let all_hashes = concat (map (Bloom_ComputeHashes (bf_hashes bf)) keys) in
        if bf_size bf = 0 \<and> all_hashes \<noteq> [] then None
        else Some (bf\<lparr>bf_array := set_hashes (bf_size bf) all_hashes (bf_array bf),
                      bf_count := bf_count bf + of_nat (length keys)\<rparr>))"

definition Bloom_MayContainBatch :: "bloom_filter \<Rightarrow> bytes list \<Rightarrow> bool list option" where
  "Bloom_MayContainBatch bf keys =
     (if bf_size bf = 0 \<and> 0 < bf_hashes bf \<and> keys \<noteq> [] then None
      else Some (map (\<lambda>key. MayContain_loop (GetBitOptimized (bf_array bf)) (bf_size bf)
                              (Bloom_ComputeHashes (bf_hashes bf) key)) keys))"

section \<open>Builder and reader\<close>

record bloom_params =
  bp_bits :: "nat \<Rightarrow> u64"
  bp_hashes :: int

record bloom_builder =
  bb_params :: bloom_params
  bb_keys :: "bytes list"

definition BloomFilterBuilder :: "bloom_params \<Rightarrow> bloom_builder" where
  "BloomFilterBuilder p = \<lparr>bb_params = p, bb_keys = []\<rparr>"

definition Builder_AddKey :: "bloom_builder \<Rightarrow> bytes \<Rightarrow> bloom_builder" where
  "Builder_AddKey bb key = bb\<lparr>bb_keys := bb_keys bb @ [key]\<rparr>"

definition Builder_Finish :: "bloom_builder \<Rightarrow> bytes" where
  "Builder_Finish bb =
     (if bb_keys bb = [] then []
      else let temp_filter = StandardBloomFilter (bp_bits (bb_params bb) (length (bb_keys bb)))
                               (bp_hashes (bb_params bb))
           in Bloom_Serialize (foldl Bloom_Add temp_filter (bb_keys bb)))"

record bloom_reader =
  br_data :: bytes
  br_size :: u64
  br_hashes :: int

definition Reader_Initialize :: "bytes \<Rightarrow> bloom_reader option" where
  "Reader_Initialize filter_data =
     (if length filter_data < 20 then None
      else let sz = the (DecodeFixed64 filter_data);
               hashes = sint (the (DecodeFixed32 (drop 8 filter_data)))
           in if length filter_data \<noteq> 20 + bloom_bytes sz then None
              else Some \<lparr>br_data = filter_data, br_size = sz, br_hashes = hashes\<rparr>)"

definition Reader_GetBit :: "bloom_reader \<Rightarrow> nat \<Rightarrow> bool" where
  "Reader_GetBit br index =
     (let byte_index = index div 8; bit_offset = index mod 8 in
      if byte_index < bloom_bytes (br_size br)
      then (br_data br ! (20 + byte_index)) AND push_bit bit_offset 1 \<noteq> 0 else False)"

definition Reader_ComputeHashes :: "bloom_reader \<Rightarrow> bytes \<Rightarrow> u32 list" where
  "Reader_ComputeHashes br key =
     (let h1 = MurmurHash3_x86_32 key 0xbc9f1d34; h2 = fallback_hash key (FNVHash32 key)
      in map (double_hash h1 h2) [0..<nat (br_hashes br)])"

definition Reader_MayContain :: "bloom_reader \<Rightarrow> bytes \<Rightarrow> bool option" where
  "Reader_MayContain br key =
     (let hashes = Reader_ComputeHashes br key in
      if br_size br = 0 \<and> hashes \<noteq> [] then None
      else Some (MayContain_loop (Reader_GetBit br) (br_size br) hashes))"

text \<open>The parameters the code derives from its default of ten bits per key.\<close>

definition default_bloom :: bloom_params where
  "default_bloom = \<lparr>bp_bits = (\<lambda>n. of_nat (n * 10)), bp_hashes = 7\<rparr>"

section \<open>Bits\<close>

lemma length_SetBit [simp]: "length (SetBitOptimized bits i) = length bits"
  by (simp add: SetBitOptimized_def Let_def)

lemma GetBit_iff:
  "GetBitOptimized bits i \<longleftrightarrow> i div 8 < length bits \<and> bit (bits ! (i div 8)) (i mod 8)"
  by (simp only: GetBitOptimized_def Let_def bit_iff_and_push_bit_not_eq_0 split: if_split) blast

lemma SetBit_eq:
  "SetBitOptimized bits i =
     (if i div 8 < length bits then bits[i div 8 := bits ! (i div 8) OR push_bit (i mod 8) 1] else bits)"
proof -
  have "bits ! (i div 8) = bits ! (i div 8) OR push_bit (i mod 8) 1 \<Longrightarrow>
      bits[i div 8 := bits ! (i div 8) OR push_bit (i mod 8) 1] = bits"
    by (metis list_update_id)
  then show ?thesis unfolding SetBitOptimized_def Let_def by auto
qed

lemma bit_push_1: "m < 8 \<Longrightarrow> bit (push_bit n 1 :: byte) m \<longleftrightarrow> m = n"
  by (auto simp only: bit_push_bit_iff bit_1_iff possible_bit_word) (simp_all)

lemma GetBit_SetBit:
  "GetBitOptimized (SetBitOptimized bits i) j \<longleftrightarrow>
     GetBitOptimized bits j \<or> i = j \<and> j div 8 < length bits"
proof -
  have "i div 8 = j div 8 \<Longrightarrow> i mod 8 = j mod 8 \<longleftrightarrow> i = j" by (metis div_mult_mod_eq)
  then show ?thesis
    by (auto simp: GetBit_iff SetBit_eq nth_list_update bit_or_iff bit_push_1 simp del: push_bit_of_1)
qed

lemma length_set_hashes [simp]: "length (set_hashes sz hs bits) = length bits"
  unfolding set_hashes_def by (induction hs arbitrary: bits) auto

lemma GetBit_set_hashes:
  "GetBitOptimized (set_hashes sz hs bits) j \<longleftrightarrow>
     GetBitOptimized bits j \<or> (\<exists>h \<in> set hs. j = bit_index sz h \<and> j div 8 < length bits)"
  unfolding set_hashes_def
proof (induction hs arbitrary: bits)
  case (Cons h hs)
  show ?case by (simp add: Cons.IH GetBit_SetBit) blast
qed simp

lemma MayContain_loop_iff: "MayContain_loop g sz hs \<longleftrightarrow> (\<forall>h \<in> set hs. g (bit_index sz h))"
  by (induction hs) auto

text \<open>A position below the sz lies in the array, unless the rounding up wraps.\<close>

lemma bit_index_room:
  assumes "sz \<noteq> 0" "sz \<le> - 8"
  shows "bit_index sz h div 8 < bloom_bytes sz"
proof -
  have s: "unat sz + 7 < 2 ^ 64"
    using assms(2) by (simp add: word_le_nat_alt) 
  have "bit_index sz h < unat sz"
    using assms(1) by (simp add: bit_index_def unat_mod unat_gt_0)
  moreover have "bloom_bytes sz = (unat sz + 7) div 8"
    using s by (simp add: bloom_bytes_def unat_div unat_plus_simple [THEN iffD1] no_olen_add_nat unat_word_ariths)
  ultimately show ?thesis by linarith
qed

text \<open>A filter has all bits of a key.\<close>

definition holds_key :: "bloom_filter \<Rightarrow> bytes \<Rightarrow> bool" where
  "holds_key bf key \<longleftrightarrow>
     (\<forall>h \<in> set (Bloom_ComputeHashes (bf_hashes bf) key). GetBitOptimized (bf_array bf) (bit_index (bf_size bf) h))"

lemma Bloom_Add_fields [simp]:
  "bf_size (Bloom_Add bf k) = bf_size bf" "bf_hashes (Bloom_Add bf k) = bf_hashes bf"
  "length (bf_array (Bloom_Add bf k)) = length (bf_array bf)"
  by (simp_all add: Bloom_Add_def)

lemma Bloom_Add_keeps: "holds_key bf k' \<Longrightarrow> holds_key (Bloom_Add bf k) k'"
  by (auto simp: holds_key_def Bloom_Add_def GetBit_set_hashes)

lemma Bloom_Add_holds:
  assumes "bf_size bf \<noteq> 0" "bf_size bf \<le> - 8" "length (bf_array bf) = bloom_bytes (bf_size bf)"
  shows "holds_key (Bloom_Add bf k) k"
  using assms bit_index_room [OF assms(1,2)] by (auto simp: holds_key_def Bloom_Add_def GetBit_set_hashes)

lemma foldl_Add_fields [simp]:
  "bf_size (foldl Bloom_Add bf ks) = bf_size bf" "bf_hashes (foldl Bloom_Add bf ks) = bf_hashes bf"
  "length (bf_array (foldl Bloom_Add bf ks)) = length (bf_array bf)"
  by (induction ks arbitrary: bf) simp_all

lemma foldl_Add_keeps: "holds_key bf k \<Longrightarrow> holds_key (foldl Bloom_Add bf ks) k"
  by (induction ks arbitrary: bf) (simp_all add: Bloom_Add_keeps)

lemma foldl_Add_holds:
  assumes "bf_size bf \<noteq> 0" "bf_size bf \<le> - 8" "length (bf_array bf) = bloom_bytes (bf_size bf)" "k \<in> set ks"
  shows "holds_key (foldl Bloom_Add bf ks) k"
  using assms
proof (induction ks arbitrary: bf)
  case (Cons x ks)
  then show ?case by (cases "k = x") (auto simp: Bloom_Add_holds foldl_Add_keeps)
qed simp

section \<open>The serial form\<close>

lemma sint_of_int32: "- (2 ^ 31) \<le> h \<Longrightarrow> h < 2 ^ 31 \<Longrightarrow> sint (of_int h :: u32) = h"
  by (simp add: signed_of_int signed_take_bit_int_eq_self)

lemma Serialize_parts:
  "Bloom_Serialize bf = PutFixed64 [] (bf_size bf) @ PutFixed32 [] (of_int (bf_hashes bf)) @
     PutFixed64 [] (bf_count bf) @ bf_array bf"
  by (simp add: Bloom_Serialize_def Let_def PutFixed32_append [of "PutFixed64 _ _"]
      PutFixed64_append [of "PutFixed64 _ _ @ _"])

lemma Serialize_fields:
  "length (Bloom_Serialize bf) = 20 + length (bf_array bf)"
  "DecodeFixed64 (Bloom_Serialize bf) = Some (bf_size bf)"
  "DecodeFixed32 (drop 8 (Bloom_Serialize bf)) = Some (of_int (bf_hashes bf))"
  "DecodeFixed64 (drop 12 (Bloom_Serialize bf)) = Some (bf_count bf)"
  "drop 20 (Bloom_Serialize bf) = bf_array bf"
  unfolding Serialize_parts by simp_all

definition bloom_ok :: "bloom_filter \<Rightarrow> bool" where
  "bloom_ok bf \<longleftrightarrow> length (bf_array bf) = bloom_bytes (bf_size bf) \<and>
     - (2 ^ 31) \<le> bf_hashes bf \<and> bf_hashes bf < 2 ^ 31"

lemma Deserialize_Serialize:
  "bloom_ok bf \<Longrightarrow> Bloom_Deserialize bf0 (Bloom_Serialize bf) = (True, bf)"
  by (cases bf) (simp add: Bloom_Deserialize_def Serialize_fields bloom_ok_def sint_of_int32 Let_def)

definition reader_of :: "bloom_filter \<Rightarrow> bloom_reader" where
  "reader_of bf = \<lparr>br_data = Bloom_Serialize bf, br_size = bf_size bf, br_hashes = bf_hashes bf\<rparr>"

lemma Initialize_Serialize: "bloom_ok bf \<Longrightarrow> Reader_Initialize (Bloom_Serialize bf) = Some (reader_of bf)"
  by (simp add: Reader_Initialize_def Serialize_fields bloom_ok_def sint_of_int32 reader_of_def Let_def)

lemma nth_Serialize: "bloom_ok bf \<Longrightarrow> i < length (bf_array bf) \<Longrightarrow> Bloom_Serialize bf ! (20 + i) = bf_array bf ! i"
  using nth_drop [of 20 "Bloom_Serialize bf" i] by (simp add: Serialize_fields)

lemma Reader_GetBit_reader_of:
  "bloom_ok bf \<Longrightarrow> Reader_GetBit (reader_of bf) i = GetBitOptimized (bf_array bf) i"
  using nth_Serialize [of bf "i div 8"]
  by (simp add: Reader_GetBit_def GetBitOptimized_def reader_of_def bloom_ok_def Let_def)

lemma Reader_MayContain_reader_of:
  assumes "bloom_ok bf" "bf_size bf \<noteq> 0"
  shows "Reader_MayContain (reader_of bf) key = Some (Bloom_MayContain bf key)"
proof -
  have "Reader_ComputeHashes (reader_of bf) key = Bloom_ComputeHashes (bf_hashes bf) key"
    by (simp add: Reader_ComputeHashes_def Bloom_ComputeHashes_def reader_of_def Let_def)
  moreover have "Reader_GetBit (reader_of bf) = GetBitOptimized (bf_array bf)"
    using Reader_GetBit_reader_of [OF assms(1)] by auto
  ultimately show ?thesis
    using assms(2) by (simp add: Reader_MayContain_def Bloom_MayContain_def reader_of_def Let_def)
qed

text \<open>What the code relies on of the parameters: at least one bit, no wrap in the rounding up to
  bytes, and a hash count that is an \<open>int\<close>.\<close>

definition bloom_params_ok :: "bloom_params \<Rightarrow> nat \<Rightarrow> bool" where
  "bloom_params_ok p n \<longleftrightarrow> bp_bits p n \<noteq> 0 \<and> bp_bits p n \<le> - 8 \<and> - (2 ^ 31) \<le> bp_hashes p \<and> bp_hashes p < 2 ^ 31"

lemma default_bloom_ok:
  assumes "0 < n" "n < 2 ^ 60"
  shows "bloom_params_ok default_bloom n"
proof -
  have "unat (of_nat (n * 10) :: u64) = n * 10" using assms(2) by (simp add: unat_of_nat take_bit_nat_eq_self del: of_nat_mult)
  then show ?thesis
    using assms by (auto simp: bloom_params_ok_def default_bloom_def word_le_nat_alt unat_eq_0 [symmetric] simp del: of_nat_mult)
qed

definition built_filter :: "bloom_builder \<Rightarrow> bloom_filter" where
  "built_filter bb = foldl Bloom_Add (StandardBloomFilter (bp_bits (bb_params bb) (length (bb_keys bb)))
     (bp_hashes (bb_params bb))) (bb_keys bb)"

lemma built_filter_ok:
  assumes "bloom_params_ok (bb_params bb) (length (bb_keys bb))"
  shows "bloom_ok (built_filter bb)" "bf_size (built_filter bb) \<noteq> 0"
  using assms by (simp_all add: bloom_ok_def built_filter_def StandardBloomFilter_def bloom_params_ok_def)

lemma Bloom_MayContain_built:
  assumes "bloom_params_ok (bb_params bb) (length (bb_keys bb))" "key \<in> set (bb_keys bb)"
  shows "Bloom_MayContain (built_filter bb) key"
  using foldl_Add_holds [of "StandardBloomFilter (bp_bits (bb_params bb) (length (bb_keys bb))) (bp_hashes (bb_params bb))"
      key "bb_keys bb"] assms
  by (auto simp: built_filter_def Bloom_MayContain_def MayContain_loop_iff holds_key_def
      StandardBloomFilter_def bloom_params_ok_def)

section \<open>Properties\<close>

text \<open>A Bloom filter has no false negatives across the disk: what the builder wrote, the reader
  loads, and the reader answers that it may contain every key that was added.\<close>

theorem bloom_no_false_negatives:
  assumes "bloom_params_ok (bb_params bb) (length (bb_keys bb))" "key \<in> set (bb_keys bb)"
  shows "\<exists>br. Reader_Initialize (Builder_Finish bb) = Some br \<and> Reader_MayContain br key = Some True"
proof -
  have "bb_keys bb \<noteq> []" using assms(2) by auto
  then have "Builder_Finish bb = Bloom_Serialize (built_filter bb)"
    by (simp add: Builder_Finish_def built_filter_def Let_def)
  then show ?thesis
    using Initialize_Serialize [OF built_filter_ok(1) [OF assms(1)]]
      Reader_MayContain_reader_of [OF built_filter_ok [OF assms(1)], of key] Bloom_MayContain_built [OF assms]
    by simp
qed

theorem bloom_no_false_negatives_witness:
  "\<exists>br. Reader_Initialize (Builder_Finish (Builder_AddKey (Builder_AddKey (BloomFilterBuilder default_bloom) [1]) [2, 3])) = Some br \<and>
     Reader_MayContain br [1] = Some True"
  by (rule bloom_no_false_negatives)
    (simp_all add: Builder_AddKey_def BloomFilterBuilder_def default_bloom_ok)

text \<open>With less than one bit in total the reader divides by zero: it takes the modulo by the size
  without the test that the standard filter makes.\<close>

theorem bloom_reader_divides_by_zero:
  assumes "bp_bits (bb_params bb) (length (bb_keys bb)) = 0" "0 < bp_hashes (bb_params bb)"
    and "bp_hashes (bb_params bb) < 2 ^ 31" "bb_keys bb \<noteq> []"
  shows "\<exists>br. Reader_Initialize (Builder_Finish bb) = Some br \<and> Reader_MayContain br key = None"
proof -
  have ok: "bloom_ok (built_filter bb)" "bf_size (built_filter bb) = 0" "bf_hashes (built_filter bb) = bp_hashes (bb_params bb)"
    using assms by (simp_all add: bloom_ok_def built_filter_def StandardBloomFilter_def)
  moreover have "Builder_Finish bb = Bloom_Serialize (built_filter bb)"
    using assms(4) by (simp add: Builder_Finish_def built_filter_def Let_def)
  ultimately show ?thesis
    using Initialize_Serialize [OF ok(1)] assms(2)
    by (simp add: Reader_MayContain_def reader_of_def Reader_ComputeHashes_def Let_def)
qed

end
