(* ===== verification/SSTables.thy ===== *)
theory SSTables
  imports BloomFilters Files MemTables WalRecords "HOL-Library.Monad_Syntax"
begin

text \<open>
  SSTable files (include/lrdb/storage/sstable.h, src/storage/sstable.cc): the encodings of the
  metadata, of block headers and of index entries, the writer and the reader. Offsets and
  counters are words of their width and all range tests are computed at that width. The writer
  and the reader name their file by its path; the comparator is a function. The time of creation
  is an argument of \<open>Open\<close>. A crash by division by zero in the Bloom filter is \<open>None\<close>.
  Logging, memory estimates and the error-recovery callbacks are not modelled.
\<close>

section \<open>File names as bytes\<close>

definition bytes_of_string :: "string \<Rightarrow> bytes" where
  "bytes_of_string s = map (\<lambda>c. of_nat (of_char c)) s"

definition string_of_bytes :: "bytes \<Rightarrow> string" where
  "string_of_bytes b = map (\<lambda>x. char_of (unat x)) b"

section \<open>SSTableMeta\<close>

record sst_meta =
  sm_filename :: string
  sm_file_number :: u64
  sm_file_size :: u64
  sm_level :: int
  sm_smallest_key :: bytes
  sm_largest_key :: bytes
  sm_num_entries :: u64
  sm_num_deletions :: u64
  sm_raw_key_size :: u64
  sm_raw_value_size :: u64
  sm_creation_time :: u64
  sm_oldest_key_time :: u64

definition SSTableMeta_new :: sst_meta where
  "SSTableMeta_new = \<lparr>sm_filename = [], sm_file_number = 0, sm_file_size = 0, sm_level = 0,
     sm_smallest_key = [], sm_largest_key = [], sm_num_entries = 0, sm_num_deletions = 0,
     sm_raw_key_size = 0, sm_raw_value_size = 0, sm_creation_time = 0, sm_oldest_key_time = 0\<rparr>"

definition Meta_Encode :: "sst_meta \<Rightarrow> bytes" where
  "Meta_Encode m =
     (let result = PutLengthPrefixedSlice [] (bytes_of_string (sm_filename m));
          result = PutVarint64 result (sm_file_number m);
          result = PutVarint64 result (sm_file_size m);
          result = PutFixed32 result (of_int (sm_level m));
          result = PutLengthPrefixedSlice result (sm_smallest_key m);
          result = PutLengthPrefixedSlice result (sm_largest_key m);
          result = PutVarint64 result (sm_num_entries m);
          result = PutVarint64 result (sm_num_deletions m);
          result = PutVarint64 result (sm_raw_key_size m);
          result = PutVarint64 result (sm_raw_value_size m);
          result = PutVarint64 result (sm_creation_time m)
      in PutVarint64 result (sm_oldest_key_time m))"

definition GetFixed32 :: "bytes \<Rightarrow> (bytes \<times> u32) option" where
  "GetFixed32 input = (if length input < 4 then None else Some (drop 4 input, the (DecodeFixed32 input)))"

text \<open>\<open>Decode\<close>: the new metadata when it returns true.\<close>

definition Meta_Decode :: "bytes \<Rightarrow> sst_meta option" where
  "Meta_Decode input = do {
     (input, filename) \<leftarrow> GetLengthPrefixedSlice input;
     (input, file_number) \<leftarrow> GetVarint64 input;
     (input, file_size) \<leftarrow> GetVarint64 input;
     (input, level) \<leftarrow> GetFixed32 input;
     (input, smallest) \<leftarrow> GetLengthPrefixedSlice input;
     (input, largest) \<leftarrow> GetLengthPrefixedSlice input;
     (input, num_entries) \<leftarrow> GetVarint64 input;
     (input, num_deletions) \<leftarrow> GetVarint64 input;
     (input, raw_key_size) \<leftarrow> GetVarint64 input;
     (input, raw_value_size) \<leftarrow> GetVarint64 input;
     (input, creation_time) \<leftarrow> GetVarint64 input;
     (input, oldest_key_time) \<leftarrow> GetVarint64 input;
     Some \<lparr>sm_filename = string_of_bytes filename, sm_file_number = file_number, sm_file_size = file_size,
       sm_level = sint level, sm_smallest_key = smallest, sm_largest_key = largest,
       sm_num_entries = num_entries, sm_num_deletions = num_deletions, sm_raw_key_size = raw_key_size,
       sm_raw_value_size = raw_value_size, sm_creation_time = creation_time,
       sm_oldest_key_time = oldest_key_time\<rparr> }"

definition KeyInRange :: "(bytes \<Rightarrow> bytes \<Rightarrow> int) \<Rightarrow> sst_meta \<Rightarrow> bytes \<Rightarrow> bool" where
  "KeyInRange cmp m key \<longleftrightarrow>
     (if sm_smallest_key m = [] \<or> sm_largest_key m = [] then True
      else 0 \<le> cmp key (sm_smallest_key m) \<and> cmp key (sm_largest_key m) \<le> 0)"

definition OverlapsWith :: "(bytes \<Rightarrow> bytes \<Rightarrow> int) \<Rightarrow> sst_meta \<Rightarrow> sst_meta \<Rightarrow> bool" where
  "OverlapsWith cmp m other \<longleftrightarrow>
     (if sm_smallest_key m = [] \<or> sm_largest_key m = [] \<or> sm_smallest_key other = [] \<or> sm_largest_key other = []
      then True
      else \<not> (cmp (sm_largest_key m) (sm_smallest_key other) < 0 \<or>
              cmp (sm_largest_key other) (sm_smallest_key m) < 0))"

section \<open>Block headers and index entries\<close>

text \<open>The block type is an eight-bit enumeration that \<open>Decode\<close> casts from 32 bits.\<close>

abbreviation (input) kDataBlock :: byte where "kDataBlock \<equiv> 1"
abbreviation (input) kIndexBlock :: byte where "kIndexBlock \<equiv> 2"
abbreviation (input) kBloomBlock :: byte where "kBloomBlock \<equiv> 3"
abbreviation (input) kMetaBlock :: byte where "kMetaBlock \<equiv> 4"
abbreviation (input) kHeaderSize :: nat where "kHeaderSize \<equiv> 16"

record block_header =
  bh_type :: byte
  bh_size :: u32
  bh_crc32 :: u32
  bh_compression :: u32

definition BlockHeader_Encode :: "block_header \<Rightarrow> bytes" where
  "BlockHeader_Encode h =
     (let result = PutFixed32 [] (ucast (bh_type h));
          result = PutFixed32 result (bh_size h);
          result = PutFixed32 result (bh_crc32 h)
      in PutFixed32 result (bh_compression h))"

definition BlockHeader_Decode :: "bytes \<Rightarrow> block_header option" where
  "BlockHeader_Decode data =
     (if length data < kHeaderSize then None
      else Some \<lparr>bh_type = ucast (the (DecodeFixed32 data)),
                 bh_size = the (DecodeFixed32 (drop 4 data)),
                 bh_crc32 = the (DecodeFixed32 (drop 8 data)),
                 bh_compression = the (DecodeFixed32 (drop 12 data))\<rparr>)"

record index_entry =
  ie_key :: bytes
  ie_block_offset :: u64
  ie_block_size :: u32
  ie_first_key_offset :: u32

definition IndexEntry_Encode :: "index_entry \<Rightarrow> bytes" where
  "IndexEntry_Encode e =
     (let result = PutLengthPrefixedSlice [] (ie_key e);
          result = PutVarint64 result (ie_block_offset e);
          result = PutFixed32 result (ie_block_size e)
      in PutFixed32 result (ie_first_key_offset e))"

definition IndexEntry_Decode :: "bytes \<Rightarrow> index_entry option" where
  "IndexEntry_Decode input = do {
     (input, key) \<leftarrow> GetLengthPrefixedSlice input;
     (input, block_offset) \<leftarrow> GetVarint64 input;
     if length input < 8 then None
     else Some \<lparr>ie_key = key, ie_block_offset = block_offset,
                ie_block_size = the (DecodeFixed32 input),
                ie_first_key_offset = the (DecodeFixed32 (drop 4 input))\<rparr> }"

section \<open>SSTableWriter\<close>

record sst_writer_options =
  wo_block_size :: nat
  wo_enable_bloom_filter :: bool
  wo_bloom :: bloom_params

record sst_writer =
  sw_options :: sst_writer_options
  sw_filename :: string
  sw_opened :: bool
  sw_finished :: bool
  sw_data_buffer :: bytes
  sw_index_entries :: "index_entry list"
  sw_bloom_builder :: "bloom_builder option"
  sw_meta :: sst_meta
  sw_num_entries :: u64
  sw_current_offset :: u64
  sw_last_key :: bytes
  sw_index_block :: "u64 \<times> u32"
  sw_bloom_block :: "u64 \<times> u32"
  sw_meta_block :: "u64 \<times> u32"
  sw_data_bytes_written :: u64
  sw_index_bytes_written :: u64
  sw_bloom_bytes_written :: u64

definition SSTableWriter :: "sst_writer_options \<Rightarrow> sst_writer" where
  "SSTableWriter options = \<lparr>sw_options = options, sw_filename = [], sw_opened = False, sw_finished = False,
     sw_data_buffer = [], sw_index_entries = [], sw_bloom_builder = None, sw_meta = SSTableMeta_new,
     sw_num_entries = 0, sw_current_offset = 0, sw_last_key = [], sw_index_block = (0, 0),
     sw_bloom_block = (0, 0), sw_meta_block = (0, 0), sw_data_bytes_written = 0,
     sw_index_bytes_written = 0, sw_bloom_bytes_written = 0\<rparr>"

definition SstWriter_Open :: "sst_writer \<Rightarrow> string \<Rightarrow> u64 \<Rightarrow> fs \<Rightarrow> status \<times> sst_writer \<times> fs" where
  "SstWriter_Open w filename now fs =
     (if sw_opened w then (InvalidArgument ''SSTable writer already opened'', w, fs)
      else let w = w\<lparr>sw_filename := filename\<rparr>; (s, fs) = Env_NewWritableFile fs filename in
        if \<not> ok s then (s, w, fs)
        else let w = w\<lparr>sw_meta := (sw_meta w)\<lparr>sm_filename := filename, sm_file_number := 0, sm_file_size := 0,
                         sm_level := 0, sm_num_entries := 0, sm_num_deletions := 0, sm_raw_key_size := 0,
                         sm_raw_value_size := 0, sm_creation_time := now, sm_oldest_key_time := 0\<rparr>\<rparr>;
                 w = (if wo_enable_bloom_filter (sw_options w)
                      then w\<lparr>sw_bloom_builder := Some (BloomFilterBuilder (wo_bloom (sw_options w)))\<rparr> else w)
             in (OK, w\<lparr>sw_opened := True, sw_current_offset := 0\<rparr>, fs))"

definition ShouldStartNewBlock :: "sst_writer \<Rightarrow> bool" where
  "ShouldStartNewBlock w \<longleftrightarrow> wo_block_size (sw_options w) \<le> length (sw_data_buffer w)"

definition WriteBlockHeader :: "sst_writer \<Rightarrow> byte \<Rightarrow> bytes \<Rightarrow> fs \<Rightarrow> status \<times> fs" where
  "WriteBlockHeader w type data fs =
     File_Append (sw_filename w)
       (BlockHeader_Encode \<lparr>bh_type = type, bh_size = of_nat (length data), bh_crc32 = CRC32 data, bh_compression = 0\<rparr>) fs"

text \<open>A header and its data: what each kind of block writes.\<close>

definition write_block :: "sst_writer \<Rightarrow> byte \<Rightarrow> bytes \<Rightarrow> fs \<Rightarrow> status \<times> fs" where
  "write_block w type data fs =
     (let (s, fs) = WriteBlockHeader w type data fs
      in if \<not> ok s then (s, fs) else File_Append (sw_filename w) data fs)"

definition block_length :: "bytes \<Rightarrow> 'a::len word" where
  "block_length data = of_nat (kHeaderSize + length data)"

definition WriteDataBlock :: "sst_writer \<Rightarrow> fs \<Rightarrow> status \<times> sst_writer \<times> fs" where
  "WriteDataBlock w fs =
     (if sw_data_buffer w = [] then (OK, w, fs)
      else let (s, fs) = write_block w kDataBlock (sw_data_buffer w) fs in
        if \<not> ok s then (s, w, fs)
        else (OK, w\<lparr>sw_index_entries :=
                      (case sw_index_entries w of [] \<Rightarrow> []
                       | es \<Rightarrow> butlast es @ [(last es)\<lparr>ie_block_size := block_length (sw_data_buffer w)\<rparr>]),
                    sw_data_bytes_written := sw_data_bytes_written w + block_length (sw_data_buffer w),
                    sw_current_offset := sw_current_offset w + block_length (sw_data_buffer w),
                    sw_data_buffer := []\<rparr>, fs))"

definition UpdateMeta :: "sst_meta \<Rightarrow> bytes \<Rightarrow> bytes \<Rightarrow> sst_meta" where
  "UpdateMeta m key value =
     (let m = (case ParseInternalKey key of
                 Some (user_key, sequence, type) \<Rightarrow>
                   (let m = (if sm_smallest_key m = [] then m\<lparr>sm_smallest_key := user_key\<rparr> else m);
                        m = m\<lparr>sm_largest_key := user_key\<rparr>;
                        m = (if type = kDeletion then m\<lparr>sm_num_deletions := sm_num_deletions m + 1\<rparr> else m)
                    in if sm_oldest_key_time m = 0 \<or> sequence < sm_oldest_key_time m
                       then m\<lparr>sm_oldest_key_time := sequence\<rparr> else m)
               | None \<Rightarrow>
                   (let m = (if sm_smallest_key m = [] then m\<lparr>sm_smallest_key := key\<rparr> else m)
                    in m\<lparr>sm_largest_key := key\<rparr>))
      in m\<lparr>sm_raw_key_size := sm_raw_key_size m + of_nat (length key),
           sm_raw_value_size := sm_raw_value_size m + of_nat (length value)\<rparr>)"

text \<open>The part of \<open>Add\<close> after the order test and the block switch.\<close>

definition add_entry :: "sst_writer \<Rightarrow> bytes \<Rightarrow> bytes \<Rightarrow> sst_writer" where
  "add_entry w key value =
     (let w = (if sw_data_buffer w = []
               then w\<lparr>sw_index_entries := sw_index_entries w @
                        [\<lparr>ie_key = key, ie_block_offset = sw_current_offset w, ie_block_size = 0, ie_first_key_offset = 0\<rparr>]\<rparr>
               else w);
          w = w\<lparr>sw_data_buffer := PutLengthPrefixedSlice (PutLengthPrefixedSlice (sw_data_buffer w) key) value\<rparr>;
          w = w\<lparr>sw_bloom_builder := map_option (\<lambda>bb. Builder_AddKey bb
                  (case ParseInternalKey key of Some (user_key, sequence, type) \<Rightarrow> user_key | None \<Rightarrow> key))
                  (sw_bloom_builder w)\<rparr>
      in w\<lparr>sw_meta := UpdateMeta (sw_meta w) key value, sw_last_key := key,
           sw_num_entries := sw_num_entries w + 1\<rparr>)"

definition SstWriter_Add ::
    "(bytes \<Rightarrow> bytes \<Rightarrow> int) \<Rightarrow> sst_writer \<Rightarrow> bytes \<Rightarrow> bytes \<Rightarrow> fs \<Rightarrow> status \<times> sst_writer \<times> fs" where
  "SstWriter_Add cmp w key value fs =
     (if \<not> sw_opened w then (InvalidArgument ''SSTable writer not opened'', w, fs)
      else if sw_finished w then (InvalidArgument ''SSTable writer already finished'', w, fs)
      else if sw_last_key w \<noteq> [] \<and> 0 \<le> cmp (sw_last_key w) key
      then (InvalidArgument ''Keys must be added in ascending order'', w, fs)
      else let (s, w, fs) = (if ShouldStartNewBlock w then WriteDataBlock w fs else (OK, w, fs)) in
        if \<not> ok s then (s, w, fs) else (OK, add_entry w key value, fs))"

definition WriteIndexBlock :: "sst_writer \<Rightarrow> fs \<Rightarrow> status \<times> sst_writer \<times> fs" where
  "WriteIndexBlock w fs =
     (if sw_index_entries w = [] then (OK, w, fs)
      else let index_data = foldl (\<lambda>d e. PutLengthPrefixedSlice d (IndexEntry_Encode e)) [] (sw_index_entries w);
               w = w\<lparr>sw_index_block := (sw_current_offset w, block_length index_data)\<rparr>;
               (s, fs) = write_block w kIndexBlock index_data fs
           in if \<not> ok s then (s, w, fs)
              else (OK, w\<lparr>sw_index_bytes_written := sw_index_bytes_written w + block_length index_data,
                          sw_current_offset := sw_current_offset w + block_length index_data\<rparr>, fs))"

definition WriteBloomFilterBlock :: "sst_writer \<Rightarrow> fs \<Rightarrow> status \<times> sst_writer \<times> fs" where
  "WriteBloomFilterBlock w fs =
     (case sw_bloom_builder w of
        None \<Rightarrow> (OK, w, fs)
      | Some bb \<Rightarrow>
          (let bloom_data = Builder_Finish bb in
           if bloom_data = [] then (OK, w, fs)
           else let w = w\<lparr>sw_bloom_block := (sw_current_offset w, block_length bloom_data)\<rparr>;
                    (s, fs) = write_block w kBloomBlock bloom_data fs
                in if \<not> ok s then (s, w, fs)
                   else (OK, w\<lparr>sw_bloom_bytes_written := sw_bloom_bytes_written w + block_length bloom_data,
                               sw_current_offset := sw_current_offset w + block_length bloom_data\<rparr>, fs)))"

definition WriteMetaBlock :: "sst_writer \<Rightarrow> fs \<Rightarrow> status \<times> sst_writer \<times> fs" where
  "WriteMetaBlock w fs =
     (let meta_data = Meta_Encode (sw_meta w);
          w = w\<lparr>sw_meta_block := (sw_current_offset w, block_length meta_data)\<rparr>;
          (s, fs) = write_block w kMetaBlock meta_data fs
      in if \<not> ok s then (s, w, fs)
         else (OK, w\<lparr>sw_current_offset := sw_current_offset w + block_length meta_data\<rparr>, fs))"

text \<open>\<open>footer.resize(48, 0)\<close> cuts or pads.\<close>

definition sst_footer :: "u64 \<times> u32 \<Rightarrow> u64 \<times> u32 \<Rightarrow> u64 \<times> u32 \<Rightarrow> bytes" where
  "sst_footer meta index bloom =
     (let footer = PutVarint32 (PutVarint64 [] (fst meta)) (snd meta);
          footer = PutVarint32 (PutVarint64 footer (fst index)) (snd index);
          footer = PutVarint32 (PutVarint64 footer (fst bloom)) (snd bloom);
          footer = PutVarint32 (PutVarint32 footer 1) 0x57A7AB1E
      in take 48 footer @ replicate (48 - length footer) 0)"

definition WriteFooter :: "sst_writer \<Rightarrow> fs \<Rightarrow> status \<times> sst_writer \<times> fs" where
  "WriteFooter w fs =
     (let (s, fs) = File_Append (sw_filename w) (sst_footer (sw_meta_block w) (sw_index_block w) (sw_bloom_block w)) fs
      in if \<not> ok s then (s, w, fs) else (OK, w\<lparr>sw_current_offset := sw_current_offset w + 48\<rparr>, fs))"

text \<open>Running the steps of \<open>Finish\<close> until one fails.\<close>

fun run_steps :: "(sst_writer \<Rightarrow> fs \<Rightarrow> status \<times> sst_writer \<times> fs) list \<Rightarrow> sst_writer \<Rightarrow> fs \<Rightarrow> status \<times> sst_writer \<times> fs" where
  "run_steps [] w fs = (OK, w, fs)"
| "run_steps (f # rest) w fs =
     (let (s, w, fs) = f w fs in if \<not> ok s then (s, w, fs) else run_steps rest w fs)"

definition SstWriter_Finish :: "sst_writer \<Rightarrow> fs \<Rightarrow> status \<times> sst_writer \<times> fs" where
  "SstWriter_Finish w fs =
     (if \<not> sw_opened w then (InvalidArgument ''SSTable writer not opened'', w, fs)
      else if sw_finished w then (InvalidArgument ''SSTable writer already finished'', w, fs)
      else let (s, w, fs) = run_steps
             [WriteDataBlock, WriteIndexBlock, WriteBloomFilterBlock, WriteMetaBlock, WriteFooter,
              \<lambda>w fs. let (s, fs) = File_Sync (sw_filename w) fs in (s, w, fs),
              \<lambda>w fs. (File_Close fs, w, fs)] w fs in
        if \<not> ok s then (s, w, fs)
        else (OK, w\<lparr>sw_meta := (sw_meta w)\<lparr>sm_file_size := sw_current_offset w, sm_num_entries := sw_num_entries w\<rparr>,
                    sw_finished := True\<rparr>, fs))"

definition SstWriter_Abandon :: "sst_writer \<Rightarrow> fs \<Rightarrow> status \<times> sst_writer \<times> fs" where
  "SstWriter_Abandon w fs =
     (if \<not> sw_opened w then (OK, w, fs)
      else (OK, w\<lparr>sw_opened := False, sw_finished := True\<rparr>,
            if sw_filename w \<noteq> [] then snd (Env_DeleteFile fs (sw_filename w)) else fs))"

section \<open>SSTableReader\<close>

record sst_reader =
  sr_filename :: string
  sr_meta :: sst_meta
  sr_index :: "index_entry list"
  sr_bloom_filter :: "bloom_reader option"
  sr_opened :: bool
  sr_index_block :: "u64 \<times> u32"
  sr_bloom_block :: "u64 \<times> u32"

definition SSTableReader :: sst_reader where
  "SSTableReader = \<lparr>sr_filename = [], sr_meta = SSTableMeta_new, sr_index = [], sr_bloom_filter = None,
     sr_opened = False, sr_index_block = (0, 0), sr_bloom_block = (0, 0)\<rparr>"

definition VerifyBlockChecksum :: "bytes \<Rightarrow> u32 \<Rightarrow> status" where
  "VerifyBlockChecksum block expected_crc =
     (if CRC32 block \<noteq> expected_crc then Corruption ''Block checksum mismatch'' else OK)"

text \<open>What \<open>ReadMeta\<close>, \<open>ReadIndex\<close> and \<open>ReadBloomFilter\<close> do to load a block: the range
  test, the read, the header, its type, the checksum. The messages name the block.\<close>

definition read_block :: "fs \<Rightarrow> string \<Rightarrow> u64 \<Rightarrow> u64 \<times> u32 \<Rightarrow> byte \<Rightarrow> string \<Rightarrow> string \<Rightarrow> status \<times> bytes" where
  "read_block fs f file_size handle type What what =
     (let (offset, sz) = handle in
      if file_size < offset + ucast sz then (Corruption (What @ '' block extends beyond file''), [])
      else let (s, data) = File_Read fs f offset (unat sz) in
      if \<not> ok s then (s, [])
      else if length data < kHeaderSize then (Corruption (What @ '' block too small''), [])
      else case BlockHeader_Decode (take kHeaderSize data) of
        None \<Rightarrow> (Corruption (''Invalid '' @ what @ '' block header''), [])
      | Some header \<Rightarrow>
          if bh_type header \<noteq> type then (Corruption (''Expected '' @ what @ '' block type''), [])
          else let content = drop kHeaderSize data in (VerifyBlockChecksum content (bh_crc32 header), content))"

definition get_handle :: "bytes \<Rightarrow> (bytes \<times> u64 \<times> u32) option" where
  "get_handle input = do {
     (input, offset) \<leftarrow> GetVarint64 input;
     (input, sz) \<leftarrow> GetVarint32 input;
     Some (input, offset, sz) }"

definition get_two32 :: "bytes \<Rightarrow> (u32 \<times> u32) option" where
  "get_two32 input = do {
     (input, a) \<leftarrow> GetVarint32 input;
     (input, b) \<leftarrow> GetVarint32 input;
     Some (a, b) }"

text \<open>The footer: where the meta, index and Bloom blocks are.\<close>

definition parse_footer :: "bytes \<Rightarrow> status + (u64 \<times> u32) \<times> (u64 \<times> u32) \<times> (u64 \<times> u32)" where
  "parse_footer input =
     (case get_handle input of
        None \<Rightarrow> Inl (Corruption ''Invalid footer: meta block info'')
      | Some (input, meta) \<Rightarrow>
     (case get_handle input of
        None \<Rightarrow> Inl (Corruption ''Invalid footer: index block info'')
      | Some (input, index) \<Rightarrow>
     (case get_handle input of
        None \<Rightarrow> Inl (Corruption ''Invalid footer: bloom block info'')
      | Some (input, bloom) \<Rightarrow>
     (case get_two32 input of
        None \<Rightarrow> Inl (Corruption ''Invalid footer: version/magic'')
      | Some (version, magic) \<Rightarrow>
          if magic \<noteq> 0x57A7AB1E then Inl (Corruption ''Invalid SSTable magic number'')
          else if version \<noteq> 1
          then Inl (NotSupported (''Unsupported SSTable version: '' @ to_string (unat version)))
          else Inr (meta, index, bloom)))))"

definition ReadMeta :: "fs \<Rightarrow> sst_reader \<Rightarrow> status \<times> sst_reader" where
  "ReadMeta fs r =
     (let file_size = sm_file_size (sr_meta r); f = sr_filename r in
      if file_size < 48 then (Corruption ''File too small for footer'', r)
      else let (s, footer_data) = File_Read fs f (file_size - 48) 48 in
      if \<not> ok s then (s, r)
      else case parse_footer footer_data of
        Inl s \<Rightarrow> (s, r)
      | Inr (meta, index, bloom) \<Rightarrow>
          (let (s, meta_content) = read_block fs f file_size meta kMetaBlock ''Meta'' ''meta'' in
           if \<not> ok s then (s, r)
           else case Meta_Decode meta_content of
             None \<Rightarrow> (Corruption ''Failed to decode meta data'', r)
           | Some m \<Rightarrow> (OK, r\<lparr>sr_meta := m\<lparr>sm_filename := f, sm_file_size := file_size\<rparr>,
                             sr_index_block := index, sr_bloom_block := bloom\<rparr>)))"

text \<open>A length-prefixed string takes at least one byte, which ends the parsing loops.\<close>

lemma GetVarint32_loop_shorter:
  "GetVarint32_loop shift q r = Some (rest, v) \<Longrightarrow> length rest < length q"
  by (induction shift q r rule: GetVarint32_loop.induct)
    (auto simp: Let_def split: if_splits)

lemma GetLengthPrefixedSlice_shorter:
  "GetLengthPrefixedSlice input = Some (rest, v) \<Longrightarrow> length rest < length input"
  by (auto simp: GetLengthPrefixedSlice_def GetVarint32_def dest!: GetVarint32_loop_shorter
      split: option.splits if_splits)

text \<open>The loop over the index block; \<open>index\<close> is what it has stored.\<close>

function ReadIndex_loop ::
    "(bytes \<Rightarrow> bytes \<Rightarrow> int) \<Rightarrow> u64 \<Rightarrow> bytes \<Rightarrow> index_entry list \<Rightarrow> status \<times> index_entry list" where
  "ReadIndex_loop cmp file_size input index =
     (if input = [] then (OK, index)
      else case GetLengthPrefixedSlice input of
        None \<Rightarrow> (OK, index)
      | Some (input', entry_data) \<Rightarrow>
          (case IndexEntry_Decode entry_data of
             None \<Rightarrow> (OK, index)
           | Some entry \<Rightarrow>
               if file_size < ie_block_offset entry + ucast (ie_block_size entry)
               then (Corruption ''Index entry points beyond file'', index)
               else if index \<noteq> [] \<and> 0 \<le> cmp (ie_key (last index)) (ie_key entry)
               then (Corruption ''Index keys not in sorted order'', index)
               else ReadIndex_loop cmp file_size input' (index @ [entry])))"
  by pat_completeness auto

termination
  by (relation "measure (\<lambda>(cmp, file_size, input, index). length input)")
    (auto dest: GetLengthPrefixedSlice_shorter)

declare ReadIndex_loop.simps [simp del]

definition user_key_part :: "bytes \<Rightarrow> bytes" where
  "user_key_part internal_key =
     (if length internal_key < 8 then internal_key else take (length internal_key - 8) internal_key)"

definition ReadIndex :: "(bytes \<Rightarrow> bytes \<Rightarrow> int) \<Rightarrow> fs \<Rightarrow> sst_reader \<Rightarrow> status \<times> sst_reader" where
  "ReadIndex cmp fs r =
     (let m = sr_meta r in
      if snd (sr_index_block r) = 0 then (Corruption ''Invalid index block size'', r)
      else let (s, content) = read_block fs (sr_filename r) (sm_file_size m) (sr_index_block r) kIndexBlock ''Index'' ''index'' in
      if \<not> ok s then (s, r)
      else let (s, index) = ReadIndex_loop cmp (sm_file_size m) content []; r = r\<lparr>sr_index := index\<rparr> in
      if \<not> ok s then (s, r)
      else if index = [] then (Corruption ''Empty index block'', r)
      else if sm_smallest_key m \<noteq> [] \<and> sm_largest_key m \<noteq> [] \<and>
              (cmp (user_key_part (ie_key (hd index))) (sm_smallest_key m) \<noteq> 0 \<or>
               0 < cmp (user_key_part (ie_key (last index))) (sm_largest_key m))
      then (Corruption ''Index key range inconsistent with meta data'', r)
      else (OK, r))"

definition ReadBloomFilter :: "fs \<Rightarrow> sst_reader \<Rightarrow> status \<times> sst_reader" where
  "ReadBloomFilter fs r =
     (if snd (sr_bloom_block r) = 0 then (OK, r\<lparr>sr_bloom_filter := None\<rparr>)
      else let (s, content) = read_block fs (sr_filename r) (sm_file_size (sr_meta r)) (sr_bloom_block r) kBloomBlock
             ''Bloom filter'' ''bloom filter'' in
      if \<not> ok s then (s, r)
      else case Reader_Initialize content of
        None \<Rightarrow> (Corruption ''Failed to initialize bloom filter from data'', r)
      | Some br \<Rightarrow> (OK, r\<lparr>sr_bloom_filter := Some br\<rparr>))"

definition SstReader_Open ::
    "(bytes \<Rightarrow> bytes \<Rightarrow> int) \<Rightarrow> fs \<Rightarrow> string \<Rightarrow> sst_reader \<Rightarrow> status \<times> sst_reader" where
  "SstReader_Open cmp fs filename r =
     (let r = r\<lparr>sr_filename := filename\<rparr>; s = Env_NewRandomAccessFile fs filename in
      if \<not> ok s then (s, r)
      else let (s, file_size) = Env_GetFileSize fs filename in
      if \<not> ok s then (s, r)
      else if file_size < kHeaderSize * 2 then (Corruption ''SSTable file too small'', r)
      else let r = r\<lparr>sr_meta := (sr_meta r)\<lparr>sm_file_size := of_nat file_size\<rparr>\<rparr>; (s, r) = ReadMeta fs r in
      if \<not> ok s then (s, r)
      else let (s, r) = ReadIndex cmp fs r in
      if \<not> ok s then (s, r)
      else let (s, r) = ReadBloomFilter fs r in
      if \<not> ok s then (s, r) else (OK, r\<lparr>sr_opened := True\<rparr>))"

definition ReadDataBlock :: "fs \<Rightarrow> sst_reader \<Rightarrow> u64 \<Rightarrow> u32 \<Rightarrow> status \<times> bytes" where
  "ReadDataBlock fs r offset sz =
     (if sz = 0 then (OK, [])
      else if unat sz \<le> kHeaderSize then (Corruption ''Data block too small'', [])
      else let data_size = unat sz - kHeaderSize;
               (s, data) = File_Read fs (sr_filename r) (offset + 16) data_size
           in if \<not> ok s then (s, [])
              else if length data \<noteq> data_size then (IOError ''Short read'', [])
              else (OK, data))"

text \<open>The binary search of \<open>FindIndexEntry\<close>: the last block whose first user key is not greater.\<close>

function FindIndexEntry_loop ::
    "(bytes \<Rightarrow> bytes \<Rightarrow> int) \<Rightarrow> index_entry list \<Rightarrow> bytes \<Rightarrow> int \<Rightarrow> int \<Rightarrow> int \<Rightarrow> int" where
  "FindIndexEntry_loop cmp index key left right result =
     (if left \<le> right
      then let mid = left + (right - left) div 2 in
        if cmp (user_key_part (ie_key (index ! nat mid))) key \<le> 0
        then FindIndexEntry_loop cmp index key (mid + 1) right mid
        else FindIndexEntry_loop cmp index key left (mid - 1) result
      else result)"
  by pat_completeness auto

termination
  by (relation "measure (\<lambda>(cmp, index, key, left, right, result). nat (right + 1 - left))")
    (auto simp: Let_def)

declare FindIndexEntry_loop.simps [simp del]

definition FindIndexEntry :: "(bytes \<Rightarrow> bytes \<Rightarrow> int) \<Rightarrow> index_entry list \<Rightarrow> bytes \<Rightarrow> int" where
  "FindIndexEntry cmp index key =
     (if index = [] then -1 else FindIndexEntry_loop cmp index key 0 (int (length index) - 1) (-1))"

text \<open>
  The loop of \<open>Get\<close> over a data block. \<open>best\<close> is the best version so far: its sequence
  number, its value and whether it is a deletion.
\<close>

function SstReader_Get_loop ::
    "(bytes \<Rightarrow> bytes \<Rightarrow> int) \<Rightarrow> bytes \<Rightarrow> u64 \<Rightarrow> bytes \<Rightarrow> (u64 \<times> bytes \<times> bool) option
     \<Rightarrow> status \<times> (u64 \<times> bytes \<times> bool) option" where
  "SstReader_Get_loop cmp key snapshot input best =
     (if input = [] then (OK, best)
      else case GetLengthPrefixedSlice input of
        None \<Rightarrow> (Corruption ''Failed to parse key in data block'', best)
      | Some (input1, stored_internal_key) \<Rightarrow>
     (case GetLengthPrefixedSlice input1 of
        None \<Rightarrow> (Corruption ''Failed to parse value in data block'', best)
      | Some (input2, stored_value) \<Rightarrow>
     (case ParseInternalKey stored_internal_key of
        None \<Rightarrow> SstReader_Get_loop cmp key snapshot input2 best
      | Some (user_key, sequence, type) \<Rightarrow>
          (let c = cmp user_key key in
           if c = 0
           then SstReader_Get_loop cmp key snapshot input2
                  (if (snapshot = 0 \<or> sequence \<le> snapshot) \<and>
                      (case best of Some (best_sequence, _) \<Rightarrow> best_sequence | None \<Rightarrow> 0) \<le> sequence
                   then Some (sequence, stored_value, type = kDeletion) else best)
           else if 0 < c then (OK, best)
           else SstReader_Get_loop cmp key snapshot input2 best))))"
  by pat_completeness auto

termination
  by (relation "measure (\<lambda>(cmp, key, snapshot, input, best). length input)")
    (auto dest!: GetLengthPrefixedSlice_shorter)

declare SstReader_Get_loop.simps [simp del]

definition SstReader_answer :: "(u64 \<times> bytes \<times> bool) option \<Rightarrow> status \<times> bytes option" where
  "SstReader_answer best =
     (case best of
        None \<Rightarrow> (OK, None)
      | Some (_, best_value, best_is_delete) \<Rightarrow>
          if best_is_delete then (Deleted ''Key was deleted'', None) else (OK, Some best_value))"

text \<open>\<open>Get\<close>: the status and the value found, if any. \<open>None\<close> is the Bloom filter's crash.\<close>

definition bloom_allows :: "sst_reader \<Rightarrow> bytes \<Rightarrow> bool option" where
  "bloom_allows r key = (case sr_bloom_filter r of None \<Rightarrow> Some True | Some br \<Rightarrow> Reader_MayContain br key)"

definition SstReader_Get ::
    "(bytes \<Rightarrow> bytes \<Rightarrow> int) \<Rightarrow> fs \<Rightarrow> sst_reader \<Rightarrow> bytes \<Rightarrow> u64 \<Rightarrow> (status \<times> bytes option) option" where
  "SstReader_Get cmp fs r key snapshot =
     (if \<not> sr_opened r then Some (InvalidArgument ''SSTable not opened'', None)
      else if \<not> KeyInRange cmp (sr_meta r) key then Some (OK, None)
      else do {
        allowed \<leftarrow> bloom_allows r key;
        if \<not> allowed then Some (OK, None)
        else let block_index = FindIndexEntry cmp (sr_index r) key in
        if block_index < 0 then Some (OK, None)
        else let entry = sr_index r ! nat block_index;
                 (s, block_data) = ReadDataBlock fs r (ie_block_offset entry) (ie_block_size entry) in
        if \<not> ok s then Some (s, None)
        else let (s, best) = SstReader_Get_loop cmp key snapshot block_data None in
        if \<not> ok s then Some (s, None) else Some (SstReader_answer best) })"

definition SstReader_MayContainKey :: "(bytes \<Rightarrow> bytes \<Rightarrow> int) \<Rightarrow> sst_reader \<Rightarrow> bytes \<Rightarrow> bool option" where
  "SstReader_MayContainKey cmp r key =
     (if \<not> sr_opened r then Some False
      else if \<not> KeyInRange cmp (sr_meta r) key then Some False
      else bloom_allows r key)"

text \<open>\<open>VerifyChecksum\<close>, over the blocks of the index.\<close>

fun VerifyChecksum_loop :: "fs \<Rightarrow> sst_reader \<Rightarrow> index_entry list \<Rightarrow> status" where
  "VerifyChecksum_loop fs r [] = OK"
| "VerifyChecksum_loop fs r (entry # rest) =
     (let (s, block_data) = ReadDataBlock fs r (ie_block_offset entry) (ie_block_size entry) in
      if \<not> ok s then s
      else if unat (ie_block_size entry) < kHeaderSize then Corruption ''Block too small''
      else let (s, header_slice) = File_Read fs (sr_filename r) (ie_block_offset entry) kHeaderSize in
      if \<not> ok s then s
      else case BlockHeader_Decode header_slice of
        None \<Rightarrow> Corruption ''Failed to decode block header''
      | Some header \<Rightarrow>
          if CRC32 block_data \<noteq> bh_crc32 header then Corruption ''Block checksum mismatch''
          else VerifyChecksum_loop fs r rest)"

definition SstReader_VerifyChecksum :: "fs \<Rightarrow> sst_reader \<Rightarrow> status" where
  "SstReader_VerifyChecksum fs r =
     (if \<not> sr_opened r then InvalidArgument ''SSTable not opened'' else VerifyChecksum_loop fs r (sr_index r))"

definition SstReader_PrefetchRange ::
    "(bytes \<Rightarrow> bytes \<Rightarrow> int) \<Rightarrow> fs \<Rightarrow> sst_reader \<Rightarrow> bytes \<Rightarrow> bytes \<Rightarrow> status" where
  "SstReader_PrefetchRange cmp fs r begin_key end_key =
     (if \<not> sr_opened r then InvalidArgument ''SSTable not opened''
      else foldl (\<lambda>s entry.
             if ok s \<and> 0 \<le> cmp (ie_key entry) begin_key \<and> cmp (ie_key entry) end_key \<le> 0
             then fst (ReadDataBlock fs r (ie_block_offset entry) (ie_block_size entry)) else s) OK (sr_index r))"

end
