(* ===== verification/SSTableImages.thy ===== *)
theory SSTableImages
  imports SSTables
begin

text \<open>
  The layout of an SSTable file as a function of its blocks, and the proofs that the writer
  produces exactly this layout, durably, and that the reader opens it: the encodings parse
  back, the writer's state after any sequence of \<open>Add\<close>, the image \<open>Finish\<close> leaves on disk,
  and the reader's state after \<open>Open\<close>. The image is below 4 GB, the width of the block sizes.
\<close>

section \<open>The encodings parse back\<close>

lemma string_of_bytes_of_string [simp]: "string_of_bytes (bytes_of_string s) = s"
proof -
  have "char_of (unat (of_nat (of_char c) :: byte)) = c" for c :: char
  proof -
    have "(of_char c :: nat) < 2 ^ 8" using nat_of_char_less_256 [of c] by simp
    then have "unat (of_nat (of_char c) :: byte) = of_char c"
      by (simp add: unat_of_nat take_bit_nat_eq_self)
    then show ?thesis by simp
  qed
  then show ?thesis by (simp add: bytes_of_string_def string_of_bytes_def comp_def)
qed

lemma length_bytes_of_string [simp]: "length (bytes_of_string s) = length s"
  by (simp add: bytes_of_string_def)

lemma IOError2_not_OK [simp]: "\<not> ok (IOError2 m d)" "IOError2 m d \<noteq> OK"
  by (simp_all add: IOError2_def ok_def mk_status_def OK_def)

lemma put_normal:
  "NO_MATCH [] dst \<Longrightarrow> PutVarint64 dst v = dst @ PutVarint64 [] v"
  "NO_MATCH [] dst \<Longrightarrow> PutVarint32 dst u = dst @ PutVarint32 [] u"
  "NO_MATCH [] dst \<Longrightarrow> PutFixed32 dst u = dst @ PutFixed32 [] u"
  "NO_MATCH [] dst \<Longrightarrow> PutFixed64 dst v = dst @ PutFixed64 [] v"
  "NO_MATCH [] dst \<Longrightarrow> PutLengthPrefixedSlice dst s = dst @ PutLengthPrefixedSlice [] s"
  by (simp_all add: PutVarint64_def PutVarint32_def PutFixed32_def PutFixed64_def PutLengthPrefixedSlice_def)

lemma get_put:
  "GetVarint64 (PutVarint64 [] v @ rest) = Some (rest, v)"
  "GetVarint32 (PutVarint32 [] u @ rest) = Some (rest, u)"
  "GetFixed32 (PutFixed32 [] u @ rest) = Some (rest, u)"
  "length s < 2 ^ 32 \<Longrightarrow> GetLengthPrefixedSlice (PutLengthPrefixedSlice [] s @ rest) = Some (rest, s)"
  using GetVarint64_EncodeVarint64 [of v rest] GetVarint32_EncodeVarint32 [of u rest]
  by (simp_all add: PutVarint64_def PutVarint32_def GetFixed32_def GetLengthPrefixedSlice_Put)

lemmas get_put_last = get_put [where rest = "[]", simplified append_Nil2]

lemma BlockHeader_Decode_Encode [simp]: "BlockHeader_Decode (BlockHeader_Encode h) = Some h"
proof -
  have "ucast (ucast (bh_type h) :: u32) = bh_type h"
    by (rule bit_word_eqI) (auto simp: bit_simps dest: bit_imp_le_length)
  then show ?thesis
    by (simp add: BlockHeader_Decode_def BlockHeader_Encode_def Let_def put_normal
        DecodeFixed32_Put [where rest = "[]", simplified])
qed

lemma length_BlockHeader_Encode [simp]: "length (BlockHeader_Encode h) = 16"
  by (simp add: BlockHeader_Encode_def Let_def)

lemma IndexEntry_Decode_Encode:
  "length (ie_key e) < 2 ^ 32 \<Longrightarrow> IndexEntry_Decode (IndexEntry_Encode e) = Some e"
  by (simp add: IndexEntry_Decode_def IndexEntry_Encode_def Let_def put_normal get_put
      DecodeFixed32_Put [where rest = "[]", simplified])

definition meta_fits :: "sst_meta \<Rightarrow> bool" where
  "meta_fits m \<longleftrightarrow> length (sm_filename m) < 2 ^ 32 \<and> length (sm_smallest_key m) < 2 ^ 32 \<and>
     length (sm_largest_key m) < 2 ^ 32 \<and> - (2 ^ 31) \<le> sm_level m \<and> sm_level m < 2 ^ 31"

lemma Meta_Decode_Encode: "meta_fits m \<Longrightarrow> Meta_Decode (Meta_Encode m) = Some m"
  by (simp add: Meta_Decode_def Meta_Encode_def meta_fits_def Let_def put_normal get_put get_put_last sint_of_int32)

section \<open>What the writer lays out\<close>

text \<open>
  The layout of a file, as a function of its blocks: each block is a list of entries (internal
  key and value). The index describes the blocks one after the other.
\<close>

definition encode_entries :: "(bytes \<times> bytes) list \<Rightarrow> bytes" where
  "encode_entries es = concat (map (\<lambda>(k, v). PutLengthPrefixedSlice [] k @ PutLengthPrefixedSlice [] v) es)"

definition block_file :: "byte \<Rightarrow> bytes \<Rightarrow> bytes" where
  "block_file type data =
     BlockHeader_Encode \<lparr>bh_type = type, bh_size = of_nat (length data), bh_crc32 = CRC32 data, bh_compression = 0\<rparr> @ data"

definition data_part :: "(bytes \<times> bytes) list list \<Rightarrow> bytes" where
  "data_part gs = concat (map (\<lambda>g. block_file kDataBlock (encode_entries g)) gs)"

fun index_of :: "u64 \<Rightarrow> (bytes \<times> bytes) list list \<Rightarrow> index_entry list" where
  "index_of off [] = []"
| "index_of off (g # gs) =
     \<lparr>ie_key = fst (hd g), ie_block_offset = off, ie_block_size = block_length (encode_entries g), ie_first_key_offset = 0\<rparr>
     # index_of (off + block_length (encode_entries g)) gs"

definition index_data :: "(bytes \<times> bytes) list list \<Rightarrow> bytes" where
  "index_data gs = concat (map (\<lambda>e. PutLengthPrefixedSlice [] (IndexEntry_Encode e)) (index_of 0 gs))"

definition optional_block :: "byte \<Rightarrow> bytes \<Rightarrow> bytes" where
  "optional_block type data = (if data = [] then [] else block_file type data)"

definition index_handle :: "(bytes \<times> bytes) list list \<Rightarrow> u64 \<times> u32" where
  "index_handle gs = (of_nat (length (data_part gs)), block_length (index_data gs))"

definition bloom_handle :: "(bytes \<times> bytes) list list \<Rightarrow> bytes \<Rightarrow> u64 \<times> u32" where
  "bloom_handle gs bl =
     (if bl = [] then (0, 0) else (of_nat (length (data_part gs @ block_file kIndexBlock (index_data gs))), block_length bl))"

definition meta_handle :: "(bytes \<times> bytes) list list \<Rightarrow> bytes \<Rightarrow> sst_meta \<Rightarrow> u64 \<times> u32" where
  "meta_handle gs bl m =
     (of_nat (length (data_part gs @ block_file kIndexBlock (index_data gs) @ optional_block kBloomBlock bl)),
      block_length (Meta_Encode m))"

definition sst_image :: "(bytes \<times> bytes) list list \<Rightarrow> bytes \<Rightarrow> sst_meta \<Rightarrow> bytes" where
  "sst_image gs bl m =
     data_part gs @ block_file kIndexBlock (index_data gs) @ optional_block kBloomBlock bl @
     block_file kMetaBlock (Meta_Encode m) @ sst_footer (meta_handle gs bl m) (index_handle gs) (bloom_handle gs bl)"

text \<open>The blocks a writer makes of entries added one by one: the closed ones and the open one.\<close>

definition group_add :: "nat \<Rightarrow> (bytes \<times> bytes) list list \<times> (bytes \<times> bytes) list \<Rightarrow> bytes \<times> bytes
    \<Rightarrow> (bytes \<times> bytes) list list \<times> (bytes \<times> bytes) list" where
  "group_add block_size st e =
     (let (gs, g) = st in
      if g \<noteq> [] \<and> block_size \<le> length (encode_entries g) then (gs @ [g], [e]) else (gs, g @ [e]))"

definition group_entries :: "nat \<Rightarrow> (bytes \<times> bytes) list \<Rightarrow> (bytes \<times> bytes) list list" where
  "group_entries block_size es = (let (gs, g) = foldl (group_add block_size) ([], []) es in if g = [] then gs else gs @ [g])"

lemma PutLPS_Nil: "PutLengthPrefixedSlice [] s \<noteq> []"
proof -
  have "EncodeVarint32 v \<noteq> []" for v by (simp add: EncodeVarint32_eq_64 EncodeVarint64.simps [of "ucast v"])
  then show ?thesis by (simp add: PutLengthPrefixedSlice_def PutVarint32_def)
qed

lemma encode_entries_simps [simp]:
  "encode_entries [] = []"
  "encode_entries (e # es) = PutLengthPrefixedSlice [] (fst e) @ PutLengthPrefixedSlice [] (snd e) @ encode_entries es"
  "encode_entries (es @ es') = encode_entries es @ encode_entries es'"
  by (simp_all add: encode_entries_def split: prod.splits)

lemma encode_entries_Nil [simp]: "encode_entries g = [] \<longleftrightarrow> g = []"
  by (cases g) (simp_all add: PutLPS_Nil)

lemma length_block_file [simp]: "length (block_file t d) = 16 + length d"
  by (simp add: block_file_def)

lemma data_part_simps [simp]:
  "data_part [] = []" "data_part (g # gs) = block_file kDataBlock (encode_entries g) @ data_part gs"
  "data_part (gs @ gs') = data_part gs @ data_part gs'"
  by (simp_all add: data_part_def)

lemma index_of_append [simp]:
  "index_of off (gs @ gs') = index_of off gs @ index_of (off + of_nat (length (data_part gs))) gs'"
  by (induction gs arbitrary: off) (simp_all add: block_length_def ac_simps)

lemma index_of_Nil [simp]: "index_of off gs = [] \<longleftrightarrow> gs = []"
  by (cases gs) simp_all

definition bloom_key :: "bytes \<Rightarrow> bytes" where
  "bloom_key key = (case ParseInternalKey key of Some (user_key, sequence, type) \<Rightarrow> user_key | None \<Rightarrow> key)"

definition meta_add :: "sst_meta \<Rightarrow> (bytes \<times> bytes) list \<Rightarrow> sst_meta" where
  "meta_add m es = foldl (\<lambda>m (k, v). UpdateMeta m k v) m es"

text \<open>Only the file \<open>f\<close> changes.\<close>

definition touches :: "string \<Rightarrow> fs \<Rightarrow> fs \<Rightarrow> bool" where
  "touches f fs fs' \<longleftrightarrow> same_os fs fs' \<and> (\<forall>h. h \<noteq> f \<longrightarrow> map_of (fs_files fs') h = map_of (fs_files fs) h)"

lemma touches_refl [simp]: "touches f fs fs"
  by (simp add: touches_def)

lemma touches_trans [trans]: "touches f a b \<Longrightarrow> touches f b c \<Longrightarrow> touches f a c"
  by (auto simp: touches_def dest: same_os_trans)

lemma touches_ops [simp]: "touches f fs (fs_write fs f d)" "touches f fs (fs_fsync fs f)"
  by (simp_all add: touches_def)

text \<open>The state of a writer that was opened with \<open>w0\<close>'s options and has taken the entries \<open>es\<close>.\<close>

definition writer_at :: "sst_writer \<Rightarrow> fs \<Rightarrow> sst_writer_options \<Rightarrow> string \<Rightarrow> u64
    \<Rightarrow> (bytes \<times> bytes) list list \<Rightarrow> (bytes \<times> bytes) list \<Rightarrow> bool" where
  "writer_at w fs opts f now gs g \<longleftrightarrow>
     sw_options w = opts \<and> sw_filename w = f \<and> sw_opened w \<and> \<not> sw_finished w \<and>
     map_of (fs_files fs) f = Some (data_part gs) \<and> [] \<notin> set gs \<and>
     sw_data_buffer w = encode_entries g \<and>
     sw_index_entries w = index_of 0 gs @ (if g = [] then [] else
       [\<lparr>ie_key = fst (hd g), ie_block_offset = of_nat (length (data_part gs)), ie_block_size = 0, ie_first_key_offset = 0\<rparr>]) \<and>
     sw_current_offset w = of_nat (length (data_part gs)) \<and>
     sw_last_key w = (if concat gs @ g = [] then [] else fst (last (concat gs @ g))) \<and>
     sw_bloom_builder w = (if wo_enable_bloom_filter opts
       then Some \<lparr>bb_params = wo_bloom opts, bb_keys = map (bloom_key \<circ> fst) (concat gs @ g)\<rparr> else None) \<and>
     sw_meta w = meta_add (SSTableMeta_new\<lparr>sm_filename := f, sm_creation_time := now\<rparr>) (concat gs @ g) \<and>
     sw_num_entries w = of_nat (length (concat gs @ g)) \<and>
     sw_index_block w = (0, 0) \<and> sw_bloom_block w = (0, 0) \<and> sw_meta_block w = (0, 0)"

lemma File_Append_OK:
  assumes "File_Append f d fs = (s, fs')" "ok s"
  shows "map_of (fs_files fs) f = Some x \<Longrightarrow> map_of (fs_files fs') f = Some (x @ d)" "touches f fs fs'"
  using assms by (auto simp: File_Append_def fs_data_def split: if_splits)

lemma write_block_OK:
  assumes "write_block w t d fs = (s, fs')" "ok s"
  shows "map_of (fs_files fs) (sw_filename w) = Some x \<Longrightarrow> map_of (fs_files fs') (sw_filename w) = Some (x @ block_file t d)"
    "touches (sw_filename w) fs fs'"
proof -
  obtain s1 fs1 where h: "WriteBlockHeader w t d fs = (s1, fs1)" by fastforce
  with assms have 1: "ok s1" "File_Append (sw_filename w) d fs1 = (s, fs')"
    by (auto simp: write_block_def Let_def split: if_splits)
  note a = File_Append_OK [OF h [unfolded WriteBlockHeader_def] 1(1)] and b = File_Append_OK [OF 1(2) assms(2)]
  show "map_of (fs_files fs) (sw_filename w) = Some x \<Longrightarrow> map_of (fs_files fs') (sw_filename w) = Some (x @ block_file t d)"
    using a b by (simp add: block_file_def)
  show "touches (sw_filename w) fs fs'" using touches_trans a(2) b(2) by blast
qed

lemma Open_writer_at:
  assumes "SstWriter_Open (SSTableWriter opts) f now fs = (s, w, fs')" "ok s"
  shows "writer_at w fs' opts f now [] []" "touches f fs fs'"
  using assms by (auto simp: SstWriter_Open_def SSTableWriter_def Env_NewWritableFile_def writer_at_def
      meta_add_def SSTableMeta_new_def BloomFilterBuilder_def Let_def split: if_splits)

lemma WriteDataBlock_at:
  assumes "writer_at w fs opts f now gs g" "g \<noteq> []" "WriteDataBlock w fs = (s, w', fs')" "ok s"
  shows "writer_at w' fs' opts f now (gs @ [g]) []" "touches f fs fs'"
proof -
  let ?d = "sw_data_buffer w"
  have f: "sw_filename w = f" and d: "?d = encode_entries g" "?d \<noteq> []"
    and dat: "map_of (fs_files fs) f = Some (data_part gs)"
    using assms(1,2) by (simp_all add: writer_at_def)
  obtain s1 fs1 where h: "write_block w kDataBlock ?d fs = (s1, fs1)" by fastforce
  with assms(3,4) d have 1: "ok s1" "fs' = fs1" and w': "w' = w\<lparr>sw_index_entries :=
                      (case sw_index_entries w of [] \<Rightarrow> []
                       | es \<Rightarrow> butlast es @ [(last es)\<lparr>ie_block_size := block_length ?d\<rparr>]),
                    sw_data_bytes_written := sw_data_bytes_written w + block_length ?d,
                    sw_current_offset := sw_current_offset w + block_length ?d,
                    sw_data_buffer := []\<rparr>"
    by (auto simp: WriteDataBlock_def Let_def split: if_splits)
  note b = write_block_OK [OF h 1(1), unfolded f]
  show "touches f fs fs'" using b(2) 1 by simp
  have i: "(case sw_index_entries w of [] \<Rightarrow> []
                       | es \<Rightarrow> butlast es @ [(last es)\<lparr>ie_block_size := block_length ?d\<rparr>]) = index_of 0 (gs @ [g])"
  proof -
    have "sw_index_entries w = index_of 0 gs @
        [\<lparr>ie_key = fst (hd g), ie_block_offset = of_nat (length (data_part gs)), ie_block_size = 0, ie_first_key_offset = 0\<rparr>]"
      using assms(1,2) by (simp add: writer_at_def)
    then show ?thesis by (cases "index_of 0 gs") (simp_all add: d(1))
  qed
  show "writer_at w' fs' opts f now (gs @ [g]) []"
    using assms(1,2) b(1) [OF dat] unfolding w' i
    by (auto simp: writer_at_def 1(2) d block_length_def)
qed

lemma Add_at:
  assumes "writer_at w fs opts f now gs g" "SstWriter_Add cmp w k v fs = (s, w', fs')" "ok s"
    and "(gs', g') = group_add (wo_block_size opts) (gs, g) (k, v)"
  shows "writer_at w' fs' opts f now gs' g'" "touches f fs fs'"
    and "concat gs @ g = [] \<or> fst (last (concat gs @ g)) = [] \<or> cmp (fst (last (concat gs @ g))) k < 0"
proof -
  have st: "sw_opened w" "\<not> sw_finished w" "sw_last_key w = (if concat gs @ g = [] then [] else fst (last (concat gs @ g)))"
    using assms(1) by (simp_all add: writer_at_def)
  have o: "\<not> (sw_last_key w \<noteq> [] \<and> 0 \<le> cmp (sw_last_key w) k)"
    using assms(2,3) st(1,2) by (auto simp: SstWriter_Add_def)
  then show "concat gs @ g = [] \<or> fst (last (concat gs @ g)) = [] \<or> cmp (fst (last (concat gs @ g))) k < 0"
    unfolding st(3) by (auto split: if_splits)
  obtain s1 w1 fs1 where b: "(if ShouldStartNewBlock w then WriteDataBlock w fs else (OK, w, fs)) = (s1, w1, fs1)"
    by (cases "if ShouldStartNewBlock w then WriteDataBlock w fs else (OK, w, fs)") auto
  have 1: "ok s1" "w' = add_entry w1 k v" "fs' = fs1"
    using assms(2,3) st(1,2) o b by (auto simp: SstWriter_Add_def Let_def split: if_split_asm)
  let ?new = "g \<noteq> [] \<and> wo_block_size opts \<le> length (encode_entries g)"
  define h where "h = (if ?new then ([] :: (bytes \<times> bytes) list) else g)"
  have w1: "writer_at w1 fs1 opts f now gs' h \<and> touches f fs fs1 \<and> g' = h @ [(k, v)]"
  proof (cases ?new)
    case True
    then have "ShouldStartNewBlock w" using assms(1) by (simp add: ShouldStartNewBlock_def writer_at_def)
    then show ?thesis using True b WriteDataBlock_at [OF assms(1), of s1 w1 fs1] 1(1) assms(4)
      by (simp add: group_add_def h_def)
  next
    case False
    then have "(s1, w1, fs1) = (OK, w, fs)"
      using b assms(1) by (auto simp: ShouldStartNewBlock_def writer_at_def WriteDataBlock_def split: if_splits)
    then show ?thesis using False assms(1,4) by (simp add: group_add_def h_def split: if_splits)
  qed
  then show "touches f fs fs'" using 1(3) by blast
  show "writer_at w' fs' opts f now gs' g'"
    using w1 unfolding 1(2,3)
    by (cases "h = []") (auto simp: writer_at_def add_entry_def meta_add_def bloom_key_def put_normal Builder_AddKey_def Let_def)
qed

text \<open>The loop of \<open>FlushMemTable\<close> that adds the entries in order.\<close>

fun Add_loop ::
    "(bytes \<Rightarrow> bytes \<Rightarrow> int) \<Rightarrow> sst_writer \<Rightarrow> (bytes \<times> bytes) list \<Rightarrow> fs \<Rightarrow> status \<times> sst_writer \<times> fs" where
  "Add_loop cmp w [] fs = (OK, w, fs)"
| "Add_loop cmp w (e # es) fs =
     (let (s, w, fs) = SstWriter_Add cmp w (fst e) (snd e) fs in
      if \<not> ok s then (s, w, fs) else Add_loop cmp w es fs)"

lemma group_add_concat:
  "group_add bs (gs, g) e = (gs', g') \<Longrightarrow> concat gs' @ g' = concat gs @ g @ [e] \<and> g' \<noteq> []"
  by (auto simp: group_add_def split: if_splits)

lemma successively_snoc: "successively P xs \<Longrightarrow> xs = [] \<or> P (last xs) x \<Longrightarrow> successively P (xs @ [x])"
  by (auto simp: successively_append_iff)

lemma Add_loop_at:
  assumes "writer_at w fs opts f now gs g" "Add_loop cmp w es fs = (s, w', fs')" "ok s"
    and "(gs', g') = foldl (group_add (wo_block_size opts)) (gs, g) es"
    and "successively (\<lambda>a b. fst a = [] \<or> cmp (fst a) (fst b) < 0) (concat gs @ g)"
  shows "writer_at w' fs' opts f now gs' g' \<and> touches f fs fs' \<and> concat gs' @ g' = concat gs @ g @ es \<and>
    successively (\<lambda>a b. fst a = [] \<or> cmp (fst a) (fst b) < 0) (concat gs @ g @ es)"
  using assms
proof (induction es arbitrary: w fs gs g)
  case (Cons e es)
  obtain s1 w1 fs1 where a: "SstWriter_Add cmp w (fst e) (snd e) fs = (s1, w1, fs1)"
    by (cases "SstWriter_Add cmp w (fst e) (snd e) fs")
  with Cons.prems(2,3) have 1: "ok s1" "Add_loop cmp w1 es fs1 = (s, w', fs')"
    by (auto simp: Let_def split: if_splits)
  obtain gs1 g1 where g: "group_add (wo_block_size opts) (gs, g) e = (gs1, g1)" by fastforce
  note A = Add_at [OF Cons.prems(1) a 1(1), of gs1 g1] and C = group_add_concat [OF g]
  have "successively (\<lambda>a b. fst a = [] \<or> cmp (fst a) (fst b) < 0) ((concat gs @ g) @ [e])"
    using Cons.prems(5) A(3) g by (intro successively_snoc) auto
  then have "writer_at w' fs' opts f now gs' g' \<and> touches f fs1 fs' \<and> concat gs' @ g' = concat gs1 @ g1 @ es \<and>
    successively (\<lambda>a b. fst a = [] \<or> cmp (fst a) (fst b) < 0) (concat gs1 @ g1 @ es)"
    using Cons.IH [OF A(1) 1(2) Cons.prems(3), of] g Cons.prems(4) C by simp
  moreover have "concat gs1 @ g1 @ es = concat gs @ g @ e # es"
    using arg_cong [OF conjunct1 [OF C], of "\<lambda>x. x @ es"] by simp
  moreover have "touches f fs fs1" using A(2) g by simp
  ultimately show ?case using touches_trans by metis
qed simp

definition bloom_data :: "sst_writer_options \<Rightarrow> (bytes \<times> bytes) list \<Rightarrow> bytes" where
  "bloom_data opts es =
     (if wo_enable_bloom_filter opts
      then Builder_Finish \<lparr>bb_params = wo_bloom opts, bb_keys = map (bloom_key \<circ> fst) es\<rparr> else [])"

definition written_meta :: "string \<Rightarrow> u64 \<Rightarrow> (bytes \<times> bytes) list \<Rightarrow> sst_meta" where
  "written_meta f now es = meta_add (SSTableMeta_new\<lparr>sm_filename := f, sm_creation_time := now\<rparr>) es"

lemma index_foldl:
  "foldl (\<lambda>d e. PutLengthPrefixedSlice d (IndexEntry_Encode e)) x es =
     x @ concat (map (\<lambda>e. PutLengthPrefixedSlice [] (IndexEntry_Encode e)) es)"
  by (induction es arbitrary: x) (simp_all add: put_normal)

lemma block_length_offset: "of_nat n + block_length d = of_nat (n + length (block_file t d))"
  by (simp add: block_length_def)

definition closed_groups :: "(bytes \<times> bytes) list list \<Rightarrow> (bytes \<times> bytes) list \<Rightarrow> (bytes \<times> bytes) list list" where
  "closed_groups gs g = (if g = [] then gs else gs @ [g])"

lemma closed_groups_concat [simp]: "concat (closed_groups gs g) = concat gs @ g"
  by (simp add: closed_groups_def)

lemma run_steps_OK:
  assumes "run_steps (f # fl) w fs = (s, w', fs')" "ok s"
  obtains w1 fs1 s1 where "f w fs = (s1, w1, fs1)" "ok s1" "run_steps fl w1 fs1 = (s, w', fs')"
  using assms by (cases "f w fs") (auto split: if_splits)

lemma Finish_at:
  assumes at: "writer_at w fs opts f now gs g" and ne: "concat gs @ g \<noteq> []"
    and fin: "SstWriter_Finish w fs = (s, w', fs')" "ok s"
  defines "G \<equiv> closed_groups gs g" and "m \<equiv> written_meta f now (concat gs @ g)" and "bl \<equiv> bloom_data opts (concat gs @ g)"
  shows "map_of (fs_files fs') f = Some (sst_image G bl m)" "map_of (fs_disk fs') f = Some (sst_image G bl m)"
    "touches f fs fs'"
    "sw_meta w' = m\<lparr>sm_file_size := of_nat (length (sst_image G bl m)), sm_num_entries := of_nat (length (concat G))\<rparr>"
    "sw_num_entries w' = of_nat (length (concat G))" "sw_current_offset w' = of_nat (length (sst_image G bl m))"
proof -
  let ?sync = "\<lambda>w fs. let (s, fs) = File_Sync (sw_filename w) fs in (s, w, fs)"
  let ?close = "\<lambda>w fs. (File_Close fs, w, fs)"
  have st: "sw_opened w" "\<not> sw_finished w" using at by (simp_all add: writer_at_def)
  obtain w9 s9 where R: "run_steps [WriteDataBlock, WriteIndexBlock, WriteBloomFilterBlock, WriteMetaBlock, WriteFooter, ?sync, ?close] w fs = (s9, w9, fs')"
     "ok s9" and w': "w' = w9\<lparr>sw_meta := (sw_meta w9)\<lparr>sm_file_size := sw_current_offset w9, sm_num_entries := sw_num_entries w9\<rparr>,
                    sw_finished := True\<rparr>"
    using fin st unfolding SstWriter_Finish_def by (auto simp only: Let_def split: if_split_asm prod.splits)
  obtain s1 w1 fs1 where 1: "WriteDataBlock w fs = (s1, w1, fs1)" "ok s1"
    and R1: "run_steps [WriteIndexBlock, WriteBloomFilterBlock, WriteMetaBlock, WriteFooter, ?sync, ?close] w1 fs1 = (s9, w9, fs')"
    using R by (elim run_steps_OK) auto
  obtain s2 w2 fs2 where 2: "WriteIndexBlock w1 fs1 = (s2, w2, fs2)" "ok s2"
    and R2: "run_steps [WriteBloomFilterBlock, WriteMetaBlock, WriteFooter, ?sync, ?close] w2 fs2 = (s9, w9, fs')"
    using R1 R(2) by (elim run_steps_OK) auto
  obtain s3 w3 fs3 where 3: "WriteBloomFilterBlock w2 fs2 = (s3, w3, fs3)" "ok s3"
    and R3: "run_steps [WriteMetaBlock, WriteFooter, ?sync, ?close] w3 fs3 = (s9, w9, fs')"
    using R2 R(2) by (elim run_steps_OK) auto
  obtain s4 w4 fs4 where 4: "WriteMetaBlock w3 fs3 = (s4, w4, fs4)" "ok s4"
    and R4: "run_steps [WriteFooter, ?sync, ?close] w4 fs4 = (s9, w9, fs')"
    using R3 R(2) by (elim run_steps_OK) auto
  obtain s5 w5 fs5 where 5: "WriteFooter w4 fs4 = (s5, w5, fs5)" "ok s5"
    and R5: "run_steps [?sync, ?close] w5 fs5 = (s9, w9, fs')"
    using R4 R(2) by (elim run_steps_OK) auto
  obtain s6 w6 fs6 where 6: "?sync w5 fs5 = (s6, w6, fs6)" "ok s6" and R6: "run_steps [?close] w6 fs6 = (s9, w9, fs')"
    using R5 R(2) by (elim run_steps_OK) auto
  have G: "concat gs @ g = concat G" "G \<noteq> []" using ne by (auto simp: G_def closed_groups_def)
  have at1: "writer_at w1 fs1 opts f now G [] \<and> touches f fs fs1"
  proof (cases "g = []")
    case True
    then have "w1 = w" "fs1 = fs" using 1 at by (auto simp: WriteDataBlock_def writer_at_def)
    then show ?thesis using at True by (simp add: G_def closed_groups_def)
  next
    case False
    then show ?thesis using WriteDataBlock_at [OF at False 1] by (simp add: G_def closed_groups_def)
  qed
  have nf: "sw_filename w1 = f" using at1 by (simp add: writer_at_def)
  have id: "foldl (\<lambda>d e. PutLengthPrefixedSlice d (IndexEntry_Encode e)) [] (sw_index_entries w1) = index_data G"
    "sw_index_entries w1 \<noteq> []"
    using at1 G(2) by (simp_all add: index_foldl index_data_def writer_at_def)
  obtain t2 where b2: "write_block (w1\<lparr>sw_index_block := (sw_current_offset w1, block_length (index_data G))\<rparr>) kIndexBlock (index_data G) fs1 = (t2, fs2)"
    and t2: "ok t2" and w2: "w2 = w1\<lparr>sw_index_block := index_handle G,
       sw_index_bytes_written := sw_index_bytes_written w1 + block_length (index_data G),
       sw_current_offset := of_nat (length (data_part G @ block_file kIndexBlock (index_data G)))\<rparr>"
    using 2 id at1 by (auto simp: WriteIndexBlock_def index_handle_def writer_at_def block_length_def Let_def split: prod.splits if_split_asm)
  have D2: "map_of (fs_files fs2) f = Some (data_part G @ block_file kIndexBlock (index_data G))" "touches f fs1 fs2"
    using write_block_OK [OF b2 t2] at1 nf by (simp_all add: writer_at_def)
  have bb: "sw_bloom_builder w2 = (if wo_enable_bloom_filter opts
       then Some \<lparr>bb_params = wo_bloom opts, bb_keys = map (bloom_key \<circ> fst) (concat G)\<rparr> else None)"
    using at1 by (simp add: w2 writer_at_def)
  have D3: "map_of (fs_files fs3) f = Some (data_part G @ block_file kIndexBlock (index_data G) @ optional_block kBloomBlock bl) \<and> touches f fs2 fs3 \<and>
     sw_bloom_block w3 = bloom_handle G bl \<and> sw_index_block w3 = index_handle G \<and> sw_filename w3 = f \<and> sw_meta w3 = m \<and>
     sw_num_entries w3 = of_nat (length (concat G)) \<and>
     sw_current_offset w3 = of_nat (length (data_part G @ block_file kIndexBlock (index_data G) @ optional_block kBloomBlock bl))"
  proof (cases "bl = []")
    case True
    then have "w3 = w2 \<and> fs3 = fs2"
      using 3 bb by (auto simp: WriteBloomFilterBlock_def bl_def bloom_data_def G(1) Let_def split: if_splits)
    then show ?thesis using True D2 at1 by (simp add: w2 optional_block_def bloom_handle_def writer_at_def m_def written_meta_def G(1))
  next
    case False
    then obtain B where "sw_bloom_builder w2 = Some B" "Builder_Finish B = bl"
      using bb by (auto simp: bl_def bloom_data_def G(1) split: if_splits)
    then obtain t3 where b3: "write_block (w2\<lparr>sw_bloom_block := (sw_current_offset w2, block_length bl)\<rparr>) kBloomBlock bl fs2 = (t3, fs3)"
      and t3: "ok t3" and w3: "w3 = w2\<lparr>sw_bloom_block := bloom_handle G bl,
         sw_bloom_bytes_written := sw_bloom_bytes_written w2 + block_length bl,
         sw_current_offset := of_nat (length (data_part G @ block_file kIndexBlock (index_data G) @ block_file kBloomBlock bl))\<rparr>"
      using 3 False by (auto simp: WriteBloomFilterBlock_def bloom_handle_def w2 block_length_def Let_def split: prod.splits if_split_asm)
    show ?thesis using write_block_OK [OF b3 t3] D2 at1 nf False
      by (simp add: w3 w2 optional_block_def writer_at_def m_def written_meta_def G(1))
  qed
  let ?pre = "data_part G @ block_file kIndexBlock (index_data G) @ optional_block kBloomBlock bl"
  obtain t4 where b4: "write_block (w3\<lparr>sw_meta_block := (sw_current_offset w3, block_length (Meta_Encode m))\<rparr>) kMetaBlock (Meta_Encode m) fs3 = (t4, fs4)"
    and t4: "ok t4" and w4: "w4 = w3\<lparr>sw_meta_block := meta_handle G bl m,
       sw_current_offset := of_nat (length (?pre @ block_file kMetaBlock (Meta_Encode m)))\<rparr>"
    using 4 D3 by (auto simp: WriteMetaBlock_def meta_handle_def block_length_def Let_def split: prod.splits if_split_asm)
  have D4: "map_of (fs_files fs4) f = Some (?pre @ block_file kMetaBlock (Meta_Encode m)) \<and> touches f fs3 fs4"
    using write_block_OK [OF b4 t4] D3 by simp
  obtain t5 fs5' where b5: "File_Append f (sst_footer (meta_handle G bl m) (index_handle G) (bloom_handle G bl)) fs4 = (t5, fs5')"
    by fastforce
  have h4: "sw_filename w4 = f" "sw_meta_block w4 = meta_handle G bl m" "sw_index_block w4 = index_handle G"
    "sw_bloom_block w4 = bloom_handle G bl" "sw_current_offset w4 = of_nat (length (?pre @ block_file kMetaBlock (Meta_Encode m)))"
    using D3 by (simp_all add: w4)
  have "WriteFooter w4 fs4 = (if \<not> ok t5 then (t5, w4, fs5') else (OK, w4\<lparr>sw_current_offset := sw_current_offset w4 + 48\<rparr>, fs5'))"
    by (simp only: WriteFooter_def h4(1-4) b5 Let_def prod.case)
  with 5 have t5: "ok t5" "fs5 = fs5'" and w5: "w5 = w4\<lparr>sw_current_offset := sw_current_offset w4 + 48\<rparr>"
    by (auto split: if_split_asm)
  have D5: "map_of (fs_files fs5) f = Some (sst_image G bl m) \<and> touches f fs4 fs5"
    using File_Append_OK [OF b5 t5(1)] D4 by (simp add: sst_image_def t5(2))
  have nf5: "sw_filename w5 = f" using h4(1) by (simp add: w5)
  have 66: "w6 = w5" "fs6 = fs_fsync fs5 f"
    using 6 nf5 by (auto simp: File_Sync_def Let_def split: if_splits prod.splits)
  have 7: "w9 = w5" "fs' = fs_fsync fs5 f"
    using R6 66 by (auto simp: Let_def split: if_splits)
  show "map_of (fs_files fs') f = Some (sst_image G bl m)" using D5 by (simp add: 7)
  show "map_of (fs_disk fs') f = Some (sst_image G bl m)"
    using D5 by (simp add: 7 fs_fsync_def fs_data_def)
  show "touches f fs fs'"
  proof -
    have "touches f fs fs2" using at1 D2(2) touches_trans by metis
    also have "touches f fs2 fs3" using D3 by simp
    also have "touches f fs3 fs4" using D4 by simp
    also have "touches f fs4 fs5" using D5 by simp
    also have "touches f fs5 fs'" by (simp add: 7)
    finally show ?thesis .
  qed
  have len: "length (sst_footer a b c) = 48" for a b c
    by (simp add: sst_footer_def Let_def)
  have off: "sw_current_offset w5 = of_nat (length (sst_image G bl m))"
    by (simp add: w5 h4(5) sst_image_def len)
  show "sw_meta w' = m\<lparr>sm_file_size := of_nat (length (sst_image G bl m)), sm_num_entries := of_nat (length (concat G))\<rparr>"
    "sw_num_entries w' = of_nat (length (concat G))" "sw_current_offset w' = of_nat (length (sst_image G bl m))"
    using off D3 by (simp_all add: w' 7(1)) (simp_all add: w5 w4)
qed

section \<open>What the reader makes of it\<close>

lemma unat_of_nat32: "n < 2 ^ 32 \<Longrightarrow> unat (of_nat n :: u32) = n"
  by (simp add: unat_of_nat take_bit_nat_eq_self)

lemma unat_of_nat64: "n < 2 ^ 64 \<Longrightarrow> unat (of_nat n :: u64) = n"
  by (simp add: unat_of_nat take_bit_nat_eq_self)

lemma ucast_of_nat32: "n < 2 ^ 32 \<Longrightarrow> ucast (of_nat n :: u32) = (of_nat n :: u64)"
  by (simp add: unat_of_nat32 word_unat_eq_iff [of "ucast _"] unat_ucast_u32 unat_of_nat64)

lemma File_Read_slice:
  assumes "map_of (fs_files fs) f = Some (pre @ mid @ post)" "fs_can_read fs f" "length pre < 2 ^ 32"
  shows "File_Read fs f (of_nat (length pre)) (length mid) = (OK, mid)"
  using assms by (simp add: File_Read_def fs_data_def unat_of_nat64)

lemma read_block_at:
  assumes "map_of (fs_files fs) f = Some (pre @ block_file t d @ post)" "fs_can_read fs f"
    and "length (pre @ block_file t d @ post) < 2 ^ 32"
    and "off = of_nat (length pre)" "fsz = of_nat (length (pre @ block_file t d @ post))"
  shows "read_block fs f fsz (off, block_length d) t W w = (OK, d)"
proof -
  have l: "16 + length d < 2 ^ 32" "length pre < 2 ^ 32" using assms(3) by simp_all
  have u: "unat (block_length d :: u32) = length (block_file t d)"
    unfolding block_length_def by (subst unat_of_nat32) (use l in simp_all)
  have v: "(ucast (block_length d :: u32) :: u64) = of_nat (length (block_file t d))"
    unfolding block_length_def by (subst ucast_of_nat32) (use l in simp_all)
  have "off + of_nat (length (block_file t d)) = of_nat (length (pre @ block_file t d))"
    by (simp add: assms(4))
  then have nl: "\<not> fsz < off + of_nat (length (block_file t d))"
  proof -
    assume e: "off + of_nat (length (block_file t d)) = of_nat (length (pre @ block_file t d))"
    have "unat fsz = length (pre @ block_file t d @ post)"
      unfolding assms(5) by (rule unat_of_nat64) (use assms(3) in simp)
    moreover have "unat (off + of_nat (length (block_file t d))) = length (pre @ block_file t d)"
      unfolding e by (rule unat_of_nat64) (use assms(3) in simp)
    ultimately show ?thesis by (simp add: word_less_nat_alt)
  qed
  have "File_Read fs f off (length (block_file t d)) = (OK, block_file t d)"
    unfolding assms(4) using File_Read_slice [OF assms(1,2)] l(2) by simp
  moreover have "take 16 (block_file t d) = BlockHeader_Encode \<lparr>bh_type = t, bh_size = of_nat (length d), bh_crc32 = CRC32 d, bh_compression = 0\<rparr>"
    "drop 16 (block_file t d) = d"
    by (simp_all add: block_file_def)
  ultimately show ?thesis
    using nl by (simp add: read_block_def u v VerifyBlockChecksum_def)
qed

text \<open>Footers fit their 48 bytes: each number below \<open>2^35\<close> takes at most five.\<close>

lemma length_EncodeVarint64: "unat v < 2 ^ (7 * Suc n) \<Longrightarrow> length (EncodeVarint64 v) \<le> Suc n"
proof (induction n arbitrary: v)
  case 0
  then show ?case by (simp add: EncodeVarint64.simps [of v] word_le_nat_alt)
next
  case (Suc n)
  have "unat (drop_bit 7 v) < 2 ^ (7 * Suc n)"
    using Suc.prems by (simp add: unat_drop7 power_add less_mult_imp_div_less)
  then show ?case using Suc.IH [of "drop_bit 7 v"] by (simp add: EncodeVarint64.simps [of v])
qed

lemma footer_room:
  assumes "unat (fst a) < 2 ^ 32" "unat (fst b) < 2 ^ 32" "unat (fst c) < 2 ^ 32"
  shows "\<exists>n. sst_footer a b c =
    PutVarint64 [] (fst a) @ PutVarint32 [] (snd a) @ PutVarint64 [] (fst b) @ PutVarint32 [] (snd b) @
    PutVarint64 [] (fst c) @ PutVarint32 [] (snd c) @ PutVarint32 [] 1 @ PutVarint32 [] 0x57A7AB1E @ replicate n 0"
proof -
  have v64: "unat v < 2 ^ 32 \<Longrightarrow> length (PutVarint64 [] v) \<le> 5" for v
    using length_EncodeVarint64 [of v 4] by (simp add: PutVarint64_def)
  have v32: "length (PutVarint32 [] v) \<le> 5" for v
    using length_EncodeVarint64 [of "ucast v" 4] unsigned_less [of v, where 'a = nat]
    by (simp add: PutVarint32_def EncodeVarint32_eq_64 unat_ucast_u32)
  note b = v64 [OF assms(1)] v64 [OF assms(2)] v64 [OF assms(3)] v32 [of "snd a"] v32 [of "snd b"] v32 [of "snd c"]
    v32 [of 1] v32 [of "0x57A7AB1E"]
  show ?thesis
    using b by (intro exI [of _ "48 - length (PutVarint64 [] (fst a) @ PutVarint32 [] (snd a) @ PutVarint64 [] (fst b) @
      PutVarint32 [] (snd b) @ PutVarint64 [] (fst c) @ PutVarint32 [] (snd c) @ PutVarint32 [] 1 @ PutVarint32 [] 0x57A7AB1E)"])
      (simp add: sst_footer_def put_normal Let_def)
qed

lemma parse_footer_at:
  assumes "unat (fst a) < 2 ^ 32" "unat (fst b) < 2 ^ 32" "unat (fst c) < 2 ^ 32"
  shows "parse_footer (sst_footer a b c) = Inr (a, b, c)" "length (sst_footer a b c) = 48"
proof -
  show "length (sst_footer a b c) = 48" by (simp add: sst_footer_def Let_def)
  obtain n where n: "sst_footer a b c =
    PutVarint64 [] (fst a) @ PutVarint32 [] (snd a) @ PutVarint64 [] (fst b) @ PutVarint32 [] (snd b) @
    PutVarint64 [] (fst c) @ PutVarint32 [] (snd c) @ PutVarint32 [] 1 @ PutVarint32 [] 0x57A7AB1E @ replicate n 0"
    using footer_room [OF assms] by blast
  show "parse_footer (sst_footer a b c) = Inr (a, b, c)"
    unfolding n by (simp add: parse_footer_def get_handle_def get_two32_def get_put)
qed

lemma ReadIndex_loop_at:
  assumes "\<forall>e \<in> set es. length (IndexEntry_Encode e) < 2 ^ 32 \<and> length (ie_key e) < 2 ^ 32 \<and>
      \<not> fsz < ie_block_offset e + ucast (ie_block_size e)"
    and "sorted_wrt (\<lambda>a b. cmp (ie_key a) (ie_key b) < 0) (acc @ es)"
  shows "ReadIndex_loop cmp fsz (concat (map (\<lambda>e. PutLengthPrefixedSlice [] (IndexEntry_Encode e)) es)) acc = (OK, acc @ es)"
  using assms
proof (induction es arbitrary: acc)
  case (Cons e es)
  have "acc = [] \<or> \<not> 0 \<le> cmp (ie_key (last acc)) (ie_key e)"
    using Cons.prems(2) unfolding sorted_wrt_append not_le by (meson last_in_set list.set_intros(1))
  then show ?case
    using Cons by (subst ReadIndex_loop.simps) (simp add: PutLPS_Nil get_put IndexEntry_Decode_Encode)
qed (simp add: ReadIndex_loop.simps)

lemma length_encode_entry: "length k + length v \<le> length (PutLengthPrefixedSlice [] k @ PutLengthPrefixedSlice [] v)"
  by (simp add: PutLengthPrefixedSlice_def)

lemma length_encode_entries: "(k, v) \<in> set g \<Longrightarrow> length k + length v \<le> length (encode_entries g)"
proof (induction g)
  case (Cons e g)
  then show ?case
    using length_encode_entry [of k v] by (cases "e = (k, v)") (auto intro: trans_le_add2)
qed simp

lemma length_data_part: "g \<in> set gs \<Longrightarrow> 16 + length (encode_entries g) \<le> length (data_part gs)"
  by (induction gs) auto

lemma index_of_nth:
  "i < length gs \<Longrightarrow> index_of off gs ! i =
     \<lparr>ie_key = fst (hd (gs ! i)), ie_block_offset = off + of_nat (length (data_part (take i gs))),
      ie_block_size = block_length (encode_entries (gs ! i)), ie_first_key_offset = 0\<rparr>"
  by (induction gs arbitrary: off i) (auto simp: nth_Cons' take_Cons' block_length_def ac_simps)

lemma length_index_of [simp]: "length (index_of off gs) = length gs"
  by (induction gs arbitrary: off) simp_all

lemma keys_index_of: "map ie_key (index_of off gs) = map (\<lambda>g. fst (hd g)) gs"
  by (induction gs arbitrary: off) simp_all

lemma split_at_nth: "i < length gs \<Longrightarrow> gs = take i gs @ gs ! i # drop (Suc i) gs"
  by (simp add: Cons_nth_drop_Suc)

lemma data_part_nth:
  "i < length gs \<Longrightarrow> data_part gs = data_part (take i gs) @ block_file kDataBlock (encode_entries (gs ! i)) @ data_part (drop (Suc i) gs)"
  by (subst split_at_nth [of i gs], simp) (simp only: data_part_simps)

lemma index_in_file:
  assumes "e \<in> set (index_of 0 gs)" "length (data_part gs) \<le> n" "n < 2 ^ 32"
  shows "\<not> of_nat n < ie_block_offset e + ucast (ie_block_size e)"
proof -
  obtain i where i: "i < length gs" "e = index_of 0 gs ! i" using assms(1) by (metis in_set_conv_nth length_index_of)
  let ?d = "encode_entries (gs ! i)" and ?p = "length (data_part (take i gs))"
  have l: "?p + (16 + length ?d) \<le> length (data_part gs)" using data_part_nth [OF i(1)] by simp
  have "ie_block_offset e + ucast (ie_block_size e) = of_nat (?p + (16 + length ?d))"
    using l assms(2,3) by (simp add: i index_of_nth block_length_def ucast_of_nat32 flip: of_nat_Suc of_nat_add)
  then show ?thesis using l assms(2,3) by (simp add: word_less_nat_alt unat_of_nat64 del: of_nat_add)
qed

lemma index_data_entry: "e \<in> set (index_of 0 gs) \<Longrightarrow> length (IndexEntry_Encode e) \<le> length (index_data gs)"
proof -
  have "e \<in> set es \<Longrightarrow> length (IndexEntry_Encode e) \<le> length (concat (map (\<lambda>e. PutLengthPrefixedSlice [] (IndexEntry_Encode e)) es))" for es
    by (induction es) (auto simp: PutLengthPrefixedSlice_def)
  then show "e \<in> set (index_of 0 gs) \<Longrightarrow> length (IndexEntry_Encode e) \<le> length (index_data gs)"
    by (simp add: index_data_def)
qed

lemma index_key_length: "length (ie_key e) \<le> length (IndexEntry_Encode e)"
  by (simp add: IndexEntry_Encode_def Let_def put_normal PutLengthPrefixedSlice_def)

definition blocks_fit :: "(bytes \<times> bytes) list list \<Rightarrow> bytes \<Rightarrow> sst_meta \<Rightarrow> bool" where
  "blocks_fit G bl m \<longleftrightarrow> G \<noteq> [] \<and> [] \<notin> set G \<and> length (sst_image G bl m) < 2 ^ 32 \<and> meta_fits m"

definition opened_reader :: "string \<Rightarrow> (bytes \<times> bytes) list list \<Rightarrow> bytes \<Rightarrow> sst_meta \<Rightarrow> sst_reader" where
  "opened_reader f G bl m =
     \<lparr>sr_filename = f, sr_meta = m\<lparr>sm_filename := f, sm_file_size := of_nat (length (sst_image G bl m))\<rparr>,
      sr_index = index_of 0 G, sr_bloom_filter = (if bl = [] then None else Reader_Initialize bl),
      sr_opened = True, sr_index_block = index_handle G, sr_bloom_block = bloom_handle G bl\<rparr>"

lemma handles_small:
  assumes "length (sst_image G bl m) < 2 ^ 32"
  shows "unat (fst (meta_handle G bl m)) < 2 ^ 32" "unat (fst (index_handle G)) < 2 ^ 32"
    "unat (fst (bloom_handle G bl)) < 2 ^ 32"
proof -
  have lt: "n < 2 ^ 32 \<Longrightarrow> unat (of_nat n :: u64) < 2 ^ 32" for n by (simp add: unat_of_nat64)
  show "unat (fst (meta_handle G bl m)) < 2 ^ 32"
    unfolding meta_handle_def fst_conv by (rule lt) (use assms in \<open>simp add: sst_image_def\<close>)
  show "unat (fst (index_handle G)) < 2 ^ 32"
    unfolding index_handle_def fst_conv by (rule lt) (use assms in \<open>simp add: sst_image_def\<close>)
  have "unat (of_nat (length (data_part G @ block_file kIndexBlock (index_data G))) :: u64) < 2 ^ 32"
    by (rule lt) (use assms in \<open>simp add: sst_image_def\<close>)
  then show "unat (fst (bloom_handle G bl)) < 2 ^ 32" unfolding bloom_handle_def by (cases "bl = []") simp_all
qed

lemma block_length_nz:
  assumes "16 + length d < 2 ^ 32" shows "block_length d \<noteq> (0 :: u32)"
proof
  assume "block_length d = (0 :: u32)"
  then have "unat (block_length d :: u32) = 0" by simp
  then show False using assms unfolding block_length_def by (subst (asm) unat_of_nat32) simp_all
qed

lemma ReadMeta_at:
  assumes fit: "blocks_fit G bl m" and img: "map_of (fs_files fs) f = Some (sst_image G bl m)"
    and os: "fs_can_read fs f" and r: "sr_filename r = f" "sm_file_size (sr_meta r) = of_nat (length (sst_image G bl m))"
  shows "ReadMeta fs r = (OK, r\<lparr>sr_meta := m\<lparr>sm_filename := f, sm_file_size := of_nat (length (sst_image G bl m))\<rparr>,
    sr_index_block := index_handle G, sr_bloom_block := bloom_handle G bl\<rparr>)"
proof -
  let ?I = "sst_image G bl m" and ?F = "sst_footer (meta_handle G bl m) (index_handle G) (bloom_handle G bl)"
  let ?pre = "data_part G @ block_file kIndexBlock (index_data G) @ optional_block kBloomBlock bl"
  have N: "length ?I < 2 ^ 32" using fit by (simp add: blocks_fit_def)
  note P = parse_footer_at [OF handles_small [OF N]]
  have I: "?I = (?pre @ block_file kMetaBlock (Meta_Encode m)) @ ?F @ []" by (simp add: sst_image_def)
  define n where "n = length (?pre @ block_file kMetaBlock (Meta_Encode m))"
  have len: "length ?I = n + 48" using I P(2) by (simp add: n_def)
  have n48: "of_nat (length ?I) - 48 = (of_nat n :: u64)" by (simp add: len)
  have "unat (of_nat (length ?I) :: u64) = length ?I" by (rule unat_of_nat64) (use N in simp)
  then have big: "\<not> of_nat (length ?I) < (48 :: u64)" by (simp add: word_less_nat_alt len)
  have f: "File_Read fs f (of_nat n) 48 = (OK, ?F)"
  proof -
    have "File_Read fs f (of_nat n) (length ?F) = (OK, ?F)"
      unfolding n_def by (rule File_Read_slice [OF img [unfolded I] os]) (use N len in \<open>simp add: n_def\<close>)
    then show ?thesis using P(2) by simp
  qed
  have fm: "map_of (fs_files fs) f = Some (?pre @ block_file kMetaBlock (Meta_Encode m) @ ?F)"
    using img I by simp
  have "read_block fs f (of_nat (length ?I)) (meta_handle G bl m) kMetaBlock ''Meta'' ''meta'' = (OK, Meta_Encode m)"
    unfolding meta_handle_def by (rule read_block_at [OF fm os]) (use N I in simp_all)
  moreover have "Meta_Decode (Meta_Encode m) = Some m" using Meta_Decode_Encode fit by (simp add: blocks_fit_def)
  ultimately show ?thesis using f P(1) by (simp add: ReadMeta_def r n48 big Let_def)
qed

lemma ReadIndex_at:
  assumes fit: "blocks_fit G bl m" and img: "map_of (fs_files fs) f = Some (sst_image G bl m)"
    and os: "fs_can_read fs f"
    and r: "sr_filename r = f" "sr_meta r = m\<lparr>sm_filename := f, sm_file_size := of_nat (length (sst_image G bl m))\<rparr>"
      "sr_index_block r = index_handle G"
    and keys: "sorted_wrt (\<lambda>a b. cmp a b < 0) (map (\<lambda>g. fst (hd g)) G)"
  shows "ReadIndex cmp fs r =
    (if sm_smallest_key m \<noteq> [] \<and> sm_largest_key m \<noteq> [] \<and>
        (cmp (user_key_part (fst (hd (hd G)))) (sm_smallest_key m) \<noteq> 0 \<or>
         0 < cmp (user_key_part (fst (hd (last G)))) (sm_largest_key m))
     then (Corruption ''Index key range inconsistent with meta data'', r\<lparr>sr_index := index_of 0 G\<rparr>)
     else (OK, r\<lparr>sr_index := index_of 0 G\<rparr>))"
proof -
  let ?I = "sst_image G bl m"
  let ?post = "optional_block kBloomBlock bl @ block_file kMetaBlock (Meta_Encode m) @
    sst_footer (meta_handle G bl m) (index_handle G) (bloom_handle G bl)"
  have G: "G \<noteq> []" and N: "length ?I < 2 ^ 32" using fit by (simp_all add: blocks_fit_def)
  have I: "?I = data_part G @ block_file kIndexBlock (index_data G) @ ?post" by (simp add: sst_image_def)
  have fi: "map_of (fs_files fs) f = Some (data_part G @ block_file kIndexBlock (index_data G) @ ?post)"
    using img I by simp
  have l: "length (data_part G) + (16 + length (index_data G)) \<le> length ?I" unfolding I by simp
  have b: "read_block fs f (of_nat (length ?I)) (index_handle G) kIndexBlock ''Index'' ''index'' = (OK, index_data G)"
    unfolding index_handle_def by (rule read_block_at [OF fi os]) (use N I in simp_all)
  have nz: "snd (index_handle G) \<noteq> 0"
    unfolding index_handle_def snd_conv by (rule block_length_nz) (use l N in linarith)
  have bd: "\<forall>e \<in> set (index_of 0 G). length (IndexEntry_Encode e) < 2 ^ 32 \<and> length (ie_key e) < 2 ^ 32 \<and>
      \<not> of_nat (length ?I) < ie_block_offset e + ucast (ie_block_size e)"
  proof (rule ballI)
    fix e assume e: "e \<in> set (index_of 0 G)"
    show "length (IndexEntry_Encode e) < 2 ^ 32 \<and> length (ie_key e) < 2 ^ 32 \<and>
      \<not> of_nat (length ?I) < ie_block_offset e + ucast (ie_block_size e)"
      using index_in_file [OF e _ N] index_data_entry [OF e] index_key_length [of e] l N by linarith
  qed
  have srt: "sorted_wrt (\<lambda>a b. cmp (ie_key a) (ie_key b) < 0) ([] @ index_of 0 G)"
    using keys keys_index_of [of 0 G] by (simp add: sorted_wrt_map [of "\<lambda>a b. cmp a b < 0" ie_key, symmetric])
  have "ReadIndex_loop cmp (of_nat (length ?I)) (index_data G) [] = (OK, index_of 0 G)"
    using ReadIndex_loop_at [OF bd srt] by (simp add: index_data_def)
  moreover have "ie_key (hd (index_of 0 G)) = fst (hd (hd G))" "ie_key (last (index_of 0 G)) = fst (hd (last G))"
    using keys_index_of [of 0 G] G by (metis hd_map index_of_Nil, metis last_map index_of_Nil)
  ultimately show ?thesis using b nz G by (simp add: ReadIndex_def r Let_def)
qed

lemma ReadBloomFilter_at:
  assumes fit: "blocks_fit G bl m" and img: "map_of (fs_files fs) f = Some (sst_image G bl m)"
    and os: "fs_can_read fs f"
    and r: "sr_filename r = f" "sm_file_size (sr_meta r) = of_nat (length (sst_image G bl m))" "sr_bloom_block r = bloom_handle G bl"
      "sr_bloom_filter r = None"
    and bl: "bl = [] \<or> Reader_Initialize bl \<noteq> None"
  shows "ReadBloomFilter fs r = (OK, r\<lparr>sr_bloom_filter := (if bl = [] then None else Reader_Initialize bl)\<rparr>)"
proof (cases "bl = []")
  case True
  then show ?thesis by (simp add: ReadBloomFilter_def r bloom_handle_def)
next
  case False
  let ?I = "sst_image G bl m"
  let ?pre = "data_part G @ block_file kIndexBlock (index_data G)"
  let ?post = "block_file kMetaBlock (Meta_Encode m) @ sst_footer (meta_handle G bl m) (index_handle G) (bloom_handle G bl)"
  have N: "length ?I < 2 ^ 32" using fit by (simp_all add: blocks_fit_def)
  have I: "?I = ?pre @ block_file kBloomBlock bl @ ?post" using False by (simp add: sst_image_def optional_block_def)
  have fi: "map_of (fs_files fs) f = Some (?pre @ block_file kBloomBlock bl @ ?post)"
    using img I by simp
  have l: "length ?pre + (16 + length bl) \<le> length ?I" unfolding I by simp
  have h: "bloom_handle G bl = (of_nat (length ?pre), block_length bl)" using False by (simp add: bloom_handle_def)
  have b: "read_block fs f (of_nat (length ?I)) (bloom_handle G bl) kBloomBlock ''Bloom filter'' ''bloom filter'' = (OK, bl)"
    unfolding h by (rule read_block_at [OF fi os]) (use N I in simp_all)
  have nz: "snd (bloom_handle G bl) \<noteq> 0"
    unfolding h snd_conv by (rule block_length_nz) (use l N in linarith)
  show ?thesis using b nz bl False by (auto simp: ReadBloomFilter_def r Let_def)
qed

text \<open>The test that \<open>ReadIndex\<close> makes of the key range.\<close>

definition range_consistent :: "(bytes \<Rightarrow> bytes \<Rightarrow> int) \<Rightarrow> (bytes \<times> bytes) list list \<Rightarrow> sst_meta \<Rightarrow> bool" where
  "range_consistent cmp G m \<longleftrightarrow> sm_smallest_key m = [] \<or> sm_largest_key m = [] \<or>
      (cmp (user_key_part (fst (hd (hd G)))) (sm_smallest_key m) = 0 \<and>
       cmp (user_key_part (fst (hd (last G)))) (sm_largest_key m) \<le> 0)"

lemma Open_at:
  assumes fit: "blocks_fit G bl m" and img: "map_of (fs_files fs) f = Some (sst_image G bl m)"
    and os: "fs_can_read fs f" "fs_can_open fs f"
    and keys: "sorted_wrt (\<lambda>a b. cmp a b < 0) (map (\<lambda>g. fst (hd g)) G)"
    and bl: "bl = [] \<or> Reader_Initialize bl \<noteq> None"
  shows "range_consistent cmp G m \<Longrightarrow>
      SstReader_Open cmp fs f SSTableReader = (OK, opened_reader f G bl m)"
    and "\<not> range_consistent cmp G m \<Longrightarrow> fst (SstReader_Open cmp fs f SSTableReader) = Corruption ''Index key range inconsistent with meta data''"
proof -
  let ?I = "sst_image G bl m"
  have N1: "length ?I < 2 ^ 32" using fit by (simp add: blocks_fit_def)
  have N: "length ?I < 2 ^ 32" "48 \<le> length ?I"
    using N1 parse_footer_at(2) [OF handles_small [OF N1]] unfolding sst_image_def length_append by linarith+
  let ?r0 = "SSTableReader\<lparr>sr_filename := f, sr_meta := SSTableMeta_new\<lparr>sm_file_size := of_nat (length ?I)\<rparr>\<rparr>"
  let ?r1 = "?r0\<lparr>sr_meta := m\<lparr>sm_filename := f, sm_file_size := of_nat (length ?I)\<rparr>,
    sr_index_block := index_handle G, sr_bloom_block := bloom_handle G bl\<rparr>"
  have M: "ReadMeta fs ?r0 = (OK, ?r1)"
    using ReadMeta_at [OF fit img os(1), of ?r0] by simp
  have O: "SstReader_Open cmp fs f SSTableReader =
      (let (s, r) = ReadIndex cmp fs ?r1 in
      if \<not> ok s then (s, r)
      else let (s, r) = ReadBloomFilter fs r in
      if \<not> ok s then (s, r) else (OK, r\<lparr>sr_opened := True\<rparr>))"
  proof -
    have e: "Env_NewRandomAccessFile fs f = OK" "Env_GetFileSize fs f = (OK, length ?I)" "\<not> length ?I < 16 * 2"
    proof -
      show "Env_NewRandomAccessFile fs f = OK"
        using os(2) unfolding Env_NewRandomAccessFile_def Env_FileExists_def img by simp
      show "Env_GetFileSize fs f = (OK, length ?I)" unfolding Env_GetFileSize_def img by (simp only: option.case)
      show "\<not> length ?I < 16 * 2" using N(2) by linarith
    qed
    have m: "sr_meta (SSTableReader\<lparr>sr_filename := f\<rparr>) = SSTableMeta_new" by (simp add: SSTableReader_def)
    show ?thesis unfolding SstReader_Open_def Let_def e m prod.case M by (simp only: e(3) ok_OK not_True_eq_False if_False)
  qed
  note X = ReadIndex_at [OF fit img os(1), of ?r1 cmp] and B = ReadBloomFilter_at [OF fit img os(1), of "?r1\<lparr>sr_index := index_of 0 G\<rparr>"]
  show "range_consistent cmp G m \<Longrightarrow> SstReader_Open cmp fs f SSTableReader = (OK, opened_reader f G bl m)"
    unfolding O using X B keys bl by (auto simp: range_consistent_def opened_reader_def SSTableReader_def)
  show "\<not> range_consistent cmp G m \<Longrightarrow> fst (SstReader_Open cmp fs f SSTableReader) = Corruption ''Index key range inconsistent with meta data''"
    unfolding O using X keys by (auto simp: range_consistent_def SSTableReader_def not_le)
qed

end
