(* ===== verification/SSTableReads.thy ===== *)
theory SSTableReads
  imports SSTableImages
begin

text \<open>
  Point lookups in SSTables: the binary search, the scan of a block, and what a lookup answers on
  a file the writer produced, for the bytewise comparator.
\<close>

section \<open>Specification\<close>

abbreviation ent_user :: "bytes \<times> bytes \<Rightarrow> bytes" where "ent_user e \<equiv> InternalKey_user_key (fst e)"
abbreviation ent_seq :: "bytes \<times> bytes \<Rightarrow> u64" where "ent_seq e \<equiv> InternalKey_sequence (fst e)"
abbreviation ent_type :: "bytes \<times> bytes \<Rightarrow> byte" where "ent_type e \<equiv> InternalKey_type (fst e)"

definition ent_wanted :: "bytes \<Rightarrow> u64 \<Rightarrow> bytes \<times> bytes \<Rightarrow> bool" where
  "ent_wanted key snapshot e \<longleftrightarrow> ent_user e = key \<and> visible_at snapshot (ent_seq e)"

text \<open>The newest version of a key that a snapshot sees; of several with one sequence number, the
  last in file order.\<close>

definition newest_visible :: "(bytes \<times> bytes) list \<Rightarrow> bytes \<Rightarrow> u64 \<Rightarrow> (u64 \<times> bytes \<times> bool) option" where
  "newest_visible es key snapshot =
     (let vs = filter (ent_wanted key snapshot) es in
      if vs = [] then None
      else let e = last (filter (\<lambda>e. ent_seq e = Max (ent_seq ` set vs)) vs)
           in Some (ent_seq e, snd e, ent_type e = kDeletion))"

section \<open>The scan of a block\<close>

lemma Bytewise_tests:
  "Bytewise_Compare a b \<le> 0 \<longleftrightarrow> a \<le> b" "0 \<le> Bytewise_Compare a b \<longleftrightarrow> b \<le> a"
  "Bytewise_Compare a b < 0 \<longleftrightarrow> a < b" "0 < Bytewise_Compare a b \<longleftrightarrow> b < a"
  "Bytewise_Compare a b = 0 \<longleftrightarrow> a = b"
  by (auto simp: Bytewise_Compare_lex)

text \<open>One step of the scan on an entry of the key.\<close>

definition keep_newer :: "(u64 \<times> bytes \<times> bool) option \<Rightarrow> bytes \<times> bytes \<Rightarrow> (u64 \<times> bytes \<times> bool) option" where
  "keep_newer best e =
     (if (case best of Some (s, _) \<Rightarrow> s | None \<Rightarrow> 0) \<le> ent_seq e
      then Some (ent_seq e, snd e, ent_type e = kDeletion) else best)"

lemma parse_entry:
  "8 \<le> length k \<Longrightarrow> ParseInternalKey k = Some (InternalKey_user_key k, InternalKey_sequence k, InternalKey_type k)"
  using ParseInternalKey_None [of k]
  by (cases "ParseInternalKey k") (auto simp: InternalKey_user_key_def InternalKey_sequence_def InternalKey_type_def)

definition entries_ok :: "(bytes \<times> bytes) list \<Rightarrow> bool" where
  "entries_ok es \<longleftrightarrow> (\<forall>(k, v) \<in> set es. 8 \<le> length k \<and> length k < 2 ^ 32 \<and> length v < 2 ^ 32)"

lemma Get_loop_Cons:
  assumes "8 \<le> length k" "length k < 2 ^ 32" "length v < 2 ^ 32"
  shows "SstReader_Get_loop Bytewise_Compare key snapshot (encode_entries ((k, v) # es)) best =
    (if InternalKey_user_key k = key
     then SstReader_Get_loop Bytewise_Compare key snapshot (encode_entries es)
            (if visible_at snapshot (InternalKey_sequence k) then keep_newer best (k, v) else best)
     else if key < InternalKey_user_key k then (OK, best)
     else SstReader_Get_loop Bytewise_Compare key snapshot (encode_entries es) best)"
  using assms
  by (subst SstReader_Get_loop.simps)
    (auto simp: PutLPS_Nil get_put parse_entry Let_def Bytewise_Compare_lex visible_at_def keep_newer_def)

lemma Get_loop_entries:
  assumes "entries_ok es"
  shows "SstReader_Get_loop Bytewise_Compare key snapshot (encode_entries es) best =
    (OK, foldl keep_newer best (filter (ent_wanted key snapshot) (takeWhile (\<lambda>e. ent_user e \<le> key) es)))"
  using assms
proof (induction es arbitrary: best)
  case (Cons e es)
  obtain k v where e: "e = (k, v)" by fastforce
  have l: "8 \<le> length k" "length k < 2 ^ 32" "length v < 2 ^ 32" and es: "entries_ok es"
    using Cons.prems by (simp_all add: entries_ok_def e)
  note IH = Cons.IH [OF es]
  have w: "ent_wanted key snapshot (k, v) \<longleftrightarrow> InternalKey_user_key k = key \<and> visible_at snapshot (InternalKey_sequence k)"
    by (simp add: ent_wanted_def)
  show ?case
    unfolding e Get_loop_Cons [OF l] IH
    by (cases "InternalKey_user_key k" key rule: linorder_cases) (auto simp: w)
qed (simp add: SstReader_Get_loop.simps)

text \<open>Folding over versions of one key yields the newest.\<close>

lemma fold_newer:
  "foldl keep_newer best xs =
    (if xs = [] then best
     else let M = Max (ent_seq ` set xs); e = last (filter (\<lambda>e. ent_seq e = M) xs) in
       if (case best of Some (s, _) \<Rightarrow> s \<le> M | None \<Rightarrow> True) then Some (ent_seq e, snd e, ent_type e = kDeletion) else best)"
proof (induction xs rule: rev_induct)
  case (snoc x xs)
  show ?case
  proof (cases "xs = []")
    case True
    then show ?thesis by (auto simp: keep_newer_def split: option.splits)
  next
    case False
    define M where "M = Max (ent_seq ` set xs)"
    have M: "Max (ent_seq ` set (xs @ [x])) = max (ent_seq x) M"
      using False by (simp add: M_def Max_insert)
    have Mge: "y \<in> set xs \<Longrightarrow> ent_seq y \<le> M" for y by (simp add: M_def)
    have "M \<in> ent_seq ` set xs" using False by (simp add: M_def)
    then have ne: "filter (\<lambda>e. ent_seq e = M) xs \<noteq> []" by (auto simp: filter_empty_conv)
    have l: "ent_seq (last (filter (\<lambda>e. ent_seq e = M) xs)) = M"
      using last_in_set [OF ne] by simp
    show ?thesis
    proof (cases "M \<le> ent_seq x")
      case True
      then have "filter (\<lambda>e. ent_seq e = max (ent_seq x) M) (xs @ [x]) = filter (\<lambda>e. ent_seq e = ent_seq x) xs @ [x]"
        by (simp add: max_def)
      then show ?thesis using True False l unfolding foldl_append snoc.IH M Let_def M_def [symmetric]
        by (auto simp: keep_newer_def split: option.splits)
    next
      case F: False
      then have "filter (\<lambda>e. ent_seq e = max (ent_seq x) M) (xs @ [x]) = filter (\<lambda>e. ent_seq e = M) xs"
        by (auto simp: max_def)
      then show ?thesis using F False l unfolding foldl_append snoc.IH M Let_def M_def [symmetric]
        by (auto simp: keep_newer_def max_def split: option.splits)
    qed
  qed
qed simp

lemma takeWhile_sorted_filter:
  assumes "sorted (map ent_user es)"
  shows "filter (ent_wanted key snapshot) (takeWhile (\<lambda>e. ent_user e \<le> key) es) = filter (ent_wanted key snapshot) es"
  using assms
proof (induction es)
  case (Cons e es)
  have "\<not> ent_user e \<le> key \<Longrightarrow> filter (ent_wanted key snapshot) (e # es) = []"
    using Cons.prems by (auto simp: filter_empty_conv ent_wanted_def)
  then show ?case using Cons by auto
qed simp

lemma Get_loop_newest:
  assumes "entries_ok es" "sorted (map ent_user es)"
  shows "SstReader_Get_loop Bytewise_Compare key snapshot (encode_entries es) None = (OK, newest_visible es key snapshot)"
  unfolding Get_loop_entries [OF assms(1)] takeWhile_sorted_filter [OF assms(2)] newest_visible_def
  by (subst fold_newer) (auto simp: Let_def)

section \<open>The binary search\<close>

lemma FindIndexEntry_loop_spec:
  assumes "sorted us" "us = map (\<lambda>e. user_key_part (ie_key e)) index"
    and "0 \<le> left" "right < int (length us)" "left \<le> right + 1" "result = left - 1"
    and "\<forall>i < length us. int i < left \<longrightarrow> us ! i \<le> key" "\<forall>i < length us. right < int i \<longrightarrow> key < us ! i"
  shows "-1 \<le> FindIndexEntry_loop Bytewise_Compare index key left right result \<and>
    FindIndexEntry_loop Bytewise_Compare index key left right result < int (length us) \<and>
    (\<forall>i < length us. us ! i \<le> key \<longleftrightarrow> int i \<le> FindIndexEntry_loop Bytewise_Compare index key left right result)"
  using assms(3-)
proof (induction "nat (right + 1 - left)" arbitrary: left right result rule: less_induct)
  case less
  let ?loop = "FindIndexEntry_loop Bytewise_Compare index key"
  show ?case
  proof (cases "left \<le> right")
    case False
    then have r: "?loop left right result = left - 1"
      using less.prems(4) by (subst FindIndexEntry_loop.simps) simp
    show ?thesis unfolding r using False less.prems by (auto simp: not_less)
  next
    case True
    define mid where "mid = left + (right - left) div 2"
    have m: "left \<le> mid" "mid \<le> right" "0 \<le> mid" "nat mid < length us"
      using True less.prems(1,2) by (auto simp: mid_def)
    have u: "user_key_part (ie_key (index ! nat mid)) = us ! nat mid" using m(4) assms(2) by simp
    show ?thesis
    proof (cases "us ! nat mid \<le> key")
      case le: True
      have s: "?loop left right result = ?loop (mid + 1) right mid"
        using True le by (subst FindIndexEntry_loop.simps) (simp add: mid_def [symmetric] u Bytewise_tests Let_def)
      have "us ! i \<le> key" if "i < length us" "int i < mid + 1" for i
        using sorted_nth_mono [OF assms(1), of i "nat mid"] that m le by (simp add: le_nat_iff)
      then show ?thesis unfolding s using less.prems m by (intro less.hyps) auto
    next
      case gt: False
      have s: "?loop left right result = ?loop left (mid - 1) result"
        using True gt by (subst FindIndexEntry_loop.simps) (simp add: mid_def [symmetric] u Bytewise_tests Let_def)
      have "key < us ! i" if "i < length us" "mid - 1 < int i" for i
        using sorted_nth_mono [OF assms(1), of "nat mid" i] that m gt by (simp add: nat_le_iff not_le)
      then show ?thesis unfolding s using less.prems m by (intro less.hyps) auto
    qed
  qed
qed

lemma FindIndexEntry_spec:
  assumes "sorted us" "us = map (\<lambda>e. user_key_part (ie_key e)) index"
  shows "-1 \<le> FindIndexEntry Bytewise_Compare index key \<and> FindIndexEntry Bytewise_Compare index key < int (length us) \<and>
    (\<forall>i < length us. us ! i \<le> key \<longleftrightarrow> int i \<le> FindIndexEntry Bytewise_Compare index key)"
proof -
  have l: "length us = length index" by (simp add: assms(2))
  show ?thesis
  proof (cases "index = []")
    case True
    then show ?thesis using l by (simp add: FindIndexEntry_def)
  next
    case False
    then have eq: "FindIndexEntry Bytewise_Compare index key =
        FindIndexEntry_loop Bytewise_Compare index key 0 (int (length us) - 1) (-1)"
      by (simp only: FindIndexEntry_def if_False l)
    show ?thesis
      unfolding eq by (rule FindIndexEntry_loop_spec [OF assms]) auto
  qed
qed

section \<open>Lookups in a written file\<close>

text \<open>No key has its versions on both sides of a block boundary.\<close>

definition no_straddle :: "(bytes \<times> bytes) list list \<Rightarrow> bool" where
  "no_straddle G \<longleftrightarrow> successively (\<lambda>g h. ent_user (last g) \<noteq> ent_user (hd h)) G"

lemma sorted_bounds:
  assumes "sorted (map h xs)" "x \<in> set xs"
  shows "h (hd xs) \<le> h x" "h x \<le> h (last xs)"
proof -
  show "h (hd xs) \<le> h x" using assms by (cases xs) auto
  show "h x \<le> h (last xs)" using assms by (induction xs) (auto split: if_splits)
qed

lemma entries_okD: "entries_ok es \<Longrightarrow> e \<in> set es \<Longrightarrow> 8 \<le> length (fst e)"
  by (cases e) (auto simp: entries_ok_def)

lemma newest_visible_cong:
  "filter (ent_wanted key snapshot) es = filter (ent_wanted key snapshot) es' \<Longrightarrow>
   newest_visible es key snapshot = newest_visible es' key snapshot"
  by (simp add: newest_visible_def)

lemma newest_visible_absent: "key \<notin> ent_user ` set es \<Longrightarrow> newest_visible es key snapshot = None"
  by (auto simp: newest_visible_def ent_wanted_def filter_empty_conv Let_def)

lemma newest_visible_sub:
  "newest_visible es key snapshot = None \<Longrightarrow> set es' \<subseteq> set es \<Longrightarrow> newest_visible es' key snapshot = None"
  by (auto simp: newest_visible_def filter_empty_conv Let_def split: if_splits)

lemma wanted_in_block:
  assumes "sorted (map ent_user (concat G))" "[] \<notin> set G" "no_straddle G" "i < length G"
    and "\<forall>j < length G. ent_user (hd (G ! j)) \<le> key \<longleftrightarrow> j \<le> i"
  shows "filter (ent_wanted key snapshot) (concat G) = filter (ent_wanted key snapshot) (G ! i)"
proof -
  let ?a = "concat (take i G)" and ?b = "G ! i" and ?c = "concat (drop (Suc i) G)"
  have G: "concat G = ?a @ ?b @ ?c"
    using arg_cong [OF split_at_nth [OF assms(4)], of concat] by simp
  have bne: "?b \<noteq> []" using assms(2,4) by (metis nth_mem)
  have le: "ent_user (hd ?b) \<le> key" using assms(4,5) by blast
  have "\<not> ent_wanted key snapshot e" if e: "e \<in> set ?c" for e
  proof -
    obtain j where j: "Suc i \<le> j" "j < length G" "e \<in> set (G ! j)"
    proof -
      obtain g where "g \<in> set (drop (Suc i) G)" "e \<in> set g" using e by auto
      then obtain n where "n < length (drop (Suc i) G)" "e \<in> set (drop (Suc i) G ! n)" by (metis in_set_conv_nth)
      then show ?thesis using that [of "Suc i + n"] by simp
    qed
    have "sorted (map ent_user (G ! j))"
      using assms(1) arg_cong [OF split_at_nth [OF j(2)], of concat] by (simp add: sorted_append)
    then have "ent_user (hd (G ! j)) \<le> ent_user e" using sorted_bounds(1) [of ent_user "G ! j" e] j(3) by simp
    moreover have "key < ent_user (hd (G ! j))" using assms(5) j(1,2) by (metis not_less_eq_eq not_le)
    ultimately show ?thesis by (auto simp: ent_wanted_def)
  qed
  moreover have "\<not> ent_wanted key snapshot e" if e: "e \<in> set ?a" for e
  proof
    assume "ent_wanted key snapshot e"
    then have k: "ent_user e = key" by (simp add: ent_wanted_def)
    have "i \<noteq> 0" using e by (cases i) auto
    then obtain j where j: "i = Suc j" by (cases i) auto
    let ?l = "G ! j"
    have lne: "?l \<noteq> []" using assms(2,4) j by (metis Suc_lessD nth_mem)
    have a: "?a = concat (take j G) @ ?l" using assms(4) by (simp add: j take_Suc_conv_app_nth)
    have srt: "sorted (map ent_user (concat (take j G) @ ?l))" using assms(1) G unfolding a by (simp add: sorted_append)
    have "e \<in> set (concat (take j G)) \<or> e \<in> set ?l" using e unfolding a by simp
    then have "ent_user e \<le> ent_user (last ?l)"
    proof
      assume "e \<in> set (concat (take j G))"
      then show ?thesis using srt lne by (simp add: sorted_append del: set_concat)
    next
      assume "e \<in> set ?l"
      moreover have "sorted (map ent_user ?l)" using srt by (simp add: sorted_append)
      ultimately show ?thesis using sorted_bounds(2) [of ent_user ?l e] by simp
    qed
    moreover have "ent_user (last ?l) \<le> ent_user (hd ?b)"
      using assms(1) G lne bne unfolding a by (simp add: sorted_append)
    ultimately have "ent_user (last ?l) = ent_user (hd ?b)" using k le by simp
    moreover have "ent_user (last ?l) \<noteq> ent_user (hd ?b)"
      using assms(3,4) j by (simp add: no_straddle_def successively_conv_nth)
    ultimately show False by simp
  qed
  ultimately show ?thesis unfolding G by (simp add: filter_empty_conv)
qed

lemma ReadDataBlock_at:
  assumes fit: "blocks_fit G bl m" and img: "map_of (fs_files fs) f = Some (sst_image G bl m)"
    and os: "fs_can_read fs f" and r: "sr_filename r = f" and i: "i < length G"
  shows "ReadDataBlock fs r (ie_block_offset (index_of 0 G ! i)) (ie_block_size (index_of 0 G ! i)) = (OK, encode_entries (G ! i))"
proof -
  let ?d = "encode_entries (G ! i)"
  define h where "h = take 16 (block_file kDataBlock ?d)"
  have b: "block_file kDataBlock ?d = h @ ?d" "length h = 16" by (simp_all add: h_def block_file_def)
  define pre where "pre = data_part (take i G) @ h"
  obtain post where I: "sst_image G bl m = pre @ ?d @ post"
    unfolding sst_image_def data_part_nth [OF i] b(1) pre_def by auto
  have "G ! i \<noteq> []" using fit nth_mem [OF i] by (metis blocks_fit_def)
  then have N: "length (sst_image G bl m) < 2 ^ 32" "?d \<noteq> []" using fit by (simp_all add: blocks_fit_def)
  have l: "length pre + length ?d < 2 ^ 32" using N(1) unfolding I by simp
  have o: "ie_block_offset (index_of 0 G ! i) + 16 = of_nat (length pre)" using i b(2) by (simp add: index_of_nth pre_def)
  have sz: "unat (ie_block_size (index_of 0 G ! i)) = 16 + length ?d"
    using i l b(2) unfolding index_of_nth [OF i] by (simp add: block_length_def pre_def) (subst unat_of_nat32 [symmetric], simp, simp)
  have "File_Read fs f (of_nat (length pre)) (length ?d) = (OK, ?d)"
    by (rule File_Read_slice [OF img [unfolded I] os]) (use l in simp)
  moreover have "ie_block_size (index_of 0 G ! i) \<noteq> 0" using sz by auto
  moreover have "\<not> unat (ie_block_size (index_of 0 G ! i)) \<le> 16" using sz N(2) by simp
  moreover have "unat (ie_block_size (index_of 0 G ! i)) - 16 = length ?d" using sz by simp
  ultimately show ?thesis unfolding ReadDataBlock_def by (simp only: r o if_False Let_def prod.case) simp
qed

definition bloom_sound :: "bytes \<Rightarrow> bytes set \<Rightarrow> bool" where
  "bloom_sound bl keys \<longleftrightarrow> bl = [] \<or>
     (\<exists>br. Reader_Initialize bl = Some br \<and> (\<forall>key. Reader_MayContain br key \<noteq> None) \<and>
        (\<forall>key \<in> keys. Reader_MayContain br key = Some True))"

definition table_sorted :: "(bytes \<times> bytes) list list \<Rightarrow> bool" where
  "table_sorted G \<longleftrightarrow> entries_ok (concat G) \<and> sorted (map ent_user (concat G)) \<and> no_straddle G"

lemma first_keys:
  assumes "[] \<notin> set G" "entries_ok (concat G)" "sorted (map ent_user (concat G))"
  shows "map (\<lambda>e. user_key_part (ie_key e)) (index_of 0 G) = map (\<lambda>g. ent_user (hd g)) G"
    "sorted (map (\<lambda>g. ent_user (hd g)) G)"
proof -
  have u: "user_key_part (fst (hd g)) = ent_user (hd g)" if g: "g \<in> set G" for g
  proof -
    have "hd g \<in> set (concat G)" using g assms(1) by (auto intro!: bexI [of _ g] hd_in_set)
    then have "8 \<le> length (fst (hd g))" using assms(2) entries_okD by blast
    then show ?thesis by (simp add: user_key_part_def InternalKey_user_key_def ParseInternalKey_def DecodeFixed64_le)
  qed
  have "map (\<lambda>e. user_key_part (ie_key e)) (index_of 0 G) = map user_key_part (map ie_key (index_of 0 G))" by simp
  then show "map (\<lambda>e. user_key_part (ie_key e)) (index_of 0 G) = map (\<lambda>g. ent_user (hd g)) G"
    unfolding keys_index_of using u by simp
  show "sorted (map (\<lambda>g. ent_user (hd g)) G)"
    using assms(1,3)
  proof (induction G)
    case (Cons g G)
    have "ent_user (hd g) \<le> ent_user (hd h)" if "h \<in> set G" for h
    proof -
      have "hd h \<in> set (concat G)" "hd g \<in> set g"
        using that Cons.prems(1) by (auto intro!: bexI [of _ h] hd_in_set)
      then show ?thesis using Cons.prems(2) by (simp add: sorted_append del: set_concat)
    qed
    then show ?case using Cons by (auto simp: sorted_append)
  qed simp
qed

lemma Get_opened:
  assumes fit: "blocks_fit G bl m" and img: "map_of (fs_files fs) f = Some (sst_image G bl m)"
    and os: "fs_can_read fs f" and srt: "table_sorted G" and bs: "bloom_sound bl (ent_user ` set (concat G))"
    and range: "sm_smallest_key m = ent_user (hd (concat G))" "sm_largest_key m = ent_user (last (concat G))"
  shows "SstReader_Get Bytewise_Compare fs (opened_reader f G bl m) key snapshot =
    Some (SstReader_answer (newest_visible (concat G) key snapshot))"
proof -
  let ?r = "opened_reader f G bl m" and ?i = "FindIndexEntry Bytewise_Compare (index_of 0 G) key"
  have ne: "[] \<notin> set G" "concat G \<noteq> []" using fit by (auto simp: blocks_fit_def) (metis list.set_intros(1) neq_Nil_conv)
  have s: "entries_ok (concat G)" "sorted (map ent_user (concat G))" "no_straddle G" using srt by (simp_all add: table_sorted_def)
  note F = FindIndexEntry_spec [OF first_keys(2) [OF ne(1) s(1,2)] first_keys(1) [OF ne(1) s(1,2), symmetric], of key]
  have ix: "sr_index ?r = index_of 0 G" "sr_opened ?r" "sr_filename ?r = f" by (simp_all add: opened_reader_def)
  have rng: "KeyInRange Bytewise_Compare (sr_meta ?r) k" if k: "k \<in> ent_user ` set (concat G)" for k
  proof -
    obtain e where "e \<in> set (concat G)" "k = ent_user e" using k by blast
    then have "ent_user (hd (concat G)) \<le> k" "k \<le> ent_user (last (concat G))" using sorted_bounds [OF s(2)] by simp_all
    then show ?thesis
      by (simp add: KeyInRange_def opened_reader_def range Bytewise_tests)
  qed
  obtain b where b: "bloom_allows ?r key = Some b" "key \<in> ent_user ` set (concat G) \<Longrightarrow> b"
  proof (cases "bl = []")
    case True
    then show ?thesis using that by (simp add: bloom_allows_def opened_reader_def)
  next
    case False
    then obtain br where "Reader_Initialize bl = Some br" "Reader_MayContain br key \<noteq> None"
      "key \<in> ent_user ` set (concat G) \<Longrightarrow> Reader_MayContain br key = Some True"
      using bs unfolding bloom_sound_def by blast
    then show ?thesis using False that by (auto simp: bloom_allows_def opened_reader_def simp del: set_concat)
  qed
  show ?thesis
  proof (cases "0 \<le> ?i")
    case False
    have "\<not> ent_user e \<le> key" if "e \<in> set (concat G)" for e
    proof -
      have "0 < length G" using fit by (simp add: blocks_fit_def)
      then have "\<not> ent_user (hd (G ! 0)) \<le> key" using F False by auto
      moreover have "ent_user (hd (G ! 0)) \<le> ent_user e"
      proof -
        obtain e0 t where t: "concat G = e0 # t" using ne(2) by (cases "concat G") auto
        have "hd (G ! 0) = e0"
          using t ne(1) by (cases G; cases "hd G") auto
        then show ?thesis using s(2) that unfolding t by auto
      qed
      ultimately show ?thesis by (metis order.trans)
    qed
    then have "newest_visible (concat G) key snapshot = None"
      by (intro newest_visible_absent) (auto simp del: set_concat)
    then show ?thesis using False b(1) by (simp add: SstReader_Get_def ix SstReader_answer_def)
  next
    case True
    then have i: "nat ?i < length G" using F by (simp add: nat_less_iff)
    have sp: "concat G = concat (take (nat ?i) G) @ G ! nat ?i @ concat (drop (Suc (nat ?i)) G)"
      using arg_cong [OF split_at_nth [OF i], of concat] by simp
    have gok: "entries_ok (G ! nat ?i)" "sorted (map ent_user (G ! nat ?i))"
      using s(1,2) unfolding sp entries_ok_def by (auto simp: sorted_append)
    have w: "newest_visible (G ! nat ?i) key snapshot = newest_visible (concat G) key snapshot"
      by (rule newest_visible_cong, rule wanted_in_block [OF s(2) ne(1) s(3) i, symmetric])
        (use F True in \<open>auto simp: le_nat_iff\<close>)
    have a: "SstReader_answer (newest_visible (concat G) key snapshot) = (OK, None)" if "key \<notin> ent_user ` set (concat G)"
      using newest_visible_absent [OF that] by (simp add: SstReader_answer_def)
    show ?thesis
    proof (cases "KeyInRange Bytewise_Compare (sr_meta ?r) key \<and> b")
      case False
      then have "key \<notin> ent_user ` set (concat G)" using rng b(2) by blast
      then show ?thesis using False b(1) a ix(2) by (auto simp: SstReader_Get_def)
    next
      case T: True
      then show ?thesis
        using True b(1) ReadDataBlock_at [OF fit img os ix(3) i] Get_loop_newest [OF gok, of key snapshot]
        by (simp add: SstReader_Get_def ix w Let_def)
    qed
  qed
qed

end
