(* ===== verification/SSTableFlush.thy ===== *)
theory SSTableFlush
  imports SSTableReads "HOL-Library.Multiset"
begin

text \<open>
  The flush of a memtable to an SSTable (\<open>SSTableCompactor::FlushMemTable\<close>) and what a reader of the
  file then answers. The file keeps the entries in the byte order of their encoded internal keys.
  This is the order of the user keys only when no key continues another one with a byte as small as
  a value type: \<open>text_key\<close> excludes such bytes.
\<close>

section \<open>FlushMemTable\<close>

text \<open>The loop over the memtable's iterator; \<open>None\<close> is fuel exhausted, and one round per entry is
  enough. The iterator's status is read after the loop.\<close>

fun collect_entries ::
    "(bytes \<Rightarrow> bytes \<Rightarrow> int) \<Rightarrow> (bytes \<times> entry) list \<Rightarrow> nat \<Rightarrow> mem_iter \<Rightarrow> (bytes \<times> bytes) list
     \<Rightarrow> (status \<times> (bytes \<times> bytes) list) option" where
  "collect_entries cmp tbl fuel it acc =
     (if \<not> MemIter_Valid it then Some (it_status it, acc)
      else case fuel of
        0 \<Rightarrow> None
      | Suc n \<Rightarrow> collect_entries cmp tbl n (MemIter_Next cmp tbl it)
                   (acc @ [(InternalKey (cur_key it) (cur_seq it) (cur_type it), cur_value it)]))"

declare collect_entries.simps [simp del]

text \<open>The destructor abandons a writer that was opened and did not finish.\<close>

definition SstWriter_destroy :: "sst_writer \<Rightarrow> fs \<Rightarrow> fs" where
  "SstWriter_destroy w fs =
     (if sw_opened w \<and> \<not> sw_finished w then snd (snd (SstWriter_Abandon w fs)) else fs)"

text \<open>The options of the compactor's writers: 64 KB blocks, ten bits per key.\<close>

definition compactor_options :: sst_writer_options where
  "compactor_options = \<lparr>wo_block_size = 64 * 1024, wo_enable_bloom_filter = True, wo_bloom = default_bloom\<rparr>"

definition Compactor_FlushMemTable ::
    "(bytes \<Rightarrow> bytes \<Rightarrow> int) \<Rightarrow> sst_writer_options \<Rightarrow> memtable option \<Rightarrow> string \<Rightarrow> int \<Rightarrow> u64 \<Rightarrow> fs
     \<Rightarrow> (status \<times> sst_meta option \<times> fs) option" where
  "Compactor_FlushMemTable cmp opts mem output_filename output_level now fs =
     (case mem of
        None \<Rightarrow> Some (InvalidArgument ''MemTable is null'', None, fs)
      | Some mt \<Rightarrow>
     (let (s, w, fs) = SstWriter_Open (SSTableWriter opts) output_filename now fs in
      if \<not> ok s then Some (s, None, SstWriter_destroy w fs)
      else case collect_entries cmp (table mt) (length (table mt)) (MemIter_SeekToFirst cmp (table mt) MemIter_new) [] of
        None \<Rightarrow> None
      | Some (s, es) \<Rightarrow>
          (if \<not> ok s then (let (_, w, fs) = SstWriter_Abandon w fs in Some (s, None, SstWriter_destroy w fs))
           else let (s, w, fs) = Add_loop cmp w (sort_key fst es) fs in
           if \<not> ok s then (let (_, w, fs) = SstWriter_Abandon w fs in Some (s, None, SstWriter_destroy w fs))
           else let (s, w, fs) = SstWriter_Finish w fs in
           if \<not> ok s then Some (s, None, SstWriter_destroy w fs)
           else Some (OK, Some ((sw_meta w)\<lparr>sm_level := output_level\<rparr>), SstWriter_destroy w fs))))"

section \<open>The entries of a memtable\<close>

definition mem_entries :: "memtable \<Rightarrow> (bytes \<times> bytes) list" where
  "mem_entries mt = map (\<lambda>p. (fst p, e_value (snd p))) (table mt)"

definition sst_entries :: "memtable \<Rightarrow> (bytes \<times> bytes) list" where
  "sst_entries mt = sort_key fst (mem_entries mt)"

lemma set_sst_entries [simp]: "set (sst_entries mt) = set (mem_entries mt)"
  by (simp add: sst_entries_def)

lemma collect_entries_all:
  assumes "mt_ok Bytewise_Compare mt" "mem_at (table mt) i it" "i \<le> length (table mt)" "length (table mt) \<le> i + fuel"
  shows "\<exists>s. collect_entries Bytewise_Compare (table mt) fuel it acc = Some (s, acc @ drop i (mem_entries mt)) \<and> ok s"
  using assms(2-)
proof (induction fuel arbitrary: i it acc)
  case 0
  then have "\<not> MemIter_Valid it" by (simp add: mem_at_Valid)
  then show ?case using 0 by (simp add: collect_entries.simps mem_at_status mem_entries_def)
next
  case (Suc n)
  show ?case
  proof (cases "i < length (table mt)")
    case False
    then have "\<not> MemIter_Valid it" using Suc.prems(1) by (simp add: mem_at_Valid)
    then show ?thesis using False Suc.prems(1) by (simp add: collect_entries.simps mem_at_status mem_entries_def)
  next
    case True
    have v: "MemIter_Valid it" using True Suc.prems(1) by (simp add: mem_at_Valid)
    have e: "(InternalKey (cur_key it) (cur_seq it) (cur_type it), cur_value it) = mem_entries mt ! i"
    proof -
      have "InternalKey (cur_key it) (cur_seq it) (cur_type it) = fst (table mt ! i)"
        "cur_value it = e_value (snd (table mt ! i))" using Suc.prems(1) unfolding mem_at_def if_P [OF True] by blast+
      then show ?thesis using True by (simp only: mem_entries_def nth_map)
    qed
    have "drop i (mem_entries mt) = mem_entries mt ! i # drop (Suc i) (mem_entries mt)"
      by (rule Cons_nth_drop_Suc [symmetric]) (use True in \<open>simp add: mem_entries_def\<close>)
    then show ?thesis
      using Suc.IH [OF bytewise_user.mem_at_next [OF assms(1) Suc.prems(1) True], of "acc @ [mem_entries mt ! i]"] True Suc.prems(3)
      by (subst collect_entries.simps) (simp add: v e)
  qed
qed

lemma collect_mem_entries:
  assumes "mt_ok Bytewise_Compare mt"
  shows "\<exists>s. collect_entries Bytewise_Compare (table mt) (length (table mt))
    (MemIter_SeekToFirst Bytewise_Compare (table mt) MemIter_new) [] = Some (s, mem_entries mt) \<and> ok s"
  using collect_entries_all [OF assms bytewise_user.mem_at_first [OF assms], of MemIter_new "length (table mt)" "[]"]
  by (simp add: MemIter_new_def)

text \<open>The internal keys of a memtable are distinct, so their order in the file is strict.\<close>

lemma distinct_mem_entries:
  assumes "mt_ok Bytewise_Compare mt"
  shows "distinct (map fst (mem_entries mt))"
proof -
  have "sorted_wrt (\<lambda>p q. InternalKeyComparator_Compare Bytewise_Compare (fst p) (fst q) < 0) xs \<Longrightarrow>
      \<forall>p \<in> set xs. 8 \<le> length (fst p) \<Longrightarrow> distinct (map fst xs)" for xs :: "(bytes \<times> entry) list"
  proof (induction xs)
    case (Cons p xs)
    have "fst p \<noteq> fst q" if "q \<in> set xs" for q
      using Cons.prems that bytewise_user.internal.cmp_refl [of "fst p"] by force
    then show ?case using Cons by auto
  qed simp
  then have "distinct (map fst (table mt))"
    using assms by (auto simp: mt_ok_def ordered_by_def)
  then show ?thesis by (simp add: mem_entries_def comp_def)
qed

lemma sst_entries_ascending:
  assumes "mt_ok Bytewise_Compare mt"
  shows "sorted_wrt (\<lambda>a b. fst a < fst b) (sst_entries mt)"
proof -
  have "distinct (map fst (sst_entries mt))"
    using distinct_mem_entries [OF assms] by (simp add: sst_entries_def distinct_map)
  then have "sorted_wrt (<) (map fst (sst_entries mt))"
    by (simp add: strict_sorted_iff sst_entries_def)
  then show ?thesis by (simp add: sorted_wrt_map)
qed

lemma mem_entries_keys:
  assumes "mt_ok Bytewise_Compare mt" "(k, v) \<in> set (mem_entries mt)"
  shows "8 \<le> length k" "ent_type (k, v) \<in> {kValue, kDeletion, kMerge}"
  using assms by (auto simp: mem_entries_def mt_ok_def ordered_by_def)

section \<open>File order and key order\<close>

definition text_key :: "bytes \<Rightarrow> bool" where
  "text_key key \<longleftrightarrow> key \<noteq> [] \<and> (\<forall>b \<in> set key. 3 < b)"

text \<open>An internal key is its user key, then its type, then the sequence number.\<close>

lemma internal_key_shape:
  assumes "8 \<le> length k"
  shows "\<exists>rest. k = InternalKey_user_key k @ InternalKey_type k # rest"
proof -
  obtain uk s t where p: "ParseInternalKey k = Some (uk, s, t)" using parse_entry [OF assms] by blast
  have "k = PutInternalKey [] uk s t" using Put_ParseInternalKey [OF p] by simp
  moreover have "PutInternalKey [] uk s t = uk @ t # tl (PutFixed64 [] (push_bit 8 s OR ucast t))"
    using tag_type [of s t] by (simp add: PutInternalKey_def PutFixed64_append [of uk]) (simp add: PutFixed64_def ucast8_mask64)
  ultimately show ?thesis using p by (auto simp: InternalKey_user_key_def InternalKey_type_def)
qed

lemma append_less_cases:
  fixes a b :: "'a::linorder list"
  assumes "a @ x # r \<le> b @ y # q" "b < a"
  shows "\<exists>c s. a = b @ c # s \<and> c \<le> y"
  using assms
proof (induction b arbitrary: a)
  case Nil
  then show ?case by (cases a) auto
next
  case (Cons z b)
  then show ?case by (cases a) auto
qed

lemma text_keys_le:
  assumes "fst a < fst b" "8 \<le> length (fst a)" "8 \<le> length (fst b)" "text_key (ent_user a)" "ent_type b \<le> 3"
  shows "ent_user a \<le> ent_user b"
proof (rule ccontr)
  assume "\<not> ent_user a \<le> ent_user b"
  then have lt: "ent_user b < ent_user a" by simp
  obtain r q where "fst a = ent_user a @ ent_type a # r" "fst b = ent_user b @ ent_type b # q"
    using internal_key_shape assms(2,3) by meson
  then have "ent_user a @ ent_type a # r \<le> ent_user b @ ent_type b # q" using assms(1) by simp
  then obtain c s where c: "ent_user a = ent_user b @ c # s" "c \<le> ent_type b"
    using append_less_cases [OF _ lt] by blast
  then have "3 < c" using assms(4) by (auto simp: text_key_def)
  then show False using c(2) assms(5) by simp
qed

lemma text_entries_sorted:
  assumes "sorted_wrt (\<lambda>a b. fst a < fst b) es"
    and "\<forall>e \<in> set es. 8 \<le> length (fst e) \<and> text_key (ent_user e) \<and> ent_type e \<le> 3"
  shows "sorted (map ent_user es)"
proof -
  have "sorted_wrt (\<lambda>a b. ent_user a \<le> ent_user b) es"
    by (rule sorted_wrt_mono_rel [OF _ assms(1)]) (use assms(2) text_keys_le in blast)
  then show ?thesis by (simp add: sorted_wrt_map)
qed

lemma text_keys_sorted:
  assumes "mt_ok Bytewise_Compare mt" "\<forall>e \<in> set (mem_entries mt). text_key (ent_user e)"
  shows "sorted (map ent_user (sst_entries mt))"
proof (rule text_entries_sorted [OF sst_entries_ascending [OF assms(1)]])
  show "\<forall>e \<in> set (sst_entries mt). 8 \<le> length (fst e) \<and> text_key (ent_user e) \<and> ent_type e \<le> 3"
  proof
    fix e assume "e \<in> set (sst_entries mt)"
    then have e: "e \<in> set (mem_entries mt)" by simp
    then show "8 \<le> length (fst e) \<and> text_key (ent_user e) \<and> ent_type e \<le> 3"
      using mem_entries_keys [OF assms(1), of "fst e" "snd e"] assms(2) by (auto simp: value_types)
  qed
qed

section \<open>The file of a flush\<close>

lemma UpdateMeta_parsed:
  assumes "8 \<le> length k"
  shows "sm_smallest_key (UpdateMeta m k v) = (if sm_smallest_key m = [] then InternalKey_user_key k else sm_smallest_key m)"
    "sm_largest_key (UpdateMeta m k v) = InternalKey_user_key k"
    "sm_filename (UpdateMeta m k v) = sm_filename m" "sm_level (UpdateMeta m k v) = sm_level m"
  by (simp_all add: UpdateMeta_def parse_entry [OF assms] Let_def)

lemma meta_add_snoc: "meta_add m (es @ [e]) = UpdateMeta (meta_add m es) (fst e) (snd e)"
  by (simp add: meta_add_def split: prod.split)

lemma meta_add_Nil [simp]: "meta_add m [] = m"
  by (simp add: meta_add_def)

lemma meta_add_single [simp]: "meta_add m [e] = UpdateMeta m (fst e) (snd e)"
  using meta_add_snoc [of m "[]" e] by simp

lemma meta_add_smallest:
  "\<forall>e \<in> set es. 8 \<le> length (fst e) \<and> ent_user e \<noteq> [] \<Longrightarrow> es \<noteq> [] \<Longrightarrow>
   sm_smallest_key (meta_add m es) = (if sm_smallest_key m = [] then ent_user (hd es) else sm_smallest_key m)"
proof (induction es rule: rev_induct)
  case (snoc e es)
  then have "8 \<le> length (fst e)" by simp
  then show ?case using snoc by (cases "es = []") (simp_all add: meta_add_snoc UpdateMeta_parsed)
qed simp

lemma meta_add_largest:
  assumes "\<forall>e \<in> set es. 8 \<le> length (fst e)" "es \<noteq> []"
  shows "sm_largest_key (meta_add m es) = ent_user (last es)"
  using assms by (cases es rule: rev_cases) (simp_all add: meta_add_snoc UpdateMeta_parsed)

lemma meta_add_level: "\<forall>e \<in> set es. 8 \<le> length (fst e) \<Longrightarrow> sm_level (meta_add m es) = sm_level m"
  by (induction es rule: rev_induct) (simp_all add: meta_add_snoc UpdateMeta_parsed)

lemma length_Meta_Encode:
  "length (sm_filename m) + length (sm_smallest_key m) + length (sm_largest_key m) \<le> length (Meta_Encode m)"
  by (simp add: Meta_Encode_def Let_def put_normal PutLengthPrefixedSlice_def)

lemma group_fold:
  "foldl (group_add bs) (gs, g) es = (gs', g') \<Longrightarrow> [] \<notin> set gs \<Longrightarrow>
   concat gs' @ g' = concat gs @ g @ es \<and> [] \<notin> set gs' \<and> (es \<noteq> [] \<longrightarrow> g' \<noteq> [])"
proof (induction es arbitrary: gs g)
  case (Cons e es)
  obtain gs1 g1 where 1: "group_add bs (gs, g) e = (gs1, g1)" by fastforce
  have n: "[] \<notin> set gs1" using 1 Cons.prems(2) by (auto simp: group_add_def split: if_splits)
  have "concat gs' @ g' = concat gs1 @ g1 @ es \<and> [] \<notin> set gs' \<and> (es \<noteq> [] \<longrightarrow> g' \<noteq> [])"
    using Cons.IH [OF _ n] Cons.prems(1) 1 by simp
  moreover have "concat gs1 @ g1 @ es = concat gs @ g @ e # es"
    using arg_cong [OF conjunct1 [OF group_add_concat [OF 1]], of "\<lambda>x. x @ es"] by simp
  moreover have "es = [] \<longrightarrow> g' \<noteq> []" using Cons.prems(1) 1 group_add_concat [OF 1] by auto
  ultimately show ?case by auto
qed simp

lemma group_entries_concat:
  "concat (group_entries bs es) = es" "[] \<notin> set (group_entries bs es)" "es \<noteq> [] \<Longrightarrow> group_entries bs es \<noteq> []"
proof -
  obtain gs g where f: "foldl (group_add bs) ([], []) es = (gs, g)" by fastforce
  show "concat (group_entries bs es) = es" "[] \<notin> set (group_entries bs es)" "es \<noteq> [] \<Longrightarrow> group_entries bs es \<noteq> []"
    using group_fold [OF f] by (auto simp: group_entries_def f)
qed

lemma entries_in_file:
  assumes "length (sst_image G bl m) < 2 ^ 32" "\<forall>e \<in> set (concat G). 8 \<le> length (fst e)"
  shows "entries_ok (concat G)"
  unfolding entries_ok_def
proof (clarify)
  fix k v assume e: "(k, v) \<in> set (concat G)"
  then obtain g where g: "g \<in> set G" "(k, v) \<in> set g" by auto
  have "length k + length v \<le> length (sst_image G bl m)"
    using length_encode_entries [OF g(2)] length_data_part [OF g(1)] by (simp add: sst_image_def)
  then show "8 \<le> length k \<and> length k < 2 ^ 32 \<and> length v < 2 ^ 32" using assms e by fastforce
qed

lemma image_fits:
  assumes "length (sst_image G bl m) < 2 ^ 32" "G \<noteq> []" "[] \<notin> set G" "sm_level m = 0"
  shows "blocks_fit G bl m"
  using assms length_Meta_Encode [of m] by (simp add: blocks_fit_def meta_fits_def sst_image_def)

lemma hd_of_group:
  assumes "G \<noteq> []" "[] \<notin> set G" shows "hd (hd G) = hd (concat G)"
  using assms by (cases G) auto

lemma block_first_keys:
  assumes "sorted_wrt (\<lambda>a b. fst a < fst b) (concat G)" "[] \<notin> set G"
  shows "sorted_wrt (\<lambda>a b. Bytewise_Compare a b < 0) (map (\<lambda>g. fst (hd g)) G)"
  using assms
proof (induction G)
  case (Cons g G)
  have "fst (hd g) < fst (hd h)" if "h \<in> set G" for h
  proof -
    have "hd h \<in> set (concat G)" "hd g \<in> set g"
      using that Cons.prems(2) by (auto intro!: bexI [of _ h] hd_in_set)
    then show ?thesis using Cons.prems(1) by (simp add: sorted_wrt_append del: set_concat)
  qed
  then show ?case using Cons by (auto simp: sorted_wrt_append Bytewise_tests)
qed simp

text \<open>Reading a file with an image whose entries are in key order.\<close>

lemma read_image:
  assumes img: "map_of (fs_files fs) f = Some (sst_image G bl m)" and os: "fs_can_read fs f" "fs_can_open fs f"
    and len: "length (sst_image G bl m) < 2 ^ 32" and G: "G \<noteq> []" "[] \<notin> set G" and lvl: "sm_level m = 0"
    and asc: "sorted_wrt (\<lambda>a b. fst a < fst b) (concat G)" "\<forall>e \<in> set (concat G). 8 \<le> length (fst e)"
    and srt: "sorted (map ent_user (concat G))" "no_straddle G" and bs: "bloom_sound bl (ent_user ` set (concat G))"
    and range: "sm_smallest_key m = ent_user (hd (concat G))" "sm_largest_key m = ent_user (last (concat G))"
  shows "SstReader_Open Bytewise_Compare fs f SSTableReader = (OK, opened_reader f G bl m)"
    "SstReader_Get Bytewise_Compare fs (opened_reader f G bl m) key snapshot =
       Some (SstReader_answer (newest_visible (concat G) key snapshot))"
proof -
  note fit = image_fits [OF len G lvl] and eok = entries_in_file [OF len asc(2)]
  have ne: "concat G \<noteq> []" using G by (cases G) auto
  have u: "user_key_part (fst (hd g)) = ent_user (hd g)" if "g \<in> set G" for g
  proof -
    have "hd g \<in> set (concat G)" using that G(2) by (auto intro!: bexI [of _ g] hd_in_set)
    then have "8 \<le> length (fst (hd g))" using asc(2) by blast
    then show ?thesis by (simp add: user_key_part_def InternalKey_user_key_def ParseInternalKey_def DecodeFixed64_le)
  qed
  have "ent_user (hd (last G)) \<le> ent_user (last (concat G))"
  proof -
    have "hd (last G) \<in> set (concat G)" using G by (auto intro!: bexI [of _ "last G"] hd_in_set) (metis last_in_set)
    then show ?thesis using sorted_bounds(2) [OF srt(1)] by simp
  qed
  then have "range_consistent Bytewise_Compare G m"
    using u [of "hd G"] u [of "last G"] G by (simp add: range_consistent_def range hd_of_group Bytewise_tests)
  then show "SstReader_Open Bytewise_Compare fs f SSTableReader = (OK, opened_reader f G bl m)"
    using bs by (intro Open_at(1) [OF fit img os block_first_keys [OF asc(1) G(2)]]) (auto simp: bloom_sound_def)
  show "SstReader_Get Bytewise_Compare fs (opened_reader f G bl m) key snapshot =
       Some (SstReader_answer (newest_visible (concat G) key snapshot))"
    by (rule Get_opened [OF fit img os(1) _ bs range]) (simp add: table_sorted_def eok srt)
qed

lemma bloom_data_sound:
  assumes "wo_enable_bloom_filter opts \<longrightarrow> bloom_params_ok (wo_bloom opts) (length es)" "\<forall>e \<in> set es. 8 \<le> length (fst e)"
  shows "bloom_sound (bloom_data opts es) (ent_user ` set es)"
proof (cases "wo_enable_bloom_filter opts \<and> es \<noteq> []")
  case False
  then have "bloom_data opts es = []" by (auto simp: bloom_data_def Builder_Finish_def)
  then show ?thesis by (simp add: bloom_sound_def)
next
  case True
  let ?bb = "\<lparr>bb_params = wo_bloom opts, bb_keys = map (bloom_key \<circ> fst) es\<rparr>"
  have ok: "bloom_params_ok (bb_params ?bb) (length (bb_keys ?bb))" using True assms(1) by simp
  have bl: "bloom_data opts es = Bloom_Serialize (built_filter ?bb)"
    using True by (simp add: bloom_data_def Builder_Finish_def built_filter_def Let_def)
  have k: "bloom_key (fst e) = ent_user e" if "e \<in> set es" for e
    using assms(2) that parse_entry [of "fst e"] by (simp add: bloom_key_def)
  have "ent_user ` set es \<subseteq> set (bb_keys ?bb)" using k by force
  then show ?thesis
    unfolding bl bloom_sound_def using Initialize_Serialize [OF built_filter_ok(1) [OF ok]]
      Reader_MayContain_reader_of [OF built_filter_ok [OF ok]] Bloom_MayContain_built [OF ok] by auto
qed

text \<open>What a flush that returns \<open>OK\<close> has done: the image of the entries, in blocks, is the file's
  contents and on disk, and the metadata it returns describes that file.\<close>

abbreviation flush_groups :: "sst_writer_options \<Rightarrow> memtable \<Rightarrow> (bytes \<times> bytes) list list" where
  "flush_groups opts mt \<equiv> group_entries (wo_block_size opts) (sst_entries mt)"

abbreviation flushed_image :: "sst_writer_options \<Rightarrow> memtable \<Rightarrow> string \<Rightarrow> u64 \<Rightarrow> bytes" where
  "flushed_image opts mt f now \<equiv>
     sst_image (flush_groups opts mt) (bloom_data opts (sst_entries mt)) (written_meta f now (sst_entries mt))"

lemma SstWriter_destroy_finished: "sw_finished w \<Longrightarrow> SstWriter_destroy w fs = fs"
  by (simp add: SstWriter_destroy_def)

lemma Finish_finished:
  assumes "SstWriter_Finish w fs = (s, w', fs')" "ok s" shows "sw_finished w'"
  using assms by (auto simp: SstWriter_Finish_def Let_def split: if_split_asm prod.split_asm)

lemma flush_image:
  assumes ok: "mt_ok Bytewise_Compare mt" and ne: "table mt \<noteq> []"
    and run: "Compactor_FlushMemTable Bytewise_Compare opts (Some mt) f lvl now fs = Some (s, m, fs')" "ok s"
  shows "map_of (fs_files fs') f = Some (flushed_image opts mt f now)"
    "map_of (fs_disk fs') f = Some (flushed_image opts mt f now)" "touches f fs fs'"
    "m = Some ((written_meta f now (sst_entries mt))\<lparr>sm_level := lvl,
       sm_file_size := of_nat (length (flushed_image opts mt f now)), sm_num_entries := of_nat (length (table mt))\<rparr>)"
proof -
  obtain s1 w1 fs1 where o: "SstWriter_Open (SSTableWriter opts) f now fs = (s1, w1, fs1)" by (metis prod_cases3)
  obtain s2 where c: "collect_entries Bytewise_Compare (table mt) (length (table mt))
    (MemIter_SeekToFirst Bytewise_Compare (table mt) MemIter_new) [] = Some (s2, mem_entries mt)" "ok s2"
    using collect_mem_entries [OF ok] by blast
  have s1: "ok s1" using run o by (auto simp: Compactor_FlushMemTable_def split: if_split_asm)
  obtain s3 w3 fs3 where a: "Add_loop Bytewise_Compare w1 (sst_entries mt) fs1 = (s3, w3, fs3)" by (metis prod_cases3)
  have s3: "ok s3" using run o c a s1
    by (auto simp: Compactor_FlushMemTable_def sst_entries_def [symmetric] split: if_split_asm prod.split_asm)
  obtain s4 w4 fs4 where f: "SstWriter_Finish w3 fs3 = (s4, w4, fs4)" by (metis prod_cases3)
  have s4: "ok s4" "fs' = fs4" "m = Some ((sw_meta w4)\<lparr>sm_level := lvl\<rparr>)" using run o c a s1 s3 f
    by (auto simp: Compactor_FlushMemTable_def sst_entries_def [symmetric] SstWriter_destroy_finished [OF Finish_finished [OF f]]
        split: if_split_asm)
  note O = Open_writer_at [OF o s1]
  obtain gs g where g: "foldl (group_add (wo_block_size opts)) ([], []) (sst_entries mt) = (gs, g)" by fastforce
  have A: "writer_at w3 fs3 opts f now gs g" "touches f fs1 fs3" "concat gs @ g = sst_entries mt"
    using Add_loop_at [OF O(1) a s3 g [symmetric]] by simp_all
  have G: "closed_groups gs g = flush_groups opts mt" by (simp add: closed_groups_def group_entries_def g)
  have l: "length (concat (flush_groups opts mt)) = length (table mt)"
    by (simp add: group_entries_concat(1) sst_entries_def mem_entries_def del: length_concat)
  have n: "concat gs @ g \<noteq> []" unfolding A(3) using ne by (auto simp: sst_entries_def mem_entries_def dest: arg_cong [of _ _ length])
  note F = Finish_at [OF A(1) n f s4(1), unfolded A(3) G]
  show "map_of (fs_files fs') f = Some (flushed_image opts mt f now)" unfolding s4(2) by (rule F(1))
  show "map_of (fs_disk fs') f = Some (flushed_image opts mt f now)" unfolding s4(2) by (rule F(2))
  show "touches f fs fs'" unfolding s4(2) using O(2) A(2) F(3) touches_trans by blast
  show "m = Some ((written_meta f now (sst_entries mt))\<lparr>sm_level := lvl,
       sm_file_size := of_nat (length (flushed_image opts mt f now)), sm_num_entries := of_nat (length (table mt))\<rparr>)"
    unfolding s4(3) F(4) l by simp
qed

section \<open>A flush that the system lets through\<close>

definition os_allows :: "fs \<Rightarrow> string \<Rightarrow> bool" where
  "os_allows fs f \<longleftrightarrow> fs_can_open fs f \<and> fs_can_read fs f \<and> fs_can_write fs f \<and> fs_can_sync fs f \<and> fs_can_close fs"

lemma os_allows_same: "same_os fs fs' \<Longrightarrow> os_allows fs f \<Longrightarrow> os_allows fs' f"
  by (simp add: os_allows_def same_os_def)

lemma File_Append_can: "os_allows fs f \<Longrightarrow> \<exists>fs'. File_Append f d fs = (OK, fs') \<and> os_allows fs' f"
  by (auto simp: File_Append_def os_allows_def)

lemma write_block_can:
  assumes "os_allows fs (sw_filename w)" shows "\<exists>fs'. write_block w t d fs = (OK, fs') \<and> os_allows fs' (sw_filename w)"
proof -
  obtain fs1 where 1: "WriteBlockHeader w t d fs = (OK, fs1)" "os_allows fs1 (sw_filename w)"
    using File_Append_can [OF assms] unfolding WriteBlockHeader_def by metis
  then show ?thesis using File_Append_can [OF 1(2), of d] by (simp add: write_block_def)
qed

text \<open>A step of the writer succeeds and keeps to its file.\<close>

definition step_can :: "(sst_writer \<Rightarrow> fs \<Rightarrow> status \<times> sst_writer \<times> fs) \<Rightarrow> bool" where
  "step_can f \<longleftrightarrow> (\<forall>w fs. os_allows fs (sw_filename w) \<longrightarrow>
     (\<exists>w' fs'. f w fs = (OK, w', fs') \<and> sw_filename w' = sw_filename w \<and> os_allows fs' (sw_filename w)))"

lemma write_then:
  assumes "os_allows fs f" "sw_filename w = f" "sw_filename w2 = f"
  shows "\<exists>w' fs'. (case write_block w t d fs of (s, fs) \<Rightarrow> if \<not> ok s then (s, w, fs) else (OK, w2, fs)) = (OK, w', fs') \<and>
    sw_filename w' = f \<and> os_allows fs' f"
  using write_block_can [of fs w t d] assms by auto

lemma write_unless:
  assumes "os_allows fs f" "sw_filename w0 = f" "sw_filename w = f" "sw_filename w2 = f"
  shows "\<exists>w' fs'. (if c then (OK, w0, fs) else
      case write_block w t d fs of (s, fs) \<Rightarrow> if \<not> ok s then (s, w, fs) else (OK, w2, fs)) = (OK, w', fs') \<and>
    sw_filename w' = f \<and> os_allows fs' f"
  using write_then [OF assms(1,3,4)] assms by auto

lemma step_can_steps:
  "step_can WriteDataBlock" "step_can WriteIndexBlock" "step_can WriteBloomFilterBlock" "step_can WriteMetaBlock"
  "step_can WriteFooter" "step_can (\<lambda>w fs. let (s, fs) = File_Sync (sw_filename w) fs in (s, w, fs))"
  "step_can (\<lambda>w fs. (File_Close fs, w, fs))"
proof -
  show "step_can WriteDataBlock"
    unfolding step_can_def WriteDataBlock_def Let_def
    by (intro allI impI, simp split del: if_split split: if_splits) (auto split del: if_split intro!: write_then)
  show "step_can WriteIndexBlock"
    unfolding step_can_def WriteIndexBlock_def Let_def
    by (intro allI impI, case_tac "sw_index_entries w = []") (auto split del: if_split intro!: write_then)
  show "step_can WriteBloomFilterBlock"
    unfolding step_can_def WriteBloomFilterBlock_def Let_def
    by (intro allI impI) (auto split: option.splits split del: if_split intro!: write_unless)
  show "step_can WriteMetaBlock"
    unfolding step_can_def WriteMetaBlock_def Let_def
    by (auto split del: if_split intro!: write_then)
  show "step_can WriteFooter"
  proof (unfold step_can_def WriteFooter_def, intro allI impI)
    fix w :: sst_writer and fs assume "os_allows fs (sw_filename w)"
    then obtain fs1 where "File_Append (sw_filename w) (sst_footer (sw_meta_block w) (sw_index_block w) (sw_bloom_block w)) fs = (OK, fs1)"
      "os_allows fs1 (sw_filename w)" using File_Append_can by blast
    then show "\<exists>w' fs'. (let (s, fs) = File_Append (sw_filename w) (sst_footer (sw_meta_block w) (sw_index_block w) (sw_bloom_block w)) fs
        in if \<not> ok s then (s, w, fs) else (OK, w\<lparr>sw_current_offset := sw_current_offset w + 48\<rparr>, fs)) = (OK, w', fs') \<and>
        sw_filename w' = sw_filename w \<and> os_allows fs' (sw_filename w)"
      by simp
  qed
  show "step_can (\<lambda>w fs. let (s, fs) = File_Sync (sw_filename w) fs in (s, w, fs))"
    by (auto simp: step_can_def File_Sync_def os_allows_def fs_fsync_def)
  show "step_can (\<lambda>w fs. (File_Close fs, w, fs))"
    by (auto simp: step_can_def File_Close_def os_allows_def)
qed

lemma run_steps_can: "\<forall>f \<in> set steps. step_can f \<Longrightarrow> step_can (run_steps steps)"
proof (induction steps)
  case (Cons f steps)
  then have f: "step_can f" "step_can (run_steps steps)" by simp_all
  show ?case unfolding step_can_def
  proof (intro allI impI)
    fix w :: sst_writer and fs assume "os_allows fs (sw_filename w)"
    then obtain w1 fs1 where 1: "f w fs = (OK, w1, fs1)" "sw_filename w1 = sw_filename w" "os_allows fs1 (sw_filename w)"
      using f(1) unfolding step_can_def by blast
    then obtain w2 fs2 where "run_steps steps w1 fs1 = (OK, w2, fs2)" "sw_filename w2 = sw_filename w1" "os_allows fs2 (sw_filename w1)"
      using f(2) unfolding step_can_def by metis
    then show "\<exists>w' fs'. run_steps (f # steps) w fs = (OK, w', fs') \<and> sw_filename w' = sw_filename w \<and> os_allows fs' (sw_filename w)"
      using 1 by simp
  qed
qed (simp add: step_can_def)

lemma Finish_can:
  assumes "sw_opened w" "\<not> sw_finished w" "os_allows fs (sw_filename w)"
  shows "fst (SstWriter_Finish w fs) = OK"
proof -
  have "step_can (run_steps [WriteDataBlock, WriteIndexBlock, WriteBloomFilterBlock, WriteMetaBlock, WriteFooter,
              \<lambda>w fs. let (s, fs) = File_Sync (sw_filename w) fs in (s, w, fs), \<lambda>w fs. (File_Close fs, w, fs)])"
    using step_can_steps by (intro run_steps_can) (simp del: Let_def)
  then show ?thesis using assms unfolding step_can_def SstWriter_Finish_def by (fastforce simp del: run_steps.simps)
qed

lemma Add_can:
  assumes "os_allows fs (sw_filename w)" "sw_opened w" "\<not> sw_finished w" "sw_last_key w = [] \<or> cmp (sw_last_key w) k < 0"
  shows "\<exists>w' fs'. SstWriter_Add cmp w k v fs = (OK, w', fs') \<and> os_allows fs' (sw_filename w) \<and>
    sw_filename w' = sw_filename w \<and> sw_opened w' \<and> \<not> sw_finished w' \<and> sw_last_key w' = k"
proof -
  obtain w1 fs1 where b: "WriteDataBlock w fs = (OK, w1, fs1)" "sw_filename w1 = sw_filename w" "os_allows fs1 (sw_filename w)"
    using step_can_steps(1) assms(1) unfolding step_can_def by blast
  have k: "sw_opened w1 \<and> \<not> sw_finished w1"
    using b(1) assms(2,3) by (auto simp: WriteDataBlock_def Let_def split: prod.splits if_split_asm)
  have o: "\<not> (sw_last_key w \<noteq> [] \<and> 0 \<le> cmp (sw_last_key w) k)" using assms(4) by auto
  show ?thesis
    using assms b k o by (cases "ShouldStartNewBlock w") (simp_all add: SstWriter_Add_def add_entry_def Let_def)
qed

lemma Add_loop_can:
  assumes "os_allows fs (sw_filename w)" "sw_opened w" "\<not> sw_finished w"
    and "successively (\<lambda>a b. cmp (fst a) (fst b) < 0) es" "sw_last_key w = [] \<or> es = [] \<or> cmp (sw_last_key w) (fst (hd es)) < 0"
  shows "\<exists>w' fs'. Add_loop cmp w es fs = (OK, w', fs') \<and> os_allows fs' (sw_filename w) \<and>
    sw_filename w' = sw_filename w \<and> sw_opened w' \<and> \<not> sw_finished w'"
  using assms
proof (induction es arbitrary: w fs)
  case (Cons e es)
  obtain w1 fs1 where 1: "SstWriter_Add cmp w (fst e) (snd e) fs = (OK, w1, fs1)" "os_allows fs1 (sw_filename w)"
    "sw_filename w1 = sw_filename w" "sw_opened w1" "\<not> sw_finished w1" "sw_last_key w1 = fst e"
    using Add_can [OF Cons.prems(1-3), of cmp "fst e" "snd e"] Cons.prems(5) by auto
  have "successively (\<lambda>a b. cmp (fst a) (fst b) < 0) es" "es = [] \<or> cmp (fst e) (fst (hd es)) < 0"
    using Cons.prems(4) by (cases es; simp)+
  then show ?case using Cons.IH [of fs1 w1] 1 by auto
qed simp

lemma flush_succeeds:
  assumes "mt_ok Bytewise_Compare mt" "os_allows fs f"
  shows "\<exists>m fs'. Compactor_FlushMemTable Bytewise_Compare opts (Some mt) f lvl now fs = Some (OK, m, fs')"
proof -
  obtain s1 w1 fs1 where o: "SstWriter_Open (SSTableWriter opts) f now fs = (s1, w1, fs1)" by (metis prod_cases3)
  have 1: "s1 = OK" "sw_opened w1" "\<not> sw_finished w1" "sw_filename w1 = f" "sw_last_key w1 = []" "os_allows fs1 f"
    using o assms(2) by (auto simp: SstWriter_Open_def SSTableWriter_def Env_NewWritableFile_def Let_def os_allows_def
        split: if_split_asm)
  obtain s2 where c: "collect_entries Bytewise_Compare (table mt) (length (table mt))
    (MemIter_SeekToFirst Bytewise_Compare (table mt) MemIter_new) [] = Some (s2, mem_entries mt)" "ok s2"
    using collect_mem_entries [OF assms(1)] by blast
  have "sorted_wrt (\<lambda>a b. Bytewise_Compare (fst a) (fst b) < 0) (sst_entries mt)"
    using sst_entries_ascending [OF assms(1)] by (simp add: Bytewise_tests)
  then have "successively (\<lambda>a b. Bytewise_Compare (fst a) (fst b) < 0) (sst_entries mt)"
    by (rule successively_if_sorted_wrt)
  then obtain w3 fs3 where a: "Add_loop Bytewise_Compare w1 (sst_entries mt) fs1 = (OK, w3, fs3)" "os_allows fs3 (sw_filename w3)"
    "sw_opened w3" "\<not> sw_finished w3"
    using Add_loop_can [of fs1 w1 Bytewise_Compare "sst_entries mt"] 1 by auto
  obtain s4 w4 fs4 where f: "SstWriter_Finish w3 fs3 = (s4, w4, fs4)" by (metis prod_cases3)
  then have "s4 = OK" using Finish_can [OF a(3,4,2)] by simp
  then show ?thesis
    using o 1(1) c a(1) f by (simp add: Compactor_FlushMemTable_def sst_entries_def [symmetric])
qed

section \<open>The versions in the file\<close>

lemma mem_entries_versions:
  assumes "mt_ok Bytewise_Compare mt"
  shows "e \<in> set (mem_entries mt) \<Longrightarrow>
      versions mt (ent_user e) (ent_seq e) (ent_type e) = Some (snd e) \<and> take_bit 56 (ent_seq e) = ent_seq e \<and>
      fst e = InternalKey (ent_user e) (ent_seq e) (ent_type e)"
    and "versions mt uk s t = Some v \<Longrightarrow> (InternalKey uk s t, v) \<in> set (mem_entries mt)"
proof -
  have d: "distinct (map fst (table mt))" using distinct_mem_entries [OF assms] by (simp add: mem_entries_def comp_def)
  show "versions mt uk s t = Some v \<Longrightarrow> (InternalKey uk s t, v) \<in> set (mem_entries mt)"
    by (force simp: versions_def mem_entries_def dest: map_of_SomeD)
  assume "e \<in> set (mem_entries mt)"
  then obtain p where p: "p \<in> set (table mt)" "e = (fst p, e_value (snd p))" by (auto simp: mem_entries_def)
  obtain uk s t where k: "fst p = InternalKey uk s t" "take_bit 56 s = s"
    using bytewise_user.table_keys [OF assms p(1)] parsed by metis
  have "map_of (table mt) (InternalKey uk s t) = Some (snd p)"
    using d p(1) k(1) by (metis map_of_eq_Some_iff prod.collapse)
  then show "versions mt (ent_user e) (ent_seq e) (ent_type e) = Some (snd e) \<and> take_bit 56 (ent_seq e) = ent_seq e \<and>
      fst e = InternalKey (ent_user e) (ent_seq e) (ent_type e)"
    by (simp add: p(2) k versions_def InternalKey_user_key_def InternalKey_sequence_def InternalKey_type_def)
qed

lemma newest_visible_only:
  assumes "e \<in> set es" "ent_wanted key snapshot e"
    and "\<forall>e' \<in> set es. ent_wanted key snapshot e' \<and> e' \<noteq> e \<longrightarrow> ent_seq e' < ent_seq e"
  shows "newest_visible es key snapshot = Some (ent_seq e, snd e, ent_type e = kDeletion)"
proof -
  let ?vs = "filter (ent_wanted key snapshot) es"
  have m: "Max (ent_seq ` set ?vs) = ent_seq e"
  proof (rule Max_eqI)
    show "y \<le> ent_seq e" if "y \<in> ent_seq ` set ?vs" for y using that assms(3) by (force simp: less_imp_le)
  qed (use assms(1,2) in auto)
  have "filter (\<lambda>x. ent_seq x = ent_seq e) ?vs \<noteq> []" using assms by (auto simp: filter_empty_conv)
  moreover have "x = e" if "x \<in> set (filter (\<lambda>x. ent_seq x = ent_seq e) ?vs)" for x using that assms(3) by force
  ultimately have "last (filter (\<lambda>x. ent_seq x = ent_seq e) ?vs) = e" using last_in_set by blast
  moreover have "?vs \<noteq> []" using assms(1,2) by (auto simp: filter_empty_conv)
  ultimately show ?thesis unfolding newest_visible_def m Let_def by simp
qed

lemma sst_entries_versions:
  assumes "mt_ok Bytewise_Compare mt" "take_bit 56 s = s" "versions mt uk s t = Some v" "visible_at snapshot s"
    and "\<And>s' t' v'. take_bit 56 s' = s' \<Longrightarrow> visible_at snapshot s' \<Longrightarrow> versions mt uk s' t' = Some v' \<Longrightarrow> s' < s \<or> s' = s \<and> t' = t"
  shows "newest_visible (sst_entries mt) uk snapshot = Some (s, v, t = kDeletion)"
proof -
  let ?e = "(InternalKey uk s t, v)"
  have "newest_visible (sst_entries mt) uk snapshot = Some (ent_seq ?e, snd ?e, ent_type ?e = kDeletion)"
  proof (rule newest_visible_only)
    show "?e \<in> set (sst_entries mt)" using mem_entries_versions(2) [OF assms(1,3)] by simp
    show "ent_wanted uk snapshot ?e" using assms(2,4) by (simp add: ent_wanted_def)
    show "\<forall>e' \<in> set (sst_entries mt). ent_wanted uk snapshot e' \<and> e' \<noteq> ?e \<longrightarrow> ent_seq e' < ent_seq ?e"
    proof (intro ballI impI, elim conjE)
      fix e' assume e': "e' \<in> set (sst_entries mt)" "ent_wanted uk snapshot e'" "e' \<noteq> ?e"
      note v = mem_entries_versions(1) [OF assms(1) e'(1) [unfolded set_sst_entries]]
      have u: "ent_user e' = uk" "visible_at snapshot (ent_seq e')" using e'(2) by (simp_all add: ent_wanted_def)
      have "\<not> (ent_seq e' = s \<and> ent_type e' = t)" using e'(3) v u(1) assms(3) by (cases e') auto
      then show "ent_seq e' < ent_seq ?e" using assms(5) [of "ent_seq e'" "ent_type e'"] v u assms(2) by auto
    qed
  qed
  then show ?thesis using assms(2) by simp
qed

text \<open>The conditions on a flush: keys without bytes up to 3, no key's versions in two blocks, a file
  below 4 GB, a Bloom filter of nonzero size.\<close>

definition flushable :: "sst_writer_options \<Rightarrow> memtable \<Rightarrow> string \<Rightarrow> u64 \<Rightarrow> bool" where
  "flushable opts mt f now \<longleftrightarrow> table mt \<noteq> [] \<and> (\<forall>e \<in> set (mem_entries mt). text_key (ent_user e)) \<and>
     no_straddle (flush_groups opts mt) \<and> length (flushed_image opts mt f now) < 2 ^ 32 \<and>
     (wo_enable_bloom_filter opts \<longrightarrow> bloom_params_ok (wo_bloom opts) (length (table mt)))"

lemma flushed_reads:
  assumes ok: "mt_ok Bytewise_Compare mt" and fl: "flushable opts mt f now"
    and img: "map_of (fs_files fs) f = Some (flushed_image opts mt f now)" and os: "os_allows fs f"
  defines "r \<equiv> opened_reader f (flush_groups opts mt) (bloom_data opts (sst_entries mt)) (written_meta f now (sst_entries mt))"
  shows "SstReader_Open Bytewise_Compare fs f SSTableReader = (OK, r)"
    "SstReader_Get Bytewise_Compare fs r key snapshot = Some (SstReader_answer (newest_visible (sst_entries mt) key snapshot))"
proof -
  let ?es = "sst_entries mt" and ?G = "flush_groups opts mt"
  have l: "length ?es = length (table mt)" by (simp add: sst_entries_def mem_entries_def)
  have ne: "?es \<noteq> []" using fl l by (auto simp: flushable_def)
  note G = group_entries_concat [where bs = "wo_block_size opts" and es = ?es]
  have k8: "\<forall>e \<in> set ?es. 8 \<le> length (fst e)" using mem_entries_keys(1) [OF ok] by fastforce
  have tk: "\<forall>e \<in> set ?es. text_key (ent_user e)" using fl by (simp add: flushable_def)
  have m8: "\<forall>e \<in> set ?es. 8 \<le> length (fst e) \<and> ent_user e \<noteq> []" using k8 tk by (simp add: text_key_def)
  have bs: "bloom_sound (bloom_data opts ?es) (ent_user ` set ?es)"
    using bloom_data_sound [OF _ k8] fl l by (simp add: flushable_def)
  have m: "sm_smallest_key (written_meta f now ?es) = ent_user (hd ?es)"
    "sm_largest_key (written_meta f now ?es) = ent_user (last ?es)" "sm_level (written_meta f now ?es) = 0"
    using meta_add_smallest [OF m8 ne] meta_add_largest [OF k8 ne] meta_add_level [OF k8]
    by (simp_all add: written_meta_def SSTableMeta_new_def)
  note R = read_image [where G = ?G, unfolded G(1), OF img _ _ _ G(3) [OF ne] G(2) m(3) sst_entries_ascending [OF ok] k8
      text_keys_sorted [OF ok] _ bs m(1,2)]
  show "SstReader_Open Bytewise_Compare fs f SSTableReader = (OK, r)"
    unfolding r_def using fl os by (intro R(1)) (simp_all add: flushable_def os_allows_def)
  show "SstReader_Get Bytewise_Compare fs r key snapshot = Some (SstReader_answer (newest_visible ?es key snapshot))"
    unfolding r_def using fl os by (intro R(2)) (simp_all add: flushable_def os_allows_def)
qed

lemma flushed_history:
  assumes "ops = xs @ oper # ys" "\<forall>p \<in> set ops. take_bit 56 (op_seq p) = op_seq p"
    and "visible_at snapshot (op_seq oper)"
    and "\<forall>p \<in> set (xs @ ys). op_key p = op_key oper \<and> visible_at snapshot (op_seq p) \<longrightarrow> op_seq p < op_seq oper"
  shows "newest_visible (sst_entries (mem_run Bytewise_Compare ops (MemTable_new a st se o'))) (op_key oper) snapshot =
    Some (op_seq oper, snd (op_version oper), fst (op_version oper) = kDeletion)"
proof -
  let ?new = "MemTable_new a st se o'"
  have new: "mt_ok Bytewise_Compare ?new" "\<not> immutable ?new"
    using MemTable_new_ok by (simp_all add: MemTable_new_def)
  note rv = bytewise_user.run_versions [OF new assms(2)]
  let ?P = "\<lambda>uk s t p. uk = op_key p \<and> s = op_seq p \<and> t = fst (op_version p)"
  have t56: "take_bit 56 (op_seq oper) = op_seq oper" using assms(1,2) by simp
  have mem: "p = oper \<or> p \<in> set (xs @ ys)" if "p \<in> set ops" for p using that assms(1) by auto
  have uniq: "p = oper" if "p \<in> set ops" "op_key p = op_key oper" "op_seq p = op_seq oper" for p
    using mem [OF that(1)] assms(3,4) that(2,3) by fastforce
  have "find (?P (op_key oper) (op_seq oper) (fst (op_version oper))) (rev ops) \<noteq> None"
    using assms(1) unfolding find_None_iff by auto
  then obtain p where p: "find (?P (op_key oper) (op_seq oper) (fst (op_version oper))) (rev ops) = Some p" by blast
  then have "p = oper" using uniq find_rev [OF p] by metis
  then have v: "versions (mem_run Bytewise_Compare ops ?new) (op_key oper) (op_seq oper) (fst (op_version oper)) = Some (snd (op_version oper))"
    using rv [OF t56] p by simp
  show ?thesis
  proof (rule sst_entries_versions [OF bytewise_user.run_ok [OF new(1)] t56 v assms(3)])
    fix s' t' v'
    assume s': "take_bit 56 s' = s'" "visible_at snapshot s'"
      and "versions (mem_run Bytewise_Compare ops ?new) (op_key oper) s' t' = Some v'"
    then obtain q where "find (?P (op_key oper) s' t') (rev ops) = Some q"
      using rv [OF s'(1), of "op_key oper" t'] by (auto split: option.splits)
    then have "q \<in> set ops \<and> ?P (op_key oper) s' t' q" by (rule find_rev)
    then show "s' < op_seq oper \<or> s' = op_seq oper \<and> t' = fst (op_version oper)"
      using mem assms(4) s'(2) by fastforce
  qed
qed

lemma flush_and_open:
  assumes ok: "mt_ok Bytewise_Compare mt" and fl: "flushable opts mt f now" and os: "os_allows fs f"
  obtains m fs' r where "Compactor_FlushMemTable Bytewise_Compare opts (Some mt) f lvl now fs = Some (OK, Some m, fs')"
    "touches f fs fs'" "\<And>fs''. map_of (fs_files fs'') f = map_of (fs_files fs') f \<or> map_of (fs_files fs'') f = map_of (fs_disk fs') f \<Longrightarrow>
       os_allows fs'' f \<Longrightarrow> SstReader_Open Bytewise_Compare fs'' f SSTableReader = (OK, r) \<and>
       (\<forall>key snapshot. SstReader_Get Bytewise_Compare fs'' r key snapshot =
          Some (SstReader_answer (newest_visible (sst_entries mt) key snapshot)))"
proof -
  obtain m fs' where run: "Compactor_FlushMemTable Bytewise_Compare opts (Some mt) f lvl now fs = Some (OK, m, fs')"
    using flush_succeeds [OF ok os] by blast
  have ne: "table mt \<noteq> []" using fl by (simp add: flushable_def)
  note I = flush_image [OF ok ne run ok_OK]
  show thesis
    using that [OF run [unfolded I(4)] I(3)] flushed_reads [OF ok fl] unfolding I(1,2) by blast
qed

section \<open>Memtables of less than one block\<close>

definition entries_bound :: "(bytes \<times> bytes) list \<Rightarrow> nat" where
  "entries_bound es = (\<Sum>e\<leftarrow>es. 10 + length (fst e) + length (snd e))"

lemma put_lengths:
  "length (PutVarint64 [] v) \<le> 10" "length (PutVarint32 [] u) \<le> 5"
  "length (PutLengthPrefixedSlice [] s) \<le> 5 + length s"
proof -
  show "length (PutVarint64 [] v) \<le> 10"
    using length_EncodeVarint64 [of v 9] unsigned_less [of v, where 'a = nat] by (simp add: PutVarint64_def)
  have v32: "length (EncodeVarint32 u) \<le> 5" for u
    using length_EncodeVarint64 [of "ucast u" 4] unsigned_less [of u, where 'a = nat]
    by (simp add: EncodeVarint32_eq_64 unat_ucast_u32)
  then show "length (PutVarint32 [] u) \<le> 5" by (simp add: PutVarint32_def)
  show "length (PutLengthPrefixedSlice [] s) \<le> 5 + length s"
    using v32 [of "of_nat (length s)"] by (simp add: PutLengthPrefixedSlice_def PutVarint32_def)
qed

lemma encode_entries_bound: "length (encode_entries es) \<le> entries_bound es"
proof (induction es)
  case (Cons e es)
  then show ?case using put_lengths(3) [of "fst e"] put_lengths(3) [of "snd e"]
    by (cases e) (simp add: encode_entries_def entries_bound_def)
qed (simp add: entries_bound_def)

lemma entries_bound_append [simp]: "entries_bound (a @ b) = entries_bound a + entries_bound b"
  by (simp add: entries_bound_def)

lemma one_group_fold:
  "entries_bound (g @ es) < bs \<Longrightarrow> foldl (group_add bs) ([], g) es = ([], g @ es)"
proof (induction es arbitrary: g)
  case (Cons e es)
  have "length (encode_entries g) < bs" using encode_entries_bound [of g] Cons.prems by simp
  then have "group_add bs ([], g) e = ([], g @ [e])" by (simp add: group_add_def)
  moreover have "entries_bound ((g @ [e]) @ es) < bs" using Cons.prems by simp
  ultimately show ?case using Cons.IH [of "g @ [e]"] by simp
qed simp

lemma one_group: "entries_bound es < bs \<Longrightarrow> es \<noteq> [] \<Longrightarrow> group_entries bs es = [es]"
  using one_group_fold [of "[]" es bs] by (simp add: group_entries_def)

lemma entry_bound: "e \<in> set es \<Longrightarrow> length (fst e) \<le> entries_bound es"
  by (induction es) (auto simp: entries_bound_def)

lemma entries_bound_sst: "entries_bound (sst_entries mt) = entries_bound (mem_entries mt)"
proof -
  have "entries_bound xs = (\<Sum>e\<in>#mset xs. 10 + length (fst e) + length (snd e))" for xs
    by (induction xs) (simp_all add: entries_bound_def)
  then show ?thesis by (simp add: sst_entries_def)
qed

lemma image_bound:
  assumes "es \<noteq> []" "length (sm_smallest_key m) \<le> n" "length (sm_largest_key m) \<le> n" "entries_bound es \<le> n"
  shows "length (sst_image [es] bl m) \<le> 4 * n + length (sm_filename m) + length bl + 300"
proof -
  let ?e = "\<lparr>ie_key = fst (hd es), ie_block_offset = 0, ie_block_size = block_length (encode_entries es), ie_first_key_offset = 0\<rparr>"
  have k: "length (fst (hd es)) \<le> n" using entry_bound [of "hd es" es] assms(1,4) by simp
  have fixed: "length (PutFixed32 [] u) = 4" for u by (simp add: PutFixed32_def)
  have i: "length (IndexEntry_Encode ?e) \<le> 23 + n"
    using put_lengths(3) [of "fst (hd es)"] put_lengths(1) [of 0] k by (simp add: IndexEntry_Encode_def put_normal fixed)
  have d: "length (index_data [es]) \<le> 28 + n"
    using put_lengths(3) [of "IndexEntry_Encode ?e"] i by (simp add: index_data_def)
  note v = put_lengths(1) [of "sm_file_number m"] put_lengths(1) [of "sm_file_size m"] put_lengths(1) [of "sm_num_entries m"]
    put_lengths(1) [of "sm_num_deletions m"] put_lengths(1) [of "sm_raw_key_size m"] put_lengths(1) [of "sm_raw_value_size m"]
    put_lengths(1) [of "sm_creation_time m"] put_lengths(1) [of "sm_oldest_key_time m"]
    put_lengths(3) [of "bytes_of_string (sm_filename m)"] put_lengths(3) [of "sm_smallest_key m"] put_lengths(3) [of "sm_largest_key m"]
  have m: "length (Meta_Encode m) \<le> 99 + length (sm_filename m) + 2 * n"
    using v assms(2,3) by (simp add: Meta_Encode_def put_normal fixed Let_def)
  have f: "length (sst_footer a b c) = 48" for a b c by (simp add: sst_footer_def Let_def)
  show ?thesis
    using encode_entries_bound [of es] assms(4) d m f by (simp add: sst_image_def optional_block_def)
qed

text \<open>A memtable smaller than a block makes one block, so its keys cannot straddle two.\<close>

lemma small_image:
  assumes ok: "mt_ok Bytewise_Compare mt" and ne: "table mt \<noteq> []" and uk: "\<forall>e \<in> set (mem_entries mt). ent_user e \<noteq> []"
    and small: "entries_bound (mem_entries mt) < wo_block_size opts"
    and room: "4 * entries_bound (mem_entries mt) + length f + length (bloom_data opts (sst_entries mt)) + 300 < 2 ^ 32"
  shows "flush_groups opts mt = [sst_entries mt]" "length (flushed_image opts mt f now) < 2 ^ 32"
    "sm_smallest_key (written_meta f now (sst_entries mt)) = ent_user (hd (sst_entries mt))"
    "sm_largest_key (written_meta f now (sst_entries mt)) = ent_user (last (sst_entries mt))"
    "sm_level (written_meta f now (sst_entries mt)) = 0"
proof -
  let ?es = "sst_entries mt" and ?n = "entries_bound (mem_entries mt)"
  have l: "length ?es = length (table mt)" by (simp add: sst_entries_def mem_entries_def)
  have es: "?es \<noteq> []" using ne l by auto
  show g: "flush_groups opts mt = [?es]" using small es by (intro one_group) (simp_all add: entries_bound_sst)
  have k8: "\<forall>e \<in> set ?es. 8 \<le> length (fst e)" using mem_entries_keys(1) [OF ok] by fastforce
  have m8: "\<forall>e \<in> set ?es. 8 \<le> length (fst e) \<and> ent_user e \<noteq> []" using k8 uk by simp
  have u: "length (ent_user e) \<le> ?n" if e: "e \<in> set ?es" for e
  proof -
    obtain r where r: "fst e = ent_user e @ ent_type e # r" using internal_key_shape [of "fst e"] k8 e by blast
    have "length (fst e) = length (ent_user e @ ent_type e # r)" by (rule arg_cong [OF r])
    then have "length (ent_user e) \<le> length (fst e)" unfolding length_append by linarith
    then show ?thesis using entry_bound [OF e] by (simp add: entries_bound_sst)
  qed
  show m: "sm_smallest_key (written_meta f now ?es) = ent_user (hd ?es)"
    "sm_largest_key (written_meta f now ?es) = ent_user (last ?es)" "sm_level (written_meta f now ?es) = 0"
    using meta_add_smallest [OF m8 es] meta_add_largest [OF k8 es] meta_add_level [OF k8]
    by (simp_all add: written_meta_def SSTableMeta_new_def)
  have fn: "sm_filename (meta_add x ys) = sm_filename x" if "\<forall>e \<in> set ys. 8 \<le> length (fst e)" for x ys
    using that by (induction ys rule: rev_induct) (simp_all add: meta_add_snoc UpdateMeta_parsed)
  have f: "sm_filename (written_meta f now ?es) = f" using fn [OF k8] by (simp add: written_meta_def)
  have "length (sst_image [?es] (bloom_data opts ?es) (written_meta f now ?es)) \<le>
      4 * ?n + length (sm_filename (written_meta f now ?es)) + length (bloom_data opts ?es) + 300"
    by (rule image_bound [OF es]) (use u hd_in_set [OF es] last_in_set [OF es] in \<open>simp_all only: m entries_bound_sst order.refl\<close>)
  then show "length (flushed_image opts mt f now) < 2 ^ 32"
    using room unfolding f g by linarith
qed

lemma flushable_small:
  assumes "mt_ok Bytewise_Compare mt" "table mt \<noteq> []" "\<forall>e \<in> set (mem_entries mt). text_key (ent_user e)"
    and "entries_bound (mem_entries mt) < wo_block_size opts"
    and "4 * entries_bound (mem_entries mt) + length f + length (bloom_data opts (sst_entries mt)) + 300 < 2 ^ 32"
    and "wo_enable_bloom_filter opts \<longrightarrow> bloom_params_ok (wo_bloom opts) (length (table mt))"
  shows "flushable opts mt f now"
proof -
  have "\<forall>e \<in> set (mem_entries mt). ent_user e \<noteq> []" using assms(3) by (simp add: text_key_def)
  note S = small_image [OF assms(1,2) this assms(4,5)]
  have "no_straddle (flush_groups opts mt)" unfolding S(1) by (simp add: no_straddle_def)
  then show ?thesis unfolding flushable_def using assms(2,3,6) S(2) by blast
qed

lemma two_entries:
  assumes "sorted_wrt (\<lambda>a b. fst a < fst b) xs" "set xs = {a, b}" "fst a < (fst b :: 'a::order)"
  shows "xs = [a, b]"
proof -
  obtain x ys where x: "xs = x # ys" using assms(2) by (cases xs) auto
  have ab: "a \<noteq> b" using assms(3) by auto
  have lt: "\<forall>y \<in> set ys. fst x < fst y" "sorted_wrt (\<lambda>a b. fst a < fst b) ys" using assms(1) unfolding x by simp_all
  have xa: "x = a"
  proof (rule ccontr)
    assume "x \<noteq> a"
    then have "x = b" "a \<in> set ys" using assms(2) unfolding x by auto
    then have "fst b < fst a" using lt(1) by blast
    then show False using assms(3) by (meson order.asym)
  qed
  have "a \<notin> set ys" using lt(1) xa by auto
  then have "set ys = {b}" using assms(2) ab insert_ident [of a "set ys" "{b}"] unfolding x xa by simp
  then obtain zs where z: "ys = b # zs" by (cases ys) auto
  have "zs = []"
  proof (rule ccontr)
    assume "zs \<noteq> []"
    then have "fst b < fst (hd zs)" "hd zs \<in> set ys" using lt(2) unfolding z by simp_all
    then show False using \<open>set ys = {b}\<close> by simp
  qed
  then show ?thesis using x xa z by simp
qed

lemma user_key_part_internal: "8 \<le> length k \<Longrightarrow> user_key_part k = InternalKey_user_key k"
  by (simp add: user_key_part_def InternalKey_user_key_def ParseInternalKey_def DecodeFixed64_le)

lemma append_less: "(key::'a::linorder list) < key @ [x]"
  by (induction key) auto

lemma append_Cons_less: "(x::'a::linorder) < y \<Longrightarrow> k @ x # xs < k @ y # ys"
  by (induction k) auto

abbreviation (input) example_fs :: fs where
  "example_fs \<equiv> \<lparr>fs_files = [], fs_disk = [], fs_can_open = \<lambda>_. True, fs_can_write = \<lambda>_. True, fs_can_sync = \<lambda>_. True,
     fs_can_rename = True, fs_partial = 0, fs_scan = 0, fs_can_read = \<lambda>_. True, fs_can_close = True,
     fs_can_remove = True, fs_strerror = []\<rparr>"

abbreviation (input) example_table :: memtable where
  "example_table \<equiv> mem_run Bytewise_Compare [WPut [97] [10] 5, WDelete [98] 6, WPut [97] [20] 7]
     (MemTable_new 0 100 50 \<lparr>write_buffer_size = 1, max_write_buffer_number = 2\<rparr>)"

abbreviation (input) plain_options :: sst_writer_options where
  "plain_options \<equiv> \<lparr>wo_block_size = 65536, wo_enable_bloom_filter = False, wo_bloom = default_bloom\<rparr>"

lemma example_flushable:
  assumes "length f < 1000" shows "flushable plain_options example_table f now"
proof -
  have ok: "mt_ok Bytewise_Compare example_table" by (rule bytewise_user.run_ok [OF MemTable_new_ok])
  have e: "mem_entries example_table = [(InternalKey [97] 7 kValue, [20]), (InternalKey [97] 5 kValue, [10]), (InternalKey [98] 6 kDeletion, [])]"
    by (simp add: mem_entries_def mem_run_def MemTable_new_def MemTable_Put_def MemTable_Delete_def MemTable_CreateEntry_def Let_def
        Compare_InternalKey Bytewise_Compare_lex seq_type_cmp_def)
  then have ne: "table example_table \<noteq> []" by (auto simp: mem_entries_def)
  show ?thesis
    by (rule flushable_small [OF ok ne, unfolded e]) (use assms in \<open>simp_all add: text_key_def entries_bound_def bloom_data_def\<close>)
qed

section \<open>Theorems\<close>








end
