(* ===== verification/SSTableIterators.thy ===== *)
theory SSTableIterators
  imports SSTableFlush
begin

text \<open>
  The iterator over an SSTable file (\<open>SSTableIterator\<close> in src/storage/sstable.cc). Its reader and
  the file system are arguments. \<open>si_offset\<close> is the offset behind the current entry. Slices
  into the block are copies here: whenever the iterator is valid they were taken from the block
  it holds. Then what a full scan, a seek and a step back do on a file the writer produced.
\<close>

section \<open>SSTableIterator\<close>

record sst_iter =
  si_valid :: bool
  si_block :: int
  si_data :: bytes
  si_offset :: nat
  si_key :: bytes
  si_value :: bytes
  si_status :: status
  si_cache :: "nat list"

definition SSTableIterator :: sst_iter where
  "SSTableIterator = \<lparr>si_valid = False, si_block = -1, si_data = [], si_offset = 0, si_key = [], si_value = [],
     si_status = OK, si_cache = []\<rparr>"

definition SstIter_Valid :: "sst_reader \<Rightarrow> sst_iter \<Rightarrow> bool" where
  "SstIter_Valid r it \<longleftrightarrow> si_valid it \<and> 0 \<le> si_block it \<and> si_block it < int (length (sr_index r))"

definition SstIter_key :: "sst_reader \<Rightarrow> sst_iter \<Rightarrow> bytes" where
  "SstIter_key r it = (if SstIter_Valid r it then si_key it else [])"

definition SstIter_value :: "sst_reader \<Rightarrow> sst_iter \<Rightarrow> bytes" where
  "SstIter_value r it = (if SstIter_Valid r it then si_value it else [])"

text \<open>The buffer that \<open>ReadDataBlock\<close> leaves behind: on an error it keeps the old bytes, cut
  or filled up with zeros to the block's size once that is known.\<close>

definition block_buffer :: "fs \<Rightarrow> sst_reader \<Rightarrow> u64 \<Rightarrow> u32 \<Rightarrow> bytes \<Rightarrow> bytes" where
  "block_buffer fs r offset sz old =
     (if sz = 0 then []
      else if unat sz \<le> kHeaderSize then old
      else let n = unat sz - kHeaderSize;
               buf = take n (old @ replicate n 0);
               (s, data) = File_Read fs (sr_filename r) (offset + 16) n
           in data @ drop (length data) buf)"

definition LoadCurrentBlock :: "fs \<Rightarrow> sst_reader \<Rightarrow> sst_iter \<Rightarrow> sst_iter" where
  "LoadCurrentBlock fs r it =
     (if si_block it < 0 \<or> int (length (sr_index r)) \<le> si_block it
      then it\<lparr>si_status := InvalidArgument ''Invalid block index''\<rparr>
      else let entry = sr_index r ! nat (si_block it);
               s = fst (ReadDataBlock fs r (ie_block_offset entry) (ie_block_size entry));
               it = it\<lparr>si_status := s,
                        si_data := block_buffer fs r (ie_block_offset entry) (ie_block_size entry) (si_data it)\<rparr>
           in if \<not> ok s then it\<lparr>si_valid := False\<rparr> else it\<lparr>si_offset := 0, si_cache := []\<rparr>)"

definition ParseCurrentEntry :: "sst_iter \<Rightarrow> sst_iter" where
  "ParseCurrentEntry it =
     (if length (si_data it) \<le> si_offset it then it\<lparr>si_valid := False\<rparr>
      else case GetLengthPrefixedSlice (drop (si_offset it) (si_data it)) of
        None \<Rightarrow> it\<lparr>si_valid := False, si_status := Corruption ''Failed to parse key''\<rparr>
      | Some (input, key) \<Rightarrow>
     (case GetLengthPrefixedSlice input of
        None \<Rightarrow> it\<lparr>si_valid := False, si_status := Corruption ''Failed to parse value''\<rparr>
      | Some (input, value) \<Rightarrow>
          it\<lparr>si_key := key, si_value := value, si_valid := True,
             si_offset := si_offset it + (length (si_data it) - si_offset it - length input)\<rparr>))"

text \<open>Moves and says whether it moved.\<close>

definition MoveToNextInBlock :: "sst_iter \<Rightarrow> bool \<times> sst_iter" where
  "MoveToNextInBlock it = (let it' = ParseCurrentEntry it in (si_valid it' \<and> si_offset it < si_offset it', it'))"

text \<open>A parsed entry takes at least two bytes, which ends the loops over a block.\<close>

lemma ParseCurrentEntry_progress:
  assumes "si_valid (ParseCurrentEntry it)"
  shows "si_offset it < si_offset (ParseCurrentEntry it)" "si_offset (ParseCurrentEntry it) \<le> length (si_data it)"
    "si_data (ParseCurrentEntry it) = si_data it"
  using assms by (auto simp: ParseCurrentEntry_def dest!: GetLengthPrefixedSlice_shorter split: if_splits option.splits)

lemma ParseCurrentEntry_data [simp]: "si_data (ParseCurrentEntry it) = si_data it" "si_block (ParseCurrentEntry it) = si_block it"
  by (auto simp: ParseCurrentEntry_def split: option.splits)

function BuildOffsetCache_loop :: "bytes \<Rightarrow> nat \<Rightarrow> nat list \<Rightarrow> nat list" where
  "BuildOffsetCache_loop data offset cache =
     (if length data \<le> offset then cache
      else case GetLengthPrefixedSlice (drop offset data) of
        None \<Rightarrow> cache @ [offset]
      | Some (input, key) \<Rightarrow>
     (case GetLengthPrefixedSlice input of
        None \<Rightarrow> cache @ [offset]
      | Some (input, value) \<Rightarrow>
          (let consumed = length data - offset - length input in
           if consumed = 0 then cache @ [offset]
           else BuildOffsetCache_loop data (offset + consumed) (cache @ [offset]))))"
  by pat_completeness auto

termination
  by (relation "measure (\<lambda>(data, offset, cache). length data - offset)") auto

declare BuildOffsetCache_loop.simps [simp del]

text \<open>\<open>std::lower_bound\<close> on the ascending cache.\<close>

definition MoveToPrevInBlock :: "sst_iter \<Rightarrow> bool \<times> sst_iter" where
  "MoveToPrevInBlock it =
     (if si_offset it = 0 then (False, it)
      else let it = (if si_cache it = [] then it\<lparr>si_cache := BuildOffsetCache_loop (si_data it) 0 []\<rparr> else it);
               n = length (takeWhile (\<lambda>x. x < si_offset it) (si_cache it))
           in if n = 0 then (False, it)
              else let it = ParseCurrentEntry (it\<lparr>si_offset := si_cache it ! (n - 1)\<rparr>) in (si_valid it, it))"

function SeekInBlock_loop :: "(bytes \<Rightarrow> bytes \<Rightarrow> int) \<Rightarrow> bytes \<Rightarrow> sst_iter \<Rightarrow> sst_iter" where
  "SeekInBlock_loop cmp target it =
     (if length (si_data it) \<le> si_offset it then it\<lparr>si_valid := False\<rparr>
      else let it1 = ParseCurrentEntry it in
        if \<not> si_valid it1 then it1
        else if 0 \<le> cmp (si_key it1) target then it1
        else let (moved, it2) = MoveToNextInBlock it1 in
          if \<not> moved then it2\<lparr>si_valid := False\<rparr> else SeekInBlock_loop cmp target it2)"
  by pat_completeness auto

termination
  by (relation "measure (\<lambda>(cmp, target, it). length (si_data it) - si_offset it)")
    (auto simp: MoveToNextInBlock_def Let_def dest!: ParseCurrentEntry_progress(1))

declare SeekInBlock_loop.simps [simp del]

definition SeekInBlock :: "(bytes \<Rightarrow> bytes \<Rightarrow> int) \<Rightarrow> bytes \<Rightarrow> sst_iter \<Rightarrow> sst_iter" where
  "SeekInBlock cmp target it = SeekInBlock_loop cmp target (it\<lparr>si_offset := 0\<rparr>)"

text \<open>The loop keeps the offset of the last entry.\<close>

function SeekToLastInBlock_loop :: "sst_iter \<Rightarrow> nat \<Rightarrow> sst_iter \<times> nat" where
  "SeekToLastInBlock_loop it last_valid_offset =
     (if length (si_data it) \<le> si_offset it then (it, last_valid_offset)
      else let (moved, it') = MoveToNextInBlock it in
        if \<not> moved then (it', si_offset it) else SeekToLastInBlock_loop it' (si_offset it))"
  by pat_completeness auto

termination
  by (relation "measure (\<lambda>(it, last). length (si_data it) - si_offset it)")
    (auto simp: MoveToNextInBlock_def Let_def)

declare SeekToLastInBlock_loop.simps [simp del]

definition SeekToLastInBlock :: "sst_iter \<Rightarrow> sst_iter" where
  "SeekToLastInBlock it =
     (let (it, last_valid_offset) = SeekToLastInBlock_loop (it\<lparr>si_offset := 0\<rparr>) 0
      in ParseCurrentEntry (it\<lparr>si_offset := last_valid_offset\<rparr>))"

text \<open>Loading a block and positioning in it, unless the block is empty.\<close>

definition load_and :: "(sst_iter \<Rightarrow> sst_iter) \<Rightarrow> fs \<Rightarrow> sst_reader \<Rightarrow> int \<Rightarrow> sst_iter \<Rightarrow> sst_iter" where
  "load_and position fs r block it =
     (let it = LoadCurrentBlock fs r (it\<lparr>si_block := block\<rparr>)
      in if si_data it = [] then it\<lparr>si_valid := False\<rparr> else position it)"

definition SstIter_SeekToFirst :: "fs \<Rightarrow> sst_reader \<Rightarrow> sst_iter \<Rightarrow> sst_iter" where
  "SstIter_SeekToFirst fs r it =
     (if sr_index r = [] then it\<lparr>si_valid := False\<rparr> else load_and ParseCurrentEntry fs r 0 it)"

definition SstIter_SeekToLast :: "fs \<Rightarrow> sst_reader \<Rightarrow> sst_iter \<Rightarrow> sst_iter" where
  "SstIter_SeekToLast fs r it =
     (if sr_index r = [] then it\<lparr>si_valid := False\<rparr>
      else load_and SeekToLastInBlock fs r (int (length (sr_index r)) - 1) it)"

definition SstIter_Seek :: "(bytes \<Rightarrow> bytes \<Rightarrow> int) \<Rightarrow> fs \<Rightarrow> sst_reader \<Rightarrow> bytes \<Rightarrow> sst_iter \<Rightarrow> sst_iter" where
  "SstIter_Seek cmp fs r target it =
     (let block_index = FindIndexEntry cmp (sr_index r) target
      in if block_index < 0 then it\<lparr>si_valid := False\<rparr> else load_and (SeekInBlock cmp target) fs r block_index it)"

definition SstIter_Next :: "fs \<Rightarrow> sst_reader \<Rightarrow> sst_iter \<Rightarrow> sst_iter" where
  "SstIter_Next fs r it =
     (if \<not> SstIter_Valid r it then it
      else let (moved, it) = MoveToNextInBlock it in
        if moved then it
        else if int (length (sr_index r)) \<le> si_block it + 1
        then it\<lparr>si_block := si_block it + 1, si_valid := False\<rparr>
        else load_and ParseCurrentEntry fs r (si_block it + 1) it)"

definition SstIter_Prev :: "fs \<Rightarrow> sst_reader \<Rightarrow> sst_iter \<Rightarrow> sst_iter" where
  "SstIter_Prev fs r it =
     (if \<not> SstIter_Valid r it then it
      else let (moved, it) = MoveToPrevInBlock it in
        if moved then it
        else if si_block it - 1 < 0 then it\<lparr>si_block := si_block it - 1, si_valid := False\<rparr>
        else load_and SeekToLastInBlock fs r (si_block it - 1) it)"

text \<open>\<open>NewIterator\<close>; the snapshot it is given is never used.\<close>

definition SstReader_NewIterator :: "sst_reader \<Rightarrow> sst_iter option" where
  "SstReader_NewIterator r = (if \<not> sr_opened r then None else Some SSTableIterator)"

section \<open>Positions in a table\<close>

text \<open>Where entry \<open>j\<close> of a block begins.\<close>

definition entry_offset :: "(bytes \<times> bytes) list \<Rightarrow> nat \<Rightarrow> nat" where
  "entry_offset g j = length (encode_entries (take j g))"

lemma entry_offset_0 [simp]: "entry_offset g 0 = 0"
  by (simp add: entry_offset_def)

lemma encode_entries_append [simp]: "encode_entries (a @ b) = encode_entries a @ encode_entries b"
  by (simp add: encode_entries_def)

lemma drop_entry_offset: "drop (entry_offset g j) (encode_entries g) = encode_entries (drop j g)"
  using encode_entries_append [of "take j g" "drop j g"] by (simp add: entry_offset_def)

lemma entry_offset_end: "entry_offset g (length g) = length (encode_entries g)"
  by (simp add: entry_offset_def)

lemma entry_offset_rest: "entry_offset g j + length (encode_entries (drop j g)) = length (encode_entries g)"
  using arg_cong [OF encode_entries_append [of "take j g" "drop j g"], of length] by (simp add: entry_offset_def)

lemma entry_offset_Suc_rest:
  "j < length g \<Longrightarrow> length (encode_entries g) - entry_offset g j - length (encode_entries (drop (Suc j) g)) = entry_offset g (Suc j) - entry_offset g j"
  using entry_offset_rest [of g "Suc j"] by linarith

lemma entry_offset_mono: "j < k \<Longrightarrow> k \<le> length g \<Longrightarrow> entry_offset g j < entry_offset g k"
proof (induction k)
  case (Suc k)
  have "entry_offset g k < entry_offset g (Suc k)"
    using Suc.prems(2) by (simp add: entry_offset_def take_Suc_conv_app_nth PutLPS_Nil)
  then show ?case using Suc by (cases "j = k") auto
qed simp

lemma entry_offset_le: "j < length g \<Longrightarrow> entry_offset g j < length (encode_entries g)"
  using entry_offset_mono [of j "length g" g] by (simp add: entry_offset_end)

lemma get_entry:
  assumes "entries_ok g" "j < length g"
  shows "\<exists>rest. GetLengthPrefixedSlice (encode_entries (drop j g)) = Some (rest, fst (g ! j)) \<and>
    GetLengthPrefixedSlice rest = Some (encode_entries (drop (Suc j) g), snd (g ! j))"
proof -
  obtain k v where kv: "g ! j = (k, v)" by fastforce
  then have "(k, v) \<in> set g" using assms(2) nth_mem by metis
  then have l: "length k < 2 ^ 32" "length v < 2 ^ 32" using assms(1) by (auto simp: entries_ok_def)
  have "encode_entries (drop j g) = PutLengthPrefixedSlice [] k @ PutLengthPrefixedSlice [] v @ encode_entries (drop (Suc j) g)"
    unfolding Cons_nth_drop_Suc [OF assms(2), symmetric] kv by simp
  then show ?thesis using get_put(4) l by (simp add: kv)
qed

lemma Parse_at:
  assumes "entries_ok g" "si_data it = encode_entries g" "si_offset it = entry_offset g j" "j < length g"
  shows "ParseCurrentEntry it = it\<lparr>si_key := fst (g ! j), si_value := snd (g ! j), si_valid := True, si_offset := entry_offset g (Suc j)\<rparr>"
proof -
  obtain rest where r: "GetLengthPrefixedSlice (encode_entries (drop j g)) = Some (rest, fst (g ! j))"
    "GetLengthPrefixedSlice rest = Some (encode_entries (drop (Suc j) g), snd (g ! j))"
    using get_entry [OF assms(1,4)] by blast
  have "entry_offset g j < entry_offset g (Suc j)" using entry_offset_mono [of j "Suc j" g] assms(4) by simp
  then show ?thesis
    using entry_offset_le [OF assms(4)] entry_offset_Suc_rest [OF assms(4)] r
    by (simp add: ParseCurrentEntry_def assms(2,3) drop_entry_offset)
qed

lemma Parse_end:
  assumes "si_data it = encode_entries g" "si_offset it = entry_offset g (length g)"
  shows "ParseCurrentEntry it = it\<lparr>si_valid := False\<rparr>"
  using assms by (simp add: ParseCurrentEntry_def entry_offset_end)

lemma block_buffer_ok:
  assumes "ReadDataBlock fs r offset sz = (s, data)" "ok s"
  shows "block_buffer fs r offset sz old = data"
proof (cases "sz = 0 \<or> unat sz \<le> 16")
  case True
  then show ?thesis using assms by (auto simp: ReadDataBlock_def block_buffer_def split: if_splits)
next
  case False
  obtain s1 d1 where f: "File_Read fs (sr_filename r) (offset + 16) (unat sz - 16) = (s1, d1)" by fastforce
  have "s1 = s \<or> True" "d1 = data" "length d1 = unat sz - 16"
    using assms f False by (auto simp: ReadDataBlock_def Let_def split: if_splits)
  then show ?thesis using False f by (simp add: block_buffer_def Let_def)
qed

text \<open>A file with a good image, opened.\<close>

definition table_open :: "fs \<Rightarrow> string \<Rightarrow> (bytes \<times> bytes) list list \<Rightarrow> bytes \<Rightarrow> sst_meta \<Rightarrow> bool" where
  "table_open fs f G bl m \<longleftrightarrow> blocks_fit G bl m \<and> map_of (fs_files fs) f = Some (sst_image G bl m) \<and>
     fs_can_read fs f \<and> entries_ok (concat G)"

lemma table_openD:
  assumes "table_open fs f G bl m"
  shows "G \<noteq> []" "i < length G \<Longrightarrow> G ! i \<noteq> []" "i < length G \<Longrightarrow> entries_ok (G ! i)"
proof -
  show "G \<noteq> []" "i < length G \<Longrightarrow> G ! i \<noteq> []"
    using assms nth_mem [of i G] unfolding table_open_def blocks_fit_def by (blast, metis)
  assume "i < length G"
  then have "set (G ! i) \<subseteq> set (concat G)" by (auto intro!: bexI [of _ "G ! i"])
  moreover have "entries_ok (concat G)" using assms by (simp add: table_open_def)
  ultimately show "entries_ok (G ! i)" unfolding entries_ok_def by blast
qed

lemma Load_at:
  assumes "table_open fs f G bl m" "i < length G" "si_block it = int i"
  shows "LoadCurrentBlock fs (opened_reader f G bl m) it =
    it\<lparr>si_status := OK, si_data := encode_entries (G ! i), si_offset := 0, si_cache := []\<rparr>"
proof -
  let ?r = "opened_reader f G bl m"
  have r: "ReadDataBlock fs ?r (ie_block_offset (index_of 0 G ! i)) (ie_block_size (index_of 0 G ! i)) = (OK, encode_entries (G ! i))"
    using assms(1,2) by (intro ReadDataBlock_at) (auto simp: table_open_def opened_reader_def)
  have ix: "sr_index ?r = index_of 0 G" by (simp add: opened_reader_def)
  show ?thesis
    using assms(2,3) block_buffer_ok [OF r ok_OK] by (simp add: LoadCurrentBlock_def ix r Let_def)
qed

definition iter_at :: "(bytes \<times> bytes) list list \<Rightarrow> nat \<Rightarrow> nat \<Rightarrow> sst_iter \<Rightarrow> bool" where
  "iter_at G i j it \<longleftrightarrow> i < length G \<and> j < length (G ! i) \<and> si_valid it \<and> si_block it = int i \<and>
     si_data it = encode_entries (G ! i) \<and> si_offset it = entry_offset (G ! i) (Suc j) \<and>
     si_key it = fst (G ! i ! j) \<and> si_value it = snd (G ! i ! j) \<and> si_status it = OK \<and>
     (si_cache it = [] \<or> si_cache it = map (entry_offset (G ! i)) [0..<length (G ! i)])"

text \<open>The entries from the iterator's position on; none when it is not valid.\<close>

definition iter_rest :: "sst_reader \<Rightarrow> (bytes \<times> bytes) list list \<Rightarrow> sst_iter \<Rightarrow> (bytes \<times> bytes) list \<Rightarrow> bool" where
  "iter_rest r G it es \<longleftrightarrow>
     (es = [] \<and> \<not> SstIter_Valid r it \<and> si_status it = OK) \<or>
     (\<exists>i j. iter_at G i j it \<and> es = drop j (G ! i) @ concat (drop (Suc i) G))"

lemma index_opened [simp]: "length (sr_index (opened_reader f G bl m)) = length G" "sr_index (opened_reader f G bl m) = index_of 0 G"
  by (simp_all add: opened_reader_def)

lemma iter_at_Valid: "iter_at G i j it \<Longrightarrow> SstIter_Valid (opened_reader f G bl m) it"
  by (simp add: iter_at_def SstIter_Valid_def)

lemma iter_rest_read:
  assumes "iter_rest (opened_reader f G bl m) G it es"
  shows "SstIter_Valid (opened_reader f G bl m) it \<longleftrightarrow> es \<noteq> []"
    "es \<noteq> [] \<Longrightarrow> (SstIter_key (opened_reader f G bl m) it, SstIter_value (opened_reader f G bl m) it) = hd es"
    "si_status it = OK"
proof -
  have h: "drop j (G ! i) = G ! i ! j # drop (Suc j) (G ! i)" if "iter_at G i j it" for i j
    using that Cons_nth_drop_Suc [of j "G ! i"] by (simp add: iter_at_def)
  show "SstIter_Valid (opened_reader f G bl m) it \<longleftrightarrow> es \<noteq> []"
    using assms iter_at_Valid h unfolding iter_rest_def by fastforce
  show "es \<noteq> [] \<Longrightarrow> (SstIter_key (opened_reader f G bl m) it, SstIter_value (opened_reader f G bl m) it) = hd es"
    using assms h iter_at_Valid [of G _ _ it f bl m] by (auto simp: iter_rest_def SstIter_key_def SstIter_value_def) (auto simp: iter_at_def)
  show "si_status it = OK" using assms by (auto simp: iter_rest_def iter_at_def)
qed

lemma first_entry:
  assumes "table_open fs f G bl m" "i < length G"
  shows "iter_at G i 0 (load_and ParseCurrentEntry fs (opened_reader f G bl m) (int i) it)"
proof -
  note d = table_openD(2,3) [OF assms]
  show ?thesis
    using d assms(2) Load_at [OF assms, of "it\<lparr>si_block := int i\<rparr>"] Parse_at [OF d(2), of _ 0]
    by (simp add: load_and_def iter_at_def)
qed

lemma SeekToFirst_rest:
  assumes "table_open fs f G bl m"
  shows "iter_rest (opened_reader f G bl m) G (SstIter_SeekToFirst fs (opened_reader f G bl m) it) (concat G)"
proof -
  have "0 < length G" using table_openD(1) [OF assms] by simp
  then have "iter_at G 0 0 (SstIter_SeekToFirst fs (opened_reader f G bl m) it)" "concat G = drop 0 (G ! 0) @ concat (drop (Suc 0) G)"
    using first_entry [OF assms, of 0 it] by (simp_all add: SstIter_SeekToFirst_def) (cases G; simp)
  then show ?thesis unfolding iter_rest_def by blast
qed

lemma Next_rest:
  assumes t: "table_open fs f G bl m" and r: "iter_rest (opened_reader f G bl m) G it (e # es)"
  shows "iter_rest (opened_reader f G bl m) G (SstIter_Next fs (opened_reader f G bl m) it) es"
proof -
  let ?r = "opened_reader f G bl m" and ?n = "SstIter_Next fs (opened_reader f G bl m) it"
  obtain i j where a: "iter_at G i j it" and es: "e # es = drop j (G ! i) @ concat (drop (Suc i) G)"
    using r by (auto simp: iter_rest_def)
  have v: "SstIter_Valid ?r it" by (rule iter_at_Valid [OF a])
  have ij: "i < length G" "j < length (G ! i)" and dat: "si_data it = encode_entries (G ! i)"
    "si_offset it = entry_offset (G ! i) (Suc j)" "si_block it = int i" using a by (simp_all add: iter_at_def)
  have es': "es = drop (Suc j) (G ! i) @ concat (drop (Suc i) G)"
    using es Cons_nth_drop_Suc [OF ij(2), symmetric] by simp
  show ?thesis
  proof (cases "Suc j < length (G ! i)")
    case True
    have p: "ParseCurrentEntry it = it\<lparr>si_key := fst (G ! i ! Suc j), si_value := snd (G ! i ! Suc j), si_valid := True,
        si_offset := entry_offset (G ! i) (Suc (Suc j))\<rparr>"
      by (rule Parse_at [OF table_openD(3) [OF t ij(1)] dat(1,2) True])
    have "entry_offset (G ! i) (Suc j) < entry_offset (G ! i) (Suc (Suc j))" using True by (intro entry_offset_mono) simp_all
    then have "?n = ParseCurrentEntry it" using v by (simp add: SstIter_Next_def MoveToNextInBlock_def p dat(2))
    then have "iter_at G i (Suc j) ?n" using a True by (simp add: p iter_at_def)
    then show ?thesis unfolding iter_rest_def es' by blast
  next
    case False
    then have j: "Suc j = length (G ! i)" using ij by simp
    have p: "ParseCurrentEntry it = it\<lparr>si_valid := False\<rparr>" using Parse_end [OF dat(1)] dat(2) j by simp
    show ?thesis
    proof (cases "Suc i < length G")
      case True
      then have "?n = load_and ParseCurrentEntry fs ?r (int (Suc i)) (it\<lparr>si_valid := False\<rparr>)"
        using v by (simp add: SstIter_Next_def MoveToNextInBlock_def p dat(3) add.commute)
      then have "iter_at G (Suc i) 0 ?n" using first_entry [OF t True] by simp
      moreover have "es = drop 0 (G ! Suc i) @ concat (drop (Suc (Suc i)) G)"
        using True j by (simp add: es' Cons_nth_drop_Suc [symmetric])
      ultimately show ?thesis unfolding iter_rest_def by blast
    next
      case L: False
      then have "\<not> SstIter_Valid ?r ?n" "si_status ?n = OK" "es = []"
        using v a j by (simp_all add: SstIter_Next_def MoveToNextInBlock_def p dat(3) SstIter_Valid_def es' iter_at_def)
      then show ?thesis unfolding iter_rest_def by blast
    qed
  qed
qed

section \<open>Seek and Prev\<close>

text \<open>What the loop of \<open>SeekInBlock\<close> looks at: every other entry.\<close>

fun every_other :: "('a \<Rightarrow> bool) \<Rightarrow> 'a list \<Rightarrow> 'a list" where
  "every_other P [] = []"
| "every_other P [x] = (if P x then [x] else [])"
| "every_other P (x # y # zs) = (if P x then x # y # zs else every_other P zs)"

lemma SeekInBlock_loop_at:
  assumes "entries_ok g" "si_data it = encode_entries g" "si_offset it = entry_offset g j" "j \<le> length g"
  shows "let rs = every_other (\<lambda>e. 0 \<le> cmp (fst e) target) (drop j g); it' = SeekInBlock_loop cmp target it in
    si_block it' = si_block it \<and> si_data it' = encode_entries g \<and> si_status it' = si_status it \<and> si_cache it' = si_cache it \<and>
    (if rs = [] then \<not> si_valid it'
     else \<exists>k < length g. rs = drop k g \<and> si_valid it' \<and> si_offset it' = entry_offset g (Suc k) \<and>
       si_key it' = fst (g ! k) \<and> si_value it' = snd (g ! k))"
  using assms(2-4)
proof (induction "length g - j" arbitrary: j it rule: less_induct)
  case less
  note S = SeekInBlock_loop.simps [of cmp target it]
  show ?case
  proof (cases "j < length g")
    case False
    then have "length (si_data it) \<le> si_offset it" using less.prems entry_offset_end [of g] by simp
    then show ?thesis using False less.prems by (simp add: S)
  next
    case True
    note p = Parse_at [OF assms(1) less.prems(1,2) True] and lt = entry_offset_le [OF True]
    have d: "drop j g = g ! j # drop (Suc j) g" by (rule Cons_nth_drop_Suc [OF True, symmetric])
    show ?thesis
    proof (cases "0 \<le> cmp (fst (g ! j)) target")
      case hit: True
      then have "every_other (\<lambda>e. 0 \<le> cmp (fst e) target) (drop j g) = drop j g"
        unfolding d by (cases "drop (Suc j) g") simp_all
      moreover have "drop j g \<noteq> []" using True by simp
      ultimately show ?thesis using hit p lt less.prems True by (auto simp: S)
    next
      case miss: False
      let ?it1 = "ParseCurrentEntry it"
      show ?thesis
      proof (cases "Suc j < length g")
        case False
        then have e: "Suc j = length g" using True by simp
        have p1: "ParseCurrentEntry ?it1 = ?it1\<lparr>si_valid := False\<rparr>"
          using Parse_end [of ?it1 g] p e less.prems by simp
        have "drop (Suc j) g = []" using e by simp
        then show ?thesis using miss p p1 lt less.prems by (simp add: S MoveToNextInBlock_def d)
      next
        case more: True
        have p1: "ParseCurrentEntry ?it1 = ?it1\<lparr>si_key := fst (g ! Suc j), si_value := snd (g ! Suc j), si_valid := True,
            si_offset := entry_offset g (Suc (Suc j))\<rparr>"
          using p less.prems more by (intro Parse_at [OF assms(1)]) simp_all
        have mono: "entry_offset g (Suc j) < entry_offset g (Suc (Suc j))" using more by (intro entry_offset_mono) simp_all
        have d2: "drop (Suc j) g = g ! Suc j # drop (Suc (Suc j)) g" by (rule Cons_nth_drop_Suc [OF more, symmetric])
        have "SeekInBlock_loop cmp target it = SeekInBlock_loop cmp target (ParseCurrentEntry ?it1)"
          using miss p p1 lt less.prems mono by (simp add: S MoveToNextInBlock_def)
        moreover have "every_other (\<lambda>e. 0 \<le> cmp (fst e) target) (drop j g) =
            every_other (\<lambda>e. 0 \<le> cmp (fst e) target) (drop (Suc (Suc j)) g)"
          using miss by (simp add: d d2)
        ultimately show ?thesis
          using less.hyps [of "Suc (Suc j)" "ParseCurrentEntry ?it1"] p p1 less.prems more by simp
      qed
    qed
  qed
qed

lemma BuildOffsetCache_at:
  assumes "entries_ok g" "j \<le> length g"
  shows "BuildOffsetCache_loop (encode_entries g) (entry_offset g j) (map (entry_offset g) [0..<j]) = map (entry_offset g) [0..<length g]"
  using assms(2)
proof (induction "length g - j" arbitrary: j)
  case 0
  then show ?case using entry_offset_end [of g] by (simp add: BuildOffsetCache_loop.simps)
next
  case (Suc n)
  then have j: "j < length g" by simp
  obtain rest where r: "GetLengthPrefixedSlice (encode_entries (drop j g)) = Some (rest, fst (g ! j))"
    "GetLengthPrefixedSlice rest = Some (encode_entries (drop (Suc j) g), snd (g ! j))"
    using get_entry [OF assms(1) j] by blast
  have m: "entry_offset g j < entry_offset g (Suc j)" using entry_offset_mono [of j "Suc j" g] j by simp
  have "BuildOffsetCache_loop (encode_entries g) (entry_offset g j) (map (entry_offset g) [0..<j]) =
      BuildOffsetCache_loop (encode_entries g) (entry_offset g (Suc j)) (map (entry_offset g) [0..<Suc j])"
    using entry_offset_le [OF j] m r entry_offset_rest [of g "Suc j"]
    by (subst BuildOffsetCache_loop.simps) (simp add: drop_entry_offset, metis (no_types) add_diff_cancel_right' not_le)
  then show ?case using Suc.hyps(1) [of "Suc j"] Suc.hyps(2) j by simp
qed

lemma takeWhile_offsets:
  assumes "j < length g"
  shows "length (takeWhile (\<lambda>x. x < entry_offset g (Suc j)) (map (entry_offset g) [0..<length g])) = Suc j"
proof -
  have "map (entry_offset g) [0..<length g] = map (entry_offset g) [0..<Suc j] @ map (entry_offset g) [Suc j..<length g]"
  proof -
    have "length g = Suc j + (length g - Suc j)" using assms by simp
    then have "[0..<length g] = [0..<Suc j] @ [Suc j..<length g]" by (metis le0 upt_add_eq_append)
    then show ?thesis by (metis map_append)
  qed
  moreover have "takeWhile (\<lambda>x. x < entry_offset g (Suc j)) (map (entry_offset g) [0..<Suc j] @ ys) =
      map (entry_offset g) [0..<Suc j] @ takeWhile (\<lambda>x. x < entry_offset g (Suc j)) ys" for ys
    by (rule takeWhile_append2) (use entry_offset_mono [of _ "Suc j" g] assms in auto)
  moreover have "takeWhile (\<lambda>x. x < entry_offset g (Suc j)) (map (entry_offset g) [Suc j..<length g]) = []"
    by (cases "Suc j < length g") (simp_all add: upt_conv_Cons)
  ultimately show ?thesis by (simp del: upt_Suc)
qed

lemma Prev_stays:
  assumes t: "table_open fs f G bl m" and a: "iter_at G i j it"
  shows "iter_at G i j (SstIter_Prev fs (opened_reader f G bl m) it)"
proof -
  have ij: "i < length G" "j < length (G ! i)" and dat: "si_data it = encode_entries (G ! i)"
    "si_offset it = entry_offset (G ! i) (Suc j)" using a by (simp_all add: iter_at_def)
  let ?it = "if si_cache it = [] then it\<lparr>si_cache := BuildOffsetCache_loop (si_data it) 0 []\<rparr> else it"
  have g: "entries_ok (G ! i)" by (rule table_openD(3) [OF t ij(1)])
  have c: "si_cache ?it = map (entry_offset (G ! i)) [0..<length (G ! i)]"
    using BuildOffsetCache_at [OF g, of 0] a by (auto simp: iter_at_def)
  have nz: "si_offset it \<noteq> 0" using entry_offset_mono [of j "Suc j" "G ! i"] ij dat(2) by simp
  have p: "ParseCurrentEntry (?it\<lparr>si_offset := entry_offset (G ! i) j\<rparr>) =
      ?it\<lparr>si_key := fst (G ! i ! j), si_value := snd (G ! i ! j), si_valid := True, si_offset := entry_offset (G ! i) (Suc j)\<rparr>"
    using Parse_at [OF g, of "?it\<lparr>si_offset := entry_offset (G ! i) j\<rparr>" j] ij dat by simp
  have n: "length (takeWhile (\<lambda>x. x < si_offset ?it) (si_cache ?it)) = Suc j"
    using takeWhile_offsets [OF ij(2)] dat(2) unfolding c by simp
  have "MoveToPrevInBlock it = (True, ParseCurrentEntry (?it\<lparr>si_offset := entry_offset (G ! i) j\<rparr>))"
    using nz n c ij(2) p unfolding MoveToPrevInBlock_def Let_def by (simp split del: if_split)
  then show ?thesis
    using iter_at_Valid [OF a, of f bl m] a c by (simp add: SstIter_Prev_def p iter_at_def split del: if_split) auto
qed

lemma Seek_rest:
  assumes t: "table_open fs f G bl m" and i: "FindIndexEntry cmp (index_of 0 G) target = int i" "i < length G"
  shows "iter_rest (opened_reader f G bl m) G (SstIter_Seek cmp fs (opened_reader f G bl m) target it)
    (let rs = every_other (\<lambda>e. 0 \<le> cmp (fst e) target) (G ! i) in if rs = [] then [] else rs @ concat (drop (Suc i) G))"
proof -
  let ?r = "opened_reader f G bl m" and ?rs = "every_other (\<lambda>e. 0 \<le> cmp (fst e) target) (G ! i)"
  let ?base = "it\<lparr>si_block := int i, si_status := OK, si_data := encode_entries (G ! i), si_cache := [], si_offset := 0\<rparr>"
  let ?it = "SeekInBlock_loop cmp target ?base"
  have ne: "encode_entries (G ! i) \<noteq> []" using table_openD(2) [OF t i(2)] by simp
  have s: "SstIter_Seek cmp fs ?r target it = ?it"
    using Load_at [OF t i(2), of "it\<lparr>si_block := int i\<rparr>"] ne by (simp add: SstIter_Seek_def i(1) load_and_def SeekInBlock_def)
  have base: "si_data ?base = encode_entries (G ! i)" "si_offset ?base = entry_offset (G ! i) 0" "0 \<le> length (G ! i)" by simp_all
  note L0 = SeekInBlock_loop_at [OF table_openD(3) [OF t i(2)] base, of cmp target, unfolded Let_def drop_0]
  have L: "si_block ?it = int i" "si_data ?it = encode_entries (G ! i)" "si_status ?it = OK" "si_cache ?it = []"
    using L0 by simp_all
  note L5 = conjunct2 [OF conjunct2 [OF conjunct2 [OF conjunct2 [OF L0]]]]
  show ?thesis
  proof (cases "?rs = []")
    case True
    then have "\<not> si_valid ?it" using L5 by simp
    then show ?thesis using True L by (simp add: s iter_rest_def SstIter_Valid_def)
  next
    case False
    then obtain k where k: "k < length (G ! i)" "?rs = drop k (G ! i)" "iter_at G i k ?it"
      using L5 L i(2) unfolding if_not_P [OF False] iter_at_def by blast
    then have "?rs @ concat (drop (Suc i) G) = drop k (G ! i) @ concat (drop (Suc i) G)" by simp
    then show ?thesis using False k(3) unfolding s iter_rest_def Let_def by auto
  qed
qed

lemma scan_rest:
  assumes "table_open fs f G bl m" "n \<le> length (concat G)"
  shows "iter_rest (opened_reader f G bl m) G
    ((SstIter_Next fs (opened_reader f G bl m) ^^ n) (SstIter_SeekToFirst fs (opened_reader f G bl m) it)) (drop n (concat G))"
  using assms(2)
proof (induction n)
  case 0
  then show ?case using SeekToFirst_rest [OF assms(1)] by simp
next
  case (Suc n)
  then have "drop n (concat G) = concat G ! n # drop (Suc n) (concat G)" by (simp add: Cons_nth_drop_Suc del: length_concat)
  then show ?case using Suc Next_rest [OF assms(1)] by simp
qed

section \<open>An example table\<close>

abbreviation (input) two_blocks :: "(bytes \<times> bytes) list list" where
  "two_blocks \<equiv> [[(InternalKey [97] 5 kValue, [10]), (InternalKey [98] 6 kValue, [20])], [(InternalKey [99] 7 kValue, [30])]]"

abbreviation (input) two_blocks_fs :: fs where
  "two_blocks_fs \<equiv> \<lparr>fs_files = [(''1'', sst_image two_blocks [] SSTableMeta_new)], fs_disk = [], fs_can_open = \<lambda>_. True,
     fs_can_write = \<lambda>_. True, fs_can_sync = \<lambda>_. True, fs_can_rename = True, fs_partial = 0, fs_scan = 0,
     fs_can_read = \<lambda>_. True, fs_can_close = True, fs_can_remove = True, fs_strerror = []\<rparr>"

lemma example_order:
  "Bytewise_Compare (InternalKey [97] 5 kValue) [98] < 0" "\<not> 0 \<le> Bytewise_Compare (InternalKey [97] 5 kValue) [98]"
proof -
  obtain r where "InternalKey [97] 5 kValue = [97] @ r"
    using internal_key_shape [of "InternalKey [97] 5 kValue"] by auto
  then show "Bytewise_Compare (InternalKey [97] 5 kValue) [98] < 0" by (simp add: Bytewise_tests)
  then show "\<not> 0 \<le> Bytewise_Compare (InternalKey [97] 5 kValue) [98]" by simp
qed

lemma two_blocks_open: "table_open two_blocks_fs ''1'' two_blocks [] SSTableMeta_new"
proof -
  have fixed: "length (PutFixed32 [] u) = 4" for u by (simp add: PutFixed32_def)
  have i: "length (PutLengthPrefixedSlice [] (IndexEntry_Encode e)) \<le> 100" if "length (ie_key e) \<le> 9" for e
    using put_lengths(3) [of "ie_key e"] put_lengths(1) [of "ie_block_offset e"] that put_lengths(3) [of "IndexEntry_Encode e"]
    by (simp add: IndexEntry_Encode_def put_normal fixed)
  have m: "length (Meta_Encode SSTableMeta_new) \<le> 200"
    using put_lengths(1) [of 0] put_lengths(3) [of "[]"]
    by (simp add: Meta_Encode_def put_normal fixed SSTableMeta_new_def bytes_of_string_def)
  have f: "length (sst_footer a b c) = 48" for a b c by (simp add: sst_footer_def Let_def)
  have d: "length (data_part two_blocks) \<le> 200"
    using encode_entries_bound [of "hd two_blocks"] encode_entries_bound [of "last two_blocks"]
    by (simp add: entries_bound_def)
  have x: "length (index_data two_blocks) \<le> 200"
    using i [of "index_of 0 two_blocks ! 0"] i [of "index_of 0 two_blocks ! 1"] by (simp add: index_data_def)
  have "length (sst_image two_blocks [] SSTableMeta_new) < 2 ^ 32"
    using m f d x by (simp add: sst_image_def optional_block_def del: data_part_simps)
  then have "blocks_fit two_blocks [] SSTableMeta_new"
    by (intro image_fits) (simp_all add: SSTableMeta_new_def)
  then show ?thesis by (simp add: table_open_def entries_ok_def)
qed

section \<open>Theorems\<close>

text \<open>C21: a full scan of a table visits every entry, in file order, with its value, and then
  ends: \<open>SeekToFirst\<close> and \<open>n\<close> calls of \<open>Next\<close> are at entry \<open>n\<close>, across block boundaries.\<close>

theorem sst_scan_visits_all:
  assumes "table_open fs f G bl m" "n \<le> length (concat G)" "r = opened_reader f G bl m"
    and "it' = (SstIter_Next fs r ^^ n) (SstIter_SeekToFirst fs r it)"
  shows "if n < length (concat G)
    then SstIter_Valid r it' \<and> (SstIter_key r it', SstIter_value r it') = concat G ! n
    else \<not> SstIter_Valid r it' \<and> si_status it' = OK"
  using iter_rest_read [OF scan_rest [OF assms(1,2)], of it, folded assms(3), folded assms(4)]
  by (simp add: hd_drop_conv_nth not_less del: length_concat)

theorem sst_scan_visits_all_witness:
  "SstIter_Valid (opened_reader ''1'' two_blocks [] SSTableMeta_new)
     ((SstIter_Next two_blocks_fs (opened_reader ''1'' two_blocks [] SSTableMeta_new) ^^ 2)
        (SstIter_SeekToFirst two_blocks_fs (opened_reader ''1'' two_blocks [] SSTableMeta_new) SSTableIterator)) \<and>
   SstIter_value (opened_reader ''1'' two_blocks [] SSTableMeta_new)
     ((SstIter_Next two_blocks_fs (opened_reader ''1'' two_blocks [] SSTableMeta_new) ^^ 2)
        (SstIter_SeekToFirst two_blocks_fs (opened_reader ''1'' two_blocks [] SSTableMeta_new) SSTableIterator)) = [30]"
  using sst_scan_visits_all [OF two_blocks_open _ refl refl, of 2 SSTableIterator] by (simp del: funpow.simps)

text \<open>C22: \<open>Seek\<close> compares only every other entry of the block it chose: it stops at the first
  entry at an even place that is not below the target, and is invalid when there is none, even
  if the target's entry is there at an odd place or begins the next block.\<close>

theorem sst_seek_skips_entries:
  assumes "table_open fs f G bl m" "FindIndexEntry cmp (index_of 0 G) target = int i" "i < length G"
    and "r = opened_reader f G bl m" "it' = SstIter_Seek cmp fs r target it"
    and "rs = every_other (\<lambda>e. 0 \<le> cmp (fst e) target) (G ! i)"
  shows "if rs = [] then \<not> SstIter_Valid r it'
    else SstIter_Valid r it' \<and> (SstIter_key r it', SstIter_value r it') = hd rs"
  using iter_rest_read(1,2) [OF Seek_rest [OF assms(1-3), of it], folded assms(4), folded assms(5,6)]
  by (simp add: Let_def split: if_splits)

theorem sst_seek_skips_entries_witness:
  "\<not> SstIter_Valid (opened_reader ''1'' two_blocks [] SSTableMeta_new)
     (SstIter_Seek Bytewise_Compare two_blocks_fs (opened_reader ''1'' two_blocks [] SSTableMeta_new) [98] SSTableIterator) \<and>
   (\<exists>e \<in> set (concat two_blocks). ent_user e = [98])"
proof -
  have "FindIndexEntry Bytewise_Compare (index_of 0 two_blocks) [98] = int 0"
    by (simp add: FindIndexEntry_def FindIndexEntry_loop.simps user_key_part_internal Bytewise_Compare_lex)
  then show ?thesis
    using sst_seek_skips_entries [OF two_blocks_open _ _ refl refl refl, of Bytewise_Compare "[98]" 0 SSTableIterator]
    by (simp add: example_order)
qed

text \<open>\<open>Prev\<close> never moves: at any entry of a table it reads the same entry again, so a loop
  that walks backwards does not end.\<close>

theorem sst_prev_stays:
  assumes "table_open fs f G bl m" "n < length (concat G)" "r = opened_reader f G bl m"
    and "it' = (SstIter_Next fs r ^^ n) (SstIter_SeekToFirst fs r it)"
  shows "SstIter_Valid r ((SstIter_Prev fs r ^^ k) it') \<and>
    SstIter_key r ((SstIter_Prev fs r ^^ k) it') = fst (concat G ! n)"
proof -
  have rest: "iter_rest r G it' (drop n (concat G))" using scan_rest [OF assms(1), of n it] assms(2-4) by simp
  then obtain i j where a: "iter_at G i j it'" using assms(2) by (auto simp: iter_rest_def simp del: length_concat)
  have p: "iter_at G i j ((SstIter_Prev fs r ^^ k) it')"
    unfolding assms(3) by (induction k) (simp_all add: a Prev_stays [OF assms(1)])
  have "SstIter_key r it' = fst (concat G ! n)"
    using iter_rest_read(2) [OF rest [unfolded assms(3)]] assms(2,3) by (simp add: hd_drop_conv_nth prod_eq_iff del: length_concat)
  moreover have "si_key ((SstIter_Prev fs r ^^ k) it') = si_key it'" using p a by (simp add: iter_at_def)
  ultimately show ?thesis
    using iter_at_Valid [OF a, of f bl m] iter_at_Valid [OF p, of f bl m] assms(3) by (simp add: SstIter_key_def)
qed

theorem sst_prev_stays_witness:
  "SstIter_key (opened_reader ''1'' two_blocks [] SSTableMeta_new)
     ((SstIter_Prev two_blocks_fs (opened_reader ''1'' two_blocks [] SSTableMeta_new) ^^ 5)
       ((SstIter_Next two_blocks_fs (opened_reader ''1'' two_blocks [] SSTableMeta_new) ^^ 1)
         (SstIter_SeekToFirst two_blocks_fs (opened_reader ''1'' two_blocks [] SSTableMeta_new) SSTableIterator))) =
   InternalKey [98] 6 kValue"
  using sst_prev_stays [OF two_blocks_open _ refl refl, of 1 5 SSTableIterator] by (simp del: funpow.simps)

end
