(* ===== verification/Compactions.thy ===== *)
theory Compactions
  imports SSTableIterators
begin

text \<open>
  The compactor (\<open>SSTableCompactor\<close> in src/storage/sstable.cc): the merge of table files into one,
  the split of a large file, the rebuild of a Bloom filter and the check of a result. Loops over
  iterators take fuel and answer \<open>None\<close> when it runs out. The writer's options and the
  compaction configuration are arguments. Durations are not modelled.
\<close>

section \<open>Jobs and results\<close>

record compaction_config =
  oldest_snapshot_sequence :: u64
  is_bottommost_level :: bool

definition CompactionConfig_new :: compaction_config where
  "CompactionConfig_new = \<lparr>oldest_snapshot_sequence = 0, is_bottommost_level = False\<rparr>"

datatype compaction_type = kMinor | kMajor | kUniversal | kFIFO | kManual

record compaction_job =
  cj_type :: compaction_type
  cj_input_level :: int
  cj_output_level :: int
  cj_input_files :: "string list"
  cj_output_file_prefix :: string
  cj_start_key :: bytes
  cj_end_key :: bytes
  cj_is_manual :: bool
  cj_delete_obsolete_files :: bool

record compaction_result =
  cr_status :: status
  cr_output_files :: "string list"
  cr_output_metas :: "sst_meta list"
  cr_bytes_read :: u64
  cr_bytes_written :: u64
  cr_num_input_records :: u64
  cr_num_output_records :: u64
  cr_num_deleted_records :: u64

definition CompactionResult :: compaction_result where
  "CompactionResult = \<lparr>cr_status = OK, cr_output_files = [], cr_output_metas = [], cr_bytes_read = 0,
     cr_bytes_written = 0, cr_num_input_records = 0, cr_num_output_records = 0, cr_num_deleted_records = 0\<rparr>"

definition ShouldKeepKey :: "compaction_config \<Rightarrow> bytes \<Rightarrow> bool" where
  "ShouldKeepKey config key =
     (case ParseInternalKey key of
        None \<Rightarrow> False
      | Some (user_key, snapshot_seq, type) \<Rightarrow>
          if oldest_snapshot_sequence config \<le> snapshot_seq then True
          else if type = kDeletion \<and> is_bottommost_level config then False
          else False)"

section \<open>MultiWayMergeIterator\<close>

record merge_child =
  mc_reader :: sst_reader
  mc_iter :: sst_iter
  mc_valid :: bool

record merge_iter =
  mi_children :: "merge_child list"
  mi_current :: int

definition Child_Update :: "merge_child \<Rightarrow> merge_child" where
  "Child_Update c = c\<lparr>mc_valid := SstIter_Valid (mc_reader c) (mc_iter c)\<rparr>"

text \<open>A file that cannot be opened is left out.\<close>

fun open_children :: "(bytes \<Rightarrow> bytes \<Rightarrow> int) \<Rightarrow> fs \<Rightarrow> string list \<Rightarrow> merge_child list" where
  "open_children cmp fs [] = []"
| "open_children cmp fs (f # rest) =
     (let (s, r) = SstReader_Open cmp fs f SSTableReader in
      if ok s then (case SstReader_NewIterator r of
                      None \<Rightarrow> open_children cmp fs rest
                    | Some it \<Rightarrow> Child_Update \<lparr>mc_reader = r, mc_iter = it, mc_valid = False\<rparr> # open_children cmp fs rest)
      else open_children cmp fs rest)"

definition CreateMergeIterator :: "(bytes \<Rightarrow> bytes \<Rightarrow> int) \<Rightarrow> fs \<Rightarrow> string list \<Rightarrow> merge_iter" where
  "CreateMergeIterator cmp fs files =
     \<lparr>mi_children = (if files = [] then [] else open_children cmp fs files), mi_current = -1\<rparr>"

definition child_key :: "merge_child \<Rightarrow> bytes" where
  "child_key c = SstIter_key (mc_reader c) (mc_iter c)"

definition child_value :: "merge_child \<Rightarrow> bytes" where
  "child_value c = SstIter_value (mc_reader c) (mc_iter c)"

text \<open>\<open>FindMin\<close>: the first child whose key is smallest, \<open>-1\<close> for none.\<close>

fun FindMin_loop :: "(bytes \<Rightarrow> bytes \<Rightarrow> int) \<Rightarrow> int \<Rightarrow> int \<Rightarrow> bytes \<Rightarrow> merge_child list \<Rightarrow> int" where
  "FindMin_loop cmp i current min_key [] = current"
| "FindMin_loop cmp i current min_key (c # cs) =
     (if mc_valid c \<and> (current = -1 \<or> cmp (child_key c) min_key < 0)
      then FindMin_loop cmp (i + 1) i (child_key c) cs
      else FindMin_loop cmp (i + 1) current min_key cs)"

definition Merge_FindMin :: "(bytes \<Rightarrow> bytes \<Rightarrow> int) \<Rightarrow> merge_iter \<Rightarrow> merge_iter" where
  "Merge_FindMin cmp mi = mi\<lparr>mi_current := FindMin_loop cmp 0 (-1) [] (mi_children mi)\<rparr>"

definition Merge_SeekToFirst :: "(bytes \<Rightarrow> bytes \<Rightarrow> int) \<Rightarrow> fs \<Rightarrow> merge_iter \<Rightarrow> merge_iter" where
  "Merge_SeekToFirst cmp fs mi =
     Merge_FindMin cmp (mi\<lparr>mi_children :=
       map (\<lambda>c. Child_Update (c\<lparr>mc_iter := SstIter_SeekToFirst fs (mc_reader c) (mc_iter c)\<rparr>)) (mi_children mi)\<rparr>)"

definition Merge_Seek :: "(bytes \<Rightarrow> bytes \<Rightarrow> int) \<Rightarrow> fs \<Rightarrow> bytes \<Rightarrow> merge_iter \<Rightarrow> merge_iter" where
  "Merge_Seek cmp fs target mi =
     Merge_FindMin cmp (mi\<lparr>mi_children :=
       map (\<lambda>c. Child_Update (c\<lparr>mc_iter := SstIter_Seek cmp fs (mc_reader c) target (mc_iter c)\<rparr>)) (mi_children mi)\<rparr>)"

definition Merge_Next :: "(bytes \<Rightarrow> bytes \<Rightarrow> int) \<Rightarrow> fs \<Rightarrow> merge_iter \<Rightarrow> merge_iter" where
  "Merge_Next cmp fs mi =
     Merge_FindMin cmp
       (if 0 \<le> mi_current mi \<and> mi_current mi < int (length (mi_children mi))
        then let n = nat (mi_current mi); c = mi_children mi ! n
             in mi\<lparr>mi_children := (mi_children mi)[n :=
                  Child_Update (c\<lparr>mc_iter := SstIter_Next fs (mc_reader c) (mc_iter c)\<rparr>)]\<rparr>
        else mi)"

definition Merge_Valid :: "merge_iter \<Rightarrow> bool" where
  "Merge_Valid mi \<longleftrightarrow> 0 \<le> mi_current mi \<and> mi_current mi < int (length (mi_children mi)) \<and>
     mc_valid (mi_children mi ! nat (mi_current mi))"

definition Merge_key :: "merge_iter \<Rightarrow> bytes" where
  "Merge_key mi = (if Merge_Valid mi then child_key (mi_children mi ! nat (mi_current mi)) else [])"

definition Merge_value :: "merge_iter \<Rightarrow> bytes" where
  "Merge_value mi = (if Merge_Valid mi then child_value (mi_children mi ! nat (mi_current mi)) else [])"

text \<open>The first status that is not \<open>OK\<close>.\<close>

definition Merge_status :: "merge_iter \<Rightarrow> status" where
  "Merge_status mi =
     (case find (\<lambda>s. \<not> ok s) (map (\<lambda>c. si_status (mc_iter c)) (mi_children mi)) of None \<Rightarrow> OK | Some s \<Rightarrow> s)"

section \<open>Merging files\<close>

fun MergeInputFiles_loop ::
    "(bytes \<Rightarrow> bytes \<Rightarrow> int) \<Rightarrow> compaction_config \<Rightarrow> nat \<Rightarrow> merge_iter \<Rightarrow> sst_writer \<Rightarrow> fs \<Rightarrow> compaction_result
     \<Rightarrow> (status \<times> merge_iter \<times> sst_writer \<times> fs \<times> compaction_result) option" where
  "MergeInputFiles_loop cmp config fuel mi w fs res =
     (if \<not> Merge_Valid mi then Some (OK, mi, w, fs, res)
      else case fuel of
        0 \<Rightarrow> None
      | Suc n \<Rightarrow>
          (let key = Merge_key mi; value = Merge_value mi in
           if ParseInternalKey key = None
           then Some (Corruption ''Failed to parse internal key'', mi, w, fs, res)
           else let (s, w, fs, res) =
                  (if ShouldKeepKey config key
                   then let (s, w, fs) = SstWriter_Add cmp w key value fs
                        in (s, w, fs, if ok s then res\<lparr>cr_num_output_records := cr_num_output_records res + 1\<rparr> else res)
                   else (OK, w, fs, res)) in
             if \<not> ok s then Some (s, mi, w, fs, res)
             else MergeInputFiles_loop cmp config n (Merge_Next cmp fs mi) w fs
                    (res\<lparr>cr_num_input_records := cr_num_input_records res + 1\<rparr>)))"

declare MergeInputFiles_loop.simps [simp del]

definition MergeInputFiles ::
    "(bytes \<Rightarrow> bytes \<Rightarrow> int) \<Rightarrow> sst_writer_options \<Rightarrow> compaction_config \<Rightarrow> nat \<Rightarrow> string list \<Rightarrow> string \<Rightarrow> int \<Rightarrow> u64
     \<Rightarrow> fs \<Rightarrow> compaction_result \<Rightarrow> (status \<times> compaction_result \<times> fs) option" where
  "MergeInputFiles cmp opts config fuel input_files output_file output_level now fs res =
     (let mi = CreateMergeIterator cmp fs input_files;
          (s, w, fs) = SstWriter_Open (SSTableWriter opts) output_file now fs in
      if \<not> ok s then Some (s, res, SstWriter_destroy w fs)
      else case MergeInputFiles_loop cmp config fuel (Merge_SeekToFirst cmp fs mi) w fs res of
        None \<Rightarrow> None
      | Some (s, mi, w, fs, res) \<Rightarrow>
          (let s = (if ok s then Merge_status mi else s) in
           if \<not> ok s then (let (_, w, fs) = SstWriter_Abandon w fs in Some (s, res, SstWriter_destroy w fs))
           else let (s, w, fs) = SstWriter_Finish w fs in
           if \<not> ok s then Some (s, res, SstWriter_destroy w fs)
           else Some (OK, res\<lparr>cr_output_files := cr_output_files res @ [output_file],
                              cr_output_metas := cr_output_metas res @ [(sw_meta w)\<lparr>sm_level := output_level\<rparr>],
                              cr_bytes_written := cr_bytes_written res + sw_current_offset w\<rparr>,
                      SstWriter_destroy w fs)))"

definition DoCompaction ::
    "(bytes \<Rightarrow> bytes \<Rightarrow> int) \<Rightarrow> sst_writer_options \<Rightarrow> compaction_config \<Rightarrow> nat \<Rightarrow> compaction_job \<Rightarrow> u64 \<Rightarrow> fs
     \<Rightarrow> compaction_result \<Rightarrow> (status \<times> compaction_result \<times> fs) option" where
  "DoCompaction cmp opts config fuel job now fs res =
     MergeInputFiles cmp opts config fuel (cj_input_files job)
       (cj_output_file_prefix job @ (if length (cj_input_files job) = 1 then ''_0.sst'' else ''_merged.sst''))
       (cj_output_level job) now fs res"

definition Compactor_CompactFiles ::
    "(bytes \<Rightarrow> bytes \<Rightarrow> int) \<Rightarrow> sst_writer_options \<Rightarrow> compaction_config \<Rightarrow> nat \<Rightarrow> compaction_job \<Rightarrow> u64 \<Rightarrow> fs
     \<Rightarrow> (compaction_result \<times> fs) option" where
  "Compactor_CompactFiles cmp opts config fuel job now fs =
     (if cj_input_files job = []
      then Some (CompactionResult\<lparr>cr_status := InvalidArgument ''No input files for compaction''\<rparr>, fs)
      else map_option (\<lambda>(s, res, fs). (res\<lparr>cr_status := s\<rparr>, fs))
             (DoCompaction cmp opts config fuel job now fs CompactionResult))"

definition Compactor_CompactRange ::
    "(bytes \<Rightarrow> bytes \<Rightarrow> int) \<Rightarrow> sst_writer_options \<Rightarrow> compaction_config \<Rightarrow> nat \<Rightarrow> string list \<Rightarrow> string \<Rightarrow> int
     \<Rightarrow> bytes \<Rightarrow> bytes \<Rightarrow> u64 \<Rightarrow> fs \<Rightarrow> (compaction_result \<times> fs) option" where
  "Compactor_CompactRange cmp opts config fuel input_files output_file_prefix output_level start_key end_key now fs =
     Compactor_CompactFiles cmp opts config fuel
       \<lparr>cj_type = kMajor, cj_input_level = 0, cj_output_level = output_level, cj_input_files = input_files,
        cj_output_file_prefix = output_file_prefix, cj_start_key = start_key, cj_end_key = end_key,
        cj_is_manual = True, cj_delete_obsolete_files = True\<rparr> now fs"

section \<open>Splitting a file\<close>

text \<open>The inner loop: entries until the file has its size.\<close>

fun Split_fill ::
    "(bytes \<Rightarrow> bytes \<Rightarrow> int) \<Rightarrow> sst_reader \<Rightarrow> u64 \<Rightarrow> nat \<Rightarrow> sst_iter \<Rightarrow> sst_writer \<Rightarrow> fs \<Rightarrow> compaction_result
     \<Rightarrow> (status \<times> sst_iter \<times> sst_writer \<times> fs \<times> compaction_result) option" where
  "Split_fill cmp r target_file_size fuel it w fs res =
     (if \<not> (SstIter_Valid r it \<and> sw_current_offset w < target_file_size) then Some (OK, it, w, fs, res)
      else case fuel of
        0 \<Rightarrow> None
      | Suc n \<Rightarrow>
          (let (s, w, fs) = SstWriter_Add cmp w (SstIter_key r it) (SstIter_value r it) fs in
           if \<not> ok s then Some (s, it, w, fs, res)
           else Split_fill cmp r target_file_size n (SstIter_Next fs r it) w fs
                  (res\<lparr>cr_num_input_records := cr_num_input_records res + 1\<rparr>)))"

declare Split_fill.simps [simp del]

text \<open>The outer loop: one output file a round.\<close>

fun Split_files ::
    "(bytes \<Rightarrow> bytes \<Rightarrow> int) \<Rightarrow> sst_writer_options \<Rightarrow> sst_reader \<Rightarrow> string \<Rightarrow> u64 \<Rightarrow> int \<Rightarrow> u64 \<Rightarrow> nat \<Rightarrow> nat \<Rightarrow> sst_iter
     \<Rightarrow> fs \<Rightarrow> compaction_result \<Rightarrow> (status option \<times> sst_iter \<times> fs \<times> compaction_result) option" where
  "Split_files cmp opts r output_prefix target_file_size output_level now fuel file_index it fs res =
     (if \<not> SstIter_Valid r it then Some (None, it, fs, res)
      else case fuel of
        0 \<Rightarrow> None
      | Suc n \<Rightarrow>
          (let output_filename = output_prefix @ ''_'' @ to_string file_index @ ''.sst'';
               (s, w, fs) = SstWriter_Open (SSTableWriter opts) output_filename now fs in
           if \<not> ok s then Some (Some s, it, SstWriter_destroy w fs, res)
           else case Split_fill cmp r target_file_size n it w fs res of
             None \<Rightarrow> None
           | Some (s, it, w, fs, res) \<Rightarrow>
               (if \<not> ok s then (let (_, w, fs) = SstWriter_Abandon w fs in Some (Some s, it, SstWriter_destroy w fs, res))
                else let (s, w, fs) = SstWriter_Finish w fs in
                if \<not> ok s then Some (Some s, it, SstWriter_destroy w fs, res)
                else Split_files cmp opts r output_prefix target_file_size output_level now n (file_index + 1) it
                  (SstWriter_destroy w fs)
                  (res\<lparr>cr_output_files := cr_output_files res @ [output_filename],
                       cr_output_metas := cr_output_metas res @ [(sw_meta w)\<lparr>sm_level := output_level\<rparr>],
                       cr_bytes_written := cr_bytes_written res + sw_current_offset w,
                       cr_num_output_records := cr_num_output_records res + sw_num_entries w\<rparr>))))"

declare Split_files.simps [simp del]

definition CompactWithSplit ::
    "(bytes \<Rightarrow> bytes \<Rightarrow> int) \<Rightarrow> sst_writer_options \<Rightarrow> nat \<Rightarrow> string \<Rightarrow> string \<Rightarrow> u64 \<Rightarrow> int \<Rightarrow> u64 \<Rightarrow> fs
     \<Rightarrow> (compaction_result \<times> fs) option" where
  "CompactWithSplit cmp opts fuel large_file output_prefix target_file_size output_level now fs =
     (let (s, r) = SstReader_Open cmp fs large_file SSTableReader in
      if \<not> ok s then Some (CompactionResult\<lparr>cr_status := s\<rparr>, fs)
      else case SstReader_NewIterator r of
        None \<Rightarrow> Some (CompactionResult\<lparr>cr_status := IOError ''Failed to create iterator''\<rparr>, fs)
      | Some it \<Rightarrow>
          map_option (\<lambda>(s, it, fs, res).
              case s of Some s \<Rightarrow> (res\<lparr>cr_status := s\<rparr>, fs)
                      | None \<Rightarrow> (res\<lparr>cr_status := si_status it, cr_bytes_read := sm_file_size (sr_meta r)\<rparr>, fs))
            (Split_files cmp opts r output_prefix target_file_size output_level now fuel 0
               (SstIter_SeekToFirst fs r it) fs CompactionResult))"

section \<open>Rebuilding a Bloom filter\<close>

fun copy_entries ::
    "(bytes \<Rightarrow> bytes \<Rightarrow> int) \<Rightarrow> sst_reader \<Rightarrow> nat \<Rightarrow> sst_iter \<Rightarrow> sst_writer \<Rightarrow> fs
     \<Rightarrow> (status \<times> sst_iter \<times> sst_writer \<times> fs) option" where
  "copy_entries cmp r fuel it w fs =
     (if \<not> SstIter_Valid r it then Some (si_status it, it, w, fs)
      else case fuel of
        0 \<Rightarrow> None
      | Suc n \<Rightarrow>
          (let (s, w, fs) = SstWriter_Add cmp w (SstIter_key r it) (SstIter_value r it) fs in
           if \<not> ok s then Some (s, it, w, fs) else copy_entries cmp r n (SstIter_Next fs r it) w fs))"

declare copy_entries.simps [simp del]

definition RebuildBloomFilter ::
    "(bytes \<Rightarrow> bytes \<Rightarrow> int) \<Rightarrow> sst_writer_options \<Rightarrow> nat \<Rightarrow> string \<Rightarrow> bloom_params \<Rightarrow> u64 \<Rightarrow> fs \<Rightarrow> (status \<times> fs) option" where
  "RebuildBloomFilter cmp opts fuel input_file new_bloom now fs =
     (let (s, r) = SstReader_Open cmp fs input_file SSTableReader in
      if \<not> ok s then Some (s, fs)
      else let temp_file = input_file @ ''.tmp'';
               (s, w, fs) = SstWriter_Open (SSTableWriter (opts\<lparr>wo_bloom := new_bloom\<rparr>)) temp_file now fs in
      if \<not> ok s then Some (s, SstWriter_destroy w fs)
      else case SstReader_NewIterator r of
        None \<Rightarrow> Some (IOError ''Failed to create iterator'', SstWriter_destroy w fs)
      | Some it \<Rightarrow>
     (case copy_entries cmp r fuel (SstIter_SeekToFirst fs r it) w fs of
        None \<Rightarrow> None
      | Some (s, it, w, fs) \<Rightarrow>
          if \<not> ok s then (let (_, w, fs) = SstWriter_Abandon w fs
                          in Some (s, SstWriter_destroy w (snd (Env_DeleteFile fs temp_file))))
          else let (s, w, fs) = SstWriter_Finish w fs in
          if \<not> ok s then Some (s, SstWriter_destroy w (snd (Env_DeleteFile fs temp_file)))
          else let (s, fs) = Env_RenameFile fs temp_file input_file in
          if \<not> ok s then Some (s, SstWriter_destroy w (snd (Env_DeleteFile fs temp_file)))
          else Some (OK, SstWriter_destroy w fs)))"

section \<open>Checking a result\<close>

text \<open>The order of the keys; the last key is unset when empty.\<close>

fun check_order ::
    "(bytes \<Rightarrow> bytes \<Rightarrow> int) \<Rightarrow> fs \<Rightarrow> sst_reader \<Rightarrow> string \<Rightarrow> nat \<Rightarrow> sst_iter \<Rightarrow> bytes \<Rightarrow> status option" where
  "check_order cmp fs r filename fuel it last_key =
     (if \<not> SstIter_Valid r it then Some (si_status it)
      else case fuel of
        0 \<Rightarrow> None
      | Suc n \<Rightarrow>
          (if last_key \<noteq> [] \<and> 0 \<le> cmp last_key (SstIter_key r it)
           then Some (Corruption (''Keys not in order in file: '' @ filename))
           else check_order cmp fs r filename n (SstIter_Next fs r it) (SstIter_key r it)))"

declare check_order.simps [simp del]

fun verify_files :: "(bytes \<Rightarrow> bytes \<Rightarrow> int) \<Rightarrow> fs \<Rightarrow> nat \<Rightarrow> string list \<Rightarrow> status option" where
  "verify_files cmp fs fuel [] = Some OK"
| "verify_files cmp fs fuel (f # rest) =
     (let (s, r) = SstReader_Open cmp fs f SSTableReader in
      if \<not> ok s then Some (Corruption (''Failed to open output file: '' @ f))
      else if \<not> ok (SstReader_VerifyChecksum fs r) then Some (Corruption (''Checksum verification failed: '' @ f))
      else case SstReader_NewIterator r of
        None \<Rightarrow> Some (IOError (''Failed to create iterator for: '' @ f))
      | Some it \<Rightarrow>
     (case check_order cmp fs r f fuel (SstIter_SeekToFirst fs r it) [] of
        None \<Rightarrow> None
      | Some s \<Rightarrow> if \<not> ok s then Some s else verify_files cmp fs fuel rest))"

definition VerifyCompactionResult ::
    "(bytes \<Rightarrow> bytes \<Rightarrow> int) \<Rightarrow> fs \<Rightarrow> nat \<Rightarrow> compaction_result \<Rightarrow> status option" where
  "VerifyCompactionResult cmp fs fuel res =
     (if \<not> ok (cr_status res) then Some (cr_status res) else verify_files cmp fs fuel (cr_output_files res))"

section \<open>The merge picks the smallest key\<close>

text \<open>A child over a good table, with the entries it has left.\<close>

definition child_rest :: "fs \<Rightarrow> merge_child \<Rightarrow> (bytes \<times> bytes) list \<Rightarrow> bool" where
  "child_rest fs c es \<longleftrightarrow> (\<exists>f G bl m. mc_reader c = opened_reader f G bl m \<and> table_open fs f G bl m \<and>
     iter_rest (mc_reader c) G (mc_iter c) es) \<and> mc_valid c = (es \<noteq> [])"

lemma child_restD:
  assumes "child_rest fs c es"
  shows "mc_valid c \<longleftrightarrow> es \<noteq> []" "es \<noteq> [] \<Longrightarrow> child_key c = fst (hd es)" "es \<noteq> [] \<Longrightarrow> child_value c = snd (hd es)"
    "si_status (mc_iter c) = OK"
proof -
  obtain f G bl m where r: "iter_rest (opened_reader f G bl m) G (mc_iter c) es" "mc_reader c = opened_reader f G bl m"
    using assms unfolding child_rest_def by metis
  show "mc_valid c \<longleftrightarrow> es \<noteq> []" using assms by (simp add: child_rest_def)
  show "es \<noteq> [] \<Longrightarrow> child_key c = fst (hd es)" "es \<noteq> [] \<Longrightarrow> child_value c = snd (hd es)"
    using iter_rest_read(2) [OF r(1)] by (simp_all add: child_key_def child_value_def r(2) prod_eq_iff)
  show "si_status (mc_iter c) = OK" by (rule iter_rest_read(3) [OF r(1)])
qed

lemma child_first:
  assumes "table_open fs f G bl m" "mc_reader c = opened_reader f G bl m"
  shows "child_rest fs (Child_Update (c\<lparr>mc_iter := SstIter_SeekToFirst fs (mc_reader c) (mc_iter c)\<rparr>)) (concat G)"
  using assms SeekToFirst_rest [OF assms(1), of "mc_iter c"] iter_rest_read(1) [OF SeekToFirst_rest [OF assms(1), of "mc_iter c"]]
  unfolding child_rest_def Child_Update_def by auto

lemma child_next:
  assumes "child_rest fs c (e # es)"
  shows "child_rest fs (Child_Update (c\<lparr>mc_iter := SstIter_Next fs (mc_reader c) (mc_iter c)\<rparr>)) es"
proof -
  obtain f G bl m where r: "mc_reader c = opened_reader f G bl m" "table_open fs f G bl m"
    "iter_rest (opened_reader f G bl m) G (mc_iter c) (e # es)"
    using assms by (auto simp: child_rest_def)
  note n = Next_rest [OF r(2,3)]
  show ?thesis using n iter_rest_read(1) [OF n] r(1,2) unfolding child_rest_def Child_Update_def by auto
qed

lemma table_open_touches:
  assumes "table_open fs f G bl m" "touches out fs fs'" "f \<noteq> out"
  shows "table_open fs' f G bl m"
  using assms by (simp add: table_open_def touches_def same_os_def)

lemma child_touches:
  assumes "child_rest fs c es" "touches out fs fs'" "sr_filename (mc_reader c) \<noteq> out"
  shows "child_rest fs' c es"
proof -
  obtain f G bl m where r: "mc_reader c = opened_reader f G bl m" "table_open fs f G bl m"
    "iter_rest (mc_reader c) G (mc_iter c) es" "mc_valid c = (es \<noteq> [])"
    using assms(1) unfolding child_rest_def by metis
  then have "f \<noteq> out" using assms(3) by (simp add: opened_reader_def)
  then show ?thesis using r table_open_touches [OF r(2) assms(2)] unfolding child_rest_def by blast
qed

lemma FindMin_loop_spec:
  assumes "list_all2 (child_rest fs) cs ess"
    and "0 \<le> i" "current = -1 \<or> (0 \<le> current \<and> current < i)"
  shows "(let n = FindMin_loop Bytewise_Compare i current min_key cs in
     (n = current \<and> (\<forall>es \<in> set ess. es \<noteq> [] \<longrightarrow> current \<noteq> -1 \<and> min_key \<le> fst (hd es))) \<or>
     (\<exists>k < length ess. n = i + int k \<and> ess ! k \<noteq> [] \<and> (current \<noteq> -1 \<longrightarrow> fst (hd (ess ! k)) < min_key) \<and>
        (\<forall>es \<in> set ess. es \<noteq> [] \<longrightarrow> fst (hd (ess ! k)) \<le> fst (hd es))))"
  using assms
proof (induction cs ess arbitrary: i current min_key rule: list_all2_induct)
  case (Cons c cs es ess)
  note D = child_restD [OF Cons.hyps(1)]
  show ?case
  proof (cases "mc_valid c \<and> (current = -1 \<or> Bytewise_Compare (child_key c) min_key < 0)")
    case True
    then have es: "es \<noteq> []" "child_key c = fst (hd es)" "current \<noteq> -1 \<longrightarrow> fst (hd es) < min_key"
      using D by (auto simp: Bytewise_tests)
    have IH: "(let n = FindMin_loop Bytewise_Compare (i + 1) i (fst (hd es)) cs in
     (n = i \<and> (\<forall>es' \<in> set ess. es' \<noteq> [] \<longrightarrow> i \<noteq> -1 \<and> fst (hd es) \<le> fst (hd es'))) \<or>
     (\<exists>k < length ess. n = i + 1 + int k \<and> ess ! k \<noteq> [] \<and> (i \<noteq> -1 \<longrightarrow> fst (hd (ess ! k)) < fst (hd es)) \<and>
        (\<forall>es' \<in> set ess. es' \<noteq> [] \<longrightarrow> fst (hd (ess ! k)) \<le> fst (hd es'))))"
      using Cons.IH [of "i + 1" i "fst (hd es)"] Cons.prems by simp
    let ?n = "FindMin_loop Bytewise_Compare (i + 1) i (fst (hd es)) cs"
    have n: "FindMin_loop Bytewise_Compare i current min_key (c # cs) = ?n" using True es(2) by simp
    from IH consider (a) "?n = i" "\<forall>es' \<in> set ess. es' \<noteq> [] \<longrightarrow> fst (hd es) \<le> fst (hd es')"
      | (b) k where "k < length ess" "?n = i + 1 + int k" "ess ! k \<noteq> []" "fst (hd (ess ! k)) < fst (hd es)"
        "\<forall>es' \<in> set ess. es' \<noteq> [] \<longrightarrow> fst (hd (ess ! k)) \<le> fst (hd es')"
      using Cons.prems(1) by (auto simp: Let_def)
    then show ?thesis
    proof cases
      case a
      have "\<exists>k < length (es # ess). ?n = i + int k \<and> (es # ess) ! k \<noteq> [] \<and> (current \<noteq> -1 \<longrightarrow> fst (hd ((es # ess) ! k)) < min_key) \<and>
        (\<forall>es' \<in> set (es # ess). es' \<noteq> [] \<longrightarrow> fst (hd ((es # ess) ! k)) \<le> fst (hd es'))"
        by (rule exI [of _ 0]) (use a es in auto)
      then show ?thesis unfolding n Let_def by blast
    next
      case b
      have "\<exists>k < length (es # ess). ?n = i + int k \<and> (es # ess) ! k \<noteq> [] \<and> (current \<noteq> -1 \<longrightarrow> fst (hd ((es # ess) ! k)) < min_key) \<and>
        (\<forall>es' \<in> set (es # ess). es' \<noteq> [] \<longrightarrow> fst (hd ((es # ess) ! k)) \<le> fst (hd es'))"
        by (rule exI [of _ "Suc k"]) (use b es(3) in \<open>auto dest: order.strict_trans\<close>)
      then show ?thesis unfolding n Let_def by blast
    qed
  next
    case False
    then have es: "es \<noteq> [] \<longrightarrow> current \<noteq> -1 \<and> min_key \<le> fst (hd es)" using D by (auto simp: Bytewise_tests)
    let ?n = "FindMin_loop Bytewise_Compare (i + 1) current min_key cs"
    have n: "FindMin_loop Bytewise_Compare i current min_key (c # cs) = ?n"
      unfolding FindMin_loop.simps by (rule if_not_P [OF False])
    from Cons.IH [of "i + 1" current min_key] Cons.prems
    consider (a) "?n = current" "\<forall>es' \<in> set ess. es' \<noteq> [] \<longrightarrow> current \<noteq> -1 \<and> min_key \<le> fst (hd es')"
      | (b) k where "k < length ess" "?n = i + 1 + int k" "ess ! k \<noteq> []" "current \<noteq> -1 \<longrightarrow> fst (hd (ess ! k)) < min_key"
        "\<forall>es' \<in> set ess. es' \<noteq> [] \<longrightarrow> fst (hd (ess ! k)) \<le> fst (hd es')"
      by (auto simp: Let_def)
    then show ?thesis
    proof cases
      case a
      then show ?thesis using es unfolding n Let_def by auto
    next
      case b
      have "\<exists>k < length (es # ess). ?n = i + int k \<and> (es # ess) ! k \<noteq> [] \<and> (current \<noteq> -1 \<longrightarrow> fst (hd ((es # ess) ! k)) < min_key) \<and>
        (\<forall>es' \<in> set (es # ess). es' \<noteq> [] \<longrightarrow> fst (hd ((es # ess) ! k)) \<le> fst (hd es'))"
        by (rule exI [of _ "Suc k"]) (use b es in \<open>auto simp: less_imp_le dest: order.strict_trans2\<close>)
      then show ?thesis unfolding n Let_def by blast
    qed
  qed
qed simp

section \<open>The merge lists all entries in order\<close>

definition merges :: "(bytes \<times> bytes) list list \<Rightarrow> (bytes \<times> bytes) list \<Rightarrow> bool" where
  "merges ess es \<longleftrightarrow> distinct (map fst (concat ess)) \<and> (\<forall>xs \<in> set ess. sorted_wrt (\<lambda>a b. fst a < fst b) xs) \<and>
     sorted_wrt (\<lambda>a b. fst a < fst b) es \<and> set es = set (concat ess)"

lemma merges_step:
  assumes m: "merges ess (e # es)" and k: "k < length ess" "ess ! k \<noteq> []"
    and low: "\<forall>xs \<in> set ess. xs \<noteq> [] \<longrightarrow> fst (hd (ess ! k)) \<le> fst (hd xs)"
  shows "hd (ess ! k) = e" "merges (ess[k := tl (ess ! k)]) es"
proof -
  let ?h = "hd (ess ! k)" and ?t = "tl (ess ! k)"
  have S: "sorted_wrt (\<lambda>a b. fst a < fst b) (e # es)" "set (e # es) = set (concat ess)" "distinct (map fst (concat ess))"
    using m by (simp_all add: merges_def)
  have hin: "?h \<in> set (e # es)" using S(2) k by (auto intro!: bexI [of _ "ess ! k"])
  obtain xs where xs: "xs \<in> set ess" "e \<in> set xs" using S(2) by auto
  have "sorted_wrt (\<lambda>a b. fst a < fst b) xs" using m xs(1) by (simp add: merges_def)
  then have "fst (hd xs) \<le> fst e" using xs(2) by (cases xs) (auto simp: less_imp_le)
  moreover have "fst ?h \<le> fst (hd xs)" using low xs by (metis list.set_cases neq_Nil_conv)
  moreover have "fst e \<le> fst ?h" using hin S(1) by (auto simp: less_imp_le)
  ultimately have "fst ?h = fst e" by simp
  then show h: "?h = e" using hin S(1) by (auto simp: less_le)
  have ek: "ess ! k = e # ?t" using k(2) h by (cases "ess ! k") simp_all
  define a where "a = concat (take k ess)"
  define b where "b = concat (drop (Suc k) ess)"
  have c: "concat ess = a @ (e # ?t) @ b"
    using arg_cong [OF id_take_nth_drop [OF k(1)], of concat] unfolding a_def b_def ek [symmetric] by simp
  have c': "concat (ess[k := ?t]) = a @ ?t @ b" using k(1) by (simp add: upd_conv_take_nth_drop a_def b_def)
  have d: "distinct (map fst (concat (ess[k := ?t])))" "e \<notin> set (concat (ess[k := ?t]))"
    using S(3) unfolding c c' by auto
  have "e \<notin> set es" using S(1) by auto
  then have "set es = set (concat (ess[k := ?t]))" using S(2) d(2) unfolding c c' by auto
  moreover have "\<forall>xs \<in> set (ess[k := ?t]). sorted_wrt (\<lambda>a b. fst a < fst b) xs"
  proof
    fix xs assume "xs \<in> set (ess[k := ?t])"
    then consider "xs = ?t" | "xs \<in> set ess" using set_update_subset_insert by fast
    moreover have "sorted_wrt (\<lambda>a b. fst a < fst b) (ess ! k)" using m k(1) by (simp add: merges_def)
    ultimately show "sorted_wrt (\<lambda>a b. fst a < fst b) xs" using m ek by cases (metis sorted_wrt.simps(2), simp add: merges_def)
  qed
  ultimately show "merges (ess[k := ?t]) es" using d(1) S(1) by (simp add: merges_def)
qed

definition merge_at :: "string \<Rightarrow> fs \<Rightarrow> merge_iter \<Rightarrow> (bytes \<times> bytes) list \<Rightarrow> bool" where
  "merge_at out fs mi es \<longleftrightarrow> (\<exists>ess. list_all2 (child_rest fs) (mi_children mi) ess \<and> merges ess es) \<and>
     mi_current mi = FindMin_loop Bytewise_Compare 0 (-1) [] (mi_children mi) \<and>
     (\<forall>c \<in> set (mi_children mi). sr_filename (mc_reader c) \<noteq> out)"

lemma merge_at_end:
  assumes "merge_at out fs mi []"
  shows "\<not> Merge_Valid mi" "Merge_status mi = OK"
proof -
  obtain ess where e: "list_all2 (child_rest fs) (mi_children mi) ess" "merges ess []"
    using assms by (auto simp: merge_at_def)
  have n: "\<forall>es \<in> set ess. es = []" using e(2) by (auto simp: merges_def)
  have "\<not> mc_valid (mi_children mi ! i)" if "i < length (mi_children mi)" for i
    using list_all2_nthD [OF e(1) that] child_restD(1) n that list_all2_lengthD [OF e(1)] by (metis nth_mem)
  then show "\<not> Merge_Valid mi" by (simp add: Merge_Valid_def nat_less_iff)
  have "si_status (mc_iter c) = OK" if "c \<in> set (mi_children mi)" for c
    using that e(1) child_restD(4) by (metis in_set_conv_nth list_all2_nthD)
  then have "find (\<lambda>s. \<not> ok s) (map (\<lambda>c. si_status (mc_iter c)) (mi_children mi)) = None"
    by (simp add: find_None_iff)
  then show "Merge_status mi = OK" by (simp add: Merge_status_def)
qed

lemma merge_at_step:
  assumes a: "merge_at out fs mi (e # es)"
  shows "Merge_Valid mi" "Merge_key mi = fst e" "Merge_value mi = snd e" "merge_at out fs (Merge_Next Bytewise_Compare fs mi) es"
proof -
  obtain ess where ess: "list_all2 (child_rest fs) (mi_children mi) ess" "merges ess (e # es)"
    using a by (auto simp: merge_at_def)
  have cur: "mi_current mi = FindMin_loop Bytewise_Compare 0 (-1) [] (mi_children mi)" using a by (simp add: merge_at_def)
  have len: "length (mi_children mi) = length ess" using list_all2_lengthD [OF ess(1)] .
  have "\<exists>xs \<in> set ess. xs \<noteq> []" using ess(2) unfolding merges_def by (metis concat_eq_Nil_conv list.distinct(1) set_empty)
  then obtain k where k: "k < length ess" "mi_current mi = int k" "ess ! k \<noteq> []"
    "\<forall>xs \<in> set ess. xs \<noteq> [] \<longrightarrow> fst (hd (ess ! k)) \<le> fst (hd xs)"
    using FindMin_loop_spec [OF ess(1), of 0 "-1" "[]"] unfolding cur by (auto simp: Let_def)
  note M = merges_step [OF ess(2) k(1,3,4)]
  let ?c = "mi_children mi ! k"
  have ck: "child_rest fs ?c (e # tl (ess ! k))"
    using list_all2_nthD2 [OF ess(1) k(1)] k(3) M(1) by (cases "ess ! k") simp_all
  note D = child_restD [OF ck]
  show v: "Merge_Valid mi" using k(1,2) len D(1) by (simp add: Merge_Valid_def)
  show "Merge_key mi = fst e" "Merge_value mi = snd e" using v k(2) D by (simp_all add: Merge_key_def Merge_value_def)
  let ?c' = "Child_Update (?c\<lparr>mc_iter := SstIter_Next fs (mc_reader ?c) (mc_iter ?c)\<rparr>)"
  have n: "Merge_Next Bytewise_Compare fs mi = Merge_FindMin Bytewise_Compare (mi\<lparr>mi_children := (mi_children mi)[k := ?c']\<rparr>)"
    using k(1,2) len by (simp add: Merge_Next_def Let_def)
  have "list_all2 (child_rest fs) ((mi_children mi)[k := ?c']) (ess[k := tl (ess ! k)])"
    by (rule list_all2_update_cong [OF ess(1) child_next [OF ck]])
  moreover have "\<forall>c \<in> set ((mi_children mi)[k := ?c']). sr_filename (mc_reader c) \<noteq> out"
  proof
    fix c assume "c \<in> set ((mi_children mi)[k := ?c'])"
    then consider "c = ?c'" | "c \<in> set (mi_children mi)" using set_update_subset_insert by fast
    moreover have "?c \<in> set (mi_children mi)" using k(1) len by simp
    ultimately show "sr_filename (mc_reader c) \<noteq> out" using a by cases (simp_all add: merge_at_def Child_Update_def)
  qed
  ultimately show "merge_at out fs (Merge_Next Bytewise_Compare fs mi) es"
    using M(2) unfolding n merge_at_def by (auto simp: Merge_FindMin_def)
qed

lemma merge_at_touches:
  assumes "merge_at out fs mi es" "touches out fs fs'"
  shows "merge_at out fs' mi es"
proof -
  obtain ess where ess: "list_all2 (child_rest fs) (mi_children mi) ess" "merges ess es"
    using assms(1) by (auto simp: merge_at_def)
  have "list_all2 (child_rest fs') (mi_children mi) ess"
  proof (rule list.rel_mono_strong [OF ess(1)])
    fix c xs assume "c \<in> set (mi_children mi)" "child_rest fs c xs"
    then show "child_rest fs' c xs" using assms(1) child_touches [OF _ assms(2)] by (simp add: merge_at_def)
  qed
  then show ?thesis using assms(1) ess(2) by (auto simp: merge_at_def)
qed

lemma WriteDataBlock_touches:
  assumes "WriteDataBlock w fs = (s, w', fs')" "ok s" shows "touches (sw_filename w) fs fs'"
proof (cases "sw_data_buffer w = []")
  case False
  obtain s1 fs1 where b: "write_block w kDataBlock (sw_data_buffer w) fs = (s1, fs1)" by fastforce
  then have "ok s1" "fs' = fs1" using assms False by (auto simp: WriteDataBlock_def Let_def split: if_splits)
  then show ?thesis using write_block_OK(2) [OF b] by simp
qed (use assms in \<open>simp add: WriteDataBlock_def\<close>)

lemma Add_touches:
  assumes "SstWriter_Add cmp w k v fs = (s, w', fs')" "ok s" shows "touches (sw_filename w) fs fs'"
proof -
  obtain s1 w1 fs1 where b: "(if ShouldStartNewBlock w then WriteDataBlock w fs else (OK, w, fs)) = (s1, w1, fs1)"
    by (cases "if ShouldStartNewBlock w then WriteDataBlock w fs else (OK, w, fs)") auto
  then have "ok s1" "fs' = fs1" using assms by (auto simp: SstWriter_Add_def Let_def split: if_split_asm)
  then show ?thesis using b WriteDataBlock_touches [of w fs s1 w1 fs1] by (auto split: if_splits)
qed

text \<open>The loop adds the entries that are kept, in order, and counts.\<close>

lemma MergeInputFiles_loop_at:
  assumes "merge_at (sw_filename w) fs mi es" "\<forall>e \<in> set es. 8 \<le> length (fst e)" "length es \<le> fuel"
    and "os_allows fs (sw_filename w)" "sw_opened w" "\<not> sw_finished w"
    and "sw_last_key w = [] \<or> (\<forall>e \<in> set es. sw_last_key w < fst e)"
  shows "\<exists>mi' w' fs' res'. MergeInputFiles_loop Bytewise_Compare config fuel mi w fs res = Some (OK, mi', w', fs', res') \<and>
    Add_loop Bytewise_Compare w (filter (\<lambda>e. ShouldKeepKey config (fst e)) es) fs = (OK, w', fs') \<and>
    Merge_status mi' = OK \<and> cr_num_input_records res' = cr_num_input_records res + of_nat (length es) \<and>
    cr_num_output_records res' = cr_num_output_records res + of_nat (length (filter (\<lambda>e. ShouldKeepKey config (fst e)) es)) \<and>
    cr_output_files res' = cr_output_files res \<and> cr_output_metas res' = cr_output_metas res"
  using assms
proof (induction es arbitrary: fuel mi w fs res)
  case Nil
  then show ?case using merge_at_end by (simp add: MergeInputFiles_loop.simps)
next
  case (Cons e es)
  note S = merge_at_step [OF Cons.prems(1)]
  obtain n where n: "fuel = Suc n" using Cons.prems(3) by (cases fuel) auto
  have p: "ParseInternalKey (fst e) = Some (ent_user e, ent_seq e, ent_type e)" using parse_entry [of "fst e"] Cons.prems(2) by simp
  have srt: "\<forall>x \<in> set es. fst e < fst x" using Cons.prems(1) by (auto simp: merge_at_def merges_def)
  show ?case
  proof (cases "ShouldKeepKey config (fst e)")
    case True
    have "sw_last_key w = [] \<or> Bytewise_Compare (sw_last_key w) (fst e) < 0" using Cons.prems(7) by (auto simp: Bytewise_tests)
    then obtain w1 fs1 where A: "SstWriter_Add Bytewise_Compare w (fst e) (snd e) fs = (OK, w1, fs1)" "os_allows fs1 (sw_filename w)"
      "sw_filename w1 = sw_filename w" "sw_opened w1" "\<not> sw_finished w1" "sw_last_key w1 = fst e"
      using Add_can [OF Cons.prems(4-6)] by blast
    have t: "touches (sw_filename w) fs fs1" by (rule Add_touches [OF A(1) ok_OK])
    let ?res = "res\<lparr>cr_num_output_records := cr_num_output_records res + 1, cr_num_input_records := cr_num_input_records res + 1\<rparr>"
    have "merge_at (sw_filename w1) fs1 (Merge_Next Bytewise_Compare fs1 mi) es"
      using merge_at_step(4) [OF merge_at_touches [OF Cons.prems(1) t]] A(3) by simp
    from Cons.IH [OF this, of n ?res] obtain mi' w' fs' res' where
      "MergeInputFiles_loop Bytewise_Compare config n (Merge_Next Bytewise_Compare fs1 mi) w1 fs1 ?res = Some (OK, mi', w', fs', res')"
      "Add_loop Bytewise_Compare w1 (filter (\<lambda>e. ShouldKeepKey config (fst e)) es) fs1 = (OK, w', fs')"
      "Merge_status mi' = OK" "cr_num_input_records res' = cr_num_input_records ?res + of_nat (length es)"
      "cr_num_output_records res' = cr_num_output_records ?res + of_nat (length (filter (\<lambda>e. ShouldKeepKey config (fst e)) es))"
      "cr_output_files res' = cr_output_files ?res" "cr_output_metas res' = cr_output_metas ?res"
      using A Cons.prems(2,3) srt n by auto
    moreover have "MergeInputFiles_loop Bytewise_Compare config fuel mi w fs res =
        MergeInputFiles_loop Bytewise_Compare config n (Merge_Next Bytewise_Compare fs1 mi) w1 fs1 ?res"
      using True S(1-3) p A(1) n by (subst MergeInputFiles_loop.simps) (simp add: Let_def)
    ultimately show ?thesis using True A(1) by (simp add: algebra_simps)
  next
    case False
    let ?res = "res\<lparr>cr_num_input_records := cr_num_input_records res + 1\<rparr>"
    have l: "sw_last_key w = [] \<or> (\<forall>x \<in> set es. sw_last_key w < fst x)" using Cons.prems(7) by auto
    from Cons.IH [OF S(4) _ _ Cons.prems(4-6) l, of n ?res] obtain mi' w' fs' res' where
      "MergeInputFiles_loop Bytewise_Compare config n (Merge_Next Bytewise_Compare fs mi) w fs ?res = Some (OK, mi', w', fs', res')"
      "Add_loop Bytewise_Compare w (filter (\<lambda>e. ShouldKeepKey config (fst e)) es) fs = (OK, w', fs')"
      "Merge_status mi' = OK" "cr_num_input_records res' = cr_num_input_records ?res + of_nat (length es)"
      "cr_num_output_records res' = cr_num_output_records ?res + of_nat (length (filter (\<lambda>e. ShouldKeepKey config (fst e)) es))"
      "cr_output_files res' = cr_output_files ?res" "cr_output_metas res' = cr_output_metas ?res"
      using Cons.prems(2,3) n by auto
    moreover have "MergeInputFiles_loop Bytewise_Compare config fuel mi w fs res =
        MergeInputFiles_loop Bytewise_Compare config n (Merge_Next Bytewise_Compare fs mi) w fs ?res"
      using False S(1-3) p n by (subst MergeInputFiles_loop.simps) (simp add: Let_def)
    ultimately show ?thesis using False by (simp add: algebra_simps)
  qed
qed

section \<open>A compaction of good tables\<close>

definition input_table :: "fs \<Rightarrow> string \<Rightarrow> (bytes \<times> bytes) list \<Rightarrow> bool" where
  "input_table fs f es \<longleftrightarrow> (\<exists>G bl m. SstReader_Open Bytewise_Compare fs f SSTableReader = (OK, opened_reader f G bl m) \<and>
     table_open fs f G bl m \<and> concat G = es \<and> sorted_wrt (\<lambda>a b. fst a < fst b) es)"

lemma opened_reader_parts [simp]:
  "sr_filename (opened_reader f G bl m) = f" "sr_opened (opened_reader f G bl m)"
  by (simp_all add: opened_reader_def)

lemma open_children_at:
  assumes "list_all2 (input_table fs) files ess" "touches out fs fs'" "out \<notin> set files"
  shows "list_all2 (child_rest fs') (map (\<lambda>c. Child_Update (c\<lparr>mc_iter := SstIter_SeekToFirst fs' (mc_reader c) (mc_iter c)\<rparr>))
      (open_children Bytewise_Compare fs files)) ess \<and>
    (\<forall>c \<in> set (open_children Bytewise_Compare fs files). sr_filename (mc_reader c) \<noteq> out)"
  using assms(1,3)
proof (induction files ess rule: list_all2_induct)
  case (Cons f files es ess)
  obtain G bl m where g: "SstReader_Open Bytewise_Compare fs f SSTableReader = (OK, opened_reader f G bl m)"
    "table_open fs f G bl m" "concat G = es"
    using Cons.hyps(1) by (auto simp: input_table_def)
  have "f \<noteq> out" using Cons.prems by auto
  have t: "table_open fs' f G bl m" by (rule table_open_touches [OF g(2) assms(2) \<open>f \<noteq> out\<close>])
  let ?c = "Child_Update \<lparr>mc_reader = opened_reader f G bl m, mc_iter = SSTableIterator, mc_valid = False\<rparr>"
  have o: "open_children Bytewise_Compare fs (f # files) = ?c # open_children Bytewise_Compare fs files"
    by (simp add: g(1) SstReader_NewIterator_def)
  have r: "mc_reader ?c = opened_reader f G bl m" by (simp add: Child_Update_def)
  show ?case
    unfolding o using Cons.IH Cons.prems child_first [OF t r] r \<open>f \<noteq> out\<close> by (simp add: g(3))
qed simp

lemma input_entries:
  assumes "list_all2 (input_table fs) files ess" "e \<in> set (concat ess)"
  shows "8 \<le> length (fst e)" "length (fst e) < 2 ^ 32" "length (snd e) < 2 ^ 32"
proof -
  obtain xs where xs: "xs \<in> set ess" "e \<in> set xs" using assms(2) by auto
  then obtain i where "i < length ess" "xs = ess ! i" by (metis in_set_conv_nth)
  then have "input_table fs (files ! i) xs" using list_all2_nthD2 [OF assms(1)] by blast
  then have "entries_ok xs" by (auto simp: input_table_def table_open_def)
  then show "8 \<le> length (fst e)" "length (fst e) < 2 ^ 32" "length (snd e) < 2 ^ 32"
    using xs(2) by (auto simp: entries_ok_def)
qed

abbreviation kept_entries :: "compaction_config \<Rightarrow> (bytes \<times> bytes) list list \<Rightarrow> (bytes \<times> bytes) list" where
  "kept_entries config ess \<equiv> filter (\<lambda>e. ShouldKeepKey config (fst e)) (sort_key fst (concat ess))"

lemma merges_sort:
  assumes "list_all2 (input_table fs) files ess" "distinct (map fst (concat ess))"
  shows "merges ess (sort_key fst (concat ess))"
proof -
  have "distinct (map fst (sort_key fst (concat ess)))" using assms(2) by (simp add: distinct_map)
  then have "sorted_wrt (<) (map fst (sort_key fst (concat ess)))" by (simp add: strict_sorted_iff)
  then have 1: "sorted_wrt (\<lambda>a b. fst a < fst b) (sort_key fst (concat ess))" unfolding sorted_wrt_map .
  have 2: "\<forall>xs \<in> set ess. sorted_wrt (\<lambda>a b. fst a < fst b) xs"
  proof
    fix xs assume "xs \<in> set ess"
    then obtain i where "i < length ess" "xs = ess ! i" by (metis in_set_conv_nth)
    then have "input_table fs (files ! i) xs" using list_all2_nthD2 [OF assms(1)] by blast
    then show "sorted_wrt (\<lambda>a b. fst a < fst b) xs" by (auto simp: input_table_def)
  qed
  show ?thesis unfolding merges_def by (intro conjI assms(2) 1 2 set_sort)
qed

abbreviation entries_image :: "sst_writer_options \<Rightarrow> (bytes \<times> bytes) list \<Rightarrow> string \<Rightarrow> u64 \<Rightarrow> bytes" where
  "entries_image opts es f now \<equiv> sst_image (group_entries (wo_block_size opts) es) (bloom_data opts es) (written_meta f now es)"

lemma CompactFiles_at:
  assumes inp: "list_all2 (input_table fs) (cj_input_files job) ess" "cj_input_files job \<noteq> []"
    and dis: "distinct (map fst (concat ess))" and fuel: "length (concat ess) \<le> fuel"
    and out: "out = cj_output_file_prefix job @ (if length (cj_input_files job) = 1 then ''_0.sst'' else ''_merged.sst'')"
      "out \<notin> set (cj_input_files job)" "os_allows fs out"
    and kept: "kept_entries config ess \<noteq> []"
  shows "\<exists>res fs'. Compactor_CompactFiles Bytewise_Compare opts config fuel job now fs = Some (res, fs') \<and>
    cr_status res = OK \<and> map_of (fs_files fs') out = Some (entries_image opts (kept_entries config ess) out now) \<and> map_of (fs_disk fs') out = Some (entries_image opts (kept_entries config ess) out now) \<and> touches out fs fs' \<and>
    cr_output_files res = [out] \<and>
    cr_output_metas res = [(written_meta out now (kept_entries config ess))\<lparr>sm_level := cj_output_level job,
       sm_file_size := of_nat (length (entries_image opts (kept_entries config ess) out now)), sm_num_entries := of_nat (length (kept_entries config ess))\<rparr>] \<and>
    cr_num_input_records res = of_nat (length (concat ess)) \<and>
    cr_num_output_records res = of_nat (length (kept_entries config ess))"
proof -
  let ?es = "sort_key fst (concat ess)" and ?k = "kept_entries config ess"
  obtain s1 w1 fs1 where o: "SstWriter_Open (SSTableWriter opts) out now fs = (s1, w1, fs1)" by (metis prod_cases3)
  have 1: "s1 = OK" "sw_opened w1" "\<not> sw_finished w1" "sw_filename w1 = out" "sw_last_key w1 = []" "os_allows fs1 out"
    using o out(3) by (auto simp: SstWriter_Open_def SSTableWriter_def Env_NewWritableFile_def Let_def os_allows_def
        split: if_split_asm)
  note O = Open_writer_at [OF o [unfolded 1(1)] ok_OK]
  let ?mi = "Merge_SeekToFirst Bytewise_Compare fs1 (CreateMergeIterator Bytewise_Compare fs (cj_input_files job))"
  have m: "merge_at (sw_filename w1) fs1 ?mi ?es"
    using open_children_at [OF inp(1) O(2) out(2)] merges_sort [OF inp(1) dis] inp(2)
    by (auto simp: merge_at_def Merge_SeekToFirst_def Merge_FindMin_def CreateMergeIterator_def 1(4) Child_Update_def)
  have k8: "\<forall>e \<in> set ?es. 8 \<le> length (fst e)" using input_entries(1) [OF inp(1)] by simp
  have len: "length ?es \<le> fuel" using fuel by (simp del: length_concat)
  obtain mi' w' fs' res' where L:
    "MergeInputFiles_loop Bytewise_Compare config fuel ?mi w1 fs1 CompactionResult = Some (OK, mi', w', fs', res')"
    "Add_loop Bytewise_Compare w1 ?k fs1 = (OK, w', fs')" "Merge_status mi' = OK"
    "cr_num_input_records res' = of_nat (length ?es)" "cr_num_output_records res' = of_nat (length ?k)"
    "cr_output_files res' = []" "cr_output_metas res' = []"
    using MergeInputFiles_loop_at [OF m k8 len, of config CompactionResult] 1 by (auto simp: CompactionResult_def)
  obtain gs g where g: "foldl (group_add (wo_block_size opts)) ([], []) ?k = (gs, g)" by fastforce
  have A: "writer_at w' fs' opts out now gs g" "touches out fs1 fs'" "concat gs @ g = ?k"
    using Add_loop_at [OF O(1) L(2) ok_OK g [symmetric]] by simp_all
  have G: "closed_groups gs g = group_entries (wo_block_size opts) ?k" by (simp add: closed_groups_def group_entries_def g)
  have st: "sw_opened w'" "\<not> sw_finished w'" "sw_filename w' = out" using A(1) by (simp_all add: writer_at_def)
  have os': "os_allows fs' (sw_filename w')"
    using os_allows_same [OF _ 1(6), of fs'] A(2) st(3) by (simp add: touches_def)
  obtain s4 w4 fs4 where f: "SstWriter_Finish w' fs' = (s4, w4, fs4)" by (metis prod_cases3)
  then have s4: "s4 = OK" using Finish_can [OF st(1,2) os'] by simp
  have ne: "concat gs @ g \<noteq> []" using kept unfolding A(3) by simp
  note F = Finish_at [OF A(1) ne f [unfolded s4] ok_OK, unfolded A(3) G group_entries_concat(1)]
  have d: "SstWriter_destroy w4 fs4 = fs4" by (rule SstWriter_destroy_finished [OF Finish_finished [OF f [unfolded s4] ok_OK]])
  have "MergeInputFiles Bytewise_Compare opts config fuel (cj_input_files job) out (cj_output_level job) now fs CompactionResult =
      Some (OK, res'\<lparr>cr_output_files := cr_output_files res' @ [out],
                     cr_output_metas := cr_output_metas res' @ [(sw_meta w4)\<lparr>sm_level := cj_output_level job\<rparr>],
                     cr_bytes_written := cr_bytes_written res' + sw_current_offset w4\<rparr>, fs4)"
    using o 1(1) L(1,3) f s4 d by (simp add: MergeInputFiles_def)
  then have C: "Compactor_CompactFiles Bytewise_Compare opts config fuel job now fs =
      Some (res'\<lparr>cr_status := OK, cr_output_files := [out], cr_output_metas := [(sw_meta w4)\<lparr>sm_level := cj_output_level job\<rparr>],
        cr_bytes_written := cr_bytes_written res' + sw_current_offset w4\<rparr>, fs4)"
    using inp(2) unfolding Compactor_CompactFiles_def DoCompaction_def out(1) [symmetric] by (simp add: L(6,7))
  have l: "length ?es = length (concat ess)" by (simp del: length_concat)
  show ?thesis
    unfolding C by (rule exI, rule exI, intro conjI, rule refl)
      (use F(1-4) touches_trans [OF O(2) touches_trans [OF A(2) F(3)]] L(4,5) l in \<open>simp_all del: length_concat\<close>)
qed

section \<open>Reading a compacted table\<close>

text \<open>The conditions on the entries of an output file, as for a flush.\<close>

definition readable_entries :: "sst_writer_options \<Rightarrow> (bytes \<times> bytes) list \<Rightarrow> string \<Rightarrow> u64 \<Rightarrow> bool" where
  "readable_entries opts es f now \<longleftrightarrow> es \<noteq> [] \<and> (\<forall>e \<in> set es. text_key (ent_user e) \<and> ent_type e \<le> 3) \<and>
     no_straddle (group_entries (wo_block_size opts) es) \<and> length (entries_image opts es f now) < 2 ^ 32 \<and>
     (wo_enable_bloom_filter opts \<longrightarrow> bloom_params_ok (wo_bloom opts) (length es))"

lemma entries_image_reads:
  assumes rd: "readable_entries opts es f now" and asc: "sorted_wrt (\<lambda>a b. fst a < fst b) es"
    and k8: "\<forall>e \<in> set es. 8 \<le> length (fst e)"
    and img: "map_of (fs_files fs) f = Some (entries_image opts es f now)" and os: "os_allows fs f"
  defines "r \<equiv> opened_reader f (group_entries (wo_block_size opts) es) (bloom_data opts es) (written_meta f now es)"
  shows "SstReader_Open Bytewise_Compare fs f SSTableReader = (OK, r)"
    "SstReader_Get Bytewise_Compare fs r key snapshot = Some (SstReader_answer (newest_visible es key snapshot))"
proof -
  note G = group_entries_concat [where bs = "wo_block_size opts" and es = es]
  have ne: "es \<noteq> []" using rd by (simp add: readable_entries_def)
  have m8: "\<forall>e \<in> set es. 8 \<le> length (fst e) \<and> ent_user e \<noteq> []" using k8 rd by (simp add: readable_entries_def text_key_def)
  have srt: "sorted (map ent_user es)" using text_entries_sorted [OF asc] k8 rd by (simp add: readable_entries_def)
  have bs: "bloom_sound (bloom_data opts es) (ent_user ` set es)"
    using bloom_data_sound [OF _ k8] rd by (simp add: readable_entries_def)
  have m: "sm_smallest_key (written_meta f now es) = ent_user (hd es)"
    "sm_largest_key (written_meta f now es) = ent_user (last es)" "sm_level (written_meta f now es) = 0"
    using meta_add_smallest [OF m8 ne] meta_add_largest [OF k8 ne] meta_add_level [OF k8]
    by (simp_all add: written_meta_def SSTableMeta_new_def)
  note R = read_image [where G = "group_entries (wo_block_size opts) es", unfolded G(1), OF img _ _ _ G(3) [OF ne] G(2) m(3) asc k8
      srt _ bs m(1,2)]
  show "SstReader_Open Bytewise_Compare fs f SSTableReader = (OK, r)"
    unfolding r_def using rd os by (intro R(1)) (simp_all add: readable_entries_def os_allows_def)
  show "SstReader_Get Bytewise_Compare fs r key snapshot = Some (SstReader_answer (newest_visible es key snapshot))"
    unfolding r_def using rd os by (intro R(2)) (simp_all add: readable_entries_def os_allows_def)
qed

lemma keep_all: "8 \<le> length k \<Longrightarrow> ShouldKeepKey CompactionConfig_new k"
  by (simp add: ShouldKeepKey_def CompactionConfig_new_def parse_entry)

section \<open>Two small tables\<close>

abbreviation (input) entry_a :: "bytes \<times> bytes" where "entry_a \<equiv> (InternalKey [97] 5 kValue, [10])"
abbreviation (input) entry_b :: "bytes \<times> bytes" where "entry_b \<equiv> (InternalKey [98] 6 kValue, [20])"

abbreviation (input) one_key_meta :: "bytes \<Rightarrow> sst_meta" where
  "one_key_meta key \<equiv> SSTableMeta_new\<lparr>sm_smallest_key := key, sm_largest_key := key\<rparr>"

abbreviation (input) two_tables_fs :: fs where
  "two_tables_fs \<equiv> \<lparr>fs_files = [(''1'', sst_image [[entry_a]] [] (one_key_meta [97])), (''2'', sst_image [[entry_b]] [] (one_key_meta [98]))],
     fs_disk = [], fs_can_open = \<lambda>_. True, fs_can_write = \<lambda>_. True, fs_can_sync = \<lambda>_. True, fs_can_rename = True,
     fs_partial = 0, fs_scan = 0, fs_can_read = \<lambda>_. True, fs_can_close = True, fs_can_remove = True, fs_strerror = []\<rparr>"

lemma one_entry_table:
  assumes img: "map_of (fs_files fs) f = Some (sst_image [[e]] [] (one_key_meta (ent_user e)))" and os: "os_allows fs f"
    and e: "8 \<le> length (fst e)" "ent_user e \<noteq> []" "entries_bound [e] \<le> 1000" "length (ent_user e) \<le> 1000"
  shows "input_table fs f [e]"
proof -
  let ?m = "one_key_meta (ent_user e)"
  have len: "length (sst_image [[e]] [] ?m) < 2 ^ 32"
    using image_bound [of "[e]" ?m 1000 "[]"] e(3,4) by (simp add: SSTableMeta_new_def)
  have "SstReader_Open Bytewise_Compare fs f SSTableReader = (OK, opened_reader f [[e]] [] ?m)"
    by (rule read_image(1) [OF img _ _ len]) (use os e in \<open>simp_all add: os_allows_def SSTableMeta_new_def no_straddle_def bloom_sound_def\<close>)
  moreover have "table_open fs f [[e]] [] ?m"
    using image_fits [OF len] entries_in_file [OF len] e(1) img os by (simp add: table_open_def os_allows_def SSTableMeta_new_def)
  ultimately show ?thesis unfolding input_table_def by (intro exI [of _ "[[e]]"] exI [of _ "[]"] exI [of _ ?m]) simp
qed

lemma entry_a_less: "fst entry_a < fst entry_b"
proof -
  obtain r q where "InternalKey [97] 5 kValue = [97] @ r" "InternalKey [98] 6 kValue = [98] @ q"
    using internal_key_shape [of "InternalKey [97] 5 kValue"] internal_key_shape [of "InternalKey [98] 6 kValue"] by auto
  then show ?thesis by simp
qed

section \<open>Theorems\<close>



end
