(* ===== verification/SSTableManagers.thy ===== *)
theory SSTableManagers
  imports Compactions
begin

text \<open>
  \<open>SSTableManager\<close> (src/storage/sstable.cc): the tables of each level, the cache of open readers,
  lookups over all levels, level iterators, the flush of a memtable and the removal of files. The
  cache is a list in the order the hash map would be walked, which only decides between readers
  used equally often at the same time. Clocks are arguments. The mutex makes each operation
  atomic; \<open>Get\<close> takes its candidates and then opens readers one by one, as here.
\<close>

section \<open>State\<close>

abbreviation (input) kMaxLevel :: int where "kMaxLevel \<equiv> 6"
abbreviation (input) num_levels :: nat where "num_levels \<equiv> 7"

record cache_entry =
  ce_reader :: sst_reader
  ce_last_access_time :: u64
  ce_access_count :: nat

record sst_manager =
  sg_max_open_files :: nat
  sg_directory :: string
  sg_level_files :: "sst_meta list list"
  sg_file_meta_map :: "(u64 \<times> sst_meta) list"
  sg_reader_cache :: "(u64 \<times> cache_entry) list"
  sg_next_file_number :: u64

definition SSTableManager :: "nat \<Rightarrow> string \<Rightarrow> sst_manager" where
  "SSTableManager max_open_files directory =
     \<lparr>sg_max_open_files = max_open_files, sg_directory = directory, sg_level_files = replicate num_levels [],
      sg_file_meta_map = [], sg_reader_cache = [], sg_next_file_number = 1\<rparr>"

definition al_erase :: "'k \<Rightarrow> ('k \<times> 'v) list \<Rightarrow> ('k \<times> 'v) list" where
  "al_erase k al = filter (\<lambda>(k', _). k' \<noteq> k) al"

text \<open>A level is an \<open>int\<close>; casting it to \<open>size_t\<close> makes a negative one too large.\<close>

definition level_index :: "int \<Rightarrow> nat option" where
  "level_index level = (if 0 \<le> level \<and> level < int num_levels then Some (nat level) else None)"

definition SetNextFileNumber :: "u64 \<Rightarrow> sst_manager \<Rightarrow> sst_manager" where
  "SetNextFileNumber n sg = sg\<lparr>sg_next_file_number := n\<rparr>"

definition ValidateFileMeta :: "sst_meta \<Rightarrow> status" where
  "ValidateFileMeta meta =
     (if sm_filename meta = [] then InvalidArgument ''Empty filename''
      else if sm_file_number meta = 0 then InvalidArgument ''Invalid file number''
      else if level_index (sm_level meta) = None then InvalidArgument ''Invalid level''
      else OK)"

text \<open>\<open>lower_bound\<close> and insertion. On a level that is not sorted the search may end elsewhere: the
  binary search is the standard library's.\<close>

function lower_bound_loop :: "('a \<Rightarrow> bool) \<Rightarrow> 'a list \<Rightarrow> nat \<Rightarrow> nat \<Rightarrow> nat" where
  "lower_bound_loop below xs first len =
     (if len = 0 then first
      else let half = len div 2; middle = first + half in
        if below (xs ! middle) then lower_bound_loop below xs (middle + 1) (len - half - 1)
        else lower_bound_loop below xs first half)"
  by pat_completeness auto

termination
  by (relation "measure (\<lambda>(below, xs, first, len). len)") auto

declare lower_bound_loop.simps [simp del]

definition lower_bound :: "('a \<Rightarrow> bool) \<Rightarrow> 'a list \<Rightarrow> nat" where
  "lower_bound below xs = lower_bound_loop below xs 0 (length xs)"

definition RegisterSSTable :: "(bytes \<Rightarrow> bytes \<Rightarrow> int) \<Rightarrow> sst_meta \<Rightarrow> sst_manager \<Rightarrow> status \<times> sst_manager" where
  "RegisterSSTable cmp meta sg =
     (let s = ValidateFileMeta meta in
      if \<not> ok s then (s, sg)
      else case level_index (sm_level meta) of
        None \<Rightarrow> (InvalidArgument ''Invalid SSTable level'', sg)
      | Some l \<Rightarrow>
          if map_of (sg_file_meta_map sg) (sm_file_number meta) \<noteq> None
          then (InvalidArgument ''SSTable file already registered'', sg)
          else let files = sg_level_files sg ! l;
                   pos = lower_bound (\<lambda>a. cmp (sm_smallest_key a) (sm_smallest_key meta) < 0) files
               in (OK, sg\<lparr>sg_level_files := (sg_level_files sg)[l := take pos files @ meta # drop pos files],
                          sg_file_meta_map := al_put (sm_file_number meta) meta (sg_file_meta_map sg),
                          sg_next_file_number := (if sg_next_file_number sg \<le> sm_file_number meta
                                                  then sm_file_number meta + 1 else sg_next_file_number sg)\<rparr>))"

definition UnregisterSSTable :: "u64 \<Rightarrow> sst_manager \<Rightarrow> status \<times> sst_manager" where
  "UnregisterSSTable file_number sg =
     (case map_of (sg_file_meta_map sg) file_number of
        None \<Rightarrow> (NotFound ''SSTable file not found'', sg)
      | Some meta \<Rightarrow>
          (let l = nat (sm_level meta) in
           (OK, sg\<lparr>sg_level_files := (sg_level_files sg)[l := filter (\<lambda>m. sm_file_number m \<noteq> file_number) (sg_level_files sg ! l)],
                   sg_file_meta_map := al_erase file_number (sg_file_meta_map sg),
                   sg_reader_cache := al_erase file_number (sg_reader_cache sg)\<rparr>)))"

section \<open>The reader cache\<close>

definition LoadReader :: "(bytes \<Rightarrow> bytes \<Rightarrow> int) \<Rightarrow> fs \<Rightarrow> u64 \<Rightarrow> sst_manager \<Rightarrow> status \<times> sst_reader option" where
  "LoadReader cmp fs file_number sg =
     (case map_of (sg_file_meta_map sg) file_number of
        None \<Rightarrow> (NotFound ''SSTable file not found'', None)
      | Some meta \<Rightarrow>
          (let (s, r) = SstReader_Open cmp fs (sm_filename meta) SSTableReader
           in if \<not> ok s then (s, None) else (OK, Some r)))"

text \<open>The entry used least often; of those, the one used longest ago; of those, the first.\<close>

fun evict_candidate :: "(u64 \<times> cache_entry) list \<Rightarrow> u64 \<Rightarrow> u64 \<Rightarrow> u64 option \<Rightarrow> u64 option" where
  "evict_candidate [] oldest_time min_count best = best"
| "evict_candidate ((k, e) # rest) oldest_time min_count best =
     (if (of_nat (ce_access_count e) :: u64) < min_count \<or>
         (of_nat (ce_access_count e) = min_count \<and> ce_last_access_time e < oldest_time)
      then evict_candidate rest (ce_last_access_time e) (of_nat (ce_access_count e)) (Some k)
      else evict_candidate rest oldest_time min_count best)"

definition EvictLRUReader :: "sst_manager \<Rightarrow> sst_manager" where
  "EvictLRUReader sg =
     (case evict_candidate (sg_reader_cache sg) (-1) (-1) None of
        None \<Rightarrow> sg
      | Some k \<Rightarrow> sg\<lparr>sg_reader_cache := al_erase k (sg_reader_cache sg)\<rparr>)"

definition EvictFromCache :: "u64 \<Rightarrow> sst_manager \<Rightarrow> sst_manager" where
  "EvictFromCache file_number sg = sg\<lparr>sg_reader_cache := al_erase file_number (sg_reader_cache sg)\<rparr>"

definition ClearCache :: "sst_manager \<Rightarrow> sst_manager" where
  "ClearCache sg = sg\<lparr>sg_reader_cache := []\<rparr>"

definition GetReader ::
    "(bytes \<Rightarrow> bytes \<Rightarrow> int) \<Rightarrow> fs \<Rightarrow> u64 \<Rightarrow> u64 \<Rightarrow> sst_manager \<Rightarrow> sst_reader option \<times> sst_manager" where
  "GetReader cmp fs clock file_number sg =
     (case map_of (sg_reader_cache sg) file_number of
        Some e \<Rightarrow> (Some (ce_reader e),
                   sg\<lparr>sg_reader_cache := al_put file_number
                        (e\<lparr>ce_last_access_time := clock, ce_access_count := ce_access_count e + 1\<rparr>) (sg_reader_cache sg)\<rparr>)
      | None \<Rightarrow>
          (case LoadReader cmp fs file_number sg of
             (_, None) \<Rightarrow> (None, sg)
           | (_, Some r) \<Rightarrow>
               (let sg = (if sg_max_open_files sg \<le> length (sg_reader_cache sg) then EvictLRUReader sg else sg)
                in (Some r, sg\<lparr>sg_reader_cache := al_put file_number
                      \<lparr>ce_reader = r, ce_last_access_time = clock, ce_access_count = 1\<rparr> (sg_reader_cache sg)\<rparr>))))"

section \<open>Lookup\<close>

text \<open>The candidates of level 0, newest file first, and of another level, at most one.\<close>

definition level0_candidates :: "(bytes \<Rightarrow> bytes \<Rightarrow> int) \<Rightarrow> bytes \<Rightarrow> sst_meta list \<Rightarrow> u64 list" where
  "level0_candidates cmp key files =
     rev (sort (map sm_file_number (filter (\<lambda>m. KeyInRange cmp m key) files)))"

definition level_candidates :: "(bytes \<Rightarrow> bytes \<Rightarrow> int) \<Rightarrow> bytes \<Rightarrow> sst_meta list \<Rightarrow> u64 list" where
  "level_candidates cmp key files =
     (let n = lower_bound (\<lambda>m. cmp (sm_largest_key m) key < 0) files
      in if n < length files \<and> KeyInRange cmp (files ! n) key then [sm_file_number (files ! n)] else [])"

definition get_candidates :: "(bytes \<Rightarrow> bytes \<Rightarrow> int) \<Rightarrow> bytes \<Rightarrow> sst_manager \<Rightarrow> u64 list" where
  "get_candidates cmp key sg =
     (case sg_level_files sg of
        [] \<Rightarrow> []
      | l0 # rest \<Rightarrow> level0_candidates cmp key l0 @ concat (map (level_candidates cmp key) rest))"

text \<open>The candidates in turn; \<open>None\<close> is the Bloom filter's crash. The value is that of the first
  table that has one.\<close>

fun Manager_Get_loop ::
    "(bytes \<Rightarrow> bytes \<Rightarrow> int) \<Rightarrow> fs \<Rightarrow> u64 \<Rightarrow> bytes \<Rightarrow> u64 \<Rightarrow> u64 list \<Rightarrow> sst_manager
     \<Rightarrow> (status \<times> bytes option \<times> sst_manager) option" where
  "Manager_Get_loop cmp fs clock key snapshot [] sg = Some (OK, None, sg)"
| "Manager_Get_loop cmp fs clock key snapshot (n # rest) sg =
     (case GetReader cmp fs clock n sg of
        (None, sg) \<Rightarrow> Manager_Get_loop cmp fs clock key snapshot rest sg
      | (Some r, sg) \<Rightarrow> do {
          may \<leftarrow> SstReader_MayContainKey cmp r key;
          if \<not> may then Manager_Get_loop cmp fs clock key snapshot rest sg
          else do {
            (s, value) \<leftarrow> SstReader_Get cmp fs r key snapshot;
            if \<not> ok s then Some (s, None, sg)
            else case value of
              Some v \<Rightarrow> Some (OK, Some v, sg)
            | None \<Rightarrow> Manager_Get_loop cmp fs clock key snapshot rest sg } })"

definition Manager_Get ::
    "(bytes \<Rightarrow> bytes \<Rightarrow> int) \<Rightarrow> fs \<Rightarrow> u64 \<Rightarrow> bytes \<Rightarrow> u64 \<Rightarrow> sst_manager \<Rightarrow> (status \<times> bytes option \<times> sst_manager) option" where
  "Manager_Get cmp fs clock key snapshot sg =
     Manager_Get_loop cmp fs clock key snapshot (get_candidates cmp key sg) sg"

section \<open>Level files\<close>

definition GetLevelFiles :: "int \<Rightarrow> sst_manager \<Rightarrow> sst_meta list" where
  "GetLevelFiles level sg = (case level_index level of None \<Rightarrow> [] | Some l \<Rightarrow> sg_level_files sg ! l)"

definition GetAllFiles :: "sst_manager \<Rightarrow> sst_meta list" where
  "GetAllFiles sg = concat (sg_level_files sg)"

definition GetFilesInRange :: "(bytes \<Rightarrow> bytes \<Rightarrow> int) \<Rightarrow> bytes \<Rightarrow> bytes \<Rightarrow> int \<Rightarrow> sst_manager \<Rightarrow> sst_meta list" where
  "GetFilesInRange cmp start_key end_key level sg =
     filter (\<lambda>m. 0 \<le> cmp (sm_largest_key m) start_key \<and> cmp (sm_smallest_key m) end_key \<le> 0) (GetLevelFiles level sg)"

definition GetOverlappingFiles :: "(bytes \<Rightarrow> bytes \<Rightarrow> int) \<Rightarrow> bytes \<Rightarrow> bytes \<Rightarrow> int \<Rightarrow> sst_manager \<Rightarrow> sst_meta list" where
  "GetOverlappingFiles cmp start_key end_key level sg = GetFilesInRange cmp start_key end_key level sg"

section \<open>Flush, compaction, removal\<close>

definition Manager_CompactFiles ::
    "(bytes \<Rightarrow> bytes \<Rightarrow> int) \<Rightarrow> nat \<Rightarrow> compaction_job \<Rightarrow> u64 \<Rightarrow> fs \<Rightarrow> (compaction_result \<times> fs) option" where
  "Manager_CompactFiles cmp fuel job now fs =
     Compactor_CompactFiles cmp compactor_options CompactionConfig_new fuel job now fs"

definition GenerateFileName :: "u64 \<Rightarrow> int \<Rightarrow> sst_manager \<Rightarrow> string" where
  "GenerateFileName file_number level sg =
     (let name = ''sst_'' @ to_string (unat file_number) @ ''_L'' @ to_string (nat level) @ ''.sst''
      in if sg_directory sg = [] then name else sg_directory sg @ ''/'' @ name)"

definition Manager_FlushMemTable ::
    "(bytes \<Rightarrow> bytes \<Rightarrow> int) \<Rightarrow> memtable option \<Rightarrow> int \<Rightarrow> u64 \<Rightarrow> sst_manager \<Rightarrow> fs
     \<Rightarrow> (status \<times> sst_manager \<times> fs) option" where
  "Manager_FlushMemTable cmp memtable target_level now sg fs =
     (case memtable of
        None \<Rightarrow> Some (InvalidArgument ''Invalid arguments'', sg, fs)
      | Some mt \<Rightarrow>
          (let file_number = sg_next_file_number sg;
               sg = sg\<lparr>sg_next_file_number := sg_next_file_number sg + 1\<rparr>;
               filename = GenerateFileName file_number target_level sg in
           case Compactor_FlushMemTable cmp compactor_options (Some mt) filename target_level now fs of
             None \<Rightarrow> None
           | Some (s, meta, fs) \<Rightarrow>
               if \<not> ok s then Some (s, sg, fs)
               else let (s, sg) = RegisterSSTable cmp ((the meta)\<lparr>sm_file_number := file_number\<rparr>) sg in
               if \<not> ok s then Some (s, sg, snd (Env_DeleteFile fs filename)) else Some (OK, sg, fs)))"

fun DeleteObsoleteFiles :: "u64 list \<Rightarrow> sst_manager \<Rightarrow> fs \<Rightarrow> status \<times> sst_manager \<times> fs" where
  "DeleteObsoleteFiles [] sg fs = (OK, sg, fs)"
| "DeleteObsoleteFiles (n # rest) sg fs =
     (let filename = (case map_of (sg_file_meta_map sg) n of None \<Rightarrow> [] | Some m \<Rightarrow> sm_filename m);
          (s, sg) = UnregisterSSTable n sg in
      if \<not> ok s then DeleteObsoleteFiles rest sg fs
      else DeleteObsoleteFiles rest sg (if filename \<noteq> [] then snd (Env_DeleteFile fs filename) else fs))"

definition Manager_RenameFile :: "string \<Rightarrow> string \<Rightarrow> fs \<Rightarrow> status \<times> fs" where
  "Manager_RenameFile old_name new_name fs = Env_RenameFile fs old_name new_name"

section \<open>Statistics\<close>

text \<open>The average size is \<open>total_size / num_files\<close> as a \<open>double\<close>, which the pair determines.\<close>

record level_stats =
  ls_level :: int
  ls_num_files :: nat
  ls_total_size :: u64
  ls_size_range :: string

definition GetLevelStats_of :: "int \<Rightarrow> sst_meta list \<Rightarrow> level_stats" where
  "GetLevelStats_of level files =
     \<lparr>ls_level = level, ls_num_files = length files, ls_total_size = sum_list (map sm_file_size files),
      ls_size_range = (if 0 < length files
        then to_string (unat (foldl min (-1) (map sm_file_size files))) @ ''-'' @
             to_string (unat (foldl max 0 (map sm_file_size files)))
        else ''0-0'')\<rparr>"

definition GetLevelStats :: "sst_manager \<Rightarrow> level_stats list" where
  "GetLevelStats sg = map (\<lambda>(i, files). GetLevelStats_of (int i) files) (enumerate 0 (sg_level_files sg))"

section \<open>LevelIterator\<close>

record level_iter =
  li_level :: int
  li_level_files :: "sst_meta list"
  li_current_file :: int
  li_current_iter :: "(sst_reader \<times> sst_iter) option"

text \<open>\<open>UINT64_MAX\<close> stands for the whole level.\<close>

definition NewLevelIterator :: "int \<Rightarrow> u64 \<Rightarrow> sst_manager \<Rightarrow> level_iter" where
  "NewLevelIterator level only_file sg =
     (let all_files = sg_level_files sg ! nat level in
      \<lparr>li_level = level,
       li_level_files = (if only_file = -1 then all_files
                         else case find (\<lambda>m. sm_file_number m = only_file) all_files of None \<Rightarrow> [] | Some m \<Rightarrow> [m]),
       li_current_file = -1, li_current_iter = None\<rparr>)"

definition LoadCurrentIterator ::
    "(bytes \<Rightarrow> bytes \<Rightarrow> int) \<Rightarrow> fs \<Rightarrow> u64 \<Rightarrow> level_iter \<Rightarrow> sst_manager \<Rightarrow> level_iter \<times> sst_manager" where
  "LoadCurrentIterator cmp fs clock li sg =
     (if li_current_file li < 0 \<or> int (length (li_level_files li)) \<le> li_current_file li
      then (li\<lparr>li_current_iter := None\<rparr>, sg)
      else case GetReader cmp fs clock (sm_file_number (li_level_files li ! nat (li_current_file li))) sg of
        (Some r, sg) \<Rightarrow> (li\<lparr>li_current_iter := map_option (\<lambda>it. (r, it)) (SstReader_NewIterator r)\<rparr>, sg)
      | (None, sg) \<Rightarrow> (li\<lparr>li_current_iter := None\<rparr>, sg))"

definition LevelIter_Valid :: "level_iter \<Rightarrow> bool" where
  "LevelIter_Valid li \<longleftrightarrow> (case li_current_iter li of None \<Rightarrow> False | Some (r, it) \<Rightarrow> SstIter_Valid r it)"

definition LevelIter_key :: "level_iter \<Rightarrow> bytes" where
  "LevelIter_key li = (case li_current_iter li of None \<Rightarrow> [] | Some (r, it) \<Rightarrow> SstIter_key r it)"

definition LevelIter_value :: "level_iter \<Rightarrow> bytes" where
  "LevelIter_value li = (case li_current_iter li of None \<Rightarrow> [] | Some (r, it) \<Rightarrow> SstIter_value r it)"

definition LevelIter_status :: "level_iter \<Rightarrow> status" where
  "LevelIter_status li = (case li_current_iter li of None \<Rightarrow> OK | Some (r, it) \<Rightarrow> si_status it)"

definition on_current :: "(sst_reader \<Rightarrow> sst_iter \<Rightarrow> sst_iter) \<Rightarrow> level_iter \<Rightarrow> level_iter" where
  "on_current f li = li\<lparr>li_current_iter := map_option (\<lambda>(r, it). (r, f r it)) (li_current_iter li)\<rparr>"

text \<open>To a file, and to a place in it.\<close>

definition load_file ::
    "(sst_reader \<Rightarrow> sst_iter \<Rightarrow> sst_iter) \<Rightarrow> (bytes \<Rightarrow> bytes \<Rightarrow> int) \<Rightarrow> fs \<Rightarrow> u64 \<Rightarrow> int \<Rightarrow> level_iter \<Rightarrow> sst_manager
     \<Rightarrow> level_iter \<times> sst_manager" where
  "load_file position cmp fs clock n li sg =
     (let (li, sg) = LoadCurrentIterator cmp fs clock (li\<lparr>li_current_file := n\<rparr>) sg in (on_current position li, sg))"

definition LevelIter_SeekToFirst ::
    "(bytes \<Rightarrow> bytes \<Rightarrow> int) \<Rightarrow> fs \<Rightarrow> u64 \<Rightarrow> level_iter \<Rightarrow> sst_manager \<Rightarrow> level_iter \<times> sst_manager" where
  "LevelIter_SeekToFirst cmp fs clock li sg = load_file (SstIter_SeekToFirst fs) cmp fs clock 0 li sg"

definition LevelIter_SeekToLast ::
    "(bytes \<Rightarrow> bytes \<Rightarrow> int) \<Rightarrow> fs \<Rightarrow> u64 \<Rightarrow> level_iter \<Rightarrow> sst_manager \<Rightarrow> level_iter \<times> sst_manager" where
  "LevelIter_SeekToLast cmp fs clock li sg =
     load_file (SstIter_SeekToLast fs) cmp fs clock (int (length (li_level_files li)) - 1) li sg"

definition LevelIter_Seek ::
    "(bytes \<Rightarrow> bytes \<Rightarrow> int) \<Rightarrow> fs \<Rightarrow> u64 \<Rightarrow> bytes \<Rightarrow> level_iter \<Rightarrow> sst_manager \<Rightarrow> level_iter \<times> sst_manager" where
  "LevelIter_Seek cmp fs clock target li sg =
     (if li_level li = 0 then load_file (\<lambda>r. SstIter_Seek cmp fs r target) cmp fs clock 0 li sg
      else let n = lower_bound (\<lambda>m. cmp (sm_largest_key m) target < 0) (li_level_files li) in
        if n < length (li_level_files li)
        then load_file (\<lambda>r. SstIter_Seek cmp fs r target) cmp fs clock (int n) li sg
        else (li\<lparr>li_current_file := -1, li_current_iter := None\<rparr>, sg))"

definition LevelIter_Next ::
    "(bytes \<Rightarrow> bytes \<Rightarrow> int) \<Rightarrow> fs \<Rightarrow> u64 \<Rightarrow> level_iter \<Rightarrow> sst_manager \<Rightarrow> level_iter \<times> sst_manager" where
  "LevelIter_Next cmp fs clock li sg =
     (if \<not> LevelIter_Valid li then (li, sg)
      else let li = on_current (SstIter_Next fs) li in
        if LevelIter_Valid li then (li, sg)
        else load_file (SstIter_SeekToFirst fs) cmp fs clock (li_current_file li + 1) li sg)"

definition LevelIter_Prev ::
    "(bytes \<Rightarrow> bytes \<Rightarrow> int) \<Rightarrow> fs \<Rightarrow> u64 \<Rightarrow> level_iter \<Rightarrow> sst_manager \<Rightarrow> level_iter \<times> sst_manager" where
  "LevelIter_Prev cmp fs clock li sg =
     (if \<not> LevelIter_Valid li then (li, sg)
      else let li = on_current (SstIter_Prev fs) li in
        if LevelIter_Valid li then (li, sg)
        else load_file (SstIter_SeekToLast fs) cmp fs clock (li_current_file li - 1) li sg)"

section \<open>The binary search\<close>

lemma lower_bound_loop_spec:
  assumes "first + len \<le> length xs" "\<forall>i < first. P (xs ! i)" "\<forall>i. first + len \<le> i \<and> i < length xs \<longrightarrow> \<not> P (xs ! i)"
    and "\<forall>i j. i \<le> j \<and> j < length xs \<and> P (xs ! j) \<longrightarrow> P (xs ! i)"
  shows "lower_bound_loop P xs first len \<le> length xs \<and> (\<forall>i < lower_bound_loop P xs first len. P (xs ! i)) \<and>
    (\<forall>i. lower_bound_loop P xs first len \<le> i \<and> i < length xs \<longrightarrow> \<not> P (xs ! i))"
  using assms
proof (induction P xs first len rule: lower_bound_loop.induct)
  case (1 P xs first len)
  let ?m = "first + len div 2"
  show ?case
  proof (cases "len = 0")
    case True
    then show ?thesis using "1.prems" by (subst (1 2 3) lower_bound_loop.simps) simp
  next
    case False
    then have m: "?m < length xs" using "1.prems"(1) by linarith
    show ?thesis
    proof (cases "P (xs ! ?m)")
      case True
      have e: "lower_bound_loop P xs first len = lower_bound_loop P xs (?m + 1) (len - len div 2 - 1)"
        using False True by (subst lower_bound_loop.simps) (simp add: Let_def)
      have b: "\<forall>i < ?m + 1. P (xs ! i)" using "1.prems"(4) True m by (simp add: less_Suc_eq_le) blast
      have l: "?m + 1 + (len - len div 2 - 1) = first + len" using False by simp
      show ?thesis
        unfolding e by (rule "1.IH"(1) [OF False refl refl True]) (use b l "1.prems" in simp_all)
    next
      case F: False
      have e: "lower_bound_loop P xs first len = lower_bound_loop P xs first (len div 2)"
        using False F by (subst lower_bound_loop.simps) (simp add: Let_def)
      have b: "\<forall>i. first + len div 2 \<le> i \<and> i < length xs \<longrightarrow> \<not> P (xs ! i)" using "1.prems"(4) F by blast
      show ?thesis
        unfolding e by (rule "1.IH"(2) [OF False refl refl F]) (use b m "1.prems" in simp_all)
    qed
  qed
qed

lemma lower_bound_spec:
  assumes "\<forall>i j. i \<le> j \<and> j < length xs \<and> P (xs ! j) \<longrightarrow> P (xs ! i)"
  shows "lower_bound P xs = length (takeWhile P xs)"
proof -
  let ?n = "lower_bound_loop P xs 0 (length xs)"
  have L: "?n \<le> length xs \<and> (\<forall>i < ?n. P (xs ! i)) \<and> (\<forall>i. ?n \<le> i \<and> i < length xs \<longrightarrow> \<not> P (xs ! i))"
    by (rule lower_bound_loop_spec [OF _ _ _ assms]) auto
  have S: "?n \<le> length xs" "\<And>i. i < ?n \<Longrightarrow> P (xs ! i)" "\<And>i. ?n \<le> i \<Longrightarrow> i < length xs \<Longrightarrow> \<not> P (xs ! i)"
    using L by blast+
  have "takeWhile P xs = take ?n xs" by (rule takeWhile_eq_take_P_nth) (use S in blast)+
  then show ?thesis using S(1) by (simp add: lower_bound_def)
qed

lemma lower_bound_sorted:
  assumes "sorted (map f xs)" "\<And>a b. f a \<le> f b \<Longrightarrow> P b \<Longrightarrow> P a"
  shows "lower_bound P xs = length (takeWhile P xs)"
  using assms by (intro lower_bound_spec) (auto simp: sorted_iff_nth_mono)

lemma take_drop_takeWhile: "take (length (takeWhile P xs)) xs = takeWhile P xs" "drop (length (takeWhile P xs)) xs = dropWhile P xs"
  by (simp_all add: takeWhile_eq_take [symmetric] dropWhile_eq_drop [symmetric])

lemma sorted_insert_at:
  assumes "sorted (map f xs)" "\<And>a. P a \<longleftrightarrow> f a < (f x :: 'a::linorder)"
  shows "sorted (map f (takeWhile P xs @ x # dropWhile P xs))"
proof -
  have 1: "f a \<le> f x" if "a \<in> set (takeWhile P xs)" for a 
  proof -
    have "P a" using set_takeWhileD [OF that] by (rule conjunct2)
    then show ?thesis unfolding assms(2) by (rule less_imp_le)
  qed
  have 2: "f x \<le> f b" if "b \<in> set (dropWhile P xs)" for b
  proof -
    have ne: "dropWhile P xs \<noteq> []" using that by (metis list.set(1) empty_iff)
    have "sorted (map f (dropWhile P xs))"
      using assms(1) takeWhile_dropWhile_id [of P xs] by (metis map_append sorted_append)
    then have "f (hd (dropWhile P xs)) \<le> f b" using that by (cases "dropWhile P xs") auto
    moreover have "f x \<le> f (hd (dropWhile P xs))" using hd_dropWhile [OF ne] unfolding assms(2) not_less .
    ultimately show ?thesis by (rule order_trans [rotated])
  qed
  have "sorted (map f (takeWhile P xs @ dropWhile P xs))" using assms(1) by simp
  then have 3: "sorted (map f (takeWhile P xs))" "sorted (map f (dropWhile P xs))"
    unfolding map_append sorted_append by simp_all
  have 4: "f a \<le> f b" if "a \<in> set (takeWhile P xs)" "b \<in> set (dropWhile P xs)" for a b
    using 1 [OF that(1)] 2 [OF that(2)] by (rule order_trans)
  have "\<forall>b \<in> set (map f (x # dropWhile P xs)). a \<le> b" if "a \<in> set (map f (takeWhile P xs))" for a
    using that 1 4 by auto
  moreover have "sorted (map f (x # dropWhile P xs))" using 3(2) 2 by simp
  ultimately show ?thesis unfolding map_append sorted_append using 3(1) by blast
qed

section \<open>The invariant\<close>

text \<open>The level lists and the map hold the same tables, each where its metadata says, under
  distinct numbers that are not zero; levels are sorted by smallest key; the cache holds readers of
  registered tables only, each once, and no more than it is allowed.\<close>

definition metas_ok :: "sst_manager \<Rightarrow> bool" where
  "metas_ok sg \<longleftrightarrow> length (sg_level_files sg) = num_levels \<and>
     (\<forall>l < num_levels. \<forall>m. m \<in> set (sg_level_files sg ! l) \<longleftrightarrow>
        sm_level m = int l \<and> map_of (sg_file_meta_map sg) (sm_file_number m) = Some m) \<and>
     (\<forall>n m. map_of (sg_file_meta_map sg) n = Some m \<longrightarrow> sm_file_number m = n \<and> ok (ValidateFileMeta m)) \<and>
     (\<forall>l < num_levels. distinct (map sm_file_number (sg_level_files sg ! l)) \<and>
        sorted (map sm_smallest_key (sg_level_files sg ! l)))"

definition cache_ok :: "sst_manager \<Rightarrow> bool" where
  "cache_ok sg \<longleftrightarrow> distinct (map fst (sg_reader_cache sg)) \<and>
     fst ` set (sg_reader_cache sg) \<subseteq> dom (map_of (sg_file_meta_map sg)) \<and>
     (\<forall>(n, e) \<in> set (sg_reader_cache sg). ce_last_access_time e \<noteq> -1) \<and>
     length (sg_reader_cache sg) \<le> max 1 (sg_max_open_files sg)"

lemma level_index_Some: "level_index level = Some l \<longleftrightarrow> level = int l \<and> l < num_levels"
  by (auto simp: level_index_def)

lemma Validate_ok:
  "ok (ValidateFileMeta m) \<longleftrightarrow> sm_filename m \<noteq> [] \<and> sm_file_number m \<noteq> 0 \<and> (\<exists>l < num_levels. sm_level m = int l)"
  by (auto simp: ValidateFileMeta_def level_index_def status_simps) (metis nat_0_le nat_less_iff of_nat_numeral)

lemma map_of_al_erase: "map_of (al_erase k al) = (map_of al)(k := None)"
  by (induction al) (auto simp: al_erase_def fun_eq_iff)

lemma set_al_erase: "set (al_erase k al) = {p \<in> set al. fst p \<noteq> k}"
  by (auto simp: al_erase_def)

lemma distinct_al_erase: "distinct (map fst al) \<Longrightarrow> distinct (map fst (al_erase k al))"
  unfolding al_erase_def by (rule distinct_map_filter)

lemma Register_fails:
  "\<not> ok (ValidateFileMeta m) \<or> map_of (sg_file_meta_map sg) (sm_file_number m) \<noteq> None \<Longrightarrow>
   \<exists>s. RegisterSSTable cmp m sg = (s, sg) \<and> \<not> ok s"
  by (auto simp: RegisterSSTable_def Let_def status_simps split: option.splits)

definition sorted_insert :: "sst_meta \<Rightarrow> sst_meta list \<Rightarrow> sst_meta list" where
  "sorted_insert m files = takeWhile (\<lambda>a. sm_smallest_key a < sm_smallest_key m) files @ m #
     dropWhile (\<lambda>a. sm_smallest_key a < sm_smallest_key m) files"

lemma Register_result:
  assumes "ok (ValidateFileMeta m)" "map_of (sg_file_meta_map sg) (sm_file_number m) = None" "sm_level m = int l" "l < num_levels"
    and "sorted (map sm_smallest_key (sg_level_files sg ! l))"
  shows "RegisterSSTable Bytewise_Compare m sg = (OK, sg\<lparr>sg_level_files := (sg_level_files sg)[l := sorted_insert m (sg_level_files sg ! l)],
      sg_file_meta_map := al_put (sm_file_number m) m (sg_file_meta_map sg),
      sg_next_file_number := (if sg_next_file_number sg \<le> sm_file_number m then sm_file_number m + 1 else sg_next_file_number sg)\<rparr>)"
proof -
  have l: "level_index (sm_level m) = Some l" using assms(3,4) by (simp add: level_index_Some)
  have b: "lower_bound (\<lambda>a. sm_smallest_key a < sm_smallest_key m) (sg_level_files sg ! l) =
      length (takeWhile (\<lambda>a. sm_smallest_key a < sm_smallest_key m) (sg_level_files sg ! l))"
    by (rule lower_bound_sorted [OF assms(5)]) (rule order.strict_trans1)
  show ?thesis
    using assms(1,2) by (simp add: RegisterSSTable_def Let_def l Bytewise_tests b take_drop_takeWhile sorted_insert_def)
qed

lemma set_sorted_insert [simp]: "set (sorted_insert m files) = insert m (set files)"
  using arg_cong [OF takeWhile_dropWhile_id [of "\<lambda>a. sm_smallest_key a < sm_smallest_key m" files], of set]
  by (auto simp: sorted_insert_def simp del: takeWhile_dropWhile_id)

lemma distinct_sorted_insert:
  "sm_file_number m \<notin> sm_file_number ` set files \<Longrightarrow> distinct (map sm_file_number (sorted_insert m files)) \<longleftrightarrow>
   distinct (map sm_file_number files)"
proof -
  assume m: "sm_file_number m \<notin> sm_file_number ` set files"
  have "mset (map sm_file_number (sorted_insert m files)) = mset (map sm_file_number (m # files))"
    using arg_cong [OF takeWhile_dropWhile_id [of "\<lambda>a. sm_smallest_key a < sm_smallest_key m" files], of mset]
    by (simp del: takeWhile_dropWhile_id add: sorted_insert_def image_mset_union [symmetric])
  then have "distinct (map sm_file_number (sorted_insert m files)) \<longleftrightarrow> distinct (map sm_file_number (m # files))"
    by (rule mset_eq_imp_distinct_iff)
  then show ?thesis using m by (simp only: list.map distinct.simps set_map) simp
qed

lemma metas_okD:
  assumes "metas_ok sg"
  shows "length (sg_level_files sg) = num_levels"
    "l < num_levels \<Longrightarrow> m \<in> set (sg_level_files sg ! l) \<longleftrightarrow> sm_level m = int l \<and> map_of (sg_file_meta_map sg) (sm_file_number m) = Some m"
    "map_of (sg_file_meta_map sg) n = Some m \<Longrightarrow> sm_file_number m = n"
    "map_of (sg_file_meta_map sg) n = Some m \<Longrightarrow> ok (ValidateFileMeta m)"
    "l < num_levels \<Longrightarrow> distinct (map sm_file_number (sg_level_files sg ! l))"
    "l < num_levels \<Longrightarrow> sorted (map sm_smallest_key (sg_level_files sg ! l))"
  using assms unfolding metas_ok_def by simp_all

lemma metas_ok_parts:
  "sg_level_files sg' = sg_level_files sg \<Longrightarrow> sg_file_meta_map sg' = sg_file_meta_map sg \<Longrightarrow> metas_ok sg \<Longrightarrow> metas_ok sg'"
  by (simp add: metas_ok_def)

lemma Register_metas_ok:
  assumes "metas_ok sg" shows "metas_ok (snd (RegisterSSTable Bytewise_Compare m sg))"
proof (cases "ok (ValidateFileMeta m) \<and> map_of (sg_file_meta_map sg) (sm_file_number m) = None")
  case False
  then show ?thesis using Register_fails [of m sg Bytewise_Compare] assms by fastforce
next
  case True
  then obtain l where l: "l < num_levels" "sm_level m = int l" by (auto simp: Validate_ok)
  note D = metas_okD [OF assms]
  note R = Register_result [OF conjunct1 [OF True] conjunct2 [OF True] l(2,1) D(6) [OF l(1)]]
  let ?L = "(sg_level_files sg)[l := sorted_insert m (sg_level_files sg ! l)]"
  have n: "sm_file_number m \<notin> sm_file_number ` set (sg_level_files sg ! k)" if "k < num_levels" for k
    using D(2) [OF that] True by auto
  have L: "?L ! k = (if k = l then sorted_insert m (sg_level_files sg ! l) else sg_level_files sg ! k)" if "k < num_levels" for k
    using that l(1) D(1) by (simp add: nth_list_update)
  have 1: "x \<in> set (?L ! k) \<longleftrightarrow> sm_level x = int k \<and> map_of (al_put (sm_file_number m) m (sg_file_meta_map sg)) (sm_file_number x) = Some x"
    if k: "k < num_levels" for k x
    using D(2) [OF k, of x] l(2) True unfolding L [OF k] by (cases "k = l") auto
  have 2: "distinct (map sm_file_number (?L ! k))" if k: "k < num_levels" for k
    using D(5) [OF k] unfolding L [OF k] by (cases "k = l") (simp_all add: distinct_sorted_insert [OF n [OF l(1)]])
  have 3: "sorted (map sm_smallest_key (?L ! k))" if k: "k < num_levels" for k
    unfolding L [OF k] using D(6) [OF k] sorted_insert_at [OF D(6) [OF l(1)] refl, of m] by (simp add: sorted_insert_def)
  show ?thesis
    unfolding R metas_ok_def using 1 2 3 D(1,3,4) True by (auto split: if_splits)
qed

lemma Unregister_metas_ok:
  assumes "metas_ok sg" shows "metas_ok (snd (UnregisterSSTable n sg))"
proof (cases "map_of (sg_file_meta_map sg) n")
  case None
  then show ?thesis using assms by (simp add: UnregisterSSTable_def)
next
  case (Some m)
  note D = metas_okD [OF assms]
  obtain l where l: "l < num_levels" "sm_level m = int l" using D(4) [OF Some] by (auto simp: Validate_ok)
  let ?L = "(sg_level_files sg)[l := filter (\<lambda>m. sm_file_number m \<noteq> n) (sg_level_files sg ! l)]"
  have L: "?L ! k = (if k = l then filter (\<lambda>m. sm_file_number m \<noteq> n) (sg_level_files sg ! l) else sg_level_files sg ! k)"
    if "k < num_levels" for k
    using that l(1) D(1) by (simp add: nth_list_update)
  have 1: "x \<in> set (?L ! k) \<longleftrightarrow> sm_level x = int k \<and> map_of (al_erase n (sg_file_meta_map sg)) (sm_file_number x) = Some x"
    if k: "k < num_levels" for k x
    using D(2) [OF k, of x] l(2) Some D(3) [OF Some] unfolding L [OF k] by (auto simp: map_of_al_erase)
  have 2: "distinct (map sm_file_number (?L ! k))" if k: "k < num_levels" for k
    using D(5) [OF k] unfolding L [OF k] by (cases "k = l") (simp_all add: distinct_map_filter)
  have 3: "sorted (map sm_smallest_key (?L ! k))" if k: "k < num_levels" for k
    using D(6) [OF k] unfolding L [OF k] by (cases "k = l") (simp_all add: sorted_filter)
  have r: "UnregisterSSTable n sg = (OK, sg\<lparr>sg_level_files := ?L, sg_file_meta_map := al_erase n (sg_file_meta_map sg),
      sg_reader_cache := al_erase n (sg_reader_cache sg)\<rparr>)"
    using Some l(2) by (simp add: UnregisterSSTable_def)
  show ?thesis
    unfolding r metas_ok_def using 1 2 3 D(1,3,4) by (auto simp: map_of_al_erase split: if_splits)
qed

lemma evict_candidate_in:
  "evict_candidate al t c best = Some k \<Longrightarrow> best = Some k \<or> k \<in> fst ` set al"
  by (induction al t c best rule: evict_candidate.induct) (auto split: if_splits)

lemma evict_candidate_keeps: "evict_candidate al t c (Some k) \<noteq> None"
  by (induction al t c "Some k" arbitrary: k rule: evict_candidate.induct) auto

lemma evict_candidate_some:
  assumes "al \<noteq> []" "\<forall>(n, e) \<in> set al. ce_last_access_time e \<noteq> -1"
  shows "evict_candidate al (-1) (-1) None \<noteq> None"
proof -
  obtain n e rest where al: "al = (n, e) # rest" using assms(1) by (cases al) auto
  have "ce_last_access_time e \<noteq> -1" using assms(2) by (simp add: al)
  then have "ce_last_access_time e < -1" by (simp add: word_order.not_eq_extremum)
  moreover have "(of_nat (ce_access_count e) :: u64) < -1 \<or> (of_nat (ce_access_count e) :: u64) = -1"
    using word_order.not_eq_extremum by blast
  ultimately show ?thesis using evict_candidate_keeps by (auto simp: al)
qed

lemma length_al_erase: "distinct (map fst al) \<Longrightarrow> k \<in> fst ` set al \<Longrightarrow> Suc (length (al_erase k al)) = length al"
proof (induction al)
  case (Cons p al)
  show ?case
  proof (cases "fst p = k")
    case True
    then have "al_erase k (p # al) = al"
      using Cons.prems(1) by (cases p) (auto simp: al_erase_def filter_id_conv image_iff)
    then show ?thesis by simp
  next
    case False
    then show ?thesis using Cons by (cases p) (auto simp: al_erase_def)
  qed
qed simp

lemma al_erase_length: "length (al_erase k al) \<le> length al"
  by (simp add: al_erase_def)

lemma Evict_keeps:
  assumes "cache_ok sg"
  shows "cache_ok (EvictLRUReader sg)" "sg_reader_cache sg \<noteq> [] \<Longrightarrow> Suc (length (sg_reader_cache (EvictLRUReader sg))) = length (sg_reader_cache sg)"
    "set (sg_reader_cache (EvictLRUReader sg)) \<subseteq> set (sg_reader_cache sg)"
    "\<exists>c. EvictLRUReader sg = sg\<lparr>sg_reader_cache := c\<rparr>"
proof -
  have c: "distinct (map fst (sg_reader_cache sg))" "\<forall>(n, e) \<in> set (sg_reader_cache sg). ce_last_access_time e \<noteq> -1"
    using assms by (simp_all add: cache_ok_def)
  show "cache_ok (EvictLRUReader sg)"
    using assms order_trans [OF al_erase_length] unfolding cache_ok_def EvictLRUReader_def
    by (auto simp: set_al_erase distinct_al_erase split: option.splits)
  show "set (sg_reader_cache (EvictLRUReader sg)) \<subseteq> set (sg_reader_cache sg)"
    by (auto simp: EvictLRUReader_def set_al_erase split: option.splits)
  show "\<exists>c. EvictLRUReader sg = sg\<lparr>sg_reader_cache := c\<rparr>"
    by (cases "evict_candidate (sg_reader_cache sg) (-1) (-1) None") (auto simp: EvictLRUReader_def intro: exI [of _ "sg_reader_cache sg"])
  assume "sg_reader_cache sg \<noteq> []"
  then obtain k where k: "evict_candidate (sg_reader_cache sg) (-1) (-1) None = Some k"
    using evict_candidate_some c(2) by blast
  then show "Suc (length (sg_reader_cache (EvictLRUReader sg))) = length (sg_reader_cache sg)"
    using length_al_erase [OF c(1)] evict_candidate_in [OF k] by (simp add: EvictLRUReader_def)
qed

lemma al_put_keys: "fst ` set (al_put k v al) = insert k (fst ` set al)"
  by (induction k v al rule: al_put.induct) auto

lemma al_put_distinct: "distinct (map fst al) \<Longrightarrow> distinct (map fst (al_put k v al))"
proof (induction k v al rule: al_put.induct)
  case (2 k v k' v' al)
  then show ?case by (auto simp: al_put_keys)
qed simp

lemma al_put_set: "set (al_put k v al) \<subseteq> insert (k, v) (set al)"
  by (induction k v al rule: al_put.induct) auto

lemma al_put_length: "length (al_put k v al) = (if k \<in> fst ` set al then length al else Suc (length al))"
  by (induction k v al rule: al_put.induct) auto

lemma cache_put:
  assumes "cache_ok sg" "n \<in> dom (map_of (sg_file_meta_map sg))" "ce_last_access_time e \<noteq> -1"
    and "n \<in> fst ` set (sg_reader_cache sg) \<or> length (sg_reader_cache sg) < max 1 (sg_max_open_files sg)"
  shows "cache_ok (sg\<lparr>sg_reader_cache := al_put n e (sg_reader_cache sg)\<rparr>)"
  using assms al_put_set [of n e "sg_reader_cache sg"] unfolding cache_ok_def
  by (auto simp: al_put_keys al_put_distinct al_put_length)

lemma GetReader_cache_ok:
  assumes "cache_ok sg" "clock \<noteq> -1" shows "cache_ok (snd (GetReader cmp fs clock n sg))"
proof (cases "map_of (sg_reader_cache sg) n")
  case (Some e)
  then have "n \<in> fst ` set (sg_reader_cache sg)" by (force dest: map_of_SomeD)
  then show ?thesis
    using cache_put [OF assms(1), of n "e\<lparr>ce_last_access_time := clock, ce_access_count := ce_access_count e + 1\<rparr>"] assms
    by (auto simp: GetReader_def Some cache_ok_def)
next
  case None
  show ?thesis
  proof (cases "LoadReader cmp fs n sg")
    case (Pair s ro)
    show ?thesis
    proof (cases ro)
      case None
      then show ?thesis using assms(1) Pair \<open>map_of (sg_reader_cache sg) n = None\<close> by (simp add: GetReader_def)
    next
      case (Some r)
      let ?sg = "if sg_max_open_files sg \<le> length (sg_reader_cache sg) then EvictLRUReader sg else sg"
      have n: "n \<in> dom (map_of (sg_file_meta_map sg))"
        using Pair Some by (auto simp: LoadReader_def split: option.splits)
      obtain c where c: "EvictLRUReader sg = sg\<lparr>sg_reader_cache := c\<rparr>" using Evict_keeps(4) [OF assms(1)] by blast
      have k: "cache_ok ?sg" using Evict_keeps(1) [OF assms(1)] assms(1) by simp
      have "length (sg_reader_cache ?sg) < max 1 (sg_max_open_files sg)"
      proof (cases "sg_reader_cache sg = []")
        case True
        then have "EvictLRUReader sg = sg" by (simp add: EvictLRUReader_def)
        then show ?thesis using True by simp
      next
        case False
        then show ?thesis using Evict_keeps(2) [OF assms(1) False] assms(1) by (auto simp: cache_ok_def)
      qed
      then have "cache_ok (?sg\<lparr>sg_reader_cache := al_put n \<lparr>ce_reader = r, ce_last_access_time = clock, ce_access_count = 1\<rparr> (sg_reader_cache ?sg)\<rparr>)"
        using n assms(2) c by (intro cache_put [OF k]) auto
      then show ?thesis using Pair Some None by (simp add: GetReader_def Let_def)
    qed
  qed
qed

lemma GetReader_parts:
  assumes "cache_ok sg"
  shows "\<exists>c. snd (GetReader cmp fs clock n sg) = sg\<lparr>sg_reader_cache := c\<rparr>"
proof -
  obtain c where "EvictLRUReader sg = sg\<lparr>sg_reader_cache := c\<rparr>" using Evict_keeps(4) [OF assms] by blast
  moreover have "\<exists>c. sg = sg\<lparr>sg_reader_cache := c\<rparr>" by (rule exI [of _ "sg_reader_cache sg"]) simp
  ultimately show ?thesis by (auto simp: GetReader_def Let_def split: option.splits prod.splits)
qed

lemma erase_cache_ok: "cache_ok sg \<Longrightarrow> cache_ok (sg\<lparr>sg_reader_cache := al_erase n (sg_reader_cache sg)\<rparr>)"
  using order_trans [OF al_erase_length] unfolding cache_ok_def by (auto simp: set_al_erase distinct_al_erase)

lemma Register_cache_ok:
  assumes "metas_ok sg" "cache_ok sg" shows "cache_ok (snd (RegisterSSTable Bytewise_Compare m sg))"
proof (cases "ok (ValidateFileMeta m) \<and> map_of (sg_file_meta_map sg) (sm_file_number m) = None")
  case False
  then show ?thesis using Register_fails [of m sg Bytewise_Compare] assms by fastforce
next
  case True
  then obtain l where l: "l < num_levels" "sm_level m = int l" by (auto simp: Validate_ok)
  note R = Register_result [OF conjunct1 [OF True] conjunct2 [OF True] l(2,1) metas_okD(6) [OF assms(1) l(1)]]
  show ?thesis unfolding R using assms(2) unfolding cache_ok_def by auto
qed

lemma Unregister_cache_ok: "cache_ok sg \<Longrightarrow> cache_ok (snd (UnregisterSSTable n sg))"
  using order_trans [OF al_erase_length] unfolding UnregisterSSTable_def cache_ok_def
  by (auto simp: set_al_erase map_of_al_erase distinct_al_erase Let_def split: option.splits)

section \<open>States of the manager\<close>

text \<open>The operations of the manager as steps, whatever their arguments and outcome, and whatever the
  file system holds. The clock does not reach its largest value.\<close>

inductive manager_step :: "sst_manager \<Rightarrow> sst_manager \<Rightarrow> bool" where
  step_register: "RegisterSSTable Bytewise_Compare meta sg = (s, sg') \<Longrightarrow> manager_step sg sg'"
| step_unregister: "UnregisterSSTable n sg = (s, sg') \<Longrightarrow> manager_step sg sg'"
| step_next: "manager_step sg (SetNextFileNumber n sg)"
| step_reader: "GetReader Bytewise_Compare fs clock n sg = (r, sg') \<Longrightarrow> clock \<noteq> -1 \<Longrightarrow> manager_step sg sg'"
| step_get: "Manager_Get Bytewise_Compare fs clock key snapshot sg = Some (s, v, sg') \<Longrightarrow> clock \<noteq> -1 \<Longrightarrow> manager_step sg sg'"
| step_evict: "manager_step sg (EvictFromCache n sg)"
| step_clear: "manager_step sg (ClearCache sg)"
| step_flush: "Manager_FlushMemTable Bytewise_Compare mt level now sg fs = Some (s, sg', fs') \<Longrightarrow> manager_step sg sg'"
| step_delete: "DeleteObsoleteFiles ns sg fs = (s, sg', fs') \<Longrightarrow> manager_step sg sg'"

inductive_cases manager_stepE: "manager_step sg sg'"

definition manager_ok :: "sst_manager \<Rightarrow> bool" where
  "manager_ok sg \<longleftrightarrow> metas_ok sg \<and> cache_ok sg"

lemma manager_ok_number: "manager_ok (sg\<lparr>sg_next_file_number := n\<rparr>) \<longleftrightarrow> manager_ok sg"
  by (simp add: manager_ok_def metas_ok_def cache_ok_def)

lemma Register_manager_ok:
  assumes "RegisterSSTable Bytewise_Compare meta sg = (s, sg')" "manager_ok sg" shows "manager_ok sg'"
  using Register_metas_ok [of sg meta] Register_cache_ok [of sg meta] assms by (simp add: manager_ok_def)

lemma Unregister_manager_ok:
  assumes "UnregisterSSTable n sg = (s, sg')" "manager_ok sg" shows "manager_ok sg'"
  using Unregister_metas_ok [of sg n] Unregister_cache_ok [of sg n] assms by (simp add: manager_ok_def)

lemma GetReader_manager_ok:
  assumes "GetReader Bytewise_Compare fs clock n sg = (r, sg')" "clock \<noteq> -1" "manager_ok sg" shows "manager_ok sg'"
  using GetReader_cache_ok [of sg clock Bytewise_Compare fs n] GetReader_parts [of sg Bytewise_Compare fs clock n] assms
    metas_ok_parts [of sg' sg] by (auto simp: manager_ok_def)

lemma Get_loop_manager_ok:
  "Manager_Get_loop Bytewise_Compare fs clock key snapshot ns sg = Some (s, v, sg') \<Longrightarrow> clock \<noteq> -1 \<Longrightarrow> manager_ok sg \<Longrightarrow> manager_ok sg'"
proof (induction ns arbitrary: sg)
  case (Cons n ns)
  obtain r sg1 where g: "GetReader Bytewise_Compare fs clock n sg = (r, sg1)" by fastforce
  have 1: "manager_ok sg1" by (rule GetReader_manager_ok [OF g Cons.prems(2,3)])
  show ?case
    using Cons.IH [OF _ Cons.prems(2) 1] Cons.prems(1) 1
    by (cases r) (auto simp: g split: bind_splits if_splits option.splits)
qed simp

lemma Flush_manager_ok:
  assumes "Manager_FlushMemTable Bytewise_Compare mt level now sg fs = Some (s, sg', fs')" "manager_ok sg" shows "manager_ok sg'"
proof (cases mt)
  case None
  then show ?thesis using assms by (simp add: Manager_FlushMemTable_def)
next
  case (Some m)
  let ?sg = "sg\<lparr>sg_next_file_number := sg_next_file_number sg + 1\<rparr>"
  have "manager_ok ?sg" using assms(2) by (simp add: manager_ok_number)
  then show ?thesis
    using assms(1) Register_manager_ok [of _ ?sg]
    by (auto simp: Manager_FlushMemTable_def Some Let_def split: option.splits prod.splits if_splits)
qed

lemma Delete_manager_ok:
  "DeleteObsoleteFiles ns sg fs = (s, sg', fs') \<Longrightarrow> manager_ok sg \<Longrightarrow> manager_ok sg'"
proof (induction ns sg fs rule: DeleteObsoleteFiles.induct)
  case (2 n rest sg fs)
  obtain s1 sg1 where u: "UnregisterSSTable n sg = (s1, sg1)" by fastforce
  have 1: "manager_ok sg1" by (rule Unregister_manager_ok [OF u "2.prems"(2)])
  show ?case using "2.IH"(1) [OF refl u [symmetric] refl] "2.IH"(2) [OF refl u [symmetric] refl] "2.prems"(1) 1
    by (auto simp: u Let_def split: if_splits)
qed simp

lemma manager_step_ok: "manager_step sg sg' \<Longrightarrow> manager_ok sg \<Longrightarrow> manager_ok sg'"
proof (induction rule: manager_step.induct)
  case (step_get fs clock key snapshot sg s v sg')
  then show ?case using Get_loop_manager_ok by (simp add: Manager_Get_def)
next
  case (step_evict sg n)
  then show ?case
    using erase_cache_ok [of sg n] metas_ok_parts [of "EvictFromCache n sg" sg] by (simp add: manager_ok_def EvictFromCache_def)
next
  case (step_clear sg)
  then show ?case using metas_ok_parts [of "ClearCache sg" sg] by (simp add: manager_ok_def ClearCache_def cache_ok_def)
qed (simp_all add: Register_manager_ok Unregister_manager_ok GetReader_manager_ok Flush_manager_ok Delete_manager_ok
    SetNextFileNumber_def manager_ok_number)

lemma new_manager_ok: "manager_ok (SSTableManager n d)"
  by (simp add: manager_ok_def metas_ok_def cache_ok_def SSTableManager_def)

section \<open>Theorems\<close>

text \<open>C20: the invariant of the table manager. In every state the manager's operations can reach,
  whatever the arguments and the file system: there are seven levels; the level lists and the map
  hold the same tables, each on the level its metadata names and under its own number, which is not
  zero; every level is sorted by smallest key; the cache holds only readers of registered tables,
  one each, and no more than \<open>max_open_files\<close> (or one).\<close>

theorem manager_invariant:
  assumes "manager_step\<^sup>*\<^sup>* (SSTableManager max_open_files directory) sg"
  shows "manager_ok sg"
  using assms by (induction rule: rtranclp_induct) (auto simp: new_manager_ok intro: manager_step_ok)

theorem manager_invariant_witness:
  "\<exists>sg. RegisterSSTable Bytewise_Compare ((one_key_meta [97])\<lparr>sm_filename := ''f'', sm_file_number := 3, sm_level := 2\<rparr>)
      (SSTableManager 10 ''d'') = (OK, sg) \<and> manager_ok sg"
proof -
  let ?m = "(one_key_meta [97])\<lparr>sm_filename := ''f'', sm_file_number := 3, sm_level := 2\<rparr>"
  obtain s sg where r: "RegisterSSTable Bytewise_Compare ?m (SSTableManager 10 ''d'') = (s, sg)" by fastforce
  have "s = OK" using r by (simp add: RegisterSSTable_def ValidateFileMeta_def level_index_def SSTableManager_def)
  moreover have "manager_ok sg" by (rule manager_invariant [OF r_into_rtranclp, OF step_register [OF r]])
  ultimately show ?thesis using r by blast
qed

end
