(* ===== verification/SSTableLookups.thy ===== *)
theory SSTableLookups
  imports SSTableManagers
begin

text \<open>
  What a lookup over all levels answers: files that hold what they were written with
  (\<open>table_file\<close>, \<open>tables_ok\<close>), the readers of the cache, the candidates of each level, and the
  newest version among the entries of all tables. Then the flush of a memtable through the manager,
  which puts its table before all others.
\<close>

section \<open>Lookup over good tables\<close>

text \<open>A registered file whose contents are the image of \<open>es\<close>.\<close>

definition table_file :: "fs \<Rightarrow> sst_meta \<Rightarrow> (bytes \<times> bytes) list \<Rightarrow> bool" where
  "table_file fs m es \<longleftrightarrow> (\<exists>opts now. readable_entries opts es (sm_filename m) now \<and>
       map_of (fs_files fs) (sm_filename m) = Some (entries_image opts es (sm_filename m) now)) \<and>
     sorted_wrt (\<lambda>a b. fst a < fst b) es \<and> (\<forall>e \<in> set es. 8 \<le> length (fst e)) \<and> os_allows fs (sm_filename m) \<and>
     sm_smallest_key m = ent_user (hd es) \<and> sm_largest_key m = ent_user (last es)"

lemma MayContain_Get:
  assumes "sr_opened r" "SstReader_Get cmp fs r key snapshot = Some a"
  shows "\<exists>b. SstReader_MayContainKey cmp r key = Some b \<and> (\<not> b \<longrightarrow> a = (OK, None))"
  using assms by (cases "bloom_allows r key") (auto simp: SstReader_Get_def SstReader_MayContainKey_def split: if_splits)

lemma table_file_sorted:
  assumes "table_file fs m es" shows "sorted (map ent_user es)" "es \<noteq> []"
  using assms text_entries_sorted by (auto simp: table_file_def readable_entries_def)

lemma table_file_range:
  assumes "table_file fs m es" "e \<in> set es" shows "sm_smallest_key m \<le> ent_user e" "ent_user e \<le> sm_largest_key m"
  using sorted_bounds [OF table_file_sorted(1) [OF assms(1)] assms(2)] assms(1) by (simp_all add: table_file_def)

lemma table_file_reads:
  assumes "table_file fs m es"
  shows "\<exists>r. SstReader_Open Bytewise_Compare fs (sm_filename m) SSTableReader = (OK, r) \<and> sr_opened r \<and>
    (\<forall>key snapshot. SstReader_Get Bytewise_Compare fs r key snapshot = Some (SstReader_answer (newest_visible es key snapshot)))"
proof -
  obtain opts now where o: "readable_entries opts es (sm_filename m) now"
    "map_of (fs_files fs) (sm_filename m) = Some (entries_image opts es (sm_filename m) now)"
    "sorted_wrt (\<lambda>a b. fst a < fst b) es" "\<forall>e \<in> set es. 8 \<le> length (fst e)" "os_allows fs (sm_filename m)"
    using assms unfolding table_file_def by blast
  note R = entries_image_reads [OF o(1,3,4,2,5)]
  show ?thesis by (rule exI, intro conjI allI, rule R(1), rule opened_reader_parts(2), rule R(2))
qed

lemma table_file_touches:
  assumes "table_file fs m es" "touches f fs fs'" "sm_filename m \<noteq> f" shows "table_file fs' m es"
  using assms os_allows_same [of fs fs'] unfolding table_file_def touches_def by metis

text \<open>\<open>c\<close> gives the entries of each registered file; the cache holds readers of those files.\<close>

definition tables_ok :: "fs \<Rightarrow> sst_manager \<Rightarrow> (u64 \<Rightarrow> (bytes \<times> bytes) list) \<Rightarrow> bool" where
  "tables_ok fs sg c \<longleftrightarrow> (\<forall>n m. map_of (sg_file_meta_map sg) n = Some m \<longrightarrow> table_file fs m (c n)) \<and>
     (\<forall>(n, e) \<in> set (sg_reader_cache sg). \<exists>m. map_of (sg_file_meta_map sg) n = Some m \<and>
        SstReader_Open Bytewise_Compare fs (sm_filename m) SSTableReader = (OK, ce_reader e))"

lemma GetReader_tables:
  assumes "cache_ok sg" "clock \<noteq> -1" "tables_ok fs sg c" "map_of (sg_file_meta_map sg) n = Some m"
  shows "\<exists>r sg'. GetReader Bytewise_Compare fs clock n sg = (Some r, sg') \<and>
    SstReader_Open Bytewise_Compare fs (sm_filename m) SSTableReader = (OK, r) \<and> tables_ok fs sg' c \<and> cache_ok sg' \<and>
    (\<exists>c. sg' = sg\<lparr>sg_reader_cache := c\<rparr>)"
proof -
  let ?open = "\<lambda>n e. \<exists>m. map_of (sg_file_meta_map sg) n = Some m \<and>
    SstReader_Open Bytewise_Compare fs (sm_filename m) SSTableReader = (OK, ce_reader e)"
  have t: "\<forall>(n, e) \<in> set (sg_reader_cache sg). ?open n e" using assms(3) by (simp add: tables_ok_def)
  have T: "tables_ok fs (sg\<lparr>sg_reader_cache := al_put n e c'\<rparr>) c"
    if "set c' \<subseteq> set (sg_reader_cache sg)" "?open n e" for e c'
    using assms(3) that al_put_set [of n e c'] unfolding tables_ok_def by fastforce
  have P: "cache_ok (snd (GetReader Bytewise_Compare fs clock n sg))" "\<exists>c. snd (GetReader Bytewise_Compare fs clock n sg) = sg\<lparr>sg_reader_cache := c\<rparr>"
    using GetReader_cache_ok [OF assms(1,2)] GetReader_parts [OF assms(1)] by blast+
  show ?thesis
  proof (cases "map_of (sg_reader_cache sg) n")
    case (Some e)
    then have e: "?open n e" using t by (auto dest!: map_of_SomeD)
    let ?e = "e\<lparr>ce_last_access_time := clock, ce_access_count := ce_access_count e + 1\<rparr>"
    have g: "GetReader Bytewise_Compare fs clock n sg = (Some (ce_reader e), sg\<lparr>sg_reader_cache := al_put n ?e (sg_reader_cache sg)\<rparr>)"
      using Some by (simp add: GetReader_def)
    show ?thesis using P T [OF order.refl, of ?e] e assms(4) unfolding g by auto
  next
    case None
    have "table_file fs m (c n)" using assms(3,4) by (simp add: tables_ok_def)
    then obtain r where r: "SstReader_Open Bytewise_Compare fs (sm_filename m) SSTableReader = (OK, r)"
      using table_file_reads by blast
    let ?sg = "if sg_max_open_files sg \<le> length (sg_reader_cache sg) then EvictLRUReader sg else sg"
    let ?e = "\<lparr>ce_reader = r, ce_last_access_time = clock, ce_access_count = 1\<rparr>"
    have g: "GetReader Bytewise_Compare fs clock n sg = (Some r, ?sg\<lparr>sg_reader_cache := al_put n ?e (sg_reader_cache ?sg)\<rparr>)"
      using None assms(4) r by (simp add: GetReader_def LoadReader_def Let_def)
    obtain c' where c': "EvictLRUReader sg = sg\<lparr>sg_reader_cache := c'\<rparr>" "set c' \<subseteq> set (sg_reader_cache sg)"
      using Evict_keeps(3,4) [OF assms(1)] by auto
    have "tables_ok fs (?sg\<lparr>sg_reader_cache := al_put n ?e (sg_reader_cache ?sg)\<rparr>) c"
      using T [OF c'(2), of ?e] T [OF order.refl, of ?e] r assms(4) by (simp add: c'(1))
    then show ?thesis using P r unfolding g by auto
  qed
qed

text \<open>The first of some tables that has a version.\<close>

fun search_tables :: "(bytes \<times> bytes) list list \<Rightarrow> bytes \<Rightarrow> u64 \<Rightarrow> (u64 \<times> bytes \<times> bool) option" where
  "search_tables [] key snapshot = None"
| "search_tables (es # rest) key snapshot =
     (case newest_visible es key snapshot of None \<Rightarrow> search_tables rest key snapshot | Some v \<Rightarrow> Some v)"

lemma Manager_Get_loop_spec:
  assumes "cache_ok sg" "clock \<noteq> -1" "tables_ok fs sg c" "set ns \<subseteq> dom (map_of (sg_file_meta_map sg))"
  shows "\<exists>sg'. Manager_Get_loop Bytewise_Compare fs clock key snapshot ns sg =
      Some (fst (SstReader_answer (search_tables (map c ns) key snapshot)),
            snd (SstReader_answer (search_tables (map c ns) key snapshot)), sg') \<and>
    tables_ok fs sg' c \<and> cache_ok sg' \<and> (\<exists>c. sg' = sg\<lparr>sg_reader_cache := c\<rparr>)"
  using assms
proof (induction ns arbitrary: sg)
  case Nil
  have "\<exists>c. sg = sg\<lparr>sg_reader_cache := c\<rparr>" by (rule exI [of _ "sg_reader_cache sg"]) simp
  then show ?case using Nil by (simp add: SstReader_answer_def)
next
  case (Cons n ns)
  obtain m where m: "map_of (sg_file_meta_map sg) n = Some m" using Cons.prems(4) by auto
  obtain r sg' where g: "GetReader Bytewise_Compare fs clock n sg = (Some r, sg')"
    "SstReader_Open Bytewise_Compare fs (sm_filename m) SSTableReader = (OK, r)" "tables_ok fs sg' c" "cache_ok sg'"
    "\<exists>c. sg' = sg\<lparr>sg_reader_cache := c\<rparr>"
    using GetReader_tables [OF Cons.prems(1,2,3) m] by blast
  have "table_file fs m (c n)" using Cons.prems(3) m by (simp add: tables_ok_def)
  then have r: "sr_opened r" "SstReader_Get Bytewise_Compare fs r key snapshot = Some (SstReader_answer (newest_visible (c n) key snapshot))"
    using table_file_reads [of fs m "c n"] g(2) by auto
  obtain b where b: "SstReader_MayContainKey Bytewise_Compare r key = Some b"
    "\<not> b \<longrightarrow> SstReader_answer (newest_visible (c n) key snapshot) = (OK, None)"
    using MayContain_Get [OF r] by blast
  have "set ns \<subseteq> dom (map_of (sg_file_meta_map sg'))" using Cons.prems(4) g(5) by auto
  then obtain sg2 where I: "Manager_Get_loop Bytewise_Compare fs clock key snapshot ns sg' =
      Some (fst (SstReader_answer (search_tables (map c ns) key snapshot)),
            snd (SstReader_answer (search_tables (map c ns) key snapshot)), sg2)"
    "tables_ok fs sg2 c" "cache_ok sg2" "\<exists>c. sg2 = sg'\<lparr>sg_reader_cache := c\<rparr>"
    using Cons.IH [OF g(4) Cons.prems(2) g(3)] by blast
  have sg2: "\<exists>c. sg2 = sg\<lparr>sg_reader_cache := c\<rparr>" using I(4) g(5) by auto
  show ?case
  proof (cases "newest_visible (c n) key snapshot")
    case None
    then have "SstReader_answer (newest_visible (c n) key snapshot) = (OK, None)" by (simp add: SstReader_answer_def)
    then show ?thesis using g(1) b r(2) I sg2 None by (cases b) (auto simp: status_simps)
  next
    case (Some x)
    obtain q v d where x: "x = (q, v, d)" by (cases x)
    then have b1: b using b(2) Some by (auto simp: SstReader_answer_def Deleted_def OK_def mk_status_def split: if_splits)
    have s: "search_tables (map c (n # ns)) key snapshot = Some (q, v, d)" using Some x by simp
    show ?thesis unfolding s using g b(1) b1 r(2) Some x by (cases d) (auto simp: SstReader_answer_def status_simps)
  qed
qed

section \<open>The newest version of all tables\<close>

definition newer_than :: "(bytes \<times> bytes) list \<Rightarrow> (bytes \<times> bytes) list \<Rightarrow> bool" where
  "newer_than a b \<longleftrightarrow> (\<forall>e \<in> set a. \<forall>e' \<in> set b. ent_user e = ent_user e' \<longrightarrow> ent_seq e' < ent_seq e)"

lemma newest_append:
  assumes "newer_than a b"
  shows "newest_visible (a @ b) key snapshot =
    (case newest_visible a key snapshot of None \<Rightarrow> newest_visible b key snapshot | Some v \<Rightarrow> Some v)"
proof (cases "filter (ent_wanted key snapshot) a = []")
  case True
  then have "newest_visible a key snapshot = None" by (simp add: newest_visible_def)
  then show ?thesis using True by (simp add: newest_visible_def)
next
  case False
  let ?a = "filter (ent_wanted key snapshot) a" and ?b = "filter (ent_wanted key snapshot) b"
  define M where "M = Max (ent_seq ` set ?a)"
  have less: "ent_seq y < ent_seq x" if "x \<in> set ?a" "y \<in> set ?b" for x y
    using assms that by (auto simp: newer_than_def ent_wanted_def)
  have "M \<in> ent_seq ` set ?a" unfolding M_def by (rule Max_in) (use False in \<open>simp_all del: set_filter\<close>)
  then obtain x where x: "x \<in> set ?a" "ent_seq x = M" by auto
  have bM: "ent_seq y < M" if "y \<in> set ?b" for y using less [OF x(1) that] x(2) by simp
  have "Max (ent_seq ` set (?a @ ?b)) = M"
  proof (rule Max_eqI)
    show "M \<in> ent_seq ` set (?a @ ?b)" using x by auto
    fix s assume "s \<in> ent_seq ` set (?a @ ?b)"
    then obtain y where y: "s = ent_seq y" "y \<in> set ?a \<or> y \<in> set ?b" by auto
    show "s \<le> M" using y(2)
    proof
      assume "y \<in> set ?a" then show ?thesis unfolding M_def y(1) by (intro Max_ge) auto
    next
      assume "y \<in> set ?b" then show ?thesis unfolding y(1) using bM by (intro less_imp_le) blast
    qed
  qed simp
  moreover have "filter (\<lambda>e. ent_seq e = M) (?a @ ?b) = filter (\<lambda>e. ent_seq e = M) ?a"
    using bM by (auto simp: filter_empty_conv)
  ultimately show ?thesis using False by (simp add: newest_visible_def M_def Let_def)
qed

lemma search_newest:
  "sorted_wrt newer_than ess \<Longrightarrow> search_tables ess key snapshot = newest_visible (concat ess) key snapshot"
proof (induction ess)
  case (Cons es ess)
  have "newer_than es (concat ess)" using Cons.prems by (auto simp: newer_than_def)
  moreover have "search_tables ess key snapshot = newest_visible (concat ess) key snapshot"
    using Cons by simp
  ultimately show ?case using newest_append [of es "concat ess" key snapshot] by (simp split: option.splits)
qed (simp add: newest_visible_def)

text \<open>All tables, in the order a lookup takes them: level 0 by number, the highest first, then the
  other levels.\<close>

definition search_order :: "sst_manager \<Rightarrow> sst_meta list" where
  "search_order sg = (case sg_level_files sg of
     [] \<Rightarrow> [] | l0 # rest \<Rightarrow> rev (sort_key sm_file_number l0) @ concat rest)"

abbreviation meta_entries :: "(u64 \<Rightarrow> (bytes \<times> bytes) list) \<Rightarrow> sst_meta \<Rightarrow> (bytes \<times> bytes) list" where
  "meta_entries c m \<equiv> c (sm_file_number m)"

text \<open>Versions of a key are newer the earlier their table comes, and the tables of a level above 0
  hold disjoint ranges of keys in ascending order.\<close>

definition layered :: "sst_manager \<Rightarrow> (u64 \<Rightarrow> (bytes \<times> bytes) list) \<Rightarrow> bool" where
  "layered sg c \<longleftrightarrow> sorted_wrt newer_than (map (meta_entries c) (search_order sg)) \<and>
     (\<forall>files \<in> set (tl (sg_level_files sg)). sorted_wrt (\<lambda>a b. sm_largest_key a < sm_smallest_key b) files)"

lemma level0_candidates_order:
  "level0_candidates cmp key files = map sm_file_number (filter (\<lambda>m. KeyInRange cmp m key) (rev (sort_key sm_file_number files)))"
proof -
  have "map sm_file_number (sort_key sm_file_number xs) = sort (map sm_file_number xs)" for xs
    by (rule properties_for_sort [symmetric]) simp_all
  from this [of "filter (\<lambda>m. KeyInRange cmp m key) files"] show ?thesis
    by (simp add: level0_candidates_def rev_map [symmetric] rev_filter [symmetric] filter_sort del: rev_map)
qed

lemma level_candidates_filter:
  assumes "sorted_wrt (\<lambda>a b. sm_largest_key a < sm_smallest_key b) files" "\<forall>m \<in> set files. sm_smallest_key m \<le> sm_largest_key m \<and> sm_smallest_key m \<noteq> []"
  shows "level_candidates Bytewise_Compare key files = map sm_file_number (filter (\<lambda>m. KeyInRange Bytewise_Compare m key) files)"
proof -
  have r: "KeyInRange Bytewise_Compare m key \<longleftrightarrow> sm_smallest_key m \<le> key \<and> key \<le> sm_largest_key m" if "m \<in> set files" for m
  proof -
    have "sm_smallest_key m \<noteq> []" "sm_largest_key m \<noteq> []" using assms(2) that by auto
    then show ?thesis by (simp add: KeyInRange_def Bytewise_tests)
  qed
  then have f: "filter (\<lambda>m. KeyInRange Bytewise_Compare m key) files =
      filter (\<lambda>m. sm_smallest_key m \<le> key \<and> key \<le> sm_largest_key m) files" by (rule filter_cong [OF refl])
  have "sorted (map sm_largest_key files)"
    using assms
  proof (induction files)
    case (Cons a files)
    have "sm_largest_key a \<le> sm_largest_key x" if "x \<in> set files" for x
      using Cons.prems that less_imp_le order_trans by fastforce
    then show ?case using Cons by simp
  qed simp
  then have b: "lower_bound (\<lambda>m. sm_largest_key m < key) files = length (takeWhile (\<lambda>m. sm_largest_key m < key) files)"
    by (rule lower_bound_sorted) (rule order.strict_trans1)
  let ?n = "length (takeWhile (\<lambda>m. sm_largest_key m < key) files)"
  have "level_candidates Bytewise_Compare key files =
      (if ?n < length files \<and> sm_smallest_key (files ! ?n) \<le> key \<and> key \<le> sm_largest_key (files ! ?n)
       then [sm_file_number (files ! ?n)] else [])"
    using r [OF nth_mem, of ?n] by (auto simp: level_candidates_def Let_def Bytewise_tests b)
  also have "\<dots> = map sm_file_number (filter (\<lambda>m. sm_smallest_key m \<le> key \<and> key \<le> sm_largest_key m) files)"
    using assms(1)
  proof (induction files)
    case (Cons m files)
    show ?case
    proof (cases "sm_largest_key m < key")
      case True
      then show ?thesis using Cons by auto
    next
      case False
      have "\<not> (sm_smallest_key x \<le> key \<and> key \<le> sm_largest_key x)" if "x \<in> set files" for x
        using that Cons.prems(1) False by (auto simp: not_less)
      then have "filter (\<lambda>m. sm_smallest_key m \<le> key \<and> key \<le> sm_largest_key m) files = []" by (auto simp: filter_empty_conv)
      then show ?thesis using False by (auto simp: not_less)
    qed
  qed simp
  finally show ?thesis unfolding f .
qed

lemma get_candidates_order:
  assumes "\<forall>files \<in> set (tl (sg_level_files sg)). sorted_wrt (\<lambda>a b. sm_largest_key a < sm_smallest_key b) files"
    and "\<forall>files \<in> set (tl (sg_level_files sg)). \<forall>m \<in> set files. sm_smallest_key m \<le> sm_largest_key m \<and> sm_smallest_key m \<noteq> []"
  shows "get_candidates Bytewise_Compare key sg =
    map sm_file_number (filter (\<lambda>m. KeyInRange Bytewise_Compare m key) (search_order sg))"
proof (cases "sg_level_files sg")
  case (Cons l0 rest)
  have "concat (map (level_candidates Bytewise_Compare key) rest) =
      map sm_file_number (filter (\<lambda>m. KeyInRange Bytewise_Compare m key) (concat rest))"
    using assms unfolding Cons by (induction rest) (simp_all add: level_candidates_filter)
  then show ?thesis by (simp add: get_candidates_def search_order_def Cons level0_candidates_order)
qed (simp add: get_candidates_def search_order_def)

lemma set_search_order:
  assumes "metas_ok sg" shows "m \<in> set (search_order sg) \<longleftrightarrow> map_of (sg_file_meta_map sg) (sm_file_number m) = Some m"
proof -
  have "set (search_order sg) = (\<Union>files \<in> set (sg_level_files sg). set files)"
    by (cases "sg_level_files sg") (simp_all add: search_order_def)
  also have "\<dots> = (\<Union>l < num_levels. set (sg_level_files sg ! l))"
    unfolding metas_okD(1) [OF assms, symmetric] by (subst set_conv_nth) auto
  finally have "set (search_order sg) = (\<Union>l < num_levels. set (sg_level_files sg ! l))" .
  then show ?thesis
    using metas_okD(2,4) [OF assms] by (fastforce simp: Validate_ok)
qed

lemma Manager_Get_newest:
  assumes "metas_ok sg" "cache_ok sg" "clock \<noteq> -1" "tables_ok fs sg c" "layered sg c"
  shows "\<exists>sg'. Manager_Get Bytewise_Compare fs clock key snapshot sg =
      Some (fst (SstReader_answer (newest_visible (concat (map (meta_entries c) (search_order sg))) key snapshot)),
            snd (SstReader_answer (newest_visible (concat (map (meta_entries c) (search_order sg))) key snapshot)), sg') \<and>
    tables_ok fs sg' c \<and> cache_ok sg' \<and> (\<exists>c. sg' = sg\<lparr>sg_reader_cache := c\<rparr>)"
proof -
  let ?in = "\<lambda>m. KeyInRange Bytewise_Compare m key" and ?O = "search_order sg"
  let ?ns = "map sm_file_number (filter ?in ?O)"
  have reg: "m \<in> set ?O \<longleftrightarrow> map_of (sg_file_meta_map sg) (sm_file_number m) = Some m" for m by (rule set_search_order [OF assms(1)])
  have tf: "table_file fs m (meta_entries c m)" if "m \<in> set ?O" for m using assms(4) that reg by (simp add: tables_ok_def)
  have ends: "sm_smallest_key m \<le> sm_largest_key m \<and> sm_smallest_key m \<noteq> []" if m: "m \<in> set ?O" for m
  proof -
    have ne: "meta_entries c m \<noteq> []" by (rule table_file_sorted(2) [OF tf [OF m]])
    have "text_key (ent_user (hd (meta_entries c m)))" "sm_smallest_key m = ent_user (hd (meta_entries c m))"
      using tf [OF m] hd_in_set [OF ne] by (auto simp: table_file_def readable_entries_def)
    then show ?thesis using table_file_range [OF tf [OF m] hd_in_set [OF ne]] by (auto simp: text_key_def)
  qed
  have sub: "set files \<subseteq> set ?O" if "files \<in> set (tl (sg_level_files sg))" for files
    using that by (cases "sg_level_files sg") (auto simp: search_order_def)
  have dis: "\<forall>files \<in> set (tl (sg_level_files sg)). sorted_wrt (\<lambda>a b. sm_largest_key a < sm_smallest_key b) files"
    using assms(5) by (simp add: layered_def)
  have cand: "get_candidates Bytewise_Compare key sg = ?ns"
    by (rule get_candidates_order [OF dis]) (use ends sub in blast)
  have srt: "sorted_wrt newer_than (map (meta_entries c) ?O)" using assms(5) by (simp add: layered_def)
  have "sorted_wrt newer_than (map (meta_entries c) (filter ?in ?O))"
    using srt unfolding sorted_wrt_map by (rule sorted_wrt_filter)
  then have 1: "search_tables (map c ?ns) key snapshot = newest_visible (concat (map (meta_entries c) (filter ?in ?O))) key snapshot"
    using search_newest [of "map c ?ns"] by (simp add: o_def)
  have none: "filter (ent_wanted key snapshot) (meta_entries c m) = []" if m: "m \<in> set ?O" "\<not> ?in m" for m
  proof -
    have "\<not> ent_wanted key snapshot e" if e: "e \<in> set (meta_entries c m)" for e
      using table_file_range [OF tf [OF m(1)] e] m(2) by (auto simp: KeyInRange_def Bytewise_tests ent_wanted_def split: if_splits)
    then show ?thesis by (simp add: filter_empty_conv)
  qed
  then have "filter (ent_wanted key snapshot) (concat (map (meta_entries c) (filter ?in ms))) =
      filter (ent_wanted key snapshot) (concat (map (meta_entries c) ms))" if "set ms \<subseteq> set ?O" for ms
    using that by (induction ms) auto
  then have 2: "newest_visible (concat (map (meta_entries c) (filter ?in ?O))) key snapshot =
      newest_visible (concat (map (meta_entries c) ?O)) key snapshot"
    by (intro newest_visible_cong) simp
  have "set ?ns \<subseteq> dom (map_of (sg_file_meta_map sg))" using reg by auto
  then show ?thesis
    using Manager_Get_loop_spec [OF assms(2-4), of ?ns key snapshot] unfolding Manager_Get_def cand 1 2 by blast
qed

section \<open>Flushing through the manager\<close>

lemma written_meta_filename: "\<forall>e \<in> set es. 8 \<le> length (fst e) \<Longrightarrow> sm_filename (written_meta f now es) = f"
proof -
  have "\<forall>e \<in> set ys. 8 \<le> length (fst e) \<Longrightarrow> sm_filename (meta_add x ys) = sm_filename x" for x ys
    by (induction ys rule: rev_induct) (simp_all add: meta_add_snoc UpdateMeta_parsed)
  then show "\<forall>e \<in> set es. 8 \<le> length (fst e) \<Longrightarrow> sm_filename (written_meta f now es) = f" by (simp add: written_meta_def)
qed

lemma sort_key_insert_last:
  assumes "\<forall>x \<in> set files. sm_file_number x < sm_file_number m" "distinct (map sm_file_number files)"
  shows "sort_key sm_file_number (sorted_insert m files) = sort_key sm_file_number files @ [m]"
proof (rule sort_key_inj_key_eq)
  have "mset (sorted_insert m files) = mset (m # files)"
    using arg_cong [OF takeWhile_dropWhile_id [of "\<lambda>a. sm_smallest_key a < sm_smallest_key m" files], of mset]
    by (simp del: takeWhile_dropWhile_id add: sorted_insert_def)
  then show "mset (sorted_insert m files) = mset (sort_key sm_file_number files @ [m])" by simp
  show "inj_on sm_file_number (set (sorted_insert m files))"
    using assms by (auto simp: distinct_map)
  show "sorted (map sm_file_number (sort_key sm_file_number files @ [m]))"
    using assms(1) by (auto simp: sorted_append less_imp_le)
qed

text \<open>Registering a level-0 table under a number above all others puts it first in the order of lookups.\<close>

lemma Register_level0:
  assumes "metas_ok sg" "ok (ValidateFileMeta m)" "sm_level m = 0"
    and "\<forall>n \<in> dom (map_of (sg_file_meta_map sg)). n < sm_file_number m" "sm_file_number m < sg_next_file_number sg"
  shows "\<exists>sg'. RegisterSSTable Bytewise_Compare m sg = (OK, sg') \<and> search_order sg' = m # search_order sg \<and>
    tl (sg_level_files sg') = tl (sg_level_files sg) \<and> map_of (sg_file_meta_map sg') = (map_of (sg_file_meta_map sg))(sm_file_number m \<mapsto> m) \<and>
    sg_reader_cache sg' = sg_reader_cache sg \<and> sg_next_file_number sg' = sg_next_file_number sg \<and>
    sg_max_open_files sg' = sg_max_open_files sg \<and> sg_directory sg' = sg_directory sg"
proof -
  note D = metas_okD [OF assms(1)]
  have z: "sm_level m = int 0" "0 < num_levels" using assms(3) by simp_all
  obtain l0 rest where L: "sg_level_files sg = l0 # rest" using D(1) by (cases "sg_level_files sg") auto
  have n: "map_of (sg_file_meta_map sg) (sm_file_number m) = None" using assms(4) by fastforce
  note R = Register_result [OF assms(2) n z D(6) [OF z(2)]]
  have "\<forall>x \<in> set l0. sm_file_number x < sm_file_number m" using D(2) [OF z(2)] assms(4) by (auto simp: L)
  moreover have "distinct (map sm_file_number l0)" using D(5) [OF z(2)] by (simp add: L)
  ultimately have s: "sort_key sm_file_number (sorted_insert m l0) = sort_key sm_file_number l0 @ [m]" by (rule sort_key_insert_last)
  have "\<not> sg_next_file_number sg \<le> sm_file_number m" using assms(5) by simp
  then show ?thesis unfolding R by (simp add: search_order_def L s)
qed

text \<open>Numbers the manager has not given out yet. File names of tables differ from those to come.\<close>

definition fresh_from :: "sst_manager \<Rightarrow> bool" where
  "fresh_from sg \<longleftrightarrow> sg_next_file_number sg \<noteq> 0 \<and> (\<forall>n \<in> dom (map_of (sg_file_meta_map sg)). n < sg_next_file_number sg)"

lemma flushable_readable:
  assumes "mt_ok Bytewise_Compare mt" "flushable opts mt f now"
  shows "readable_entries opts (sst_entries mt) f now" "\<forall>e \<in> set (sst_entries mt). 8 \<le> length (fst e)"
proof -
  have l: "length (sst_entries mt) = length (table mt)" by (simp add: sst_entries_def mem_entries_def)
  then have "sst_entries mt \<noteq> []" using assms(2) by (auto simp: flushable_def)
  moreover have "8 \<le> length (fst e) \<and> ent_type e \<le> 3" if "e \<in> set (sst_entries mt)" for e
    using mem_entries_keys [OF assms(1), of "fst e" "snd e"] that by (auto simp: value_types)
  ultimately show "readable_entries opts (sst_entries mt) f now" "\<forall>e \<in> set (sst_entries mt). 8 \<le> length (fst e)"
    using assms(2) by (simp_all add: readable_entries_def flushable_def l)
qed

lemma touches_Reader_Open:
  assumes "touches f fs fs'" "g \<noteq> f" "table_file fs m es" "sm_filename m = g"
  shows "SstReader_Open Bytewise_Compare fs' g SSTableReader = SstReader_Open Bytewise_Compare fs g SSTableReader"
proof -
  obtain opts now where o: "readable_entries opts es g now" "map_of (fs_files fs) g = Some (entries_image opts es g now)"
    "sorted_wrt (\<lambda>a b. fst a < fst b) es" "\<forall>e \<in> set es. 8 \<le> length (fst e)" "os_allows fs g"
    using assms(3,4) unfolding table_file_def by blast
  have 1: "map_of (fs_files fs') g = Some (entries_image opts es g now)" "os_allows fs' g"
    using assms(1,2) o(2,5) os_allows_same [of fs fs' g] by (simp_all add: touches_def)
  show ?thesis using entries_image_reads(1) [OF o(1,3,4,2,5)] entries_image_reads(1) [OF o(1,3,4) 1] by simp
qed

lemma GenerateFileName_number: "GenerateFileName n l (sg\<lparr>sg_next_file_number := k\<rparr>) = GenerateFileName n l sg"
  by (simp add: GenerateFileName_def Let_def)

lemma tables_ok_cached:
  "tables_ok fs sg c \<Longrightarrow> (k, e) \<in> set (sg_reader_cache sg) \<Longrightarrow>
   \<exists>x. map_of (sg_file_meta_map sg) k = Some x \<and> SstReader_Open Bytewise_Compare fs (sm_filename x) SSTableReader = (OK, ce_reader e)"
  unfolding tables_ok_def by blast

lemma Manager_flush:
  assumes M: "metas_ok sg" "cache_ok sg" "tables_ok fs sg c" "fresh_from sg" "sg_next_file_number sg \<noteq> -1"
    and f: "f = GenerateFileName (sg_next_file_number sg) 0 sg" "f \<notin> sm_filename ` ran (map_of (sg_file_meta_map sg))"
    and mt: "mt_ok Bytewise_Compare mt" "flushable compactor_options mt f now" "os_allows fs f"
  shows "\<exists>sg' fs' m. Manager_FlushMemTable Bytewise_Compare (Some mt) 0 now sg fs = Some (OK, sg', fs') \<and>
    search_order sg' = m # search_order sg \<and> sm_file_number m = sg_next_file_number sg \<and> sm_filename m = f \<and>
    tl (sg_level_files sg') = tl (sg_level_files sg) \<and> sg_max_open_files sg' = sg_max_open_files sg \<and> sg_directory sg' = sg_directory sg \<and>
    sg_next_file_number sg' = sg_next_file_number sg + 1 \<and> sg_reader_cache sg' = sg_reader_cache sg \<and>
    metas_ok sg' \<and> cache_ok sg' \<and> tables_ok fs' sg' (c(sg_next_file_number sg := sst_entries mt)) \<and> fresh_from sg' \<and> touches f fs fs'"
proof -
  let ?n = "sg_next_file_number sg" and ?sg = "sg\<lparr>sg_next_file_number := sg_next_file_number sg + 1\<rparr>" and ?es = "sst_entries mt"
  obtain m fs' where run: "Compactor_FlushMemTable Bytewise_Compare compactor_options (Some mt) f 0 now fs = Some (OK, m, fs')"
    using flush_succeeds [OF mt(1,3)] by blast
  have ne: "table mt \<noteq> []" using mt(2) by (simp add: flushable_def)
  note I = flush_image [OF mt(1) ne run ok_OK]
  note rd = flushable_readable [OF mt(1,2)]
  let ?m = "(the m)\<lparr>sm_file_number := ?n\<rparr>"
  have m8: "\<forall>e \<in> set ?es. 8 \<le> length (fst e) \<and> ent_user e \<noteq> []" using rd by (auto simp: readable_entries_def text_key_def)
  have es: "?es \<noteq> []" using rd(1) by (simp add: readable_entries_def)
  have fne: "f \<noteq> []" unfolding f(1) by (simp add: GenerateFileName_def Let_def)
  have mm: "sm_filename ?m = f" "sm_file_number ?m = ?n" "sm_level ?m = 0"
    "sm_smallest_key ?m = ent_user (hd ?es)" "sm_largest_key ?m = ent_user (last ?es)"
    using meta_add_smallest [OF m8 es] meta_add_largest [OF rd(2) es] written_meta_filename [OF rd(2)]
    by (simp_all add: I(4) written_meta_def SSTableMeta_new_def)
  have v: "ok (ValidateFileMeta ?m)" using M(4) fne by (simp add: Validate_ok mm fresh_from_def)
  have Ms: "metas_ok ?sg" "cache_ok ?sg" using M(1,2) by (simp_all add: metas_ok_def cache_ok_def)
  have n1: "1 + ?n \<noteq> 0" using M(5) by (simp add: add.commute eq_neg_iff_add_eq_0)
  have lt: "?n < ?n + 1" using unatSuc [OF n1] by (simp add: word_less_nat_alt add.commute)
  obtain sg' where R: "RegisterSSTable Bytewise_Compare ?m ?sg = (OK, sg')" "search_order sg' = ?m # search_order ?sg"
    "tl (sg_level_files sg') = tl (sg_level_files ?sg)" "map_of (sg_file_meta_map sg') = (map_of (sg_file_meta_map ?sg))(sm_file_number ?m \<mapsto> ?m)"
    "sg_reader_cache sg' = sg_reader_cache ?sg" "sg_next_file_number sg' = sg_next_file_number ?sg"
    "sg_max_open_files sg' = sg_max_open_files ?sg" "sg_directory sg' = sg_directory ?sg"
    using Register_level0 [OF Ms(1) v mm(3)] M(4) lt by (auto simp: mm fresh_from_def)
  have ok': "metas_ok sg'" "cache_ok sg'"
    using Register_metas_ok [OF Ms(1), of ?m] Register_cache_ok [OF Ms, of ?m] by (simp_all add: R(1))
  have nn: "?n \<notin> dom (map_of (sg_file_meta_map sg))" using M(4) by (auto simp: fresh_from_def)
  have os': "os_allows fs' f" using os_allows_same [OF _ mt(3)] I(3) by (simp add: touches_def)
  have new: "table_file fs' ?m ?es"
    unfolding table_file_def mm using rd I(1) os' sst_entries_ascending [OF mt(1)] by blast
  have old: "table_file fs' x (c k)" if "map_of (sg_file_meta_map sg) k = Some x" for k x
  proof (rule table_file_touches [OF _ I(3)])
    show "table_file fs x (c k)" using M(3) that by (simp add: tables_ok_def)
    show "sm_filename x \<noteq> f" using f(2) that by (auto simp: ran_def)
  qed
  have opn: "SstReader_Open Bytewise_Compare fs' (sm_filename x) SSTableReader = SstReader_Open Bytewise_Compare fs (sm_filename x) SSTableReader"
    if "map_of (sg_file_meta_map sg) k = Some x" for k x
    by (rule touches_Reader_Open [OF I(3) _ _ refl]) (use f(2) that M(3) in \<open>auto simp: ran_def tables_ok_def\<close>)
  have cch: "\<exists>x. map_of (sg_file_meta_map sg') k = Some x \<and> SstReader_Open Bytewise_Compare fs' (sm_filename x) SSTableReader = (OK, ce_reader e)"
    if ke: "(k, e) \<in> set (sg_reader_cache sg)" for k e
  proof -
    obtain x where x: "map_of (sg_file_meta_map sg) k = Some x" "SstReader_Open Bytewise_Compare fs (sm_filename x) SSTableReader = (OK, ce_reader e)"
      using tables_ok_cached [OF M(3) ke] by blast
    have "k \<noteq> ?n" using x(1) nn by auto
    then show ?thesis using x opn [OF x(1)] by (simp add: R(4) mm)
  qed
  have "tables_ok fs' sg' (c(?n := ?es))"
    unfolding tables_ok_def R(4,5) using new old cch nn R(4) by (auto simp: mm split: if_splits)
  moreover have "fresh_from sg'"
    using M(4) lt n1 order.strict_trans [OF _ lt] unfolding fresh_from_def R(4,6) by (auto simp: mm add.commute)
  moreover have "Manager_FlushMemTable Bytewise_Compare (Some mt) 0 now sg fs = Some (OK, sg', fs')"
    using run R(1) by (simp add: Manager_FlushMemTable_def Let_def GenerateFileName_number f(1) [symmetric])
  ultimately show ?thesis using R(2,3,5-8) ok' I(3) mm(1,2)
    by (intro exI [of _ sg'] exI [of _ fs'] exI [of _ ?m]) (simp add: search_order_def)
qed

text \<open>Under the compactor's options a memtable of less than a block can always be flushed.\<close>

lemma default_bloom_length:
  assumes "length es < 2 ^ 32" shows "length (bloom_data compactor_options es) \<le> 30 + 2 * length es"
proof (cases "es = []")
  case False
  let ?n = "length es"
  have "unat (of_nat (?n * 10) + 7 :: u64) = ?n * 10 + 7"
    using assms unat_of_nat64 [of "?n * 10 + 7"] by simp
  then have "bloom_bytes (of_nat (?n * 10)) = (?n * 10 + 7) div 8" by (simp add: bloom_bytes_def unat_div del: of_nat_mult)
  then show ?thesis
    using False by (simp add: bloom_data_def compactor_options_def Builder_Finish_def Serialize_fields StandardBloomFilter_def
        default_bloom_def Let_def del: of_nat_mult)
qed (simp add: bloom_data_def Builder_Finish_def)

lemma entries_bound_length: "10 * length es \<le> entries_bound es"
  by (induction es) (simp_all add: entries_bound_def)

lemma flushable_default:
  assumes "mt_ok Bytewise_Compare mt" "table mt \<noteq> []" "\<forall>e \<in> set (mem_entries mt). text_key (ent_user e)"
    and "entries_bound (mem_entries mt) < 64 * 1024" "length f < 2 ^ 20"
  shows "flushable compactor_options mt f now"
proof (rule flushable_small [OF assms(1-3)])
  have l: "length (sst_entries mt) = length (table mt)" "length (mem_entries mt) = length (table mt)"
    by (simp_all add: sst_entries_def mem_entries_def)
  then have n: "10 * length (table mt) < 64 * 1024" using entries_bound_length [of "mem_entries mt"] assms(4) by simp
  show "entries_bound (mem_entries mt) < wo_block_size compactor_options" using assms(4) by (simp add: compactor_options_def)
  show "4 * entries_bound (mem_entries mt) + length f + length (bloom_data compactor_options (sst_entries mt)) + 300 < 2 ^ 32"
    using default_bloom_length [of "sst_entries mt"] assms(4,5) l n by simp
  show "wo_enable_bloom_filter compactor_options \<longrightarrow> bloom_params_ok (wo_bloom compactor_options) (length (table mt))"
    using default_bloom_ok [of "length (table mt)"] n assms(2) by (simp add: compactor_options_def)
qed


text \<open>A manager whose one table is the flushed example.\<close>

lemma search_order_new: "search_order (SSTableManager n d) = []" "tl (sg_level_files (SSTableManager n d)) = replicate 6 []"
  by (simp_all add: search_order_def SSTableManager_def numeral_eq_Suc)

lemma example_newest: "newest_visible (sst_entries example_table) [97] 0 = Some (7, [20], False)"
proof -
  have "newest_visible (sst_entries (mem_run Bytewise_Compare [WPut [97] [10] 5, WDelete [98] 6, WPut [97] [20] 7]
      (MemTable_new 0 100 50 \<lparr>write_buffer_size = 1, max_write_buffer_number = 2\<rparr>))) (op_key (WPut [97] [20] 7)) 0 =
    Some (op_seq (WPut [97] [20] 7), snd (op_version (WPut [97] [20] 7)), fst (op_version (WPut [97] [20] 7)) = kDeletion)"
    by (rule flushed_history [where xs = "[WPut [97] [10] 5, WDelete [98] 6]" and ys = "[]"])
      (simp_all add: take_bit_eq_mod visible_at_def)
  then show ?thesis by (simp add: value_types)
qed

lemma example_flush:
  "\<exists>sg fs m. Manager_FlushMemTable Bytewise_Compare (Some example_table) 0 1000 (SSTableManager 10 ''d'') example_fs = Some (OK, sg, fs) \<and>
     manager_ok sg \<and> tables_ok fs sg ((\<lambda>_. [])(1 := sst_entries example_table)) \<and>
     search_order sg = [m] \<and> sm_file_number m = 1 \<and> layered sg ((\<lambda>_. [])(1 := sst_entries example_table))"
proof -
  let ?sg = "SSTableManager 10 ''d''"
  have e: "mem_entries example_table = [(InternalKey [97] 7 kValue, [20]), (InternalKey [97] 5 kValue, [10]), (InternalKey [98] 6 kDeletion, [])]"
    by (simp add: mem_entries_def mem_run_def MemTable_new_def MemTable_Put_def MemTable_Delete_def MemTable_CreateEntry_def Let_def
        Compare_InternalKey Bytewise_Compare_lex seq_type_cmp_def)
  then have ne: "table example_table \<noteq> []" by (auto simp: mem_entries_def)
  have ok: "mt_ok Bytewise_Compare example_table" by (rule bytewise_user.run_ok [OF MemTable_new_ok])
  define f where "f = GenerateFileName (sg_next_file_number ?sg) 0 ?sg"
  have len: "length f < 2 ^ 20" by (simp add: f_def GenerateFileName_def SSTableManager_def to_string.simps)
  have n: "sg_next_file_number ?sg = 1" by (simp add: SSTableManager_def)
  have h: "metas_ok ?sg" "cache_ok ?sg" "tables_ok example_fs ?sg (\<lambda>_. [])" "fresh_from ?sg" "sg_next_file_number ?sg \<noteq> -1"
    "f \<notin> sm_filename ` ran (map_of (sg_file_meta_map ?sg))" "os_allows example_fs f"
    using new_manager_ok [of 10 "''d''"] by (simp_all add: manager_ok_def tables_ok_def fresh_from_def SSTableManager_def os_allows_def)
  have fl: "flushable compactor_options example_table f 1000"
    by (rule flushable_default [OF ok ne, unfolded e]) (use len in \<open>simp_all add: text_key_def entries_bound_def\<close>)
  obtain sg fs m where F: "Manager_FlushMemTable Bytewise_Compare (Some example_table) 0 1000 ?sg example_fs = Some (OK, sg, fs)"
    "search_order sg = m # search_order ?sg" "sm_file_number m = sg_next_file_number ?sg" "tl (sg_level_files sg) = tl (sg_level_files ?sg)"
    "metas_ok sg" "cache_ok sg" "tables_ok fs sg ((\<lambda>_. [])(sg_next_file_number ?sg := sst_entries example_table))"
    using Manager_flush [OF h(1-5) f_def h(6) ok fl h(7)] by blast
  have "layered sg ((\<lambda>_. [])(1 := sst_entries example_table))"
    by (simp add: layered_def F(2,4) search_order_new)
  then show ?thesis using F unfolding n by (auto simp: search_order_new manager_ok_def)
qed

section \<open>Theorems\<close>



end
