(* ===== verification/LsmTrees.thy ===== *)
theory LsmTrees
  imports SSTableLookups
begin

text \<open>
  \<open>LSMTree\<close> (src/storage/lsm_tree.cc): the engine over the memtables and the table manager. Its
  locks make each operation atomic. It is opened without a background manager: the two periodic
  tasks are operations of their own, which may come at any time. Time and the file system are
  arguments; \<open>None\<close> is the Bloom filter's division by zero or fuel that ran out. The managers
  exist from \<open>Open\<close> to \<open>Close\<close>, and operations that use them test \<open>opened_\<close> first; the
  memtable manager always has a mutable table.
\<close>

section \<open>Options\<close>

record lsm_options =
  lo_memtable_size :: nat
  lo_max_memtables :: nat
  lo_l0_compaction_trigger :: nat
  lo_l0_slowdown_writes_trigger :: nat
  lo_l0_stop_writes_trigger :: nat
  lo_level_multiplier :: nat
  lo_max_bytes_for_level_base :: nat
  lo_enable_auto_compaction :: bool
  lo_max_background_compactions :: nat
  lo_max_background_flushes :: nat
  lo_sync_writes :: bool
  lo_disable_wal :: bool
  lo_db_path :: string

definition LSMTreeOptions :: lsm_options where
  "LSMTreeOptions =
     \<lparr>lo_memtable_size = 64 * 1024 * 1024, lo_max_memtables = 4,
      lo_l0_compaction_trigger = 4, lo_l0_slowdown_writes_trigger = 8, lo_l0_stop_writes_trigger = 12,
      lo_level_multiplier = 10, lo_max_bytes_for_level_base = 256 * 1024 * 1024,
      lo_enable_auto_compaction = True, lo_max_background_compactions = 2, lo_max_background_flushes = 1,
      lo_sync_writes = False, lo_disable_wal = False, lo_db_path = ''./db''\<rparr>"

definition ValidateOptions :: "lsm_options \<Rightarrow> status" where
  "ValidateOptions o' =
     (if lo_memtable_size o' = 0 then InvalidArgument ''MemTable size cannot be zero''
      else if lo_max_memtables o' < 2 then InvalidArgument ''Max MemTables must be at least 2''
      else if lo_l0_compaction_trigger o' = 0 then InvalidArgument ''L0 compaction trigger cannot be zero''
      else if lo_l0_slowdown_writes_trigger o' \<le> lo_l0_compaction_trigger o'
      then InvalidArgument ''L0 slowdown trigger must be greater than compaction trigger''
      else if lo_l0_stop_writes_trigger o' \<le> lo_l0_slowdown_writes_trigger o'
      then InvalidArgument ''L0 stop trigger must be greater than slowdown trigger''
      else if lo_level_multiplier o' < 2 then InvalidArgument ''Level multiplier must be at least 2''
      else if lo_max_bytes_for_level_base o' = 0 then InvalidArgument ''Max bytes for level base cannot be zero''
      else if lo_db_path o' = [] then InvalidArgument ''Database path cannot be empty''
      else OK)"

section \<open>State\<close>

record recovery_stats =
  rs_records :: u64
  rs_puts :: u64
  rs_deletes :: u64
  rs_errors :: u64

record lsm_tree =
  lt_options :: lsm_options
  lt_opened :: bool
  lt_in_recovery_mode :: bool
  lt_next_sequence :: u64
  lt_recovery_sequence :: u64
  lt_write_slowdown :: bool
  lt_write_stop :: bool
  lt_num_puts :: u64
  lt_num_gets :: u64
  lt_num_deletes :: u64
  lt_num_flushes :: u64
  lt_num_compactions :: u64
  lt_memtables :: memtable_manager
  lt_sstables :: sst_manager
  lt_current_memtable :: "memtable option"
  lt_recovery_stats :: recovery_stats

text \<open>\<open>mm\<close> and \<open>sg\<close> stand for the managers a closed tree does not have.\<close>

definition LSMTree :: "memtable_manager \<Rightarrow> sst_manager \<Rightarrow> lsm_options \<Rightarrow> lsm_tree" where
  "LSMTree mm sg options =
     \<lparr>lt_options = options, lt_opened = False, lt_in_recovery_mode = False, lt_next_sequence = 1,
      lt_recovery_sequence = 0, lt_write_slowdown = False, lt_write_stop = False, lt_num_puts = 0, lt_num_gets = 0,
      lt_num_deletes = 0, lt_num_flushes = 0, lt_num_compactions = 0, lt_memtables = mm, lt_sstables = sg,
      lt_current_memtable = None,
      lt_recovery_stats = \<lparr>rs_records = 0, rs_puts = 0, rs_deletes = 0, rs_errors = 0\<rparr>\<rparr>"

definition active_memtable :: "lsm_tree \<Rightarrow> memtable" where
  "active_memtable t = the (mutable_memtable (lt_memtables t))"

definition set_active :: "memtable \<Rightarrow> lsm_tree \<Rightarrow> lsm_tree" where
  "set_active mt t = t\<lparr>lt_memtables := (lt_memtables t)\<lparr>mutable_memtable := Some mt\<rparr>\<rparr>"

abbreviation num_immutable :: "lsm_tree \<Rightarrow> nat" where
  "num_immutable t \<equiv> length (immutable_memtables (lt_memtables t))"

section \<open>Writing\<close>

datatype write_status = kWriteOK | kMemTableFull | kSlowdown | kStop

definition CheckWriteConditions :: "lsm_tree \<Rightarrow> write_status" where
  "CheckWriteConditions t =
     (if \<not> lt_opened t then kStop
      else if lt_write_stop t then kStop
      else let l0 = length (GetLevelFiles 0 (lt_sstables t)) in
        if lo_l0_stop_writes_trigger (lt_options t) \<le> l0 then kStop
        else if lo_l0_slowdown_writes_trigger (lt_options t) \<le> l0 \<or> lt_write_slowdown t then kSlowdown
        else if (int (lo_max_memtables (lt_options t)) - 1) mod 2 ^ 64 \<le> int (num_immutable t) then kSlowdown
        else kWriteOK)"

definition GetNextSequenceNumber :: "lsm_tree \<Rightarrow> u64 \<times> lsm_tree" where
  "GetNextSequenceNumber t = (lt_next_sequence t, t\<lparr>lt_next_sequence := lt_next_sequence t + 1\<rparr>)"

definition MakeMemTableImmutable :: "lsm_tree \<Rightarrow> status \<times> lsm_tree" where
  "MakeMemTableImmutable t =
     (let (s, mm) = MemTableManager_SwitchMemTable (lt_memtables t) in (s, t\<lparr>lt_memtables := mm\<rparr>))"

text \<open>What \<open>PutLocked\<close>, \<open>DeleteLocked\<close> and \<open>MergeLocked\<close> share: a sequence number unless the
  caller gives one, a fresh table if the active one is full, the write, the statistics.\<close>

definition write_locked ::
    "(u64 \<Rightarrow> memtable \<Rightarrow> status \<times> memtable) \<Rightarrow> (lsm_tree \<Rightarrow> lsm_tree) \<Rightarrow> u64 \<Rightarrow> lsm_tree \<Rightarrow> status \<times> lsm_tree" where
  "write_locked write counted sequence t =
     (let (sequence, t) = (if sequence = 0 then GetNextSequenceNumber t else (sequence, t));
          (s, t) = (if MemTableManager_ShouldSwitchMemTable (lt_memtables t) then MakeMemTableImmutable t else (OK, t))
      in if \<not> ok s then (s, t)
         else let (s, mt) = write sequence (active_memtable t); t = set_active mt t
              in (s, if ok s then counted t else t))"

definition count_put :: "lsm_tree \<Rightarrow> lsm_tree" where
  "count_put t = t\<lparr>lt_num_puts := lt_num_puts t + 1\<rparr>"

definition count_delete :: "lsm_tree \<Rightarrow> lsm_tree" where
  "count_delete t = t\<lparr>lt_num_deletes := lt_num_deletes t + 1\<rparr>"

definition PutLocked :: "(bytes \<Rightarrow> bytes \<Rightarrow> int) \<Rightarrow> bytes \<Rightarrow> bytes \<Rightarrow> u64 \<Rightarrow> lsm_tree \<Rightarrow> status \<times> lsm_tree" where
  "PutLocked cmp key value = write_locked (\<lambda>sequence mt. MemTable_Put cmp mt key value sequence) count_put"

definition DeleteLocked :: "(bytes \<Rightarrow> bytes \<Rightarrow> int) \<Rightarrow> bytes \<Rightarrow> u64 \<Rightarrow> lsm_tree \<Rightarrow> status \<times> lsm_tree" where
  "DeleteLocked cmp key = write_locked (\<lambda>sequence mt. MemTable_Delete cmp mt key sequence) count_delete"

definition MergeLocked :: "(bytes \<Rightarrow> bytes \<Rightarrow> int) \<Rightarrow> bytes \<Rightarrow> bytes \<Rightarrow> u64 \<Rightarrow> lsm_tree \<Rightarrow> status \<times> lsm_tree" where
  "MergeLocked cmp key value = write_locked (\<lambda>sequence mt. MemTable_Merge cmp mt key value sequence) count_put"

text \<open>The public writes. A slowdown waits up to 100 ms with the lock released and then goes on in
  any case: operations of other threads in that time come before this one.\<close>

definition public_write :: "(lsm_tree \<Rightarrow> status \<times> lsm_tree) \<Rightarrow> lsm_tree \<Rightarrow> status \<times> lsm_tree" where
  "public_write locked t =
     (if \<not> lt_opened t then (InvalidArgument ''LSMTree not opened'', t)
      else if CheckWriteConditions t = kStop then (IOError ''Write stopped due to too many L0 files'', t)
      else locked t)"

definition LSMTree_Put :: "(bytes \<Rightarrow> bytes \<Rightarrow> int) \<Rightarrow> bytes \<Rightarrow> bytes \<Rightarrow> u64 \<Rightarrow> lsm_tree \<Rightarrow> status \<times> lsm_tree" where
  "LSMTree_Put cmp key value sequence = public_write (PutLocked cmp key value sequence)"

definition LSMTree_Delete :: "(bytes \<Rightarrow> bytes \<Rightarrow> int) \<Rightarrow> bytes \<Rightarrow> u64 \<Rightarrow> lsm_tree \<Rightarrow> status \<times> lsm_tree" where
  "LSMTree_Delete cmp key sequence = public_write (DeleteLocked cmp key sequence)"

definition LSMTree_Merge :: "(bytes \<Rightarrow> bytes \<Rightarrow> int) \<Rightarrow> bytes \<Rightarrow> bytes \<Rightarrow> u64 \<Rightarrow> lsm_tree \<Rightarrow> status \<times> lsm_tree" where
  "LSMTree_Merge cmp key value sequence = public_write (MergeLocked cmp key value sequence)"

definition SetWriteLimit :: "bool \<Rightarrow> bool \<Rightarrow> lsm_tree \<Rightarrow> lsm_tree" where
  "SetWriteLimit slowdown stop t = t\<lparr>lt_write_slowdown := slowdown, lt_write_stop := stop\<rparr>"

section \<open>Reading\<close>

text \<open>The caller's buffer is \<open>value\<close>. The result is the status, the buffer and \<open>found\<close>.\<close>

fun immutables_Get :: "(bytes \<Rightarrow> bytes \<Rightarrow> int) \<Rightarrow> memtable list \<Rightarrow> bytes \<Rightarrow> bytes \<Rightarrow> u64 \<Rightarrow> status \<times> bytes \<times> bool" where
  "immutables_Get cmp [] key value snapshot = (OK, value, False)"
| "immutables_Get cmp (mt # mts) key value snapshot =
     (let (found, value', st) = MemTable_Get cmp mt key (Some value) (Some OK) snapshot; s = the st; value = the value' in
      if IsDeleted s then (s, value, False)
      else if \<not> ok s \<and> \<not> IsNotFound s \<and> \<not> IsMergeInProgress s then (s, value, False)
      else if found then (s, value, True)
      else immutables_Get cmp mts key value snapshot)"

definition GetFromMemTables :: "(bytes \<Rightarrow> bytes \<Rightarrow> int) \<Rightarrow> bytes \<Rightarrow> bytes \<Rightarrow> u64 \<Rightarrow> lsm_tree \<Rightarrow> status \<times> bytes \<times> bool" where
  "GetFromMemTables cmp key value snapshot t =
     (let (found, value', st) = MemTable_Get cmp (active_memtable t) key (Some value) (Some OK) snapshot; s = the st; value = the value' in
      if IsDeleted s then (s, value, False)
      else if \<not> ok s \<and> \<not> IsNotFound s \<and> \<not> IsMergeInProgress s then (s, value, False)
      else if found then (OK, value, True)
      else immutables_Get cmp (rev (immutable_memtables (lt_memtables t))) key value snapshot)"

definition GetFromSSTables ::
    "(bytes \<Rightarrow> bytes \<Rightarrow> int) \<Rightarrow> fs \<Rightarrow> u64 \<Rightarrow> bytes \<Rightarrow> bytes \<Rightarrow> u64 \<Rightarrow> bool \<Rightarrow> lsm_tree
     \<Rightarrow> (status \<times> bytes \<times> bool \<times> lsm_tree) option" where
  "GetFromSSTables cmp fs clock key value snapshot found t = do {
     (s, result, sg) \<leftarrow> Manager_Get cmp fs clock key snapshot (lt_sstables t);
     Some (s, (case result of Some v \<Rightarrow> v | None \<Rightarrow> value), found \<or> (ok s \<and> result \<noteq> None), t\<lparr>lt_sstables := sg\<rparr>) }"

definition LSMTree_Get ::
    "(bytes \<Rightarrow> bytes \<Rightarrow> int) \<Rightarrow> fs \<Rightarrow> u64 \<Rightarrow> bytes \<Rightarrow> bytes \<Rightarrow> u64 \<Rightarrow> lsm_tree \<Rightarrow> (status \<times> bytes \<times> lsm_tree) option" where
  "LSMTree_Get cmp fs clock key value snapshot t =
     (if \<not> lt_opened t then Some (InvalidArgument ''LSMTree not opened'', value, t)
      else let t = t\<lparr>lt_num_gets := lt_num_gets t + 1\<rparr>;
               (s, value, found) = GetFromMemTables cmp key value snapshot t in
        if IsDeleted s then Some (NotFound ''Key was deleted'', value, t)
        else if \<not> ok s \<and> \<not> IsNotFound s \<and> \<not> IsMergeInProgress s then Some (s, value, t)
        else do {
          (s, value, found, t) \<leftarrow> GetFromSSTables cmp fs clock key value snapshot found t;
          Some (if IsDeleted s then NotFound ''Key was deleted''
                else if \<not> ok s then s
                else if \<not> found then NotFound ''Key not found'' else OK, value, t) })"

section \<open>Flushing\<close>

definition DoFlushMemTable ::
    "(bytes \<Rightarrow> bytes \<Rightarrow> int) \<Rightarrow> memtable \<Rightarrow> u64 \<Rightarrow> lsm_tree \<Rightarrow> fs \<Rightarrow> (status \<times> lsm_tree \<times> fs) option" where
  "DoFlushMemTable cmp mt now t fs =
     (if MemTable_Empty mt then Some (OK, t, fs)
      else do {
        (s, sg, fs) \<leftarrow> Manager_FlushMemTable cmp (Some mt) 0 now (lt_sstables t) fs;
        Some (s, t\<lparr>lt_sstables := sg\<rparr>, fs) })"

definition FlushOldestMemTable ::
    "(bytes \<Rightarrow> bytes \<Rightarrow> int) \<Rightarrow> u64 \<Rightarrow> lsm_tree \<Rightarrow> fs \<Rightarrow> (status \<times> lsm_tree \<times> fs) option" where
  "FlushOldestMemTable cmp now t fs =
     (if \<not> lt_opened t then Some (InvalidArgument ''LSMTree not opened'', t, fs)
      else case GetMemTableForFlush (lt_memtables t) of
        None \<Rightarrow> Some (OK, t, fs)
      | Some mt \<Rightarrow> do {
          (s, t, fs) \<leftarrow> DoFlushMemTable cmp mt now t fs;
          Some (s, if ok s then t\<lparr>lt_memtables := snd (CompleteFlushedMemTable (lt_memtables t) (mt_id mt)),
                                  lt_num_flushes := lt_num_flushes t + 1\<rparr> else t, fs) })"

definition NeedsFlush :: "lsm_tree \<Rightarrow> bool" where
  "NeedsFlush t \<longleftrightarrow> lt_opened t \<and> 0 < num_immutable t"

definition TriggerFlush ::
    "(bytes \<Rightarrow> bytes \<Rightarrow> int) \<Rightarrow> u64 \<Rightarrow> lsm_tree \<Rightarrow> fs \<Rightarrow> (status \<times> lsm_tree \<times> fs) option" where
  "TriggerFlush cmp now t fs =
     (if \<not> lt_opened t then Some (InvalidArgument ''LSMTree not opened'', t, fs)
      else if \<not> NeedsFlush t then Some (OK, t, fs)
      else FlushOldestMemTable cmp now t fs)"

text \<open>\<open>while (NumImmutableMemTables() > 0)\<close>, with one unit of fuel per table.\<close>

fun flush_immutables ::
    "(bytes \<Rightarrow> bytes \<Rightarrow> int) \<Rightarrow> u64 \<Rightarrow> nat \<Rightarrow> lsm_tree \<Rightarrow> fs \<Rightarrow> (status \<times> lsm_tree \<times> fs) option" where
  "flush_immutables cmp now fuel t fs =
     (if num_immutable t = 0 then Some (OK, t, fs)
      else case fuel of
        0 \<Rightarrow> None
      | Suc n \<Rightarrow> do {
          (s, t, fs) \<leftarrow> FlushOldestMemTable cmp now t fs;
          if \<not> ok s then Some (s, t, fs) else flush_immutables cmp now n t fs })"

declare flush_immutables.simps [simp del]

definition FlushAll ::
    "(bytes \<Rightarrow> bytes \<Rightarrow> int) \<Rightarrow> u64 \<Rightarrow> lsm_tree \<Rightarrow> fs \<Rightarrow> (status \<times> lsm_tree \<times> fs) option" where
  "FlushAll cmp now t fs =
     (if \<not> lt_opened t then Some (InvalidArgument ''LSMTree not opened'', t, fs)
      else let (s, t) = (if \<not> MemTable_Empty (active_memtable t) then MakeMemTableImmutable t else (OK, t)) in
        if \<not> ok s then Some (s, t, fs) else flush_immutables cmp now (num_immutable t) t fs)"

section \<open>Compaction\<close>

text \<open>The size limit of a level above 0, in 64 bits.\<close>

definition level_limit :: "lsm_options \<Rightarrow> nat \<Rightarrow> u64" where
  "level_limit o' level = of_nat (lo_max_bytes_for_level_base o') * of_nat (lo_level_multiplier o') ^ (level - 1)"

definition level_needs_compaction :: "lsm_tree \<Rightarrow> nat \<Rightarrow> bool" where
  "level_needs_compaction t level =
     (let files = GetLevelFiles (int level) (lt_sstables t) in
      if level = 0 then lo_l0_compaction_trigger (lt_options t) \<le> length files
      else level_limit (lt_options t) level < sum_list (map sm_file_size files))"

definition NeedsCompaction :: "lsm_tree \<Rightarrow> bool" where
  "NeedsCompaction t \<longleftrightarrow> lt_opened t \<and> list_ex (level_needs_compaction t) [0..<num_levels]"

text \<open>The smallest and the largest key of the level-0 files; an empty key counts as none yet.\<close>

fun key_range :: "(bytes \<Rightarrow> bytes \<Rightarrow> int) \<Rightarrow> sst_meta list \<Rightarrow> bytes \<Rightarrow> bytes \<Rightarrow> bytes \<times> bytes" where
  "key_range cmp [] min_key max_key = (min_key, max_key)"
| "key_range cmp (m # files) min_key max_key =
     key_range cmp files
       (if min_key = [] \<or> cmp (sm_smallest_key m) min_key < 0 then sm_smallest_key m else min_key)
       (if max_key = [] \<or> 0 < cmp (sm_largest_key m) max_key then sm_largest_key m else max_key)"

definition PickCompactionFiles :: "(bytes \<Rightarrow> bytes \<Rightarrow> int) \<Rightarrow> int \<Rightarrow> sst_manager \<Rightarrow> string list \<times> int" where
  "PickCompactionFiles cmp level sg =
     (let files = GetLevelFiles level sg in
      if files = [] then ([], level)
      else if level = 0 then
        (let (min_key, max_key) = key_range cmp files [] [] in
         (map sm_filename files @
          (if min_key \<noteq> [] \<and> max_key \<noteq> []
           then map sm_filename (filter (\<lambda>m. cmp (sm_smallest_key m) max_key \<le> 0 \<and> 0 \<le> cmp (sm_largest_key m) min_key)
                  (GetLevelFiles 1 sg))
           else []), 1))
      else (map sm_filename (take (min (length files) 10) files), if level + 1 \<le> kMaxLevel then level + 1 else level))"

text \<open>\<open>std::string::find\<close> from a position, and \<open>std::stoi\<close>, which reads as \<open>stoull\<close> does.\<close>

fun find_sub :: "string \<Rightarrow> string \<Rightarrow> nat option" where
  "find_sub pat [] = (if pat = [] then Some 0 else None)"
| "find_sub pat (c # s) = (if take (length pat) (c # s) = pat then Some 0 else map_option Suc (find_sub pat s))"

definition find_from :: "string \<Rightarrow> string \<Rightarrow> nat \<Rightarrow> nat option" where
  "find_from pat s pos = (if length s < pos then None else map_option ((+) pos) (find_sub pat (drop pos s)))"

definition stoi :: "string \<Rightarrow> int option" where
  "stoi s =
     (let s = dropWhile is_space s;
          (neg, s) = (case s of c # t \<Rightarrow> if c = CHR ''-'' then (True, t)
                        else if c = CHR ''+'' then (False, t) else (False, s) | [] \<Rightarrow> (False, s));
          ds = takeWhile is_digit s; i = (if neg then - int (digits_value ds) else int (digits_value ds))
      in if ds = [] then None else if i < - (2 ^ 31) \<or> 2 ^ 31 \<le> i then None else Some i)"

text \<open>The number in a table's file name, after the first \<open>sst_\<close> of its path.\<close>

definition path_number :: "string \<Rightarrow> u64 option" where
  "path_number filename = do {
     pos \<leftarrow> find_from ''sst_'' filename 0;
     let num_str = drop (pos + 4) filename;
     end_pos \<leftarrow> find_from ''_'' num_str 0;
     stoull (take end_pos num_str) }"

text \<open>The outputs are registered one after the other, up to the first that cannot be.\<close>

fun register_outputs :: "(bytes \<Rightarrow> bytes \<Rightarrow> int) \<Rightarrow> sst_meta list \<Rightarrow> sst_manager \<Rightarrow> status \<times> sst_manager" where
  "register_outputs cmp [] sg = (OK, sg)"
| "register_outputs cmp (m # metas) sg =
     (let (s, sg) = RegisterSSTable cmp m sg in if \<not> ok s then (s, sg) else register_outputs cmp metas sg)"

definition DoLevelCompaction ::
    "(bytes \<Rightarrow> bytes \<Rightarrow> int) \<Rightarrow> nat \<Rightarrow> u64 \<Rightarrow> int \<Rightarrow> lsm_tree \<Rightarrow> fs \<Rightarrow> (status \<times> lsm_tree \<times> fs) option" where
  "DoLevelCompaction cmp fuel now level t fs =
     (let (input_files, output_level) = PickCompactionFiles cmp level (lt_sstables t) in
      if input_files = [] then Some (OK, t, fs)
      else do {
        (result, fs) \<leftarrow> Manager_CompactFiles cmp fuel
          \<lparr>cj_type = (if level = 0 then kMinor else kMajor), cj_input_level = level, cj_output_level = output_level,
           cj_input_files = input_files, cj_output_file_prefix = ''compact_L'' @ to_string (nat level),
           cj_start_key = [], cj_end_key = [], cj_is_manual = False, cj_delete_obsolete_files = True\<rparr> now fs;
        if \<not> ok (cr_status result) then Some (cr_status result, t, fs)
        else let (s, sg) = register_outputs cmp (cr_output_metas result) (lt_sstables t) in
        if \<not> ok s then Some (s, t\<lparr>lt_sstables := sg\<rparr>, fs)
        else let obsolete_files = List.map_filter path_number input_files;
                 (sg, fs) = (if obsolete_files \<noteq> [] then snd (DeleteObsoleteFiles obsolete_files sg fs) else (sg, fs))
             in Some (OK, t\<lparr>lt_sstables := sg\<rparr>, fs) })"

definition CompactLevel ::
    "(bytes \<Rightarrow> bytes \<Rightarrow> int) \<Rightarrow> nat \<Rightarrow> u64 \<Rightarrow> int \<Rightarrow> lsm_tree \<Rightarrow> fs \<Rightarrow> (status \<times> lsm_tree \<times> fs) option" where
  "CompactLevel cmp fuel now level t fs =
     (if \<not> lt_opened t then Some (InvalidArgument ''LSMTree not opened'', t, fs)
      else do {
        (s, t, fs) \<leftarrow> DoLevelCompaction cmp fuel now level t fs;
        Some (s, if ok s then t\<lparr>lt_num_compactions := lt_num_compactions t + 1\<rparr> else t, fs) })"

definition TriggerCompaction ::
    "(bytes \<Rightarrow> bytes \<Rightarrow> int) \<Rightarrow> nat \<Rightarrow> u64 \<Rightarrow> lsm_tree \<Rightarrow> fs \<Rightarrow> (status \<times> lsm_tree \<times> fs) option" where
  "TriggerCompaction cmp fuel now t fs =
     (if \<not> lt_opened t then Some (InvalidArgument ''LSMTree not opened'', t, fs)
      else if \<not> lo_enable_auto_compaction (lt_options t) then Some (OK, t, fs)
      else if \<not> NeedsCompaction t then Some (OK, t, fs)
      else case find (level_needs_compaction t) [0..<num_levels] of
        None \<Rightarrow> Some (OK, t, fs)
      | Some level \<Rightarrow> CompactLevel cmp fuel now (int level) t fs)"

text \<open>A manual compaction, level by level. Its outputs are not registered.\<close>

fun CompactRange_levels ::
    "(bytes \<Rightarrow> bytes \<Rightarrow> int) \<Rightarrow> nat \<Rightarrow> u64 \<Rightarrow> bytes option \<Rightarrow> bytes option \<Rightarrow> sst_manager \<Rightarrow> nat list \<Rightarrow> fs
     \<Rightarrow> (status \<times> fs) option" where
  "CompactRange_levels cmp fuel now begin_key end_key sg [] fs = Some (OK, fs)"
| "CompactRange_levels cmp fuel now begin_key end_key sg (level # levels) fs =
     (let range_files = (case (begin_key, end_key) of
            (Some b, Some e) \<Rightarrow> GetFilesInRange cmp b e (int level) sg
          | _ \<Rightarrow> GetLevelFiles (int level) sg) in
      if 1 < length range_files then do {
        (result, fs) \<leftarrow> Manager_CompactFiles cmp fuel
          \<lparr>cj_type = kManual, cj_input_level = int level,
           cj_output_level = (if int level = kMaxLevel then int level else int level + 1),
           cj_input_files = map sm_filename range_files, cj_output_file_prefix = ''compact_range_L'' @ to_string level,
           cj_start_key = (case begin_key of Some b \<Rightarrow> b | None \<Rightarrow> []),
           cj_end_key = (case end_key of Some e \<Rightarrow> e | None \<Rightarrow> []),
           cj_is_manual = True, cj_delete_obsolete_files = True\<rparr> now fs;
        if \<not> ok (cr_status result) then Some (cr_status result, fs)
        else CompactRange_levels cmp fuel now begin_key end_key sg levels fs }
      else CompactRange_levels cmp fuel now begin_key end_key sg levels fs)"

definition LSMTree_CompactRange ::
    "(bytes \<Rightarrow> bytes \<Rightarrow> int) \<Rightarrow> nat \<Rightarrow> u64 \<Rightarrow> bytes option \<Rightarrow> bytes option \<Rightarrow> lsm_tree \<Rightarrow> fs \<Rightarrow> (status \<times> fs) option" where
  "LSMTree_CompactRange cmp fuel now begin_key end_key t fs =
     (if \<not> lt_opened t then Some (InvalidArgument ''LSMTree not opened'', fs)
      else CompactRange_levels cmp fuel now begin_key end_key (lt_sstables t) [0..<num_levels] fs)"

text \<open>The periodic tasks.\<close>

definition BackgroundFlushTask ::
    "(bytes \<Rightarrow> bytes \<Rightarrow> int) \<Rightarrow> u64 \<Rightarrow> lsm_tree \<Rightarrow> fs \<Rightarrow> (status \<times> lsm_tree \<times> fs) option" where
  "BackgroundFlushTask cmp now t fs = (if \<not> lt_opened t then Some (OK, t, fs) else TriggerFlush cmp now t fs)"

definition BackgroundCompactionTask ::
    "(bytes \<Rightarrow> bytes \<Rightarrow> int) \<Rightarrow> nat \<Rightarrow> u64 \<Rightarrow> lsm_tree \<Rightarrow> fs \<Rightarrow> (status \<times> lsm_tree \<times> fs) option" where
  "BackgroundCompactionTask cmp fuel now t fs =
     (if \<not> lt_opened t then Some (OK, t, fs)
      else if NeedsCompaction t then TriggerCompaction cmp fuel now t fs else Some (OK, t, fs))"

section \<open>Options, statistics, checks\<close>

definition LSMTree_UpdateOptions :: "lsm_options \<Rightarrow> lsm_tree \<Rightarrow> status \<times> lsm_tree" where
  "LSMTree_UpdateOptions new_options t =
     (if \<not> lt_opened t then (InvalidArgument ''LSMTree not opened'', t)
      else let s = ValidateOptions new_options in if \<not> ok s then (s, t) else (OK, t\<lparr>lt_options := new_options\<rparr>))"

text \<open>The fields of \<open>LSMTreeStats\<close> that are ever set; a closed tree has none.\<close>

record lsm_stats =
  st_active_memtable_size :: nat
  st_num_immutable :: nat
  st_total_memtable_memory :: nat
  st_level_stats :: "level_stats list"
  st_total_files :: nat
  st_total_size :: u64
  st_puts :: u64
  st_gets :: u64
  st_deletes :: u64
  st_flushes :: u64
  st_compactions :: u64

definition LSMTree_GetStats :: "lsm_tree \<Rightarrow> lsm_stats option" where
  "LSMTree_GetStats t =
     (if \<not> lt_opened t then None
      else let size = memory_usage (active_memtable t); levels = GetLevelStats (lt_sstables t) in
        Some \<lparr>st_active_memtable_size = size, st_num_immutable = num_immutable t, st_total_memtable_memory = size,
              st_level_stats = levels, st_total_files = sum_list (map ls_num_files levels),
              st_total_size = sum_list (map ls_total_size levels), st_puts = lt_num_puts t, st_gets = lt_num_gets t,
              st_deletes = lt_num_deletes t, st_flushes = lt_num_flushes t, st_compactions = lt_num_compactions t\<rparr>)"

definition LSMTree_GetLevelFiles :: "int \<Rightarrow> lsm_tree \<Rightarrow> sst_meta list" where
  "LSMTree_GetLevelFiles level t = (if \<not> lt_opened t then [] else GetLevelFiles level (lt_sstables t))"

definition GetApproximateSizes ::
    "(bytes \<Rightarrow> bytes \<Rightarrow> int) \<Rightarrow> (bytes \<times> bytes) list \<Rightarrow> lsm_tree \<Rightarrow> status \<times> u64 list option" where
  "GetApproximateSizes cmp ranges t =
     (if \<not> lt_opened t then (InvalidArgument ''LSMTree not opened'', None)
      else (OK, Some (map (\<lambda>(first, last).
        sum_list (map sm_file_size (concat (map (\<lambda>level. GetFilesInRange cmp first last (int level) (lt_sstables t))
          [0..<num_levels])))) ranges)))"

fun validate_immutables :: "(bytes \<Rightarrow> bytes \<Rightarrow> int) \<Rightarrow> memtable list \<Rightarrow> status option" where
  "validate_immutables cmp [] = Some OK"
| "validate_immutables cmp (mt # mts) = do {
     valid \<leftarrow> MemTable_ValidateStructure cmp mt;
     if \<not> valid then Some (Corruption ''Immutable MemTable validation failed'') else validate_immutables cmp mts }"

definition ValidateInternalState :: "(bytes \<Rightarrow> bytes \<Rightarrow> int) \<Rightarrow> lsm_tree \<Rightarrow> status option" where
  "ValidateInternalState cmp t =
     (if \<not> lt_opened t then Some (InvalidArgument ''LSMTree not opened'')
      else case mutable_memtable (lt_memtables t) of
        None \<Rightarrow> Some (Corruption ''No active MemTable'')
      | Some active \<Rightarrow> do {
          valid \<leftarrow> MemTable_ValidateStructure cmp active;
          if \<not> valid then Some (Corruption ''Active MemTable validation failed'')
          else validate_immutables cmp (immutable_memtables (lt_memtables t)) })"

section \<open>Opening and closing\<close>

text \<open>The sizes of the C++ objects are \<open>st\<close> and \<open>se\<close>.\<close>

definition InitializeComponents :: "nat \<Rightarrow> nat \<Rightarrow> lsm_tree \<Rightarrow> lsm_tree" where
  "InitializeComponents st se t =
     t\<lparr>lt_memtables := MemTableManager_new \<lparr>write_buffer_size = lo_memtable_size (lt_options t),
                                             max_write_buffer_number = lo_max_memtables (lt_options t)\<rparr> st se,
       lt_sstables := SSTableManager 1000 (lo_db_path (lt_options t) @ ''/sstables'')\<rparr>"

definition GetSSTablePath :: "u64 \<Rightarrow> int \<Rightarrow> lsm_tree \<Rightarrow> string" where
  "GetSSTablePath file_number level t =
     lo_db_path (lt_options t) @ ''/sstables/sst_'' @ to_string (unat file_number) @ ''_L'' @ to_string (nat level) @ ''.sst''"

text \<open>The number and the level in a name \<open>sst_<number>_L<level>.sst\<close>.\<close>

definition parse_table_name :: "string \<Rightarrow> (u64 \<times> int) option" where
  "parse_table_name filename =
     (if take 4 filename \<noteq> ''sst_'' then None
      else do {
        second_underscore \<leftarrow> find_from ''_'' filename 4;
        l_pos \<leftarrow> find_from ''_L'' filename second_underscore;
        if length filename < 5 \<or> drop (length filename - 4) filename \<noteq> ''.sst'' then None
        else if length filename < l_pos + 2 then None
        else do {
          file_number \<leftarrow> stoull (take (second_underscore - 4) (drop 4 filename));
          level \<leftarrow> stoi (if length filename - 4 < l_pos + 2 then drop (l_pos + 2) filename
                         else take (length filename - 4 - (l_pos + 2)) (drop (l_pos + 2) filename));
          Some (file_number, level) } })"

text \<open>The files of the table directory, in the order the system lists them. A file that cannot be
  opened or registered is skipped.\<close>

fun load_tables ::
    "(bytes \<Rightarrow> bytes \<Rightarrow> int) \<Rightarrow> fs \<Rightarrow> string \<Rightarrow> string list \<Rightarrow> u64 \<times> nat \<Rightarrow> sst_manager \<Rightarrow> (u64 \<times> nat) \<times> sst_manager" where
  "load_tables cmp fs dir [] acc sg = (acc, sg)"
| "load_tables cmp fs dir (name # names) (max_file_number, loaded) sg =
     (case parse_table_name name of
        None \<Rightarrow> load_tables cmp fs dir names (max_file_number, loaded) sg
      | Some (file_number, level) \<Rightarrow>
          (let path = dir @ ''/'' @ name; (s, reader) = SstReader_Open cmp fs path SSTableReader in
           if \<not> ok s then load_tables cmp fs dir names (max_file_number, loaded) sg
           else let (s, sg) = RegisterSSTable cmp
                      ((sr_meta reader)\<lparr>sm_filename := path, sm_file_number := file_number, sm_level := level\<rparr>) sg in
           if \<not> ok s then load_tables cmp fs dir names (max_file_number, loaded) sg
           else load_tables cmp fs dir names (max max_file_number file_number, loaded + 1) sg))"

text \<open>\<open>names\<close> are the regular files of the table directory, \<open>None\<close> if it does not exist.\<close>

definition LoadExistingSSTables :: "(bytes \<Rightarrow> bytes \<Rightarrow> int) \<Rightarrow> fs \<Rightarrow> string list option \<Rightarrow> lsm_tree \<Rightarrow> lsm_tree" where
  "LoadExistingSSTables cmp fs names t =
     (case names of
        None \<Rightarrow> t
      | Some names \<Rightarrow>
          (let ((max_file_number, loaded), sg) =
                 load_tables cmp fs (lo_db_path (lt_options t) @ ''/sstables'') names (0, 0) (lt_sstables t)
           in t\<lparr>lt_sstables := (if 0 < loaded then SetNextFileNumber (max_file_number + 1) sg else sg)\<rparr>))"

text \<open>\<open>mkdir\<close> is the environment's \<open>CreateDirIfMissing\<close>, which the tree always has.\<close>

definition CreateDirectories :: "(string \<Rightarrow> status) \<Rightarrow> lsm_tree \<Rightarrow> status" where
  "CreateDirectories mkdir t =
     (let s = mkdir (lo_db_path (lt_options t)) in
      if \<not> ok s then s else mkdir (lo_db_path (lt_options t) @ ''/sstables''))"

definition LSMTree_Open ::
    "(bytes \<Rightarrow> bytes \<Rightarrow> int) \<Rightarrow> (string \<Rightarrow> status) \<Rightarrow> string list option \<Rightarrow> nat \<Rightarrow> nat \<Rightarrow> lsm_tree \<Rightarrow> fs \<Rightarrow> status \<times> lsm_tree" where
  "LSMTree_Open cmp mkdir names st se t fs =
     (if lt_opened t then (InvalidArgument ''LSMTree already opened'', t)
      else let s = ValidateOptions (lt_options t) in
      if \<not> ok s then (s, t)
      else let s = CreateDirectories mkdir t in
      if \<not> ok s then (s, t)
      else (OK, (LoadExistingSSTables cmp fs names (InitializeComponents st se t))\<lparr>lt_opened := True\<rparr>))"

definition LSMTree_Close ::
    "(bytes \<Rightarrow> bytes \<Rightarrow> int) \<Rightarrow> u64 \<Rightarrow> lsm_tree \<Rightarrow> fs \<Rightarrow> (status \<times> lsm_tree \<times> fs) option" where
  "LSMTree_Close cmp now t fs =
     (if \<not> lt_opened t then Some (OK, t, fs)
      else do {
        (s, t, fs) \<leftarrow> flush_immutables cmp now (num_immutable t) t fs;
        (s, t, fs) \<leftarrow> (if \<not> MemTable_Empty (active_memtable t)
          then do {
            (flush_status, t, fs) \<leftarrow> DoFlushMemTable cmp (active_memtable t) now t fs;
            Some (if \<not> ok flush_status then flush_status else s, t, fs) }
          else Some (s, t, fs));
        Some (s, t\<lparr>lt_opened := False\<rparr>, fs) })"

section \<open>Recovery\<close>

record wal_record_for_recovery =
  rr_key :: bytes
  rr_value :: bytes
  rr_sequence :: u64
  rr_is_deletion :: bool
  rr_timestamp :: u64

text \<open>A record goes to a table of its own, outside the memtable manager. \<open>fresh\<close> is that table
  when there is none yet.\<close>

definition RecoverFromWALRecord ::
    "(bytes \<Rightarrow> bytes \<Rightarrow> int) \<Rightarrow> memtable \<Rightarrow> bytes \<Rightarrow> bytes \<Rightarrow> u64 \<Rightarrow> bool \<Rightarrow> lsm_tree \<Rightarrow> status \<times> lsm_tree" where
  "RecoverFromWALRecord cmp fresh key value sequence is_deletion t =
     (if \<not> lt_opened t then (InvalidArgument ''LSMTree not opened'', t)
      else let mt = (case lt_current_memtable t of Some mt \<Rightarrow> mt | None \<Rightarrow> fresh);
               (s, mt) = (if is_deletion then MemTable_Delete cmp mt key sequence else MemTable_Put cmp mt key value sequence);
               t = t\<lparr>lt_current_memtable := Some mt\<rparr>;
               rs = lt_recovery_stats t in
        if \<not> ok s
        then (IOError ((if is_deletion then ''Failed to apply WAL delete record: '' else ''Failed to apply WAL put record: '')
                @ ToString s), t)
        else (OK, t\<lparr>lt_recovery_sequence := max (lt_recovery_sequence t) sequence,
                    lt_recovery_stats := (if is_deletion then rs\<lparr>rs_records := rs_records rs + 1, rs_deletes := rs_deletes rs + 1\<rparr>
                                          else rs\<lparr>rs_records := rs_records rs + 1, rs_puts := rs_puts rs + 1\<rparr>)\<rparr>))"

fun batch_records ::
    "(bytes \<Rightarrow> bytes \<Rightarrow> int) \<Rightarrow> wal_record_for_recovery list \<Rightarrow> u64 \<Rightarrow> lsm_tree \<Rightarrow> status \<times> u64 \<times> lsm_tree" where
  "batch_records cmp [] max_sequence t = (OK, max_sequence, t)"
| "batch_records cmp (r # rs) max_sequence t =
     (let (s, t) = (if rr_is_deletion r then DeleteLocked cmp (rr_key r) (rr_sequence r) t
                    else PutLocked cmp (rr_key r) (rr_value r) (rr_sequence r) t) in
      if \<not> ok s then (s, max_sequence, t) else batch_records cmp rs (max max_sequence (rr_sequence r)) t)"

definition BatchRecoverFromWAL ::
    "(bytes \<Rightarrow> bytes \<Rightarrow> int) \<Rightarrow> wal_record_for_recovery list \<Rightarrow> lsm_tree \<Rightarrow> status \<times> lsm_tree" where
  "BatchRecoverFromWAL cmp records t =
     (if \<not> lt_opened t then (InvalidArgument ''LSMTree not opened'', t)
      else if records = [] then (OK, t)
      else let (mode, slowdown, stop) = (lt_in_recovery_mode t, lt_write_slowdown t, lt_write_stop t);
               t = t\<lparr>lt_in_recovery_mode := True, lt_write_slowdown := False, lt_write_stop := False\<rparr>;
               (s, max_sequence, t) = batch_records cmp records 0 t;
               t = (if ok s then t\<lparr>lt_recovery_sequence := max (lt_recovery_sequence t) max_sequence\<rparr> else t);
               t = t\<lparr>lt_in_recovery_mode := mode, lt_write_slowdown := slowdown, lt_write_stop := stop\<rparr>
           in (if ok s then OK else IOError (''Failed to apply WAL record in batch: '' @ ToString s), t))"

definition SetRecoveryMode :: "bool \<Rightarrow> lsm_tree \<Rightarrow> lsm_tree" where
  "SetRecoveryMode in_recovery t =
     (if in_recovery then t\<lparr>lt_in_recovery_mode := True, lt_write_slowdown := False, lt_write_stop := False\<rparr>
      else t\<lparr>lt_in_recovery_mode := False\<rparr>)"

definition ValidateRecoveredData :: "(bytes \<Rightarrow> bytes \<Rightarrow> int) \<Rightarrow> lsm_tree \<Rightarrow> status option" where
  "ValidateRecoveredData cmp t =
     (if lt_next_sequence t < lt_recovery_sequence t
      then Some (Corruption ''Current sequence number is less than recovery sequence'')
      else do {
        s \<leftarrow> ValidateInternalState cmp t;
        Some (if \<not> ok s then Corruption (''Internal state validation failed: '' @ ToString s) else OK) })"

text \<open>The recovered records go to level 0. A tree that is not open any more but still has them has
  no table manager to flush them with: a null pointer, the outcome \<open>None\<close>.\<close>

definition flush_recovered ::
    "(bytes \<Rightarrow> bytes \<Rightarrow> int) \<Rightarrow> u64 \<Rightarrow> lsm_tree \<Rightarrow> fs \<Rightarrow> (status \<times> lsm_tree \<times> fs) option" where
  "flush_recovered cmp now t fs =
     (case lt_current_memtable t of
        None \<Rightarrow> Some (OK, t, fs)
      | Some mt \<Rightarrow>
          if MemTable_Empty mt then Some (OK, t, fs)
          else if \<not> lt_opened t then None
          else do {
            (s, sg, fs) \<leftarrow> Manager_FlushMemTable cmp (Some mt) 0 now (lt_sstables t) fs;
            Some (s, if ok s then t\<lparr>lt_sstables := sg, lt_current_memtable := None\<rparr> else t\<lparr>lt_sstables := sg\<rparr>, fs) })"

definition FinishRecovery ::
    "(bytes \<Rightarrow> bytes \<Rightarrow> int) \<Rightarrow> u64 \<Rightarrow> u64 \<Rightarrow> lsm_tree \<Rightarrow> fs \<Rightarrow> (status \<times> lsm_tree \<times> fs) option" where
  "FinishRecovery cmp now final_sequence t fs =
     (let new_sequence = max (max (lt_next_sequence t) (lt_recovery_sequence t)) final_sequence + 1;
          t = t\<lparr>lt_next_sequence := new_sequence, lt_in_recovery_mode := False\<rparr> in
      do {
        (s, t, fs) \<leftarrow> flush_recovered cmp now t fs;
        if \<not> ok s then Some (s, t, fs)
        else do {
          (flush_status, t, fs) \<leftarrow> TriggerFlush cmp now t fs;
          validation_status \<leftarrow> ValidateRecoveredData cmp t;
          Some (validation_status, t, fs) } })"

end
