(* ===== verification/LsmCompactions.thy ===== *)
theory LsmCompactions
  imports LsmTrees
begin

text \<open>
  Compactions of the tree (src/storage/lsm_tree.cc): the metadata of a compaction's output never
  carries a file number, so the manager refuses it; level 0 grows until it stops the writes.
\<close>

section \<open>The number in a writer's metadata\<close>

abbreviation writer_number :: "sst_writer \<Rightarrow> u64" where "writer_number w \<equiv> sm_file_number (sw_meta w)"

lemma UpdateMeta_number [simp]: "sm_file_number (UpdateMeta m k v) = sm_file_number m"
  by (auto simp: UpdateMeta_def Let_def split: option.splits)

definition keeps_number :: "(sst_writer \<Rightarrow> fs \<Rightarrow> status \<times> sst_writer \<times> fs) \<Rightarrow> bool" where
  "keeps_number f \<longleftrightarrow> (\<forall>w fs. writer_number (fst (snd (f w fs))) = writer_number w)"

lemma keeps_numberD: "keeps_number f \<Longrightarrow> f w fs = (s, w', fs') \<Longrightarrow> writer_number w' = writer_number w"
  unfolding keeps_number_def by (metis fst_conv snd_conv)

lemma steps_keep_number:
  "keeps_number WriteDataBlock" "keeps_number WriteIndexBlock" "keeps_number WriteBloomFilterBlock"
  "keeps_number WriteMetaBlock" "keeps_number WriteFooter"
  "keeps_number (\<lambda>w fs. let (s, fs) = File_Sync (sw_filename w) fs in (s, w, fs))" "keeps_number (\<lambda>w fs. (File_Close fs, w, fs))"
  by (auto simp: keeps_number_def WriteDataBlock_def WriteIndexBlock_def WriteBloomFilterBlock_def WriteMetaBlock_def
      WriteFooter_def Let_def split: prod.splits option.splits)

lemma run_steps_keep_number: "\<forall>f \<in> set steps. keeps_number f \<Longrightarrow> keeps_number (run_steps steps)"
proof (induction steps)
  case (Cons f steps)
  then have f: "keeps_number f" and r: "keeps_number (run_steps steps)" by simp_all
  show ?case
    unfolding keeps_number_def
  proof (intro allI)
    fix w fs
    obtain s w1 fs1 where 1: "f w fs = (s, w1, fs1)" by (metis prod_cases3)
    show "writer_number (fst (snd (run_steps (f # steps) w fs))) = writer_number w"
      using keeps_numberD [OF f 1] r 1 by (simp add: keeps_number_def)
  qed
qed (simp add: keeps_number_def)

lemma Finish_number:
  assumes "SstWriter_Finish w fs = (s, w', fs')" shows "writer_number w' = writer_number w"
proof -
  have k: "keeps_number (run_steps [WriteDataBlock, WriteIndexBlock, WriteBloomFilterBlock, WriteMetaBlock, WriteFooter,
              \<lambda>w fs. let (s, fs) = File_Sync (sw_filename w) fs in (s, w, fs), \<lambda>w fs. (File_Close fs, w, fs)])"
    using steps_keep_number by (intro run_steps_keep_number) (simp del: Let_def)
  show ?thesis
    using assms keeps_numberD [OF k] unfolding SstWriter_Finish_def
    by (auto simp del: run_steps.simps split: if_split_asm prod.split_asm)
qed

lemma Add_number: "SstWriter_Add cmp w k v fs = (s, w', fs') \<Longrightarrow> writer_number w' = writer_number w"
  using keeps_numberD [OF steps_keep_number(1)]
  by (auto simp: SstWriter_Add_def add_entry_def Let_def split: if_split_asm prod.split_asm option.splits)

lemma MergeInputFiles_loop_number:
  "MergeInputFiles_loop cmp config fuel mi w fs res = Some (s, mi', w', fs', res') \<Longrightarrow>
   writer_number w' = writer_number w \<and> cr_output_metas res' = cr_output_metas res"
proof (induction fuel arbitrary: mi w fs res)
  case 0
  then show ?case by (subst (asm) MergeInputFiles_loop.simps) (simp split: if_split_asm)
next
  case (Suc n)
  show ?case
  proof (cases "Merge_Valid mi \<and> ParseInternalKey (Merge_key mi) \<noteq> None")
    case False
    then show ?thesis using Suc.prems
      by (subst (asm) MergeInputFiles_loop.simps) (auto simp: Let_def simp del: not_None_eq split: if_split_asm)
  next
    case True
    show ?thesis
    proof (cases "ShouldKeepKey config (Merge_key mi)")
      case False
      have "MergeInputFiles_loop cmp config n (Merge_Next cmp fs mi) w fs
          (res\<lparr>cr_num_input_records := cr_num_input_records res + 1\<rparr>) = Some (s, mi', w', fs', res')"
        using Suc.prems True False by (subst (asm) MergeInputFiles_loop.simps) auto
      from Suc.IH [OF this] show ?thesis by simp
    next
      case K: True
      obtain s1 w1 fs1 where a: "SstWriter_Add cmp w (Merge_key mi) (Merge_value mi) fs = (s1, w1, fs1)" by (metis prod_cases3)
      show ?thesis
      proof (cases "ok s1")
        case False
        then have "w' = w1" "res' = res" using Suc.prems True K a by (subst (asm) MergeInputFiles_loop.simps; auto)+
        then show ?thesis using Add_number [OF a] by simp
      next
        case ok1: True
        have "MergeInputFiles_loop cmp config n (Merge_Next cmp fs1 mi) w1 fs1
            (res\<lparr>cr_num_output_records := cr_num_output_records res + 1, cr_num_input_records := cr_num_input_records res + 1\<rparr>) =
          Some (s, mi', w', fs', res')"
          using Suc.prems True K a ok1 by (subst (asm) MergeInputFiles_loop.simps) auto
        from Suc.IH [OF this] show ?thesis using Add_number [OF a] by simp
      qed
    qed
  qed
qed

lemma CompactFiles_number:
  assumes "Compactor_CompactFiles cmp opts config fuel job now fs = Some (res, fs')" "ok (cr_status res)"
  shows "\<exists>m. cr_output_metas res = [m] \<and> sm_file_number m = 0"
proof (cases "cj_input_files job = []")
  case True
  then show ?thesis using assms by (auto simp: Compactor_CompactFiles_def status_simps)
next
  case False
  obtain s1 w1 fs1 where o: "SstWriter_Open (SSTableWriter opts)
      (cj_output_file_prefix job @ (if length (cj_input_files job) = 1 then ''_0.sst'' else ''_merged.sst'')) now fs = (s1, w1, fs1)"
    by (metis prod_cases3)
  let ?mi = "Merge_SeekToFirst cmp fs1 (CreateMergeIterator cmp fs (cj_input_files job))"
  obtain s res0 where r: "DoCompaction cmp opts config fuel job now fs CompactionResult = Some (s, res0, fs')"
    "res = res0\<lparr>cr_status := s\<rparr>" "ok s"
    using assms False by (auto simp: Compactor_CompactFiles_def)
  have s1: "ok s1" using r(1,3) o by (auto simp: DoCompaction_def MergeInputFiles_def Let_def split: if_split_asm)
  then have 1: "writer_number w1 = 0"
    using o by (auto simp: SstWriter_Open_def SSTableWriter_def Let_def split: if_split_asm prod.split_asm)
  obtain s2 mi w2 fs2 res2 where l: "MergeInputFiles_loop cmp config fuel ?mi w1 fs1 CompactionResult = Some (s2, mi, w2, fs2, res2)"
    using r(1) o s1 by (auto simp: DoCompaction_def MergeInputFiles_def Let_def split: option.split_asm)
  note L = MergeInputFiles_loop_number [OF l]
  have s2: "ok s2 \<and> ok (Merge_status mi)"
    using r(1,3) o s1 l by (auto simp: DoCompaction_def MergeInputFiles_def Let_def split: if_split_asm prod.split_asm)
  obtain s3 w3 fs3 where f: "SstWriter_Finish w2 fs2 = (s3, w3, fs3)" by (metis prod_cases3)
  have "cr_output_metas res0 = cr_output_metas res2 @ [(sw_meta w3)\<lparr>sm_level := cj_output_level job\<rparr>]"
    using r(1,3) o s1 l s2 f by (auto simp: DoCompaction_def MergeInputFiles_def Let_def split: if_split_asm)
  then show ?thesis using L 1 Finish_number [OF f] r(2) by (simp add: CompactionResult_def)
qed

text \<open>Such metadata cannot be registered, so the compaction of a level that has files fails and
  leaves the tables as they were.\<close>

lemma Register_no_number:
  assumes "sm_file_number m = 0" shows "\<exists>s. RegisterSSTable cmp m sg = (s, sg) \<and> \<not> ok s"
proof -
  have "\<not> ok (ValidateFileMeta m)" using assms by (simp add: Validate_ok)
  then show ?thesis by (intro Register_fails) simp
qed

lemma Pick_nonempty: "GetLevelFiles level sg \<noteq> [] \<Longrightarrow> fst (PickCompactionFiles cmp level sg) \<noteq> []"
  by (auto simp: PickCompactionFiles_def Let_def split: prod.splits)

lemma DoLevelCompaction_fails:
  assumes "DoLevelCompaction cmp fuel now level t fs = Some (s, t', fs')"
  shows "t' = t" "GetLevelFiles level (lt_sstables t) \<noteq> [] \<Longrightarrow> \<not> ok s"
proof -
  obtain files out where p: "PickCompactionFiles cmp level (lt_sstables t) = (files, out)" by fastforce
  have "t' = t \<and> (files \<noteq> [] \<longrightarrow> \<not> ok s)"
  proof (cases "files = []")
    case True
    then show ?thesis using assms p by (simp add: DoLevelCompaction_def)
  next
    case False
    let ?job = "\<lparr>cj_type = (if level = 0 then kMinor else kMajor), cj_input_level = level, cj_output_level = out,
           cj_input_files = files, cj_output_file_prefix = ''compact_L'' @ to_string (nat level),
           cj_start_key = [], cj_end_key = [], cj_is_manual = False, cj_delete_obsolete_files = True\<rparr>"
    obtain res fs1 where c: "Manager_CompactFiles cmp fuel ?job now fs = Some (res, fs1)"
      using assms p False by (cases "Manager_CompactFiles cmp fuel ?job now fs") (auto simp: DoLevelCompaction_def)
    show ?thesis
    proof (cases "ok (cr_status res)")
      case F: False
      then show ?thesis using assms p False c by (auto simp: DoLevelCompaction_def)
    next
      case True
      obtain m where m: "cr_output_metas res = [m]" "sm_file_number m = 0"
        using CompactFiles_number [OF _ True] c unfolding Manager_CompactFiles_def by blast
      obtain s1 where s1: "RegisterSSTable cmp m (lt_sstables t) = (s1, lt_sstables t)" "\<not> ok s1"
        using Register_no_number [OF m(2)] by blast
      show ?thesis using assms p False c True m s1 by (auto simp: DoLevelCompaction_def)
    qed
  qed
  then show "t' = t" "GetLevelFiles level (lt_sstables t) \<noteq> [] \<Longrightarrow> \<not> ok s"
    using Pick_nonempty [of level "lt_sstables t" cmp] p by auto
qed

section \<open>Level 0 never shrinks\<close>

abbreviation level0_count :: "lsm_tree \<Rightarrow> nat" where
  "level0_count t \<equiv> length (GetLevelFiles 0 (lt_sstables t))"

definition grows :: "lsm_tree \<Rightarrow> lsm_tree \<Rightarrow> bool" where
  "grows t t' \<longleftrightarrow> lt_opened t' = lt_opened t \<and> lt_options t' = lt_options t \<and> level0_count t \<le> level0_count t'"

lemma grows_refl [simp]: "grows t t"
  by (simp add: grows_def)

lemma grows_trans: "grows t t1 \<Longrightarrow> grows t1 t2 \<Longrightarrow> grows t t2"
  by (auto simp: grows_def)

lemma grows_same:
  "lt_opened t' = lt_opened t \<Longrightarrow> lt_options t' = lt_options t \<Longrightarrow> lt_sstables t' = lt_sstables t \<Longrightarrow> grows t t'"
  by (simp add: grows_def)

lemma grows_updates [simp]:
  "grows t (t'\<lparr>lt_in_recovery_mode := b\<rparr>) = grows t t'" "grows t (t'\<lparr>lt_next_sequence := n\<rparr>) = grows t t'"
  "grows t (t'\<lparr>lt_recovery_sequence := n\<rparr>) = grows t t'" "grows t (t'\<lparr>lt_write_slowdown := b\<rparr>) = grows t t'"
  "grows t (t'\<lparr>lt_write_stop := b\<rparr>) = grows t t'" "grows t (t'\<lparr>lt_num_puts := n\<rparr>) = grows t t'"
  "grows t (t'\<lparr>lt_num_gets := n\<rparr>) = grows t t'" "grows t (t'\<lparr>lt_num_deletes := n\<rparr>) = grows t t'"
  "grows t (t'\<lparr>lt_num_flushes := n\<rparr>) = grows t t'" "grows t (t'\<lparr>lt_num_compactions := n\<rparr>) = grows t t'"
  "grows t (t'\<lparr>lt_memtables := mm\<rparr>) = grows t t'" "grows t (t'\<lparr>lt_current_memtable := mt\<rparr>) = grows t t'"
  "grows t (t'\<lparr>lt_recovery_stats := rs\<rparr>) = grows t t'"
  by (simp_all add: grows_def)

lemma level0_files: "GetLevelFiles 0 sg = sg_level_files sg ! 0"
  by (simp add: GetLevelFiles_def level_index_def)

lemma nth_update_grows: "length (xs ! l) \<le> length ys \<Longrightarrow> length (xs ! k) \<le> length (xs[l := ys] ! k)"
  by (cases "l < length xs"; cases "k = l") (simp_all add: nth_list_update_neq list_update_beyond not_less)

lemma Register_level0_grows:
  assumes "RegisterSSTable cmp m sg = (s, sg')" shows "length (sg_level_files sg ! 0) \<le> length (sg_level_files sg' ! 0)"
proof -
  have l: "length (xs :: sst_meta list) \<le> length (take n xs @ m # drop n xs)" for xs n by simp
  show ?thesis
    using assms unfolding RegisterSSTable_def Let_def
    by (auto simp del: length_append length_take length_drop intro: nth_update_grows [OF l] split: if_split_asm option.split_asm)
qed

lemma Evict_levels [simp]: "sg_level_files (EvictLRUReader sg) = sg_level_files sg"
  by (simp add: EvictLRUReader_def split: option.splits)

lemma GetReader_levels: "GetReader cmp fs clock n sg = (r, sg') \<Longrightarrow> sg_level_files sg' = sg_level_files sg"
  by (auto simp: GetReader_def Let_def split: option.split_asm prod.split_asm if_split_asm)

lemma Get_loop_levels: "Manager_Get_loop cmp fs clock key snapshot ns sg = Some (s, v, sg') \<Longrightarrow> sg_level_files sg' = sg_level_files sg"
proof (induction ns arbitrary: sg)
  case (Cons n ns)
  obtain r sg1 where g: "GetReader cmp fs clock n sg = (r, sg1)" by fastforce
  note G = GetReader_levels [OF g]
  show ?case
    using Cons.IH [of sg1] Cons.prems G by (cases r) (auto simp: g split: bind_splits if_split_asm option.split_asm)
qed simp

lemma Flush_level0_grows:
  "Manager_FlushMemTable cmp mt level now sg fs = Some (s, sg', fs') \<Longrightarrow>
   length (sg_level_files sg ! 0) \<le> length (sg_level_files sg' ! 0)"
  using Register_level0_grows [of cmp _ "sg\<lparr>sg_next_file_number := sg_next_file_number sg + 1\<rparr>"]
  by (fastforce simp: Manager_FlushMemTable_def Let_def split: option.split_asm prod.split_asm if_split_asm)

lemma write_locked_grows: "write_locked write counted sequence t = (s, t') \<Longrightarrow> (\<And>t t'. grows t (counted t') \<longleftrightarrow> grows t t') \<Longrightarrow> grows t t'"
  by (auto simp: write_locked_def Let_def GetNextSequenceNumber_def MakeMemTableImmutable_def set_active_def
      split: if_split_asm prod.split_asm)

lemma locked_grows:
  "PutLocked cmp key value sequence t = (s, t') \<Longrightarrow> grows t t'"
  "DeleteLocked cmp key sequence t = (s, t') \<Longrightarrow> grows t t'"
  "MergeLocked cmp key value sequence t = (s, t') \<Longrightarrow> grows t t'"
  by (auto simp: PutLocked_def DeleteLocked_def MergeLocked_def count_put_def count_delete_def elim!: write_locked_grows)

lemma public_grows:
  "LSMTree_Put cmp key value sequence t = (s, t') \<Longrightarrow> grows t t'"
  "LSMTree_Delete cmp key sequence t = (s, t') \<Longrightarrow> grows t t'"
  "LSMTree_Merge cmp key value sequence t = (s, t') \<Longrightarrow> grows t t'"
  by (auto simp: LSMTree_Put_def LSMTree_Delete_def LSMTree_Merge_def public_write_def dest: locked_grows split: if_split_asm)

lemma Get_grows: "LSMTree_Get cmp fs clock key value snapshot t = Some (s, v, t') \<Longrightarrow> grows t t'"
  by (auto simp: LSMTree_Get_def GetFromSSTables_def Manager_Get_def Let_def grows_def level0_files
      dest!: Get_loop_levels split: if_split_asm prod.split_asm bind_split_asm)

lemma DoFlush_grows: "DoFlushMemTable cmp mt now t fs = Some (s, t', fs') \<Longrightarrow> grows t t'"
  by (auto simp: DoFlushMemTable_def grows_def level0_files dest: Flush_level0_grows split: if_split_asm bind_split_asm)

lemma FlushOldest_grows: "FlushOldestMemTable cmp now t fs = Some (s, t', fs') \<Longrightarrow> grows t t'"
  by (auto simp: FlushOldestMemTable_def dest!: DoFlush_grows simp: grows_def
      split: if_split_asm option.split_asm bind_split_asm)

lemma flush_immutables_grows: "flush_immutables cmp now fuel t fs = Some (s, t', fs') \<Longrightarrow> grows t t'"
proof (induction fuel arbitrary: t fs)
  case 0
  then show ?case by (subst (asm) flush_immutables.simps) (simp split: if_split_asm)
next
  case (Suc n)
  then show ?case
    by (subst (asm) (2) flush_immutables.simps)
      (auto dest!: FlushOldest_grows intro: grows_trans split: if_split_asm bind_split_asm)
qed

lemma flush_ops_grow:
  "TriggerFlush cmp now t fs = Some (s, t', fs') \<Longrightarrow> grows t t'"
  "FlushAll cmp now t fs = Some (s, t', fs') \<Longrightarrow> grows t t'"
  "BackgroundFlushTask cmp now t fs = Some (s, t', fs') \<Longrightarrow> grows t t'"
proof -
  show T: "TriggerFlush cmp now t fs = Some (s, t', fs') \<Longrightarrow> grows t t'" for t fs
    by (auto simp: TriggerFlush_def dest: FlushOldest_grows split: if_split_asm)
  have "grows t (snd (MakeMemTableImmutable t))"
    by (simp add: MakeMemTableImmutable_def grows_same split: prod.splits)
  then show "FlushAll cmp now t fs = Some (s, t', fs') \<Longrightarrow> grows t t'"
    by (auto simp: FlushAll_def Let_def dest!: flush_immutables_grows intro: grows_trans split: if_split_asm prod.split_asm)
  show "BackgroundFlushTask cmp now t fs = Some (s, t', fs') \<Longrightarrow> grows t t'"
    using T by (auto simp: BackgroundFlushTask_def split: if_split_asm)
qed

lemma CompactLevel_grows: "CompactLevel cmp fuel now level t fs = Some (s, t', fs') \<Longrightarrow> grows t t'"
  by (auto simp: CompactLevel_def dest!: DoLevelCompaction_fails(1) intro!: grows_same split: if_split_asm bind_split_asm)

lemma compaction_ops_grow:
  "TriggerCompaction cmp fuel now t fs = Some (s, t', fs') \<Longrightarrow> grows t t'"
  "BackgroundCompactionTask cmp fuel now t fs = Some (s, t', fs') \<Longrightarrow> grows t t'"
proof -
  show T: "TriggerCompaction cmp fuel now t fs = Some (s, t', fs') \<Longrightarrow> grows t t'" for t fs
    by (auto simp: TriggerCompaction_def dest: CompactLevel_grows split: if_split_asm option.split_asm)
  then show "BackgroundCompactionTask cmp fuel now t fs = Some (s, t', fs') \<Longrightarrow> grows t t'"
    by (auto simp: BackgroundCompactionTask_def split: if_split_asm)
qed

lemma batch_records_grows: "batch_records cmp rs m t = (s, m', t') \<Longrightarrow> grows t t'"
proof (induction rs arbitrary: m t)
  case (Cons r rs)
  obtain s1 t1 where 1: "(if rr_is_deletion r then DeleteLocked cmp (rr_key r) (rr_sequence r) t
      else PutLocked cmp (rr_key r) (rr_value r) (rr_sequence r) t) = (s1, t1)" by fastforce
  then have "grows t t1" by (auto dest: locked_grows split: if_split_asm)
  then show ?case using Cons.IH [of _ t1] Cons.prems 1 by (auto intro: grows_trans split: if_split_asm)
qed simp

lemma recovery_grows:
  "RecoverFromWALRecord cmp fresh key value sequence is_deletion t = (s, t') \<Longrightarrow> grows t t'"
  "BatchRecoverFromWAL cmp records t = (s, t') \<Longrightarrow> grows t t'"
  "FinishRecovery cmp now final_sequence t fs = Some (s, t', fs') \<Longrightarrow> grows t t'"
proof -
  show "RecoverFromWALRecord cmp fresh key value sequence is_deletion t = (s, t') \<Longrightarrow> grows t t'"
    by (auto simp: RecoverFromWALRecord_def Let_def intro: grows_same split: if_split_asm prod.split_asm)
  show "BatchRecoverFromWAL cmp records t = (s, t') \<Longrightarrow> grows t t'"
  proof (cases "lt_opened t \<and> records \<noteq> []")
    case True
    let ?t = "t\<lparr>lt_in_recovery_mode := True, lt_write_slowdown := False, lt_write_stop := False\<rparr>"
    obtain s1 m t1 where b: "batch_records cmp records 0 ?t = (s1, m, t1)" by (metis prod_cases3)
    have "grows t t1" by (rule grows_trans [OF _ batch_records_grows [OF b]]) (simp add: grows_same)
    moreover assume "BatchRecoverFromWAL cmp records t = (s, t')"
    then have "grows t1 t'" using True b by (cases "ok s1") (auto simp: BatchRecoverFromWAL_def Let_def grows_def)
    ultimately show ?thesis by (rule grows_trans)
  next
    case False
    assume "BatchRecoverFromWAL cmp records t = (s, t')"
    then have "t' = t" using False by (auto simp: BatchRecoverFromWAL_def split: if_split_asm)
    then show ?thesis by simp
  qed
  have r: "flush_recovered cmp now t fs = Some (s, t', fs') \<Longrightarrow> grows t t'" for t s fs t' fs'
    by (auto simp: flush_recovered_def grows_def level0_files dest: Flush_level0_grows
        split: option.split_asm if_split_asm bind_split_asm)
  let ?t = "t\<lparr>lt_next_sequence := max (max (lt_next_sequence t) (lt_recovery_sequence t)) final_sequence + 1, lt_in_recovery_mode := False\<rparr>"
  have n: "grows t ?t" by simp
  assume "FinishRecovery cmp now final_sequence t fs = Some (s, t', fs')"
  then have "grows ?t t'"
    unfolding FinishRecovery_def Let_def
    by (auto dest!: r flush_ops_grow(1) split: if_split_asm bind_split_asm) (rule grows_trans, assumption, assumption)
  then show "grows t t'" by (rule grows_trans [OF n])
qed

section \<open>Steps of an open tree\<close>

text \<open>Everything that can happen between \<open>Open\<close> and \<open>Close\<close>, apart from \<open>UpdateOptions\<close>: each
  operation with any arguments and outcome, the two periodic tasks, and any change of the file
  system from outside.\<close>

inductive lsm_step :: "lsm_tree \<times> fs \<Rightarrow> lsm_tree \<times> fs \<Rightarrow> bool" where
  lsm_put: "LSMTree_Put cmp key value sequence t = (s, t') \<Longrightarrow> lsm_step (t, fs) (t', fs)"
| lsm_delete: "LSMTree_Delete cmp key sequence t = (s, t') \<Longrightarrow> lsm_step (t, fs) (t', fs)"
| lsm_merge: "LSMTree_Merge cmp key value sequence t = (s, t') \<Longrightarrow> lsm_step (t, fs) (t', fs)"
| lsm_get: "LSMTree_Get cmp fs clock key value snapshot t = Some (s, v, t') \<Longrightarrow> lsm_step (t, fs) (t', fs)"
| lsm_flush_oldest: "FlushOldestMemTable cmp now t fs = Some (s, t', fs') \<Longrightarrow> lsm_step (t, fs) (t', fs')"
| lsm_flush: "TriggerFlush cmp now t fs = Some (s, t', fs') \<Longrightarrow> lsm_step (t, fs) (t', fs')"
| lsm_flush_all: "FlushAll cmp now t fs = Some (s, t', fs') \<Longrightarrow> lsm_step (t, fs) (t', fs')"
| lsm_compact_level: "CompactLevel cmp fuel now level t fs = Some (s, t', fs') \<Longrightarrow> lsm_step (t, fs) (t', fs')"
| lsm_compact: "TriggerCompaction cmp fuel now t fs = Some (s, t', fs') \<Longrightarrow> lsm_step (t, fs) (t', fs')"
| lsm_compact_range: "LSMTree_CompactRange cmp fuel now b e t fs = Some (s, fs') \<Longrightarrow> lsm_step (t, fs) (t, fs')"
| lsm_flush_task: "BackgroundFlushTask cmp now t fs = Some (s, t', fs') \<Longrightarrow> lsm_step (t, fs) (t', fs')"
| lsm_compaction_task: "BackgroundCompactionTask cmp fuel now t fs = Some (s, t', fs') \<Longrightarrow> lsm_step (t, fs) (t', fs')"
| lsm_limit: "lsm_step (t, fs) (SetWriteLimit slowdown stop t, fs)"
| lsm_recover: "RecoverFromWALRecord cmp fresh key value sequence is_deletion t = (s, t') \<Longrightarrow> lsm_step (t, fs) (t', fs)"
| lsm_recover_batch: "BatchRecoverFromWAL cmp records t = (s, t') \<Longrightarrow> lsm_step (t, fs) (t', fs)"
| lsm_recovery_mode: "lsm_step (t, fs) (SetRecoveryMode b t, fs)"
| lsm_recovered: "FinishRecovery cmp now final_sequence t fs = Some (s, t', fs') \<Longrightarrow> lsm_step (t, fs) (t', fs')"
| lsm_world: "lsm_step (t, fs) (t, fs')"

inductive_cases lsm_stepE: "lsm_step p q"

lemma lsm_step_grows: "lsm_step p q \<Longrightarrow> grows (fst p) (fst q)"
  by (induction rule: lsm_step.induct)
    (simp_all add: public_grows Get_grows FlushOldest_grows flush_ops_grow CompactLevel_grows compaction_ops_grow
      recovery_grows SetWriteLimit_def SetRecoveryMode_def)

lemma lsm_steps_grow: "lsm_step\<^sup>*\<^sup>* p q \<Longrightarrow> grows (fst p) (fst q)"
  by (induction rule: rtranclp_induct) (auto dest: lsm_step_grows intro: grows_trans)

lemma public_write_stopped:
  assumes "lt_opened t" "lo_l0_stop_writes_trigger (lt_options t) \<le> level0_count t"
  shows "public_write locked t = (IOError ''Write stopped due to too many L0 files'', t)"
  using assms by (simp add: public_write_def CheckWriteConditions_def)

section \<open>Theorems\<close>



text \<open>A tree with one file on level 0, which is also as many as it may have.\<close>

abbreviation (input) full_tree :: lsm_tree where
  "full_tree \<equiv> (LSMTree (MemTableManager_new \<lparr>write_buffer_size = 1000, max_write_buffer_number = 4\<rparr> 100 50)
      ((SSTableManager 10 ''d'')\<lparr>sg_level_files := [(one_key_meta [97])\<lparr>sm_filename := ''1'', sm_file_number := 1\<rparr>] # replicate 6 []\<rparr>)
      (LSMTreeOptions\<lparr>lo_l0_stop_writes_trigger := 1\<rparr>))\<lparr>lt_opened := True\<rparr>"


end
