(* ===== verification/LsmReads.thy ===== *)
theory LsmReads
  imports LsmTrees
begin

text \<open>
  What the tree's reads answer (src/storage/lsm_tree.cc): the newest version among the memtables,
  overridden by the newest among the tables; after a flush of everything, the newest version there
  is.
\<close>

section \<open>Memtables as entries\<close>

definition one_version :: "(bytes \<times> bytes) list \<Rightarrow> bool" where
  "one_version es \<longleftrightarrow> (\<forall>e \<in> set es. \<forall>e' \<in> set es. ent_user e = ent_user e' \<and> ent_seq e = ent_seq e' \<longrightarrow> e = e')"

definition mem_visible :: "memtable \<Rightarrow> bytes \<Rightarrow> u64 \<Rightarrow> (byte \<times> bytes) option" where
  "mem_visible mt key snapshot = map_option version_of (find (wanted key snapshot) (table mt))"

lemma wanted_ent: "wanted key snapshot p \<longleftrightarrow> ent_wanted key snapshot (fst p, e_value (snd p))"
  by (simp add: wanted_def ent_wanted_def)

lemma mem_visible_newest:
  assumes ok: "mt_ok Bytewise_Compare mt" and one: "one_version (mem_entries mt)"
  shows "map_option snd (newest_visible (sst_entries mt) key snapshot) = map_option (\<lambda>(t, v). (v, t = kDeletion)) (mem_visible mt key snapshot)"
proof (cases "find (wanted key snapshot) (table mt)")
  case None
  then have "\<not> ent_wanted key snapshot e" if "e \<in> set (sst_entries mt)" for e
    using that by (auto simp: find_None_iff mem_entries_def wanted_ent)
  then have "filter (ent_wanted key snapshot) (sst_entries mt) = []" by (simp add: filter_empty_conv)
  then show ?thesis by (simp add: mem_visible_def None newest_visible_def)
next
  case (Some p)
  then obtain i where i: "i < length (table mt)" "wanted key snapshot (table mt ! i)" "p = table mt ! i"
    "\<And>j. j < i \<Longrightarrow> \<not> wanted key snapshot (table mt ! j)"
    by (auto simp: find_Some_iff)
  let ?e = "(fst p, e_value (snd p))"
  have pin: "p \<in> set (table mt)" using i(1,3) by simp
  have ein: "?e \<in> set (mem_entries mt)" using pin by (auto simp: mem_entries_def)
  have w: "ent_wanted key snapshot ?e" using i(2,3) by (simp add: wanted_ent)
  have "ent_seq e' < ent_seq ?e" if e': "e' \<in> set (mem_entries mt)" "ent_wanted key snapshot e'" "e' \<noteq> ?e" for e'
  proof -
    obtain q where q: "q \<in> set (table mt)" "e' = (fst q, e_value (snd q))" using e'(1) by (auto simp: mem_entries_def)
    then obtain j where j: "j < length (table mt)" "q = table mt ! j" by (metis in_set_conv_nth)
    have "wanted key snapshot (table mt ! j)" using e'(2) q(2) j(2) by (simp add: wanted_ent)
    then have "i \<le> j" using i(4) by (meson not_less)
    moreover have "i \<noteq> j" using e'(3) q(2) i(3) j(2) by auto
    ultimately have "i < j" by simp
    then have c: "InternalKeyComparator_Compare Bytewise_Compare (fst p) (fst q) < 0"
      using ok i(3) j by (auto simp: mt_ok_def ordered_by_def sorted_wrt_iff_nth_less)
    obtain up sp tp where P: "fst p = InternalKey up sp tp" "take_bit 56 sp = sp"
      using bytewise_user.table_keys [OF ok pin] by (elim parsed)
    obtain uq sq tq where Q: "fst q = InternalKey uq sq tq" "take_bit 56 sq = sq"
      using bytewise_user.table_keys [OF ok q(1)] by (elim parsed)
    have u: "up = key" "uq = key" using w e'(2) q(2) by (simp_all add: ent_wanted_def P Q)
    have "sq \<noteq> sp"
      using one ein e'(1,3) q(2) u P Q unfolding one_version_def by fastforce
    then show ?thesis
      using c by (auto simp: P Q u q(2) Compare_InternalKey seq_type_cmp_def Bytewise_Compare_lex split: if_splits)
  qed
  then have "newest_visible (sst_entries mt) key snapshot = Some (ent_seq ?e, snd ?e, ent_type ?e = kDeletion)"
    by (intro newest_visible_only) (use ein w in auto)
  then show ?thesis by (simp add: mem_visible_def Some version_of_def)
qed

fun first_visible :: "memtable list \<Rightarrow> bytes \<Rightarrow> u64 \<Rightarrow> (byte \<times> bytes) option" where
  "first_visible [] key snapshot = None"
| "first_visible (mt # mts) key snapshot =
     (case mem_visible mt key snapshot of None \<Rightarrow> first_visible mts key snapshot | Some v \<Rightarrow> Some v)"

lemma first_visible_newest:
  assumes "\<forall>mt \<in> set mts. mt_ok Bytewise_Compare mt \<and> one_version (mem_entries mt)" "sorted_wrt newer_than (map sst_entries mts)"
  shows "map_option snd (newest_visible (concat (map sst_entries mts)) key snapshot) =
    map_option (\<lambda>(t, v). (v, t = kDeletion)) (first_visible mts key snapshot)"
  using assms
proof (induction mts)
  case (Cons mt mts)
  have "newer_than (sst_entries mt) (concat (map sst_entries mts))" using Cons.prems(2) by (auto simp: newer_than_def)
  from newest_append [OF this, of key snapshot]
  have "newest_visible (concat (map sst_entries (mt # mts))) key snapshot =
      (case newest_visible (sst_entries mt) key snapshot of None \<Rightarrow> newest_visible (concat (map sst_entries mts)) key snapshot | Some v \<Rightarrow> Some v)"
    by simp
  moreover have "map_option snd (newest_visible (sst_entries mt) key snapshot) = map_option (\<lambda>(t, v). (v, t = kDeletion)) (mem_visible mt key snapshot)"
    using Cons.prems(1) by (intro mem_visible_newest) simp_all
  moreover have "map_option snd (newest_visible (concat (map sst_entries mts)) key snapshot) =
      map_option (\<lambda>(t, v). (v, t = kDeletion)) (first_visible mts key snapshot)"
    using Cons by simp
  ultimately show ?case by (cases "mem_visible mt key snapshot") (auto split: option.splits)
qed (simp add: newest_visible_def)

lemma get_statuses [simp]:
  "IsDeleted (Deleted m)" "\<not> IsDeleted OK" "\<not> IsDeleted (NotFound m)" "\<not> IsDeleted (MergerInProgress m)"
  "IsNotFound (NotFound m)" "IsMergeInProgress (MergerInProgress m)" "\<not> ok (Deleted m)" "\<not> ok (NotFound m)"
  "\<not> ok (MergerInProgress m)" "\<not> IsNotFound (Deleted m)" "\<not> IsMergeInProgress (Deleted m)" "kValue \<noteq> kDeletion"
  by (simp_all add: status_simps value_types)

lemma MemTable_Get_visible:
  assumes "mt_ok Bytewise_Compare mt"
  shows "MemTable_Get Bytewise_Compare mt key (Some value) (Some OK) snapshot =
    (case mem_visible mt key snapshot of
       None \<Rightarrow> (False, Some value, Some (NotFound ''Key not found''))
     | Some (t, v) \<Rightarrow>
         if t = kDeletion then (False, Some value, Some (Deleted ''Key was deleted''))
         else (True, Some v, Some (if t = kValue then OK else MergerInProgress '''')))"
  unfolding bytewise_user.Get_finds [OF assms] mem_visible_def [symmetric]
  by (cases "mem_visible mt key snapshot") (auto simp: answer_def get_store_def value_types)

lemma immutables_Get_visible:
  assumes "\<forall>mt \<in> set mts. mt_ok Bytewise_Compare mt"
  shows "immutables_Get Bytewise_Compare mts key value snapshot =
    (case first_visible mts key snapshot of
       None \<Rightarrow> (OK, value, False)
     | Some (t, v) \<Rightarrow>
         if t = kDeletion then (Deleted ''Key was deleted'', value, False)
         else (if t = kValue then OK else MergerInProgress '''', v, True))"
  using assms
proof (induction mts)
  case (Cons mt mts)
  then have g: "mt_ok Bytewise_Compare mt" and IH: "immutables_Get Bytewise_Compare mts key value snapshot =
    (case first_visible mts key snapshot of
       None \<Rightarrow> (OK, value, False)
     | Some (t, v) \<Rightarrow>
         if t = kDeletion then (Deleted ''Key was deleted'', value, False)
         else (if t = kValue then OK else MergerInProgress '''', v, True))" by simp_all
  show ?case
    using IH by (cases "mem_visible mt key snapshot") (auto simp: MemTable_Get_visible [OF g] Let_def)
qed simp

text \<open>The outcome of the memtables: a deletion ends the search, a value is found. Only a merge
  operand's status may differ, and its callers do not look at it.\<close>

lemma GetFromMemTables_visible:
  assumes "mutable_memtable (lt_memtables t) = Some mt" "mts = mt # rev (immutable_memtables (lt_memtables t))"
    and "\<forall>mt \<in> set mts. mt_ok Bytewise_Compare mt"
  shows "\<exists>s. GetFromMemTables Bytewise_Compare key value snapshot t =
    (case first_visible mts key snapshot of
       None \<Rightarrow> (OK, value, False)
     | Some (ty, v) \<Rightarrow> if ty = kDeletion then (Deleted ''Key was deleted'', value, False) else (s, v, True)) \<and>
    (ok s \<or> IsMergeInProgress s) \<and> \<not> IsDeleted s"
proof -
  have a: "active_memtable t = mt" using assms(1) by (simp add: active_memtable_def)
  have ok: "mt_ok Bytewise_Compare mt" "\<forall>m \<in> set (rev (immutable_memtables (lt_memtables t))). mt_ok Bytewise_Compare m"
    using assms(2,3) by simp_all
  note S = MemTable_Get_visible [OF ok(1), of key "value" snapshot] immutables_Get_visible [OF ok(2), of key "value" snapshot]
  show ?thesis
  proof (cases "mem_visible mt key snapshot")
    case None
    have g: "GetFromMemTables Bytewise_Compare key value snapshot t =
        immutables_Get Bytewise_Compare (rev (immutable_memtables (lt_memtables t))) key value snapshot"
      by (simp add: GetFromMemTables_def a S(1) None)
    show ?thesis
      unfolding g S(2) assms(2) using None
      by (cases "first_visible (rev (immutable_memtables (lt_memtables t))) key snapshot")
        (auto intro: exI [of _ OK] exI [of _ "MergerInProgress ''''"], rule exI [of _ OK], simp)
  next
    case (Some p)
    then show ?thesis
      unfolding assms(2) by (cases p) (auto simp: GetFromMemTables_def a S(1) Let_def intro!: exI [of _ OK])
  qed
qed

section \<open>The state between operations\<close>

text \<open>The table manager in good order: its tables are what was written, its numbers and the names to
  come are free, the levels above 0 are disjoint.\<close>

definition tables_state :: "fs \<Rightarrow> sst_manager \<Rightarrow> (u64 \<Rightarrow> (bytes \<times> bytes) list) \<Rightarrow> bool" where
  "tables_state fs sg c \<longleftrightarrow> manager_ok sg \<and> tables_ok fs sg c \<and> fresh_from sg \<and> length (sg_directory sg) < 1000 \<and>
     (\<forall>n \<ge> sg_next_file_number sg. GenerateFileName n 0 sg \<notin> sm_filename ` ran (map_of (sg_file_meta_map sg))) \<and>
     (\<forall>files \<in> set (tl (sg_level_files sg)). sorted_wrt (\<lambda>a b. sm_largest_key a < sm_smallest_key b) files)"

abbreviation memtables_of :: "lsm_tree \<Rightarrow> memtable list" where
  "memtables_of t \<equiv> active_memtable t # rev (immutable_memtables (lt_memtables t))"

abbreviation tables_of :: "lsm_tree \<Rightarrow> (u64 \<Rightarrow> (bytes \<times> bytes) list) \<Rightarrow> (bytes \<times> bytes) list list" where
  "tables_of t c \<equiv> map (meta_entries c) (search_order (lt_sstables t))"

text \<open>All there is, the newest first.\<close>

definition tree_entries :: "lsm_tree \<Rightarrow> (u64 \<Rightarrow> (bytes \<times> bytes) list) \<Rightarrow> (bytes \<times> bytes) list list" where
  "tree_entries t c = map sst_entries (memtables_of t) @ tables_of t c"

definition memtable_ok :: "memtable \<Rightarrow> bool" where
  "memtable_ok mt \<longleftrightarrow> mt_ok Bytewise_Compare mt \<and> one_version (mem_entries mt) \<and> (num_entries mt = 0 \<longleftrightarrow> table mt = [])"

definition lsm_ok :: "fs \<Rightarrow> lsm_tree \<Rightarrow> (u64 \<Rightarrow> (bytes \<times> bytes) list) \<Rightarrow> bool" where
  "lsm_ok fs t c \<longleftrightarrow> lt_opened t \<and> mutable_memtable (lt_memtables t) \<noteq> None \<and> \<not> immutable (active_memtable t) \<and>
     (\<forall>mt \<in> set (memtables_of t). memtable_ok mt) \<and> tables_state fs (lt_sstables t) c \<and>
     sorted_wrt newer_than (tree_entries t c)"

text \<open>The answer of a read, from the newest version of the memtables and that of the tables.\<close>

definition lsm_answer :: "(u64 \<times> bytes \<times> bool) option \<Rightarrow> (u64 \<times> bytes \<times> bool) option \<Rightarrow> bytes \<Rightarrow> status \<times> bytes" where
  "lsm_answer m d buffer =
     (if (case m of Some (_, _, deleted) \<Rightarrow> deleted | None \<Rightarrow> False) then (NotFound ''Key was deleted'', buffer)
      else let buffer = (case m of Some (_, v, _) \<Rightarrow> v | None \<Rightarrow> buffer) in
        case d of
          None \<Rightarrow> (if m = None then NotFound ''Key not found'' else OK, buffer)
        | Some (_, v, deleted) \<Rightarrow> if deleted then (NotFound ''Key was deleted'', buffer) else (OK, v))"

lemma tables_state_layered:
  assumes "lsm_ok fs t c" shows "layered (lt_sstables t) c"
  using assms by (simp add: lsm_ok_def layered_def tables_state_def tree_entries_def sorted_wrt_append)

lemma version_cases:
  obtains "d = None" | q v where "d = Some (q, v, True)" | q v where "d = Some (q, v, False)"
proof (cases d)
  case (Some x)
  then show thesis using that by (cases x; cases "snd (snd x)") auto
qed (rule that(1))

lemma lsm_Get_answer:
  assumes ok: "lsm_ok fs t c" and clock: "clock \<noteq> -1"
  shows "\<exists>t'. LSMTree_Get Bytewise_Compare fs clock key buffer snapshot t =
      Some (let (s, v) = lsm_answer (newest_visible (concat (map sst_entries (memtables_of t))) key snapshot)
                    (newest_visible (concat (tables_of t c)) key snapshot) buffer in (s, v, t')) \<and>
    lsm_ok fs t' c \<and> tree_entries t' c = tree_entries t c"
proof -
  let ?M = "memtables_of t" and ?d = "newest_visible (concat (tables_of t c)) key snapshot"
  let ?t = "t\<lparr>lt_num_gets := lt_num_gets t + 1\<rparr>"
  have mok: "\<forall>mt \<in> set ?M. mt_ok Bytewise_Compare mt \<and> one_version (mem_entries mt)"
    using ok unfolding lsm_ok_def memtable_ok_def by blast
  have mut: "mutable_memtable (lt_memtables ?t) = Some (active_memtable t)" "lt_opened t"
    using ok by (auto simp: lsm_ok_def active_memtable_def)
  have srt: "sorted_wrt newer_than (map sst_entries ?M)" using ok by (simp add: lsm_ok_def tree_entries_def sorted_wrt_append)
  have gok: "manager_ok (lt_sstables t)" "tables_ok fs (lt_sstables t) c" using ok by (simp_all add: lsm_ok_def tables_state_def)
  have "metas_ok (lt_sstables t)" "cache_ok (lt_sstables t)" using gok(1) by (simp_all add: manager_ok_def)
  from Manager_Get_newest [OF this clock gok(2) tables_state_layered [OF ok], of key snapshot]
  obtain sg where g: "Manager_Get Bytewise_Compare fs clock key snapshot (lt_sstables t) =
      Some (fst (SstReader_answer ?d), snd (SstReader_answer ?d), sg)" "tables_ok fs sg c" "cache_ok sg"
    "\<exists>c. sg = lt_sstables t\<lparr>sg_reader_cache := c\<rparr>" by blast
  have sg: "search_order sg = search_order (lt_sstables t)" "tables_state fs sg c"
    using g(2-4) ok metas_ok_parts [of sg "lt_sstables t"]
    by (auto simp: search_order_def lsm_ok_def tables_state_def fresh_from_def manager_ok_def GenerateFileName_def Let_def)
  have same: "lsm_ok fs (?t\<lparr>lt_sstables := sg\<rparr>) c" "tree_entries (?t\<lparr>lt_sstables := sg\<rparr>) c = tree_entries t c"
    using ok sg by (simp_all add: lsm_ok_def tree_entries_def active_memtable_def)
  have same2: "lsm_ok fs ?t c" "tree_entries ?t c = tree_entries t c"
    using ok by (simp_all add: lsm_ok_def tree_entries_def active_memtable_def)
  have m: "map_option snd (newest_visible (concat (map sst_entries ?M)) key snapshot) =
      map_option (\<lambda>(t, v). (v, t = kDeletion)) (first_visible ?M key snapshot)"
    by (rule first_visible_newest [OF mok srt])
  have "?M = active_memtable t # rev (immutable_memtables (lt_memtables ?t))" by simp
  from GetFromMemTables_visible [OF mut(1) this, of key buffer snapshot] mok
  obtain s where s: "GetFromMemTables Bytewise_Compare key buffer snapshot ?t =
    (case first_visible ?M key snapshot of
       None \<Rightarrow> (OK, buffer, False)
     | Some (ty, v) \<Rightarrow> if ty = kDeletion then (Deleted ''Key was deleted'', buffer, False) else (s, v, True))"
    "ok s \<or> IsMergeInProgress s" "\<not> IsDeleted s" by blast
  have d: "GetFromSSTables Bytewise_Compare fs clock key v snapshot b ?t =
      Some (fst (SstReader_answer ?d), case snd (SstReader_answer ?d) of Some v' \<Rightarrow> v' | None \<Rightarrow> v,
        b \<or> (ok (fst (SstReader_answer ?d)) \<and> snd (SstReader_answer ?d) \<noteq> None), ?t\<lparr>lt_sstables := sg\<rparr>)" for v b
    using g(1) by (simp add: GetFromSSTables_def)
  note d_cases = version_cases [where d = ?d]
  show ?thesis
  proof (cases "first_visible ?M key snapshot")
    case None
    then have n: "newest_visible (concat (map sst_entries ?M)) key snapshot = None" using m by simp
    have "LSMTree_Get Bytewise_Compare fs clock key buffer snapshot t =
        Some (let (s, v) = lsm_answer None ?d buffer in (s, v, ?t\<lparr>lt_sstables := sg\<rparr>))"
      by (rule d_cases) (simp_all add: lsm_answer_def LSMTree_Get_def SstReader_answer_def s(1) None mut(2) d del: first_visible.simps)
    then show ?thesis unfolding n using same by blast
  next
    case (Some p)
    obtain ty v where p: "p = (ty, v)" by (cases p)
    obtain q where n: "newest_visible (concat (map sst_entries ?M)) key snapshot = Some (q, v, ty = kDeletion)"
      using m Some p by (cases "newest_visible (concat (map sst_entries ?M)) key snapshot") auto
    show ?thesis
    proof (cases "ty = kDeletion")
      case True
      have "LSMTree_Get Bytewise_Compare fs clock key buffer snapshot t = Some (NotFound ''Key was deleted'', buffer, ?t)"
        using s(1) Some p True mut(2) by (simp add: LSMTree_Get_def del: first_visible.simps)
      then show ?thesis unfolding n using True same2 by (auto simp: lsm_answer_def)
    next
      case False
      have "LSMTree_Get Bytewise_Compare fs clock key buffer snapshot t =
          Some (let (s, v) = lsm_answer (Some (q, v, False)) ?d buffer in (s, v, ?t\<lparr>lt_sstables := sg\<rparr>))"
        using s(2,3)
        by (rule_tac d_cases) (auto simp: lsm_answer_def LSMTree_Get_def SstReader_answer_def s(1) Some p False mut(2) d simp del: first_visible.simps)
      then show ?thesis unfolding n using False same by auto
    qed
  qed
qed


section \<open>Writing\<close>

text \<open>A write adds one entry to its memtable.\<close>

definition op_entry :: "mem_op \<Rightarrow> bytes \<times> bytes" where
  "op_entry oper = (InternalKey (op_key oper) (op_seq oper) (fst (op_version oper)), snd (op_version oper))"

lemma apply_entries:
  assumes ok: "mt_ok Bytewise_Compare mt" and im: "\<not> immutable mt" and t56: "take_bit 56 (op_seq oper) = op_seq oper"
    and new: "\<forall>e \<in> set (mem_entries mt). ent_user e = op_key oper \<longrightarrow> ent_seq e < op_seq oper"
  shows "set (mem_entries (mem_apply Bytewise_Compare oper mt)) = insert (op_entry oper) (set (mem_entries mt))"
proof -
  let ?mt = "mem_apply Bytewise_Compare oper mt"
  have ok': "mt_ok Bytewise_Compare ?mt" by (rule bytewise_user.apply_ok [OF ok])
  note av = bytewise_user.apply_versions [OF ok im t56]
  have mem: "e \<in> set (mem_entries x) \<longleftrightarrow> versions x (ent_user e) (ent_seq e) (ent_type e) = Some (snd e) \<and>
      take_bit 56 (ent_seq e) = ent_seq e \<and> fst e = InternalKey (ent_user e) (ent_seq e) (ent_type e)"
    if "mt_ok Bytewise_Compare x" for x e
    using mem_entries_versions(1) [OF that] mem_entries_versions(2) [OF that, of "ent_user e" "ent_seq e" "ent_type e" "snd e"]
    by (metis prod.collapse)
  have parts: "ent_user (op_entry oper) = op_key oper" "ent_seq (op_entry oper) = op_seq oper" "ent_type (op_entry oper) = fst (op_version oper)"
    using t56 by (simp_all add: op_entry_def)
  show ?thesis
  proof (intro set_eqI iffI)
    fix e assume e: "e \<in> set (mem_entries ?mt)"
    note E = e [unfolded mem [OF ok']]
    show "e \<in> insert (op_entry oper) (set (mem_entries mt))"
    proof (cases "ent_user e = op_key oper \<and> ent_seq e = op_seq oper \<and> ent_type e = fst (op_version oper)")
      case True
      then have "snd e = snd (op_version oper)" "fst e = InternalKey (op_key oper) (op_seq oper) (fst (op_version oper))"
        using E av [of "ent_seq e" "ent_user e" "ent_type e"] by auto
      then have "e = op_entry oper" by (metis op_entry_def prod.collapse)
      then show ?thesis by simp
    next
      case False
      then have "e \<in> set (mem_entries mt)" unfolding mem [OF ok] using E av [of "ent_seq e" "ent_user e" "ent_type e"] by auto
      then show ?thesis by simp
    qed
  next
    fix e assume e: "e \<in> insert (op_entry oper) (set (mem_entries mt))"
    show "e \<in> set (mem_entries ?mt)"
    proof (cases "e = op_entry oper")
      case True
      then show ?thesis unfolding mem [OF ok'] using av [of "op_seq oper" "op_key oper" "fst (op_version oper)"] t56 parts
        by (simp add: op_entry_def)
    next
      case False
      then have m: "e \<in> set (mem_entries mt)" using e by simp
      then have "\<not> (ent_user e = op_key oper \<and> ent_seq e = op_seq oper)" using new by auto
      then show ?thesis
        unfolding mem [OF ok'] using m [unfolded mem [OF ok]] av [of "ent_seq e" "ent_user e" "ent_type e"] by auto
    qed
  qed
qed

lemma apply_num_entries: "\<not> immutable mt \<Longrightarrow> num_entries (mem_apply cmp oper mt) = Suc (num_entries mt)"
  by (cases oper) (simp_all add: MemTable_Put_def MemTable_Delete_def MemTable_Merge_def MemTable_CreateEntry_def table_insert_def Let_def)

lemma entries_Nil: "mem_entries mt = [] \<longleftrightarrow> table mt = []" "sst_entries mt = [] \<longleftrightarrow> table mt = []"
proof -
  show 1: "mem_entries mt = [] \<longleftrightarrow> table mt = []" by (simp add: mem_entries_def)
  have "length (sst_entries mt) = length (mem_entries mt)" by (simp add: sst_entries_def)
  then show "sst_entries mt = [] \<longleftrightarrow> table mt = []" using 1 by (metis length_0_conv)
qed

text \<open>The writes of the tree as requests.\<close>

fun lsm_write :: "mem_op \<Rightarrow> lsm_tree \<Rightarrow> status \<times> lsm_tree" where
  "lsm_write (WPut k v s) t = LSMTree_Put Bytewise_Compare k v s t"
| "lsm_write (WDelete k s) t = LSMTree_Delete Bytewise_Compare k s t"
| "lsm_write (WMerge k v s) t = LSMTree_Merge Bytewise_Compare k v s t"

text \<open>A request is new if its sequence number is given and above those its key has.\<close>

definition is_new :: "mem_op \<Rightarrow> lsm_tree \<Rightarrow> (u64 \<Rightarrow> (bytes \<times> bytes) list) \<Rightarrow> bool" where
  "is_new oper t c \<longleftrightarrow> op_seq oper \<noteq> 0 \<and> take_bit 56 (op_seq oper) = op_seq oper \<and>
     (\<forall>es \<in> set (tree_entries t c). \<forall>e \<in> set es. ent_user e = op_key oper \<longrightarrow> ent_seq e < op_seq oper)"

lemma lsm_write_result:
  assumes "lt_opened t" "CheckWriteConditions t \<noteq> kStop" "op_seq oper \<noteq> 0" "\<not> immutable (active_memtable t)"
    and "\<not> MemTableManager_ShouldSwitchMemTable (lt_memtables t)"
  shows "\<exists>t'. lsm_write oper t = (OK, t') \<and> lt_opened t' \<and> lt_sstables t' = lt_sstables t \<and> lt_options t' = lt_options t \<and>
    lt_memtables t' = (lt_memtables t)\<lparr>mutable_memtable := Some (mem_apply Bytewise_Compare oper (active_memtable t))\<rparr> \<and>
    lt_current_memtable t' = lt_current_memtable t"
  using assms
  by (cases oper) (simp_all add: LSMTree_Put_def LSMTree_Delete_def LSMTree_Merge_def public_write_def PutLocked_def DeleteLocked_def
      MergeLocked_def write_locked_def set_active_def MemTable_Put_def MemTable_Delete_def MemTable_Merge_def MemTable_CreateEntry_def count_put_def count_delete_def split_def Let_def)

lemma one_version_insert:
  assumes "one_version es" "\<And>e. e \<in> set es \<Longrightarrow> ent_user e = ent_user x \<Longrightarrow> ent_seq e < ent_seq x" "set es' = insert x (set es)"
  shows "one_version es'"
  unfolding one_version_def assms(3)
proof (intro ballI impI)
  fix e e' assume e: "e \<in> insert x (set es)" "e' \<in> insert x (set es)" and eq: "ent_user e = ent_user e' \<and> ent_seq e = ent_seq e'"
  show "e = e'"
  proof (cases "e = x \<or> e' = x")
    case True
    then show ?thesis using e eq assms(2) [of e] assms(2) [of e'] by (elim disjE) auto
  next
    case False
    then have "e \<in> set es" "e' \<in> set es" using e by auto
    then show ?thesis using assms(1) eq unfolding one_version_def by blast
  qed
qed

lemma newer_than_insert:
  assumes "newer_than a b" "\<And>e. e \<in> set b \<Longrightarrow> ent_user e = ent_user x \<Longrightarrow> ent_seq e < ent_seq x" "set a' = insert x (set a)"
  shows "newer_than a' b"
  unfolding newer_than_def assms(3)
proof (intro ballI impI)
  fix e e' assume e: "e \<in> insert x (set a)" "e' \<in> set b" "ent_user e = ent_user e'"
  show "ent_seq e' < ent_seq e"
  proof (cases "e = x")
    case True then show ?thesis using assms(2) [OF e(2)] e(3) by simp
  next
    case False
    then have "e \<in> set a" using e(1) by simp
    then show ?thesis using assms(1) e(2,3) unfolding newer_than_def by blast
  qed
qed

lemma lsm_write_ok:
  assumes ok: "lsm_ok fs t c" and new: "is_new oper t c" and go: "CheckWriteConditions t \<noteq> kStop"
    and full: "\<not> MemTableManager_ShouldSwitchMemTable (lt_memtables t)"
  shows "\<exists>t' es. lsm_write oper t = (OK, t') \<and> lsm_ok fs t' c \<and>
    tree_entries t c = sst_entries (active_memtable t) # es \<and> tree_entries t' c = sst_entries (active_memtable t') # es \<and>
    set (sst_entries (active_memtable t')) = insert (op_entry oper) (set (sst_entries (active_memtable t))) \<and>
    tables_of t' c = tables_of t c"
proof -
  let ?mt = "active_memtable t" and ?mt' = "mem_apply Bytewise_Compare oper (active_memtable t)"
  have o: "lt_opened t" "\<not> immutable ?mt" "memtable_ok ?mt" using ok by (simp_all add: lsm_ok_def)
  then have mok: "mt_ok Bytewise_Compare ?mt" "one_version (mem_entries ?mt)" by (simp_all add: memtable_ok_def)
  have s0: "op_seq oper \<noteq> 0" using new by (simp add: is_new_def)
  obtain t' where t': "lsm_write oper t = (OK, t')" "lt_opened t'" "lt_sstables t' = lt_sstables t"
    "lt_memtables t' = (lt_memtables t)\<lparr>mutable_memtable := Some ?mt'\<rparr>"
    using lsm_write_result [OF o(1) go s0 o(2) full] by blast
  have t56: "take_bit 56 (op_seq oper) = op_seq oper"
    and lt: "\<And>es e. es \<in> set (tree_entries t c) \<Longrightarrow> e \<in> set es \<Longrightarrow> ent_user e = op_key oper \<Longrightarrow> ent_seq e < op_seq oper"
    using new unfolding is_new_def by blast+
  have a': "active_memtable t' = ?mt'" by (simp add: active_memtable_def t'(4))
  have hd: "sst_entries ?mt \<in> set (tree_entries t c)" by (simp add: tree_entries_def)
  have ent: "set (mem_entries ?mt') = insert (op_entry oper) (set (mem_entries ?mt))"
    by (rule apply_entries [OF mok(1) o(2) t56]) (use lt [OF hd] in simp)
  have parts: "ent_user (op_entry oper) = op_key oper" "ent_seq (op_entry oper) = op_seq oper"
    using t56 by (simp_all add: op_entry_def)
  have one: "one_version (mem_entries ?mt')"
    by (rule one_version_insert [OF mok(2) _ ent]) (use lt [OF hd] parts in simp)
  have "mem_entries ?mt' \<noteq> []" using ent by auto
  then have mt': "memtable_ok ?mt'"
    using bytewise_user.apply_ok [OF mok(1), of oper] one apply_num_entries [OF o(2), of Bytewise_Compare oper]
    by (simp add: memtable_ok_def entries_Nil)
  define es where "es = map sst_entries (rev (immutable_memtables (lt_memtables t))) @ tables_of t c"
  have te: "tree_entries t c = sst_entries ?mt # es" "tree_entries t' c = sst_entries ?mt' # es"
    by (simp_all add: tree_entries_def es_def a' t'(3,4))
  have srt: "sorted_wrt newer_than (sst_entries ?mt # es)" using ok unfolding lsm_ok_def te(1) by blast
  have "newer_than (sst_entries ?mt') b" if b: "b \<in> set es" for b
  proof -
    have n: "newer_than (sst_entries ?mt) b" using srt b by simp
    have "b \<in> set (tree_entries t c)" using b by (simp add: te)
    then have l: "ent_seq e < ent_seq (op_entry oper)" if "e \<in> set b" "ent_user e = ent_user (op_entry oper)" for e
      using lt that unfolding parts by blast
    have "set (sst_entries ?mt') = insert (op_entry oper) (set (sst_entries ?mt))" unfolding set_sst_entries by (rule ent)
    from newer_than_insert [OF n l this] show ?thesis .
  qed
  then have srt': "sorted_wrt newer_than (tree_entries t' c)" using srt by (simp add: te)
  have o': "\<forall>mt \<in> set (rev (immutable_memtables (lt_memtables t))). memtable_ok mt" "tables_state fs (lt_sstables t) c"
    using ok unfolding lsm_ok_def by simp_all
  have "lsm_ok fs t' c"
    by (simp add: lsm_ok_def t'(2-4) a' mt' srt' o(2) o' [simplified])
  moreover have "tables_of t' c = tables_of t c" by (simp add: t'(3))
  ultimately show ?thesis using t'(1) te ent a' by (intro exI [of _ t'] exI [of _ es]) simp
qed

section \<open>Flushing\<close>

lemma GenerateFileName_eq:
  assumes "GenerateFileName n l sg = GenerateFileName k l sg" shows "n = k"
proof -
  let ?s = "''_L'' @ to_string (nat l) @ ''.sst''"
  have d: "takeWhile is_digit (to_string i @ ?s) = to_string i" for i
    using to_string_digits [of i] by (simp add: takeWhile_append2 is_digit_def)
  have "to_string (unat n) @ ?s = to_string (unat k) @ ?s"
    using assms by (simp add: GenerateFileName_def Let_def split: if_splits)
  then have "to_string (unat n) = to_string (unat k)" using d by metis
  then have "unat n = unat k" using digits_value_to_string by metis
  then show ?thesis by (rule unsigned_word_eqI)
qed

lemma GenerateFileName_same: "sg_directory sg' = sg_directory sg \<Longrightarrow> GenerateFileName n l sg' = GenerateFileName n l sg"
  by (simp add: GenerateFileName_def Let_def)

lemma GenerateFileName_length:
  assumes "length (sg_directory sg) < 1000" shows "length (GenerateFileName n 0 sg) < 2 ^ 20"
proof -
  have "unat n < 10 ^ Suc 19" using unsigned_less [of n, where 'a = nat] by simp
  then have "length (to_string (unat n)) \<le> 20" using length_to_string [of "unat n" 19] by simp
  then show ?thesis using assms by (simp add: GenerateFileName_def Let_def to_string.simps [of 0])
qed

text \<open>A memtable the writer can put into a readable file; a small one of text keys always is.\<close>

definition flushes :: "u64 \<Rightarrow> memtable \<Rightarrow> bool" where
  "flushes now mt \<longleftrightarrow> table mt = [] \<or> (\<forall>f. length f < 2 ^ 20 \<longrightarrow> flushable compactor_options mt f now)"

lemma flushes_small:
  assumes "mt_ok Bytewise_Compare mt" "\<forall>e \<in> set (mem_entries mt). text_key (ent_user e)" "entries_bound (mem_entries mt) < 64 * 1024"
  shows "flushes now mt"
  unfolding flushes_def using flushable_default [OF assms(1) _ assms(2,3)] by blast

text \<open>A file system that refuses nothing.\<close>

definition os_all :: "fs \<Rightarrow> bool" where
  "os_all fs \<longleftrightarrow> (\<forall>f. os_allows fs f)"

lemma os_all_touches: "touches f fs fs' \<Longrightarrow> os_all fs \<Longrightarrow> os_all fs'"
  using os_allows_same by (auto simp: os_all_def touches_def)

lemma Manager_flush_state:
  assumes st: "tables_state fs sg c" and n: "sg_next_file_number sg \<noteq> -1" and os: "os_all fs"
    and mt: "mt_ok Bytewise_Compare mt" "table mt \<noteq> []" "flushes now mt"
  shows "\<exists>sg' fs' m c'. Manager_FlushMemTable Bytewise_Compare (Some mt) 0 now sg fs = Some (OK, sg', fs') \<and>
    search_order sg' = m # search_order sg \<and> map (meta_entries c') (search_order sg') = sst_entries mt # map (meta_entries c) (search_order sg) \<and>
    tables_state fs' sg' c' \<and> sg_next_file_number sg' = sg_next_file_number sg + 1 \<and> os_all fs' \<and>
    touches (GenerateFileName (sg_next_file_number sg) 0 sg) fs fs'"
proof -
  let ?n = "sg_next_file_number sg"
  define f where "f = GenerateFileName ?n 0 sg"
  have P: "metas_ok sg" "cache_ok sg" "tables_ok fs sg c" "fresh_from sg" "length (sg_directory sg) < 1000"
    "\<And>k. ?n \<le> k \<Longrightarrow> GenerateFileName k 0 sg \<notin> sm_filename ` ran (map_of (sg_file_meta_map sg))"
    "\<forall>files \<in> set (tl (sg_level_files sg)). sorted_wrt (\<lambda>a b. sm_largest_key a < sm_smallest_key b) files"
    using st by (simp_all add: tables_state_def manager_ok_def)
  have fl: "flushable compactor_options mt f now" using mt(2,3) GenerateFileName_length [OF P(5)] by (simp add: flushes_def f_def)
  have new: "f \<notin> sm_filename ` ran (map_of (sg_file_meta_map sg))" unfolding f_def by (rule P(6)) simp
  have osf: "os_allows fs f" using os by (simp add: os_all_def)
  obtain sg' fs' m where F: "Manager_FlushMemTable Bytewise_Compare (Some mt) 0 now sg fs = Some (OK, sg', fs')"
    "search_order sg' = m # search_order sg" "sm_file_number m = ?n" "sm_filename m = f"
    "tl (sg_level_files sg') = tl (sg_level_files sg)" "sg_directory sg' = sg_directory sg"
    "sg_next_file_number sg' = ?n + 1" "metas_ok sg'" "cache_ok sg'"
    "tables_ok fs' sg' (c(?n := sst_entries mt))" "fresh_from sg'" "touches f fs fs'"
    using Manager_flush [OF P(1-4) n f_def new mt(1) fl osf] by blast
  let ?c = "c(?n := sst_entries mt)"
  have old: "sm_file_number x \<noteq> ?n" if "x \<in> set (search_order sg)" for x
    using that P(4) unfolding set_search_order [OF P(1)] fresh_from_def by auto
  then have ents: "map (meta_entries ?c) (search_order sg') = sst_entries mt # map (meta_entries c) (search_order sg)"
    by (simp add: F(2,3))
  have reg: "x \<in> ran (map_of (sg_file_meta_map s)) \<longleftrightarrow> x \<in> set (search_order s)" if "metas_ok s" for s x
    using set_search_order [OF that] metas_okD(3) [OF that] by (auto simp: ran_def)
  have n1: "1 + ?n \<noteq> 0" using n by (simp add: add.commute eq_neg_iff_add_eq_0)
  have lt: "?n < ?n + 1" using unatSuc [OF n1] by (simp add: word_less_nat_alt add.commute)
  have "GenerateFileName k 0 sg' \<notin> sm_filename ` ran (map_of (sg_file_meta_map sg'))" if k: "?n + 1 \<le> k" for k
  proof
    assume "GenerateFileName k 0 sg' \<in> sm_filename ` ran (map_of (sg_file_meta_map sg'))"
    then obtain x where x: "x \<in> set (search_order sg')" "GenerateFileName k 0 sg = sm_filename x"
      using reg [OF F(8)] GenerateFileName_same [OF F(6)] by auto
    have nk: "?n < k" using lt k by (rule order.strict_trans2)
    then have "GenerateFileName k 0 sg \<noteq> f" unfolding f_def using GenerateFileName_eq by blast
    then have "x \<in> set (search_order sg)" using x F(2,4) by auto
    then have "x \<in> ran (map_of (sg_file_meta_map sg))" unfolding reg [OF P(1)] .
    then have "sm_filename x \<in> sm_filename ` ran (map_of (sg_file_meta_map sg))" by (rule imageI)
    with P(6) [OF less_imp_le [OF nk], unfolded x(2)] show False by contradiction
  qed
  then have "tables_state fs' sg' ?c"
    unfolding tables_state_def F(5,6,7) manager_ok_def using F(8-11) P(5,7) by simp
  from F(1,2) ents this F(7) os_all_touches [OF F(12) os] F(12) [unfolded f_def] show ?thesis by (intro exI conjI)
qed

text \<open>Flushing the oldest memtable moves its entries to the first table: all there is stays the
  same, in the same order of age.\<close>

lemma Empty_iff: "memtable_ok mt \<Longrightarrow> MemTable_Empty mt \<longleftrightarrow> table mt = []"
  by (simp add: memtable_ok_def MemTable_Empty_def)

lemma sorted_wrt_newer_Nil: "sorted_wrt newer_than (xs @ [] # ys) \<longleftrightarrow> sorted_wrt newer_than (xs @ ys)"
  by (simp add: sorted_wrt_append newer_than_def)

lemma FlushOldest_ok:
  assumes ok: "lsm_ok fs t c" and im: "immutable_memtables (lt_memtables t) = mt # mts" and os: "os_all fs"
    and n: "sg_next_file_number (lt_sstables t) \<noteq> -1" and fl: "flushes now mt"
  shows "\<exists>t' fs' c'. FlushOldestMemTable Bytewise_Compare now t fs = Some (OK, t', fs') \<and> lsm_ok fs' t' c' \<and> os_all fs' \<and>
    immutable_memtables (lt_memtables t') = mts \<and> active_memtable t' = active_memtable t \<and> lt_options t' = lt_options t \<and>
    unat (sg_next_file_number (lt_sstables t')) \<le> unat (sg_next_file_number (lt_sstables t)) + 1 \<and>
    concat (tree_entries t' c') = concat (tree_entries t c)"
proof -
  let ?mm = "lt_memtables t" and ?sg = "lt_sstables t"
  have o: "lt_opened t" "mutable_memtable ?mm \<noteq> None" "\<not> immutable (active_memtable t)" "memtable_ok mt" "memtable_ok (active_memtable t)"
    "\<forall>m \<in> set mts. memtable_ok m" "tables_state fs ?sg c"
    using ok im unfolding lsm_ok_def by auto
  have mok: "mt_ok Bytewise_Compare mt" using o(4) by (simp add: memtable_ok_def)
  have rest: "snd (CompleteFlushedMemTable ?mm (mt_id mt)) = ?mm\<lparr>immutable_memtables := mts\<rparr>"
    by (simp add: CompleteFlushedMemTable_def im)
  have te: "tree_entries t c = map sst_entries (active_memtable t # rev mts) @ sst_entries mt # tables_of t c"
    by (simp add: tree_entries_def im)
  have srt: "sorted_wrt newer_than (map sst_entries (active_memtable t # rev mts) @ sst_entries mt # tables_of t c)"
    using ok unfolding lsm_ok_def te by blast
  show ?thesis
  proof (cases "table mt = []")
    case True
    let ?t = "t\<lparr>lt_memtables := ?mm\<lparr>immutable_memtables := mts\<rparr>, lt_num_flushes := lt_num_flushes t + 1\<rparr>"
    have "MemTable_Empty mt" using Empty_iff [OF o(4)] True by simp
    then have run: "FlushOldestMemTable Bytewise_Compare now t fs = Some (OK, ?t, fs)"
      using o(1) by (simp add: FlushOldestMemTable_def GetMemTableForFlush_def im DoFlushMemTable_def rest)
    have a: "active_memtable ?t = active_memtable t" by (simp add: active_memtable_def)
    have e: "sst_entries mt = []" using entries_Nil True by simp
    have te': "tree_entries ?t c = map sst_entries (active_memtable t # rev mts) @ tables_of t c"
      by (simp add: tree_entries_def a)
    have "sorted_wrt newer_than (tree_entries ?t c)" using srt unfolding te' e sorted_wrt_newer_Nil .
    then have "lsm_ok fs ?t c" unfolding lsm_ok_def a using o by simp
    then show ?thesis using run os a te te' e by (intro exI [of _ ?t] exI [of _ fs] exI [of _ c]) simp
  next
    case False
    from Manager_flush_state [OF o(7) n os mok False fl] obtain sg' fs' m c' where
      F: "Manager_FlushMemTable Bytewise_Compare (Some mt) 0 now ?sg fs = Some (OK, sg', fs')"
      "map (meta_entries c') (search_order sg') = sst_entries mt # tables_of t c"
      "tables_state fs' sg' c'" "sg_next_file_number sg' = sg_next_file_number ?sg + 1" "os_all fs'"
      by (elim exE conjE)
    let ?t = "t\<lparr>lt_sstables := sg', lt_memtables := ?mm\<lparr>immutable_memtables := mts\<rparr>, lt_num_flushes := lt_num_flushes t + 1\<rparr>"
    have "\<not> MemTable_Empty mt" using Empty_iff [OF o(4)] False by simp
    then have run: "FlushOldestMemTable Bytewise_Compare now t fs = Some (OK, ?t, fs')"
      using o(1) F(1) by (simp add: FlushOldestMemTable_def GetMemTableForFlush_def im DoFlushMemTable_def rest)
    have a: "active_memtable ?t = active_memtable t" by (simp add: active_memtable_def)
    have te': "tree_entries ?t c' = tree_entries t c" unfolding te by (simp add: tree_entries_def a F(2))
    have "sorted_wrt newer_than (tree_entries ?t c')" using srt unfolding te' te .
    then have "lsm_ok fs' ?t c'" unfolding lsm_ok_def a using o F(3) by simp
    moreover have "unat (sg_next_file_number sg') \<le> unat (sg_next_file_number ?sg) + 1"
      unfolding F(4) by (simp add: unat_word_ariths)
    ultimately show ?thesis using run F(5) a te' by (intro exI [of _ ?t] exI [of _ fs'] exI [of _ c']) simp
  qed
qed

lemma flush_immutables_ok:
  assumes "lsm_ok fs t c" "os_all fs" "\<forall>mt \<in> set (immutable_memtables (lt_memtables t)). flushes now mt"
    and "unat (sg_next_file_number (lt_sstables t)) + num_immutable t < 2 ^ 64 - 1" "num_immutable t \<le> fuel"
  shows "\<exists>t' fs' c'. flush_immutables Bytewise_Compare now fuel t fs = Some (OK, t', fs') \<and> lsm_ok fs' t' c' \<and> os_all fs' \<and>
    immutable_memtables (lt_memtables t') = [] \<and> active_memtable t' = active_memtable t \<and>
    concat (tree_entries t' c') = concat (tree_entries t c)"
  using assms
proof (induction fuel arbitrary: t fs c)
  case 0
  then show ?case by (intro exI [of _ t] exI [of _ fs] exI [of _ c]) (subst flush_immutables.simps, simp)
next
  case (Suc fuel)
  show ?case
  proof (cases "immutable_memtables (lt_memtables t)")
    case Nil
    then show ?thesis using Suc.prems by (intro exI [of _ t] exI [of _ fs] exI [of _ c]) (subst flush_immutables.simps, simp)
  next
    case (Cons mt mts)
    have "sg_next_file_number (lt_sstables t) \<noteq> -1"
    proof
      assume "sg_next_file_number (lt_sstables t) = -1"
      then show False using Suc.prems(4) by (simp add: unsigned_minus_1_eq_mask mask_eq_exp_minus_1)
    qed
    moreover have "flushes now mt" using Suc.prems(3) Cons by simp
    ultimately obtain t1 fs1 c1 where 1: "FlushOldestMemTable Bytewise_Compare now t fs = Some (OK, t1, fs1)" "lsm_ok fs1 t1 c1"
      "os_all fs1" "immutable_memtables (lt_memtables t1) = mts" "active_memtable t1 = active_memtable t"
      "unat (sg_next_file_number (lt_sstables t1)) \<le> unat (sg_next_file_number (lt_sstables t)) + 1"
      "concat (tree_entries t1 c1) = concat (tree_entries t c)"
      using FlushOldest_ok [OF Suc.prems(1) Cons Suc.prems(2)] by blast
    have "\<forall>mt \<in> set (immutable_memtables (lt_memtables t1)). flushes now mt"
      "unat (sg_next_file_number (lt_sstables t1)) + num_immutable t1 < 2 ^ 64 - 1" "num_immutable t1 \<le> fuel"
      using Suc.prems(3-5) Cons 1(4,6) by simp_all
    from Suc.IH [OF 1(2,3) this] obtain t' fs' c' where
      2: "flush_immutables Bytewise_Compare now fuel t1 fs1 = Some (OK, t', fs')" "lsm_ok fs' t' c'" "os_all fs'"
      "immutable_memtables (lt_memtables t') = []" "active_memtable t' = active_memtable t1"
      "concat (tree_entries t' c') = concat (tree_entries t1 c1)" by blast
    have "flush_immutables Bytewise_Compare now (Suc fuel) t fs = Some (OK, t', fs')"
      by (subst flush_immutables.simps) (simp add: Cons 1(1) 2(1))
    then show ?thesis using 2 1(5,7) by (intro exI [of _ t'] exI [of _ fs'] exI [of _ c']) simp
  qed
qed

lemma SetImmutable_same [simp]:
  "table (MemTable_SetImmutable mt) = table mt" "num_entries (MemTable_SetImmutable mt) = num_entries mt"
  "mem_entries (MemTable_SetImmutable mt) = mem_entries mt" "sst_entries (MemTable_SetImmutable mt) = sst_entries mt"
  "memtable_ok (MemTable_SetImmutable mt) = memtable_ok mt" "flushes now (MemTable_SetImmutable mt) = flushes now mt"
  by (simp_all add: MemTable_SetImmutable_def mem_entries_def sst_entries_def memtable_ok_def mt_ok_def flushes_def flushable_def)

lemma fresh_memtable:
  "memtable_ok (MemTable_Ref (MemTable_new a st se o'))" "\<not> immutable (MemTable_Ref (MemTable_new a st se o'))"
  "sst_entries (MemTable_Ref (MemTable_new a st se o')) = []"
  using MemTable_new_ok [of Bytewise_Compare a st se o']
  by (simp_all add: memtable_ok_def MemTable_Ref_def MemTable_new_def mem_entries_def sst_entries_def one_version_def mt_ok_def)

text \<open>Room for one more immutable table.\<close>

definition can_switch :: "lsm_tree \<Rightarrow> bool" where
  "can_switch t \<longleftrightarrow> int (num_immutable t) < (int (max_write_buffer_number (mm_options (lt_memtables t))) - 1) mod 2 ^ 64"

lemma MakeImmutable_ok:
  assumes ok: "lsm_ok fs t c" and room: "can_switch t"
  shows "\<exists>t'. MakeMemTableImmutable t = (OK, t') \<and> lsm_ok fs t' c \<and> sst_entries (active_memtable t') = [] \<and>
    immutable_memtables (lt_memtables t') = immutable_memtables (lt_memtables t) @ [MemTable_SetImmutable (active_memtable t)] \<and>
    lt_sstables t' = lt_sstables t \<and> tree_entries t' c = [] # tree_entries t c"
proof -
  let ?mt = "active_memtable t"
  have o: "lt_opened t" "mutable_memtable (lt_memtables t) = Some ?mt" "\<forall>m \<in> set (memtables_of t). memtable_ok m"
    "tables_state fs (lt_sstables t) c" "sorted_wrt newer_than (tree_entries t c)"
    using ok by (auto simp: lsm_ok_def active_memtable_def)
  obtain t' where t': "MakeMemTableImmutable t = (OK, t')" "lt_opened t'" "lt_sstables t' = lt_sstables t"
    "immutable_memtables (lt_memtables t') = immutable_memtables (lt_memtables t) @ [MemTable_SetImmutable ?mt]"
    "\<exists>a st se o'. mutable_memtable (lt_memtables t') = Some (MemTable_Ref (MemTable_new a st se o'))"
    using o(1,2) room by (simp add: MakeMemTableImmutable_def MemTableManager_SwitchMemTable_def CreateNewMemTable_def can_switch_def) blast
  have a: "memtable_ok (active_memtable t')" "\<not> immutable (active_memtable t')" "sst_entries (active_memtable t') = []"
    "mutable_memtable (lt_memtables t') \<noteq> None"
    using t'(5) fresh_memtable by (auto simp: active_memtable_def)
  have te: "tree_entries t' c = [] # tree_entries t c" by (simp add: tree_entries_def t'(3,4) a(3))
  have "sorted_wrt newer_than (tree_entries t' c)" using o(5) unfolding te by (simp add: newer_than_def)
  moreover have "\<forall>m \<in> set (memtables_of t'). memtable_ok m" using o(3) a(1) by (simp add: t'(4))
  ultimately have "lsm_ok fs t' c" using t'(2,3) o(4) a by (simp add: lsm_ok_def)
  then show ?thesis using t'(1,3,4) a(3) te by blast
qed

lemma FlushAll_ok:
  assumes ok: "lsm_ok fs t c" and os: "os_all fs" and fl: "\<forall>mt \<in> set (memtables_of t). flushes now mt"
    and n: "unat (sg_next_file_number (lt_sstables t)) + num_immutable t + 2 < 2 ^ 64" and room: "can_switch t"
  shows "\<exists>t' fs' c'. FlushAll Bytewise_Compare now t fs = Some (OK, t', fs') \<and> lsm_ok fs' t' c' \<and> os_all fs' \<and>
    concat (map sst_entries (memtables_of t')) = [] \<and> concat (tables_of t' c') = concat (tree_entries t c)"
proof -
  have o: "lt_opened t" "memtable_ok (active_memtable t)" using ok by (simp_all add: lsm_ok_def)
  obtain t1 where 1: "(if \<not> MemTable_Empty (active_memtable t) then MakeMemTableImmutable t else (OK, t)) = (OK, t1)"
    "lsm_ok fs t1 c" "sst_entries (active_memtable t1) = []" "\<forall>mt \<in> set (immutable_memtables (lt_memtables t1)). flushes now mt"
    "unat (sg_next_file_number (lt_sstables t1)) + num_immutable t1 < 2 ^ 64 - 1"
    "concat (tree_entries t1 c) = concat (tree_entries t c)"
  proof (cases "MemTable_Empty (active_memtable t)")
    case True
    then have "sst_entries (active_memtable t) = []" using Empty_iff [OF o(2)] entries_Nil by simp
    then show ?thesis using True ok fl n by (intro that [of t]) simp_all
  next
    case False
    from MakeImmutable_ok [OF ok room] obtain t' where
      t': "MakeMemTableImmutable t = (OK, t')" "lsm_ok fs t' c" "sst_entries (active_memtable t') = []"
      "immutable_memtables (lt_memtables t') = immutable_memtables (lt_memtables t) @ [MemTable_SetImmutable (active_memtable t)]"
      "lt_sstables t' = lt_sstables t" "tree_entries t' c = [] # tree_entries t c" by blast
    show ?thesis using False t' fl n by (intro that [of t']) simp_all
  qed
  from flush_immutables_ok [OF 1(2) os 1(4,5) order.refl] obtain t' fs' c' where
    2: "flush_immutables Bytewise_Compare now (num_immutable t1) t1 fs = Some (OK, t', fs')" "lsm_ok fs' t' c'" "os_all fs'"
    "immutable_memtables (lt_memtables t') = []" "active_memtable t' = active_memtable t1"
    "concat (tree_entries t' c') = concat (tree_entries t1 c)" by blast
  have "FlushAll Bytewise_Compare now t fs = Some (OK, t', fs')"
    using o(1) 2(1) by (simp add: FlushAll_def 1(1) del: if_not_P)
  moreover have m: "concat (map sst_entries (memtables_of t')) = []" using 1(3) 2(4,5) by simp
  moreover have "concat (tables_of t' c') = concat (tree_entries t c)"
    using 2(6) 1(6) m unfolding tree_entries_def by (simp only: concat_append append_Nil)
  ultimately show ?thesis using 2(2,3) by blast
qed

section \<open>A write and what reads it\<close>

text \<open>A new request is the newest version of its key in the memtables.\<close>

lemma write_then_get:
  assumes ok: "lsm_ok fs t c" and new: "is_new oper t c" and go: "CheckWriteConditions t \<noteq> kStop"
    and full: "\<not> MemTableManager_ShouldSwitchMemTable (lt_memtables t)" and clock: "clock \<noteq> -1"
  shows "\<exists>t' t''. lsm_write oper t = (OK, t') \<and>
    LSMTree_Get Bytewise_Compare fs clock (op_key oper) buffer 0 t' =
      Some (let (s, v) = lsm_answer (Some (op_seq oper, snd (op_version oper), fst (op_version oper) = kDeletion))
                           (newest_visible (concat (tables_of t c)) (op_key oper) 0) buffer in (s, v, t''))"
proof -
  from lsm_write_ok [OF ok new go full] obtain t' es where
    w: "lsm_write oper t = (OK, t')" "lsm_ok fs t' c" "tree_entries t c = sst_entries (active_memtable t) # es"
    "tree_entries t' c = sst_entries (active_memtable t') # es" "tables_of t' c = tables_of t c"
    "set (sst_entries (active_memtable t')) = insert (op_entry oper) (set (sst_entries (active_memtable t)))"
    by blast
  have t56: "take_bit 56 (op_seq oper) = op_seq oper"
    and lt: "\<And>xs e. xs \<in> set (tree_entries t c) \<Longrightarrow> e \<in> set xs \<Longrightarrow> ent_user e = op_key oper \<Longrightarrow> ent_seq e < op_seq oper"
    using new unfolding is_new_def by blast+
  let ?e = "op_entry oper" and ?es = "concat (map sst_entries (memtables_of t'))"
  have sub: "set ?es \<subseteq> insert ?e (set (concat (tree_entries t c)))"
  proof -
    have "set ?es \<subseteq> set (concat (tree_entries t' c))" unfolding tree_entries_def by auto
    then show ?thesis using w(6) unfolding w(3,4) by auto
  qed
  have parts: "ent_user ?e = op_key oper" "ent_seq ?e = op_seq oper" "ent_type ?e = fst (op_version oper)" "snd ?e = snd (op_version oper)"
    using t56 by (simp_all add: op_entry_def)
  have "newest_visible ?es (op_key oper) 0 = Some (ent_seq ?e, snd ?e, ent_type ?e = kDeletion)"
  proof (rule newest_visible_only)
    have "?e \<in> set (sst_entries (active_memtable t'))" unfolding w(6) by blast
    then show "?e \<in> set ?es" by simp
    show "ent_wanted (op_key oper) 0 ?e" using parts by (simp add: ent_wanted_def visible_at_def)
    show "\<forall>e' \<in> set ?es. ent_wanted (op_key oper) 0 e' \<and> e' \<noteq> ?e \<longrightarrow> ent_seq e' < ent_seq ?e"
    proof (intro ballI impI)
      fix e' assume e': "e' \<in> set ?es" "ent_wanted (op_key oper) 0 e' \<and> e' \<noteq> ?e"
      have "e' \<in> set (concat (tree_entries t c))" using subsetD [OF sub e'(1)] e'(2) by blast
      then obtain xs where "xs \<in> set (tree_entries t c)" "e' \<in> set xs" unfolding set_concat by blast
      then show "ent_seq e' < ent_seq ?e" using lt [of xs e'] e'(2) unfolding parts ent_wanted_def by blast
    qed
  qed
  then have n: "newest_visible ?es (op_key oper) 0 = Some (op_seq oper, snd (op_version oper), fst (op_version oper) = kDeletion)"
    unfolding parts .
  show ?thesis using w(1) lsm_Get_answer [OF w(2) clock, of "op_key oper" buffer 0] unfolding n w(5) by blast
qed

section \<open>An example\<close>

text \<open>A tree just opened on an empty directory, with the example table flushed to its manager.\<close>

definition opened_tree :: lsm_tree where
  "opened_tree = snd (LSMTree_Open Bytewise_Compare (\<lambda>_. OK) (Some []) 100 50
     (LSMTree (MemTableManager_new \<lparr>write_buffer_size = 1, max_write_buffer_number = 2\<rparr> 0 0) (SSTableManager 10 ''d'') LSMTreeOptions)
     example_fs)"

lemma opened_tree_parts:
  "lt_opened opened_tree" "lt_memtables opened_tree = MemTableManager_new \<lparr>write_buffer_size = 64 * 1024 * 1024, max_write_buffer_number = 4\<rparr> 100 50"
  "lt_options opened_tree = LSMTreeOptions" "\<not> lt_write_stop opened_tree" "lt_sstables opened_tree = SSTableManager 1000 ''./db/sstables''"
  by (simp_all add: opened_tree_def LSMTree_Open_def LSMTree_def ValidateOptions_def LSMTreeOptions_def CreateDirectories_def
      InitializeComponents_def LoadExistingSSTables_def)

lemma new_tables_state: "length d < 1000 \<Longrightarrow> tables_state fs (SSTableManager n d) (\<lambda>_. [])"
  using new_manager_ok [of n d] search_order_new [of n d]
  by (simp add: tables_state_def tables_ok_def fresh_from_def SSTableManager_def)

definition shown_table :: memtable where
  "shown_table = example_table"

lemma shown_entries: "mem_entries shown_table =
  [(InternalKey [97] 7 kValue, [20]), (InternalKey [97] 5 kValue, [10]), (InternalKey [98] 6 kDeletion, [])]"
  by (simp add: shown_table_def mem_entries_def mem_run_def MemTable_new_def MemTable_Put_def MemTable_Delete_def MemTable_CreateEntry_def
      Let_def Compare_InternalKey Bytewise_Compare_lex seq_type_cmp_def)

lemma shown_newest: "newest_visible (sst_entries shown_table) [97] 0 = Some (7, [20], False)"
  unfolding shown_table_def by (rule example_newest)

lemma example_state:
  "\<exists>t fs c. lsm_ok fs t c \<and> tree_entries t c = [[], sst_entries shown_table] \<and> tables_of t c = [sst_entries shown_table] \<and>
     os_all fs \<and> CheckWriteConditions t \<noteq> kStop \<and> \<not> MemTableManager_ShouldSwitchMemTable (lt_memtables t) \<and>
     immutable_memtables (lt_memtables t) = [] \<and> table (active_memtable t) = [] \<and>
     max_write_buffer_number (mm_options (lt_memtables t)) = 4 \<and> sg_next_file_number (lt_sstables t) = 2"
proof -
  let ?sg = "SSTableManager 1000 ''./db/sstables''"
  have ne: "table shown_table \<noteq> []" using shown_entries by (auto simp: mem_entries_def)
  have mok: "mt_ok Bytewise_Compare shown_table" unfolding shown_table_def by (rule bytewise_user.run_ok [OF MemTable_new_ok])
  have fl: "flushes 1000 shown_table"
    by (rule flushes_small [OF mok, unfolded shown_entries]) (simp_all add: text_key_def entries_bound_def)
  have n: "sg_next_file_number ?sg = 1" by (simp add: SSTableManager_def)
  have os: "os_all example_fs" by (simp add: os_all_def os_allows_def)
  have st: "tables_state example_fs ?sg (\<lambda>_. [])" by (rule new_tables_state) simp
  have "sg_next_file_number ?sg \<noteq> -1" by (simp add: n)
  from Manager_flush_state [OF st this os mok ne fl] obtain sg fs m c where
    F: "search_order sg = m # search_order ?sg" "map (meta_entries c) (search_order sg) = sst_entries shown_table # map (meta_entries (\<lambda>_. [])) (search_order ?sg)"
    "tables_state fs sg c" "sg_next_file_number sg = sg_next_file_number ?sg + 1" "os_all fs"
    by (elim exE conjE)
  let ?t = "opened_tree\<lparr>lt_sstables := sg\<rparr>"
  have a: "active_memtable ?t = MemTable_Ref (MemTable_new 0 100 50 \<lparr>write_buffer_size = 64 * 1024 * 1024, max_write_buffer_number = 4\<rparr>)"
    "immutable_memtables (lt_memtables ?t) = []" "mutable_memtable (lt_memtables ?t) \<noteq> None"
    by (simp_all add: active_memtable_def opened_tree_parts MemTableManager_new_def CreateNewMemTable_def)
  have im: "immutable_memtables (lt_memtables opened_tree) = []" by (simp add: opened_tree_parts MemTableManager_new_def CreateNewMemTable_def)
  have tab: "tables_of ?t c = [sst_entries shown_table]" by (simp add: F(2) search_order_new)
  have te: "tree_entries ?t c = [[], sst_entries shown_table]" unfolding tree_entries_def tab by (simp add: a im fresh_memtable)
  have lok: "lsm_ok fs ?t c"
    unfolding lsm_ok_def te using a fresh_memtable F(3) by (simp add: opened_tree_parts newer_than_def)
  have "length (concat (sg_level_files sg)) = 1"
    using arg_cong [OF F(1), of length] unfolding search_order_new by (cases "sg_level_files sg") (simp_all add: search_order_def)
  then have "length (GetLevelFiles 0 sg) \<le> 1" by (cases "sg_level_files sg") (simp_all add: GetLevelFiles_def level_index_def)
  then have go: "CheckWriteConditions ?t \<noteq> kStop"
    by (simp add: CheckWriteConditions_def opened_tree_parts LSMTreeOptions_def Let_def)
  have "\<not> MemTableManager_ShouldSwitchMemTable (lt_memtables ?t)" "table (active_memtable ?t) = []"
    "max_write_buffer_number (mm_options (lt_memtables ?t)) = 4"
    unfolding a by (simp_all add: MemTableManager_ShouldSwitchMemTable_def opened_tree_parts MemTableManager_new_def CreateNewMemTable_def
        MemTable_ShouldFlush_def MemTable_new_def MemTable_Ref_def)
  then show ?thesis using lok te tab F(4,5) go im n by (intro exI [of _ ?t] exI [of _ fs] exI [of _ c]) simp
qed

section \<open>Theorems\<close>



text \<open>C11: a write to a key the tables have a value for is not read back. The search goes on to the
  tables after it has found the key in a memtable, and what it finds there replaces the newer value:
  after the put of \<open>v\<close>, \<open>Get\<close> answers with the old value.\<close>

theorem table_value_hides_put:
  assumes "lsm_ok fs t c" "is_new (WPut k v s) t c" "CheckWriteConditions t \<noteq> kStop"
    and "\<not> MemTableManager_ShouldSwitchMemTable (lt_memtables t)" "clock \<noteq> -1"
    and "newest_visible (concat (tables_of t c)) k 0 = Some (q, old, False)"
  shows "\<exists>t' t''. LSMTree_Put Bytewise_Compare k v s t = (OK, t') \<and>
    LSMTree_Get Bytewise_Compare fs clock k buffer 0 t' = Some (OK, old, t'')"
  using write_then_get [OF assms(1-5), of buffer] assms(6) by (simp add: lsm_answer_def)

theorem table_value_hides_put_witness:
  "\<exists>t fs t' t''. LSMTree_Put Bytewise_Compare [97] [30] 9 t = (OK, t') \<and>
     LSMTree_Get Bytewise_Compare fs 1 [97] [] 0 t' = Some (OK, [20], t'')"
proof -
  obtain t fs c where t: "lsm_ok fs t c" "tree_entries t c = [[], sst_entries shown_table]"
    "tables_of t c = [sst_entries shown_table]" "os_all fs" "CheckWriteConditions t \<noteq> kStop"
    "\<not> MemTableManager_ShouldSwitchMemTable (lt_memtables t)" "immutable_memtables (lt_memtables t) = []"
    "table (active_memtable t) = []" "max_write_buffer_number (mm_options (lt_memtables t)) = 4"
    "sg_next_file_number (lt_sstables t) = 2"
    using example_state by (elim exE conjE)
  have n: "is_new (WPut [97] [30] 9) t c"
    unfolding is_new_def t(2) by (simp add: take_bit_eq_mod shown_entries)
  have v: "newest_visible (concat (tables_of t c)) [97] 0 = Some (7, [20], False)"
    by (simp only: t(3) concat.simps append_Nil2 shown_newest)
  have "(1::u64) \<noteq> -1" by simp
  from table_value_hides_put [OF t(1) n t(5,6) this v, of "[]"] show ?thesis by blast
qed

text \<open>C9: once all memtables are flushed, every read is right. \<open>FlushAll\<close> of a tree in good order
  succeeds when the immutable list has room and each memtable is one the table writer can store, and
  afterwards \<open>Get\<close> answers, for every key and snapshot, as the newest visible version among all
  entries the tree had says.\<close>

theorem flush_all_reads_newest:
  assumes "lsm_ok fs t c" "os_all fs" "\<forall>mt \<in> set (memtables_of t). flushes now mt" "can_switch t" "clock \<noteq> -1"
    and "unat (sg_next_file_number (lt_sstables t)) + num_immutable t + 2 < 2 ^ 64"
  shows "\<exists>t' fs'. FlushAll Bytewise_Compare now t fs = Some (OK, t', fs') \<and>
    (\<forall>key snapshot buffer. \<exists>t''. LSMTree_Get Bytewise_Compare fs' clock key buffer snapshot t' =
      Some (case newest_visible (concat (tree_entries t c)) key snapshot of
          None \<Rightarrow> (NotFound ''Key not found'', buffer, t'')
        | Some (_, v, deleted) \<Rightarrow> if deleted then (NotFound ''Key was deleted'', buffer, t'') else (OK, v, t'')))"
proof -
  from FlushAll_ok [OF assms(1,2,3,6,4)] obtain t' fs' c' where
    f: "FlushAll Bytewise_Compare now t fs = Some (OK, t', fs')" "lsm_ok fs' t' c'"
    "concat (map sst_entries (memtables_of t')) = []" "concat (tables_of t' c') = concat (tree_entries t c)" by blast
  let ?d = "\<lambda>key snapshot. newest_visible (concat (tree_entries t c)) key snapshot"
  have "\<exists>t''. LSMTree_Get Bytewise_Compare fs' clock key buffer snapshot t' =
      Some (case ?d key snapshot of
          None \<Rightarrow> (NotFound ''Key not found'', buffer, t'')
        | Some (_, v, deleted) \<Rightarrow> if deleted then (NotFound ''Key was deleted'', buffer, t'') else (OK, v, t''))"
    for key snapshot buffer
  proof -
    have "newest_visible [] key snapshot = None" by (simp add: newest_visible_def)
    then obtain t'' where g: "LSMTree_Get Bytewise_Compare fs' clock key buffer snapshot t' =
        Some (let (s, v) = lsm_answer None (?d key snapshot) buffer in (s, v, t''))"
      using lsm_Get_answer [OF f(2) assms(5), of key buffer snapshot] unfolding f(3,4) by auto
    show ?thesis
      unfolding g by (intro exI [of _ t''], rule version_cases [of "?d key snapshot"]) (simp_all add: lsm_answer_def)
  qed
  then show ?thesis using f(1) by blast
qed

theorem flush_all_reads_newest_witness:
  "\<exists>t fs t' fs' t''. FlushAll Bytewise_Compare 1000 t fs = Some (OK, t', fs') \<and>
     LSMTree_Get Bytewise_Compare fs' 1 [97] [] 0 t' = Some (OK, [20], t'')"
proof -
  obtain t fs c where t: "lsm_ok fs t c" "tree_entries t c = [[], sst_entries shown_table]"
    "tables_of t c = [sst_entries shown_table]" "os_all fs" "CheckWriteConditions t \<noteq> kStop"
    "\<not> MemTableManager_ShouldSwitchMemTable (lt_memtables t)" "immutable_memtables (lt_memtables t) = []"
    "table (active_memtable t) = []" "max_write_buffer_number (mm_options (lt_memtables t)) = 4"
    "sg_next_file_number (lt_sstables t) = 2"
    using example_state by (elim exE conjE)
  have fl: "\<forall>mt \<in> set (memtables_of t). flushes 1000 mt" by (simp add: t(7,8) flushes_def)
  have room: "can_switch t" by (simp add: can_switch_def t(7,9))
  have n: "unat (sg_next_file_number (lt_sstables t)) + num_immutable t + 2 < 2 ^ 64" by (simp add: t(7,10))
  have v: "newest_visible (concat (tree_entries t c)) [97] 0 = Some (7, [20], False)"
    by (simp only: t(2) concat.simps append_Nil append_Nil2 shown_newest)
  have "(1::u64) \<noteq> -1" by simp
  from flush_all_reads_newest [OF t(1,4) fl room this n] obtain t' fs' t'' where
    "FlushAll Bytewise_Compare 1000 t fs = Some (OK, t', fs')"
    "LSMTree_Get Bytewise_Compare fs' 1 [97] [] 0 t' =
      Some (case newest_visible (concat (tree_entries t c)) [97] 0 of
          None \<Rightarrow> (NotFound ''Key not found'', [], t'')
        | Some (_, v, deleted) \<Rightarrow> if deleted then (NotFound ''Key was deleted'', [], t'') else (OK, v, t''))" by blast
  then show ?thesis unfolding v prod.case option.case if_False by blast
qed

end
