(* ===== verification/Manifests.thy ===== *)
theory Manifests
  imports WalManager SSTables
begin

text \<open>
  The MANIFEST (include/lrdb/db/manifest.h, src/db/manifest.cc): the log of created, changed and
  dropped column families, its records, writer, reader and manager, and recovery from it. A write
  stays in the output stream's buffer until the stream is flushed or its capacity is exceeded.
  \<open>Undefined\<close> is a read beyond the bytes that are there, \<open>Spent\<close> fuel that ran out. The order of
  a hash map is that of a list. Directories always exist; log output is left out.
\<close>

datatype 'a run = Ret 'a | Undefined | Spent

section \<open>Options\<close>

text \<open>
  A comparator is referred to by its address: the two that the library provides as singletons, or
  another one, with the name it answers. Of the options, the fields that some code reads.
\<close>

datatype cmp_ref = Bytewise_ref | Reverse_ref | Custom_ref nat bytes

fun Comparator_Name :: "cmp_ref \<Rightarrow> bytes" where
  "Comparator_Name Bytewise_ref = bytes_of_string ''lrdb.BytewiseComparator''"
| "Comparator_Name Reverse_ref = bytes_of_string ''lrdb.ReverseBytewiseComparator''"
| "Comparator_Name (Custom_ref a n) = n"

record cf_options =
  co_comparator :: "cmp_ref option"
  co_write_buffer_size :: u64
  co_max_write_buffer_number :: u32
  co_level0_compaction :: u32
  co_level0_slowdown :: u32
  co_level0_stop :: u32
  co_target_file_size :: u64
  co_max_bytes :: u64
  co_compression :: byte

definition ColumnFamilyOptions_new :: cf_options where
  "ColumnFamilyOptions_new = \<lparr>co_comparator = None, co_write_buffer_size = 64 * 1024 * 1024,
     co_max_write_buffer_number = 2, co_level0_compaction = 4, co_level0_slowdown = 20,
     co_level0_stop = 36, co_target_file_size = 64 * 1024 * 1024,
     co_max_bytes = 256 * 1024 * 1024, co_compression = 1\<rparr>"

definition EncodeColumnFamilyOptions :: "cf_options \<Rightarrow> bytes" where
  "EncodeColumnFamilyOptions opts =
     (let result = PutFixed32 [] (64 * 1024 * 1024);
          result = PutFixed32 result (co_max_write_buffer_number opts);
          result = PutFixed32 result (co_level0_compaction opts);
          result = PutFixed32 result (co_level0_slowdown opts);
          result = PutFixed32 result (co_level0_stop opts);
          result = PutFixed64 result (co_target_file_size opts);
          result = PutFixed64 result (co_max_bytes opts);
          result = result @ [co_compression opts];
          comparator_name = (case co_comparator opts of Some c \<Rightarrow> Comparator_Name c | None \<Rightarrow> []);
          comparator_name = (if length comparator_name > 255 then take 255 comparator_name else comparator_name)
      in result @ [of_nat (length comparator_name)] @ comparator_name)"

text \<open>
  A slice of \<open>n\<close> bytes at the start of what can be read, \<open>buf\<close>. Only the first size test is on the
  slice: the fields it has room for end at byte 33, the ones that are read at byte 37.
\<close>

definition DecodeColumnFamilyOptions :: "bytes \<Rightarrow> nat \<Rightarrow> cf_options \<Rightarrow> (status \<times> cf_options) run" where
  "DecodeColumnFamilyOptions buf n opts =
     (if n < 33 then Ret (Corruption ''ColumnFamilyOptions data too short'', opts)
      else if length buf < 37 then Undefined
      else let opts = opts\<lparr>co_max_write_buffer_number := the (DecodeFixed32 (drop 4 buf)),
                 co_level0_compaction := the (DecodeFixed32 (drop 8 buf)),
                 co_level0_slowdown := the (DecodeFixed32 (drop 12 buf)),
                 co_level0_stop := the (DecodeFixed32 (drop 16 buf)),
                 co_target_file_size := the (DecodeFixed64 (drop 20 buf)),
                 co_max_bytes := the (DecodeFixed64 (drop 28 buf)),
                 co_compression := buf ! 36\<rparr>
      in if \<not> 37 < n then Ret (OK, opts)
      else if length buf < 38 then Undefined
      else let name_len = unat (buf ! 37)
      in if \<not> 38 + name_len \<le> n then Ret (OK, opts)
      else if length buf < 38 + name_len then Undefined
      else if take name_len (drop 38 buf) = bytes_of_string ''lrdb.ReverseBytewiseComparator''
      then Ret (OK, opts\<lparr>co_comparator := Some Reverse_ref\<rparr>)
      else Ret (OK, opts\<lparr>co_comparator := Some Bytewise_ref\<rparr>))"

section \<open>Descriptors\<close>

record cf_descriptor =
  cd_id :: u32
  cd_name :: bytes
  cd_options :: cf_options
  cd_is_dropped :: bool
  cd_create_sequence :: u64
  cd_drop_sequence :: u64

definition ColumnFamilyDescriptor_new :: "u32 \<Rightarrow> bytes \<Rightarrow> cf_options \<Rightarrow> cf_descriptor" where
  "ColumnFamilyDescriptor_new i n opts = \<lparr>cd_id = i, cd_name = n, cd_options = opts,
     cd_is_dropped = False, cd_create_sequence = 0, cd_drop_sequence = 0\<rparr>"

definition Descriptor_Encode :: "cf_descriptor \<Rightarrow> bytes" where
  "Descriptor_Encode d =
     (let result = PutFixed32 [] (cd_id d);
          result = PutFixed32 result (of_nat (length (cd_name d)));
          result = result @ cd_name d;
          result = result @ [if cd_is_dropped d then 1 else 0];
          result = PutFixed64 result (cd_create_sequence d);
          result = PutFixed64 result (cd_drop_sequence d);
          options_data = EncodeColumnFamilyOptions (cd_options d);
          result = PutFixed32 result (of_nat (length options_data))
      in result @ options_data)"

text \<open>
  The bytes of a \<open>std::string\<close>, with the 0 after its last byte. The sum \<open>25 + name_len\<close> is
  computed in 32 bits.
\<close>

definition Descriptor_Decode :: "bytes \<Rightarrow> cf_descriptor \<Rightarrow> (status \<times> cf_descriptor) run" where
  "Descriptor_Decode data d =
     (if length data < 25 then Ret (Corruption ''ColumnFamilyDescriptor data too short'', d) else
      let d = d\<lparr>cd_id := the (DecodeFixed32 data)\<rparr>; name_len = the (DecodeFixed32 (drop 4 data)); l = unat name_len in
      if length data < unat (25 + name_len)
      then Ret (Corruption ''ColumnFamilyDescriptor name length invalid'', d)
      else if length data < 25 + l then Undefined
      else let d = d\<lparr>cd_name := take l (drop 8 data), cd_is_dropped := data ! (8 + l) \<noteq> 0,
                     cd_create_sequence := the (DecodeFixed64 (drop (9 + l) data)),
                     cd_drop_sequence := the (DecodeFixed64 (drop (17 + l) data))\<rparr> in
      if 25 + l + 4 > length data then Ret (Corruption ''ColumnFamilyDescriptor options length missing'', d)
      else let options_len = unat (the (DecodeFixed32 (drop (25 + l) data))) in
      if 29 + l + options_len > length data
      then Ret (Corruption ''ColumnFamilyDescriptor options data truncated'', d)
      else case DecodeColumnFamilyOptions (drop (29 + l) (data @ [0])) options_len (cd_options d) of
             Ret (s, opts) \<Rightarrow> Ret (s, d\<lparr>cd_options := opts\<rparr>)
           | Undefined \<Rightarrow> Undefined
           | Spent \<Rightarrow> Spent)"

section \<open>Records\<close>

abbreviation (input) kCreateColumnFamily :: byte where "kCreateColumnFamily \<equiv> 1"
abbreviation (input) kDropColumnFamily :: byte where "kDropColumnFamily \<equiv> 2"
abbreviation (input) kUpdateColumnFamilyOptions :: byte where "kUpdateColumnFamilyOptions \<equiv> 3"
abbreviation (input) kCreateDatabase :: byte where "kCreateDatabase \<equiv> 4"
abbreviation (input) kSequenceNumber :: byte where "kSequenceNumber \<equiv> 5"
abbreviation (input) kCheckpoint :: byte where "kCheckpoint \<equiv> 6"

record manifest_record =
  mf_type :: byte
  mf_sequence :: u64
  mf_payload :: bytes
  mf_crc :: u32

definition ManifestRecord_new :: manifest_record where
  "ManifestRecord_new = \<lparr>mf_type = kCreateDatabase, mf_sequence = 0, mf_payload = [], mf_crc = 0\<rparr>"

definition Manifest_CalculateCRC :: "manifest_record \<Rightarrow> u32" where
  "Manifest_CalculateCRC r =
     (let d = [mf_type r]; d = PutFixed64 d (mf_sequence r); d = d @ mf_payload r in CalculateCRC32 d)"

definition Manifest_ValidateCRC :: "manifest_record \<Rightarrow> bool" where
  "Manifest_ValidateCRC r \<longleftrightarrow> mf_crc r = Manifest_CalculateCRC r"

definition with_crc :: "manifest_record \<Rightarrow> manifest_record" where
  "with_crc r = r\<lparr>mf_crc := Manifest_CalculateCRC r\<rparr>"

definition CreateColumnFamilyRecord :: "u64 \<Rightarrow> cf_descriptor \<Rightarrow> manifest_record" where
  "CreateColumnFamilyRecord sq d = with_crc (ManifestRecord_new\<lparr>mf_type := kCreateColumnFamily,
     mf_sequence := sq, mf_payload := Descriptor_Encode d\<rparr>)"

definition DropColumnFamilyRecord :: "u64 \<Rightarrow> u32 \<Rightarrow> manifest_record" where
  "DropColumnFamilyRecord sq cf_id = with_crc (ManifestRecord_new\<lparr>mf_type := kDropColumnFamily,
     mf_sequence := sq, mf_payload := PutFixed32 [] cf_id\<rparr>)"

definition UpdateColumnFamilyOptionsRecord :: "u64 \<Rightarrow> u32 \<Rightarrow> cf_options \<Rightarrow> manifest_record" where
  "UpdateColumnFamilyOptionsRecord sq cf_id opts =
     (let payload = PutFixed32 [] cf_id; options_data = EncodeColumnFamilyOptions opts;
          payload = PutFixed32 payload (of_nat (length options_data)) @ options_data
      in with_crc (ManifestRecord_new\<lparr>mf_type := kUpdateColumnFamilyOptions, mf_sequence := sq, mf_payload := payload\<rparr>))"

definition SequenceNumberRecord :: "u64 \<Rightarrow> manifest_record" where
  "SequenceNumberRecord sq = with_crc (ManifestRecord_new\<lparr>mf_type := kSequenceNumber, mf_sequence := sq\<rparr>)"

definition CheckpointRecord :: "u64 \<Rightarrow> manifest_record" where
  "CheckpointRecord sq = with_crc (ManifestRecord_new\<lparr>mf_type := kCheckpoint, mf_sequence := sq\<rparr>)"

definition Manifest_Encode :: "manifest_record \<Rightarrow> bytes" where
  "Manifest_Encode r =
     (let result = [mf_type r];
          result = PutFixed64 result (mf_sequence r);
          result = PutFixed32 result (of_nat (length (mf_payload r)));
          result = result @ mf_payload r
      in PutFixed32 result (mf_crc r))"

text \<open>\<open>payload_len + 4\<close> is computed in 32 bits.\<close>

definition Manifest_Decode :: "bytes \<Rightarrow> manifest_record \<Rightarrow> (status \<times> manifest_record) run" where
  "Manifest_Decode data r =
     (if length data < 17 then Ret (Corruption ''Manifest record too short'', r) else
      let r = r\<lparr>mf_type := data ! 0, mf_sequence := the (DecodeFixed64 (drop 1 data))\<rparr>;
          payload_len = the (DecodeFixed32 (drop 9 data)); l = unat payload_len; remaining = length data - 13 in
      if remaining < unat (payload_len + 4) then Ret (Corruption ''Manifest record data truncated'', r)
      else if remaining < l + 4 then Undefined
      else let r = r\<lparr>mf_payload := take l (drop 13 data), mf_crc := the (DecodeFixed32 (drop (13 + l) data))\<rparr> in
      if \<not> Manifest_ValidateCRC r then Ret (Corruption ''Manifest record CRC mismatch'', r)
      else Ret (OK, r))"

section \<open>ManifestWriter\<close>

text \<open>
  \<open>file_\<close> is a null pointer or an output stream, which has failed (True) or not, with the bytes in
  its buffer and the buffer's capacity.
\<close>

record manifest_writer =
  mw_filename :: string
  mw_file :: "bool option"
  mw_buffer :: bytes
  mw_capacity :: nat
  mw_file_size :: nat
  mw_is_open :: bool

definition ManifestWriter_new :: "nat \<Rightarrow> string \<Rightarrow> manifest_writer" where
  "ManifestWriter_new capacity filename = \<lparr>mw_filename = filename, mw_file = None, mw_buffer = [],
     mw_capacity = capacity, mw_file_size = 0, mw_is_open = False\<rparr>"

definition mw_flush :: "manifest_writer \<Rightarrow> fs \<Rightarrow> manifest_writer \<times> fs" where
  "mw_flush w fs =
     (let f = mw_filename w; b = mw_buffer w in
      if mw_file w \<noteq> Some False \<or> b = [] then (w, fs)
      else if fs_can_write fs f then (w\<lparr>mw_buffer := []\<rparr>, fs_write fs f (fs_data fs f @ b))
      else (w\<lparr>mw_file := Some True, mw_buffer := []\<rparr>, fs_write fs f (fs_data fs f @ take (fs_partial fs) b)))"

definition mw_put :: "bytes \<Rightarrow> manifest_writer \<Rightarrow> fs \<Rightarrow> manifest_writer \<times> fs" where
  "mw_put d w fs =
     (if mw_file w \<noteq> Some False then (w, fs)
      else let w = w\<lparr>mw_buffer := mw_buffer w @ d\<rparr> in
      if length (mw_buffer w) \<le> mw_capacity w then (w, fs) else mw_flush w fs)"

definition ManifestWriter_Open :: "manifest_writer \<Rightarrow> fs \<Rightarrow> status \<times> manifest_writer \<times> fs" where
  "ManifestWriter_Open w fs =
     (let f = mw_filename w in
      if mw_is_open w then (InvalidArgument ''Manifest file already open'', w, fs)
      else if \<not> fs_can_open fs f
      then (IOError (''Cannot open manifest file: '' @ f), w\<lparr>mw_file := Some True, mw_buffer := []\<rparr>, fs)
      else (OK, w\<lparr>mw_file := Some False, mw_buffer := [], mw_file_size := length (fs_data fs f), mw_is_open := True\<rparr>,
            fs_write fs f (fs_data fs f)))"

definition ManifestWriter_Close :: "manifest_writer \<Rightarrow> fs \<Rightarrow> status \<times> manifest_writer \<times> fs" where
  "ManifestWriter_Close w fs =
     (if \<not> mw_is_open w then (OK, w, fs)
      else let (w, fs) = mw_flush w fs in (OK, w\<lparr>mw_file := None, mw_buffer := [], mw_is_open := False\<rparr>, fs))"

definition ManifestWriter_WriteRecord ::
    "manifest_writer \<Rightarrow> manifest_record \<Rightarrow> fs \<Rightarrow> status \<times> manifest_writer \<times> fs" where
  "ManifestWriter_WriteRecord w r fs =
     (if \<not> mw_is_open w then (InvalidArgument ''Manifest file not open'', w, fs)
      else let encoded_record = Manifest_Encode r;
               length_header = PutFixed32 [] (of_nat (length encoded_record));
               (w, fs) = mw_put length_header w fs;
               (w, fs) = mw_put encoded_record w fs in
      if mw_file w = Some True then (IOError ''Failed to write manifest record'', w, fs)
      else (OK, w\<lparr>mw_file_size := mw_file_size w + (length length_header + length encoded_record)\<rparr>, fs))"

definition ManifestWriter_Sync :: "manifest_writer \<Rightarrow> fs \<Rightarrow> status \<times> manifest_writer \<times> fs" where
  "ManifestWriter_Sync w fs =
     (if \<not> mw_is_open w then (InvalidArgument ''Manifest file not open'', w, fs)
      else let (w, fs) = mw_flush w fs; f = mw_filename w in
      if mw_file w = Some True then (IOError ''Failed to flush manifest file'', w, fs)
      else if \<not> fs_can_open fs f then (IOError ''Failed to open manifest file for fsync'', w, fs)
      else if \<not> fs_can_sync fs f then (IOError ''Failed to fsync manifest file'', w, fs)
      else (OK, w, fs_fsync fs f))"

definition ManifestWriter_GetFileSize :: "manifest_writer \<Rightarrow> nat" where
  "ManifestWriter_GetFileSize w = mw_file_size w"
definition ManifestWriter_IsOpen :: "manifest_writer \<Rightarrow> bool" where
  "ManifestWriter_IsOpen w = mw_is_open w"

section \<open>ManifestReader\<close>

record manifest_reader =
  mr_filename :: string
  mr_file :: "in_stream option"
  mr_read_position :: nat
  mr_is_open :: bool
  mr_eof_reached :: bool

definition ManifestReader_new :: "string \<Rightarrow> manifest_reader" where
  "ManifestReader_new filename = \<lparr>mr_filename = filename, mr_file = None, mr_read_position = 0,
     mr_is_open = False, mr_eof_reached = False\<rparr>"

definition ManifestReader_Open :: "manifest_reader \<Rightarrow> fs \<Rightarrow> status \<times> manifest_reader" where
  "ManifestReader_Open rd fs =
     (let f = mr_filename rd in
      if mr_is_open rd then (InvalidArgument ''Manifest file already open'', rd)
      else if \<not> fs_can_open fs f \<or> map_of (fs_files fs) f = None
      then (IOError (''Cannot open manifest file: '' @ f), rd\<lparr>mr_file := Some (in_open []\<lparr>in_fail := True\<rparr>)\<rparr>)
      else (OK, rd\<lparr>mr_file := Some (in_open (fs_data fs f)), mr_read_position := 0,
                  mr_eof_reached := False, mr_is_open := True\<rparr>))"

definition ManifestReader_Close :: "manifest_reader \<Rightarrow> status \<times> manifest_reader" where
  "ManifestReader_Close rd =
     (if \<not> mr_is_open rd then (OK, rd) else (OK, rd\<lparr>mr_file := None, mr_is_open := False\<rparr>))"

text \<open>An open reader has a stream.\<close>

definition ManifestReader_ReadNextRecord ::
    "manifest_reader \<Rightarrow> manifest_record \<Rightarrow> (status \<times> manifest_reader \<times> manifest_record) run" where
  "ManifestReader_ReadNextRecord rd r =
     (if \<not> mr_is_open rd then Ret (InvalidArgument ''Manifest file not open'', rd, r)
      else if mr_eof_reached rd then Ret (Incomplete ''EOF reached'', rd, r)
      else case mr_file rd of
        None \<Rightarrow> Undefined
      | Some st \<Rightarrow>
          let (length_buf, st) = in_read 4 st; rd = rd\<lparr>mr_file := Some st\<rparr> in
          if length length_buf \<noteq> 4
          then Ret (if in_eof st then (Incomplete ''EOF reached'', rd\<lparr>mr_eof_reached := True\<rparr>, r)
                    else (IOError ''Failed to read record length'', rd, r))
          else let record_length = unat (the (DecodeFixed32 length_buf)) in
          if record_length = 0 \<or> record_length > 10 * 1024 * 1024
          then Ret (Corruption ''Invalid record length'', rd, r)
          else let (record_data, st) = in_read record_length st; rd = rd\<lparr>mr_file := Some st\<rparr> in
          if length record_data \<noteq> record_length then Ret (Corruption ''Record data truncated'', rd, r)
          else case Manifest_Decode record_data r of
                 Undefined \<Rightarrow> Undefined
               | Spent \<Rightarrow> Spent
               | Ret (s, r) \<Rightarrow>
                   if \<not> ok s then Ret (s, rd, r)
                   else Ret (OK, rd\<lparr>mr_read_position := mr_read_position rd + (4 + record_length)\<rparr>, r))"

definition ManifestReader_Seek :: "manifest_reader \<Rightarrow> nat \<Rightarrow> status \<times> manifest_reader" where
  "ManifestReader_Seek rd p =
     (if \<not> mr_is_open rd then (InvalidArgument ''Manifest file not open'', rd)
      else case mr_file rd of
             None \<Rightarrow> (InvalidArgument ''Manifest file not open'', rd)
           | Some st \<Rightarrow>
               let st = in_seekg p st; rd = rd\<lparr>mr_file := Some st\<rparr> in
               if in_fail st then (IOError ''Failed to seek in manifest file'', rd)
               else (OK, rd\<lparr>mr_read_position := p, mr_eof_reached := False\<rparr>))"

definition ManifestReader_IsEOF :: "manifest_reader \<Rightarrow> bool" where
  "ManifestReader_IsEOF rd = mr_eof_reached rd"
definition ManifestReader_GetReadPosition :: "manifest_reader \<Rightarrow> nat" where
  "ManifestReader_GetReadPosition rd = mr_read_position rd"

fun Manifest_ValidateFile_loop ::
    "nat \<Rightarrow> manifest_reader \<Rightarrow> manifest_record \<Rightarrow> (status \<times> manifest_reader) run" where
  "Manifest_ValidateFile_loop 0 rd r = Spent"
| "Manifest_ValidateFile_loop (Suc n) rd r =
     (if ManifestReader_IsEOF rd then Ret (OK, rd)
      else case ManifestReader_ReadNextRecord rd r of
             Undefined \<Rightarrow> Undefined
           | Spent \<Rightarrow> Spent
           | Ret (s, rd, r) \<Rightarrow>
               if IsIncomplete s then Ret (OK, rd)
               else if \<not> ok s then Ret (s, rd)
               else Manifest_ValidateFile_loop n rd r)"

definition ManifestReader_ValidateFile :: "manifest_reader \<Rightarrow> fs \<Rightarrow> (status \<times> manifest_reader) run" where
  "ManifestReader_ValidateFile rd fs =
     (let (s, rd) = (if \<not> mr_is_open rd then ManifestReader_Open rd fs else (OK, rd)) in
      if \<not> ok s then Ret (s, rd)
      else let (s, rd) = ManifestReader_Seek rd 0 in
      if \<not> ok s then Ret (s, rd)
      else Manifest_ValidateFile_loop (Suc (length (fs_data fs (mr_filename rd)))) rd ManifestRecord_new)"

section \<open>File names\<close>

definition ParseManifestFilename :: "string \<Rightarrow> status \<times> u64 option" where
  "ParseManifestFilename filename =
     (if length filename \<le> 9 \<or> take 9 filename \<noteq> ''MANIFEST-''
      then (InvalidArgument ''Invalid manifest filename'', None)
      else case stoull (drop 9 filename) of
             Some n \<Rightarrow> (OK, Some n)
           | None \<Rightarrow> (InvalidArgument ''Cannot parse file number: stoull'', None))"

definition FormatManifestFilename :: "u64 \<Rightarrow> string" where
  "FormatManifestFilename file_number = ''MANIFEST-'' @ setw0 6 (to_string (unat file_number))"

section \<open>ManifestManager\<close>

record manifest_manager =
  mm_db_path :: string
  mm_filename :: string
  mm_writer :: "manifest_writer option"
  mm_next_file :: u64
  mm_last_sequence :: u64
  mm_initialized :: bool
  mm_shutdown :: bool
  mm_capacity :: nat

definition ManifestManager_new :: "nat \<Rightarrow> string \<Rightarrow> manifest_manager" where
  "ManifestManager_new capacity db_path = \<lparr>mm_db_path = db_path, mm_filename = [], mm_writer = None,
     mm_next_file = 1, mm_last_sequence = 0, mm_initialized = False, mm_shutdown = False, mm_capacity = capacity\<rparr>"

text \<open>The temporary file is not synced before it is renamed.\<close>

definition UpdateCurrentFile :: "string \<Rightarrow> string \<Rightarrow> fs \<Rightarrow> status \<times> fs" where
  "UpdateCurrentFile db_path manifest_filename fs =
     (let current_file = db_path @ ''/CURRENT''; temp_file = current_file @ ''.tmp'';
          text = bytes_of_string manifest_filename @ [10] in
      if \<not> fs_can_open fs temp_file then (IOError ''Cannot create temp CURRENT file'', fs)
      else if \<not> fs_can_write fs temp_file
      then (IOError ''Failed to write temp CURRENT file'', fs_write fs temp_file (take (fs_partial fs) text))
      else let fs = fs_write fs temp_file text in
      if \<not> fs_can_rename fs then (IOError (''Exception updating CURRENT file: '' @ fs_strerror fs), fs)
      else (OK, fs_rename fs temp_file current_file))"

definition CreateNewManifestFile :: "manifest_manager \<Rightarrow> fs \<Rightarrow> status \<times> manifest_manager \<times> fs" where
  "CreateNewManifestFile mm fs =
     (let file_number = mm_next_file mm; name = FormatManifestFilename file_number;
          (s, w, fs) = ManifestWriter_Open (ManifestWriter_new (mm_capacity mm) (mm_db_path mm @ ''/'' @ name)) fs;
          mm = mm\<lparr>mm_next_file := file_number + 1, mm_filename := name, mm_writer := Some w\<rparr> in
      if \<not> ok s then (s, mm, fs)
      else let (s, fs) = UpdateCurrentFile (mm_db_path mm) name fs in (s, mm, fs))"

text \<open>\<open>Initialize\<close>: what \<open>CURRENT\<close> names, if it can be read and the file exists.\<close>

definition read_current :: "manifest_manager \<Rightarrow> fs \<Rightarrow> manifest_manager" where
  "read_current mm fs =
     (let current_file = mm_db_path mm @ ''/CURRENT'' in
      if Env_FileExists fs current_file \<and> fs_can_open fs current_file
      then let name = string_of_bytes (takeWhile (\<lambda>b. b \<noteq> 10) (fs_data fs current_file)) in
           if name \<noteq> [] \<and> Env_FileExists fs (mm_db_path mm @ ''/'' @ name)
           then (case ParseManifestFilename name of
                   (s, Some n) \<Rightarrow> mm\<lparr>mm_filename := name, mm_next_file := n + 1\<rparr>
                 | (s, None) \<Rightarrow> mm\<lparr>mm_filename := name\<rparr>)
           else mm\<lparr>mm_filename := []\<rparr>
      else mm)"

definition ManifestManager_Initialize :: "manifest_manager \<Rightarrow> fs \<Rightarrow> status \<times> manifest_manager \<times> fs" where
  "ManifestManager_Initialize mm fs =
     (if mm_initialized mm then (InvalidArgument ''ManifestManager already initialized'', mm, fs)
      else let mm = read_current mm fs;
               (s, mm, fs) =
                 (if mm_filename mm = [] then CreateNewManifestFile mm fs
                  else let (s, w, fs) = ManifestWriter_Open
                             (ManifestWriter_new (mm_capacity mm) (mm_db_path mm @ ''/'' @ mm_filename mm)) fs
                       in (if ok s then OK else IOError (''Failed to open existing manifest file: '' @ ToString s),
                           mm\<lparr>mm_writer := Some w\<rparr>, fs)) in
      if \<not> ok s then (s, mm, fs) else (OK, mm\<lparr>mm_initialized := True\<rparr>, fs))"

definition ManifestManager_Shutdown :: "manifest_manager \<Rightarrow> fs \<Rightarrow> status \<times> manifest_manager \<times> fs" where
  "ManifestManager_Shutdown mm fs =
     (if mm_shutdown mm then (OK, mm, fs)
      else let mm = mm\<lparr>mm_shutdown := True\<rparr>;
               fs = (case mm_writer mm of None \<Rightarrow> fs
                     | Some w \<Rightarrow> let (_, w, fs) = ManifestWriter_Sync w fs; (_, w, fs) = ManifestWriter_Close w fs in fs)
           in (OK, mm\<lparr>mm_writer := None, mm_initialized := False\<rparr>, fs))"

text \<open>The end of every \<open>Log\<close> operation.\<close>

definition log_record :: "manifest_record \<Rightarrow> manifest_manager \<Rightarrow> fs \<Rightarrow> status \<times> manifest_manager \<times> fs" where
  "log_record r mm fs =
     (case mm_writer mm of
        None \<Rightarrow> (InvalidArgument ''No active manifest writer'', mm, fs)
      | Some w \<Rightarrow> let (s, w, fs) = ManifestWriter_WriteRecord w r fs in (s, mm\<lparr>mm_writer := Some w\<rparr>, fs))"

definition LogCreateColumnFamily ::
    "cf_descriptor \<Rightarrow> manifest_manager \<Rightarrow> fs \<Rightarrow> status \<times> manifest_manager \<times> fs" where
  "LogCreateColumnFamily d mm fs =
     (if \<not> mm_initialized mm then (InvalidArgument ''ManifestManager not initialized'', mm, fs)
      else let sq = mm_last_sequence mm + 1
           in log_record (CreateColumnFamilyRecord sq d) (mm\<lparr>mm_last_sequence := sq\<rparr>) fs)"

definition LogDropColumnFamily :: "u32 \<Rightarrow> manifest_manager \<Rightarrow> fs \<Rightarrow> status \<times> manifest_manager \<times> fs" where
  "LogDropColumnFamily cf_id mm fs =
     (if \<not> mm_initialized mm then (InvalidArgument ''ManifestManager not initialized'', mm, fs)
      else let sq = mm_last_sequence mm + 1
           in log_record (DropColumnFamilyRecord sq cf_id) (mm\<lparr>mm_last_sequence := sq\<rparr>) fs)"

definition LogUpdateColumnFamilyOptions ::
    "u32 \<Rightarrow> cf_options \<Rightarrow> manifest_manager \<Rightarrow> fs \<Rightarrow> status \<times> manifest_manager \<times> fs" where
  "LogUpdateColumnFamilyOptions cf_id opts mm fs =
     (if \<not> mm_initialized mm then (InvalidArgument ''ManifestManager not initialized'', mm, fs)
      else let sq = mm_last_sequence mm + 1
           in log_record (UpdateColumnFamilyOptionsRecord sq cf_id opts) (mm\<lparr>mm_last_sequence := sq\<rparr>) fs)"

definition LogSequenceNumber :: "u64 \<Rightarrow> manifest_manager \<Rightarrow> fs \<Rightarrow> status \<times> manifest_manager \<times> fs" where
  "LogSequenceNumber sq mm fs =
     (if \<not> mm_initialized mm then (InvalidArgument ''ManifestManager not initialized'', mm, fs)
      else log_record (SequenceNumberRecord sq) (mm\<lparr>mm_last_sequence := sq\<rparr>) fs)"

definition LogCheckpoint :: "u64 \<Rightarrow> manifest_manager \<Rightarrow> fs \<Rightarrow> status \<times> manifest_manager \<times> fs" where
  "LogCheckpoint sq mm fs =
     (if \<not> mm_initialized mm then (InvalidArgument ''ManifestManager not initialized'', mm, fs)
      else log_record (CheckpointRecord sq) mm fs)"

definition Manifest_Sync :: "manifest_manager \<Rightarrow> fs \<Rightarrow> status \<times> manifest_manager \<times> fs" where
  "Manifest_Sync mm fs =
     (case mm_writer mm of
        None \<Rightarrow> (InvalidArgument ''No active manifest writer'', mm, fs)
      | Some w \<Rightarrow> let (s, w, fs) = ManifestWriter_Sync w fs in (s, mm\<lparr>mm_writer := Some w\<rparr>, fs))"

definition GetCurrentManifestSize :: "manifest_manager \<Rightarrow> nat" where
  "GetCurrentManifestSize mm = (case mm_writer mm of Some w \<Rightarrow> ManifestWriter_GetFileSize w | None \<Rightarrow> 0)"

section \<open>Recovery\<close>

type_synonym cf_map = "(u32 \<times> cf_descriptor) list"

text \<open>One record. \<open>8 + options_len\<close> is computed in 32 bits.\<close>

definition apply_manifest_record :: "manifest_record \<Rightarrow> cf_map \<Rightarrow> cf_map run" where
  "apply_manifest_record r m =
     (let p = mf_payload r in
      if mf_type r = kCreateColumnFamily
      then (case Descriptor_Decode p (ColumnFamilyDescriptor_new 0 [] ColumnFamilyOptions_new) of
              Ret (s, d) \<Rightarrow> Ret (if ok s then al_put (cd_id d) d m else m)
            | Undefined \<Rightarrow> Undefined
            | Spent \<Rightarrow> Spent)
      else if mf_type r = kDropColumnFamily \<and> 4 \<le> length p
      then (let cf_id = the (DecodeFixed32 p) in
            case map_of m cf_id of
              None \<Rightarrow> Ret m
            | Some d \<Rightarrow> Ret (al_put cf_id (d\<lparr>cd_is_dropped := True, cd_drop_sequence := mf_sequence r\<rparr>) m))
      else if mf_type r = kUpdateColumnFamilyOptions \<and> 8 \<le> length p
      then (let cf_id = the (DecodeFixed32 p); options_len = the (DecodeFixed32 (drop 4 p)) in
            if \<not> unat (8 + options_len) \<le> length p then Ret m
            else case map_of m cf_id of
                   None \<Rightarrow> Ret m
                 | Some d \<Rightarrow> (case DecodeColumnFamilyOptions (drop 8 (p @ [0])) (unat options_len) (cd_options d) of
                                Ret (_, opts) \<Rightarrow> Ret (al_put cf_id (d\<lparr>cd_options := opts\<rparr>) m)
                              | Undefined \<Rightarrow> Undefined
                              | Spent \<Rightarrow> Spent))
      else Ret m)"

fun TryResyncManifest_loop :: "nat \<Rightarrow> nat \<Rightarrow> fs \<Rightarrow> string \<Rightarrow> nat \<Rightarrow> nat option run" where
  "TryResyncManifest_loop 0 offset fs f start = Ret None"
| "TryResyncManifest_loop (Suc n) offset fs f start =
     (let (s, probe) = ManifestReader_Open (ManifestReader_new f) fs in
      if \<not> ok s then Ret None
      else let (s, probe) = ManifestReader_Seek probe (start + offset) in
      if \<not> ok s then Ret None
      else case ManifestReader_ReadNextRecord probe ManifestRecord_new of
             Undefined \<Rightarrow> Undefined
           | Spent \<Rightarrow> Spent
           | Ret (s, probe, r) \<Rightarrow>
               if ok s then Ret (Some (start + offset)) else TryResyncManifest_loop n (offset + 1) fs f start)"

definition TryResyncManifestFile :: "fs \<Rightarrow> string \<Rightarrow> nat \<Rightarrow> nat option run" where
  "TryResyncManifestFile fs f start_pos = TryResyncManifest_loop (64 * 1024) 1 fs f start_pos"

text \<open>The loop over one file returns its status, the map and the largest sequence number.\<close>

fun RecoverFromManifestFile_loop ::
    "nat \<Rightarrow> fs \<Rightarrow> manifest_reader \<Rightarrow> manifest_record \<Rightarrow> u64 \<Rightarrow> cf_map \<Rightarrow> (status \<times> cf_map \<times> u64) run" where
  "RecoverFromManifestFile_loop 0 fs rd r mx m = Spent"
| "RecoverFromManifestFile_loop (Suc n) fs rd r mx m =
     (if ManifestReader_IsEOF rd then Ret (OK, m, mx)
      else case ManifestReader_ReadNextRecord rd r of
             Undefined \<Rightarrow> Undefined
           | Spent \<Rightarrow> Spent
           | Ret (s, rd, r) \<Rightarrow>
      if IsIncomplete s then Ret (OK, m, mx)
      else if \<not> ok s
      then (case TryResyncManifestFile fs (mr_filename rd) (ManifestReader_GetReadPosition rd) of
              Undefined \<Rightarrow> Undefined
            | Spent \<Rightarrow> Spent
            | Ret None \<Rightarrow> Ret (Corruption ''Manifest resync failed (rest of file skipped)'', m, 0)
            | Ret (Some resync_pos) \<Rightarrow>
                let (s, rd) = ManifestReader_Seek rd resync_pos in
                if \<not> ok s then Ret (s, m, 0)
                else RecoverFromManifestFile_loop n fs rd r mx m)
      else case apply_manifest_record r m of
             Undefined \<Rightarrow> Undefined
           | Spent \<Rightarrow> Spent
           | Ret m \<Rightarrow> RecoverFromManifestFile_loop n fs rd r (max mx (mf_sequence r)) m)"

definition RecoverFromManifestFile :: "fs \<Rightarrow> string \<Rightarrow> cf_map \<Rightarrow> (status \<times> cf_map \<times> u64) run" where
  "RecoverFromManifestFile fs f m =
     (let (s, rd) = ManifestReader_Open (ManifestReader_new f) fs in
      if \<not> ok s then Ret (s, m, 0)
      else RecoverFromManifestFile_loop (2 * length (fs_data fs f) + 2) fs rd ManifestRecord_new 0 m)"

fun RecoverManifestFiles :: "fs \<Rightarrow> string list \<Rightarrow> cf_map \<Rightarrow> u64 \<Rightarrow> (status \<times> cf_map \<times> u64) run" where
  "RecoverManifestFiles fs [] m mx = Ret (OK, m, mx)"
| "RecoverManifestFiles fs (f # fls) m mx =
     (case RecoverFromManifestFile fs f m of
        Undefined \<Rightarrow> Undefined
      | Spent \<Rightarrow> Spent
      | Ret (s, m, file_sequence) \<Rightarrow>
          if ok s then RecoverManifestFiles fs fls m (max mx file_sequence)
          else if \<not> IsCorruption s then Ret (s, m, mx)
          else RecoverManifestFiles fs fls m mx)"

definition manifest_files :: "fs \<Rightarrow> string \<Rightarrow> string list" where
  "manifest_files fs db_path =
     sort (filter (\<lambda>p. take 9 (base_name p) = ''MANIFEST-'') (dir_files fs db_path))"

definition Manifest_RecoverColumnFamilies ::
    "manifest_manager \<Rightarrow> fs \<Rightarrow> (status \<times> cf_descriptor list \<times> u64 \<times> manifest_manager) run" where
  "Manifest_RecoverColumnFamilies mm fs =
     (case RecoverManifestFiles fs (manifest_files fs (mm_db_path mm)) [] 0 of
        Undefined \<Rightarrow> Undefined
      | Spent \<Rightarrow> Spent
      | Ret (s, m, max_sequence) \<Rightarrow>
          if \<not> ok s then Ret (s, [], 0, mm)
          else Ret (OK, filter (\<lambda>d. \<not> cd_is_dropped d) (map snd m), max_sequence,
                    mm\<lparr>mm_last_sequence := max_sequence\<rparr>))"

section \<open>What is written is read back\<close>

subsection \<open>Encodings\<close>

lemma Manifest_Encode_layout:
  "Manifest_Encode r = [mf_type r] @ PutFixed64 [] (mf_sequence r) @
     PutFixed32 [] (of_nat (length (mf_payload r))) @ mf_payload r @ PutFixed32 [] (mf_crc r)"
  by (simp add: Manifest_Encode_def Let_def PutFixed64_append [of "[_]"] PutFixed32_append [of "_ # _"]
      PutFixed32_append [of "_ @ _"])

lemma length_Manifest_Encode [simp]: "length (Manifest_Encode r) = 17 + length (mf_payload r)"
  by (simp add: Manifest_Encode_layout)

definition sealed :: "manifest_record \<Rightarrow> bool" where
  "sealed r \<longleftrightarrow> length (mf_payload r) + 4 < 2 ^ 32 \<and> Manifest_ValidateCRC r"

lemma small_u32: "n < 2 ^ 32 \<Longrightarrow> unat (of_nat n :: u32) = n"
  by (simp add: unat_of_nat)

lemma Manifest_Decode_Encode:
  assumes "sealed r"
  shows "Manifest_Decode (Manifest_Encode r) r0 = Ret (OK, r)"
proof -
  let ?p = "mf_payload r" and ?d = "Manifest_Encode r"
  have n: "length ?p + 4 < 2 ^ 32" and crc: "mf_crc r = Manifest_CalculateCRC r"
    using assms by (simp_all add: sealed_def Manifest_ValidateCRC_def)
  have l: "unat (of_nat (length ?p) :: u32) = length ?p" using n by (intro small_u32) simp
  have l4: "unat (of_nat (length ?p) + 4 :: u32) = length ?p + 4"
    using small_u32 [OF n] by simp
  have f: "?d ! 0 = mf_type r" "DecodeFixed64 (drop 1 ?d) = Some (mf_sequence r)"
    by (simp_all add: Manifest_Encode_layout)
  have g: "DecodeFixed32 (drop 9 ?d) = Some (of_nat (length ?p))"
    by (simp add: Manifest_Encode_layout drop_Cons_pos)
  have h: "take (length ?p) (drop 13 ?d) = ?p" "DecodeFixed32 (drop (13 + length ?p) ?d) = Some (mf_crc r)"
    using DecodeFixed32_Put [of "mf_crc r" "[]"] by (simp_all add: Manifest_Encode_layout drop_Cons_pos)
  show ?thesis
    unfolding Manifest_Decode_def
    by (simp only: Let_def f g h l l4 option.sel)
      (simp add: l4 l crc Manifest_ValidateCRC_def Manifest_CalculateCRC_def)
qed

lemma sealed_with_crc: "length (mf_payload r) + 4 < 2 ^ 32 \<Longrightarrow> sealed (with_crc r)"
  by (simp add: sealed_def with_crc_def Manifest_ValidateCRC_def Manifest_CalculateCRC_def)

lemma with_crc_fields [simp]:
  "mf_type (with_crc r) = mf_type r" "mf_sequence (with_crc r) = mf_sequence r" "mf_payload (with_crc r) = mf_payload r"
  by (simp_all add: with_crc_def)

text \<open>What decoding keeps of a family's options: not the size of the write buffer, and of a
  comparator only whether it has the reverse comparator's name.\<close>

definition comparator_bytes :: "cf_options \<Rightarrow> bytes" where
  "comparator_bytes opts = take 255 (case co_comparator opts of Some c \<Rightarrow> Comparator_Name c | None \<Rightarrow> [])"

definition persisted :: "cf_options \<Rightarrow> cf_options \<Rightarrow> cf_options" where
  "persisted opts0 opts = opts\<lparr>co_write_buffer_size := co_write_buffer_size opts0,
     co_comparator := Some (if comparator_bytes opts = Comparator_Name Reverse_ref then Reverse_ref else Bytewise_ref)\<rparr>"

lemma EncodeColumnFamilyOptions_layout:
  "EncodeColumnFamilyOptions opts = PutFixed32 [] (64 * 1024 * 1024) @ PutFixed32 [] (co_max_write_buffer_number opts) @
     PutFixed32 [] (co_level0_compaction opts) @ PutFixed32 [] (co_level0_slowdown opts) @
     PutFixed32 [] (co_level0_stop opts) @ PutFixed64 [] (co_target_file_size opts) @
     PutFixed64 [] (co_max_bytes opts) @ [co_compression opts] @
     [of_nat (length (comparator_bytes opts))] @ comparator_bytes opts"
proof -
  let ?c = "case co_comparator opts of Some c \<Rightarrow> Comparator_Name c | None \<Rightarrow> []"
  have "(if length ?c > 255 then take 255 ?c else ?c) = comparator_bytes opts"
    by (simp add: comparator_bytes_def)
  then show ?thesis
    by (simp add: EncodeColumnFamilyOptions_def Let_def PutFixed32_append [of "PutFixed32 _ _"]
        PutFixed64_append [of "PutFixed32 _ _"] PutFixed64_append [of "PutFixed64 _ _"])
qed

lemma length_comparator_bytes: "length (comparator_bytes opts) \<le> 255"
  by (simp add: comparator_bytes_def)

lemma length_EncodeColumnFamilyOptions [simp]:
  "length (EncodeColumnFamilyOptions opts) = 38 + length (comparator_bytes opts)"
  by (simp add: EncodeColumnFamilyOptions_layout)

lemma DecodeColumnFamilyOptions_Encode:
  "DecodeColumnFamilyOptions (EncodeColumnFamilyOptions opts @ rest) (length (EncodeColumnFamilyOptions opts)) opts0 =
     Ret (OK, persisted opts0 opts)"
proof -
  let ?c = "comparator_bytes opts" and ?b = "EncodeColumnFamilyOptions opts @ rest"
  have n: "unat (of_nat (length ?c) :: byte) = length ?c"
    using length_comparator_bytes [of opts] by (simp add: unat_of_nat)
  have f: "DecodeFixed32 (drop 4 ?b) = Some (co_max_write_buffer_number opts)"
    "DecodeFixed32 (drop 8 ?b) = Some (co_level0_compaction opts)"
    "DecodeFixed32 (drop 12 ?b) = Some (co_level0_slowdown opts)"
    "DecodeFixed32 (drop 16 ?b) = Some (co_level0_stop opts)"
    "DecodeFixed64 (drop 20 ?b) = Some (co_target_file_size opts)"
    "DecodeFixed64 (drop 28 ?b) = Some (co_max_bytes opts)"
    by (simp_all add: EncodeColumnFamilyOptions_layout)
  have g: "?b ! 36 = co_compression opts" "?b ! 37 = of_nat (length ?c)" "take (length ?c) (drop 38 ?b) = ?c"
    by (simp_all add: EncodeColumnFamilyOptions_layout nth_append)
  have l: "length ?b = 38 + length ?c + length rest" by simp
  show ?thesis
    unfolding DecodeColumnFamilyOptions_def
    by (simp only: Let_def f g l n option.sel length_EncodeColumnFamilyOptions)
      (auto simp: persisted_def)
qed

text \<open>A descriptor comes back with what is kept of its options.\<close>

lemma Descriptor_Encode_layout:
  "Descriptor_Encode d = PutFixed32 [] (cd_id d) @ PutFixed32 [] (of_nat (length (cd_name d))) @ cd_name d @
     [if cd_is_dropped d then 1 else 0] @ PutFixed64 [] (cd_create_sequence d) @ PutFixed64 [] (cd_drop_sequence d) @
     PutFixed32 [] (of_nat (length (EncodeColumnFamilyOptions (cd_options d)))) @ EncodeColumnFamilyOptions (cd_options d)"
  by (simp only: Descriptor_Encode_def Let_def PutFixed32_append [of "PutFixed32 _ _"] PutFixed32_append [of "PutFixed64 _ _"]
      PutFixed64_append [of "PutFixed64 _ _"] PutFixed64_append [of "_ @ _"] append_assoc)

lemma length_Descriptor_Encode [simp]:
  "length (Descriptor_Encode d) = 67 + length (cd_name d) + length (comparator_bytes (cd_options d))"
  by (simp add: Descriptor_Encode_layout)

lemma Descriptor_Decode_Encode:
  assumes "length (cd_name d) + 25 < 2 ^ 32"
  shows "Descriptor_Decode (Descriptor_Encode d) d0 =
    Ret (OK, d\<lparr>cd_options := persisted (cd_options d0) (cd_options d)\<rparr>)"
proof -
  let ?e = "Descriptor_Encode d" and ?n = "cd_name d" and ?o = "EncodeColumnFamilyOptions (cd_options d)"
  let ?l = "length ?n"
  have n: "unat (of_nat ?l :: u32) = ?l" "unat (25 + of_nat ?l :: u32) = 25 + ?l"
    using small_u32 [of ?l] small_u32 [of "25 + ?l"] assms by simp_all
  have o: "unat (of_nat (length ?o) :: u32) = length ?o"
    using length_comparator_bytes [of "cd_options d"] by (intro small_u32) simp
  have f: "DecodeFixed32 ?e = Some (cd_id d)" "DecodeFixed32 (drop 4 ?e) = Some (of_nat ?l)"
    by (simp_all add: Descriptor_Encode_layout)
  have g: "take ?l (drop 8 ?e) = ?n" "?e ! (8 + ?l) = (if cd_is_dropped d then 1 else 0)"
    by (simp_all add: Descriptor_Encode_layout nth_append)
  have h: "DecodeFixed64 (drop (9 + ?l) ?e) = Some (cd_create_sequence d)"
    "DecodeFixed64 (drop (17 + ?l) ?e) = Some (cd_drop_sequence d)"
    "DecodeFixed32 (drop (25 + ?l) ?e) = Some (of_nat (length ?o))"
    by (simp_all add: Descriptor_Encode_layout)
  have r: "drop (29 + ?l) (?e @ [0]) = ?o @ [0]"
    by (simp add: Descriptor_Encode_layout)
  have le: "length ?e = 29 + ?l + length ?o" by simp
  show ?thesis
    unfolding Descriptor_Decode_def
    by (simp only: Let_def f g h r o n le option.sel DecodeColumnFamilyOptions_Encode)
      (auto simp: DecodeColumnFamilyOptions_Encode simp del: length_EncodeColumnFamilyOptions)
qed

subsection \<open>Frames\<close>

text \<open>A reader in good state at position \<open>p\<close> of a file with contents \<open>d\<close>.\<close>

definition mr_at :: "manifest_reader \<Rightarrow> bytes \<Rightarrow> nat \<Rightarrow> bool" where
  "mr_at rd d p \<longleftrightarrow> mr_is_open rd \<and> \<not> mr_eof_reached rd \<and> mr_read_position rd = p \<and>
     mr_file rd = Some \<lparr>in_data = d, in_pos = p, in_eof = False, in_fail = False\<rparr>"

abbreviation mframe :: "manifest_record \<Rightarrow> bytes" where "mframe r \<equiv> wal_frame (Manifest_Encode r)"

definition mf_readable :: "manifest_record \<Rightarrow> bool" where
  "mf_readable r \<longleftrightarrow> length (Manifest_Encode r) \<le> 10 * 1024 * 1024 \<and> Manifest_ValidateCRC r"

lemma mf_readable_sealed: "mf_readable r \<Longrightarrow> sealed r"
  by (simp add: mf_readable_def sealed_def)

text \<open>One read from a good reader, written out.\<close>

lemma mr_read:
  assumes at: "mr_at rd d p"
  defines "c \<equiv> take 4 (drop p d)"
  defines "n \<equiv> unat (the (DecodeFixed32 c))"
  defines "b \<equiv> take n (drop (p + 4) d)"
  shows "ManifestReader_ReadNextRecord rd r0 =
    (if length c < 4
     then Ret (Incomplete ''EOF reached'', rd\<lparr>mr_file := Some \<lparr>in_data = d, in_pos = p + length c, in_eof = True, in_fail = True\<rparr>,
             mr_eof_reached := True\<rparr>, r0)
     else if n = 0 \<or> n > 10 * 1024 * 1024
     then Ret (Corruption ''Invalid record length'', rd\<lparr>mr_file := Some \<lparr>in_data = d, in_pos = p + 4, in_eof = False, in_fail = False\<rparr>\<rparr>, r0)
     else if length b < n
     then Ret (Corruption ''Record data truncated'',
           rd\<lparr>mr_file := Some \<lparr>in_data = d, in_pos = p + 4 + length b, in_eof = True, in_fail = True\<rparr>\<rparr>, r0)
     else case Manifest_Decode b r0 of Undefined \<Rightarrow> Undefined | Spent \<Rightarrow> Spent | Ret (s, r) \<Rightarrow>
       if ok s
       then Ret (OK, rd\<lparr>mr_file := Some \<lparr>in_data = d, in_pos = p + 4 + n, in_eof = False, in_fail = False\<rparr>,
                  mr_read_position := p + (4 + n)\<rparr>, r)
       else Ret (s, rd\<lparr>mr_file := Some \<lparr>in_data = d, in_pos = p + 4 + n, in_eof = False, in_fail = False\<rparr>\<rparr>, r))"
proof -
  obtain st where fr: "mr_file rd = Some st" "st = \<lparr>in_data = d, in_pos = p, in_eof = False, in_fail = False\<rparr>"
    and no: "mr_is_open rd" "\<not> mr_eof_reached rd" "mr_read_position rd = p"
    using at by (simp_all add: mr_at_def)
  have i4: "in_read 4 st = (c, \<lparr>in_data = d, in_pos = p + length c, in_eof = length c < 4, in_fail = length c < 4\<rparr>)"
    by (simp add: in_read_def Let_def c_def fr)
  have i2: "in_read n \<lparr>in_data = d, in_pos = p + 4, in_eof = False, in_fail = False\<rparr> =
      (b, \<lparr>in_data = d, in_pos = p + 4 + length b, in_eof = length b < n, in_fail = length b < n\<rparr>)"
    by (simp add: in_read_def Let_def b_def)
  have lb: "length b \<le> n" "length c \<le> 4" by (simp_all add: b_def c_def)
  have nn: "unat (the (DecodeFixed32 c)) = n" by (simp add: n_def)
  show ?thesis
  proof (cases "length c < 4")
    case True
    then show ?thesis
      unfolding ManifestReader_ReadNextRecord_def fr(1) option.case i4 prod.case Let_def
      using no by simp
  next
    case False
    then have l4: "length c = 4" using lb by simp
    show ?thesis
      unfolding ManifestReader_ReadNextRecord_def fr(1) option.case i4 prod.case Let_def
      unfolding nn l4 using no lb(1) i2 by (cases "Manifest_Decode b r0") (auto simp: Let_def)
  qed
qed

lemma mr_read_frame:
  assumes at: "mr_at rd d p" and d: "drop p d = mframe r @ rest" and r: "mf_readable r"
  shows "\<exists>rd'. ManifestReader_ReadNextRecord rd r0 = Ret (OK, rd', r) \<and>
    mr_at rd' d (p + length (mframe r)) \<and> mr_filename rd' = mr_filename rd"
proof -
  let ?e = "Manifest_Encode r"
  have n: "17 \<le> length ?e" "length ?e \<le> 10 * 1024 * 1024" using r by (simp_all add: mf_readable_def)
  have h: "unat (the (DecodeFixed32 (take 4 (drop p d)))) = length ?e"
    unfolding d using n by (intro frame_header) simp
  have l4: "length (take 4 (drop p d)) = 4" by (simp only: d) simp
  have body: "take (length ?e) (drop (p + 4) d) = ?e"
  proof -
    have "drop (p + 4) d = drop 4 (mframe r @ rest)" by (simp only: d [symmetric] drop_drop add.commute)
    then show ?thesis by (simp add: wal_frame_def)
  qed
  show ?thesis
    unfolding mr_read [OF at] h l4 body Manifest_Decode_Encode [OF mf_readable_sealed [OF r]]
    using n at by (auto simp: mr_at_def simp del: length_Manifest_Encode)
qed

lemma mr_read_end:
  assumes "mr_at rd d p" "length (drop p d) < 4"
  shows "\<exists>rd'. ManifestReader_ReadNextRecord rd r0 = Ret (Incomplete ''EOF reached'', rd', r0)"
  using assms by (simp add: mr_read)

lemma manifest_open_at:
  assumes "fs_can_open fs f" "map_of (fs_files fs) f = Some d"
  shows "\<exists>rd. ManifestReader_Open (ManifestReader_new f) fs = (OK, rd) \<and> mr_at rd d 0 \<and> mr_filename rd = f"
  using assms by (auto simp: ManifestReader_Open_def ManifestReader_new_def mr_at_def in_open_def fs_data_def Let_def)

section \<open>Recovery of a log\<close>

fun apply_records :: "manifest_record list \<Rightarrow> cf_map \<Rightarrow> cf_map run" where
  "apply_records [] m = Ret m"
| "apply_records (r # rs) m =
     (case apply_manifest_record r m of
        Ret m \<Rightarrow> apply_records rs m | Undefined \<Rightarrow> Undefined | Spent \<Rightarrow> Spent)"

definition max_sequence :: "manifest_record list \<Rightarrow> u64 \<Rightarrow> u64" where
  "max_sequence rs mx = foldl (\<lambda>mx r. max mx (mf_sequence r)) mx rs"

lemma max_sequence_simps [simp]:
  "max_sequence [] mx = mx" "max_sequence (r # rs) mx = max_sequence rs (max mx (mf_sequence r))"
  by (simp_all add: max_sequence_def)

text \<open>Good frames are applied one after the other, from wherever the reader stands.\<close>

lemma recover_frames:
  assumes "\<forall>r \<in> set rs. mf_readable r" "mr_at rd d p" "drop p d = concat (map mframe rs) @ tail"
    and "apply_records rs m = Ret m'"
  shows "\<exists>rd' r'. mr_at rd' d (p + length (concat (map mframe rs))) \<and> mr_filename rd' = mr_filename rd \<and>
    RecoverFromManifestFile_loop (length rs + k) fs rd r mx m =
      RecoverFromManifestFile_loop k fs rd' r' (max_sequence rs mx) m'"
  using assms
proof (induction rs arbitrary: rd p r mx m)
  case Nil then show ?case by auto
next
  case (Cons a rs)
  have d: "drop p d = mframe a @ concat (map mframe rs) @ tail" using Cons.prems by simp
  obtain rd' where rd': "ManifestReader_ReadNextRecord rd r = Ret (OK, rd', a)"
    "mr_at rd' d (p + length (mframe a))" "mr_filename rd' = mr_filename rd"
    using mr_read_frame [OF Cons.prems(2) d, of r] Cons.prems(1) by auto
  have d': "drop (p + length (mframe a)) d = concat (map mframe rs) @ tail"
    using d by (metis add.commute append_eq_conv_conj drop_drop)
  obtain m1 where m1: "apply_manifest_record a m = Ret m1" "apply_records rs m1 = Ret m'"
    using Cons.prems(4) by (auto split: run.splits)
  have ne: "\<not> ManifestReader_IsEOF rd" using Cons.prems(2) by (simp add: mr_at_def ManifestReader_IsEOF_def)
  have "\<exists>rd'' r''. mr_at rd'' d (p + length (mframe a) + length (concat (map mframe rs))) \<and>
      mr_filename rd'' = mr_filename rd' \<and>
      RecoverFromManifestFile_loop (length rs + k) fs rd' a (max mx (mf_sequence a)) m1 =
        RecoverFromManifestFile_loop k fs rd'' r'' (max_sequence rs (max mx (mf_sequence a))) m'"
    by (rule Cons.IH [OF _ rd'(2) d' m1(2)]) (use Cons.prems(1) in auto)
  then show ?case
    using rd' m1(1) ne by (auto simp: Let_def add.assoc)
qed

lemma recover_file:
  assumes rs: "\<forall>r \<in> set rs. mf_readable r" "length tail < 4" "apply_records rs m = Ret m'"
    and f: "fs_can_open fs f" "map_of (fs_files fs) f = Some (concat (map mframe rs) @ tail)"
  shows "RecoverFromManifestFile fs f m = Ret (OK, m', max_sequence rs 0)"
proof -
  let ?d = "concat (map mframe rs) @ tail"
  obtain rd where rd: "ManifestReader_Open (ManifestReader_new f) fs = (OK, rd)" "mr_at rd ?d 0"
    using manifest_open_at [OF f] by blast
  have dat: "fs_data fs f = ?d" using f(2) by (simp add: fs_data_def)
  have le: "length rs \<le> length (concat (map mframe rs))" by (induction rs) auto
  obtain k where k: "2 * length ?d + 2 = length rs + Suc k"
    by (rule that [of "2 * length ?d + 1 - length rs"]) (use le in simp)
  obtain rd' r' where r: "mr_at rd' ?d (0 + length (concat (map mframe rs)))"
    "RecoverFromManifestFile_loop (length rs + Suc k) fs rd ManifestRecord_new 0 m =
      RecoverFromManifestFile_loop (Suc k) fs rd' r' (max_sequence rs 0) m'"
    using recover_frames [OF rs(1) rd(2) _ rs(3), of tail "Suc k" fs ManifestRecord_new 0] by auto
  have "\<exists>rd''. ManifestReader_ReadNextRecord rd' r' = Ret (Incomplete ''EOF reached'', rd'', r')"
    by (rule mr_read_end [OF r(1)]) (use rs(2) in simp)
  moreover have "\<not> ManifestReader_IsEOF rd'" using r(1) by (simp add: mr_at_def ManifestReader_IsEOF_def)
  ultimately have fin: "RecoverFromManifestFile_loop (Suc k) fs rd' r' (max_sequence rs 0) m' = Ret (OK, m', max_sequence rs 0)"
    by auto
  show ?thesis
    unfolding RecoverFromManifestFile_def rd(1) Let_def prod.case dat k r(2) fin by simp
qed

subsection \<open>The operations and what a log of them stands for\<close>

datatype family_op = Op_create cf_descriptor | Op_update u32 cf_options | Op_drop u32

fun op_record :: "u64 \<Rightarrow> family_op \<Rightarrow> manifest_record" where
  "op_record sq (Op_create d) = CreateColumnFamilyRecord sq d"
| "op_record sq (Op_update i opts) = UpdateColumnFamilyOptionsRecord sq i opts"
| "op_record sq (Op_drop i) = DropColumnFamilyRecord sq i"

fun log_op :: "family_op \<Rightarrow> manifest_manager \<Rightarrow> fs \<Rightarrow> status \<times> manifest_manager \<times> fs" where
  "log_op (Op_create d) mm fs = LogCreateColumnFamily d mm fs"
| "log_op (Op_update i opts) mm fs = LogUpdateColumnFamilyOptions i opts mm fs"
| "log_op (Op_drop i) mm fs = LogDropColumnFamily i mm fs"

text \<open>The specification: a map from ids to descriptors.\<close>

type_synonym families = "u32 \<Rightarrow> cf_descriptor option"

fun op_families :: "u64 \<Rightarrow> family_op \<Rightarrow> families \<Rightarrow> families" where
  "op_families sq (Op_create d) F =
     F(cd_id d \<mapsto> d\<lparr>cd_options := persisted ColumnFamilyOptions_new (cd_options d)\<rparr>)"
| "op_families sq (Op_update i opts) F =
     (case F i of None \<Rightarrow> F | Some d \<Rightarrow> F(i \<mapsto> d\<lparr>cd_options := persisted (cd_options d) opts\<rparr>))"
| "op_families sq (Op_drop i) F =
     (case F i of None \<Rightarrow> F | Some d \<Rightarrow> F(i \<mapsto> d\<lparr>cd_is_dropped := True, cd_drop_sequence := sq\<rparr>))"

fun families_after :: "u64 \<Rightarrow> family_op list \<Rightarrow> families \<Rightarrow> families" where
  "families_after sq [] F = F"
| "families_after sq (x # xs) F = families_after (sq + 1) xs (op_families (sq + 1) x F)"

fun op_small :: "family_op \<Rightarrow> bool" where
  "op_small (Op_create d) \<longleftrightarrow> length (cd_name d) \<le> 10 ^ 6"
| "op_small _ \<longleftrightarrow> True"

lemma op_record_readable: "op_small x \<Longrightarrow> mf_readable (op_record sq x)"
  using length_comparator_bytes [of "case x of Op_create d \<Rightarrow> cd_options d | Op_update i opts \<Rightarrow> opts | Op_drop i \<Rightarrow> ColumnFamilyOptions_new"]
  by (cases x)
    (auto simp: mf_readable_def Let_def CreateColumnFamilyRecord_def UpdateColumnFamilyOptionsRecord_def DropColumnFamilyRecord_def
      with_crc_def Manifest_ValidateCRC_def Manifest_CalculateCRC_def ManifestRecord_new_def)

lemma op_record_sequence [simp]: "mf_sequence (op_record sq x) = sq"
  by (cases x) (simp_all add: CreateColumnFamilyRecord_def UpdateColumnFamilyOptionsRecord_def DropColumnFamilyRecord_def Let_def)

lemma keys_al_put: "map fst (al_put k v al) = (if k \<in> set (map fst al) then map fst al else map fst al @ [k])"
  by (induction k v al rule: al_put.induct) auto

lemma distinct_al_put [simp]: "distinct (map fst m) \<Longrightarrow> distinct (map fst (al_put k v m))"
  by (simp add: keys_al_put)

lemma apply_op_record:
  assumes "op_small x"
  shows "\<exists>m'. apply_manifest_record (op_record sq x) m = Ret m' \<and> map_of m' = op_families sq x (map_of m) \<and>
    (distinct (map fst m) \<longrightarrow> distinct (map fst m'))"
proof (cases x)
  case (Op_create d)
  have "length (cd_name d) + 25 < 2 ^ 32" using assms by (simp add: Op_create)
  then show ?thesis
    by (simp add: Op_create apply_manifest_record_def CreateColumnFamilyRecord_def Descriptor_Decode_Encode
        ColumnFamilyDescriptor_new_def)
next
  case (Op_update i opts)
  let ?e = "EncodeColumnFamilyOptions opts"
  let ?p = "PutFixed32 [] i @ PutFixed32 [] (of_nat (length ?e)) @ ?e"
  have pay: "mf_payload (op_record sq x) = ?p" "mf_type (op_record sq x) = 3"
    by (simp_all add: Op_update UpdateColumnFamilyOptionsRecord_def Let_def PutFixed32_append [of "PutFixed32 _ _"])
  have le: "length ?e \<le> 293" using length_comparator_bytes [of opts] by simp
  have n: "unat (of_nat (length ?e) :: u32) = length ?e" "unat (8 + of_nat (length ?e) :: u32) = 8 + length ?e"
    using small_u32 [of "length ?e"] small_u32 [of "8 + length ?e"] le by simp_all
  have d: "DecodeFixed32 (drop 4 ?p) = Some (of_nat (length ?e))" "drop 8 (?p @ [0]) = ?e @ [0]" by simp_all
  show ?thesis
    unfolding apply_manifest_record_def pay Let_def
    by (simp only: d n option.sel DecodeFixed32_Put DecodeColumnFamilyOptions_Encode)
      (auto simp: Op_update split: option.splits)
next
  case (Op_drop i)
  have "DecodeFixed32 (PutFixed32 [] i) = Some i" using DecodeFixed32_Put [of i "[]"] by simp
  then show ?thesis
    by (auto simp: Op_drop apply_manifest_record_def DropColumnFamilyRecord_def Let_def split: option.splits)
qed

fun op_records :: "u64 \<Rightarrow> family_op list \<Rightarrow> manifest_record list" where
  "op_records sq [] = []"
| "op_records sq (x # xs) = op_record (sq + 1) x # op_records (sq + 1) xs"

lemma apply_op_records:
  assumes "\<forall>x \<in> set xs. op_small x" "distinct (map fst m)"
  shows "\<exists>m'. apply_records (op_records sq xs) m = Ret m' \<and> map_of m' = families_after sq xs (map_of m) \<and>
    distinct (map fst m')"
  using assms
proof (induction xs arbitrary: sq m)
  case (Cons x xs)
  obtain m1 where "apply_manifest_record (op_record (sq + 1) x) m = Ret m1"
    "map_of m1 = op_families (sq + 1) x (map_of m)" "distinct (map fst m1)"
    using apply_op_record [of x "sq + 1" m] Cons.prems by auto
  then show ?case using Cons.IH [of m1 "sq + 1"] Cons.prems by simp
qed simp

lemma op_records_readable: "\<forall>x \<in> set xs. op_small x \<Longrightarrow> r \<in> set (op_records sq xs) \<Longrightarrow> mf_readable r"
  by (induction xs arbitrary: sq) (auto simp: op_record_readable)

subsection \<open>The writer\<close>

text \<open>What the file will hold once the stream is flushed.\<close>

definition mw_content :: "manifest_writer \<Rightarrow> fs \<Rightarrow> bytes" where
  "mw_content w fs = fs_data fs (mw_filename w) @ mw_buffer w"

text \<open>Two file systems that differ at most in what programs see in the existing file \<open>f\<close>.\<close>

definition only_file :: "string \<Rightarrow> fs \<Rightarrow> fs \<Rightarrow> bool" where
  "only_file f fs fs' \<longleftrightarrow> same_os fs fs' \<and> fs_disk fs' = fs_disk fs \<and> map fst (fs_files fs') = map fst (fs_files fs) \<and>
     (\<forall>g. g \<noteq> f \<longrightarrow> map_of (fs_files fs') g = map_of (fs_files fs) g)"

lemma only_file_refl [simp]: "only_file f fs fs"
  by (simp add: only_file_def)

lemma only_file_trans: "only_file f a b \<Longrightarrow> only_file f b c \<Longrightarrow> only_file f a c"
  by (auto simp: only_file_def intro: same_os_trans)

lemma only_file_write: "map_of (fs_files fs) f \<noteq> None \<Longrightarrow> only_file f fs (fs_write fs f d)"
  by (simp add: only_file_def fs_write_def same_os_def keys_al_put map_of_eq_None_iff)

definition mw_good :: "manifest_writer \<Rightarrow> fs \<Rightarrow> bool" where
  "mw_good w fs \<longleftrightarrow> mw_is_open w \<and> mw_file w = Some False \<and> map_of (fs_files fs) (mw_filename w) \<noteq> None"

lemma mw_flush_good:
  assumes "mw_flush w fs = (w', fs')" "mw_good w fs" "mw_file w' \<noteq> Some True"
  shows "mw_good w' fs' \<and> mw_content w' fs' = mw_content w fs \<and> mw_buffer w' = [] \<and>
    mw_filename w' = mw_filename w \<and> only_file (mw_filename w) fs fs'"
  using assms only_file_write [of fs "mw_filename w"]
  by (auto simp: mw_flush_def mw_good_def mw_content_def Let_def only_file_def split: if_splits)

lemma mw_put_good:
  assumes "mw_put d w fs = (w', fs')" "mw_good w fs" "mw_file w' \<noteq> Some True"
  shows "mw_good w' fs' \<and> mw_content w' fs' = mw_content w fs @ d \<and>
    mw_filename w' = mw_filename w \<and> only_file (mw_filename w) fs fs'"
proof (cases "length (mw_buffer w @ d) \<le> mw_capacity w")
  case True
  then show ?thesis using assms by (auto simp: mw_put_def mw_good_def mw_content_def Let_def)
next
  case False
  then have "mw_flush (w\<lparr>mw_buffer := mw_buffer w @ d\<rparr>) fs = (w', fs')"
    using assms(1,2) by (auto simp: mw_put_def mw_good_def Let_def)
  then show ?thesis
    using mw_flush_good [of "w\<lparr>mw_buffer := mw_buffer w @ d\<rparr>" fs w' fs'] assms(2,3)
    by (auto simp: mw_good_def mw_content_def)
qed

lemma mw_put_failed: "mw_file w = Some True \<Longrightarrow> mw_put d w fs = (w, fs)"
  by (simp add: mw_put_def)

lemma WriteRecord_good:
  assumes "ManifestWriter_WriteRecord w r fs = (s, w', fs')" "ok s" "mw_good w fs"
  shows "mw_good w' fs' \<and> mw_content w' fs' = mw_content w fs @ mframe r \<and>
    mw_filename w' = mw_filename w \<and> only_file (mw_filename w) fs fs'"
proof -
  obtain w1 fs1 where p1: "mw_put (PutFixed32 [] (of_nat (length (Manifest_Encode r)))) w fs = (w1, fs1)" by fastforce
  obtain w2 fs2 where p2: "mw_put (Manifest_Encode r) w1 fs1 = (w2, fs2)" by fastforce
  have r: "mw_file w2 \<noteq> Some True" "fs' = fs2"
    "w' = w2\<lparr>mw_file_size := mw_file_size w2 + (4 + length (Manifest_Encode r))\<rparr>"
    using assms p1 p2 by (auto simp: ManifestWriter_WriteRecord_def mw_good_def Let_def split: if_splits)
  have "mw_file w1 \<noteq> Some True" using r(1) p2 mw_put_failed [of w1] by auto
  then have g1: "mw_good w1 fs1" "mw_content w1 fs1 = mw_content w fs @ PutFixed32 [] (of_nat (length (Manifest_Encode r)))"
    "mw_filename w1 = mw_filename w" "only_file (mw_filename w) fs fs1"
    using mw_put_good [OF p1 assms(3)] by auto
  then show ?thesis
    using mw_put_good [OF p2 g1(1) r(1)] r(2,3)
    by (auto simp: mw_good_def mw_content_def wal_frame_def intro: only_file_trans)
qed

text \<open>A sequence of operations, all of which succeed.\<close>

fun log_ops :: "family_op list \<Rightarrow> manifest_manager \<Rightarrow> fs \<Rightarrow> (manifest_manager \<times> fs) option" where
  "log_ops [] mm fs = Some (mm, fs)"
| "log_ops (x # xs) mm fs =
     (let (s, mm, fs) = log_op x mm fs in if ok s then log_ops xs mm fs else None)"

lemma log_op_record:
  assumes "mm_initialized mm"
  shows "log_op x mm fs = log_record (op_record (mm_last_sequence mm + 1) x) (mm\<lparr>mm_last_sequence := mm_last_sequence mm + 1\<rparr>) fs"
  using assms by (cases x) (simp_all add: LogCreateColumnFamily_def LogUpdateColumnFamilyOptions_def LogDropColumnFamily_def Let_def)

lemma log_ops_good:
  assumes "log_ops xs mm fs = Some (mm', fs')" "mm_initialized mm" "mm_writer mm = Some w" "mw_good w fs"
  shows "\<exists>w'. mm' = mm\<lparr>mm_writer := Some w', mm_last_sequence := mm_last_sequence mm + of_nat (length xs)\<rparr> \<and> mw_good w' fs' \<and>
    mw_content w' fs' = mw_content w fs @ concat (map mframe (op_records (mm_last_sequence mm) xs)) \<and>
    mw_filename w' = mw_filename w \<and> only_file (mw_filename w) fs fs'"
  using assms
proof (induction xs arbitrary: mm fs w)
  case (Cons x xs)
  let ?r = "op_record (mm_last_sequence mm + 1) x" and ?sq = "mm_last_sequence mm + 1"
  obtain s w1 fs1 where wr: "ManifestWriter_WriteRecord w ?r fs = (s, w1, fs1)" by (cases "ManifestWriter_WriteRecord w ?r fs")
  have l: "log_op x mm fs = (s, mm\<lparr>mm_last_sequence := ?sq, mm_writer := Some w1\<rparr>, fs1)"
    using Cons.prems(2,3) wr by (simp add: log_op_record log_record_def)
  have s: "ok s" and rest: "log_ops xs (mm\<lparr>mm_last_sequence := ?sq, mm_writer := Some w1\<rparr>) fs1 = Some (mm', fs')"
    using Cons.prems(1) l by (auto simp: Let_def split: if_splits)
  note g = WriteRecord_good [OF wr s Cons.prems(4)]
  obtain w2 where w2: "mm' = mm\<lparr>mm_last_sequence := ?sq, mm_writer := Some w1\<rparr>\<lparr>mm_writer := Some w2,
      mm_last_sequence := ?sq + of_nat (length xs)\<rparr>" "mw_good w2 fs'"
    "mw_content w2 fs' = mw_content w1 fs1 @ concat (map mframe (op_records ?sq xs))"
    "mw_filename w2 = mw_filename w1" "only_file (mw_filename w1) fs1 fs'"
    using Cons.IH [OF rest, of w1] Cons.prems(2) g by auto
  have "only_file (mw_filename w) fs fs'"
    using g w2(5) by (auto intro: only_file_trans)
  then show ?case using w2 g by (intro exI [of _ w2]) (auto simp: algebra_simps)
next
  case Nil
  then have "mm = mm\<lparr>mm_writer := Some w, mm_last_sequence := mm_last_sequence mm\<rparr>" by (cases mm) simp
  then show ?case using Nil by (intro exI [of _ w]) simp
qed

lemma Sync_good:
  assumes "ManifestWriter_Sync w fs = (s, w', fs')" "ok s" "mw_good w fs"
  shows "fs_data fs' (mw_filename w) = mw_content w fs \<and> fs_disk fs' = al_put (mw_filename w) (mw_content w fs) (fs_disk fs) \<and>
    same_os fs fs' \<and> map fst (fs_files fs') = map fst (fs_files fs)"
proof -
  obtain w1 fs1 where f: "mw_flush w fs = (w1, fs1)" by fastforce
  have "mw_file w1 \<noteq> Some True" and fs': "fs' = fs_fsync fs1 (mw_filename w1)"
    using assms f by (auto simp: ManifestWriter_Sync_def mw_good_def Let_def split: if_splits)
  then have g: "mw_content w1 fs1 = mw_content w fs" "mw_buffer w1 = []" "mw_filename w1 = mw_filename w"
    "only_file (mw_filename w) fs fs1"
    using mw_flush_good [OF f assms(3)] by auto
  have "fs_data fs1 (mw_filename w) = mw_content w fs" using g(1-3) by (simp add: mw_content_def)
  then show ?thesis using g(3,4) by (simp add: fs' only_file_def fs_fsync_def fs_data_def same_os_def)
qed

subsection \<open>A new database\<close>

text \<open>File names: everything after the last slash.\<close>

lemma base_name_append: "CHR ''/'' \<notin> set n \<Longrightarrow> base_name (d @ ''/'' @ n) = n"
  by (simp add: base_name_def takeWhile_append)

lemma dir_files_iff:
  "p \<in> set (dir_files fs d) \<longleftrightarrow> (\<exists>n. p = d @ ''/'' @ n \<and> CHR ''/'' \<notin> set n \<and> p \<in> set (map fst (fs_files fs)))"
proof -
  have "take (length d + 1) p = d @ ''/'' \<longleftrightarrow> p = (d @ ''/'') @ drop (length d + 1) p"
    by (metis append_eq_conv_conj append_take_drop_id length_append length_Cons list.size(3) One_nat_def)
  then show ?thesis by (auto simp: dir_files_def)
qed

definition no_manifest :: "string \<Rightarrow> fs \<Rightarrow> bool" where
  "no_manifest db fs \<longleftrightarrow> (\<forall>n. take 9 n = ''MANIFEST-'' \<longrightarrow> db @ ''/'' @ n \<notin> fst ` set (fs_files fs) \<union> fst ` set (fs_disk fs)) \<and>
     db @ ''/CURRENT'' \<notin> fst ` set (fs_files fs) \<and> db @ ''/CURRENT.tmp'' \<notin> fst ` set (fs_disk fs)"

abbreviation first_manifest :: "string \<Rightarrow> string" where "first_manifest db \<equiv> db @ ''/MANIFEST-000001''"

lemma Format_1: "FormatManifestFilename 1 = ''MANIFEST-000001''"
  by code_simp

lemma first_manifest: "db @ ''/'' @ FormatManifestFilename 1 = first_manifest db"
  by (simp only: Format_1 append.simps)

lemma map_of_filter_key: "map_of (filter (\<lambda>p. fst p \<noteq> a) al) k = (if k = a then None else map_of al k)"
  by (induction al) auto

lemma map_of_al_rename:
  "a \<noteq> b \<Longrightarrow> map_of (al_rename a b al) k =
     (if map_of al a = None then map_of al k else if k = b then map_of al a else if k = a then None else map_of al k)"
  by (auto simp: al_rename_def map_of_filter_key split: option.splits)

lemma keys_al_rename: "fst ` set (al_rename a b al) \<subseteq> insert b (fst ` set al)"
proof -
  have "fst ` set (al_put k v al) = insert k (fst ` set al)" for k :: 'a and v :: 'b and al
    using arg_cong [OF keys_al_put [of k v al], of set] by auto
  then show ?thesis by (auto simp: al_rename_def split: option.splits)
qed

lemma keys_fs_write: "fst ` set (fs_files (fs_write fs f d)) = insert f (fst ` set (fs_files fs))"
  using arg_cong [OF keys_al_put [of f d "fs_files fs"], of set] by (auto simp: fs_write_def)

lemma Initialize_new:
  assumes "no_manifest db fs" "ManifestManager_Initialize (ManifestManager_new c db) fs = (s, mm, fs')" "ok s"
  shows "\<exists>w. mm_initialized mm \<and> mm_writer mm = Some w \<and> mw_good w fs' \<and> mw_filename w = first_manifest db \<and>
    mw_content w fs' = [] \<and> mm_last_sequence mm = 0 \<and> fs_disk fs' = fs_disk fs \<and> same_os fs fs' \<and>
    fs_can_open fs (first_manifest db) \<and>
    fst ` set (fs_files fs') \<subseteq> {first_manifest db, db @ ''/CURRENT'', db @ ''/CURRENT.tmp''} \<union> fst ` set (fs_files fs)"
proof -
  let ?f = "first_manifest db" and ?cur = "db @ ''/CURRENT''" and ?tmp = "db @ ''/CURRENT.tmp''"
  let ?w = "(ManifestWriter_new c ?f)\<lparr>mw_file := Some False, mw_file_size := 0, mw_is_open := True\<rparr>"
  have t9: "take 9 ''MANIFEST-000001'' = ''MANIFEST-''" by simp
  have "db @ ''/'' @ ''MANIFEST-000001'' \<notin> fst ` set (fs_files fs) \<union> fst ` set (fs_disk fs)"
    using assms(1) t9 unfolding no_manifest_def by blast
  then have ff: "map_of (fs_files fs) ?f = None" by (simp add: map_of_eq_None_iff)
  have cur: "map_of (fs_files fs) ?cur = None" and tmp: "map_of (fs_disk fs) ?tmp = None"
    using assms(1) by (simp_all add: no_manifest_def map_of_eq_None_iff)
  have rc: "read_current (ManifestManager_new c db) fs = ManifestManager_new c db"
    using cur by (simp add: read_current_def ManifestManager_new_def Env_FileExists_def Let_def)
  let ?mm = "(ManifestManager_new c db)\<lparr>mm_next_file := 2, mm_filename := ''MANIFEST-000001'', mm_writer := Some ?w\<rparr>"
  let ?fs1 = "fs_write fs ?f []" and ?text = "bytes_of_string ''MANIFEST-000001'' @ [10]"
  let ?fs2 = "fs_rename (fs_write ?fs1 ?tmp ?text) ?tmp ?cur"
  have init: "ManifestManager_Initialize (ManifestManager_new c db) fs =
      (let (s, mm, fs) = CreateNewManifestFile (ManifestManager_new c db) fs in
       if \<not> ok s then (s, mm, fs) else (OK, mm\<lparr>mm_initialized := True\<rparr>, fs))"
    unfolding ManifestManager_Initialize_def rc by (simp add: ManifestManager_new_def)
  then obtain s0 mm0 where cr: "CreateNewManifestFile (ManifestManager_new c db) fs = (s0, mm0, fs')" "ok s0"
    "mm = mm0\<lparr>mm_initialized := True\<rparr>"
    using assms(2,3) by (auto simp: Let_def split: prod.splits if_splits)
  have fn: "FormatManifestFilename (mm_next_file (ManifestManager_new c db)) = ''MANIFEST-000001''"
    using Format_1 by (simp add: ManifestManager_new_def)
  have path: "mm_db_path (ManifestManager_new c db) @ ''/'' @ ''MANIFEST-000001'' = ?f" by (simp add: ManifestManager_new_def)
  have op: "fs_can_open fs ?f"
    using cr(1,2) unfolding CreateNewManifestFile_def fn Let_def path
    by (auto simp: ManifestWriter_Open_def ManifestWriter_new_def Let_def split: if_splits)
  have open_ok: "ManifestWriter_Open (ManifestWriter_new c ?f) fs = (OK, ?w, ?fs1)"
    using op ff by (simp add: ManifestWriter_Open_def ManifestWriter_new_def Let_def fs_data_def)
  have cr2: "CreateNewManifestFile (ManifestManager_new c db) fs =
      (let (s, fs) = UpdateCurrentFile db ''MANIFEST-000001'' ?fs1 in (s, ?mm, fs))"
    unfolding CreateNewManifestFile_def fn Let_def path
    by (simp add: open_ok ManifestManager_new_def)
  then have up: "UpdateCurrentFile db ''MANIFEST-000001'' ?fs1 = (s0, fs')" "mm0 = ?mm"
    using cr(1) by (auto simp: Let_def split: prod.splits)
  then have fs': "fs' = ?fs2"
    using cr(2) unfolding UpdateCurrentFile_def Let_def by (auto split: if_splits)
  have ne: "?tmp \<noteq> ?cur" "?f \<noteq> ?cur" "?f \<noteq> ?tmp" by simp_all
  have disk: "fs_disk fs' = fs_disk fs"
    using tmp by (simp add: fs' fs_rename_def al_rename_def)
  have same: "same_os fs fs'" by (simp add: fs' fs_rename_def same_os_def)
  have mf: "map_of (fs_files fs') ?f = Some []"
    using ne by (simp add: fs' fs_rename_def map_of_al_rename)
  have keys: "fst ` set (fs_files fs') \<subseteq> {?f, ?cur, ?tmp} \<union> fst ` set (fs_files fs)"
    using keys_al_rename [of ?tmp ?cur "fs_files (fs_write ?fs1 ?tmp ?text)"]
    by (auto simp: fs' fs_rename_def keys_fs_write)
  have "mw_good ?w fs'" "mw_content ?w fs' = []"
    using mf by (simp_all add: mw_good_def mw_content_def fs_data_def ManifestWriter_new_def)
  then show ?thesis
    using cr(3) up(2) disk same keys op by (auto simp: ManifestManager_new_def ManifestWriter_new_def)
qed

lemma max_sequence_ops:
  assumes "unat sq + length xs < 2 ^ 64"
  shows "max_sequence (op_records sq xs) sq = sq + of_nat (length xs)"
  using assms
proof (induction xs arbitrary: sq)
  case (Cons x xs)
  have u: "unat (sq + 1) = Suc (unat sq)" using Cons.prems by (simp add: unat_word_ariths(1))
  then have "max sq (sq + 1) = sq + 1" by (simp add: max_def word_le_nat_alt)
  then show ?case using Cons.IH [of "sq + 1"] Cons.prems u by (simp add: algebra_simps)
qed simp

lemma crashed_manifest:
  assumes "no_manifest db fs" "fs_disk fs3 = al_put (first_manifest db) d (fs_disk fs)"
  shows "manifest_files (fs3\<lparr>fs_files := fs_disk fs3\<rparr>) db = [first_manifest db]"
proof -
  let ?f = "first_manifest db" and ?fs = "fs3\<lparr>fs_files := fs_disk fs3\<rparr>" and ?old = "fs\<lparr>fs_files := fs_disk fs\<rparr>"
  have t9: "take 9 ''MANIFEST-000001'' = ''MANIFEST-''" and sl: "CHR ''/'' \<notin> set ''MANIFEST-000001''" by simp_all
  have nf: "?f \<notin> fst ` set (fs_disk fs)"
    using assms(1) t9 unfolding no_manifest_def by (metis UnI2 append.assoc append_Cons append_Nil)
  have keys: "map fst (fs_files ?fs) = map fst (fs_files ?old) @ [?f]"
    using nf by (simp add: assms(2) keys_al_put)
  have "?f \<in> set (dir_files (fs\<lparr>fs_files := [(?f, d)]\<rparr>) db)"
    unfolding dir_files_iff using sl by (intro exI [of _ "''MANIFEST-000001''"]) simp
  then have new: "dir_files (fs\<lparr>fs_files := [(?f, d)]\<rparr>) db = [?f]" by (simp add: dir_files_def split: if_splits)
  have split: "dir_files ?fs db = dir_files ?old db @ [?f]"
    using new keys by (simp add: dir_files_def)
  have "filter (\<lambda>p. take 9 (base_name p) = ''MANIFEST-'') (dir_files ?old db) = []"
  proof (rule filter_False, rule ballI)
    fix p assume "p \<in> set (dir_files ?old db)"
    then obtain n where n: "p = db @ ''/'' @ n" "CHR ''/'' \<notin> set n" "p \<in> fst ` set (fs_disk fs)"
      unfolding dir_files_iff by auto
    have b: "base_name p = n" using base_name_append [OF n(2)] n(1) by simp
    show "take 9 (base_name p) \<noteq> ''MANIFEST-''"
      unfolding b using assms(1) n(1,3) unfolding no_manifest_def by blast
  qed
  moreover have "base_name ?f = ''MANIFEST-000001''" using base_name_append [OF sl, of db] by simp
  ultimately show ?thesis by (simp add: manifest_files_def split t9)
qed

subsection \<open>Recovery returns\<close>

lemma Decode_not_Spent [simp]: "Manifest_Decode d r \<noteq> Spent" "DecodeColumnFamilyOptions b n opts \<noteq> Spent"
  by (simp_all add: Manifest_Decode_def DecodeColumnFamilyOptions_def Let_def)

lemma Descriptor_Decode_not_Spent [simp]: "Descriptor_Decode d c \<noteq> Spent"
  by (auto simp: Descriptor_Decode_def Let_def split: run.splits)

lemma apply_not_Spent [simp]: "apply_manifest_record r m \<noteq> Spent"
  by (auto simp: apply_manifest_record_def Let_def split: run.splits option.splits)

lemma ReadNextRecord_not_Spent [simp]: "ManifestReader_ReadNextRecord rd r \<noteq> Spent"
  by (auto simp: ManifestReader_ReadNextRecord_def Let_def split: run.splits option.splits prod.splits)

lemma TryResyncManifest_not_Spent [simp]: "TryResyncManifest_loop n off fs f start \<noteq> Spent"
proof (induction n arbitrary: off)
  case (Suc n)
  then show ?case by (auto simp: Let_def split: run.splits prod.splits)
qed simp

lemma mr_outcome:
  assumes at: "mr_at rd d p" and r: "ManifestReader_ReadNextRecord rd r0 = Ret (s, rd', r')"
  shows "(s = OK \<and> (\<exists>p'. mr_at rd' d p' \<and> p < p' \<and> p' \<le> length d)) \<or> IsIncomplete s \<or>
    (\<not> ok s \<and> mr_is_open rd' \<and> \<not> mr_eof_reached rd' \<and> mr_read_position rd' = p \<and>
     (\<exists>st. mr_file rd' = Some st \<and> in_data st = d \<and> in_eof st = in_fail st))"
    (is "?P") and "mr_filename rd' = mr_filename rd"
proof -
  note e = trans [OF r [symmetric] mr_read [OF at, of r0]]
  have no: "mr_is_open rd" "\<not> mr_eof_reached rd" "mr_read_position rd = p" using at by (simp_all add: mr_at_def)
  have len: "p + 4 + n \<le> length d" if "\<not> length (take n (drop (p + 4) d)) < n" "n \<noteq> 0" for n
    using that by (auto simp: min_def split: if_splits)
  let ?c = "take 4 (drop p d)"
  let ?n = "unat (the (DecodeFixed32 ?c))"
  let ?b = "take ?n (drop (p + 4) d)"
  show ?P
  proof (cases "length ?c < 4 \<or> ?n = 0 \<or> ?n > 10 * 1024 * 1024 \<or> length ?b < ?n")
    case True
    then show ?thesis
      using e no by (simp only: run.inject prod.inject split: if_split_asm) auto
  next
    case False
    then have e2: "Ret (s, rd', r') = (case Manifest_Decode ?b r0 of Undefined \<Rightarrow> Undefined | Spent \<Rightarrow> Spent | Ret (s, r) \<Rightarrow>
       if ok s
       then Ret (OK, rd\<lparr>mr_file := Some \<lparr>in_data = d, in_pos = p + 4 + ?n, in_eof = False, in_fail = False\<rparr>,
                  mr_read_position := p + (4 + ?n)\<rparr>, r)
       else Ret (s, rd\<lparr>mr_file := Some \<lparr>in_data = d, in_pos = p + 4 + ?n, in_eof = False, in_fail = False\<rparr>\<rparr>, r))"
      using e by (simp only: de_Morgan_disj simp_thms if_False)
    have le: "p + 4 + ?n \<le> length d" using False len [of ?n] by blast
    obtain s1 r1 where md: "Manifest_Decode ?b r0 = Ret (s1, r1)"
      using e2 by (cases "Manifest_Decode ?b r0") auto
    show ?thesis
    proof (cases "ok s1")
      case True then show ?thesis using e2 md no le by (auto simp: mr_at_def add.assoc)
    next
      case False then show ?thesis using e2 md no by simp
    qed
  qed
  show "mr_filename rd' = mr_filename rd"
    using e by (auto split: if_split_asm run.splits)
qed

lemma mr_seek_good:
  assumes "mr_is_open rd" "mr_file rd = Some st" "in_data st = d" "\<not> in_fail st"
  shows "\<exists>rd'. ManifestReader_Seek rd p = (OK, rd') \<and> mr_at rd' d p \<and> mr_filename rd' = mr_filename rd"
  using assms by (auto simp: ManifestReader_Seek_def in_seekg_def Let_def mr_at_def)

lemma TryResyncManifest_bound:
  assumes "TryResyncManifest_loop n off fs f start = Ret (Some q)" "0 < off" "map_of (fs_files fs) f = Some d"
  shows "start < q \<and> q \<le> length d"
  using assms
proof (induction n arbitrary: off)
  case (Suc n)
  obtain so p1 where o: "ManifestReader_Open (ManifestReader_new f) fs = (so, p1)" by fastforce
  have so: "ok so" using Suc.prems(1) o by (auto simp: Let_def split: if_splits)
  then have "fs_can_open fs f" using o by (auto simp: ManifestReader_Open_def ManifestReader_new_def Let_def split: if_splits)
  then have at0: "mr_at p1 d 0" using o manifest_open_at [of fs f d] Suc.prems(3) by auto
  then obtain p2 where p2: "ManifestReader_Seek p1 (start + off) = (OK, p2)" "mr_at p2 d (start + off)"
    using mr_seek_good [of p1 _ d "start + off"] by (auto simp: mr_at_def)
  obtain sr p3 r where rd: "ManifestReader_ReadNextRecord p2 ManifestRecord_new = Ret (sr, p3, r)"
    using Suc.prems(1) o so p2 by (auto simp: Let_def split: run.splits)
  show ?case
  proof (cases "ok sr")
    case True
    then have "start + off \<le> length d"
      using mr_outcome(1) [OF p2(2) rd] by (auto simp: status_simps)
    moreover have "q = start + off" using Suc.prems(1) o so p2 rd True by simp
    ultimately show ?thesis using Suc.prems(2) by simp
  next
    case False
    then show ?thesis using Suc.IH [of "off + 1"] Suc.prems o so p2 rd by simp
  qed
qed simp

lemma RecoverFromManifestFile_loop_returns:
  assumes "mr_at rd d p" "p \<le> length d" "length d - p < fuel" "map_of (fs_files fs) (mr_filename rd) = Some d"
  shows "RecoverFromManifestFile_loop fuel fs rd r mx m \<noteq> Spent"
  using assms
proof (induction fuel arbitrary: rd p r mx m)
  case (Suc k)
  have ne: "\<not> ManifestReader_IsEOF rd" using Suc.prems(1) by (simp add: mr_at_def ManifestReader_IsEOF_def)
  show ?case
  proof (cases "ManifestReader_ReadNextRecord rd r")
    case (Ret x)
    obtain s rd' r' where x: "x = (s, rd', r')" by (cases x)
    note out = mr_outcome [OF Suc.prems(1) Ret [unfolded x]]
    show ?thesis
    proof (cases "ok s \<or> IsIncomplete s")
      case True
      show ?thesis
      proof (cases "IsIncomplete s")
        case True then show ?thesis using ne Ret x by simp
      next
        case inc: False
        then obtain p' where p': "mr_at rd' d p'" "p < p'" "p' \<le> length d" using out(1) True by auto
        show ?thesis
          using ne Ret x inc True Suc.IH [OF p'(1,3)] p' Suc.prems out(2)
          by (auto split: run.splits)
      qed
    next
      case bad: False
      then obtain st where st: "mr_is_open rd'" "mr_read_position rd' = p" "mr_file rd' = Some st" "in_data st = d"
        using out(1) by auto
      show ?thesis
      proof (cases "TryResyncManifestFile fs (mr_filename rd') p")
        case res: (Ret o')
        show ?thesis
        proof (cases o')
          case None then show ?thesis using ne Ret x bad st res by (simp add: ManifestReader_GetReadPosition_def)
        next
          case (Some q)
          then have q: "p < q" "q \<le> length d"
            using TryResyncManifest_bound [of _ 1 fs "mr_filename rd'" p q d] Suc.prems(4) out(2) res
            by (auto simp: TryResyncManifestFile_def)
          show ?thesis
          proof (cases "in_fail st")
            case True
            then have "\<not> ok (fst (ManifestReader_Seek rd' q))"
              using st by (simp add: ManifestReader_Seek_def in_seekg_def Let_def)
            then show ?thesis using ne Ret x bad st res Some
              by (auto simp: ManifestReader_GetReadPosition_def Let_def split: prod.splits)
          next
            case False
            then obtain rd2 where "ManifestReader_Seek rd' q = (OK, rd2)" "mr_at rd2 d q" "mr_filename rd2 = mr_filename rd'"
              using mr_seek_good [OF st(1,3,4), of q] by blast
            then show ?thesis
              using ne Ret x bad st res Some Suc.IH [of rd2 q] q Suc.prems out(2)
              by (simp add: Let_def ManifestReader_GetReadPosition_def)
          qed
        qed
      next
        case Undefined then show ?thesis using ne Ret x bad st by (simp add: ManifestReader_GetReadPosition_def)
      next
        case Spent then show ?thesis by (simp add: TryResyncManifestFile_def)
      qed
    qed
  qed (use ne in simp_all)
qed simp

lemma RecoverFromManifestFile_returns: "RecoverFromManifestFile fs f m \<noteq> Spent"
proof (cases "ManifestReader_Open (ManifestReader_new f) fs")
  case (Pair s rd)
  show ?thesis
  proof (cases "ok s")
    case True
    then obtain d where d: "map_of (fs_files fs) f = Some d" and c: "fs_can_open fs f"
      using Pair by (auto simp: ManifestReader_Open_def ManifestReader_new_def Let_def split: if_splits)
    have at: "mr_at rd d 0" "mr_filename rd = f" using manifest_open_at [OF c d] Pair by auto
    have dat: "fs_data fs f = d" using d by (simp add: fs_data_def)
    have "RecoverFromManifestFile_loop (2 * length d + 2) fs rd ManifestRecord_new 0 m \<noteq> Spent"
      by (rule RecoverFromManifestFile_loop_returns [OF at(1)]) (use at d in simp_all)
    then show ?thesis
      using Pair True by (simp only: RecoverFromManifestFile_def Let_def dat prod.case not_True_eq_False if_False) simp
  next
    case False then show ?thesis using Pair by (simp add: RecoverFromManifestFile_def Let_def)
  qed
qed

lemma RecoverManifestFiles_returns: "RecoverManifestFiles fs fls m mx \<noteq> Spent"
proof (induction fls arbitrary: m mx)
  case (Cons f fls)
  then show ?case using RecoverFromManifestFile_returns [of fs f m] by (auto split: run.splits)
qed simp

subsection \<open>A length that goes beyond the end of the file\<close>

definition overlong :: "bytes \<Rightarrow> bool" where
  "overlong b \<longleftrightarrow> (\<exists>n. DecodeFixed32 b = Some n \<and> n \<noteq> 0 \<and> unat n \<le> 10 * 1024 * 1024 \<and> length b - 4 < unat n)"

lemma mr_read_overlong:
  assumes at: "mr_at rd d p" and d: "drop p d = b" "overlong b"
  shows "\<exists>rd' st. ManifestReader_ReadNextRecord rd r0 = Ret (Corruption ''Record data truncated'', rd', r0) \<and>
    mr_is_open rd' \<and> mr_read_position rd' = p \<and> mr_filename rd' = mr_filename rd \<and> mr_file rd' = Some st \<and> in_fail st"
proof -
  obtain n where n: "DecodeFixed32 b = Some n" "n \<noteq> 0" "unat n \<le> 10 * 1024 * 1024" "length b - 4 < unat n"
    using d(2) by (auto simp: overlong_def)
  have l: "4 \<le> length b" using n(1) by (auto simp: DecodeFixed32_def split: if_splits)
  then have c: "DecodeFixed32 (take 4 (drop p d)) = Some n" "\<not> length (take 4 (drop p d)) < 4"
    using n(1) by (simp_all add: d(1) DecodeFixed32_def)
  have s: "length (take (unat n) (drop (p + 4) d)) < unat n"
    using n(4) d(1) by auto
  have nz: "\<not> (unat n = 0 \<or> unat n > 10 * 1024 * 1024)" using n(2,3) by (simp add: unat_eq_zero)
  show ?thesis
    unfolding mr_read [OF at] c(1) option.sel
    using at by (simp only: c(2) s nz if_True if_False) (auto simp: mr_at_def)
qed

lemma mr_read_long:
  assumes at: "mr_at rd d p" and c: "length (take 4 (drop p d)) = 4"
    and n: "length d < unat (the (DecodeFixed32 (take 4 (drop p d))))"
  shows "\<exists>s rd' r'. ManifestReader_ReadNextRecord rd r0 = Ret (s, rd', r') \<and> \<not> ok s"
proof -
  let ?n = "unat (the (DecodeFixed32 (take 4 (drop p d))))"
  have s: "length (take ?n (drop (p + 4) d)) < ?n" "\<not> (4 :: nat) < 4" using n by simp_all
  show ?thesis
    unfolding mr_read [OF at] c by (simp only: s if_True if_False) auto
qed

lemma recover_overlong:
  assumes "mr_at rd d p" "drop p d = b" "overlong b"
  shows "RecoverFromManifestFile_loop (Suc k) fs rd r mx m =
    (case TryResyncManifestFile fs (mr_filename rd) p of
       Ret None \<Rightarrow> Ret (Corruption ''Manifest resync failed (rest of file skipped)'', m, 0)
     | Ret (Some q) \<Rightarrow> Ret (IOError ''Failed to seek in manifest file'', m, 0)
     | Undefined \<Rightarrow> Undefined | Spent \<Rightarrow> Spent)"
proof -
  obtain rd' st where rd': "ManifestReader_ReadNextRecord rd r = Ret (Corruption ''Record data truncated'', rd', r)"
    "mr_is_open rd'" "mr_read_position rd' = p" "mr_filename rd' = mr_filename rd" "mr_file rd' = Some st" "in_fail st"
    using mr_read_overlong [OF assms] by blast
  have "\<not> ManifestReader_IsEOF rd" using assms(1) by (simp add: mr_at_def ManifestReader_IsEOF_def)
  then show ?thesis
    using rd' by (auto simp: ManifestReader_GetReadPosition_def ManifestReader_Seek_def in_seekg_def Let_def
        split: run.splits option.splits)
qed

lemma recover_file_overlong:
  assumes rs: "\<forall>r \<in> set rs. mf_readable r" "apply_records rs m = Ret m'"
    and f: "fs_can_open fs f" "map_of (fs_files fs) f = Some (concat (map mframe rs) @ b)" "overlong b"
  shows "RecoverFromManifestFile fs f m =
    (case TryResyncManifestFile fs f (length (concat (map mframe rs))) of
       Ret None \<Rightarrow> Ret (Corruption ''Manifest resync failed (rest of file skipped)'', m', 0)
     | Ret (Some q) \<Rightarrow> Ret (IOError ''Failed to seek in manifest file'', m', 0)
     | Undefined \<Rightarrow> Undefined | Spent \<Rightarrow> Spent)"
proof -
  let ?d = "concat (map mframe rs) @ b" and ?p = "length (concat (map mframe rs))"
  obtain rd where rd: "ManifestReader_Open (ManifestReader_new f) fs = (OK, rd)" "mr_at rd ?d 0" "mr_filename rd = f"
    using manifest_open_at [OF f(1,2)] by blast
  have dat: "fs_data fs f = ?d" using f(2) by (simp add: fs_data_def)
  have le: "length rs \<le> ?p" by (induction rs) auto
  obtain k where k: "2 * length ?d + 2 = length rs + Suc k"
    by (rule that [of "2 * length ?d + 1 - length rs"]) (use le in simp)
  obtain rd' r' where r: "mr_at rd' ?d (0 + ?p)" "mr_filename rd' = f"
    "RecoverFromManifestFile_loop (length rs + Suc k) fs rd ManifestRecord_new 0 m =
      RecoverFromManifestFile_loop (Suc k) fs rd' r' (max_sequence rs 0) m'"
    using recover_frames [OF rs(1) rd(2) _ rs(2), of b "Suc k" fs ManifestRecord_new 0] rd(3) by auto
  have "drop (0 + ?p) ?d = b" by simp
  note fin = recover_overlong [OF r(1) this f(3), of k fs r' "max_sequence rs 0" m', unfolded r(2)]
  show ?thesis
    unfolding RecoverFromManifestFile_def rd(1) Let_def prod.case dat k r(3) fin by simp
qed

section \<open>Properties\<close>

text \<open>C15: The families logged to a new MANIFEST survive a power failure once it is synced: recovery
  finds exactly the live ones, with the state the operations gave them (less what the encoding of
  options loses), and the number of operations as the last sequence number.\<close>

theorem manifest_recovers_families:
  assumes "no_manifest db fs" "ManifestManager_Initialize (ManifestManager_new c db) fs = (s1, mm1, fs1)" "ok s1"
    and "\<forall>x \<in> set xs. op_small x" "length xs < 2 ^ 64" "log_ops xs mm1 fs1 = Some (mm2, fs2)"
    and "Manifest_Sync mm2 fs2 = (s3, mm3, fs3)" "ok s3"
  shows "\<exists>ds mm4. Manifest_RecoverColumnFamilies (ManifestManager_new c' db) (fs3\<lparr>fs_files := fs_disk fs3\<rparr>) =
      Ret (OK, ds, of_nat (length xs), mm4) \<and>
    set ds = {d. d \<in> ran (families_after 0 xs Map.empty) \<and> \<not> cd_is_dropped d}"
proof -
  let ?f = "first_manifest db" and ?fs4 = "fs3\<lparr>fs_files := fs_disk fs3\<rparr>"
  let ?d = "concat (map mframe (op_records 0 xs))"
  obtain w1 where w1: "mm_initialized mm1" "mm_writer mm1 = Some w1" "mw_good w1 fs1" "mw_filename w1 = ?f"
    "mw_content w1 fs1 = []" "mm_last_sequence mm1 = 0" "fs_disk fs1 = fs_disk fs" "same_os fs fs1" "fs_can_open fs ?f"
    using Initialize_new [OF assms(1-3)] by blast
  obtain w2 where w2: "mm_writer mm2 = Some w2" "mw_good w2 fs2" "mw_content w2 fs2 = ?d" "mw_filename w2 = ?f" "only_file ?f fs1 fs2"
    using log_ops_good [OF assms(6) w1(1-3)] w1(4-6) by auto
  obtain w3 where "ManifestWriter_Sync w2 fs2 = (s3, w3, fs3)"
    using assms(7) w2(1) by (auto simp: Manifest_Sync_def Let_def split: prod.splits)
  note sy = Sync_good [OF this assms(8) w2(2)]
  have disk: "fs_disk fs3 = al_put ?f ?d (fs_disk fs)" and same: "same_os fs fs3"
    using sy w2(3-5) w1(7,8) by (auto simp: only_file_def intro: same_os_trans)
  obtain m where m: "apply_records (op_records 0 xs) [] = Ret m" "map_of m = families_after 0 xs Map.empty" "distinct (map fst m)"
    using apply_op_records [OF assms(4), of "[]" 0] by auto
  have "RecoverFromManifestFile ?fs4 ?f [] = Ret (OK, m, max_sequence (op_records 0 xs) 0)"
    by (rule recover_file [where tail = "[]"])
      (use op_records_readable [OF assms(4)] m(1) disk same w1(9) in \<open>auto simp: same_os_def\<close>)
  moreover have "max_sequence (op_records 0 xs) 0 = of_nat (length xs)"
    using max_sequence_ops [of 0 xs] assms(5) by simp
  ultimately have rec: "RecoverManifestFiles ?fs4 [?f] [] 0 = Ret (OK, m, of_nat (length xs))" by simp
  have files: "manifest_files ?fs4 db = [?f]" by (rule crashed_manifest [OF assms(1) disk])
  have "set (filter (\<lambda>d. \<not> cd_is_dropped d) (map snd m)) = {d. d \<in> ran (map_of m) \<and> \<not> cd_is_dropped d}"
    using ran_distinct [OF m(3)] by auto
  then show ?thesis
    unfolding Manifest_RecoverColumnFamilies_def
    using rec files m(2) by (simp add: ManifestManager_new_def)
qed

text \<open>Logging succeeds when the system allows it.\<close>

definition fs_willing :: "fs \<Rightarrow> bool" where
  "fs_willing fs \<longleftrightarrow> (\<forall>f. fs_can_open fs f \<and> fs_can_write fs f \<and> fs_can_sync fs f \<and> fs_can_read fs f) \<and>
     fs_can_rename fs \<and> fs_can_close fs \<and> fs_can_remove fs"

lemma fs_willing_same: "same_os fs fs' \<Longrightarrow> fs_willing fs \<Longrightarrow> fs_willing fs'"
  by (simp add: same_os_def fs_willing_def)

lemma mw_put_willing:
  "fs_willing fs \<Longrightarrow> mw_file w = Some False \<Longrightarrow> \<exists>w' fs'. mw_put d w fs = (w', fs') \<and> mw_file w' = Some False \<and> fs_willing fs'"
  by (auto simp: mw_put_def mw_flush_def Let_def fs_willing_def)

lemma WriteRecord_willing:
  assumes "fs_willing fs" "mw_good w fs"
  shows "\<exists>w' fs'. ManifestWriter_WriteRecord w r fs = (OK, w', fs') \<and> mw_good w' fs' \<and> fs_willing fs'"
proof -
  obtain w1 fs1 where p1: "mw_put (PutFixed32 [] (of_nat (length (Manifest_Encode r)))) w fs = (w1, fs1)" "mw_file w1 = Some False" "fs_willing fs1"
    using mw_put_willing assms by (meson mw_good_def)
  obtain w2 fs2 where p2: "mw_put (Manifest_Encode r) w1 fs1 = (w2, fs2)" "mw_file w2 = Some False" "fs_willing fs2"
    using mw_put_willing p1(2,3) by meson
  obtain w3 where w3: "ManifestWriter_WriteRecord w r fs = (OK, w3, fs2)"
    using p1 p2 assms(2) by (simp add: ManifestWriter_WriteRecord_def mw_good_def Let_def)
  show ?thesis using w3 WriteRecord_good [OF w3 _ assms(2)] p2(3) by auto
qed

lemma log_ops_willing:
  assumes "fs_willing fs" "mm_initialized mm" "mm_writer mm = Some w" "mw_good w fs"
  shows "\<exists>mm' fs'. log_ops xs mm fs = Some (mm', fs')"
  using assms
proof (induction xs arbitrary: mm fs w)
  case (Cons x xs)
  obtain w' fs' where "ManifestWriter_WriteRecord w (op_record (mm_last_sequence mm + 1) x) fs = (OK, w', fs')" "mw_good w' fs'" "fs_willing fs'"
    using WriteRecord_willing [OF Cons.prems(1,4)] by blast
  then show ?case
    using Cons.IH [of fs' "mm\<lparr>mm_last_sequence := mm_last_sequence mm + 1, mm_writer := Some w'\<rparr>" w'] Cons.prems
    by (simp add: log_op_record log_record_def)
qed simp

lemma Sync_willing:
  assumes "fs_willing fs" "mm_writer mm = Some w" "mw_good w fs"
  shows "\<exists>mm' fs'. Manifest_Sync mm fs = (OK, mm', fs')"
  using assms by (auto simp: Manifest_Sync_def ManifestWriter_Sync_def mw_flush_def mw_good_def fs_willing_def Let_def)

lemma Initialize_willing:
  assumes "fs_willing fs" "no_manifest db fs"
  shows "\<exists>mm fs'. ManifestManager_Initialize (ManifestManager_new c db) fs = (OK, mm, fs')"
  using assms
  by (auto simp: ManifestManager_Initialize_def read_current_def ManifestManager_new_def Env_FileExists_def no_manifest_def
      CreateNewManifestFile_def UpdateCurrentFile_def ManifestWriter_Open_def ManifestWriter_new_def fs_willing_def Let_def
      map_of_eq_None_iff)

lemma fs_empty_willing: "fs_willing fs_empty" "no_manifest db fs_empty"
  by (simp_all add: fs_willing_def fs_empty_def no_manifest_def)

definition example_ops :: "family_op list" where
  "example_ops = [Op_create (ColumnFamilyDescriptor_new 1 [120] ColumnFamilyOptions_new),
     Op_create (ColumnFamilyDescriptor_new 2 [121] (ColumnFamilyOptions_new\<lparr>co_comparator := Some Reverse_ref\<rparr>)), Op_drop 1]"

theorem manifest_recovers_families_witness:
  "\<exists>mm1 fs1 mm2 fs2 mm3 fs3 ds mm4.
     ManifestManager_Initialize (ManifestManager_new 8191 ''db'') fs_empty = (OK, mm1, fs1) \<and>
     log_ops example_ops mm1 fs1 = Some (mm2, fs2) \<and> Manifest_Sync mm2 fs2 = (OK, mm3, fs3) \<and>
     Manifest_RecoverColumnFamilies (ManifestManager_new 8191 ''db'') (fs3\<lparr>fs_files := fs_disk fs3\<rparr>) = Ret (OK, ds, 3, mm4) \<and>
     set ds = {ColumnFamilyDescriptor_new 2 [121] (ColumnFamilyOptions_new\<lparr>co_comparator := Some Reverse_ref\<rparr>)}"
proof -
  obtain mm1 fs1 where i: "ManifestManager_Initialize (ManifestManager_new 8191 ''db'') fs_empty = (OK, mm1, fs1)"
    using Initialize_willing [OF fs_empty_willing] by blast
  obtain w1 where w1: "mm_initialized mm1" "mm_writer mm1 = Some w1" "mw_good w1 fs1" "same_os fs_empty fs1"
    using Initialize_new [OF fs_empty_willing(2) i] by auto
  have fw: "fs_willing fs1" by (rule fs_willing_same [OF w1(4) fs_empty_willing(1)])
  obtain mm2 fs2 where l: "log_ops example_ops mm1 fs1 = Some (mm2, fs2)"
    using log_ops_willing [OF fw w1(1-3)] by blast
  obtain w2 where w2: "mm_writer mm2 = Some w2" "mw_good w2 fs2" "only_file (mw_filename w1) fs1 fs2"
    using log_ops_good [OF l w1(1-3)] by auto
  obtain mm3 fs3 where s: "Manifest_Sync mm2 fs2 = (OK, mm3, fs3)"
    using Sync_willing [of fs2 mm2 w2] fs_willing_same [OF _ fw] w2 by (auto simp: only_file_def)
  have small: "\<forall>x \<in> set example_ops. op_small x" "length example_ops < 2 ^ 64"
    by (simp_all add: example_ops_def ColumnFamilyDescriptor_new_def)
  obtain ds mm4 where r: "Manifest_RecoverColumnFamilies (ManifestManager_new 8191 ''db'') (fs3\<lparr>fs_files := fs_disk fs3\<rparr>) =
      Ret (OK, ds, of_nat (length example_ops), mm4)"
    and ds: "set ds = {d. d \<in> ran (families_after 0 example_ops Map.empty) \<and> \<not> cd_is_dropped d}"
    using manifest_recovers_families [OF fs_empty_willing(2) i ok_OK small l s ok_OK, of 8191] by blast
  let ?o = "ColumnFamilyOptions_new\<lparr>co_comparator := Some Reverse_ref\<rparr>"
  have "length (bytes_of_string ''lrdb.ReverseBytewiseComparator'') \<le> 255"
    by (simp add: bytes_of_string_def)
  then have p: "persisted ColumnFamilyOptions_new ?o = ?o"
    by (simp add: persisted_def comparator_bytes_def ColumnFamilyOptions_new_def)
  have "families_after 0 example_ops Map.empty =
      [1 \<mapsto> (ColumnFamilyDescriptor_new 1 [120] (persisted ColumnFamilyOptions_new ColumnFamilyOptions_new))\<lparr>cd_is_dropped := True, cd_drop_sequence := 3\<rparr>,
       2 \<mapsto> ColumnFamilyDescriptor_new 2 [121] ?o]"
    by (auto simp: example_ops_def p ColumnFamilyDescriptor_new_def)
  then have "set ds = {ColumnFamilyDescriptor_new 2 [121] ?o}"
    by (auto simp: ds ran_def ColumnFamilyDescriptor_new_def intro: exI [of _ "2 :: u32"])
  then show ?thesis using i l s r by (auto simp: example_ops_def)
qed

text \<open>C17: The fuel of the recovery loops always suffices: every round of the loop over a file moves
  the reader forward, so twice the file's length bounds their number.\<close>

theorem manifest_recovery_returns: "Manifest_RecoverColumnFamilies mm fs \<noteq> Spent"
  using RecoverManifestFiles_returns by (auto simp: Manifest_RecoverColumnFamilies_def split: run.splits)


definition damaged_manifest :: fs where
  "damaged_manifest = fs_write fs_empty (first_manifest ''db'') (PutFixed32 [] 100 @ mframe (SequenceNumberRecord 7))"

lemma damaged_resync: "TryResyncManifestFile damaged_manifest (first_manifest ''db'') 0 = Ret (Some 4)"
proof -
  let ?fs = damaged_manifest and ?f = "first_manifest ''db''" and ?r = "SequenceNumberRecord 7"
  let ?d = "PutFixed32 [] 100 @ mframe ?r"
  have open': "\<exists>rd. ManifestReader_Open (ManifestReader_new ?f) ?fs = (OK, rd) \<and> mr_at rd ?d 0"
    using manifest_open_at [of ?fs ?f ?d] by (auto simp: damaged_manifest_def fs_empty_def)
  have probe: "\<exists>rd. ManifestReader_Open (ManifestReader_new ?f) ?fs = (OK, rd) \<and>
      (\<exists>rd2. ManifestReader_Seek rd q = (OK, rd2) \<and> mr_at rd2 ?d q)" for q
  proof -
    obtain rd where rd: "ManifestReader_Open (ManifestReader_new ?f) ?fs = (OK, rd)" "mr_at rd ?d 0" using open' by blast
    have "\<exists>rd2. ManifestReader_Seek rd q = (OK, rd2) \<and> mr_at rd2 ?d q \<and> mr_filename rd2 = mr_filename rd"
      by (rule mr_seek_good) (use rd(2) in \<open>auto simp: mr_at_def\<close>)
    then show ?thesis using rd(1) by blast
  qed
  have head: "take 7 ?d = [100, 0, 0, 0, 17, 0, 0]" "drop 4 ?d = mframe ?r @ []"
    by (simp_all add: wal_frame_def PutFixed32_def SequenceNumberRecord_def ManifestRecord_new_def)
  have len: "length ?d = 25" by (simp add: SequenceNumberRecord_def ManifestRecord_new_def)
  have c: "take 4 (drop 1 ?d) = [0, 0, 0, 17]" "take 4 (drop 2 ?d) = [0, 0, 17, 0]" "take 4 (drop 3 ?d) = [0, 17, 0, 0]"
    by (simp_all add: wal_frame_def PutFixed32_def SequenceNumberRecord_def ManifestRecord_new_def)
  have n: "unat (the (DecodeFixed32 [0, 0, 0, 17])) = 285212672" "unat (the (DecodeFixed32 [0, 0, 17, 0])) = 1114112"
    "unat (the (DecodeFixed32 [0, 17, 0, 0])) = 4352"
    by (simp_all add: DecodeFixed32_def)
  have bad: "\<exists>s rd2 r'. ManifestReader_ReadNextRecord rd ManifestRecord_new = Ret (s, rd2, r') \<and> \<not> ok s"
    if at: "mr_at rd ?d q" and q: "q = 1 \<or> q = 2 \<or> q = 3" for rd q
    using q mr_read_long [OF at] c n len by (elim disjE) simp_all
  have skip: "TryResyncManifest_loop (Suc k) q ?fs ?f 0 = TryResyncManifest_loop k q' ?fs ?f 0"
    if q: "q = 1 \<or> q = 2 \<or> q = 3" and q': "q' = q + 1" for k q q'
    unfolding q' using probe [of q] bad [OF _ q] by fastforce
  have skips: "TryResyncManifest_loop (Suc k) 1 ?fs ?f 0 = TryResyncManifest_loop k 2 ?fs ?f 0"
    "TryResyncManifest_loop (Suc k) 2 ?fs ?f 0 = TryResyncManifest_loop k 3 ?fs ?f 0"
    "TryResyncManifest_loop (Suc k) 3 ?fs ?f 0 = TryResyncManifest_loop k 4 ?fs ?f 0" for k
    by (rule skip; simp)+
  have "TryResyncManifest_loop (Suc k) 4 ?fs ?f 0 = Ret (Some 4)" for k
  proof -
    obtain rd rd2 where p: "ManifestReader_Open (ManifestReader_new ?f) ?fs = (OK, rd)" "ManifestReader_Seek rd 4 = (OK, rd2)" "mr_at rd2 ?d 4"
      using probe by blast
    have "mf_readable ?r" by (simp add: mf_readable_def SequenceNumberRecord_def ManifestRecord_new_def with_crc_def
        Manifest_ValidateCRC_def Manifest_CalculateCRC_def)
    then show ?thesis using mr_read_frame [OF p(3) head(2), of ManifestRecord_new] p(1,2) by auto
  qed
  then have "TryResyncManifest_loop (Suc (Suc (Suc (Suc k)))) 1 ?fs ?f 0 = Ret (Some 4)" for k
    by (simp only: skips)
  moreover have "64 * 1024 = Suc (Suc (Suc (Suc 65532)))" by simp
  ultimately show ?thesis unfolding TryResyncManifestFile_def by metis
qed


text \<open>C18: A length field of \<open>2^32 - 4\<close> or more passes the size test, because the sum in it wraps, and the
  payload is read far beyond the record before the checksum is looked at.\<close>

theorem manifest_decode_overreads:
  assumes "17 \<le> length data" "length data < 2 ^ 32" "DecodeFixed32 (drop 9 data) = Some n" "2 ^ 32 - 4 \<le> unat n"
  shows "Manifest_Decode data r = Undefined"
proof -
  obtain k where k: "unat n = 2 ^ 32 - 4 + k" using assms(4) le_Suc_ex by blast
  have "unat n < 2 ^ 32" using unsigned_less [of n] by simp
  then have k3: "k < 4" unfolding k by simp
  have "unat (n + 4) = (unat n + 4) mod 2 ^ 32" by (simp add: unat_word_ariths(1))
  also have "unat n + 4 = k + 2 ^ 32" unfolding k by simp
  also have "(k + 2 ^ 32) mod 2 ^ 32 = k" using k3 by simp
  finally have w: "unat (n + 4) \<le> 3" using k3 by simp
  have l: "\<not> length data < 17" "\<not> length data - 13 < unat (n + 4)" "length data - 13 < unat n + 4"
    using assms w by linarith+
  show ?thesis
    unfolding Manifest_Decode_def assms(3) option.sel Let_def by (simp only: l if_True if_False)
qed

theorem manifest_decode_overreads_witness:
  "Manifest_Decode ([4, 1, 0, 0, 0, 0, 0, 0, 0, 0xFC, 0xFF, 0xFF, 0xFF] @ [0, 0, 0, 0]) ManifestRecord_new = Undefined"
  by (rule manifest_decode_overreads [where n = "0xFFFFFFFC"]) (simp_all add: DecodeFixed32_def)

end
