(* ===== verification/ColumnFamilies.thy ===== *)
theory ColumnFamilies
  imports Manifests Transactions LsmReads
begin

text \<open>
  One column family (\<open>DefaultColumnFamily\<close> in src/db/column_family.cc): an LSM tree, a write-ahead
  log and a transaction manager over both, composed as the constructor does, with its operations.
  The family's table directory and its log directory share no path and are two file systems here:
  \<open>ls_fs\<close>, which also has \<open>LAST_SEQUENCE\<close>, and the log manager's own. The objects a pointer leads to
  are parts of one owner: the tree and the log belong to the transaction manager, and the log has
  the tree only while it recovers. Reads leave the tree as it is: they would count and fill the
  cache of readers. \<open>None\<close> is a crash inside the tree (see LsmTrees.thy). The family's
  directory can always be created. The periodic tasks are operations of the tree.
\<close>

section \<open>What the platform provides\<close>

text \<open>The compare functions of the comparators that are not the library's, the sizes of the C++
  objects, the address of the recovery table, the clock, \<open>CreateDirIfMissing\<close>, the capacity of an
  output stream's buffer.\<close>

record platform =
  pf_compare :: "nat \<Rightarrow> bytes \<Rightarrow> bytes \<Rightarrow> int"
  pf_sizeof_table :: nat
  pf_sizeof_entry :: nat
  pf_address :: nat
  pf_now :: u64
  pf_mkdir :: "string \<Rightarrow> status"
  pf_capacity :: nat

fun compare_of :: "platform \<Rightarrow> cmp_ref \<Rightarrow> bytes \<Rightarrow> bytes \<Rightarrow> int" where
  "compare_of P Bytewise_ref = Bytewise_Compare"
| "compare_of P Reverse_ref = Reverse_Compare"
| "compare_of P (Custom_ref a n) = pf_compare P a"

section \<open>The tree and the log as the transaction layer uses them\<close>

record lsm_side =
  ls_tree :: lsm_tree
  ls_fs :: fs
  ls_crashed :: bool

definition crash_status :: status where "crash_status = Corruption ''crash''"

definition default_memtable_options :: memtable_options where
  "default_memtable_options = \<lparr>write_buffer_size = 64 * 1024 * 1024, max_write_buffer_number = 6\<rparr>"

definition recovery_table :: "platform \<Rightarrow> memtable" where
  "recovery_table P = MemTable_new (pf_address P) (pf_sizeof_table P) (pf_sizeof_entry P) default_memtable_options"

definition lsm_recovery_of :: "platform \<Rightarrow> (bytes \<Rightarrow> bytes \<Rightarrow> int) \<Rightarrow> lsm_side lsm_recovery" where
  "lsm_recovery_of P cmp =
     \<lparr>LsmRecover = (\<lambda>key v sq del l.
        let (s, t) = RecoverFromWALRecord cmp (recovery_table P) key v sq del (ls_tree l) in (s, l\<lparr>ls_tree := t\<rparr>)),
      LsmSetRecoveryMode = (\<lambda>b l. l\<lparr>ls_tree := SetRecoveryMode b (ls_tree l)\<rparr>),
      LsmFinishRecovery = (\<lambda>sq l.
        case FinishRecovery cmp (pf_now P) sq (ls_tree l) (ls_fs l) of
          None \<Rightarrow> (crash_status, l\<lparr>ls_crashed := True\<rparr>)
        | Some (s, t, fs) \<Rightarrow> (s, l\<lparr>ls_tree := t, ls_fs := fs\<rparr>))\<rparr>"

definition lsm_ops_of :: "platform \<Rightarrow> (bytes \<Rightarrow> bytes \<Rightarrow> int) \<Rightarrow> lsm_side lsm_ops" where
  "lsm_ops_of P cmp =
     \<lparr>LsmGet = (\<lambda>l key snapshot.
        case LSMTree_Get cmp (ls_fs l) (pf_now P) key [] snapshot (ls_tree l) of
          None \<Rightarrow> (crash_status, []) | Some (s, v, t) \<Rightarrow> (s, v)),
      LsmPut = (\<lambda>l key v sq. let (s, t) = LSMTree_Put cmp key v sq (ls_tree l) in (s, l\<lparr>ls_tree := t\<rparr>)),
      LsmDelete = (\<lambda>l key sq. let (s, t) = LSMTree_Delete cmp key sq (ls_tree l) in (s, l\<lparr>ls_tree := t\<rparr>))\<rparr>"

type_synonym wal_side = "lsm_side wal_manager"

definition wal_ops_of :: "wal_side wal_ops" where
  "wal_ops_of =
     \<lparr>WritePut = (\<lambda>w cf key v sq. Wal_WritePut cf key v sq w),
      WriteDelete = (\<lambda>w cf key sq. Wal_WriteDelete cf key sq w),
      WalSync = Wal_Sync\<rparr>"

section \<open>State\<close>

record column_family =
  fa_id :: u32
  fa_name :: bytes
  fa_options :: cf_options
  fa_comparator :: cmp_ref
  fa_path :: string
  fa_active :: bool
  fa_refs :: int
  fa_tx :: "(wal_side, lsm_side) tx_manager"

abbreviation fa_wal :: "column_family \<Rightarrow> wal_side" where "fa_wal fa \<equiv> the (tm_wal (fa_tx fa))"
abbreviation fa_lsm :: "column_family \<Rightarrow> lsm_side" where "fa_lsm fa \<equiv> the (tm_lsm (fa_tx fa))"
abbreviation fa_compare :: "platform \<Rightarrow> column_family \<Rightarrow> bytes \<Rightarrow> bytes \<Rightarrow> int" where
  "fa_compare P fa \<equiv> compare_of P (fa_comparator fa)"

definition TxManager_new :: "'w \<Rightarrow> 'l \<Rightarrow> u32 \<Rightarrow> ('w, 'l) tx_manager" where
  "TxManager_new w l i = \<lparr>txn_gen = 1, snap_gen = 1, tm_locks = LockManager_new, tm_chains = [],
     tm_wal = Some w, tm_lsm = Some l, active_txns = [], cf_id = i\<rparr>"

section \<open>Construction\<close>

definition LastSequenceFilePath :: "string \<Rightarrow> string" where
  "LastSequenceFilePath cf_data_path = cf_data_path @ ''/LAST_SEQUENCE''"

definition family_path :: "string \<Rightarrow> u32 \<Rightarrow> bytes \<Rightarrow> string" where
  "family_path db_path i n = db_path @ ''/cf_'' @ to_string (unat i) @ ''_'' @ string_of_bytes n"

definition family_lsm_options :: "cf_options \<Rightarrow> string \<Rightarrow> lsm_options" where
  "family_lsm_options opts path = LSMTreeOptions\<lparr>lo_memtable_size := unat (co_write_buffer_size opts),
     lo_max_memtables := unat (scast (co_max_write_buffer_number opts) :: u64), lo_db_path := path\<rparr>"

definition new_tree :: "lsm_options \<Rightarrow> lsm_tree" where
  "new_tree opts = LSMTree (MemTableManager_new default_memtable_options 0 0) (SSTableManager 1000 []) opts"

text \<open>The text of \<open>LAST_SEQUENCE\<close>, read as a number; 0 if there is none.\<close>

definition persisted_sequence :: "string \<Rightarrow> fs \<Rightarrow> u64" where
  "persisted_sequence path fs =
     (let f = LastSequenceFilePath path in
      if fs_can_open fs f \<and> Env_FileExists fs f
      then (case stoull (string_of_bytes (fs_data fs f)) of Some n \<Rightarrow> n | None \<Rightarrow> 0) else 0)"

text \<open>An exception is its text. \<open>names\<close> are the files of the table directory, as in LsmTrees.thy.\<close>

definition family_failed :: "string \<Rightarrow> string" where
  "family_failed what = ''Failed to initialize DefaultColumnFamily: '' @ what"

definition DefaultColumnFamily_new ::
    "platform \<Rightarrow> u32 \<Rightarrow> bytes \<Rightarrow> cf_options \<Rightarrow> string \<Rightarrow> string list option \<Rightarrow> fs \<Rightarrow> fs \<Rightarrow> (string + column_family) option" where
  "DefaultColumnFamily_new P i n opts db_path names log_fs fs =
     (if n = [] then Some (Inl ''Column family name cannot be empty'')
      else case co_comparator opts of
        None \<Rightarrow> Some (Inl ''Column family comparator cannot be null'')
      | Some c \<Rightarrow>
          let cmp = compare_of P c; path = family_path db_path i n;
              (s, t) = LSMTree_Open cmp (pf_mkdir P) names (pf_sizeof_table P) (pf_sizeof_entry P)
                         (new_tree (family_lsm_options opts path)) fs in
          if \<not> ok s then Some (Inl (family_failed (''Failed to open LSMTree: '' @ ToString s)))
          else case Wal_Initialize (lsm_recovery_of P cmp)
                      (SetLSMTree (Some \<lparr>ls_tree = t, ls_fs = fs, ls_crashed = False\<rparr>) (WALManager_new path log_fs)) of
            None \<Rightarrow> None
          | Some (s, w) \<Rightarrow>
              let l = the (wm_lsm w) in
              if ls_crashed l then None
              else if \<not> ok s then Some (Inl (family_failed (''Failed to initialize WAL: '' @ ToString s)))
              else let tm = TxManager_new (w\<lparr>wm_lsm := None\<rparr>) l i;
                       fa = \<lparr>fa_id = i, fa_name = n, fa_options = opts, fa_comparator = c, fa_path = path,
                             fa_active = True, fa_refs = 1, fa_tx = tm\<rparr>;
                       recovered_sequence = max (GetLastSequence w) (persisted_sequence path (ls_fs l)) in
              if recovered_sequence > 0
              then (case FinishRecovery cmp (pf_now P) recovered_sequence (ls_tree l) (ls_fs l) of
                      None \<Rightarrow> None
                    | Some (finish_status, t, fs) \<Rightarrow>
                        Some (Inr (fa\<lparr>fa_tx := RecoverSetSnapshot recovered_sequence
                                       (tm\<lparr>tm_lsm := Some (l\<lparr>ls_tree := t, ls_fs := fs\<rparr>)\<rparr>)\<rparr>)))
              else Some (Inr fa))"

definition Family_Initialize :: "column_family \<Rightarrow> status \<times> column_family" where
  "Family_Initialize fa = (OK, fa\<lparr>fa_active := True\<rparr>)"

definition Family_IsDefault :: "column_family \<Rightarrow> bool" where
  "Family_IsDefault fa \<longleftrightarrow> fa_name fa = bytes_of_string ''default''"

text \<open>The files of the log always exist when they are listed; the data directory always exists.\<close>

definition Family_ValidateConsistency :: "platform \<Rightarrow> column_family \<Rightarrow> status option" where
  "Family_ValidateConsistency P fa =
     (if \<not> fa_active fa then Some (InvalidArgument ''Column family is not active'')
      else case ValidateInternalState (fa_compare P fa) (ls_tree (fa_lsm fa)) of
        None \<Rightarrow> None
      | Some s \<Rightarrow> Some (if \<not> ok s then Corruption (''LSMTree validation failed: '' @ ToString s) else OK))"

section \<open>Reads and writes\<close>

text \<open>\<open>Put\<close> and \<open>Delete\<close> are transactions that commit at once. A call that blocks in the lock manager
  ends in \<open>Waiting\<close>.\<close>

definition finish_delete ::
    "acquire_result \<times> txn \<times> (wal_side, lsm_side) tx_manager \<Rightarrow> acquire_result \<times> (wal_side, lsm_side) tx_manager" where
  "finish_delete r =
     (case r of
        (Done s, tx, tm) \<Rightarrow>
          if \<not> ok s then (Done s, Txn_destroy tm tx)
          else let (s', tx', tm') = Txn_Commit wal_ops_of tm tx False in (Done s', Txn_destroy tm' tx')
      | (b, tx, tm) \<Rightarrow> (b, tm))"

definition Family_Put :: "bytes \<Rightarrow> bytes \<Rightarrow> column_family \<Rightarrow> acquire_result \<times> column_family" where
  "Family_Put key v fa =
     (if \<not> fa_active fa then (Done (InvalidArgument ''Column family is not active''), fa)
      else let (tx, tm) = TxManager_Begin (fa_tx fa) default_txn_options;
               (r, tm) = TxManager_finish wal_ops_of (Txn_Put tm tx key v) in (r, fa\<lparr>fa_tx := tm\<rparr>))"

definition Family_Delete :: "bytes \<Rightarrow> column_family \<Rightarrow> acquire_result \<times> column_family" where
  "Family_Delete key fa =
     (if \<not> fa_active fa then (Done (InvalidArgument ''Column family is not active''), fa)
      else let (tx, tm) = TxManager_Begin (fa_tx fa) default_txn_options;
               (r, tm) = finish_delete (Txn_Delete tm tx key) in (r, fa\<lparr>fa_tx := tm\<rparr>))"

text \<open>The version chains, then the tree; \<open>TxManager_Get\<close> has asked the tree already. A crash there is
  found first.\<close>

definition tree_get :: "platform \<Rightarrow> column_family \<Rightarrow> bytes \<Rightarrow> u64 \<Rightarrow> (status \<times> bytes) option" where
  "tree_get P fa key snapshot =
     map_option (\<lambda>(s, v, t). (s, v))
       (LSMTree_Get (fa_compare P fa) (ls_fs (fa_lsm fa)) (pf_now P) key [] snapshot (ls_tree (fa_lsm fa)))"

definition Family_Get :: "platform \<Rightarrow> bytes \<Rightarrow> column_family \<Rightarrow> (status \<times> bytes option) option" where
  "Family_Get P key fa =
     (if \<not> fa_active fa then Some (InvalidArgument ''Column family is not active'', None)
      else let (mvcc_status, v) = TxManager_Get (lsm_ops_of P (fa_compare P fa)) (fa_tx fa) key in
      if mvcc_status = crash_status then None
      else if ok mvcc_status then Some (OK, v)
      else if IsDeleted mvcc_status then Some (NotFound ''Key was deleted'', None)
      else if IsNotFound mvcc_status
      then map_option (\<lambda>(s, v). (s, if ok s then Some v else None)) (tree_get P fa key 0)
      else Some (mvcc_status, None))"

definition Family_Get_at :: "platform \<Rightarrow> bytes \<Rightarrow> u64 \<Rightarrow> column_family \<Rightarrow> (status \<times> bytes option) option" where
  "Family_Get_at P key snapshot fa =
     (if \<not> fa_active fa then Some (InvalidArgument ''Column family is not active'', None)
      else let (chain_status, found) = GetVisibleBySnapshot (tm_chains (fa_tx fa)) key snapshot in
      if \<not> ok chain_status then Some (chain_status, None)
      else case found of
        Some v \<Rightarrow> Some (OK, Some v)
      | None \<Rightarrow> map_option (\<lambda>(s, v). (s, if ok s then Some v else None)) (tree_get P fa key snapshot))"

text \<open>A key that is not found, or whose read fails, has the empty string as its value.\<close>

fun multi_get :: "platform \<Rightarrow> column_family \<Rightarrow> bytes list \<Rightarrow> bytes list option" where
  "multi_get P fa [] = Some []"
| "multi_get P fa (key # keys) =
     (let (mvcc_status, v) = TxManager_Get (lsm_ops_of P (fa_compare P fa)) (fa_tx fa) key in
      if mvcc_status = crash_status then None
      else case (if ok mvcc_status then Some (the v)
                 else if IsDeleted mvcc_status then Some []
                 else if IsNotFound mvcc_status
                 then map_option (\<lambda>(s, v). if ok s then v else []) (tree_get P fa key 0)
                 else Some []) of
        None \<Rightarrow> None
      | Some v \<Rightarrow> map_option ((#) v) (multi_get P fa keys))"

definition Family_MultiGet :: "platform \<Rightarrow> bytes list \<Rightarrow> column_family \<Rightarrow> (status \<times> bytes list) option" where
  "Family_MultiGet P keys fa =
     (if \<not> fa_active fa then Some (InvalidArgument ''Column family is not active'', [])
      else map_option (\<lambda>vs. (OK, vs)) (multi_get P fa keys))"

text \<open>\<open>None\<close> is the null pointer.\<close>

definition Family_BeginTransaction :: "txn_options \<Rightarrow> column_family \<Rightarrow> txn option \<times> column_family" where
  "Family_BeginTransaction opts fa =
     (if \<not> fa_active fa then (None, fa)
      else let (tx, tm) = TxManager_Begin (fa_tx fa) opts in (Some tx, fa\<lparr>fa_tx := tm\<rparr>))"

section \<open>Administration\<close>

definition set_tree :: "lsm_tree \<Rightarrow> fs \<Rightarrow> column_family \<Rightarrow> column_family" where
  "set_tree t fs fa = fa\<lparr>fa_tx := (fa_tx fa)\<lparr>tm_lsm := Some ((fa_lsm fa)\<lparr>ls_tree := t, ls_fs := fs\<rparr>)\<rparr>\<rparr>"

definition Family_Flush :: "platform \<Rightarrow> column_family \<Rightarrow> (status \<times> column_family) option" where
  "Family_Flush P fa =
     (if \<not> fa_active fa then Some (InvalidArgument ''Column family is not active'', fa)
      else map_option (\<lambda>(s, t, fs). (s, set_tree t fs fa))
             (FlushAll (fa_compare P fa) (pf_now P) (ls_tree (fa_lsm fa)) (ls_fs (fa_lsm fa))))"

definition Family_CompactRange ::
    "platform \<Rightarrow> nat \<Rightarrow> bytes option \<Rightarrow> bytes option \<Rightarrow> column_family \<Rightarrow> (status \<times> column_family) option" where
  "Family_CompactRange P fuel begin_key end_key fa =
     (if \<not> fa_active fa then Some (InvalidArgument ''Column family is not active'', fa)
      else map_option (\<lambda>(s, fs). (s, set_tree (ls_tree (fa_lsm fa)) fs fa))
             (LSMTree_CompactRange (fa_compare P fa) fuel (pf_now P) begin_key end_key (ls_tree (fa_lsm fa)) (ls_fs (fa_lsm fa))))"

definition Family_UpdateOptions :: "cf_options \<Rightarrow> column_family \<Rightarrow> status \<times> column_family" where
  "Family_UpdateOptions new_options fa =
     (if co_comparator new_options \<noteq> co_comparator (fa_options fa)
      then (InvalidArgument ''Cannot change comparator of existing column family'', fa)
      else (OK, fa\<lparr>fa_options := new_options\<rparr>))"

definition Family_Ref :: "column_family \<Rightarrow> column_family" where "Family_Ref fa = fa\<lparr>fa_refs := fa_refs fa + 1\<rparr>"

definition Family_Unref :: "column_family \<Rightarrow> column_family" where
  "Family_Unref fa = (let old = fa_refs fa; fa = fa\<lparr>fa_refs := old - 1\<rparr> in if old = 1 then fa\<lparr>fa_active := False\<rparr> else fa)"

text \<open>The number is written to \<open>LAST_SEQUENCE\<close> without a sync; the stream's failures are not looked at.\<close>

definition write_last_sequence :: "string \<Rightarrow> u64 \<Rightarrow> fs \<Rightarrow> fs" where
  "write_last_sequence path snap fs =
     (let f = LastSequenceFilePath path; text = bytes_of_string (to_string (unat snap)) in
      if \<not> fs_can_open fs f then fs
      else if fs_can_write fs f then fs_write fs f text else fs_write fs f (take (fs_partial fs) text))"

definition Family_Shutdown :: "platform \<Rightarrow> column_family \<Rightarrow> (status \<times> column_family) option" where
  "Family_Shutdown P fa =
     (if \<not> fa_active fa then Some (OK, fa)
      else case LSMTree_Close (fa_compare P fa) (pf_now P) (ls_tree (fa_lsm fa)) (ls_fs (fa_lsm fa)) of
        None \<Rightarrow> None
      | Some (lsm_status, t, fs) \<Rightarrow>
          let fs = write_last_sequence (fa_path fa) (Gen_Current (snap_gen (fa_tx fa))) fs;
              fa = set_tree t fs (fa\<lparr>fa_active := False\<rparr>);
              (wal_status, w) = Wal_Shutdown (fa_wal fa)
          in Some (OK, fa\<lparr>fa_tx := (fa_tx fa)\<lparr>tm_wal := Some w\<rparr>\<rparr>))"

end
