(* ===== verification/FamilyRecovery.thy ===== *)
theory FamilyRecovery
  imports ColumnFamilies
begin

text \<open>
  What a column family answers over its life (src/db/column_family.cc): the log's records replayed
  into the tree and flushed, the writes a client makes and what they leave in the log, reads in the
  same session, and reads after a power failure and reopening.
\<close>

section \<open>Replaying a log into the tree\<close>

definition record_op :: "wal_record \<Rightarrow> mem_op" where
  "record_op r = (if wr_type r = WAL_kPut then WPut (wr_key r) (wr_value r) (wr_seq r) else WDelete (wr_key r) (wr_seq r))"

definition data_record :: "wal_record \<Rightarrow> bool" where
  "data_record r \<longleftrightarrow> wr_txn r = 0 \<and> (wr_type r = WAL_kPut \<or> wr_type r = WAL_kDelete) \<and> wr_seq r < 2 ^ 56"

text \<open>Recovery changes only its own table, counters and modes. \<open>replayed b l l' mt\<close>: the recovery
  table of \<open>l'\<close> is \<open>mt\<close>, and its largest number is below \<open>b\<close> if that of \<open>l\<close> is.\<close>

definition same_side :: "lsm_side \<Rightarrow> lsm_side \<Rightarrow> bool" where
  "same_side l l' \<longleftrightarrow> ls_fs l' = ls_fs l \<and> ls_crashed l' = ls_crashed l \<and> lt_opened (ls_tree l') = lt_opened (ls_tree l) \<and>
     lt_memtables (ls_tree l') = lt_memtables (ls_tree l) \<and> lt_sstables (ls_tree l') = lt_sstables (ls_tree l) \<and>
     lt_options (ls_tree l') = lt_options (ls_tree l) \<and> lt_next_sequence (ls_tree l') = lt_next_sequence (ls_tree l)"

lemma same_side_refl [simp]: "same_side l l" by (simp add: same_side_def)

lemma same_side_trans [trans]: "same_side l l' \<Longrightarrow> same_side l' l'' \<Longrightarrow> same_side l l''" by (simp add: same_side_def)

lemma apply_data_record:
  assumes r: "data_record r" and l: "wm_lsm (rc_wm rc) = Some l" "lt_opened (ls_tree l)"
    and mt: "mt = (case lt_current_memtable (ls_tree l) of Some mt \<Rightarrow> mt | None \<Rightarrow> recovery_table P)" "\<not> immutable mt"
    and q: "lt_recovery_sequence (ls_tree l) < 2 ^ 56"
  shows "\<exists>rc' l' k. ApplyRecoveredRecord (lsm_recovery_of P cmp) r rc = (OK, 0, rc') \<and>
    rc_wm rc' = (rc_wm rc)\<lparr>wm_lsm := Some l', wm_total_records := k\<rparr> \<and> same_side l l' \<and>
    lt_current_memtable (ls_tree l') = Some (mem_apply cmp (record_op r) mt) \<and> lt_recovery_sequence (ls_tree l') < 2 ^ 56"
proof -
  have m: "MemTable_Put cmp mt k v s = (OK, mem_apply cmp (WPut k v s) mt)" "MemTable_Delete cmp mt k s = (OK, mem_apply cmp (WDelete k s) mt)"
    for k v s using mt(2) by (simp_all add: MemTable_Put_def MemTable_Delete_def Let_def split_def)
  have t: "wr_txn r = 0" "wr_seq r < 2 ^ 56" using r by (simp_all add: data_record_def)
  show ?thesis
  proof (cases "wr_type r = WAL_kPut")
    case True
    then show ?thesis
      using t q l by (simp add: ApplyRecoveredRecord_def ApplyWALRecord_def apply_to_lsm_def lsm_recovery_of_def RecoverFromWALRecord_def
          mt(1) [symmetric] m record_op_def same_side_def Let_def del: mem_apply.simps) (intro exI conjI, rule refl, simp_all)
  next
    case False
    then have d: "wr_type r = WAL_kDelete" using r by (simp add: data_record_def)
    show ?thesis
      using t q l by (simp add: ApplyRecoveredRecord_def ApplyWALRecord_def apply_to_lsm_def lsm_recovery_of_def RecoverFromWALRecord_def
          mt(1) [symmetric] m record_op_def d same_side_def Let_def del: mem_apply.simps) (intro exI conjI, rule refl, simp_all)
  qed
qed

definition recovery_of :: "platform \<Rightarrow> lsm_side \<Rightarrow> memtable" where
  "recovery_of P l = (case lt_current_memtable (ls_tree l) of Some mt \<Rightarrow> mt | None \<Rightarrow> recovery_table P)"

text \<open>Where a recovery from \<open>l\<close> with the records \<open>rs\<close> arrives.\<close>

definition replayed :: "platform \<Rightarrow> (bytes \<Rightarrow> bytes \<Rightarrow> int) \<Rightarrow> wal_record list \<Rightarrow> lsm_side \<Rightarrow> lsm_side \<Rightarrow> bool" where
  "replayed P cmp rs l l' \<longleftrightarrow> same_side l l' \<and> recovery_of P l' = mem_run cmp (map record_op rs) (recovery_of P l) \<and>
     (lt_current_memtable (ls_tree l') = None \<longleftrightarrow> rs = [] \<and> lt_current_memtable (ls_tree l) = None) \<and>
     lt_recovery_sequence (ls_tree l') < 2 ^ 56"

lemma replay_data:
  assumes "\<forall>r \<in> set rs. data_record r" "wm_lsm (rc_wm rc) = Some l" "lt_opened (ls_tree l)"
    and "\<not> immutable (recovery_of P l)" "lt_recovery_sequence (ls_tree l) < 2 ^ 56"
  shows "\<exists>rc' l' k. replay (lsm_recovery_of P cmp) rs (m, n) rc = (OK, (fold max (map wr_seq rs) m, n + length rs), rc') \<and>
    rc_wm rc' = (rc_wm rc)\<lparr>wm_lsm := Some l', wm_total_records := k\<rparr> \<and> replayed P cmp rs l l'"
  using assms
proof (induction rs arbitrary: m n rc l)
  case Nil
  then show ?case
    by (intro exI [of _ rc] exI [of _ l] exI [of _ "wm_total_records (rc_wm rc)"]) (simp add: replayed_def mem_run_def)
next
  case (Cons r rs)
  obtain rc1 l1 k1 where 1: "ApplyRecoveredRecord (lsm_recovery_of P cmp) r rc = (OK, 0, rc1)"
    "rc_wm rc1 = (rc_wm rc)\<lparr>wm_lsm := Some l1, wm_total_records := k1\<rparr>" "same_side l l1"
    "lt_current_memtable (ls_tree l1) = Some (mem_apply cmp (record_op r) (recovery_of P l))" "lt_recovery_sequence (ls_tree l1) < 2 ^ 56"
    using apply_data_record [OF _ Cons.prems(2,3) recovery_of_def Cons.prems(4,5)] Cons.prems(1) by force
  have r1: "recovery_of P l1 = mem_apply cmp (record_op r) (recovery_of P l)" by (simp add: recovery_of_def [of P l1] 1(4))
  have "wm_lsm (rc_wm rc1) = Some l1" "lt_opened (ls_tree l1)" "\<not> immutable (recovery_of P l1)"
    using 1(2,3) Cons.prems(3,4) by (simp_all add: same_side_def r1)
  from Cons.IH [OF _ this 1(5), of "max m (wr_seq r)" "n + 1"] Cons.prems(1) obtain rc' l' k where
    2: "replay (lsm_recovery_of P cmp) rs (max m (wr_seq r), n + 1) rc1 =
      (OK, (fold max (map wr_seq rs) (max m (wr_seq r)), n + 1 + length rs), rc')"
    "rc_wm rc' = (rc_wm rc1)\<lparr>wm_lsm := Some l', wm_total_records := k\<rparr>" "replayed P cmp rs l1 l'" by auto
  have "replayed P cmp (r # rs) l l'"
    using 2(3) same_side_trans [OF 1(3)] by (auto simp: replayed_def r1 1(4) mem_run_def)
  moreover have "replay (lsm_recovery_of P cmp) (r # rs) (m, n) rc = (OK, (fold max (map wr_seq (r # rs)) m, n + length (r # rs)), rc')"
    using 1(1) 2(1) by (simp add: max.commute)
  ultimately show ?case using 2(2) 1(2) by (intro exI [of _ rc'] exI [of _ l'] exI [of _ k]) simp
qed

lemma stored_simps [simp]:
  "data_record (stored r) = data_record r" "record_op (stored r) = record_op r" "wr_seq (stored r) = wr_seq r"
  by (simp_all add: stored_def data_record_def record_op_def)

lemma recovery_mode_side:
  "same_side l (LsmSetRecoveryMode (lsm_recovery_of P cmp) b l)"
  "recovery_of P (LsmSetRecoveryMode (lsm_recovery_of P cmp) b l) = recovery_of P l"
  "lt_current_memtable (ls_tree (LsmSetRecoveryMode (lsm_recovery_of P cmp) b l)) = lt_current_memtable (ls_tree l)"
  "lt_recovery_sequence (ls_tree (LsmSetRecoveryMode (lsm_recovery_of P cmp) b l)) = lt_recovery_sequence (ls_tree l)"
  by (simp_all add: lsm_recovery_of_def SetRecoveryMode_def same_side_def recovery_of_def)

lemma replayed_mode:
  assumes "replayed P cmp rs (LsmSetRecoveryMode (lsm_recovery_of P cmp) b l) l'"
  shows "replayed P cmp rs l (LsmSetRecoveryMode (lsm_recovery_of P cmp) b' l')"
proof -
  have "same_side (LsmSetRecoveryMode (lsm_recovery_of P cmp) b l) l'" using assms by (simp add: replayed_def)
  from same_side_trans [OF same_side_trans [OF recovery_mode_side(1) this] recovery_mode_side(1)]
  have "same_side l (LsmSetRecoveryMode (lsm_recovery_of P cmp) b' l')" .
  then show ?thesis using assms by (simp add: replayed_def recovery_mode_side(2-4))
qed

lemma recover_wal_file:
  assumes rs: "\<forall>r \<in> set rs. wr_readable r \<and> data_record r" "length tail < 4"
    and f: "fs_can_open (wm_fs (rc_wm rc)) f" "map_of (fs_files (wm_fs (rc_wm rc))) f = Some (concat (map frame rs) @ tail)"
    and l: "wm_lsm (rc_wm rc) = Some l" "lt_opened (ls_tree l)" "\<not> immutable (recovery_of P l)" "lt_recovery_sequence (ls_tree l) < 2 ^ 56"
  shows "\<exists>rc' l' k. RecoverFromWALFile (lsm_recovery_of P cmp) f rc = Some (OK, (fold max (map wr_seq rs) 0, length rs, 0), rc') \<and>
    rc_wm rc' = (rc_wm rc)\<lparr>wm_lsm := Some l', wm_total_records := k\<rparr> \<and> replayed P cmp rs l l'"
proof -
  let ?L = "lsm_recovery_of P cmp"
  let ?l = "LsmSetRecoveryMode ?L True l" and ?rc = "set_recovery_mode ?L True rc"
  have a: "\<forall>r \<in> set (map stored rs). data_record r" using rs(1) by simp
  have b: "wm_lsm (rc_wm ?rc) = Some ?l" using l(1) by (simp add: set_recovery_mode_def)
  have c: "lt_opened (ls_tree ?l)" "\<not> immutable (recovery_of P ?l)" "lt_recovery_sequence (ls_tree ?l) < 2 ^ 56"
    using l(2-4) recovery_mode_side by (simp_all add: same_side_def)
  obtain rc' l' k where 1: "replay ?L (map stored rs) (0, 0) ?rc = (OK, (fold max (map wr_seq (map stored rs)) 0, 0 + length (map stored rs)), rc')"
    "rc_wm rc' = (rc_wm ?rc)\<lparr>wm_lsm := Some l', wm_total_records := k\<rparr>" "replayed P cmp (map stored rs) ?l l'"
    using replay_data [OF a b c] by blast
  have rd: "\<forall>r \<in> set rs. wr_readable r" using rs(1) by simp
  have m: "map wr_seq (map stored rs) = map wr_seq rs" "map record_op (map stored rs) = map record_op rs" by simp_all
  have 3: "replayed P cmp rs ?l l'" using 1(3) by (simp add: replayed_def comp_def)
  have "RecoverFromWALFile ?L f rc = Some (OK, (fold max (map wr_seq rs) 0, length rs, 0), set_recovery_mode ?L False rc')"
    unfolding RecoverFromWALFile_frames [OF rd rs(2) f] 1(1) m by simp
  moreover have "rc_wm (set_recovery_mode ?L False rc') = (rc_wm rc)\<lparr>wm_lsm := Some (LsmSetRecoveryMode ?L False l'), wm_total_records := k\<rparr>"
    by (simp add: set_recovery_mode_def 1(2))
  ultimately show ?thesis using replayed_mode [OF 3] by blast
qed


section \<open>Finishing recovery\<close>

lemma mt_ok_Validate: "memtable_ok mt \<Longrightarrow> table mt = [] \<Longrightarrow> MemTable_ValidateStructure Bytewise_Compare mt = Some True"
  by (simp add: memtable_ok_def ValidateStructure_iff)

text \<open>A tree without anything in the memory tables of its manager.\<close>

definition quiet :: "fs \<Rightarrow> lsm_tree \<Rightarrow> (u64 \<Rightarrow> (bytes \<times> bytes) list) \<Rightarrow> bool" where
  "quiet fs t c \<longleftrightarrow> lsm_ok fs t c \<and> immutable_memtables (lt_memtables t) = [] \<and> table (active_memtable t) = [] \<and>
     lt_recovery_sequence t < 2 ^ 56"

lemma lsm_ok_cong:
  assumes "lt_opened t' = lt_opened t" "lt_memtables t' = lt_memtables t" "lt_sstables t' = lt_sstables t"
  shows "lsm_ok fs t' c = lsm_ok fs t c" "tree_entries t' c = tree_entries t c" "active_memtable t' = active_memtable t"
  using assms by (simp_all add: lsm_ok_def tree_entries_def active_memtable_def)

lemma quiet_entries: "quiet fs t c \<Longrightarrow> tree_entries t c = [] # tables_of t c"
  using entries_Nil by (simp add: quiet_def tree_entries_def)

lemma finish_valid:
  assumes q: "quiet fs t c" and s: "lt_recovery_sequence t \<le> lt_next_sequence t"
  shows "ValidateRecoveredData Bytewise_Compare t = Some OK" "TriggerFlush Bytewise_Compare now t fs = Some (OK, t, fs)"
proof -
  have o: "lt_opened t" "mutable_memtable (lt_memtables t) = Some (active_memtable t)" "memtable_ok (active_memtable t)"
    "immutable_memtables (lt_memtables t) = []" "table (active_memtable t) = []"
    using q by (auto simp: quiet_def lsm_ok_def active_memtable_def)
  then show "ValidateRecoveredData Bytewise_Compare t = Some OK" using s
    by (simp add: ValidateRecoveredData_def ValidateInternalState_def mt_ok_Validate)
  show "TriggerFlush Bytewise_Compare now t fs = Some (OK, t, fs)" using o by (simp add: TriggerFlush_def NeedsFlush_def)
qed

lemma next_room:
  fixes a b c :: u64 assumes "a < 2 ^ 63" "b < 2 ^ 56" "c < 2 ^ 56"
  shows "b \<le> max (max a b) c + 1" "max (max a b) c + 1 \<le> max a (2 ^ 56) + 1"
proof -
  have a: "unat a < 2 ^ 63" "unat b < 2 ^ 56" "unat c < 2 ^ 56" using assms by (simp_all add: word_less_nat_alt)
  have m: "unat (max x y) = max (unat x) (unat y)" for x y :: u64 by (simp add: max_def word_le_nat_alt)
  have k: "max (max x y) z \<le> max x k" if "y < k" "z < k" for x y z k :: nat using that by auto
  have u: "unat (max (max a b) c + 1) = unat (max (max a b) c) + 1" "unat (max a (2 ^ 56) + 1) = unat (max a (2 ^ 56)) + 1"
    using a by (simp_all add: unat_word_ariths m)
  show "b \<le> max (max a b) c + 1" unfolding word_le_nat_alt u m by simp
  show "max (max a b) c + 1 \<le> max a (2 ^ 56) + 1" using k [OF a(2,3), of "unat a"] unfolding word_le_nat_alt u m by simp
qed

lemma tables_added:
  assumes q: "quiet fs t c" and st: "tables_state fs' sg c'" and e: "map (meta_entries c') (search_order sg) = es # tables_of t c"
    and new: "\<forall>x \<in> set (tables_of t c). newer_than es x"
    and t': "lt_opened t' = lt_opened t" "lt_memtables t' = lt_memtables t" "lt_sstables t' = sg" "lt_recovery_sequence t' < 2 ^ 56"
  shows "quiet fs' t' c' \<and> tables_of t' c' = es # tables_of t c"
proof -
  have a: "active_memtable t' = active_memtable t" by (simp add: active_memtable_def t')
  have ok: "lsm_ok fs t c" and im: "immutable_memtables (lt_memtables t) = []" "table (active_memtable t) = []"
    using q by (simp_all add: quiet_def)
  have n: "sst_entries (active_memtable t) = []" using im(2) entries_Nil by simp
  have "sorted_wrt newer_than (tables_of t c)" using ok by (simp add: lsm_ok_def tree_entries_def sorted_wrt_append)
  then have "sorted_wrt newer_than ([] # es # tables_of t c)" using new by (auto simp: newer_than_def)
  then have "lsm_ok fs' t' c'" using ok st by (simp add: lsm_ok_def tree_entries_def a t' im n e)
  then show ?thesis using im t'(4) by (simp add: quiet_def a t' e)
qed

lemma flush_recovered_ok:
  assumes q: "quiet fs t c" and mt: "lt_current_memtable t = Some mt" "memtable_ok mt" "table mt \<noteq> []" "flushes now mt"
    and new: "\<forall>x \<in> set (tables_of t c). newer_than (sst_entries mt) x"
    and os: "os_all fs" and n: "sg_next_file_number (lt_sstables t) \<noteq> -1"
  shows "\<exists>t' fs' c'. flush_recovered Bytewise_Compare now t fs = Some (OK, t', fs') \<and> quiet fs' t' c' \<and>
    tables_of t' c' = sst_entries mt # tables_of t c \<and> os_all fs' \<and> lt_current_memtable t' = None \<and>
    lt_next_sequence t' = lt_next_sequence t \<and> lt_recovery_sequence t' = lt_recovery_sequence t \<and> lt_opened t' \<and>
    touches (GenerateFileName (sg_next_file_number (lt_sstables t)) 0 (lt_sstables t)) fs fs'"
proof -
  have st: "tables_state fs (lt_sstables t) c" and o: "lt_opened t" using q by (simp_all add: quiet_def lsm_ok_def)
  have mok: "mt_ok Bytewise_Compare mt" using mt(2) by (simp add: memtable_ok_def)
  obtain sg' fs' c' where F: "Manager_FlushMemTable Bytewise_Compare (Some mt) 0 now (lt_sstables t) fs = Some (OK, sg', fs')"
    "map (meta_entries c') (search_order sg') = sst_entries mt # tables_of t c" "tables_state fs' sg' c'"
    "os_all fs'" "touches (GenerateFileName (sg_next_file_number (lt_sstables t)) 0 (lt_sstables t)) fs fs'"
    using Manager_flush_state [OF st n os mok mt(3,4)] by (elim exE conjE)
  let ?t = "t\<lparr>lt_sstables := sg', lt_current_memtable := None\<rparr>"
  have "flush_recovered Bytewise_Compare now t fs = Some (OK, ?t, fs')"
    using mt Empty_iff [OF mt(2)] o F(1) by (simp add: flush_recovered_def)
  moreover have "quiet fs' ?t c' \<and> tables_of ?t c' = sst_entries mt # tables_of t c"
    using q by (intro tables_added [OF q F(3,2) new]) (simp_all add: quiet_def)
  ultimately show ?thesis using F(4,5) o by (intro exI [of _ ?t] exI [of _ fs'] exI [of _ c']) simp
qed

lemma FinishRecovery_flushed:
  assumes q: "quiet fs t c" and mt: "lt_current_memtable t = Some mt" "memtable_ok mt" "table mt \<noteq> []" "flushes now mt"
    and new: "\<forall>x \<in> set (tables_of t c). newer_than (sst_entries mt) x"
    and os: "os_all fs" and n: "sg_next_file_number (lt_sstables t) \<noteq> -1"
    and b: "lt_next_sequence t < 2 ^ 63" "s < 2 ^ 56"
  shows "\<exists>t' fs' c'. FinishRecovery Bytewise_Compare now s t fs = Some (OK, t', fs') \<and> quiet fs' t' c' \<and>
    tables_of t' c' = sst_entries mt # tables_of t c \<and> os_all fs' \<and> lt_current_memtable t' = None \<and>
    lt_next_sequence t' \<le> max (lt_next_sequence t) (2 ^ 56) + 1 \<and>
    touches (GenerateFileName (sg_next_file_number (lt_sstables t)) 0 (lt_sstables t)) fs fs'"
proof -
  let ?n = "max (max (lt_next_sequence t) (lt_recovery_sequence t)) s + 1"
  let ?t = "t\<lparr>lt_next_sequence := ?n, lt_in_recovery_mode := False\<rparr>"
  have r: "lt_recovery_sequence t < 2 ^ 56" using q by (simp add: quiet_def)
  have q': "quiet fs ?t c" using q lsm_ok_cong(1,3) [where t' = ?t and t = t] by (simp add: quiet_def)
  have new': "\<forall>x \<in> set (tables_of ?t c). newer_than (sst_entries mt) x" using new by simp
  obtain t' fs' c' where F: "flush_recovered Bytewise_Compare now ?t fs = Some (OK, t', fs')" "quiet fs' t' c'"
    "tables_of t' c' = sst_entries mt # tables_of t c" "os_all fs'" "lt_current_memtable t' = None"
    "lt_next_sequence t' = ?n" "lt_recovery_sequence t' = lt_recovery_sequence t"
    "touches (GenerateFileName (sg_next_file_number (lt_sstables t)) 0 (lt_sstables t)) fs fs'"
    using flush_recovered_ok [OF q' _ mt(2-4) new' os] mt(1) n by auto
  have "lt_recovery_sequence t' \<le> lt_next_sequence t'" unfolding F(6,7) by (rule next_room(1) [OF b(1) r b(2)])
  from finish_valid [OF F(2) this] have "FinishRecovery Bytewise_Compare now s t fs = Some (OK, t', fs')"
    by (simp add: FinishRecovery_def Let_def F(1))
  then show ?thesis using F next_room(2) [OF b(1) r b(2)] by (intro exI [of _ t'] exI [of _ fs'] exI [of _ c']) simp
qed

lemma FinishRecovery_nothing:
  assumes q: "quiet fs t c" and mt: "lt_current_memtable t = None" and b: "lt_next_sequence t < 2 ^ 63" "s < 2 ^ 56"
  shows "\<exists>t'. FinishRecovery Bytewise_Compare now s t fs = Some (OK, t', fs) \<and> quiet fs t' c \<and> lt_sstables t' = lt_sstables t \<and>
    lt_memtables t' = lt_memtables t \<and> lt_current_memtable t' = None \<and> lt_next_sequence t' \<le> max (lt_next_sequence t) (2 ^ 56) + 1"
proof -
  let ?n = "max (max (lt_next_sequence t) (lt_recovery_sequence t)) s + 1"
  let ?t = "t\<lparr>lt_next_sequence := ?n, lt_in_recovery_mode := False\<rparr>"
  have r: "lt_recovery_sequence t < 2 ^ 56" using q by (simp add: quiet_def)
  have q': "quiet fs ?t c" using q lsm_ok_cong(1,3) [where t' = ?t and t = t] by (simp add: quiet_def)
  have "lt_recovery_sequence ?t \<le> lt_next_sequence ?t" using next_room(1) [OF b(1) r b(2)] by simp
  from finish_valid [OF q' this] have "FinishRecovery Bytewise_Compare now s t fs = Some (OK, ?t, fs)"
    by (simp add: FinishRecovery_def Let_def flush_recovered_def mt)
  then show ?thesis using q' mt next_room(2) [OF b(1) r b(2)] by (intro exI [of _ ?t]) simp
qed

section \<open>What the records of a log say\<close>

text \<open>The last record of a key decides.\<close>

definition version_answer :: "(u64 \<times> bytes \<times> bool) option \<Rightarrow> status \<times> bytes option" where
  "version_answer d =
     (case d of None \<Rightarrow> (NotFound ''Key not found'', None)
      | Some (_, v, deleted) \<Rightarrow> if deleted then (NotFound ''Key was deleted'', None) else (OK, Some v))"

definition log_answer :: "wal_record list \<Rightarrow> bytes \<Rightarrow> status \<times> bytes option" where
  "log_answer rs key =
     (case find (\<lambda>r. wr_key r = key) (rev rs) of
        None \<Rightarrow> (NotFound ''Key not found'', None)
      | Some r \<Rightarrow> if wr_type r = WAL_kPut then (OK, Some (wr_value r)) else (NotFound ''Key was deleted'', None))"

definition ordered_log :: "wal_record list \<Rightarrow> bool" where
  "ordered_log rs \<longleftrightarrow> sorted_wrt (<) (map wr_seq rs) \<and> (\<forall>r \<in> set rs. data_record r \<and> 0 < wr_seq r)"

lemma record_op_simps [simp]:
  "op_key (record_op r) = wr_key r" "op_seq (record_op r) = wr_seq r"
  by (simp_all add: record_op_def)

lemma take_bit_56: "(s :: u64) < 2 ^ 56 \<Longrightarrow> take_bit 56 s = s"
proof -
  assume "s < 2 ^ 56"
  then have "unat s < 2 ^ 56" by (simp add: word_less_nat_alt)
  moreover have "unat (take_bit 56 s) = take_bit 56 (unat s)" by (rule unsigned_take_bit_eq)
  ultimately have "unat (take_bit 56 s) = unat s" by (simp only: take_bit_nat_eq_self)
  then show ?thesis by (rule unsigned_word_eqI)
qed

lemma apply_memtable_ok:
  assumes ok: "memtable_ok mt" "\<not> immutable mt" and t: "take_bit 56 (op_seq oper) = op_seq oper"
    and new: "\<forall>e \<in> set (mem_entries mt). ent_user e = op_key oper \<longrightarrow> ent_seq e < op_seq oper"
  shows "memtable_ok (mem_apply Bytewise_Compare oper mt)"
    "set (mem_entries (mem_apply Bytewise_Compare oper mt)) = insert (op_entry oper) (set (mem_entries mt))"
proof -
  let ?mt = "mem_apply Bytewise_Compare oper mt"
  have mok: "mt_ok Bytewise_Compare mt" "one_version (mem_entries mt)" using ok(1) by (simp_all add: memtable_ok_def)
  show ent: "set (mem_entries ?mt) = insert (op_entry oper) (set (mem_entries mt))"
    by (rule apply_entries [OF mok(1) ok(2) t new])
  have parts: "ent_user (op_entry oper) = op_key oper" "ent_seq (op_entry oper) = op_seq oper"
    using t by (simp_all add: op_entry_def)
  have "one_version (mem_entries ?mt)" by (rule one_version_insert [OF mok(2) _ ent]) (use new parts in simp)
  moreover have "mem_entries ?mt \<noteq> []" using ent by auto
  ultimately show "memtable_ok ?mt"
    using bytewise_user.apply_ok [OF mok(1), of oper] apply_num_entries [OF ok(2), of Bytewise_Compare oper]
    by (simp add: memtable_ok_def entries_Nil)
qed

lemma run_memtable_ok:
  assumes "memtable_ok mt" "\<not> immutable mt" "sorted_wrt (<) (map op_seq ops)"
    and "\<forall>oper \<in> set ops. take_bit 56 (op_seq oper) = op_seq oper \<and> (\<forall>e \<in> set (mem_entries mt). ent_seq e < op_seq oper)"
  shows "memtable_ok (mem_run Bytewise_Compare ops mt) \<and>
    set (mem_entries (mem_run Bytewise_Compare ops mt)) = op_entry ` set ops \<union> set (mem_entries mt)"
  using assms
proof (induction ops arbitrary: mt)
  case (Cons oper ops)
  let ?mt = "mem_apply Bytewise_Compare oper mt"
  have 1: "memtable_ok ?mt" "set (mem_entries ?mt) = insert (op_entry oper) (set (mem_entries mt))"
    using Cons.prems apply_memtable_ok [of mt oper] by auto
  have "ent_seq (op_entry oper) = op_seq oper" using Cons.prems(4) by (simp add: op_entry_def)
  then have "\<forall>x \<in> set ops. take_bit 56 (op_seq x) = op_seq x \<and> (\<forall>e \<in> set (mem_entries ?mt). ent_seq e < op_seq x)"
    using Cons.prems(3,4) by (auto simp: 1(2))
  then show ?case using Cons.IH [OF 1(1)] Cons.prems(2,3) by (auto simp: mem_run_def 1(2))
qed (simp add: mem_run_def)

lemma find_last:
  assumes "find P (rev xs) = Some x" obtains ys zs where "xs = ys @ x # zs" "P x" "\<forall>z \<in> set zs. \<not> P z"
proof -
  obtain i where i: "i < length (rev xs)" "P (rev xs ! i)" "x = rev xs ! i" "\<And>j. j < i \<Longrightarrow> \<not> P (rev xs ! j)"
    using assms by (auto simp: find_Some_iff)
  have e: "rev xs = take i (rev xs) @ x # drop (Suc i) (rev xs)" using i by (simp add: id_take_nth_drop [symmetric])
  have "xs = rev (drop (Suc i) (rev xs)) @ x # rev (take i (rev xs))" using arg_cong [OF e, of rev] by simp
  moreover have "\<forall>z \<in> set (rev (take i (rev xs))). \<not> P z"
    using i by (auto simp: in_set_conv_nth)
  ultimately show thesis using that i by blast
qed

lemma log_newest:
  assumes rs: "ordered_log rs" and es: "set es = op_entry ` record_op ` set rs"
    and v: "\<forall>r \<in> set rs. visible_at snapshot (wr_seq r)"
  shows "version_answer (newest_visible es key snapshot) = log_answer rs key"
proof -
  have parts: "ent_user (op_entry (record_op r)) = wr_key r \<and> ent_seq (op_entry (record_op r)) = wr_seq r"
    "ent_type (op_entry (record_op r)) = kDeletion \<longleftrightarrow> wr_type r \<noteq> WAL_kPut"
    "wr_type r = WAL_kPut \<Longrightarrow> snd (op_entry (record_op r)) = wr_value r"
    if "r \<in> set rs" for r
    using that rs take_bit_56 [of "wr_seq r"]
    by (auto simp: ordered_log_def data_record_def op_entry_def record_op_def value_types)
  show ?thesis
  proof (cases "find (\<lambda>r. wr_key r = key) (rev rs)")
    case None
    then have "\<forall>r \<in> set rs. wr_key r \<noteq> key" by (simp add: find_None_iff)
    then have "filter (ent_wanted key snapshot) es = []" using es parts by (auto simp: filter_empty_conv ent_wanted_def)
    then show ?thesis by (simp add: newest_visible_def log_answer_def None version_answer_def)
  next
    case (Some r)
    obtain ys zs where r: "rs = ys @ r # zs" "wr_key r = key" "\<forall>z \<in> set zs. wr_key z \<noteq> key" by (rule find_last [OF Some])
    have rin: "r \<in> set rs" by (simp add: r(1))
    let ?e = "op_entry (record_op r)"
    have "newest_visible es key snapshot = Some (ent_seq ?e, snd ?e, ent_type ?e = kDeletion)"
    proof (rule newest_visible_only)
      show "?e \<in> set es" using rin es by blast
      show "ent_wanted key snapshot ?e" using parts(1) [OF rin] v rin r(2) by (simp add: ent_wanted_def)
      show "\<forall>e' \<in> set es. ent_wanted key snapshot e' \<and> e' \<noteq> ?e \<longrightarrow> ent_seq e' < ent_seq ?e"
      proof (intro ballI impI)
        fix e' assume e': "e' \<in> set es" "ent_wanted key snapshot e' \<and> e' \<noteq> ?e"
        then obtain x where x: "x \<in> set rs" "e' = op_entry (record_op x)" using es by blast
        have "wr_key x = key" "x \<noteq> r" using e'(2) parts(1) [OF x(1)] x(2) by (auto simp: ent_wanted_def)
        then have "x \<in> set ys" using x(1) r by auto
        then have "wr_seq x < wr_seq r" using rs by (auto simp: ordered_log_def r(1) sorted_wrt_append)
        then show "ent_seq e' < ent_seq ?e" using parts(1) [OF x(1)] parts(1) [OF rin] x(2) by simp
      qed
    qed
    then show ?thesis using parts [OF rin] by (auto simp: log_answer_def Some version_answer_def)
  qed
qed

section \<open>Opening the log\<close>

definition wal_file :: "string \<Rightarrow> string \<Rightarrow> string" where "wal_file path n = path @ ''/wal/'' @ n"

abbreviation first_log :: "string \<Rightarrow> string" where "first_log path \<equiv> wal_file path ''000001.wal''"
abbreviation second_log :: "string \<Rightarrow> string" where "second_log path \<equiv> wal_file path ''000002.wal''"

lemma wal_names:
  "GenerateWALFilename wm 1 = first_log (wm_db_path wm)" "GenerateWALFilename wm 2 = second_log (wm_db_path wm)"
  "is_wal_name ''000001.wal''" "is_wal_name ''000002.wal''" "stoull ''000001'' = Some 1"
proof -
  have "setw0 6 (to_string (unat (1 :: u64))) @ ''.wal'' = ''000001.wal''" "setw0 6 (to_string (unat (2 :: u64))) @ ''.wal'' = ''000002.wal''"
    by code_simp+
  then show "GenerateWALFilename wm 1 = first_log (wm_db_path wm)" "GenerateWALFilename wm 2 = second_log (wm_db_path wm)"
    unfolding GenerateWALFilename_def wal_file_def by simp_all
  show "is_wal_name ''000001.wal''" "is_wal_name ''000002.wal''" "stoull ''000001'' = Some 1"
    by (simp_all add: is_wal_name_def stoull_def is_digit_def is_space_def digits_value_def)
qed

text \<open>The regular files below a log's directory, by name.\<close>

definition log_dir :: "string \<Rightarrow> string list \<Rightarrow> fs \<Rightarrow> bool" where
  "log_dir path ns fs \<longleftrightarrow> map fst (fs_files fs) = map (wal_file path) ns"

lemma base_name_wal_file: "CHR ''/'' \<notin> set n \<Longrightarrow> base_name (wal_file path n) = n"
  using base_name_append [of n "path @ ''/wal''"] by (simp add: wal_file_def)

lemma log_dir_files:
  assumes "log_dir path ns fs" "\<forall>n \<in> set ns. CHR ''/'' \<notin> set n"
  shows "dir_files fs (path @ ''/wal'') = map (wal_file path) ns"
proof -
  have w: "take (length (path @ ''/wal'') + 1) (wal_file path n) = path @ ''/wal'' @ ''/''"
    "drop (length (path @ ''/wal'') + 1) (wal_file path n) = n" for n
    by (simp_all add: wal_file_def)
  have "filter (\<lambda>p. take (length (path @ ''/wal'') + 1) p = (path @ ''/wal'') @ ''/'' \<and> CHR ''/'' \<notin> set (drop (length (path @ ''/wal'') + 1) p))
      (map (wal_file path) ns) = map (wal_file path) ns"
    unfolding filter_map comp_def w using assms(2) by simp
  then show ?thesis unfolding dir_files_def assms(1) [unfolded log_dir_def] .
qed

lemma log_dir_archive:
  assumes "log_dir path ns fs" "\<forall>n \<in> set ns. CHR ''/'' \<notin> set n"
  shows "dir_files fs (path @ ''/wal/archive'') = []"
proof -
  have "p \<notin> set (dir_files fs (path @ ''/wal/archive''))" for p
  proof
    assume "p \<in> set (dir_files fs (path @ ''/wal/archive''))"
    then obtain m where m: "p = (path @ ''/wal/archive'') @ ''/'' @ m" "p \<in> set (map fst (fs_files fs))"
      unfolding dir_files_iff by blast
    have "p \<in> wal_file path ` set ns" using m(2) unfolding assms(1) [unfolded log_dir_def] by simp
    then obtain n where "n \<in> set ns" "p = wal_file path n" by blast
    then have "n = ''archive/'' @ m" "CHR ''/'' \<notin> set n" using m(1) assms(2) by (simp_all add: wal_file_def)
    then show False by simp
  qed
  then show ?thesis by (metis list.set_intros(1) neq_Nil_conv)
qed

lemma GetWALFiles_dir:
  assumes "log_dir (wm_db_path wm) ns (wm_fs wm)" "\<forall>n \<in> set ns. CHR ''/'' \<notin> set n \<and> is_wal_name n"
    and "length ns \<le> fs_scan (wm_fs wm)" "length ns \<le> 1000"
  shows "GetWALFiles wm = sort (map (wal_file (wm_db_path wm)) ns)"
proof -
  have s: "\<forall>n \<in> set ns. CHR ''/'' \<notin> set n" using assms(2) by blast
  have "filter (\<lambda>p. is_wal_name (base_name p)) (map (wal_file (wm_db_path wm)) ns) = map (wal_file (wm_db_path wm)) ns"
    using assms(2) base_name_wal_file by (simp add: filter_map comp_def)
  then have "dir_wal_files (wm_fs wm) (wm_db_path wm @ ''/wal'') = map (wal_file (wm_db_path wm)) ns"
    using assms(3) by (simp add: dir_wal_files_def log_dir_files [OF assms(1) s])
  moreover have "dir_wal_files (wm_fs wm) (wm_db_path wm @ ''/wal/archive'') = []"
    by (simp add: dir_wal_files_def log_dir_archive [OF assms(1) s])
  ultimately show ?thesis using assms(4) by (simp add: GetWALFiles_def Let_def)
qed

lemma CreateNewWALFile_OK:
  assumes "wm_writer wm = None" "os_all (wm_fs wm)" "GenerateWALFilename wm (wm_next_file wm) = f"
  shows "CreateNewWALFile wm = (OK, wm\<lparr>wm_next_file := wm_next_file wm + 1, wm_filename := f,
      wm_writer := Some ((WALWriter_new f)\<lparr>ww_file := Some False, ww_file_size := length (fs_data (wm_fs wm) f),
        ww_write_position := length (fs_data (wm_fs wm) f), ww_is_open := True\<rparr>),
      wm_fs := fs_write (wm_fs wm) f (fs_data (wm_fs wm) f)\<rparr>)"
proof -
  have "fs_can_open (wm_fs wm) f" using assms(2) by (simp add: os_all_def os_allows_def)
  moreover have "GenerateWALFilename (wm\<lparr>wm_next_file := k\<rparr>) n = GenerateWALFilename wm n" for k n by (simp add: GenerateWALFilename_def)
  ultimately show ?thesis
    using assms(1,3) by (simp add: CreateNewWALFile_def Writer_Open_def WALWriter_new_def Let_def)
qed

lemma second_log_differs [simp]: "first_log path \<noteq> second_log path" "second_log path \<noteq> first_log path"
  by (simp_all add: wal_file_def)

lemma sort_logs: "sort [first_log path, second_log path] = [first_log path, second_log path]"
proof -
  have "path @ ''/wal/000001.wal'' \<le> path @ ''/wal/000002.wal''"
    by (induction path) (simp_all add: less_eq_char_def less_char_def)
  then show ?thesis by (simp add: wal_file_def)
qed

lemma max_file_number_one:
  assumes "log_dir path [''000001.wal''] fs" shows "max_file_number fs (path @ ''/wal'') = 1"
  unfolding max_file_number_def
  by (subst log_dir_files [OF assms]) (simp_all add: base_name_wal_file wal_names)

text \<open>With one file of records in the directory, the manager opens the second and recovers the first.
  What it hands to the tree's \<open>FinishRecovery\<close> is the side \<open>l'\<close>.\<close>

lemma Wal_Initialize_recovers:
  fixes l :: lsm_side
  assumes d: "path \<noteq> []" "log_dir path [''000001.wal''] fs" "os_all fs" "2 \<le> fs_scan fs"
    and f: "map_of (fs_files fs) (first_log path) = Some (concat (map frame rs) @ tail)" "length tail < 4"
    and rs: "\<forall>r \<in> set rs. wr_readable r \<and> data_record r"
    and l: "lt_opened (ls_tree l)" "\<not> immutable (recovery_of P l)" "lt_recovery_sequence (ls_tree l) < 2 ^ 56"
  shows "\<exists>l'. replayed P cmp rs l l' \<and>
    (\<forall>l''. LsmFinishRecovery (lsm_recovery_of P cmp) (fold max (map wr_seq rs) 0) l' = (OK, l'') \<longrightarrow>
      (\<exists>w. Wal_Initialize (lsm_recovery_of P cmp) (SetLSMTree (Some l) (WALManager_new path fs)) = Some (OK, w) \<and>
        wm_lsm w = Some l'' \<and> wm_last_sequence w = fold max (map wr_seq rs) 0 \<and> log_holds w [] \<and>
        wm_filename w = second_log path))"
proof -
  let ?L = "lsm_recovery_of P cmp" and ?f1 = "first_log path" and ?f2 = "second_log path" and ?m = "fold max (map wr_seq rs) 0"
  let ?wm = "(SetLSMTree (Some l) (WALManager_new path fs))\<lparr>wm_next_file := 1 + 1\<rparr>"
  have W: "wm_writer ?wm = None" "wm_fs ?wm = fs" "wm_db_path ?wm = path" "wm_next_file ?wm = 2"
    by (simp_all add: SetLSMTree_def WALManager_new_def)
  have n2: "GenerateWALFilename ?wm (wm_next_file ?wm) = ?f2" unfolding W(4) wal_names(2) W(3) ..
  have "map_of (fs_files fs) ?f2 = None"
  proof -
    have "?f2 \<notin> set (map fst (fs_files fs))" unfolding d(2) [unfolded log_dir_def] by simp
    then show ?thesis by (simp add: map_of_eq_None_iff)
  qed
  then have empty: "fs_data fs ?f2 = []" by (simp add: fs_data_def)
  define wm where "wm = snd (CreateNewWALFile ?wm)"
  have cw: "CreateNewWALFile ?wm = (OK, wm)" and wm: "wm_fs wm = fs_write fs ?f2 []" "wm_db_path wm = path" "wm_lsm wm = Some l"
    "wm_filename wm = ?f2" "log_holds wm []" "wm_last_sequence wm = 0" "wm_initialized wm = False"
    using CreateNewWALFile_OK [OF W(1) _ n2] d(3) W(2) empty
    by (simp_all add: wm_def SetLSMTree_def WALManager_new_def log_holds_def WALWriter_new_def fs_write_def)
  have keys: "log_dir path [''000001.wal'', ''000002.wal''] (wm_fs wm)"
    using d(2) by (simp add: log_dir_def wm(1) fs_write_def keys_al_put wal_file_def)
  have files: "GetWALFiles wm = [?f1, ?f2]"
    using GetWALFiles_dir [of wm "[''000001.wal'', ''000002.wal'']"] keys d(4) sort_logs [of path]
    by (simp add: wm(1,2) wal_names fs_write_def)
  define rc where "rc = \<lparr>rc_states = Map.empty, rc_buffers = Map.empty, rc_wm = wm\<rparr>"
  have os: "fs_can_open fs f" for f using d(3) by (simp add: os_all_def os_allows_def)
  have m1: "map_of (fs_files (wm_fs (rc_wm rc))) ?f1 = Some (concat (map frame rs) @ tail)" "fs_can_open (wm_fs (rc_wm rc)) ?f1"
    "wm_lsm (rc_wm rc) = Some l"
    using f(1) os by (simp_all add: rc_def wm fs_write_def map_of_al_put)
  obtain rc1 l1 k1 where 1: "RecoverFromWALFile ?L ?f1 rc = Some (OK, (?m, length rs, 0), rc1)"
    "rc_wm rc1 = (rc_wm rc)\<lparr>wm_lsm := Some l1, wm_total_records := k1\<rparr>" "replayed P cmp rs l l1"
    using recover_wal_file [OF rs f(2) m1(2,1,3) l] by blast
  have m2: "map_of (fs_files (wm_fs (rc_wm rc1))) ?f2 = Some (concat (map frame []) @ [])" "fs_can_open (wm_fs (rc_wm rc1)) ?f2"
    "wm_lsm (rc_wm rc1) = Some l1"
    using os by (simp_all add: 1(2) rc_def wm fs_write_def map_of_al_put)
  have l1: "lt_opened (ls_tree l1)" "\<not> immutable (recovery_of P l1)" "lt_recovery_sequence (ls_tree l1) < 2 ^ 56"
    using 1(3) l by (simp_all add: replayed_def same_side_def mem_run_def)
  obtain rc2 l2 k2 where 2: "RecoverFromWALFile ?L ?f2 rc1 = Some (OK, (0, 0, 0), rc2)"
    "rc_wm rc2 = (rc_wm rc1)\<lparr>wm_lsm := Some l2, wm_total_records := k2\<rparr>" "replayed P cmp [] l1 l2"
    using recover_wal_file [OF _ _ m2(2,1,3) l1, where cmp = cmp] by auto
  have r: "replayed P cmp rs l l2" using 1(3) 2(3) by (auto simp: replayed_def mem_run_def intro: same_side_trans)
  have rf: "RecoverFiles ?L [?f1, ?f2] 0 0 rc = Some (OK, ?m, length rs, rc2)" by (simp add: 1(1) 2(1))
  have rw: "rc_wm rc2 = wm\<lparr>wm_lsm := Some l2, wm_total_records := k2\<rparr>" by (simp add: 2(2) 1(2) rc_def)
  have "\<exists>w. Wal_Initialize ?L (SetLSMTree (Some l) (WALManager_new path fs)) = Some (OK, w) \<and> wm_lsm w = Some l'' \<and>
      wm_last_sequence w = ?m \<and> log_holds w [] \<and> wm_filename w = ?f2"
    if F: "LsmFinishRecovery ?L ?m l2 = (OK, l'')" for l''
  proof -
    let ?w = "wm\<lparr>wm_lsm := Some l'', wm_last_sequence := ?m, wm_total_records := length rs, wm_fs := fs_remove (wm_fs wm) ?f1\<rparr>"
    have "RecoverFromWAL ?L wm = Some (OK, ?m, ?w)"
    proof -
      have k: "wm\<lparr>wm_lsm := x, wm_total_records := n, wm_fs := y\<rparr> =
          wm\<lparr>wm_lsm := x, wm_last_sequence := 0, wm_total_records := n, wm_fs := y\<rparr>" for x n y
        using wm(6) by (cases wm) simp
      have q: "filter (\<lambda>f. f \<noteq> ?f2) [?f1, ?f2] = [?f1]" "wm_db_path wm \<noteq> []" using d(1) wm(2) by simp_all
      show ?thesis
      proof (cases "?m = 0")
        case True
        have F0: "LsmFinishRecovery ?L 0 l2 = (OK, l'')" using F unfolding True .
        show ?thesis
          unfolding RecoverFromWAL_def Let_def files sort_logs rc_def [symmetric] rf True using q by (simp add: rw F0 wm(4) k)
      next
        case False
        then show ?thesis
          unfolding RecoverFromWAL_def Let_def files sort_logs rc_def [symmetric] rf using q by (simp add: rw F wm(4) word_gt_0)
      qed
    qed
    moreover have "max_file_number (wm_fs (SetLSMTree (Some l) (WALManager_new path fs)))
        (wm_db_path (SetLSMTree (Some l) (WALManager_new path fs)) @ ''/wal'') = 1"
      using max_file_number_one [OF d(2)] by (simp add: SetLSMTree_def WALManager_new_def)
    moreover have "\<not> wm_initialized (SetLSMTree (Some l) (WALManager_new path fs))" by (simp add: SetLSMTree_def WALManager_new_def)
    ultimately have "Wal_Initialize ?L (SetLSMTree (Some l) (WALManager_new path fs)) = Some (OK, ?w\<lparr>wm_initialized := True\<rparr>)"
      unfolding Wal_Initialize_def Let_def by (simp only: cw if_False if_True prod.case option.case ok_OK not_True_eq_False) simp
    moreover have "log_holds (?w\<lparr>wm_initialized := True\<rparr>) []"
    proof -
      have "map_of (filter (\<lambda>p. fst p \<noteq> ?f1) xs) ?f2 = map_of xs ?f2" for xs :: "(string \<times> bytes) list" by (induction xs) auto
      then show ?thesis using wm(5) unfolding log_holds_def by (simp add: fs_remove_def wm(4))
    qed
    ultimately show ?thesis using wm(4) by auto
  qed
  then show ?thesis using r by blast
qed

section \<open>Opening a family\<close>

definition family_opens :: "platform \<Rightarrow> u32 \<Rightarrow> bytes \<Rightarrow> cf_options \<Rightarrow> string \<Rightarrow> bool" where
  "family_opens P i n opts db \<longleftrightarrow> n \<noteq> [] \<and> co_comparator opts = Some Bytewise_ref \<and> (\<forall>d. ok (pf_mkdir P d)) \<and>
     pf_now P \<noteq> -1 \<and> ok (ValidateOptions (family_lsm_options opts (family_path db i n))) \<and> length (family_path db i n) < 900"

lemma open_new_tree:
  assumes "family_opens P i n opts db" "names = None \<or> names = Some []"
  defines "path \<equiv> family_path db i n"
  shows "\<exists>t. LSMTree_Open Bytewise_Compare (pf_mkdir P) names (pf_sizeof_table P) (pf_sizeof_entry P)
      (new_tree (family_lsm_options opts path)) fs = (OK, t) \<and> quiet fs t (\<lambda>_. []) \<and> tables_of t (\<lambda>_. []) = [] \<and>
    lt_current_memtable t = None \<and> lt_next_sequence t = 1 \<and> lt_recovery_sequence t = 0 \<and> lt_sstables t = SSTableManager 1000 (path @ ''/sstables'')"
proof -
  let ?o = "family_lsm_options opts path"
  let ?mo = "\<lparr>write_buffer_size = lo_memtable_size ?o, max_write_buffer_number = lo_max_memtables ?o\<rparr>"
  define t where "t = (InitializeComponents (pf_sizeof_table P) (pf_sizeof_entry P) (new_tree ?o))\<lparr>lt_opened := True\<rparr>"
  have o: "ok (ValidateOptions ?o)" "\<And>d. ok (pf_mkdir P d)" "length path < 900" "lo_db_path ?o = path"
    using assms(1) by (simp_all add: family_opens_def path_def family_lsm_options_def)
  have T: "lt_memtables t = MemTableManager_new ?mo (pf_sizeof_table P) (pf_sizeof_entry P)"
    "lt_sstables t = SSTableManager 1000 (path @ ''/sstables'')" "lt_current_memtable t = None" "lt_next_sequence t = 1"
    "lt_recovery_sequence t = 0" "lt_opened t"
    by (simp_all add: t_def InitializeComponents_def new_tree_def LSMTree_def o(4))
  have run: "LSMTree_Open Bytewise_Compare (pf_mkdir P) names (pf_sizeof_table P) (pf_sizeof_entry P) (new_tree ?o) fs = (OK, t)"
    using assms(2) o by (auto simp: t_def LSMTree_Open_def CreateDirectories_def LoadExistingSSTables_def new_tree_def LSMTree_def InitializeComponents_def)
  have a: "active_memtable t = MemTable_Ref (MemTable_new 0 (pf_sizeof_table P) (pf_sizeof_entry P) ?mo)"
    "immutable_memtables (lt_memtables t) = []" "mutable_memtable (lt_memtables t) \<noteq> None"
    by (simp_all add: active_memtable_def T MemTableManager_new_def CreateNewMemTable_def)
  have e: "search_order (lt_sstables t) = []" unfolding T(2) by (rule search_order_new)
  have "tables_state fs (lt_sstables t) (\<lambda>_. [])" unfolding T(2) using o(3) by (intro new_tables_state) simp
  then have "lsm_ok fs t (\<lambda>_. [])"
    using a fresh_memtable by (simp add: lsm_ok_def tree_entries_def e T(6))
  moreover have "table (active_memtable t) = []" by (simp add: a MemTable_Ref_def MemTable_new_def)
  ultimately have "quiet fs t (\<lambda>_. [])" using a(2) T(5) by (simp add: quiet_def)
  then show ?thesis using run T e by (intro exI [of _ t]) simp
qed

section \<open>Reading from a quiet tree\<close>

lemma quiet_Get:
  assumes q: "quiet fs t c" and clock: "clock \<noteq> -1"
  shows "\<exists>t'. LSMTree_Get Bytewise_Compare fs clock key [] snapshot t =
    Some (let (s, v) = version_answer (newest_visible (concat (tables_of t c)) key snapshot)
          in (s, case v of Some v \<Rightarrow> v | None \<Rightarrow> [], t'))"
proof -
  have "concat (map sst_entries (memtables_of t)) = []" using q entries_Nil by (simp add: quiet_def)
  moreover have "newest_visible [] key snapshot = None" by (simp add: newest_visible_def)
  ultimately obtain t' where g: "LSMTree_Get Bytewise_Compare fs clock key [] snapshot t =
      Some (let (s, v) = lsm_answer None (newest_visible (concat (tables_of t c)) key snapshot) [] in (s, v, t'))"
    using lsm_Get_answer [OF _ clock, of fs t c key "[]" snapshot] q by (auto simp: quiet_def)
  show ?thesis
    unfolding g by (intro exI [of _ t'], rule version_cases [of "newest_visible (concat (tables_of t c)) key snapshot"])
      (simp_all add: lsm_answer_def version_answer_def)
qed

lemma version_answer_parts:
  "fst (version_answer d) \<noteq> crash_status" "ok (fst (version_answer d)) \<longleftrightarrow> snd (version_answer d) \<noteq> None"
  "\<not> ok (fst (version_answer d)) \<Longrightarrow> IsNotFound (fst (version_answer d)) \<and> \<not> IsDeleted (fst (version_answer d))"
  "ok (fst (version_answer d)) \<Longrightarrow> fst (version_answer d) = OK"
proof -
  show "fst (version_answer d) \<noteq> crash_status"
    by (rule version_cases [of d]) (simp_all add: version_answer_def crash_status_def status_simps mk_status_def)
  show "ok (fst (version_answer d)) \<longleftrightarrow> snd (version_answer d) \<noteq> None"
    by (rule version_cases [of d]) (simp_all add: version_answer_def)
  show "\<not> ok (fst (version_answer d)) \<Longrightarrow> IsNotFound (fst (version_answer d)) \<and> \<not> IsDeleted (fst (version_answer d))"
    by (rule version_cases [of d]) (simp_all add: version_answer_def status_simps)
  show "ok (fst (version_answer d)) \<Longrightarrow> fst (version_answer d) = OK"
    by (rule version_cases [of d]) (simp_all add: version_answer_def)
qed

lemma Family_Get_quiet:
  assumes fa: "fa_active fa" "fa_comparator fa = Bytewise_ref" "chain_of (tm_chains (fa_tx fa)) key = []" "tm_lsm (fa_tx fa) = Some l"
    and q: "quiet (ls_fs l) (ls_tree l) c" and clock: "pf_now P \<noteq> -1"
    and same: "version_answer (newest_visible (concat (tables_of (ls_tree l) c)) key (Gen_Current (snap_gen (fa_tx fa)))) =
      version_answer (newest_visible (concat (tables_of (ls_tree l) c)) key 0)"
  shows "Family_Get P key fa = Some (version_answer (newest_visible (concat (tables_of (ls_tree l) c)) key 0))"
proof -
  let ?a = "version_answer (newest_visible (concat (tables_of (ls_tree l) c)) key 0)"
  have g: "\<exists>t'. LSMTree_Get Bytewise_Compare (ls_fs l) (pf_now P) key [] sn (ls_tree l) =
      Some (fst ?a, case snd ?a of Some v \<Rightarrow> v | None \<Rightarrow> [], t')"
    if "sn = 0 \<or> sn = Gen_Current (snap_gen (fa_tx fa))" for sn
    using quiet_Get [OF q clock, of key sn] that same by (auto simp: split_def Let_def)
  obtain t1 where t1: "LSMTree_Get Bytewise_Compare (ls_fs l) (pf_now P) key [] (Gen_Current (snap_gen (fa_tx fa))) (ls_tree l) =
      Some (fst ?a, case snd ?a of Some v \<Rightarrow> v | None \<Rightarrow> [], t1)" using g by blast
  obtain t0 where t0: "LSMTree_Get Bytewise_Compare (ls_fs l) (pf_now P) key [] 0 (ls_tree l) =
      Some (fst ?a, case snd ?a of Some v \<Rightarrow> v | None \<Rightarrow> [], t0)" using g by blast
  have m: "TxManager_Get (lsm_ops_of P Bytewise_Compare) (fa_tx fa) key = ?a"
    using fa(3,4) version_answer_parts(2) [of "newest_visible (concat (tables_of (ls_tree l) c)) key 0"]
    by (cases ?a) (auto simp: TxManager_Get_def GetVisible_chain lsm_ops_of_def t1)
  note V = version_answer_parts [of "newest_visible (concat (tables_of (ls_tree l) c)) key 0"]
  show ?thesis
  proof (cases "ok (fst ?a)")
    case True
    then show ?thesis using fa V(1,4) m by (cases ?a) (simp add: Family_Get_def)
  next
    case False
    then have n: "snd ?a = None" using V(2) by blast
    show ?thesis
      using fa V(1) V(3) [OF False] m False n t0 by (cases ?a) (simp add: Family_Get_def tree_get_def)
  qed
qed

section \<open>Reopening\<close>

lemma last_sequence_kept:
  assumes "touches (GenerateFileName k 0 (SSTableManager n (path @ ''/sstables''))) fs fs'"
  shows "Env_FileExists fs' (LastSequenceFilePath path) = Env_FileExists fs (LastSequenceFilePath path)"
proof -
  have "LastSequenceFilePath path \<noteq> GenerateFileName k 0 (SSTableManager n (path @ ''/sstables''))"
    by (simp add: LastSequenceFilePath_def GenerateFileName_def SSTableManager_def Let_def)
  then show ?thesis using assms by (simp add: touches_def Env_FileExists_def)
qed

lemma max_sequence_bound:
  "\<forall>r \<in> set rs. wr_seq r \<le> fold max (map wr_seq rs) m" "m \<le> fold max (map wr_seq rs) m"
  "m < b \<Longrightarrow> \<forall>r \<in> set rs. wr_seq r < b \<Longrightarrow> fold max (map wr_seq rs) m < b"
proof -
  have m: "fold max (map wr_seq rs) m = Max (insert m (wr_seq ` set rs))"
    using Max.set_eq_fold [of m "map wr_seq rs"] by simp
  show "\<forall>r \<in> set rs. wr_seq r \<le> fold max (map wr_seq rs) m" "m \<le> fold max (map wr_seq rs) m" by (simp_all add: m)
  show "m < b \<Longrightarrow> \<forall>r \<in> set rs. wr_seq r < b \<Longrightarrow> fold max (map wr_seq rs) m < b" by (simp add: m)
qed

lemma recovery_table_ok: "memtable_ok (recovery_table P)" "\<not> immutable (recovery_table P)" "mem_entries (recovery_table P) = []"
  using MemTable_new_ok [of Bytewise_Compare]
  by (simp_all add: recovery_table_def memtable_ok_def mem_entries_def one_version_def MemTable_new_def)

lemma log_run:
  assumes "ordered_log rs"
  shows "memtable_ok (mem_run Bytewise_Compare (map record_op rs) (recovery_table P))"
    "set (mem_entries (mem_run Bytewise_Compare (map record_op rs) (recovery_table P))) = op_entry ` record_op ` set rs"
  using run_memtable_ok [OF recovery_table_ok(1,2), of "map record_op rs" P] assms take_bit_56
  by (auto simp: recovery_table_ok(3) comp_def ordered_log_def data_record_def)

text \<open>The tree after it has recovered a log.\<close>

lemma log_recovered:
  assumes q: "quiet fs t (\<lambda>_. [])" "tables_of t (\<lambda>_. []) = []" "lt_next_sequence t < 2 ^ 56" "lt_sstables t = SSTableManager 1000 (path @ ''/sstables'')"
    and rs: "ordered_log rs" "s < 2 ^ 56" and os: "os_all fs"
    and mt: "lt_current_memtable t = (if rs = [] then None else Some (mem_run Bytewise_Compare (map record_op rs) (recovery_table P)))"
    and fl: "flushes now (mem_run Bytewise_Compare (map record_op rs) (recovery_table P))"
  shows "\<exists>t' fs' c. FinishRecovery Bytewise_Compare now s t fs = Some (OK, t', fs') \<and> quiet fs' t' c \<and>
    set (concat (tables_of t' c)) = op_entry ` record_op ` set rs \<and> lt_current_memtable t' = None \<and> lt_next_sequence t' < 2 ^ 63 \<and>
    Env_FileExists fs' (LastSequenceFilePath path) = Env_FileExists fs (LastSequenceFilePath path)"
proof -
  have n: "lt_next_sequence t < 2 ^ 63" using q(3) by (simp add: word_less_nat_alt)
  have small: "x < 2 ^ 63" if "x \<le> max (lt_next_sequence t) (2 ^ 56) + 1" for x
  proof -
    have "max (lt_next_sequence t) (2 ^ 56) = 2 ^ 56" by (rule max_absorb2 [OF less_imp_le [OF q(3)]])
    then have "x \<le> 2 ^ 56 + 1" using that by simp
    then show ?thesis by (simp add: word_less_nat_alt word_le_nat_alt)
  qed
  show ?thesis
  proof (cases "rs = []")
    case True
    then have "lt_current_memtable t = None" using mt by simp
    from FinishRecovery_nothing [OF q(1) this n rs(2), where now = now] obtain t' where
      t': "FinishRecovery Bytewise_Compare now s t fs = Some (OK, t', fs)" "quiet fs t' (\<lambda>_. [])" "lt_sstables t' = lt_sstables t"
      "lt_current_memtable t' = None" "lt_next_sequence t' \<le> max (lt_next_sequence t) (2 ^ 56) + 1" by (elim exE conjE)
    then show ?thesis using small [OF t'(5)] q(2) True by (intro exI [of _ t'] exI [of _ fs] exI [of _ "\<lambda>_. []"]) simp
  next
    case False
    let ?mt = "mem_run Bytewise_Compare (map record_op rs) (recovery_table P)"
    note R = log_run [OF rs(1), of P]
    have ne: "table ?mt \<noteq> []" using R(2) False entries_Nil(1) [of ?mt] by auto
    have cur: "lt_current_memtable t = Some ?mt" using mt False by simp
    have new: "\<forall>x \<in> set (tables_of t (\<lambda>_. [])). newer_than (sst_entries ?mt) x" unfolding q(2) by simp
    have nf: "sg_next_file_number (lt_sstables t) \<noteq> -1" unfolding q(4) by (simp add: SSTableManager_def)
    from FinishRecovery_flushed [OF q(1) cur R(1) ne fl new os nf n rs(2)] obtain t' fs' c' where
      t': "FinishRecovery Bytewise_Compare now s t fs = Some (OK, t', fs')" "quiet fs' t' c'"
      "tables_of t' c' = sst_entries ?mt # tables_of t (\<lambda>_. [])" "lt_current_memtable t' = None"
      "lt_next_sequence t' \<le> max (lt_next_sequence t) (2 ^ 56) + 1"
      "touches (GenerateFileName (sg_next_file_number (lt_sstables t)) 0 (lt_sstables t)) fs fs'" by (elim exE conjE)
    have "concat (tables_of t' c') = sst_entries ?mt" unfolding t'(3) q(2) by simp
    then have "set (concat (tables_of t' c')) = op_entry ` record_op ` set rs" using R(2) by simp
    moreover have "Env_FileExists fs' (LastSequenceFilePath path) = Env_FileExists fs (LastSequenceFilePath path)"
      by (rule last_sequence_kept [OF t'(6) [unfolded q(4)]])
    ultimately show ?thesis using t' small [OF t'(5)] by blast
  qed
qed

lemma reopen_family:
  assumes fo: "family_opens P i n opts db" "names = None \<or> names = Some []"
    and d: "log_dir (family_path db i n) [''000001.wal''] lfs" "os_all lfs" "2 \<le> fs_scan lfs"
    and f: "map_of (fs_files lfs) (first_log (family_path db i n)) = Some (concat (map frame rs) @ tail)" "length tail < 4"
    and rs: "\<forall>r \<in> set rs. wr_readable r" "ordered_log rs"
    and fl: "flushes (pf_now P) (mem_run Bytewise_Compare (map record_op rs) (recovery_table P))"
    and fs: "os_all fs" "\<not> Env_FileExists fs (LastSequenceFilePath (family_path db i n))"
  shows "\<exists>fa l c. DefaultColumnFamily_new P i n opts db names lfs fs = Some (Inr fa) \<and>
    fa_active fa \<and> fa_comparator fa = Bytewise_ref \<and> tm_chains (fa_tx fa) = [] \<and> tm_lsm (fa_tx fa) = Some l \<and>
    quiet (ls_fs l) (ls_tree l) c \<and> set (concat (tables_of (ls_tree l) c)) = op_entry ` record_op ` set rs \<and>
    snap_gen (fa_tx fa) = fold max (map wr_seq rs) 0 + 1"
proof -
  let ?path = "family_path db i n" and ?m = "fold max (map wr_seq rs) 0" and ?L = "lsm_recovery_of P Bytewise_Compare"
  obtain t where t: "LSMTree_Open Bytewise_Compare (pf_mkdir P) names (pf_sizeof_table P) (pf_sizeof_entry P)
      (new_tree (family_lsm_options opts ?path)) fs = (OK, t)" "quiet fs t (\<lambda>_. [])" "tables_of t (\<lambda>_. []) = []"
    "lt_current_memtable t = None" "lt_next_sequence t = 1" "lt_recovery_sequence t = 0" "lt_sstables t = SSTableManager 1000 (?path @ ''/sstables'')"
    using open_new_tree [OF fo, of fs] by (elim exE conjE)
  let ?l = "\<lparr>ls_tree = t, ls_fs = fs, ls_crashed = False\<rparr>"
  have o: "n \<noteq> []" "co_comparator opts = Some Bytewise_ref" using fo(1) by (simp_all add: family_opens_def)
  have rec0: "recovery_of P ?l = recovery_table P" by (simp add: recovery_of_def t(4))
  have l: "lt_opened (ls_tree ?l)" "\<not> immutable (recovery_of P ?l)" "lt_recovery_sequence (ls_tree ?l) < 2 ^ 56"
    using t(2,6) recovery_table_ok(2) by (simp_all add: rec0 quiet_def lsm_ok_def)
  have ne: "?path \<noteq> []" by (simp add: family_path_def)
  have rd: "\<forall>r \<in> set rs. wr_readable r \<and> data_record r" using rs by (simp add: ordered_log_def)
  obtain l' where l': "replayed P Bytewise_Compare rs ?l l'"
    and init: "\<And>l''. LsmFinishRecovery ?L ?m l' = (OK, l'') \<Longrightarrow>
      \<exists>w. Wal_Initialize ?L (SetLSMTree (Some ?l) (WALManager_new ?path lfs)) = Some (OK, w) \<and> wm_lsm w = Some l'' \<and> wm_last_sequence w = ?m"
    using Wal_Initialize_recovers [OF ne d f rd l, of Bytewise_Compare] by blast
  have same: "ls_fs l' = fs" "\<not> ls_crashed l'" "lt_opened (ls_tree l') = lt_opened t" "lt_memtables (ls_tree l') = lt_memtables t"
    "lt_sstables (ls_tree l') = lt_sstables t" "lt_next_sequence (ls_tree l') = 1" "lt_recovery_sequence (ls_tree l') < 2 ^ 56"
    using l' t(5) by (simp_all add: replayed_def same_side_def)
  have q': "quiet fs (ls_tree l') (\<lambda>_. [])"
    using t(2) lsm_ok_cong(1,3) [where t' = "ls_tree l'" and t = t, OF same(3-5)] same by (simp add: quiet_def)
  have m56: "?m < 2 ^ 56" using rs(2) by (intro max_sequence_bound) (auto simp: ordered_log_def data_record_def)
  have tabs: "tables_of (ls_tree l') (\<lambda>_. []) = []" using t(3) unfolding same(5) .
  have cur: "lt_current_memtable (ls_tree l') = (if rs = [] then None else Some (mem_run Bytewise_Compare (map record_op rs) (recovery_table P)))"
    using l' t(4) unfolding replayed_def rec0 by (auto simp: recovery_of_def split: option.splits)
  have n1: "lt_next_sequence (ls_tree l') < 2 ^ 56" and sg: "lt_sstables (ls_tree l') = SSTableManager 1000 (?path @ ''/sstables'')"
    by (simp_all add: same(5,6) t(7))
  obtain t2 fs2 c where 2: "FinishRecovery Bytewise_Compare (pf_now P) ?m (ls_tree l') fs = Some (OK, t2, fs2)" "quiet fs2 t2 c"
    "set (concat (tables_of t2 c)) = op_entry ` record_op ` set rs" "lt_current_memtable t2 = None" "lt_next_sequence t2 < 2 ^ 63"
    "Env_FileExists fs2 (LastSequenceFilePath ?path) = Env_FileExists fs (LastSequenceFilePath ?path)"
    using log_recovered [OF q' tabs n1 sg rs(2) m56 fs(1) cur fl] by (elim exE conjE)
  let ?l2 = "l'\<lparr>ls_tree := t2, ls_fs := fs2\<rparr>"
  have "LsmFinishRecovery ?L ?m l' = (OK, ?l2)" by (simp add: lsm_recovery_of_def same(1) 2(1))
  from init [OF this] obtain w where w: "Wal_Initialize ?L (SetLSMTree (Some ?l) (WALManager_new ?path lfs)) = Some (OK, w)"
    "wm_lsm w = Some ?l2" "wm_last_sequence w = ?m" by blast
  have p: "persisted_sequence ?path fs2 = 0" using 2(6) fs(2) by (simp add: persisted_sequence_def)
  have cr: "\<not> ls_crashed ?l2" using same(2) by simp
  have gl: "GetLastSequence w = ?m" by (simp add: GetLastSequence_def w(3))
  define tm where "tm = TxManager_new (w\<lparr>wm_lsm := None\<rparr>) ?l2 i"
  define fa where "fa = \<lparr>fa_id = i, fa_name = n, fa_options = opts, fa_comparator = Bytewise_ref, fa_path = ?path,
     fa_active = True, fa_refs = 1, fa_tx = tm\<rparr>"
  have c: "compare_of P Bytewise_ref = Bytewise_Compare" by simp
  have run: "DefaultColumnFamily_new P i n opts db names lfs fs =
      (if ?m > 0
       then case FinishRecovery Bytewise_Compare (pf_now P) ?m t2 fs2 of
              None \<Rightarrow> None
            | Some (_, t, fs) \<Rightarrow> Some (Inr (fa\<lparr>fa_tx := RecoverSetSnapshot ?m (tm\<lparr>tm_lsm := Some (?l2\<lparr>ls_tree := t, ls_fs := fs\<rparr>)\<rparr>)\<rparr>))
       else Some (Inr fa))"
    unfolding DefaultColumnFamily_new_def o(2) option.case c Let_def t(1)
    using o(1) cr p by (simp add: w gl fa_def tm_def del: compare_of.simps cong: option.case_cong)
  show ?thesis
  proof (cases "?m = 0")
    case True
    show ?thesis
      unfolding run using 2(2,3) by (intro exI [of _ fa] exI [of _ ?l2] exI [of _ c]) (simp add: True fa_def tm_def TxManager_new_def)
  next
    case False
    obtain t3 where 3: "FinishRecovery Bytewise_Compare (pf_now P) ?m t2 fs2 = Some (OK, t3, fs2)" "quiet fs2 t3 c"
      "lt_sstables t3 = lt_sstables t2"
      using FinishRecovery_nothing [OF 2(2,4,5) m56, where now = "pf_now P"] by blast
    have "set (concat (tables_of t3 c)) = op_entry ` record_op ` set rs" using 2(3) unfolding 3(3) .
    then show ?thesis
      unfolding run 3(1) using 3(2) False
      by (intro exI [of _ "fa\<lparr>fa_tx := RecoverSetSnapshot ?m (tm\<lparr>tm_lsm := Some (?l2\<lparr>ls_tree := t3, ls_fs := fs2\<rparr>)\<rparr>)\<rparr>"]
          exI [of _ "?l2\<lparr>ls_tree := t3, ls_fs := fs2\<rparr>"] exI [of _ c])
        (simp add: word_gt_0 fa_def tm_def TxManager_new_def RecoverSetSnapshot_def)
  qed
qed

section \<open>Acknowledged writes\<close>

datatype family_write = FPut bytes bytes | FDelete bytes

fun write_key :: "family_write \<Rightarrow> bytes" where "write_key (FPut k v) = k" | "write_key (FDelete k) = k"

fun do_write :: "family_write \<Rightarrow> column_family \<Rightarrow> acquire_result \<times> column_family" where
  "do_write (FPut k v) fa = Family_Put k v fa"
| "do_write (FDelete k) fa = Family_Delete k fa"

text \<open>Writes that all succeed.\<close>

fun run_writes :: "family_write list \<Rightarrow> column_family \<Rightarrow> column_family option" where
  "run_writes [] fa = Some fa"
| "run_writes (x # xs) fa =
     (case do_write x fa of (Done s, fa') \<Rightarrow> if ok s then run_writes xs fa' else None | _ \<Rightarrow> None)"

fun write_record :: "u32 \<Rightarrow> u64 \<Rightarrow> family_write \<Rightarrow> wal_record" where
  "write_record i s (FPut k v) = wal_data_record WAL_kPut i k v s"
| "write_record i s (FDelete k) = wal_data_record WAL_kDelete i k [] s"

fun write_log :: "u32 \<Rightarrow> u64 \<Rightarrow> family_write list \<Rightarrow> wal_record list" where
  "write_log i s [] = []"
| "write_log i s (x # xs) = write_record i s x # write_log i (s + 1) xs"

text \<open>The answer a client expects: that of its last write to the key.\<close>

definition writes_answer :: "family_write list \<Rightarrow> bytes \<Rightarrow> status \<times> bytes option" where
  "writes_answer ws key =
     (case find (\<lambda>x. write_key x = key) (rev ws) of
        None \<Rightarrow> (NotFound ''Key not found'', None)
      | Some (FPut k v) \<Rightarrow> (OK, Some v)
      | Some (FDelete k) \<Rightarrow> (NotFound ''Key was deleted'', None))"

fun write_version :: "family_write \<Rightarrow> txn_id \<Rightarrow> version_record" where
  "write_version (FPut k v) t = VersionRecord v False t"
| "write_version (FDelete k) t = VersionRecord [] True t"

lemma Txn_Commit_keeps:
  "Txn_Commit W tm tx alloc = (s, tx', tm') \<Longrightarrow> tm_lsm tm' = tm_lsm tm \<and> cf_id tm' = cf_id tm"
  by (auto simp: Txn_Commit_def PrepareCommit_def Gen_Next_def Txn_Abort_def OnAborted_def OnCommitted_def Let_def
      split: option.splits prod.splits if_splits)

lemma Txn_destroy_keeps:
  "tm_lsm (Txn_destroy tm tx) = tm_lsm tm" "cf_id (Txn_destroy tm tx) = cf_id tm" "tm_wal (Txn_destroy tm tx) = tm_wal tm"
  "snap_gen (Txn_destroy tm tx) = snap_gen tm" "tx_finished tx \<Longrightarrow> tm_chains (Txn_destroy tm tx) = tm_chains tm"
  by (simp_all add: Txn_destroy_def OnAborted_def)

lemma Txn_Commit_finished:
  "Txn_Commit W tm tx alloc = (s, tx', tm') \<Longrightarrow> ok s \<Longrightarrow> \<not> enable_rr_validation (tx_opts tx) \<Longrightarrow> tx_finished tx'"
  by (auto simp: Txn_Commit_def Txn_Abort_def Let_def split: option.splits prod.splits if_splits)

lemma finish_forms:
  "TxManager_finish W (Done s, tx, tm) = (Done s', tm') \<Longrightarrow> ok s' \<Longrightarrow>
     \<exists>tx1 tm1. ok s \<and> Txn_Commit W tm tx False = (s', tx1, tm1) \<and> tm' = Txn_destroy tm1 tx1"
  "finish_delete (Done s, tx, tm0) = (Done s', tm0') \<Longrightarrow> ok s' \<Longrightarrow>
     \<exists>tx1 tm1. ok s \<and> Txn_Commit wal_ops_of tm0 tx False = (s', tx1, tm1) \<and> tm0' = Txn_destroy tm1 tx1"
  by (auto simp: TxManager_finish_def finish_delete_def split: prod.splits if_splits)

definition wal_write :: "u32 \<Rightarrow> u64 \<Rightarrow> family_write \<Rightarrow> wal_side \<Rightarrow> status \<times> wal_side" where
  "wal_write i s x w = (case x of FPut k v \<Rightarrow> Wal_WritePut i k v s w | FDelete k \<Rightarrow> Wal_WriteDelete i k s w)"

lemma acknowledged_write:
  assumes w: "do_write x fa = (Done s, fa')" "ok s" and a: "fa_active fa"
  shows "\<exists>w s1 w1. tm_wal (fa_tx fa) = Some w \<and> wal_write (cf_id (fa_tx fa)) (snap_gen (fa_tx fa)) x w = (s1, w1) \<and> ok s1 \<and>
    ok (fst (Wal_Sync w1)) \<and> tm_wal (fa_tx fa') = Some (snd (Wal_Sync w1)) \<and>
    snap_gen (fa_tx fa') = snap_gen (fa_tx fa) + 1 \<and> tm_lsm (fa_tx fa') = tm_lsm (fa_tx fa) \<and> cf_id (fa_tx fa') = cf_id (fa_tx fa) \<and>
    tm_chains (fa_tx fa') = snd (MarkTransactionCommitted (chain_append (tm_chains (fa_tx fa)) (write_key x)
        (write_version x (txn_gen (fa_tx fa)))) (txn_gen (fa_tx fa)) (snap_gen (fa_tx fa))) \<and>
    fa_active fa' \<and> fa_comparator fa' = fa_comparator fa"
proof -
  let ?t = "txn_gen (fa_tx fa)" and ?k = "write_key x" and ?v = "write_version x (txn_gen (fa_tx fa))"
  obtain tx tm where b: "TxManager_Begin (fa_tx fa) default_txn_options = (tx, tm)" by fastforce
  then have B: "tx_id tx = ?t" "touched_keys tx = []" "tx_opts tx = default_txn_options" "tm_chains tm = tm_chains (fa_tx fa)"
    "tm_wal tm = tm_wal (fa_tx fa)" "tm_lsm tm = tm_lsm (fa_tx fa)" "cf_id tm = cf_id (fa_tx fa)" "snap_gen tm = snap_gen (fa_tx fa)"
    by (auto simp: TxManager_Begin_def Gen_Next_def TransactionImpl_def Let_def)
  obtain r lm where acq: "Acquire_start (tm_locks tm) ?k (tx_id tx) kExclusiveLock (lock_timeout (tx_opts tx)) = (r, lm)" by fastforce
  let ?tx = "tx\<lparr>touched_keys := [?k]\<rparr>"
  let ?tm = "tm\<lparr>tm_locks := lm, tm_chains := chain_append (tm_chains tm) ?k ?v\<rparr>"
  obtain tx1 tm1 where c: "Txn_Commit wal_ops_of ?tm ?tx False = (s, tx1, tm1)" "fa_tx fa' = Txn_destroy tm1 tx1"
    "fa_active fa'" "fa_comparator fa' = fa_comparator fa"
  proof (cases x)
    case (FPut k v)
    show thesis
      using w a b acq FPut B(1,2) that finish_forms(1)
      by (auto simp: Family_Put_def Txn_Put_def Txn_Put_locked_def VCM_PutActive_def Let_def List.insert_def
          split: acquire_result.splits prod.splits if_splits; (auto simp: TxManager_finish_def split: if_splits prod.splits))
  next
    case (FDelete k)
    show thesis
      using w a b acq FDelete B(1,2) that finish_forms(2)
      by (auto simp: Family_Delete_def Txn_Delete_def Txn_Delete_locked_def VCM_DeleteActive_def Let_def List.insert_def
          split: acquire_result.splits prod.splits if_splits; (auto simp: finish_delete_def split: if_splits prod.splits))
  qed
  have act: "vr_txn ?v = ?t" "vr_state ?v = kActive" by (cases x; simp add: VersionRecord_def)+
  have tm: "cf_id ?tm = cf_id (fa_tx fa)" "snap_gen ?tm = snap_gen (fa_tx fa)" "tm_wal ?tm = tm_wal (fa_tx fa)"
    "tm_lsm ?tm = tm_lsm (fa_tx fa)" "tm_chains ?tm = chain_append (tm_chains (fa_tx fa)) ?k ?v" "tx_id ?tx = ?t" "touched_keys ?tx = [?k]"
    using B by simp_all
  have "GetLatestActiveForTxn (tm_chains ?tm) ?k (tx_id ?tx) = Some ?v"
    unfolding tm GetLatest_chain by (simp add: act)
  then have lp: "commit_wal_loop wal_ops_of i (tm_chains ?tm) (tx_id ?tx) q [?k] w =
      (let (s, w') = wal_write i q x w in if \<not> ok s then (s, w') else (OK, w'))" for i q w
    by (cases x) (simp_all add: wal_write_def wal_ops_of_def VersionRecord_def split: prod.split)
  from Commit_outcome(2) [OF c(1) w(2)] obtain w w1 where
    W: "tm_chains tm1 = snd (MarkTransactionCommitted (tm_chains ?tm) ?t (snap_gen (fa_tx fa)))" "snap_gen tm1 = snap_gen (fa_tx fa) + 1"
    "tm_wal (fa_tx fa) = Some w" "commit_wal_loop wal_ops_of (cf_id (fa_tx fa)) (tm_chains ?tm) ?t (snap_gen (fa_tx fa)) [?k] w = (OK, w1)"
    "ok (fst (Wal_Sync w1))" "tm_wal tm1 = Some (snd (Wal_Sync w1))"
    unfolding tm by (auto simp: wal_ops_of_def)
  have ww: "\<exists>s. wal_write (cf_id (fa_tx fa)) (snap_gen (fa_tx fa)) x w = (s, w1) \<and> ok s"
    using W(4) [unfolded tm lp [unfolded tm]] by (auto split: prod.splits if_splits)
  have fin: "tx_finished tx1"
    by (rule Txn_Commit_finished [OF c(1) w(2)]) (simp add: B default_txn_options_def)
  have keep: "tm_lsm tm1 = tm_lsm (fa_tx fa)" "cf_id tm1 = cf_id (fa_tx fa)" using Txn_Commit_keeps [OF c(1)] tm by simp_all
  show ?thesis
    unfolding c(2) Txn_destroy_keeps(1-4) Txn_destroy_keeps(5) [OF fin] using W ww keep c(3,4) tm(5) by auto
qed

section \<open>The log of the acknowledged writes\<close>

lemma WriteRecordInternal_fs:
  assumes l: "log_holds wm rs" and w: "WriteRecordInternal r wm = (s, wm')" "ok s"
    and z: "length (concat (map frame rs)) < wm_max_size wm" "\<not> wm_sync_on_write wm"
  shows "\<exists>d. wm_fs wm' = fs_write (wm_fs wm) (wm_filename wm) d"
proof -
  have en: "ensure_writer wm = (OK, wm)"
    using l z(1) by (auto simp: ensure_writer_def ShouldSwitchWAL_def log_holds_def)
  obtain s1 wm1 where ch: "check_record r wm = (s1, wm1)" by fastforce
  have ws: "write_and_sync r wm1 = (s, wm')"
    using w en ch by (auto simp: WriteRecordInternal_def Let_def split: if_splits)
  have same: "wm_writer wm1 = wm_writer wm" "wm_fs wm1 = wm_fs wm" "wm_sync_on_write wm1 = wm_sync_on_write wm"
    using check_record_same [OF ch] by simp_all
  obtain x where x: "wm_writer wm1 = Some x" "ww_filename x = wm_filename wm"
    using l same(1) by (auto simp: log_holds_def)
  obtain s2 x' fs' where wr: "Writer_WriteRecord x r (wm_fs wm1) = (s2, x', fs')" by (cases "Writer_WriteRecord x r (wm_fs wm1)")
  have s2: "ok s2" "wm_fs wm' = fs'"
    using ws w(2) wr x(1) z(2) same(3)
    by (auto simp: write_and_sync_def with_writer_def simp del: length_WAL_Encode split: if_splits)
  show ?thesis using Writer_WriteRecord_OK(1) [OF wr s2(1)] s2(2) by (auto simp: x(2) same(2))
qed

lemma Wal_Sync_fs:
  assumes "log_holds wm rs" "ok (fst (Wal_Sync wm))"
  shows "wm_fs (snd (Wal_Sync wm)) = fs_fsync (wm_fs wm) (wm_filename wm)"
proof -
  obtain x where x: "wm_writer wm = Some x" "ww_filename x = wm_filename wm" using assms(1) by (auto simp: log_holds_def)
  obtain s x' fs' where sy: "Writer_Sync x (wm_fs wm) = (s, x', fs')" by (cases "Writer_Sync x (wm_fs wm)")
  then have "ok s" "wm_fs (snd (Wal_Sync wm)) = fs'" using assms(2) x(1) by (simp_all add: Wal_Sync_def with_writer_def)
  then show ?thesis using Writer_Sync_OK [OF sy] by (simp add: x(2))
qed

lemma wal_write_record:
  assumes "wal_write i s x w = (s1, w1)" "ok s1"
  shows "WriteRecordInternal (write_record i s x) w = (s1, w1)"
  using assms by (cases x) (auto simp: wal_write_def Wal_WritePut_def Wal_WriteDelete_def split: if_splits)

text \<open>The state of a log that has only been written to since it was created: one file, on disk since
  the first sync.\<close>

definition log_state :: "string \<Rightarrow> wal_side \<Rightarrow> wal_record list \<Rightarrow> bool" where
  "log_state path w rs \<longleftrightarrow> log_holds w rs \<and> wm_filename w = first_log path \<and> wm_max_size w = 64 * 1024 * 1024 \<and>
     \<not> wm_sync_on_write w \<and> os_all (wm_fs w) \<and> fs_scan (wm_fs w) \<ge> 2 \<and>
     (if rs = [] then fs_disk (wm_fs w) = []
      else map fst (fs_disk (wm_fs w)) = [first_log path] \<and> disk_holds w rs)"

lemma log_state_write:
  assumes l: "log_state path w rs" and w: "wal_write i s x w = (s1, w1)" "ok s1" "ok (fst (Wal_Sync w1))"
    and z: "length (concat (map frame rs)) < 64 * 1024 * 1024"
  shows "log_state path (snd (Wal_Sync w1)) (rs @ [write_record i s x])"
proof -
  let ?w = "snd (Wal_Sync w1)" and ?r = "write_record i s x" and ?f = "first_log path"
  have L: "log_holds w rs" "wm_filename w = ?f" "wm_max_size w = 64 * 1024 * 1024" "\<not> wm_sync_on_write w" "os_all (wm_fs w)"
    "fs_scan (wm_fs w) \<ge> 2" "fs_disk (wm_fs w) = [] \<or> map fst (fs_disk (wm_fs w)) = [?f]"
    using l by (auto simp: log_state_def split: if_splits)
  have z': "length (concat (map frame rs)) < wm_max_size w" using z by (simp add: L(3))
  note R = wal_write_record [OF w(1,2)]
  note W = WriteRecordInternal_log [OF L(1) R w(2) z']
  obtain d where d: "wm_fs w1 = fs_write (wm_fs w) ?f d" using WriteRecordInternal_fs [OF L(1) R w(2) z' L(4)] unfolding L(2) by blast
  have sy: "with_writer Writer_Sync w1 = (fst (Wal_Sync w1), ?w)" by (simp add: Wal_Sync_def)
  note S = Sync_log_holds [OF W(1) sy w(3)]
  have fs: "wm_fs ?w = fs_fsync (fs_write (wm_fs w) ?f d) ?f" using Wal_Sync_fs [OF W(1) w(3)] by (simp add: d W(2) L(2))
  have "map fst (fs_disk (wm_fs ?w)) = [?f]"
    using L(7) by (auto simp: fs fs_fsync_def fs_write_def keys_al_put)
  moreover have "os_all (wm_fs ?w)" "fs_scan (wm_fs ?w) \<ge> 2"
    using L(5,6) by (simp_all add: fs os_all_def os_allows_def fs_fsync_def fs_write_def)
  ultimately show ?thesis using S W(2-4) L(2-4) by (simp add: log_state_def)
qed

lemma write_record_fields [simp]:
  "wr_seq (write_record i s x) = s" "wr_key (write_record i s x) = write_key x" "wr_txn (write_record i s x) = 0"
  by (cases x; simp add: wal_data_record_def)+

lemma write_log_snoc: "write_log i s (ws @ [x]) = write_log i s ws @ [write_record i (s + of_nat (length ws)) x]"
  by (induction ws arbitrary: s) (simp_all add: algebra_simps)

lemma length_write_log [simp]: "length (write_log i s ws) = length ws" by (induction ws arbitrary: s) simp_all

lemma write_log_Nil [simp]: "write_log i s ws = [] \<longleftrightarrow> ws = []" by (cases ws) simp_all

lemma write_log_ordered:
  assumes "0 < unat s" "unat s + length ws < 2 ^ 56"
  shows "ordered_log (write_log i s ws) \<and> (\<forall>r \<in> set (write_log i s ws). s \<le> wr_seq r)"
  using assms
proof (induction ws arbitrary: s)
  case (Cons x ws)
  have u: "unat (s + 1) = unat s + 1" using Cons.prems by (simp add: unat_word_ariths)
  have IH: "ordered_log (write_log i (s + 1) ws)" "\<forall>r \<in> set (write_log i (s + 1) ws). s + 1 \<le> wr_seq r"
    using Cons.IH [of "s + 1"] Cons.prems u by simp_all
  have lt: "s < wr_seq r" if "r \<in> set (write_log i (s + 1) ws)" for r
    using bspec [OF IH(2) that] u by (simp add: word_less_nat_alt word_le_nat_alt)
  have "s < 2 ^ 56" using Cons.prems(2) by (simp add: word_less_nat_alt)
  then have "data_record (write_record i s x)"
    by (cases x) (simp_all add: data_record_def wal_data_record_def)
  then show ?case using IH(1) lt Cons.prems(1) by (fastforce simp: ordered_log_def word_gt_0 unat_gt_0)
qed (simp add: ordered_log_def)

lemma writes_answer_snoc:
  "writes_answer (ws @ [x]) key = (if write_key x = key then (case x of FPut k v \<Rightarrow> (OK, Some v) | FDelete k \<Rightarrow> (NotFound ''Key was deleted'', None))
    else writes_answer ws key)"
  by (simp add: writes_answer_def split: family_write.splits)

lemma log_answer_writes: "log_answer (write_log i s ws) key = writes_answer ws key"
proof (induction ws rule: rev_induct)
  case Nil
  then show ?case by (simp add: log_answer_def writes_answer_def)
next
  case (snoc x ws)
  have "log_answer (rs @ [r]) key = (if wr_key r = key then if wr_type r = WAL_kPut then (OK, Some (wr_value r)) else (NotFound ''Key was deleted'', None)
      else log_answer rs key)" for rs r
    by (simp add: log_answer_def)
  then show ?case unfolding write_log_snoc writes_answer_snoc snoc [symmetric]
    by (cases x) (simp_all add: wal_data_record_def)
qed

text \<open>The chain of a key holds committed versions; the last is that of the last write.\<close>

definition chain_shows :: "version_record list \<Rightarrow> family_write option \<Rightarrow> bool" where
  "chain_shows c x \<longleftrightarrow> (\<forall>r \<in> set c. vr_state r = kCommitted) \<and>
     (case x of None \<Rightarrow> c = []
      | Some (FPut k v) \<Rightarrow> c \<noteq> [] \<and> \<not> is_delete (last c) \<and> vr_value (last c) = v
      | Some (FDelete k) \<Rightarrow> c \<noteq> [] \<and> is_delete (last c))"

definition family_state :: "platform \<Rightarrow> string \<Rightarrow> fs \<Rightarrow> u32 \<Rightarrow> column_family \<Rightarrow> family_write list \<Rightarrow> bool" where
  "family_state P path fs i fa ws \<longleftrightarrow> fa_active fa \<and> fa_comparator fa = Bytewise_ref \<and> cf_id (fa_tx fa) = i \<and>
     snap_gen (fa_tx fa) = 1 + of_nat (length ws) \<and>
     (\<exists>w. tm_wal (fa_tx fa) = Some w \<and> log_state path w (write_log i 1 ws)) \<and>
     (\<exists>l. tm_lsm (fa_tx fa) = Some l \<and> ls_fs l = fs \<and> quiet fs (ls_tree l) (\<lambda>_. []) \<and> tables_of (ls_tree l) (\<lambda>_. []) = []) \<and>
     (\<forall>key. chain_shows (chain_of (tm_chains (fa_tx fa)) key) (find (\<lambda>x. write_key x = key) (rev ws)))"

definition log_size :: "u32 \<Rightarrow> family_write list \<Rightarrow> nat" where
  "log_size i ws = length (concat (map frame (write_log i 1 ws)))"

lemma family_state_write:
  assumes st: "family_state P path fs i fa ws" and w: "do_write x fa = (Done s, fa')" "ok s"
    and z: "log_size i ws < 64 * 1024 * 1024"
  shows "family_state P path fs i fa' (ws @ [x])"
proof -
  have a: "fa_active fa" "cf_id (fa_tx fa) = i" "snap_gen (fa_tx fa) = 1 + of_nat (length ws)" using st by (simp_all add: family_state_def)
  obtain w where lw: "tm_wal (fa_tx fa) = Some w" "log_state path w (write_log i 1 ws)" using st by (auto simp: family_state_def)
  from acknowledged_write [OF w a(1), unfolded lw(1) a(2,3)] obtain s1 w1 where
    A: "wal_write i (1 + of_nat (length ws)) x w = (s1, w1)" "ok s1" "ok (fst (Wal_Sync w1))" "tm_wal (fa_tx fa') = Some (snd (Wal_Sync w1))"
    "snap_gen (fa_tx fa') = 1 + of_nat (length ws) + 1" "tm_lsm (fa_tx fa') = tm_lsm (fa_tx fa)" "cf_id (fa_tx fa') = i"
    "tm_chains (fa_tx fa') = snd (MarkTransactionCommitted (chain_append (tm_chains (fa_tx fa)) (write_key x)
        (write_version x (txn_gen (fa_tx fa)))) (txn_gen (fa_tx fa)) (1 + of_nat (length ws)))"
    "fa_active fa'" "fa_comparator fa' = fa_comparator fa" by blast
  have lg: "log_state path (snd (Wal_Sync w1)) (write_log i 1 (ws @ [x]))"
    unfolding write_log_snoc using log_state_write [OF lw(2) A(1-3)] z by (simp add: log_size_def)
  have com: "commit_record t q r = r" if "vr_state r = kCommitted" for t q r using that by (simp add: commit_record_def)
  have ver: "vr_state (commit_record t q (write_version x t)) = kCommitted" "is_delete (commit_record t q (write_version x t)) = is_delete (write_version x t)"
    "vr_value (commit_record t q (write_version x t)) = vr_value (write_version x t)" for t q
    by (cases x; simp add: commit_record_def VersionRecord_def)+
  have "chain_shows (chain_of (tm_chains (fa_tx fa')) key) (find (\<lambda>x. write_key x = key) (rev (ws @ [x])))" for key
  proof -
    have old: "chain_shows (chain_of (tm_chains (fa_tx fa)) key) (find (\<lambda>x. write_key x = key) (rev ws))"
      using st by (simp add: family_state_def)
    then have id: "map (commit_record t q) (chain_of (tm_chains (fa_tx fa)) key) = chain_of (tm_chains (fa_tx fa)) key" for t q
      using com by (auto simp: chain_shows_def intro: map_idI)
    show ?thesis
    proof (cases "write_key x = key")
      case True
      then show ?thesis using old id ver unfolding A(8) by (cases x) (auto simp: chain_shows_def VersionRecord_def)
    next
      case False
      then show ?thesis using old id unfolding A(8) by simp
    qed
  qed
  then show ?thesis using st A lg by (simp add: family_state_def add.assoc)
qed

lemma run_writes_state:
  assumes "family_state P path fs i fa pre" "run_writes ws fa = Some fa'" "log_size i (pre @ ws) \<le> 64 * 1024 * 1024"
  shows "family_state P path fs i fa' (pre @ ws)"
  using assms
proof (induction ws arbitrary: fa pre)
  case (Cons x ws)
  obtain s fa1 where 1: "do_write x fa = (Done s, fa1)" "ok s" "run_writes ws fa1 = Some fa'"
    using Cons.prems(2) by (auto split: prod.splits acquire_result.splits if_splits)
  have split: "write_log i s (xs @ y # ys) = write_log i s xs @ write_log i (s + of_nat (length xs)) (y # ys)" for s xs y ys
    by (induction xs arbitrary: s) (simp_all add: algebra_simps)
  have "log_size i pre < log_size i (pre @ x # ws)"
    unfolding log_size_def split by simp
  then have "log_size i pre < 64 * 1024 * 1024" using Cons.prems(3) by simp
  from family_state_write [OF Cons.prems(1) 1(1,2) this]
  have "family_state P path fs i fa1 (pre @ [x])" .
  from Cons.IH [OF this 1(3)] Cons.prems(3) show ?case by simp
qed simp

text \<open>A log directory nothing was ever written to.\<close>

definition new_log_disk :: "fs \<Rightarrow> bool" where
  "new_log_disk fs \<longleftrightarrow> fs_files fs = [] \<and> fs_disk fs = [] \<and> os_all fs \<and> 2 \<le> fs_scan fs"

lemma Wal_Initialize_new:
  assumes "new_log_disk fs"
  shows "\<exists>w. Wal_Initialize L (SetLSMTree (Some l) (WALManager_new path fs)) = Some (OK, w) \<and> wm_lsm w = Some l \<and>
    wm_last_sequence w = 0 \<and> log_holds w [] \<and> wm_filename w = first_log path \<and> wm_max_size w = 64 * 1024 * 1024 \<and>
    \<not> wm_sync_on_write w \<and> os_all (wm_fs w) \<and> fs_scan (wm_fs w) \<ge> 2 \<and> fs_disk (wm_fs w) = [] \<and>
    wm_initialized w \<and> \<not> wm_shutdown w"
proof -
  let ?wm = "(SetLSMTree (Some l) (WALManager_new path fs))\<lparr>wm_next_file := 0 + 1\<rparr>"
  let ?f = "first_log path"
  have d: "fs_files fs = []" "fs_disk fs = []" "os_all fs" "2 \<le> fs_scan fs" using assms by (simp_all add: new_log_disk_def)
  have W: "wm_writer ?wm = None" "wm_fs ?wm = fs" "wm_db_path ?wm = path" "wm_next_file ?wm = 1"
    by (simp_all add: SetLSMTree_def WALManager_new_def)
  have n1: "GenerateWALFilename ?wm (wm_next_file ?wm) = ?f" unfolding W(4) wal_names(1) W(3) ..
  have m: "max_file_number (wm_fs (SetLSMTree (Some l) (WALManager_new path fs))) x = 0" for x
    by (simp add: max_file_number_def dir_files_def d SetLSMTree_def WALManager_new_def)
  define wm where "wm = snd (CreateNewWALFile ?wm)"
  have cw: "CreateNewWALFile ?wm = (OK, wm)" and wm: "wm_fs wm = fs_write fs ?f []" "wm_lsm wm = Some l"
    "wm_filename wm = ?f" "log_holds wm []" "wm_last_sequence wm = 0" "wm_max_size wm = 64 * 1024 * 1024" "\<not> wm_sync_on_write wm"
    "\<not> wm_shutdown wm"
    using CreateNewWALFile_OK [OF W(1) _ n1] d W(2)
    by (simp_all add: wm_def SetLSMTree_def WALManager_new_def log_holds_def WALWriter_new_def fs_write_def fs_data_def)
  have "\<not> wm_initialized (SetLSMTree (Some l) (WALManager_new path fs))" by (simp add: SetLSMTree_def WALManager_new_def)
  then have "Wal_Initialize L (SetLSMTree (Some l) (WALManager_new path fs)) = Some (OK, wm\<lparr>wm_initialized := True\<rparr>)"
    unfolding Wal_Initialize_def Let_def m by (simp only: cw if_False if_True prod.case ok_OK not_True_eq_False less_irrefl)
  moreover have "log_holds (wm\<lparr>wm_initialized := True\<rparr>) []" using wm(4) by (simp add: log_holds_def)
  moreover have "os_all (fs_write fs ?f [])" using d(3) by (simp add: os_all_def os_allows_def fs_write_def)
  ultimately show ?thesis using wm d(2,4) by (intro exI [of _ "wm\<lparr>wm_initialized := True\<rparr>"]) (simp add: fs_write_def)
qed

definition unlocked :: "lock_manager \<Rightarrow> bool" where
  "unlocked lm \<longleftrightarrow> lm_ranges lm = [] \<and> lm_aborted lm = [] \<and> (\<forall>k. entry_of lm k = \<lparr>holders = [], waiters = []\<rparr>)"

definition wal_ready :: "wal_side \<Rightarrow> bool" where
  "wal_ready w \<longleftrightarrow> wm_initialized w \<and> \<not> wm_shutdown w"

definition family_ready :: "column_family \<Rightarrow> bool" where
  "family_ready fa \<longleftrightarrow> unlocked (tm_locks (fa_tx fa)) \<and> wal_ready (fa_wal fa)"

lemma new_family:
  assumes fo: "family_opens P i n opts db" "names = None \<or> names = Some []" and d: "new_log_disk lfs"
    and fs: "\<not> Env_FileExists fs (LastSequenceFilePath (family_path db i n))"
  shows "\<exists>fa. DefaultColumnFamily_new P i n opts db names lfs fs = Some (Inr fa) \<and>
    family_state P (family_path db i n) fs i fa [] \<and> family_ready fa"
proof -
  let ?path = "family_path db i n" and ?L = "lsm_recovery_of P Bytewise_Compare"
  obtain t where t: "LSMTree_Open Bytewise_Compare (pf_mkdir P) names (pf_sizeof_table P) (pf_sizeof_entry P)
      (new_tree (family_lsm_options opts ?path)) fs = (OK, t)" "quiet fs t (\<lambda>_. [])" "tables_of t (\<lambda>_. []) = []"
    using open_new_tree [OF fo, of fs] by (elim exE conjE)
  let ?l = "\<lparr>ls_tree = t, ls_fs = fs, ls_crashed = False\<rparr>"
  have o: "n \<noteq> []" "co_comparator opts = Some Bytewise_ref" using fo(1) by (simp_all add: family_opens_def)
  obtain w where w: "Wal_Initialize ?L (SetLSMTree (Some ?l) (WALManager_new ?path lfs)) = Some (OK, w)" "wm_lsm w = Some ?l"
    "wm_last_sequence w = 0" "log_holds w []" "wm_filename w = first_log ?path" "wm_max_size w = 64 * 1024 * 1024"
    "\<not> wm_sync_on_write w" "os_all (wm_fs w)" "fs_scan (wm_fs w) \<ge> 2" "fs_disk (wm_fs w) = []"
    "wm_initialized w" "\<not> wm_shutdown w"
    using Wal_Initialize_new [OF d, where L = ?L and l = ?l and path = ?path] by (elim exE conjE)
  have p: "persisted_sequence ?path fs = 0" using fs by (simp add: persisted_sequence_def)
  have gl: "GetLastSequence w = 0" by (simp add: GetLastSequence_def w(3))
  define fa where "fa = \<lparr>fa_id = i, fa_name = n, fa_options = opts, fa_comparator = Bytewise_ref, fa_path = ?path,
     fa_active = True, fa_refs = 1, fa_tx = TxManager_new (w\<lparr>wm_lsm := None\<rparr>) ?l i\<rparr>"
  have c: "compare_of P Bytewise_ref = Bytewise_Compare" by simp
  have run: "DefaultColumnFamily_new P i n opts db names lfs fs = Some (Inr fa)"
    unfolding DefaultColumnFamily_new_def o(2) option.case c Let_def t(1)
    using o(1) p by (simp add: w gl fa_def del: compare_of.simps)
  have "log_state ?path (w\<lparr>wm_lsm := None\<rparr>) []" using w by (simp add: log_state_def log_holds_def)
  then have "family_state P ?path fs i fa []"
    using t(2,3) by (simp add: family_state_def fa_def TxManager_new_def chain_shows_def chain_of_def)
  moreover have "family_ready fa"
    using w(11,12) by (simp add: family_ready_def fa_def TxManager_new_def unlocked_def LockManager_new_def entry_of_def wal_ready_def)
  ultimately show ?thesis using run by blast
qed

lemma record_frame_length: "r \<in> set rs \<Longrightarrow> length (WAL_Encode r) \<le> length (concat (map frame rs))"
proof -
  assume "r \<in> set rs"
  then obtain xs ys where "rs = xs @ r # ys" by (meson split_list)
  then show ?thesis by simp
qed

lemma log_facts:
  assumes "log_size i ws \<le> 64 * 1024 * 1024"
  shows "\<forall>r \<in> set (write_log i 1 ws). wr_readable r" "ordered_log (write_log i 1 ws)"
proof -
  have "wr_readable r" if "r \<in> set (write_log i 1 ws)" for r
    unfolding wr_readable_def using record_frame_length [OF that] assms unfolding log_size_def by linarith
  then show "\<forall>r \<in> set (write_log i 1 ws). wr_readable r" by blast
  have "length ws \<le> log_size i ws" using length_concat_frames [of "write_log i 1 ws"] by (simp add: log_size_def)
  then show "ordered_log (write_log i 1 ws)" using assms write_log_ordered [of 1 ws i] by simp
qed

section \<open>Writes that succeed\<close>

lemma entry_of_ReleaseAll: "entry_of (ReleaseAll lm t) k = drop_holder t (entry_of lm k)"
  by (cases "map_of (lm_table lm) k") (simp_all add: ReleaseAll_def entry_of_def map_of_map_snd drop_holder_def)

lemma acquire_unlocked:
  assumes "unlocked lm"
  obtains lm' where "Acquire_start lm key t kExclusiveLock timeout = (Done OK, lm')" "unlocked (ReleaseAll lm' t)"
proof -
  have u: "lm_ranges lm = []" "lm_aborted lm = []" "\<And>k. entry_of lm k = \<lparr>holders = [], waiters = []\<rparr>"
    using assms by (simp_all add: unlocked_def)
  have s: "lm_ranges (set_entry k e l) = lm_ranges l" "lm_aborted (set_entry k e l) = lm_aborted l" for k e l by (simp_all add: set_entry_def)
  let ?e = "\<lparr>holders = [\<lparr>lr_txn = t, lr_type = kExclusiveLock\<rparr>], waiters = []\<rparr>"
  let ?lm = "set_entry key ?e (set_entry key \<lparr>holders = [], waiters = []\<rparr> lm)"
  have "range_gate [] key kExclusiveLock t timeout = None" by (simp add: range_gate_def RangeConflicts_def lock_mutex_def)
  then have "Acquire_start lm key t kExclusiveLock timeout = (Done OK, ?lm)"
    using u by (simp add: Acquire_start_def s Let_def CanGrant_def)
  moreover have "unlocked (ReleaseAll ?lm t)"
    unfolding unlocked_def entry_of_ReleaseAll using u by (simp add: ReleaseAll_def s drop_holder_def)
  ultimately show thesis using that by blast
qed

lemma wal_write_succeeds:
  assumes l: "log_state path w rs" "wal_ready w" and x: "write_key x \<noteq> []" "0 < s"
    and z: "length (concat (map frame rs)) < 64 * 1024 * 1024" "length (WAL_Encode (write_record i s x)) \<le> 128 * 1024 * 1024"
  shows "\<exists>w1. wal_write i s x w = (OK, w1) \<and> ok (fst (Wal_Sync w1)) \<and> wal_ready (snd (Wal_Sync w1))"
proof -
  let ?r = "write_record i s x"
  obtain y where y: "wm_writer w = Some y" "ww_is_open y" "ww_file y = Some False" "ww_filename y = wm_filename w"
    "ww_file_size y = length (concat (map frame rs))"
    using l(1) by (auto simp: log_state_def log_holds_def)
  have L: "wm_max_size w = 64 * 1024 * 1024" "\<not> wm_sync_on_write w" "os_all (wm_fs w)" using l(1) by (simp_all add: log_state_def)
  have en: "ensure_writer w = (OK, w)" using y z(1) L(1) by (simp add: ensure_writer_def ShouldSwitchWAL_def)
  have ch: "check_record ?r w = (OK, w)" using x(2) by (cases x) (simp_all add: check_record_def wal_data_record_def)
  have os: "fs_can_write (wm_fs w) f" "fs_can_open (wm_fs w) f" "fs_can_sync (wm_fs w) f" for f
    using L(3) by (simp_all add: os_all_def os_allows_def)
  have wr: "\<exists>y' fs'. Writer_WriteRecord y ?r (wm_fs w) = (OK, y', fs') \<and> ww_is_open y' \<and> ww_file y' = Some False \<and> same_os (wm_fs w) fs'"
    using y os z(2) by (simp add: Writer_WriteRecord_def Writer_WriteRecordInternal_def Writer_append_def Let_def del: length_WAL_Encode)
  then obtain y' fs' where y': "Writer_WriteRecord y ?r (wm_fs w) = (OK, y', fs')" "ww_is_open y'" "ww_file y' = Some False" "same_os (wm_fs w) fs'"
    by blast
  let ?w = "w\<lparr>wm_writer := Some y', wm_fs := fs'\<rparr>"
  let ?w1 = "?w\<lparr>wm_total_records := wm_total_records w + 1, wm_total_bytes := wm_total_bytes w + length (WAL_Encode ?r), wm_last_sequence := s\<rparr>"
  have "WriteRecordInternal ?r w = (OK, ?w1)"
    using l(2) L(2) y(1) y'(1) by (simp add: WriteRecordInternal_def wal_ready_def en ch write_and_sync_def with_writer_def del: length_WAL_Encode)
  then have "wal_write i s x w = (OK, ?w1)"
    using x(1) by (cases x) (simp_all add: wal_write_def Wal_WritePut_def Wal_WriteDelete_def)
  moreover have "fs_can_open fs' f" "fs_can_sync fs' f" for f using y'(4) os by (simp_all add: same_os_def)
  then have "Writer_Sync y' fs' = (OK, y'\<lparr>ww_unsynced := 0\<rparr>, fs_fsync fs' (ww_filename y'))"
    using y'(2,3) by (simp add: Writer_Sync_def Let_def)
  then have "ok (fst (Wal_Sync ?w1))" "wal_ready (snd (Wal_Sync ?w1))"
    using l(2) by (simp_all add: Wal_Sync_def with_writer_def wal_ready_def)
  ultimately show ?thesis by blast
qed

lemma unlocked_ReleaseAll: "unlocked lm \<Longrightarrow> unlocked (ReleaseAll lm t)"
  unfolding unlocked_def entry_of_ReleaseAll by (simp add: ReleaseAll_def drop_holder_def)

lemma Commit_OK:
  assumes "\<not> enable_rr_validation (tx_opts tx)" "tm_wal tm = Some w"
    and "commit_wal_loop W (cf_id tm) (tm_chains tm) (tx_id tx) (snap_gen tm) (touched_keys tx) w = (OK, w1)" "ok (fst (WalSync W w1))"
  shows "\<exists>tm'. Txn_Commit W tm tx False = (OK, tx\<lparr>touched_keys := [], tx_finished := True\<rparr>, tm') \<and>
    tm_locks tm' = ReleaseAll (tm_locks tm) (tx_id tx) \<and> tm_wal tm' = Some (snd (WalSync W w1))"
  using assms by (cases "WalSync W w1") (auto simp: Txn_Commit_def PrepareCommit_def Gen_Next_def OnCommitted_def Let_def split: prod.splits)

lemma write_succeeds:
  assumes st: "family_state P path fs i fa ws" "family_ready fa" and x: "write_key x \<noteq> []"
    and z: "log_size i (ws @ [x]) \<le> 64 * 1024 * 1024"
  shows "\<exists>fa'. do_write x fa = (Done OK, fa') \<and> family_ready fa'"
proof -
  let ?t = "txn_gen (fa_tx fa)" and ?k = "write_key x" and ?v = "write_version x (txn_gen (fa_tx fa))"
  have a: "fa_active fa" "cf_id (fa_tx fa) = i" "snap_gen (fa_tx fa) = 1 + of_nat (length ws)" using st(1) by (simp_all add: family_state_def)
  obtain w where w: "tm_wal (fa_tx fa) = Some w" "log_state path w (write_log i 1 ws)" "wal_ready w"
    using st by (auto simp: family_state_def family_ready_def)
  have zf: "length (concat (map frame (write_log i 1 (ws @ [x])))) \<le> 64 * 1024 * 1024" using z by (simp only: log_size_def)
  have zr: "length (concat (map frame (write_log i 1 ws))) < 64 * 1024 * 1024"
    "length (WAL_Encode (write_record i (1 + of_nat (length ws)) x)) \<le> 128 * 1024 * 1024"
    using zf unfolding write_log_snoc map_append concat_append length_append by simp_all
  have "length ws \<le> 64 * 1024 * 1024"
    using length_concat_frames [of "write_log i 1 (ws @ [x])"] zf unfolding length_write_log by simp
  then have "unat (1 + of_nat (length ws) :: u64) = 1 + length ws" by (simp add: unat_word_ariths unat_of_nat)
  then have "(0 :: u64) < 1 + of_nat (length ws)" by (simp add: word_less_nat_alt)
  from wal_write_succeeds [OF w(2,3) x this zr] obtain w1 where
    w1: "wal_write i (1 + of_nat (length ws)) x w = (OK, w1)" "ok (fst (Wal_Sync w1))" "wal_ready (snd (Wal_Sync w1))" by blast
  obtain tx tm where b: "TxManager_Begin (fa_tx fa) default_txn_options = (tx, tm)" by fastforce
  then have B: "tx_id tx = ?t" "touched_keys tx = []" "tx_opts tx = default_txn_options" "tm_chains tm = tm_chains (fa_tx fa)"
    "tm_wal tm = tm_wal (fa_tx fa)" "cf_id tm = cf_id (fa_tx fa)" "snap_gen tm = snap_gen (fa_tx fa)" "tm_locks tm = tm_locks (fa_tx fa)"
    by (auto simp: TxManager_Begin_def Gen_Next_def TransactionImpl_def Let_def)
  have "unlocked (tm_locks tm)" using st(2) B(8) by (simp add: family_ready_def)
  then obtain lm where acq: "Acquire_start (tm_locks tm) ?k (tx_id tx) kExclusiveLock (lock_timeout (tx_opts tx)) = (Done OK, lm)"
    "unlocked (ReleaseAll lm (tx_id tx))" by (rule acquire_unlocked)
  let ?tx = "tx\<lparr>touched_keys := [?k]\<rparr>"
  let ?tm = "tm\<lparr>tm_locks := lm, tm_chains := chain_append (tm_chains tm) ?k ?v\<rparr>"
  have act: "vr_txn ?v = ?t" "vr_state ?v = kActive" by (cases x; simp add: VersionRecord_def)+
  have "GetLatestActiveForTxn (tm_chains ?tm) ?k (tx_id ?tx) = Some ?v"
    using B unfolding GetLatest_chain by (simp add: act)
  then have "commit_wal_loop wal_ops_of (cf_id ?tm) (tm_chains ?tm) (tx_id ?tx) (snap_gen ?tm) (touched_keys ?tx) w = (OK, w1)"
    using w1(1) a B by (cases x) (simp_all add: wal_write_def wal_ops_of_def VersionRecord_def)
  from Commit_OK [OF _ _ this] obtain tm' where
    c: "Txn_Commit wal_ops_of ?tm ?tx False = (OK, ?tx\<lparr>touched_keys := [], tx_finished := True\<rparr>, tm')"
    "tm_locks tm' = ReleaseAll lm (tx_id tx)" "tm_wal tm' = Some (snd (Wal_Sync w1))"
    using w1(2) w(1) B by (auto simp: wal_ops_of_def default_txn_options_def)
  let ?fa = "fa\<lparr>fa_tx := Txn_destroy tm' (?tx\<lparr>touched_keys := [], tx_finished := True\<rparr>)\<rparr>"
  have "do_write x fa = (Done OK, ?fa)"
    using a(1) b acq(1) c(1) B(1,2)
    by (cases x) (simp_all add: Family_Put_def Family_Delete_def Txn_Put_def Txn_Delete_def Txn_Put_locked_def Txn_Delete_locked_def
        VCM_PutActive_def VCM_DeleteActive_def TxManager_finish_def finish_delete_def List.insert_def)
  moreover have "family_ready ?fa"
    using c(2,3) acq(2) w1(3) unlocked_ReleaseAll by (simp add: family_ready_def Txn_destroy_def)
  ultimately show ?thesis by blast
qed

lemma writes_succeed:
  assumes "family_state P path fs i fa pre" "family_ready fa" "\<forall>x \<in> set ws. write_key x \<noteq> []" "log_size i (pre @ ws) \<le> 64 * 1024 * 1024"
  shows "\<exists>fa'. run_writes ws fa = Some fa'"
  using assms
proof (induction ws arbitrary: fa pre)
  case (Cons x ws)
  have split: "write_log i s (xs @ ys) = write_log i s xs @ write_log i (s + of_nat (length xs)) ys" for s xs ys
    by (induction xs arbitrary: s) (simp_all add: algebra_simps)
  have "log_size i (pre @ x # ws) = log_size i ((pre @ [x]) @ ws)" by simp
  then have z: "log_size i (pre @ [x]) \<le> 64 * 1024 * 1024" "log_size i pre < 64 * 1024 * 1024"
    using Cons.prems(4) unfolding log_size_def split by simp_all
  from write_succeeds [OF Cons.prems(1,2) _ z(1)] Cons.prems(3) obtain fa1 where
    1: "do_write x fa = (Done OK, fa1)" "family_ready fa1" by auto
  have "family_state P path fs i fa1 (pre @ [x])" by (rule family_state_write [OF Cons.prems(1) 1(1) ok_OK z(2)])
  from Cons.IH [OF this 1(2)] Cons.prems(3,4) show ?case using 1(1) by simp
qed simp

lemma reopened_family_log:
  assumes "family_opens P i n opts db" "names = None \<or> names = Some []"
    and "log_dir (family_path db i n) [''000001.wal''] lfs" "os_all lfs" "2 \<le> fs_scan lfs"
    and "map_of (fs_files lfs) (first_log (family_path db i n)) = Some (concat (map frame rs) @ tail)" "length tail < 4"
    and "\<forall>r \<in> set rs. wr_readable r" "ordered_log rs"
    and "flushes (pf_now P) (mem_run Bytewise_Compare (map record_op rs) (recovery_table P))"
    and "os_all fs" "\<not> Env_FileExists fs (LastSequenceFilePath (family_path db i n))"
  shows "\<exists>fa. DefaultColumnFamily_new P i n opts db names lfs fs = Some (Inr fa) \<and>
    (\<forall>key. Family_Get P key fa = Some (log_answer rs key))"
proof -
  let ?m = "fold max (map wr_seq rs) 0"
  obtain fa l c where f: "DefaultColumnFamily_new P i n opts db names lfs fs = Some (Inr fa)" "fa_active fa" "fa_comparator fa = Bytewise_ref"
    "tm_chains (fa_tx fa) = []" "tm_lsm (fa_tx fa) = Some l" "quiet (ls_fs l) (ls_tree l) c"
    "set (concat (tables_of (ls_tree l) c)) = op_entry ` record_op ` set rs" "snap_gen (fa_tx fa) = ?m + 1"
    using reopen_family [OF assms] by (elim exE conjE)
  have "?m < 2 ^ 56" using assms(9) by (intro max_sequence_bound) (auto simp: ordered_log_def data_record_def)
  then have "?m + 1 \<noteq> 0" by (simp add: word_less_nat_alt unat_eq_0 [symmetric] unat_word_ariths)
  then have cur: "Gen_Current (snap_gen (fa_tx fa)) = ?m" by (simp add: Gen_Current_def f(8) word_gt_0)
  have vis: "\<forall>r \<in> set rs. visible_at ?m (wr_seq r)" "\<forall>r \<in> set rs. visible_at 0 (wr_seq r)"
    using max_sequence_bound(1) [of rs 0] by (simp_all add: visible_at_def)
  have now: "pf_now P \<noteq> -1" using assms(1) by (simp add: family_opens_def)
  have ch: "chain_of (tm_chains (fa_tx fa)) key = []" for key by (simp add: f(4) chain_of_def)
  have "Family_Get P key fa = Some (log_answer rs key)" for key
    using Family_Get_quiet [OF f(2,3) ch f(5,6) now, of key] log_newest [OF assms(9) f(7) vis(1), of key] log_newest [OF assms(9) f(7) vis(2), of key]
    by (simp only: cur)
  then show ?thesis using f(1) by blast
qed

text \<open>What a power failure leaves.\<close>

definition after_crash :: "fs \<Rightarrow> fs" where "after_crash fs = fs\<lparr>fs_files := fs_disk fs\<rparr>"

section \<open>An example\<close>

definition example_platform :: platform where
  "example_platform = \<lparr>pf_compare = (\<lambda>_ _ _. 0), pf_sizeof_table = 100, pf_sizeof_entry = 50, pf_address = 0, pf_now = 1000,
     pf_mkdir = (\<lambda>_. OK), pf_capacity = 8191\<rparr>"

definition example_family_options :: cf_options where
  "example_family_options = ColumnFamilyOptions_new\<lparr>co_comparator := Some Bytewise_ref\<rparr>"

definition example_writes :: "family_write list" where
  "example_writes = [FPut [97] [1], FPut [98] [2], FDelete [97]]"

lemma example_opens: "family_opens example_platform 0 [100] example_family_options ''db''"
proof -
  have "family_path ''db'' 0 [100] = ''db/cf_0_d''" unfolding family_path_def by code_simp
  moreover have "unat (scast (2 :: u32) :: u64) = 2" by code_simp
  ultimately show ?thesis
    by (simp add: family_opens_def example_platform_def example_family_options_def ColumnFamilyOptions_new_def family_lsm_options_def
        LSMTreeOptions_def ValidateOptions_def)
qed

lemma example_disks: "new_log_disk fs_empty" "os_all fs_empty" "\<not> Env_FileExists fs_empty f" "\<not> Env_FileExists (after_crash fs_empty) f"
  by (simp_all add: new_log_disk_def os_all_def os_allows_def fs_empty_def Env_FileExists_def after_crash_def)

lemma example_size: "log_size 0 example_writes \<le> 64 * 1024 * 1024" "log_size 0 example_writes < 64 * 1024"
  by (simp_all add: log_size_def example_writes_def wal_data_record_def)

lemma example_log: "write_log 0 1 example_writes =
  [wal_data_record WAL_kPut 0 [97] [1] 1, wal_data_record WAL_kPut 0 [98] [2] 2, wal_data_record WAL_kDelete 0 [97] [] 3]"
  by (simp add: example_writes_def)

lemma example_flushes:
  "flushes (pf_now example_platform) (mem_run Bytewise_Compare (map record_op (write_log 0 1 example_writes)) (recovery_table example_platform))"
proof -
  let ?mt = "mem_run Bytewise_Compare (map record_op (write_log 0 1 example_writes)) (recovery_table example_platform)"
  have ents: "mem_entries ?mt = [(InternalKey [97] 3 kDeletion, []), (InternalKey [97] 1 kValue, [1]), (InternalKey [98] 2 kValue, [2])]"
    unfolding example_log
    by (simp add: mem_entries_def mem_run_def recovery_table_def MemTable_new_def record_op_def wal_data_record_def MemTable_Put_def MemTable_Delete_def
        MemTable_CreateEntry_def Let_def Compare_InternalKey Bytewise_Compare_lex seq_type_cmp_def)
  have mok: "mt_ok Bytewise_Compare ?mt"
    by (rule bytewise_user.run_ok) (use recovery_table_ok(1) in \<open>simp add: memtable_ok_def\<close>)
  show ?thesis by (rule flushes_small [OF mok]) (simp_all add: ents text_key_def entries_bound_def)
qed

lemma example_run:
  obtains fa fa' where "DefaultColumnFamily_new example_platform 0 [100] example_family_options ''db'' None fs_empty fs_empty = Some (Inr fa)"
    "run_writes example_writes fa = Some fa'"
proof -
  obtain fa where fa: "DefaultColumnFamily_new example_platform 0 [100] example_family_options ''db'' None fs_empty fs_empty = Some (Inr fa)"
    "family_state example_platform (family_path ''db'' 0 [100]) fs_empty 0 fa []" "family_ready fa"
    using new_family [OF example_opens _ example_disks(1,3)] by blast
  have "\<forall>x \<in> set example_writes. write_key x \<noteq> []" by (simp add: example_writes_def)
  from writes_succeed [OF fa(2,3) this] example_size(1) obtain fa' where "run_writes example_writes fa = Some fa'" by auto
  then show thesis using that fa(1) by blast
qed

section \<open>Properties\<close>



text \<open>C3: reads see the acknowledged writes. A new family that has acknowledged the writes \<open>ws\<close>, one
  after the other, answers every read with the last write to the key.\<close>

theorem family_reads_own_writes:
  assumes "family_opens P i n opts db" "names = None \<or> names = Some []" "new_log_disk lfs"
    and "\<not> Env_FileExists fs (LastSequenceFilePath (family_path db i n))"
    and "DefaultColumnFamily_new P i n opts db names lfs fs = Some (Inr fa)" "run_writes ws fa = Some fa'"
    and "log_size i ws \<le> 64 * 1024 * 1024"
  shows "Family_Get P key fa' = Some (writes_answer ws key)"
proof -
  let ?path = "family_path db i n"
  have "family_state P ?path fs i fa []" using new_family [OF assms(1-4)] assms(5) by auto
  from run_writes_state [OF this assms(6)] assms(7) have st: "family_state P ?path fs i fa' ws" by simp
  then have a: "fa_active fa'" "fa_comparator fa' = Bytewise_ref"
    "chain_shows (chain_of (tm_chains (fa_tx fa')) key) (find (\<lambda>x. write_key x = key) (rev ws))" by (simp_all add: family_state_def)
  obtain l where l: "tm_lsm (fa_tx fa') = Some l" "quiet (ls_fs l) (ls_tree l) (\<lambda>_. [])" "tables_of (ls_tree l) (\<lambda>_. []) = []"
    using st by (auto simp: family_state_def)
  have now: "pf_now P \<noteq> -1" using assms(1) by (simp add: family_opens_def)
  show ?thesis
  proof (cases "find (\<lambda>x. write_key x = key) (rev ws)")
    case None
    then have ch: "chain_of (tm_chains (fa_tx fa')) key = []" using a(3) by (simp add: chain_shows_def)
    have nv: "newest_visible [] key q = None" for q by (simp add: newest_visible_def)
    have "concat (tables_of (ls_tree l) (\<lambda>_. [])) = []" unfolding l(3) by simp
    from Family_Get_quiet [OF a(1,2) ch l(1,2) now, unfolded this nv] show ?thesis
      by (simp add: version_answer_def writes_answer_def None)
  next
    case (Some x)
    let ?c = "chain_of (tm_chains (fa_tx fa')) key" and ?view = "BuildReadView (fa_tx fa') 0 default_txn_options"
    have c: "?c \<noteq> []" "\<forall>r \<in> set ?c. vr_state r = kCommitted" using a(3) Some by (auto simp: chain_shows_def split: family_write.splits)
    then have r: "rev ?c = last ?c # rev (butlast ?c)" by (metis append_butlast_last_id rev.simps(2) rev_rev_ident rev_append rev_singleton_conv)
    have "vr_state (last ?c) = kCommitted" using c by simp
    then have v: "record_visible ?view (last ?c)"
      by (simp add: record_visible_def IsVisible_def BuildReadView_def default_txn_options_def ReadView_new_def)
    have g: "GetVisible (tm_chains (fa_tx fa')) key ?view =
        (if is_delete (last ?c) then (Deleted ''Key deleted at visible version'', None) else (OK, Some (vr_value (last ?c))))"
      by (simp add: GetVisible_chain r v)
    show ?thesis
      using a g Some by (cases x) (simp_all add: Family_Get_def TxManager_Get_def writes_answer_def chain_shows_def crash_status_def status_simps mk_status_def)
  qed
qed

theorem family_reads_own_writes_witness:
  "\<exists>fa fa'. DefaultColumnFamily_new example_platform 0 [100] example_family_options ''db'' None fs_empty fs_empty = Some (Inr fa) \<and>
     run_writes [FPut [97] [1], FPut [98] [2], FDelete [97]] fa = Some fa' \<and>
     Family_Get example_platform [97] fa' = Some (NotFound ''Key was deleted'', None) \<and>
     Family_Get example_platform [98] fa' = Some (OK, Some [2])"
proof -
  obtain fa fa' where r: "DefaultColumnFamily_new example_platform 0 [100] example_family_options ''db'' None fs_empty fs_empty = Some (Inr fa)"
    "run_writes example_writes fa = Some fa'" by (rule example_run)
  have "writes_answer example_writes [97] = (NotFound ''Key was deleted'', None)" "writes_answer example_writes [98] = (OK, Some [2])"
    by (simp_all add: writes_answer_def example_writes_def)
  then show ?thesis
    using family_reads_own_writes [OF example_opens _ example_disks(1,3) r example_size(1)] r unfolding example_writes_def by auto
qed



end
